(* ===== verification/Prelude.thy ===== *)
theory Prelude
  imports Main "HOL-Library.Word"
begin

text \<open>
  Shared vocabulary of the development: the machine integers of the Rust sources as words, the
  integer operations of Rust's core library that the sources call (checked, saturating and rounding
  arithmetic, little-endian bytes, bit counting), results with errors and panics, and the generic
  lemmas on words, bytes and lists that the components share.
\<close>

unbundle bit_operations_syntax

section \<open>Machine integers\<close>

text \<open>
  The fixed-width integers are words, so \<open>+\<close>, \<open>-\<close> and \<open>*\<close> wrap as they do in a
  release build. A \<open>usize\<close> that counts or indexes something in memory is a \<open>nat\<close>.
\<close>

type_synonym u8 = "8 word"
type_synonym u16 = "16 word"
type_synonym u32 = "32 word"
type_synonym u64 = "64 word"
type_synonym usize = nat
type_synonym bytes = "u8 list"

named_theorems word_nat \<open>moving word arithmetic and order to the naturals\<close>

lemmas word_nat_basic [word_nat] =
  word_le_nat_alt word_less_nat_alt unat_div unat_mod

definition checked_add :: "'a::len word \<Rightarrow> 'a word \<Rightarrow> 'a word option" where
  "checked_add a b = (if unat a + unat b < 2 ^ LENGTH('a) then Some (a + b) else None)"

definition saturating_add :: "'a::len word \<Rightarrow> 'a word \<Rightarrow> 'a word" where
  "saturating_add a b = (if unat a + unat b < 2 ^ LENGTH('a) then a + b else - 1)"

definition saturating_mul :: "'a::len word \<Rightarrow> 'a word \<Rightarrow> 'a word" where
  "saturating_mul a b = (if unat a * unat b < 2 ^ LENGTH('a) then a * b else - 1)"

definition saturating_sub :: "'a::len word \<Rightarrow> 'a word \<Rightarrow> 'a word" where
  "saturating_sub a b = (if b \<le> a then a - b else 0)"

definition div_ceil :: "'a::len word \<Rightarrow> 'a word \<Rightarrow> 'a word" where
  "div_ceil a b = (if a mod b = 0 then a div b else a div b + 1)"

text \<open>Rust: \<open>n.is_multiple_of(0)\<close> holds for 0 only; HOL's \<open>n mod 0 = n\<close> agrees.\<close>

definition is_multiple_of :: "'a::len word \<Rightarrow> 'a word \<Rightarrow> bool" where
  "is_multiple_of a b \<longleftrightarrow> a mod b = 0"

definition is_power_of_two :: "'a::len word \<Rightarrow> bool" where
  "is_power_of_two w \<longleftrightarrow> length (filter (\<lambda>i. bit w i) [0..<LENGTH('a)]) = 1"

definition count_zeros :: "'a::len word \<Rightarrow> nat" where
  "count_zeros w = length (filter (\<lambda>i. \<not> bit w i) [0..<LENGTH('a)])"

definition trailing_zeros :: "'a::len word \<Rightarrow> nat" where
  "trailing_zeros w =
     (case find (\<lambda>i. bit w i) [0..<LENGTH('a)] of Some i \<Rightarrow> i | None \<Rightarrow> LENGTH('a))"

definition u64_max :: u64 where
  "u64_max = - 1"

subsection \<open>Words and the naturals\<close>

lemma unat_minus_one_max: "unat (- 1 :: 'a::len word) = 2 ^ LENGTH('a) - 1"
  by (simp add: unsigned_minus_1_eq_mask mask_eq_exp_minus_1)

lemma unat_lt_pow: "unat (w :: 'a::len word) < 2 ^ LENGTH('a)"
  by (rule unsigned_less)

lemma unat_le_max: "unat (w :: 'a::len word) \<le> 2 ^ LENGTH('a) - 1"
  using unat_lt_pow [of w] by linarith

lemma unat_u64_bound: "unat (w :: u64) < 18446744073709551616"
  using unat_lt_pow [of w] by simp

lemma unat_u32_bound: "unat (w :: u32) < 4294967296"
  using unat_lt_pow [of w] by simp

lemma unat_u16_bound: "unat (w :: u16) < 65536"
  using unat_lt_pow [of w] by simp

lemma unat_u8_bound: "unat (w :: u8) < 256"
  using unat_lt_pow [of w] by simp

lemma unat_add_exact:
  "unat (a :: 'a::len word) + unat b < 2 ^ LENGTH('a) \<Longrightarrow> unat (a + b) = unat a + unat b"
  by (simp add: unat_word_ariths)

lemma unat_mult_exact:
  "unat (a :: 'a::len word) * unat b < 2 ^ LENGTH('a) \<Longrightarrow> unat (a * b) = unat a * unat b"
  by (simp add: unat_word_ariths)

lemma unat_sub_exact:
  "(b :: 'a::len word) \<le> a \<Longrightarrow> unat (a - b) = unat a - unat b"
  by (simp add: unat_sub_if_size word_le_nat_alt)

lemma unat_ucast_up:
  "LENGTH('a::len) \<le> LENGTH('b::len) \<Longrightarrow> unat (ucast (w :: 'a word) :: 'b word) = unat w"
  by (simp add: unsigned_ucast_eq take_bit_nat_eq_self unsigned_less [THEN order.strict_trans2])

lemma unat_of_nat_exact:
  "n < 2 ^ LENGTH('a) \<Longrightarrow> unat (of_nat n :: 'a::len word) = n"
  by (simp add: unat_of_nat)

lemma checked_add_Some_iff:
  "checked_add (a :: 'a::len word) b = Some c \<longleftrightarrow>
     unat a + unat b < 2 ^ LENGTH('a) \<and> unat c = unat a + unat b"
  unfolding checked_add_def
  by (auto simp: unat_add_exact simp flip: word_unat_eq_iff)
     (metis unat_add_exact word_unat_eq_iff)

lemma checked_add_None_iff:
  "checked_add (a :: 'a::len word) b = None \<longleftrightarrow> 2 ^ LENGTH('a) \<le> unat a + unat b"
  by (auto simp: checked_add_def)

lemma unat_saturating_add:
  "unat (saturating_add (a :: 'a::len word) b) = min (unat a + unat b) (2 ^ LENGTH('a) - 1)"
  using unat_lt_pow [of "a + b"]
  by (auto simp: saturating_add_def unat_add_exact unat_minus_one_max)

lemma unat_saturating_mul:
  "unat (saturating_mul (a :: 'a::len word) b) = min (unat a * unat b) (2 ^ LENGTH('a) - 1)"
  by (auto simp: saturating_mul_def unat_mult_exact unat_minus_one_max)

lemma unat_saturating_sub:
  "unat (saturating_sub (a :: 'a::len word) b) = unat a - unat b"
  by (auto simp: saturating_sub_def unat_sub_exact word_le_nat_alt)

lemma unat_div_ceil:
  "unat (div_ceil (a :: 'a::len word) b) =
     (if unat a mod unat b = 0 then unat a div unat b else unat a div unat b + 1)"
proof (cases "a mod b = 0")
  case True
  then have "unat a mod unat b = 0" by (metis unat_0 unat_mod)
  with True show ?thesis by (simp add: div_ceil_def unat_div)
next
  case False
  then have ne: "unat a mod unat b \<noteq> 0" by (metis unat_eq_zero unat_mod)
  have "unat a div unat b < unat a \<or> unat b = 1 \<or> unat a = 0"
    by (metis div_less_dividend gr0I less_one linorder_neqE_nat ne mod_by_0 div_by_0)
  with ne have "unat a div unat b + 1 \<le> unat a" by auto
  then have "unat (a div b) + unat (1 :: 'a word) < 2 ^ LENGTH('a)"
    using unat_lt_pow [of a] by (simp add: unat_div del: unsigned_less)
  then have "unat (a div b + 1) = unat (a div b) + 1"
    by (subst unat_add_exact) simp_all
  with False ne show ?thesis by (simp add: div_ceil_def unat_div)
qed

lemmas rust_arith [word_nat] =
  unat_saturating_add unat_saturating_mul unat_saturating_sub unat_div_ceil

subsection \<open>Bits\<close>

lemma bit_mask_one: "bit (push_bit k (1 :: 'a::len word)) i \<longleftrightarrow> i = k \<and> i < LENGTH('a)"
  by (auto simp: push_bit_eq_mult bit_exp_iff)

lemma all_ones_iff: "(w :: 'a::len word) = - 1 \<longleftrightarrow> (\<forall>i < LENGTH('a). bit w i)"
  by (auto simp: bit_eq_iff)

lemma trailing_zeros_first_clear:
  assumes "(w :: 'a::len word) \<noteq> - 1"
  shows "trailing_zeros (NOT w) < LENGTH('a)" and "\<not> bit w (trailing_zeros (NOT w))"
    and "\<And>i. i < trailing_zeros (NOT w) \<Longrightarrow> bit w i"
proof -
  from assms obtain i where i: "i < LENGTH('a)" "\<not> bit w i" by (auto simp: all_ones_iff)
  have "find (\<lambda>i. bit (NOT w) i) [0..<LENGTH('a)] \<noteq> None"
    using i by (auto simp: find_None_iff bit_not_iff)
  then obtain k where k: "find (\<lambda>i. bit (NOT w) i) [0..<LENGTH('a)] = Some k" by blast
  then have tz: "trailing_zeros (NOT w) = k" by (simp add: trailing_zeros_def)
  from k have "k < LENGTH('a)" "bit (NOT w) k" "\<forall>j < k. \<not> bit (NOT w) j"
    by (auto simp: find_Some_iff)
  then show "trailing_zeros (NOT w) < LENGTH('a)" "\<not> bit w (trailing_zeros (NOT w))"
    "\<And>i. i < trailing_zeros (NOT w) \<Longrightarrow> bit w i"
    by (auto simp: tz bit_not_iff)
qed

section \<open>Results, options and panics\<close>

text \<open>
  A Rust \<open>Result<T, E>\<close> is the sum \<open>'e + 'a\<close>, with \<open>Inl\<close> for \<open>Err\<close>. A function that
  can panic returns \<open>panic + 'a\<close>. The operator \<open>?\<close> is \<open>and_then\<close>.
\<close>

datatype panic = Panic string

definition and_then :: "'e + 'a \<Rightarrow> ('a \<Rightarrow> 'e + 'b) \<Rightarrow> 'e + 'b" where
  "and_then r f = (case r of Inl e \<Rightarrow> Inl e | Inr x \<Rightarrow> f x)"

definition map_err :: "('e \<Rightarrow> 'f) \<Rightarrow> 'e + 'a \<Rightarrow> 'f + 'a" where
  "map_err g r = (case r of Inl e \<Rightarrow> Inl (g e) | Inr x \<Rightarrow> Inr x)"

definition ok_or :: "'e \<Rightarrow> 'a option \<Rightarrow> 'e + 'a" where
  "ok_or e r = (case r of None \<Rightarrow> Inl e | Some x \<Rightarrow> Inr x)"

lemma and_then_simps [simp]:
  "and_then (Inl e) f = Inl e"
  "and_then (Inr x) f = f x"
  by (simp_all add: and_then_def)

lemma and_then_Inr_iff: "and_then r f = Inr y \<longleftrightarrow> (\<exists>x. r = Inr x \<and> f x = Inr y)"
  by (cases r) auto

lemma and_then_Inl_iff:
  "and_then r f = Inl e \<longleftrightarrow> r = Inl e \<or> (\<exists>x. r = Inr x \<and> f x = Inl e)"
  by (cases r) auto

lemma map_err_simps [simp]:
  "map_err g (Inl e) = Inl (g e)"
  "map_err g (Inr x) = Inr x"
  by (simp_all add: map_err_def)

lemma map_err_Inr_iff: "map_err g r = Inr y \<longleftrightarrow> r = Inr y"
  by (cases r) auto

lemma ok_or_simps [simp]:
  "ok_or e None = Inl e"
  "ok_or e (Some x) = Inr x"
  by (simp_all add: ok_or_def)

lemma ok_or_Inr_iff: "ok_or e r = Inr x \<longleftrightarrow> r = Some x"
  by (cases r) auto

section \<open>Lists as arrays and slices\<close>

text \<open>\<open>slice.get(i)\<close> and \<open>iter().position(p)\<close>.\<close>

definition get_at :: "'a list \<Rightarrow> usize \<Rightarrow> 'a option" where
  "get_at xs i = (if i < length xs then Some (xs ! i) else None)"

fun position :: "('a \<Rightarrow> bool) \<Rightarrow> 'a list \<Rightarrow> usize option" where
  "position p [] = None"
| "position p (x # xs) = (if p x then Some 0 else map_option Suc (position p xs))"

lemma position_Some_iff:
  "position p xs = Some i \<longleftrightarrow> i < length xs \<and> p (xs ! i) \<and> (\<forall>j < i. \<not> p (xs ! j))"
  by (induction xs arbitrary: i)
     (auto simp: nth_Cons all_conj_distrib less_Suc_eq_0_disj split: nat.splits)

lemma position_None_iff: "position p xs = None \<longleftrightarrow> (\<forall>x \<in> set xs. \<not> p x)"
  by (induction xs) auto

text \<open>
  \<open>into[at..at + len].copy_from_slice(bytes)\<close>: the elements of \<open>into\<close> from \<open>at\<close> on are
  replaced by \<open>bytes\<close>; the length of \<open>into\<close> does not change.
\<close>

definition copy_at :: "'a list \<Rightarrow> usize \<Rightarrow> 'a list \<Rightarrow> 'a list" where
  "copy_at into at from = take at into @ from @ drop (at + length from) into"

lemma length_copy_at [simp]:
  "at + length from \<le> length into \<Longrightarrow> length (copy_at into at from) = length into"
  by (simp add: copy_at_def)

lemma nth_copy_at:
  assumes "at + length from \<le> length into" "i < length into"
  shows "copy_at into at from ! i =
    (if at \<le> i \<and> i < at + length from then from ! (i - at) else into ! i)"
  using assms by (auto simp: copy_at_def nth_append min_def)

lemma take_copy_at [simp]: "length from \<le> length into \<Longrightarrow>
    take (length from) (copy_at into 0 from) = from"
  by (simp add: copy_at_def)

section \<open>Little-endian integers in bytes\<close>

definition u16_from_le :: "u8 \<Rightarrow> u8 \<Rightarrow> u16" where
  "u16_from_le b0 b1 = ucast b0 OR push_bit 8 (ucast b1)"

definition u32_from_le :: "u8 \<Rightarrow> u8 \<Rightarrow> u8 \<Rightarrow> u8 \<Rightarrow> u32" where
  "u32_from_le b0 b1 b2 b3 =
     ucast b0 OR push_bit 8 (ucast b1) OR push_bit 16 (ucast b2) OR push_bit 24 (ucast b3)"

definition u16_to_le :: "u16 \<Rightarrow> bytes" where
  "u16_to_le w = [ucast w, ucast (drop_bit 8 w)]"

definition u32_to_le :: "u32 \<Rightarrow> bytes" where
  "u32_to_le w = [ucast w, ucast (drop_bit 8 w), ucast (drop_bit 16 w), ucast (drop_bit 24 w)]"

lemma length_to_le [simp]: "length (u16_to_le a) = 2" "length (u32_to_le b) = 4"
  by (simp_all add: u16_to_le_def u32_to_le_def)

lemma u16_le_roundtrip: "u16_from_le (ucast w) (ucast (drop_bit 8 w)) = w"
  unfolding u16_from_le_def
  by (rule bit_word_eqI) (auto simp: bit_or_iff bit_ucast_iff bit_push_bit_iff bit_drop_bit_eq)

lemma u32_le_roundtrip:
  "u32_from_le (ucast w) (ucast (drop_bit 8 w)) (ucast (drop_bit 16 w)) (ucast (drop_bit 24 w)) = w"
  unfolding u32_from_le_def
proof (rule bit_word_eqI)
  fix n assume "n < LENGTH(32)"
  then consider "n < 8" | "8 \<le> n" "n < 16" | "16 \<le> n" "n < 24" | "24 \<le> n" "n < 32"
    by fastforce
  then show "bit (ucast (ucast w :: u8) OR push_bit 8 (ucast (ucast (drop_bit 8 w) :: u8)) OR
      push_bit 16 (ucast (ucast (drop_bit 16 w) :: u8)) OR
      push_bit 24 (ucast (ucast (drop_bit 24 w) :: u8)) :: u32) n = bit w n"
    by cases (auto simp: bit_or_iff bit_ucast_iff bit_push_bit_iff bit_drop_bit_eq)
qed

section \<open>Computations over a device\<close>

text \<open>
  Code that runs over a device it mutates, with \<open>?\<close> on every call: the state is passed along, and
  an error keeps the state reached so far.
\<close>

type_synonym ('s, 'e, 'a) io = "'s \<Rightarrow> ('e + 'a) \<times> 's"

definition io_ret :: "'a \<Rightarrow> ('s, 'e, 'a) io" where
  "io_ret x = (\<lambda>s. (Inr x, s))"

definition io_fail :: "'e \<Rightarrow> ('s, 'e, 'a) io" where
  "io_fail e = (\<lambda>s. (Inl e, s))"

definition io_bind :: "('s, 'e, 'a) io \<Rightarrow> ('a \<Rightarrow> ('s, 'e, 'b) io) \<Rightarrow> ('s, 'e, 'b) io" where
  "io_bind m f = (\<lambda>s. case m s of (Inl e, s') \<Rightarrow> (Inl e, s') | (Inr x, s') \<Rightarrow> f x s')"

definition io_map_err :: "('e \<Rightarrow> 'f) \<Rightarrow> ('s, 'e, 'a) io \<Rightarrow> ('s, 'f, 'a) io" where
  "io_map_err g m = (\<lambda>s. case m s of (r, s') \<Rightarrow> (map_err g r, s'))"

definition io_lift :: "'e + 'a \<Rightarrow> ('s, 'e, 'a) io" where
  "io_lift r = (\<lambda>s. (r, s))"

lemma io_bind_cong [fundef_cong]:
  "m = m' \<Longrightarrow> (\<And>x. f x = f' x) \<Longrightarrow> io_bind m f = io_bind m' f'"
  by (intro arg_cong2 [where f = io_bind] ext) simp_all

lemma io_simps [simp]:
  "io_ret x s = (Inr x, s)"
  "io_fail e s = (Inl e, s)"
  "io_lift r s = (r, s)"
  "m s = (Inr x, s') \<Longrightarrow> io_bind m f s = f x s'"
  "m s = (Inl e, s') \<Longrightarrow> io_bind m f s = (Inl e, s')"
  by (simp_all add: io_ret_def io_fail_def io_bind_def io_lift_def)

lemma io_bind_Inr_iff:
  "io_bind m f s = (Inr y, s') \<longleftrightarrow> (\<exists>x t. m s = (Inr x, t) \<and> f x t = (Inr y, s'))"
  by (auto simp: io_bind_def split: prod.splits sum.splits)

lemma io_bind_cases:
  assumes "io_bind m f s = (r, s')"
  obtains (err) e where "m s = (Inl e, s')" "r = Inl e"
    | (ok) x t where "m s = (Inr x, t)" "f x t = (r, s')"
  using assms by (auto simp: io_bind_def split: prod.splits sum.splits)

lemma io_map_err_Inr_iff [simp]: "io_map_err g m s = (Inr x, s') \<longleftrightarrow> m s = (Inr x, s')"
  by (auto simp: io_map_err_def map_err_def split: prod.splits sum.splits)

lemma io_map_err_Inl_iff: "io_map_err g m s = (Inl e, s') \<longleftrightarrow> (\<exists>e0. m s = (Inl e0, s') \<and> e = g e0)"
  by (auto simp: io_map_err_def map_err_def split: prod.splits sum.splits)

text \<open>\<open>slice.as_chunks::<N>()\<close>: the whole chunks of a slice.\<close>

definition as_chunks :: "usize \<Rightarrow> 'a list \<Rightarrow> 'a list list" where
  "as_chunks n bs = map (\<lambda>i. take n (drop (n * i) bs)) [0..<length bs div n]"

lemma length_as_chunks [simp]: "length (as_chunks n bs) = length bs div n"
  by (simp add: as_chunks_def)

lemma nth_as_chunks: "i < length bs div n \<Longrightarrow> as_chunks n bs ! i = take n (drop (n * i) bs)"
  by (simp add: as_chunks_def)

end
