(* ===== verification/Fat_Format.thy ===== *)
theory Fat_Format
  imports Prelude
begin

text \<open>
  The on-disk format of a FAT32 volume (\<^verbatim>\<open>hal/src/fat.rs\<close>, the part that needs no device): the
  boot sector and its checks, the entries of the allocation table, the slots of a directory and the
  8.3 names. The theory shows what an accepted boot sector guarantees about every address computed
  from it, and that the name written for a file is the name it is found by.
\<close>

section \<open>The boot sector\<close>

definition SECTOR_BYTES :: u16 where
  "SECTOR_BYTES = 512"

definition FIRST_DATA_CLUSTER :: u32 where
  "FIRST_DATA_CLUSTER = 2"

definition FAT32_MINIMUM_CLUSTERS :: u32 where
  "FAT32_MINIMUM_CLUSTERS = 65525"

datatype boot_sector_error =
    NoSignature u16
  | SectorSize u16
  | SectorsPerCluster u8
  | ReservedSectors u16
  | FatCount u8
  | NotFat32 u16
  | FatSize u32
  | RootCluster u32
  | NoDataRegion
  | TooFewClusters u32
  | FatTooSmall u64 u32

record volume_id =
  vid_serial :: u32
  vid_label :: bytes

record boot_sector =
  bytes_per_sector :: u16
  sectors_per_cluster :: u8
  reserved_sectors :: u16
  fat_count :: u8
  total_sectors :: u32
  sectors_per_fat :: u32
  root_cluster :: u32
  fs_info_sector :: u16
  backup_boot_sector :: u16
  clusters :: u32
  volume_id_of :: "volume_id option"

text \<open>\<open>core::str::from_utf8\<close>: the well-formed byte sequences of Unicode.\<close>

definition cont_byte :: "u8 \<Rightarrow> bool" where
  "cont_byte b \<longleftrightarrow> 0x80 \<le> b \<and> b \<le> 0xBF"

fun utf8_valid :: "bytes \<Rightarrow> bool" where
  "utf8_valid [] \<longleftrightarrow> True"
| "utf8_valid (a # r) \<longleftrightarrow>
     (if a \<le> 0x7F then utf8_valid r
      else if 0xC2 \<le> a \<and> a \<le> 0xDF then (case r of b # r' \<Rightarrow> cont_byte b \<and> utf8_valid r' | _ \<Rightarrow> False)
      else if 0xE0 \<le> a \<and> a \<le> 0xEF then
        (case r of b # c # r' \<Rightarrow>
           cont_byte b \<and> cont_byte c \<and> (a = 0xE0 \<longrightarrow> 0xA0 \<le> b) \<and> (a = 0xED \<longrightarrow> b \<le> 0x9F) \<and> utf8_valid r'
         | _ \<Rightarrow> False)
      else if 0xF0 \<le> a \<and> a \<le> 0xF4 then
        (case r of b # c # d # r' \<Rightarrow>
           cont_byte b \<and> cont_byte c \<and> cont_byte d \<and> (a = 0xF0 \<longrightarrow> 0x90 \<le> b) \<and>
           (a = 0xF4 \<longrightarrow> b \<le> 0x8F) \<and> utf8_valid r'
         | _ \<Rightarrow> False)
      else False)"

definition str_or_empty :: "bytes \<Rightarrow> bytes" where
  "str_or_empty bs = (if utf8_valid bs then bs else [])"

text \<open>\<open>rposition(|byte| *byte != b' ').map_or(0, |at| at + 1)\<close>: without the padding.\<close>

definition label :: "volume_id \<Rightarrow> bytes" where
  "label v = str_or_empty (rev (dropWhile (\<lambda>b. b = 32) (rev (vid_label v))))"

definition u16_at :: "bytes \<Rightarrow> usize \<Rightarrow> u16" where
  "u16_at sector at = u16_from_le (sector ! at) (sector ! (at + 1))"

definition u32_at :: "bytes \<Rightarrow> usize \<Rightarrow> u32" where
  "u32_at sector at =
     u32_from_le (sector ! at) (sector ! (at + 1)) (sector ! (at + 2)) (sector ! (at + 3))"

text \<open>The offsets of the module \<open>at\<close> are written out: 11, 13, 14, 16, 22, 32, 36, 44, 48, 50, 66,
  67, 71 and 510.\<close>

definition parse_volume_id :: "bytes \<Rightarrow> volume_id option" where
  "parse_volume_id sector =
     (if sector ! 66 = 0x29
      then Some \<lparr>vid_serial = u32_at sector 67, vid_label = take 11 (drop 71 sector)\<rparr>
      else None)"

definition parse_boot :: "bytes \<Rightarrow> boot_sector_error + boot_sector" where
  "parse_boot sector =
     (let signature = u16_at sector 510 in
      if signature \<noteq> 0xAA55 then Inl (NoSignature signature) else
      let bps = u16_at sector 11 in
      if bps \<noteq> SECTOR_BYTES then Inl (SectorSize bps) else
      let spc = sector ! 13 in
      if spc = 0 \<or> \<not> is_power_of_two spc then Inl (SectorsPerCluster spc) else
      let reserved = u16_at sector 14 in
      if reserved = 0 then Inl (ReservedSectors reserved) else
      let fats = sector ! 16 in
      if fats = 0 \<or> fats > 4 then Inl (FatCount fats) else
      let sixteen = u16_at sector 22 in
      if sixteen \<noteq> 0 then Inl (NotFat32 sixteen) else
      let spf = u32_at sector 36 in
      if spf = 0 then Inl (FatSize spf) else
      let root = u32_at sector 44 in
      if root < FIRST_DATA_CLUSTER then Inl (RootCluster root) else
      let tot = u32_at sector 32;
          before_data = (ucast reserved :: u64) + ucast fats * ucast spf in
      if before_data \<ge> ucast tot then Inl NoDataRegion else
      let cls = (ucast (((ucast tot :: u64) - before_data) div ucast spc) :: u32) in
      if cls < FAT32_MINIMUM_CLUSTERS then Inl (TooFewClusters cls) else
      let entries = (ucast spf :: u64) * ucast bps div 4 in
      if entries < ucast cls + ucast FIRST_DATA_CLUSTER then Inl (FatTooSmall entries cls) else
      Inr \<lparr>bytes_per_sector = bps, sectors_per_cluster = spc, reserved_sectors = reserved,
           fat_count = fats, total_sectors = tot, sectors_per_fat = spf, root_cluster = root,
           fs_info_sector = u16_at sector 48, backup_boot_sector = u16_at sector 50,
           clusters = cls, volume_id_of = parse_volume_id sector\<rparr>)"

definition first_fat_sector :: "boot_sector \<Rightarrow> u32" where
  "first_fat_sector b = ucast (reserved_sectors b)"

definition first_data_sector :: "boot_sector \<Rightarrow> u32" where
  "first_data_sector b = ucast (reserved_sectors b) + ucast (fat_count b) * sectors_per_fat b"

definition sector_of_cluster :: "boot_sector \<Rightarrow> u32 \<Rightarrow> u32 option" where
  "sector_of_cluster b cluster =
     (if cluster < FIRST_DATA_CLUSTER \<or> cluster \<ge> FIRST_DATA_CLUSTER + clusters b then None
      else Some (first_data_sector b + (cluster - FIRST_DATA_CLUSTER) * ucast (sectors_per_cluster b)))"

definition cluster_bytes :: "boot_sector \<Rightarrow> u32" where
  "cluster_bytes b = ucast (bytes_per_sector b) * ucast (sectors_per_cluster b)"

section \<open>The allocation table\<close>

definition ENTRY_MASK :: u32 where
  "ENTRY_MASK = 0x0FFFFFFF"

datatype entry = Free | Reserved | Next u32 | Bad | End

definition decode_entry :: "u32 \<Rightarrow> entry" where
  "decode_entry raw =
     (let v = raw AND ENTRY_MASK in
      if v = 0 then Free
      else if v = 1 then Reserved
      else if v = 0x0FFFFFF7 then Bad
      else if v \<ge> 0x0FFFFFF8 then End
      else Next v)"

section \<open>Directories\<close>

definition DIRECTORY_ENTRY_BYTES :: usize where
  "DIRECTORY_ENTRY_BYTES = 32"

definition ENTRY_NEVER_USED :: u8 where "ENTRY_NEVER_USED = 0x00"

definition ENTRY_DELETED :: u8 where "ENTRY_DELETED = 0xE5"

definition ATTR_LONG_NAME :: u8 where "ATTR_LONG_NAME = 0x0F"

definition ATTR_VOLUME_LABEL :: u8 where "ATTR_VOLUME_LABEL = 0x08"

definition ATTR_DIRECTORY :: u8 where "ATTR_DIRECTORY = 0x10"

definition ATTR_ARCHIVE :: u8 where "ATTR_ARCHIVE = 0x20"

text \<open>The array \<open>name\<close> with its length \<open>name_len\<close> is the list of the bytes in use.\<close>

record directory_entry =
  de_name :: bytes
  de_attributes :: u8
  de_first_cluster :: u32
  de_size :: u32

definition is_directory :: "directory_entry \<Rightarrow> bool" where
  "is_directory e \<longleftrightarrow> de_attributes e AND ATTR_DIRECTORY \<noteq> 0"

definition entry_name :: "directory_entry \<Rightarrow> bytes" where
  "entry_name e = str_or_empty (de_name e)"

definition to_ascii_uppercase :: "u8 \<Rightarrow> u8" where
  "to_ascii_uppercase b = (if 0x61 \<le> b \<and> b \<le> 0x7A then b - 0x20 else b)"

definition eq_ignore_ascii_case :: "u8 \<Rightarrow> u8 \<Rightarrow> bool" where
  "eq_ignore_ascii_case a b \<longleftrightarrow> to_ascii_uppercase a = to_ascii_uppercase b"

definition is_named :: "directory_entry \<Rightarrow> bytes \<Rightarrow> bool" where
  "is_named e other \<longleftrightarrow>
     length (entry_name e) = length other \<and>
     (\<forall>(a, b) \<in> set (zip (entry_name e) other). eq_ignore_ascii_case a b)"

datatype slot = SlotEntry directory_entry | Skip | SlotEnd

definition decode_slot_name :: "bytes \<Rightarrow> bytes" where
  "decode_slot_name bs =
     takeWhile (\<lambda>b. b \<noteq> 32) (take 8 bs) @
     (if bs ! 8 \<noteq> 32 then 46 # takeWhile (\<lambda>b. b \<noteq> 32) (take 3 (drop 8 bs)) else [])"

definition decode_slot :: "bytes \<Rightarrow> slot" where
  "decode_slot bs =
     (if bs ! 0 = ENTRY_NEVER_USED then SlotEnd
      else if bs ! 0 = ENTRY_DELETED then Skip
      else let attributes = bs ! 11 in
        if attributes AND ATTR_LONG_NAME = ATTR_LONG_NAME \<or> attributes AND ATTR_VOLUME_LABEL \<noteq> 0
        then Skip
        else SlotEntry \<lparr>de_name = decode_slot_name bs, de_attributes = attributes,
          de_first_cluster = push_bit 16 (ucast (u16_from_le (bs ! 20) (bs ! 21))) OR
                             ucast (u16_from_le (bs ! 26) (bs ! 27)),
          de_size = u32_from_le (bs ! 28) (bs ! 29) (bs ! 30) (bs ! 31)\<rparr>)"

section \<open>Names\<close>

text \<open>\<open>split_once('.')\<close>, with no extension when there is no dot.\<close>

definition split_name :: "bytes \<Rightarrow> bytes \<times> bytes" where
  "split_name name =
     (if 46 \<in> set name then (takeWhile (\<lambda>b. b \<noteq> 46) name, tl (dropWhile (\<lambda>b. b \<noteq> 46) name))
      else (name, []))"

text \<open>The reserved bytes are those of the string \<^verbatim>\<open>"*/:<>?\|+,;=[]\<close> and the space.\<close>

definition RESERVED_bytes :: bytes where
  "RESERVED_bytes = [34, 42, 47, 58, 60, 62, 63, 92, 124, 43, 44, 59, 61, 91, 93, 32]"

definition allowed_in_a_name :: "u8 \<Rightarrow> u8 option" where
  "allowed_in_a_name b =
     (if \<not> b \<le> 0x7F \<or> b < 0x20 \<or> b = 0x7F \<or> b \<in> set RESERVED_bytes then None
      else Some (to_ascii_uppercase b))"

text \<open>The two loops of \<open>encode_name\<close>: every byte allowed, or the whole name is refused.\<close>

fun encode_part :: "bytes \<Rightarrow> bytes option" where
  "encode_part [] = Some []"
| "encode_part (b # bs) =
     (case allowed_in_a_name b of None \<Rightarrow> None
      | Some u \<Rightarrow> map_option (\<lambda>us. u # us) (encode_part bs))"

definition encode_name :: "bytes \<Rightarrow> bytes option" where
  "encode_name name =
     (let (base, extension) = split_name name in
      if base = [] \<or> length base > 8 \<or> length extension > 3 then None
      else case encode_part base of None \<Rightarrow> None
        | Some ub \<Rightarrow> (case encode_part extension of None \<Rightarrow> None
          | Some ue \<Rightarrow>
              (let encoded = copy_at (copy_at (replicate 11 32) 0 ub) 8 ue in
               if encoded ! 0 = ENTRY_DELETED then None else Some encoded)))"


section \<open>What an accepted boot sector guarantees\<close>

text \<open>The numbers of a boot sector as naturals, and the facts every computed address rests on.\<close>

definition data_start :: "boot_sector \<Rightarrow> nat" where
  "data_start b = unat (reserved_sectors b) + unat (fat_count b) * unat (sectors_per_fat b)"

definition boot_ok :: "boot_sector \<Rightarrow> bool" where
  "boot_ok b \<longleftrightarrow>
     bytes_per_sector b = 512 \<and> is_power_of_two (sectors_per_cluster b) \<and>
     0 < unat (sectors_per_cluster b) \<and> 0 < unat (reserved_sectors b) \<and>
     0 < unat (fat_count b) \<and> unat (fat_count b) \<le> 4 \<and> 2 \<le> unat (root_cluster b) \<and>
     data_start b + unat (clusters b) * unat (sectors_per_cluster b) \<le> unat (total_sectors b) \<and>
     65525 \<le> unat (clusters b) \<and> unat (clusters b) + 2 \<le> unat (sectors_per_fat b) * 128"

text \<open>The cluster numbers that name data on the volume.\<close>

definition valid_cluster :: "boot_sector \<Rightarrow> u32 \<Rightarrow> bool" where
  "valid_cluster b c \<longleftrightarrow> 2 \<le> unat c \<and> unat c < 2 + unat (clusters b)"

lemma before_data_exact:
  fixes r :: u16 and f :: u8 and s :: u32
  shows "unat ((ucast r :: u64) + ucast f * ucast s) = unat r + unat f * unat s"
    and "unat r + unat f * unat s < 2 ^ 41"
proof -
  have m: "unat f * unat s \<le> 255 * 4294967295"
    using unat_u8_bound [of f] unat_u32_bound [of s] by (intro mult_mono) auto
  then show "unat r + unat f * unat s < 2 ^ 41" using unat_u16_bound [of r] by simp
  have "unat ((ucast f :: u64) * ucast s) = unat f * unat s"
    using m by (subst unat_mult_exact) (simp_all add: unat_ucast_up)
  then show "unat ((ucast r :: u64) + ucast f * ucast s) = unat r + unat f * unat s"
    using m unat_u16_bound [of r] by (subst unat_add_exact) (simp_all add: unat_ucast_up)
qed

lemma clusters_exact:
  fixes t :: u32 and d :: u64 and s :: u8
  assumes "unat d < unat t" "0 < unat s"
  shows "unat (ucast (((ucast t :: u64) - d) div ucast s) :: u32) = (unat t - unat d) div unat s"
proof -
  have "d \<le> ucast t" using assms(1) by (simp add: word_le_nat_alt unat_ucast_up)
  then have "unat (((ucast t :: u64) - d) div ucast s) = (unat t - unat d) div unat s"
    by (simp add: unat_div unat_sub_exact unat_ucast_up)
  moreover have "(unat t - unat d) div unat s < 2 ^ 32"
    using unat_u32_bound [of t] by (intro le_less_trans [OF div_le_dividend]) simp
  ultimately show ?thesis by (simp add: unsigned_ucast_eq take_bit_nat_eq_self)
qed

lemma parse_boot_ok:
  assumes "parse_boot sector = Inr b"
  shows "boot_ok b"
proof -
  from assms have b: "bytes_per_sector b = 512" "is_power_of_two (sectors_per_cluster b)"
      "sectors_per_cluster b \<noteq> 0" "reserved_sectors b \<noteq> 0" "fat_count b \<noteq> 0" "\<not> fat_count b > 4"
      "\<not> root_cluster b < FIRST_DATA_CLUSTER"
      "\<not> (ucast (reserved_sectors b) :: u64) + ucast (fat_count b) * ucast (sectors_per_fat b)
          \<ge> ucast (total_sectors b)"
      "clusters b = ucast (((ucast (total_sectors b) :: u64) -
          (ucast (reserved_sectors b) + ucast (fat_count b) * ucast (sectors_per_fat b)))
          div ucast (sectors_per_cluster b))"
      "\<not> clusters b < FAT32_MINIMUM_CLUSTERS"
      "\<not> (ucast (sectors_per_fat b) :: u64) * ucast (512 :: u16) div 4 < ucast (clusters b) + ucast FIRST_DATA_CLUSTER"
    by (simp_all add: parse_boot_def Let_def SECTOR_BYTES_def split: if_splits) force+
  note bd = before_data_exact [of "reserved_sectors b" "fat_count b" "sectors_per_fat b"]
  let ?spc = "unat (sectors_per_cluster b)" and ?t = "unat (total_sectors b)"
  have spc: "0 < ?spc" using b(3) by (simp add: unat_gt_0)
  have lt: "data_start b < ?t"
    using b(8) by (simp add: data_start_def word_le_nat_alt unat_ucast_up bd)
  have "unat (clusters b) = (?t - data_start b) div ?spc"
    using lt spc unfolding b(9) by (subst clusters_exact) (simp_all add: bd data_start_def)
  then have fits: "data_start b + unat (clusters b) * ?spc \<le> ?t"
    using lt by (metis add_le_cancel_left le_add_diff_inverse less_imp_le_nat div_times_less_eq_dividend)
  have "unat ((ucast (sectors_per_fat b) :: u64) * ucast (512 :: u16)) = unat (sectors_per_fat b) * 512"
    using unat_u32_bound [of "sectors_per_fat b"] by (subst unat_mult_exact) (simp_all add: unat_ucast_up)
  moreover have "unat ((ucast (clusters b) :: u64) + ucast FIRST_DATA_CLUSTER) = unat (clusters b) + 2"
    using unat_u32_bound [of "clusters b"]
    by (subst unat_add_exact) (simp_all add: unat_ucast_up FIRST_DATA_CLUSTER_def)
  ultimately have "unat (clusters b) + 2 \<le> unat (sectors_per_fat b) * 512 div 4"
    using b(11) by (simp add: word_less_nat_alt unat_div)
  then have "unat (clusters b) + 2 \<le> unat (sectors_per_fat b) * 128" by simp
  moreover have "2 \<le> unat (root_cluster b)" "unat (fat_count b) \<le> 4" "65525 \<le> unat (clusters b)"
    using b(6,7,10)
    by (simp_all add: word_less_nat_alt FIRST_DATA_CLUSTER_def FAT32_MINIMUM_CLUSTERS_def)
  ultimately show ?thesis using b(1,2,4,5) spc fits by (simp add: boot_ok_def unat_gt_0)
qed

lemma boot_clusters_bound:
  assumes "boot_ok b"
  shows "unat (clusters b) + 2 < 2 ^ 32" "data_start b < 2 ^ 32" "0 < unat (sectors_per_fat b)"
proof -
  note ok = assms [unfolded boot_ok_def]
  let ?f = "unat (fat_count b) * unat (sectors_per_fat b)" and ?c = "unat (clusters b) * unat (sectors_per_cluster b)"
  show spf: "0 < unat (sectors_per_fat b)" using ok by (cases "unat (sectors_per_fat b)") auto
  have "unat (sectors_per_fat b) \<le> ?f" "unat (clusters b) \<le> ?c" using ok by simp_all
  moreover have "data_start b + ?c < 2 ^ 32" using ok unat_u32_bound [of "total_sectors b"] by auto
  moreover have "data_start b = unat (reserved_sectors b) + ?f" "0 < unat (reserved_sectors b)"
    using ok by (auto simp: data_start_def)
  ultimately show "unat (clusters b) + 2 < 2 ^ 32" "data_start b < 2 ^ 32" using spf by linarith+
qed

lemma unat_first_data_sector:
  assumes "boot_ok b"
  shows "unat (first_data_sector b) = data_start b"
proof -
  have l: "data_start b < 2 ^ 32" using boot_clusters_bound(2) [OF assms] .
  then have "unat ((ucast (fat_count b) :: u32) * sectors_per_fat b) = unat (fat_count b) * unat (sectors_per_fat b)"
    by (subst unat_mult_exact) (simp_all add: unat_ucast_up data_start_def)
  then show ?thesis using l
    by (simp add: first_data_sector_def unat_add_exact unat_ucast_up data_start_def)
qed

lemma past_last_cluster: "boot_ok b \<Longrightarrow> unat (FIRST_DATA_CLUSTER + clusters b) = 2 + unat (clusters b)"
  using boot_clusters_bound(1) [of b] by (simp add: FIRST_DATA_CLUSTER_def unat_add_exact)

lemma cluster_checks:
  assumes "boot_ok b"
  shows "\<not> (c < FIRST_DATA_CLUSTER \<or> c \<ge> FIRST_DATA_CLUSTER + clusters b) \<longleftrightarrow> valid_cluster b c"
  using past_last_cluster [OF assms]
  by (auto simp: valid_cluster_def word_less_nat_alt word_le_nat_alt FIRST_DATA_CLUSTER_def)

lemma sector_of_cluster_Some:
  assumes "boot_ok b" "valid_cluster b c"
  obtains s where "sector_of_cluster b c = Some s"
    "unat s = data_start b + (unat c - 2) * unat (sectors_per_cluster b)"
    "unat s + unat (sectors_per_cluster b) \<le> unat (total_sectors b)"
proof -
  let ?spc = "unat (sectors_per_cluster b)"
  note ok = assms(1) [unfolded boot_ok_def]
  have "(unat c - 2 + 1) * ?spc \<le> unat (clusters b) * ?spc"
    using assms(2) by (intro mult_right_mono) (auto simp: valid_cluster_def)
  then have fit: "data_start b + (unat c - 2) * ?spc + ?spc \<le> unat (total_sectors b)" using ok by simp
  have "FIRST_DATA_CLUSTER \<le> c" using assms(2) by (simp add: valid_cluster_def FIRST_DATA_CLUSTER_def word_le_nat_alt)
  then have d: "unat (c - FIRST_DATA_CLUSTER) = unat c - 2" by (simp add: unat_sub_exact FIRST_DATA_CLUSTER_def)
  have t: "unat (total_sectors b) < 2 ^ 32" using unat_u32_bound [of "total_sectors b"] by simp
  have "unat ((c - FIRST_DATA_CLUSTER) * ucast (sectors_per_cluster b)) = (unat c - 2) * ?spc"
    using fit t by (subst unat_mult_exact) (simp_all add: unat_ucast_up d)
  then have "unat (first_data_sector b + (c - FIRST_DATA_CLUSTER) * ucast (sectors_per_cluster b)) =
      data_start b + (unat c - 2) * ?spc"
    using fit t by (subst unat_add_exact) (simp_all add: unat_first_data_sector [OF assms(1)])
  then show ?thesis
    using that cluster_checks [OF assms(1), of c] assms(2) fit by (auto simp: sector_of_cluster_def)
qed

lemma sector_of_cluster_None: "boot_ok b \<Longrightarrow> sector_of_cluster b c = None \<longleftrightarrow> \<not> valid_cluster b c"
  using cluster_checks [of b c] by (auto simp: sector_of_cluster_def)

lemma cluster_bytes_exact: "boot_ok b \<Longrightarrow> unat (cluster_bytes b) = 512 * unat (sectors_per_cluster b)"
  using unat_u8_bound [of "sectors_per_cluster b"]
  by (simp add: cluster_bytes_def boot_ok_def unat_mult_exact unat_ucast_up)

section \<open>Names and slots\<close>

lemma to_ascii_uppercase_idem [simp]: "to_ascii_uppercase (to_ascii_uppercase b) = to_ascii_uppercase b"
  by (auto simp: to_ascii_uppercase_def word_le_nat_alt unat_sub_if_size)

lemma allowed_in_a_name_Some:
  assumes "allowed_in_a_name b = Some u"
  shows "u = to_ascii_uppercase b" "0x20 < u" "u \<le> 0x7F" "b \<noteq> 32"
proof -
  have b: "\<not> b < 0x20" "b \<le> 0x7F" "b \<noteq> 32" and u: "u = to_ascii_uppercase b"
    using assms by (auto simp: allowed_in_a_name_def RESERVED_bytes_def split: if_splits)
  have "32 < unat b" using b(1,3) by (simp add: word_less_nat_alt word_unat_eq_iff)
  then show "0x20 < u" "u \<le> 0x7F" using b(2)
    by (auto simp: u to_ascii_uppercase_def word_le_nat_alt word_less_nat_alt unat_sub_if_size)
qed (use assms in \<open>auto simp: allowed_in_a_name_def RESERVED_bytes_def split: if_splits\<close>)

lemma encode_part_Some:
  assumes "encode_part bs = Some us"
  shows "us = map to_ascii_uppercase bs" "\<forall>u \<in> set us. 0x20 < u \<and> u \<le> 0x7F"
proof -
  have "us = map to_ascii_uppercase bs \<and> (\<forall>u \<in> set us. 0x20 < u \<and> u \<le> 0x7F)"
    using assms
    by (induction bs arbitrary: us) (auto split: option.splits dest: allowed_in_a_name_Some)
  then show "us = map to_ascii_uppercase bs" "\<forall>u \<in> set us. 0x20 < u \<and> u \<le> 0x7F" by auto
qed

lemma utf8_valid_ascii: "\<forall>u \<in> set us. u \<le> 0x7F \<Longrightarrow> utf8_valid us"
  by (induction us) auto

lemma split_name_join:
  "split_name name = (base, ext) \<Longrightarrow> name = (if 46 \<in> set name then base @ 46 # ext else base) \<and>
     (46 \<notin> set name \<longrightarrow> ext = [])"
proof -
  assume sp: "split_name name = (base, ext)"
  show ?thesis
  proof (cases "46 \<in> set name")
    case True
    then have ne: "dropWhile (\<lambda>b. b \<noteq> 46) name \<noteq> []" by (simp add: dropWhile_eq_Nil_conv)
    then have "dropWhile (\<lambda>b. b \<noteq> 46) name = 46 # tl (dropWhile (\<lambda>b. b \<noteq> 46) name)"
      using hd_dropWhile [OF ne] by (metis (mono_tags) list.collapse)
    then have "name = base @ 46 # ext"
      using True sp takeWhile_dropWhile_id [of "\<lambda>b. b \<noteq> 46" name] by (auto simp: split_name_def)
    then show ?thesis using True by simp
  qed (use sp in \<open>simp add: split_name_def\<close>)
qed

lemma copy_at_parts:
  assumes "length ub \<le> 8" "length ue \<le> 3"
  shows "copy_at (copy_at (replicate 11 32) 0 ub) 8 ue =
    ub @ replicate (8 - length ub) 32 @ ue @ replicate (3 - length ue) (32 :: u8)"
  using assms by (simp add: copy_at_def)

lemma encode_name_Some:
  assumes "encode_name name = Some enc"
  obtains base ext where "split_name name = (base, ext)" "base \<noteq> []" "length base \<le> 8" "length ext \<le> 3"
    "enc = map to_ascii_uppercase base @ replicate (8 - length base) 32 @
           map to_ascii_uppercase ext @ replicate (3 - length ext) 32"
    "\<forall>u \<in> to_ascii_uppercase ` (set base \<union> set ext). 0x20 < u \<and> u \<le> 0x7F"
proof -
  obtain base ext where sp: "split_name name = (base, ext)" by fastforce
  with assms obtain ub ue where parts: "encode_part base = Some ub" "encode_part ext = Some ue"
      "base \<noteq> []" "length base \<le> 8" "length ext \<le> 3" "enc = copy_at (copy_at (replicate 11 32) 0 ub) 8 ue"
    by (auto simp: encode_name_def Let_def split: if_splits option.splits)
  note e = encode_part_Some [OF parts(1)] encode_part_Some [OF parts(2)]
  show ?thesis
    by (rule that [of base ext]) (use sp parts e copy_at_parts [of ub ue] in auto)
qed

lemma encode_nameI:
  assumes "split_name name = (base, ext)" "base \<noteq> []" "length base \<le> 8" "length ext \<le> 3"
    and "encode_part base = Some ub" "encode_part ext = Some ue" "ub ! 0 \<noteq> ENTRY_DELETED"
  shows "encode_name name = Some (ub @ replicate (8 - length base) 32 @ ue @ replicate (3 - length ext) 32)"
proof -
  have l: "length ub = length base" "length ue = length ext" "ub \<noteq> []"
    using encode_part_Some(1) [OF assms(5)] encode_part_Some(1) [OF assms(6)] assms(2) by auto
  then show ?thesis using assms copy_at_parts [of ub ue] by (simp add: encode_name_def nth_append)
qed

lemma takeWhile_padded:
  assumes "\<forall>u \<in> set us. (0x20 :: u8) < u"
  shows "takeWhile (\<lambda>b. b \<noteq> 32) (us @ replicate n 32) = us"
  using assms by (induction us) auto

lemma decode_encoded_name:
  assumes "encode_name name = Some enc"
  shows "length enc = 11" "0x20 < enc ! 0" "enc ! 0 \<le> 0x7F"
    "decode_slot_name (enc @ rest) = map to_ascii_uppercase
       (if snd (split_name name) = [] then fst (split_name name) else name)"
proof -
  obtain base ext where p: "split_name name = (base, ext)" "base \<noteq> []" "length base \<le> 8" "length ext \<le> 3"
    "enc = map to_ascii_uppercase base @ replicate (8 - length base) 32 @
           map to_ascii_uppercase ext @ replicate (3 - length ext) 32"
    "\<forall>u \<in> to_ascii_uppercase ` (set base \<union> set ext). 0x20 < u \<and> u \<le> 0x7F"
    using assms by (rule encode_name_Some)
  show "length enc = 11" using p(3-5) by simp
  have "enc ! 0 \<in> to_ascii_uppercase ` set base" using p(2,5) by (cases base) auto
  then show "0x20 < enc ! 0" "enc ! 0 \<le> 0x7F" using p(6) by auto
  have t8: "take 8 (enc @ rest) = map to_ascii_uppercase base @ replicate (8 - length base) 32"
    and d8: "drop 8 (enc @ rest) = map to_ascii_uppercase ext @ replicate (3 - length ext) 32 @ rest"
    using p(3,4) by (simp_all add: p(5))
  have n8: "(enc @ rest) ! 8 = drop 8 (enc @ rest) ! 0"
    using p(3,4) by (simp add: p(5) nth_append)
  have b: "takeWhile (\<lambda>b. b \<noteq> 32) (take 8 (enc @ rest)) = map to_ascii_uppercase base"
    unfolding t8 by (rule takeWhile_padded) (use p(6) in auto)
  show "decode_slot_name (enc @ rest) = map to_ascii_uppercase
      (if snd (split_name name) = [] then fst (split_name name) else name)"
  proof (cases "ext = []")
    case True
    then have "(enc @ rest) ! 8 = 32" unfolding n8 d8 by (simp add: numeral_3_eq_3)
    then show ?thesis using b True p(1) by (simp add: decode_slot_name_def)
  next
    case False
    then have "(enc @ rest) ! 8 \<in> to_ascii_uppercase ` set ext"
      unfolding n8 d8 by (cases ext) auto
    then have "(enc @ rest) ! 8 \<noteq> 32" using p(6) by fastforce
    moreover have "takeWhile (\<lambda>b. b \<noteq> 32) (take 3 (drop 8 (enc @ rest))) = map to_ascii_uppercase ext"
      unfolding d8 using p(4,6) takeWhile_padded [of "map to_ascii_uppercase ext" "3 - length ext"] by simp
    moreover have "name = base @ 46 # ext" using split_name_join [OF p(1)] False by (auto split: if_splits)
    ultimately show ?thesis using b p(1) False
      by (simp add: decode_slot_name_def to_ascii_uppercase_def)
  qed
qed

section \<open>Properties\<close>

text \<open>The sector of the table that holds the entry of a cluster, in copy \<open>t\<close> of it.\<close>

definition fat_sector :: "boot_sector \<Rightarrow> u32 \<Rightarrow> u32 \<Rightarrow> u32" where
  "fat_sector b t c = first_fat_sector b + t * sectors_per_fat b + c div (ucast (bytes_per_sector b) div 4)"

lemma fat_sector_exact:
  assumes "boot_ok b" "valid_cluster b c" "unat t < unat (fat_count b)"
  shows "unat (fat_sector b t c) =
      unat (reserved_sectors b) + unat t * unat (sectors_per_fat b) + unat c div 128"
    and "unat c div 128 < unat (sectors_per_fat b)"
    and "unat (fat_sector b t c) < data_start b"
proof -
  note ok = assms(1) [unfolded boot_ok_def]
  let ?r = "unat (reserved_sectors b)" and ?s = "unat (sectors_per_fat b)"
  have "unat c < ?s * 128" using ok assms(2) by (auto simp: valid_cluster_def)
  then show q: "unat c div 128 < ?s" by (simp add: less_mult_imp_div_less)
  have "(unat t + 1) * ?s \<le> unat (fat_count b) * ?s" using assms(3) by (intro mult_right_mono) auto
  then have lt: "?r + unat t * ?s + unat c div 128 < data_start b" using q by (simp add: data_start_def)
  have "data_start b < 2 ^ 32" by (rule boot_clusters_bound(2) [OF assms(1)])
  note bound = order.strict_trans [OF lt this]
  have p: "(ucast (bytes_per_sector b) :: u32) div 4 = 128" using ok by simp
  have ts: "unat (t * sectors_per_fat b) = unat t * ?s" using bound by (subst unat_mult_exact) auto
  have cd: "unat (c div 128) = unat c div 128" by (simp add: unat_div)
  have "unat (first_fat_sector b + t * sectors_per_fat b) = ?r + unat t * ?s"
    using bound by (subst unat_add_exact) (simp_all add: first_fat_sector_def unat_ucast_up ts)
  then show eq: "unat (fat_sector b t c) = ?r + unat t * ?s + unat c div 128"
    unfolding fat_sector_def p using bound by (subst unat_add_exact) (simp_all only: cd, simp)
  show "unat (fat_sector b t c) < data_start b" using lt eq by simp
qed

lemma cluster_sectors_disjoint:
  assumes "boot_ok b" "valid_cluster b c" "valid_cluster b c'" "c \<noteq> c'"
    and "sector_of_cluster b c = Some s" "sector_of_cluster b c' = Some s'"
  shows "{unat s ..< unat s + unat (sectors_per_cluster b)} \<inter>
         {unat s' ..< unat s' + unat (sectors_per_cluster b)} = {}"
proof -
  let ?n = "unat (sectors_per_cluster b)"
  have s: "unat s = data_start b + (unat c - 2) * ?n" "unat s' = data_start b + (unat c' - 2) * ?n"
    using sector_of_cluster_Some [OF assms(1,2)] sector_of_cluster_Some [OF assms(1,3)] assms(5,6)
    by (metis option.inject)+
  have ne: "unat c - 2 \<noteq> unat c' - 2" using assms(2-4) by (auto simp: valid_cluster_def word_unat_eq_iff)
  have apart: "(i + 1) * ?n \<le> j * ?n" if "i < j" for i j using that by (intro mult_right_mono) auto
  show ?thesis
    using ne apart [of "unat c - 2" "unat c' - 2"] apart [of "unat c' - 2" "unat c - 2"]
    unfolding s by (cases "unat c - 2 < unat c' - 2") auto
qed

text \<open>
  C13. Everything computed from an accepted boot sector is where it should be, with no 32-bit
  wrap-around: a cluster has a sector exactly when its number is between 2 and 2 plus the clusters
  of the volume; its sectors lie in the data region and inside the volume; different clusters share
  no sector; and its entry lies inside every copy of the allocation table.
\<close>

theorem parsed_geometry:
  assumes "parse_boot sector = Inr b"
  shows "(\<forall>c. sector_of_cluster b c = None \<longleftrightarrow> unat c < 2 \<or> 2 + unat (clusters b) \<le> unat c) \<and>
    (\<forall>c s. sector_of_cluster b c = Some s \<longrightarrow>
       data_start b \<le> unat s \<and> unat s + unat (sectors_per_cluster b) \<le> unat (total_sectors b) \<and>
       (\<forall>t. unat t < unat (fat_count b) \<longrightarrow>
          unat (fat_sector b t c) =
            unat (reserved_sectors b) + unat t * unat (sectors_per_fat b) + unat c div 128 \<and>
          unat c div 128 < unat (sectors_per_fat b) \<and> unat (fat_sector b t c) < data_start b)) \<and>
    (\<forall>c c' s s'. c \<noteq> c' \<longrightarrow> sector_of_cluster b c = Some s \<longrightarrow> sector_of_cluster b c' = Some s' \<longrightarrow>
       {unat s ..< unat s + unat (sectors_per_cluster b)} \<inter>
       {unat s' ..< unat s' + unat (sectors_per_cluster b)} = {})"
proof -
  note ok = parse_boot_ok [OF assms]
  have valid: "valid_cluster b c" if "sector_of_cluster b c = Some s" for c s
    using sector_of_cluster_None [OF ok, of c] that by auto
  have inside: "data_start b \<le> unat s \<and> unat s + unat (sectors_per_cluster b) \<le> unat (total_sectors b)"
    if "sector_of_cluster b c = Some s" for c s
    by (rule sector_of_cluster_Some [OF ok valid [OF that]]) (use that in auto)
  have none: "\<forall>c. sector_of_cluster b c = None \<longleftrightarrow> unat c < 2 \<or> 2 + unat (clusters b) \<le> unat c"
    by (simp add: sector_of_cluster_None [OF ok] valid_cluster_def not_le not_less)
  show ?thesis
  proof (intro conjI none allI impI)
    fix c s and t :: u32 assume c: "sector_of_cluster b c = Some s"
    then show "data_start b \<le> unat s" "unat s + unat (sectors_per_cluster b) \<le> unat (total_sectors b)"
      using inside by auto
    assume t: "unat t < unat (fat_count b)"
    show "unat (fat_sector b t c) =
        unat (reserved_sectors b) + unat t * unat (sectors_per_fat b) + unat c div 128"
      "unat c div 128 < unat (sectors_per_fat b)" "unat (fat_sector b t c) < data_start b"
      using fat_sector_exact [OF ok valid [OF c] t] .
  next
    fix c c' s s' assume "c \<noteq> c'" "sector_of_cluster b c = Some s" "sector_of_cluster b c' = Some s'"
    then show "{unat s ..< unat s + unat (sectors_per_cluster b)} \<inter>
       {unat s' ..< unat s' + unat (sectors_per_cluster b)} = {}"
      using cluster_sectors_disjoint [OF ok valid valid] by blast
  qed
qed

text \<open>A volume of 100000 clusters of one sector, with two tables of 1024 sectors.\<close>

definition sample_boot_bytes :: bytes where
  "sample_boot_bytes = (replicate 512 0)[12 := 2, 13 := 1, 14 := 32, 16 := 2, 32 := 0xC0, 33 := 0x8E,
     34 := 1, 37 := 4, 44 := 2, 510 := 0x55, 511 := 0xAA]"

definition sample_boot :: boot_sector where
  "sample_boot = \<lparr>bytes_per_sector = 512, sectors_per_cluster = 1, reserved_sectors = 32, fat_count = 2,
     total_sectors = 102080, sectors_per_fat = 1024, root_cluster = 2, fs_info_sector = 0,
     backup_boot_sector = 0, clusters = 100000, volume_id_of = None\<rparr>"

lemma sample_boot_parses: "parse_boot sample_boot_bytes = Inr sample_boot"
  by (simp add: parse_boot_def parse_volume_id_def u16_at_def u32_at_def sample_boot_bytes_def Let_def
      nth_list_update u16_from_le_def u32_from_le_def is_power_of_two_def upt_rec SECTOR_BYTES_def
      FIRST_DATA_CLUSTER_def FAT32_MINIMUM_CLUSTERS_def sample_boot_def)

theorem parsed_geometry_witness:
  "sector_of_cluster sample_boot 1 = None \<and> sector_of_cluster sample_boot 100002 = None"
  using parsed_geometry [OF sample_boot_parses] by (simp add: sample_boot_def)

text \<open>
  The name a file is written under: it is eleven bytes, it never reads back as a deleted slot or
  as the end of the directory, and the decoded entry is found by the name that was asked for, in any
  case of its letters, unless that name ends in its only dot.
\<close>

theorem encoded_name_found:
  assumes "encode_name name = Some enc" "length rest = 20"
  shows "\<exists>e. decode_slot (enc @ [ATTR_ARCHIVE] @ rest) = SlotEntry e \<and> length enc = 11 \<and>
    (is_named e name \<longleftrightarrow> snd (split_name name) \<noteq> [] \<or> 46 \<notin> set name)"
proof -
  note dec = decode_encoded_name [OF assms(1)]
  have first: "(enc @ [ATTR_ARCHIVE] @ rest) ! 0 = enc ! 0" "(enc @ [ATTR_ARCHIVE] @ rest) ! 11 = ATTR_ARCHIVE"
    using dec(1) by (simp_all add: nth_append)
  have e0: "enc ! 0 \<noteq> ENTRY_NEVER_USED" "enc ! 0 \<noteq> ENTRY_DELETED"
    using dec(2,3) by (auto simp: ENTRY_NEVER_USED_def ENTRY_DELETED_def)
  then obtain e where e: "decode_slot (enc @ [ATTR_ARCHIVE] @ rest) = SlotEntry e"
      "de_name e = decode_slot_name (enc @ [ATTR_ARCHIVE] @ rest)"
    using first by (simp add: decode_slot_def Let_def ATTR_ARCHIVE_def ATTR_LONG_NAME_def ATTR_VOLUME_LABEL_def)
  let ?n = "if snd (split_name name) = [] then fst (split_name name) else name"
  have name: "de_name e = map to_ascii_uppercase ?n" using e(2) dec(4) by simp
  obtain base ext where sp: "split_name name = (base, ext)" by fastforce
  have all: "\<forall>u \<in> set (de_name e). u \<le> 0x7F"
  proof -
    obtain base' ext' where p: "split_name name = (base', ext')"
      "\<forall>u \<in> to_ascii_uppercase ` (set base' \<union> set ext'). 0x20 < u \<and> u \<le> 0x7F"
      using assms(1) by (rule encode_name_Some)
    have "set ?n \<subseteq> set base' \<union> set ext' \<union> {46}" using split_name_join [OF p(1)] p(1) by (auto split: if_splits)
    then show ?thesis using p(2) unfolding name by (auto simp: to_ascii_uppercase_def)
  qed
  have str: "entry_name e = map to_ascii_uppercase ?n"
    using utf8_valid_ascii [OF all] name by (simp add: entry_name_def str_or_empty_def)
  have same: "is_named e name" if "?n = name"
    using that by (auto simp: is_named_def str eq_ignore_ascii_case_def set_zip)
  have dot: "\<not> is_named e name" if "ext = []" "46 \<in> set name"
    using split_name_join [OF sp] that sp by (auto simp: is_named_def str split: if_splits)
  have "?n = name" if "ext \<noteq> [] \<or> 46 \<notin> set name"
    using split_name_join [OF sp] that sp by (auto split: if_splits)
  then show ?thesis using e(1) dec(1) same dot sp by (metis snd_conv)
qed

theorem encoded_name_found_witness:
  "\<exists>enc e. encode_name [0x61, 0x2E, 0x74] = Some enc \<and>
     decode_slot (enc @ [ATTR_ARCHIVE] @ replicate 20 0) = SlotEntry e \<and> is_named e [0x61, 0x2E, 0x74]"
proof -
  have sp: "split_name [0x61, 0x2E, 0x74] = ([0x61], [0x74 :: u8])" by (simp add: split_name_def)
  obtain enc where enc: "encode_name [0x61, 0x2E, 0x74] = Some enc"
    using encode_nameI [OF sp] by (auto simp: allowed_in_a_name_def RESERVED_bytes_def
        to_ascii_uppercase_def ENTRY_DELETED_def)
  show ?thesis using encoded_name_found [OF enc, of "replicate 20 0"] enc sp by auto
qed

text \<open>
  Two consequences worth knowing. A name that ends in its only dot is accepted for writing, but the
  file it makes is not found under it. And a volume may be accepted although it has clusters whose
  numbers the 28 bits of a table entry cannot hold.
\<close>

lemma trailing_dot_not_found:
  "\<exists>enc e. encode_name [0x41, 0x2E] = Some enc \<and>
     decode_slot (enc @ [ATTR_ARCHIVE] @ replicate 20 0) = SlotEntry e \<and> \<not> is_named e [0x41, 0x2E]"
proof -
  have sp: "split_name [0x41, 0x2E] = ([0x41], [] :: bytes)" by (simp add: split_name_def)
  have enc: "encode_name [0x41, 0x2E] = Some (0x41 # replicate 7 32 @ replicate 3 32)"
    using encode_nameI [OF sp] by (simp add: allowed_in_a_name_def RESERVED_bytes_def
        to_ascii_uppercase_def ENTRY_DELETED_def)
  then show ?thesis
    by (simp add: decode_slot_def decode_slot_name_def Let_def is_named_def entry_name_def str_or_empty_def
        ATTR_ARCHIVE_def ATTR_LONG_NAME_def ATTR_VOLUME_LABEL_def ENTRY_NEVER_USED_def ENTRY_DELETED_def
        nth_append)
qed

definition huge_boot_bytes :: bytes where
  "huge_boot_bytes = (replicate 512 0)[12 := 2, 13 := 1, 14 := 32, 16 := 1, 32 := 0xFF, 33 := 0xFF,
     34 := 0xFF, 35 := 0xFF, 39 := 2, 44 := 2, 510 := 0x55, 511 := 0xAA]"

lemma clusters_beyond_28_bits:
  "\<exists>b c s. parse_boot huge_boot_bytes = Inr b \<and> sector_of_cluster b c = Some s \<and> decode_entry c = End"
proof -
  have "\<exists>b. parse_boot huge_boot_bytes = Inr b \<and> clusters b = 4261412831 \<and> boot_ok b"
  proof -
    have "\<exists>b. parse_boot huge_boot_bytes = Inr b \<and> clusters b = 4261412831"
      by (simp add: parse_boot_def u16_at_def u32_at_def huge_boot_bytes_def Let_def
          nth_list_update u16_from_le_def u32_from_le_def is_power_of_two_def upt_rec SECTOR_BYTES_def
          FIRST_DATA_CLUSTER_def FAT32_MINIMUM_CLUSTERS_def)
    then show ?thesis using parse_boot_ok by blast
  qed
  then obtain b where b: "parse_boot huge_boot_bytes = Inr b" "clusters b = 4261412831" "boot_ok b" by blast
  have "valid_cluster b 0x0FFFFFF8" by (simp add: valid_cluster_def b(2))
  then obtain s where "sector_of_cluster b 0x0FFFFFF8 = Some s" using sector_of_cluster_Some [OF b(3)] by metis
  moreover have "decode_entry 0x0FFFFFF8 = End" by (simp add: decode_entry_def ENTRY_MASK_def)
  ultimately show ?thesis using b(1) by blast
qed

end
