(* ===== verification/Fat_Volume.thy ===== *)
theory Fat_Volume
  imports Fat_Format
begin

text \<open>
  A FAT32 volume over whatever can hand it sectors (\<^verbatim>\<open>hal/src/fat.rs\<close>): following chains, listing the
  root directory, reading files, and writing them. The trait \<open>Sectors\<close> is a record of its two
  operations on a device state of any type; every operation of the volume passes that state along
  and keeps it on an error, so that what a half-finished write leaves behind is part of the model.
  The counters that stop a looping chain are naturals: they never pass the number of clusters by
  more than one. What a failed read leaves in the caller's buffer is not modelled.
\<close>

section \<open>Devices and errors\<close>

record ('s, 'e) sectors =
  read_sector :: "u32 \<Rightarrow> ('s, 'e, bytes) io"
  write_sector :: "u32 \<Rightarrow> bytes \<Rightarrow> ('s, 'e, unit) io"

datatype 'e volume_error =
    VDevice 'e
  | VBootSector boot_sector_error
  | BadCluster u32
  | BrokenChain u32 entry
  | ChainLoops
  | TooBig u32

datatype 'e write_error =
    Reading "'e volume_error"
  | WDevice 'e
  | BadName
  | TooManyClusters usize
  | Full usize usize
  | DirectoryFull
  | IsADirectory

definition MAX_FILE_CLUSTERS :: usize where
  "MAX_FILE_CLUSTERS = 64"

definition END_OF_CHAIN :: u32 where
  "END_OF_CHAIN = 0x0FFFFFFF"

definition FS_INFO_LEAD :: u32 where
  "FS_INFO_LEAD = 0x41615252"

definition FS_INFO_STRUCTURE :: u32 where
  "FS_INFO_STRUCTURE = 0x61417272"

text \<open>The offsets \<open>0..sectors_per_cluster\<close> of the loops over a cluster.\<close>

definition cluster_offsets :: "boot_sector \<Rightarrow> u32 list" where
  "cluster_offsets b = map of_nat [0..<unat (sectors_per_cluster b)]"

section \<open>Reading\<close>

definition vread :: "('s, 'e) sectors \<Rightarrow> u32 \<Rightarrow> ('s, 'e volume_error, bytes) io" where
  "vread S sector = io_map_err VDevice (read_sector S sector)"

definition mount :: "('s, 'e) sectors \<Rightarrow> ('s, 'e volume_error, boot_sector) io" where
  "mount S = io_bind (vread S 0) (\<lambda>first. io_lift (map_err VBootSector (parse_boot first)))"

definition next_cluster :: "('s, 'e) sectors \<Rightarrow> boot_sector \<Rightarrow> u32 \<Rightarrow> ('s, 'e volume_error, entry) io" where
  "next_cluster S b cluster =
     (if cluster < FIRST_DATA_CLUSTER \<or> cluster \<ge> FIRST_DATA_CLUSTER + clusters b
      then io_fail (BadCluster cluster)
      else let per_sector = ucast (bytes_per_sector b) div 4;
               sector = first_fat_sector b + cluster div per_sector;
               offset = unat (cluster mod per_sector) * 4
           in io_bind (vread S sector) (\<lambda>bytes. io_ret (decode_entry (u32_at bytes offset))))"

text \<open>
  \<open>read_root\<close> with a closure \<open>each\<close>, which answers whether to go on and may remember something.
\<close>

fun root_slots :: "('c \<Rightarrow> directory_entry \<Rightarrow> bool \<times> 'c) \<Rightarrow> bytes list \<Rightarrow> 'c \<Rightarrow> bool \<times> 'c" where
  "root_slots each [] acc = (True, acc)"
| "root_slots each (slot # slots) acc =
     (case decode_slot slot of
        SlotEnd \<Rightarrow> (False, acc)
      | Skip \<Rightarrow> root_slots each slots acc
      | SlotEntry e \<Rightarrow>
          (case each acc e of (go_on, acc') \<Rightarrow>
             if go_on then root_slots each slots acc' else (False, acc')))"

fun root_sectors :: "('s, 'e) sectors \<Rightarrow> ('c \<Rightarrow> directory_entry \<Rightarrow> bool \<times> 'c) \<Rightarrow> u32 \<Rightarrow> u32 list \<Rightarrow> 'c \<Rightarrow>
    ('s, 'e volume_error, bool \<times> 'c) io" where
  "root_sectors S each first [] acc = io_ret (True, acc)"
| "root_sectors S each first (offset # offsets) acc =
     io_bind (vread S (first + offset)) (\<lambda>bytes.
       case root_slots each (as_chunks DIRECTORY_ENTRY_BYTES bytes) acc of (go_on, acc') \<Rightarrow>
         if go_on then root_sectors S each first offsets acc' else io_ret (False, acc'))"

function read_root_loop :: "('s, 'e) sectors \<Rightarrow> boot_sector \<Rightarrow> ('c \<Rightarrow> directory_entry \<Rightarrow> bool \<times> 'c) \<Rightarrow>
    u32 \<Rightarrow> nat \<Rightarrow> 'c \<Rightarrow> ('s, 'e volume_error, 'c) io" where
  "read_root_loop S b each cluster seen acc =
     (case sector_of_cluster b cluster of
        None \<Rightarrow> io_fail (BadCluster cluster)
      | Some first \<Rightarrow>
          io_bind (root_sectors S each first (cluster_offsets b) acc) (\<lambda>(go_on, acc).
            if \<not> go_on then io_ret acc
            else if seen + 1 > unat (clusters b) then io_fail ChainLoops
            else io_bind (next_cluster S b cluster) (\<lambda>e.
              case e of Next nxt \<Rightarrow> read_root_loop S b each nxt (seen + 1) acc
              | End \<Rightarrow> io_ret acc
              | _ \<Rightarrow> io_fail (BrokenChain cluster e))))"
  by pat_completeness auto
termination
  by (relation "measure (\<lambda>(S, b, each, cluster, seen, acc). unat (clusters b) - seen)") auto

definition read_root :: "('s, 'e) sectors \<Rightarrow> boot_sector \<Rightarrow> ('c \<Rightarrow> directory_entry \<Rightarrow> bool \<times> 'c) \<Rightarrow> 'c \<Rightarrow>
    ('s, 'e volume_error, 'c) io" where
  "read_root S b each acc = read_root_loop S b each (root_cluster b) 0 acc"

definition volume_find :: "('s, 'e) sectors \<Rightarrow> boot_sector \<Rightarrow> bytes \<Rightarrow>
    ('s, 'e volume_error, directory_entry option) io" where
  "volume_find S b name =
     read_root S b (\<lambda>found e. if is_named e name then (False, Some e) else (True, found)) None"

text \<open>\<open>read_file\<close>: the loop over the sectors of a cluster, and the loop over the chain.\<close>

fun file_sectors :: "('s, 'e) sectors \<Rightarrow> u32 \<Rightarrow> u32 list \<Rightarrow> usize \<Rightarrow> usize \<Rightarrow> bytes \<Rightarrow>
    ('s, 'e volume_error, usize \<times> bytes) io" where
  "file_sectors S first [] sz written into = io_ret (written, into)"
| "file_sectors S first (offset # offsets) sz written into =
     (if written = sz then io_ret (written, into)
      else io_bind (vread S (first + offset)) (\<lambda>bytes.
        let taking = min (sz - written) (length bytes)
        in file_sectors S first offsets sz (written + taking)
             (copy_at into written (take taking bytes))))"

function read_file_loop :: "('s, 'e) sectors \<Rightarrow> boot_sector \<Rightarrow> usize \<Rightarrow> u32 \<Rightarrow> usize \<Rightarrow> nat \<Rightarrow> bytes \<Rightarrow>
    ('s, 'e volume_error, usize \<times> bytes) io" where
  "read_file_loop S b sz cluster written seen into =
     (if \<not> written < sz then io_ret (written, into)
      else case sector_of_cluster b cluster of
        None \<Rightarrow> io_fail (BadCluster cluster)
      | Some first \<Rightarrow>
          io_bind (file_sectors S first (cluster_offsets b) sz written into) (\<lambda>(written, into).
            if written = sz then io_ret (written, into)
            else if seen + 1 > unat (clusters b) then io_fail ChainLoops
            else io_bind (next_cluster S b cluster) (\<lambda>e.
              case e of Next nxt \<Rightarrow> read_file_loop S b sz nxt written (seen + 1) into
              | _ \<Rightarrow> io_fail (BrokenChain cluster e))))"
  by pat_completeness auto
termination
  by (relation "measure (\<lambda>(S, b, sz, cluster, written, seen, into). unat (clusters b) - seen)") auto

text \<open>The answer is the number of bytes and the buffer they landed in.\<close>

definition read_file :: "('s, 'e) sectors \<Rightarrow> boot_sector \<Rightarrow> directory_entry \<Rightarrow> bytes \<Rightarrow>
    ('s, 'e volume_error, usize \<times> bytes) io" where
  "read_file S b e into =
     (let sz = unat (de_size e) in
      if sz > length into then io_fail (TooBig (de_size e))
      else read_file_loop S b sz (de_first_cluster e) 0 0 into)"

text \<open>\<open>read_at\<close>: the walk to the cluster of the offset, then the two nested loops.\<close>

fun walk_to :: "('s, 'e) sectors \<Rightarrow> boot_sector \<Rightarrow> nat \<Rightarrow> u32 \<Rightarrow> nat \<Rightarrow> ('s, 'e volume_error, u32 \<times> nat) io" where
  "walk_to S b 0 cluster seen = io_ret (cluster, seen)"
| "walk_to S b (Suc n) cluster seen =
     (if seen + 1 > unat (clusters b) then io_fail ChainLoops
      else io_bind (next_cluster S b cluster) (\<lambda>e.
        case e of Next nxt \<Rightarrow> walk_to S b n nxt (seen + 1)
        | _ \<Rightarrow> io_fail (BrokenChain cluster e)))"

fun at_sectors :: "('s, 'e) sectors \<Rightarrow> u32 \<Rightarrow> u32 list \<Rightarrow> usize \<Rightarrow> usize \<Rightarrow> usize \<Rightarrow> bytes \<Rightarrow>
    ('s, 'e volume_error, usize \<times> bytes) io" where
  "at_sectors S first [] within want written into = io_ret (written, into)"
| "at_sectors S first (sector # rest) within want written into =
     (if \<not> written < want then io_ret (written, into)
      else io_bind (vread S (first + sector)) (\<lambda>bytes.
        let taking = min (want - written) (512 - within)
        in at_sectors S first rest 0 want (written + taking)
             (copy_at into written (take taking (drop within bytes)))))"

function read_at_loop :: "('s, 'e) sectors \<Rightarrow> boot_sector \<Rightarrow> usize \<Rightarrow> u32 \<Rightarrow> u32 \<Rightarrow> usize \<Rightarrow> nat \<Rightarrow> bytes \<Rightarrow>
    ('s, 'e volume_error, usize \<times> bytes) io" where
  "read_at_loop S b want inside cluster written seen into =
     (if \<not> written < want then io_ret (written, into)
      else case sector_of_cluster b cluster of
        None \<Rightarrow> io_fail (BadCluster cluster)
      | Some first \<Rightarrow>
          io_bind (at_sectors S first
              (map of_nat [unat (inside div ucast SECTOR_BYTES)..<unat (sectors_per_cluster b)])
              (unat (inside mod ucast SECTOR_BYTES)) want written into) (\<lambda>(written, into).
            if written = want then io_ret (written, into)
            else if seen + 1 > unat (clusters b) then io_fail ChainLoops
            else io_bind (next_cluster S b cluster) (\<lambda>e.
              case e of Next nxt \<Rightarrow> read_at_loop S b want 0 nxt written (seen + 1) into
              | _ \<Rightarrow> io_fail (BrokenChain cluster e))))"
  by pat_completeness auto
termination
  by (relation "measure (\<lambda>(S, b, want, inside, cluster, written, seen, into). unat (clusters b) - seen)") auto

definition read_at :: "('s, 'e) sectors \<Rightarrow> boot_sector \<Rightarrow> directory_entry \<Rightarrow> u32 \<Rightarrow> bytes \<Rightarrow>
    ('s, 'e volume_error, usize \<times> bytes) io" where
  "read_at S b e offset into =
     (if offset \<ge> de_size e then io_ret (0, into)
      else let want = min (unat (de_size e - offset)) (length into) in
        if want = 0 then io_ret (0, into)
        else let per_cluster = ucast (sectors_per_cluster b) * ucast SECTOR_BYTES :: u32 in
          io_bind (walk_to S b (unat (offset div per_cluster)) (de_first_cluster e) 0) (\<lambda>(cluster, seen).
            read_at_loop S b want (offset mod per_cluster) cluster 0 seen into))"

section \<open>Writing\<close>

definition wread :: "('s, 'e) sectors \<Rightarrow> u32 \<Rightarrow> ('s, 'e write_error, bytes) io" where
  "wread S sector = io_map_err Reading (vread S sector)"

definition wwrite :: "('s, 'e) sectors \<Rightarrow> u32 \<Rightarrow> bytes \<Rightarrow> ('s, 'e write_error, unit) io" where
  "wwrite S sector bytes = io_map_err WDevice (write_sector S sector bytes)"

definition set_entry_bytes :: "bytes \<Rightarrow> usize \<Rightarrow> u32 \<Rightarrow> bytes" where
  "set_entry_bytes bytes offset entry =
     (let kept = u32_at bytes offset AND NOT ENTRY_MASK
      in copy_at bytes offset (u32_to_le (kept OR (entry AND ENTRY_MASK))))"

fun set_in_tables :: "('s, 'e) sectors \<Rightarrow> boot_sector \<Rightarrow> u32 \<Rightarrow> u32 \<Rightarrow> u32 list \<Rightarrow> ('s, 'e write_error, unit) io" where
  "set_in_tables S b cluster entry [] = io_ret ()"
| "set_in_tables S b cluster entry (table # tables) =
     (let per_sector = ucast (bytes_per_sector b) div 4;
          offset = unat (cluster mod per_sector) * 4;
          sector = first_fat_sector b + table * sectors_per_fat b + cluster div per_sector
      in io_bind (wread S sector) (\<lambda>bytes.
           io_bind (wwrite S sector (set_entry_bytes bytes offset entry)) (\<lambda>_.
             set_in_tables S b cluster entry tables)))"

definition set_next_cluster :: "('s, 'e) sectors \<Rightarrow> boot_sector \<Rightarrow> u32 \<Rightarrow> u32 \<Rightarrow> ('s, 'e write_error, unit) io" where
  "set_next_cluster S b cluster entry =
     (if cluster < FIRST_DATA_CLUSTER \<or> cluster \<ge> FIRST_DATA_CLUSTER + clusters b
      then io_fail (Reading (BadCluster cluster))
      else set_in_tables S b cluster entry (map of_nat [0..<unat (fat_count b)]))"

text \<open>The array \<open>found\<close>, of which the first \<open>at\<close> elements are in use, is the list of those.\<close>

function free_loop :: "('s, 'e) sectors \<Rightarrow> boot_sector \<Rightarrow> usize \<Rightarrow> u32 \<Rightarrow> u32 list \<Rightarrow>
    ('s, 'e write_error, u32 list) io" where
  "free_loop S b count cluster found =
     (if length found < count \<and> cluster < FIRST_DATA_CLUSTER + clusters b
      then io_bind (io_map_err Reading (next_cluster S b cluster)) (\<lambda>e.
             free_loop S b count (cluster + 1) (if e = Free then found @ [cluster] else found))
      else io_ret found)"
  by pat_completeness auto
termination
proof (relation "measure (\<lambda>(S, b, count, cluster, found). unat (FIRST_DATA_CLUSTER + clusters b) - unat cluster)")
  fix S :: "('s, 'e) sectors" and b :: boot_sector and count :: nat and cluster :: u32 and found :: "u32 list" and e :: entry
  assume "length found < count \<and> cluster < FIRST_DATA_CLUSTER + clusters b"
  then have lt: "unat cluster < unat (FIRST_DATA_CLUSTER + clusters b)" by (simp add: word_less_nat_alt)
  then have "unat cluster + unat (1 :: u32) < 2 ^ LENGTH(32)"
    using unat_u32_bound [of "FIRST_DATA_CLUSTER + clusters b"] by simp
  then have "unat (cluster + 1) = unat cluster + 1" by (subst unat_add_exact) simp_all
  then show "((S, b, count, cluster + 1, if e = Free then found @ [cluster] else found), S, b, count, cluster, found)
      \<in> measure (\<lambda>(S, b, count, cluster, found). unat (FIRST_DATA_CLUSTER + clusters b) - unat cluster)"
    using lt by simp
qed simp

definition free_clusters :: "('s, 'e) sectors \<Rightarrow> boot_sector \<Rightarrow> usize \<Rightarrow> ('s, 'e write_error, u32 list) io" where
  "free_clusters S b count =
     (if count > MAX_FILE_CLUSTERS then io_fail (TooManyClusters count)
      else io_bind (free_loop S b count FIRST_DATA_CLUSTER []) (\<lambda>found.
        if length found < count then io_fail (Full count (length found)) else io_ret found))"

fun write_cluster :: "('s, 'e) sectors \<Rightarrow> usize \<Rightarrow> usize \<Rightarrow> u32 \<Rightarrow> u32 list \<Rightarrow> bytes \<Rightarrow>
    ('s, 'e write_error, unit) io" where
  "write_cluster S per_cluster index first [] contents = io_ret ()"
| "write_cluster S per_cluster index first (offset # offsets) contents =
     (let at = index * per_cluster + unat offset * 512 in
      if at \<ge> length contents then io_ret ()
      else let taking = min (length contents - at) 512;
               bytes = copy_at (replicate 512 0) 0 (take taking (drop at contents))
           in io_bind (wwrite S (first + offset) bytes) (\<lambda>_.
                write_cluster S per_cluster index first offsets contents))"

fun write_clusters_from :: "('s, 'e) sectors \<Rightarrow> boot_sector \<Rightarrow> usize \<Rightarrow> u32 list \<Rightarrow> bytes \<Rightarrow>
    ('s, 'e write_error, unit) io" where
  "write_clusters_from S b index [] contents = io_ret ()"
| "write_clusters_from S b index (cluster # chain) contents =
     (case sector_of_cluster b cluster of
        None \<Rightarrow> io_fail (Reading (BadCluster cluster))
      | Some first \<Rightarrow>
          io_bind (write_cluster S (unat (cluster_bytes b)) index first (cluster_offsets b) contents) (\<lambda>_.
            write_clusters_from S b (index + 1) chain contents))"

definition write_clusters :: "('s, 'e) sectors \<Rightarrow> boot_sector \<Rightarrow> u32 list \<Rightarrow> bytes \<Rightarrow>
    ('s, 'e write_error, unit) io" where
  "write_clusters S b chain contents = write_clusters_from S b 0 chain contents"

text \<open>
  \<open>directory_slot\<close>: the sector, the offset in it, and what was already there. The slots of a sector
  either answer (\<open>Inl\<close>) or hand on the first deleted slot seen so far (\<open>Inr\<close>).
\<close>

definition same_name :: "bytes \<Rightarrow> bytes \<Rightarrow> bool" where
  "same_name slot name \<longleftrightarrow> (\<forall>(a, b) \<in> set (zip (take 11 slot) name). eq_ignore_ascii_case a b)"

type_synonym found_slot = "u32 \<times> usize \<times> directory_entry option"

fun dir_slots :: "bytes \<Rightarrow> u32 \<Rightarrow> usize \<Rightarrow> bytes list \<Rightarrow> (u32 \<times> usize) option \<Rightarrow>
    found_slot + (u32 \<times> usize) option" where
  "dir_slots name sector index [] free = Inr free"
| "dir_slots name sector index (slot # slots) free =
     (let at = index * DIRECTORY_ENTRY_BYTES in
      case decode_slot slot of
        SlotEntry e \<Rightarrow>
          (if same_name slot name then Inl (sector, at, Some e)
           else dir_slots name sector (index + 1) slots free)
      | Skip \<Rightarrow>
          dir_slots name sector (index + 1) slots
            (if free = None \<and> slot ! 0 = ENTRY_DELETED then Some (sector, at) else free)
      | SlotEnd \<Rightarrow>
          (case free of None \<Rightarrow> Inl (sector, at, None) | Some (sector', at') \<Rightarrow> Inl (sector', at', None)))"

fun dir_sectors :: "('s, 'e) sectors \<Rightarrow> bytes \<Rightarrow> u32 \<Rightarrow> u32 list \<Rightarrow> (u32 \<times> usize) option \<Rightarrow>
    ('s, 'e write_error, found_slot + (u32 \<times> usize) option) io" where
  "dir_sectors S name first [] free = io_ret (Inr free)"
| "dir_sectors S name first (offset # offsets) free =
     io_bind (wread S (first + offset)) (\<lambda>bytes.
       case dir_slots name (first + offset) 0 (as_chunks DIRECTORY_ENTRY_BYTES bytes) free of
         Inl found \<Rightarrow> io_ret (Inl found)
       | Inr free \<Rightarrow> dir_sectors S name first offsets free)"

function directory_slot_loop :: "('s, 'e) sectors \<Rightarrow> boot_sector \<Rightarrow> bytes \<Rightarrow> u32 \<Rightarrow> nat \<Rightarrow> (u32 \<times> usize) option \<Rightarrow>
    ('s, 'e write_error, found_slot) io" where
  "directory_slot_loop S b name cluster seen free =
     (case sector_of_cluster b cluster of
        None \<Rightarrow> io_fail (Reading (BadCluster cluster))
      | Some first \<Rightarrow>
          io_bind (dir_sectors S name first (cluster_offsets b) free) (\<lambda>r.
            case r of Inl found \<Rightarrow> io_ret found
            | Inr free \<Rightarrow>
                (if seen + 1 > unat (clusters b) then io_fail (Reading ChainLoops)
                 else io_bind (io_map_err Reading (next_cluster S b cluster)) (\<lambda>e.
                   case e of Next nxt \<Rightarrow> directory_slot_loop S b name nxt (seen + 1) free
                   | _ \<Rightarrow> (case free of
                            Some (sector, at) \<Rightarrow> io_ret (sector, at, None)
                          | None \<Rightarrow> io_fail DirectoryFull)))))"
  by pat_completeness auto
termination
  by (relation "measure (\<lambda>(S, b, name, cluster, seen, free). unat (clusters b) - seen)") auto

definition directory_slot :: "('s, 'e) sectors \<Rightarrow> boot_sector \<Rightarrow> bytes \<Rightarrow> ('s, 'e write_error, found_slot) io" where
  "directory_slot S b name = directory_slot_loop S b name (root_cluster b) 0 None"

text \<open>\<open>update_fs_info\<close>: the free clusters, counted a sector at a time.\<close>

fun count_entries :: "u32 \<Rightarrow> u32 \<Rightarrow> bytes list \<Rightarrow> u32 \<times> u32 \<Rightarrow> u32 \<times> u32" where
  "count_entries lst cluster [] counts = counts"
| "count_entries lst cluster (e # entries) (free, first_free) =
     count_entries lst (cluster + 1) entries
       (if cluster < FIRST_DATA_CLUSTER \<or> cluster > lst then (free, first_free)
        else if u32_at e 0 AND ENTRY_MASK = 0
        then (free + 1, if first_free = 0 then cluster else first_free)
        else (free, first_free))"

fun count_sectors :: "('s, 'e) sectors \<Rightarrow> u32 \<Rightarrow> u32 \<Rightarrow> u32 list \<Rightarrow> u32 \<times> u32 \<Rightarrow>
    ('s, 'e write_error, u32 \<times> u32) io" where
  "count_sectors S table lst [] counts = io_ret counts"
| "count_sectors S table lst (sector # sectors) counts =
     io_bind (wread S (table + sector)) (\<lambda>bytes.
       count_sectors S table lst sectors (count_entries lst (sector * 128) (as_chunks 4 bytes) counts))"

definition update_fs_info :: "('s, 'e) sectors \<Rightarrow> boot_sector \<Rightarrow> ('s, 'e write_error, unit) io" where
  "update_fs_info S b =
     (let sector = ucast (fs_info_sector b) in
      if sector = 0 \<or> sector \<ge> ucast (reserved_sectors b) then io_ret ()
      else io_bind (wread S sector) (\<lambda>bytes.
        if u32_at bytes 0 \<noteq> FS_INFO_LEAD \<or> u32_at bytes 484 \<noteq> FS_INFO_STRUCTURE then io_ret ()
        else let lst = FIRST_DATA_CLUSTER + clusters b - 1 in
          io_bind (count_sectors S (first_fat_sector b) lst
              (map of_nat [unat (FIRST_DATA_CLUSTER div 128)..<unat (lst div 128) + 1]) (0, 0))
            (\<lambda>(free, first_free).
               wwrite S sector (copy_at (copy_at bytes 488 (u32_to_le free)) 492 (u32_to_le first_free)))))"

function free_chain_loop :: "('s, 'e) sectors \<Rightarrow> boot_sector \<Rightarrow> u32 list \<Rightarrow> u32 \<Rightarrow> nat \<Rightarrow>
    ('s, 'e write_error, unit) io" where
  "free_chain_loop S b keep cluster seen =
     io_bind (io_map_err Reading (next_cluster S b cluster)) (\<lambda>nxt.
       if nxt = Free \<or> cluster \<in> set keep then io_ret ()
       else io_bind (set_next_cluster S b cluster 0) (\<lambda>_.
         if seen + 1 > unat (clusters b) then io_fail (Reading ChainLoops)
         else case nxt of Next c \<Rightarrow> free_chain_loop S b keep c (seen + 1) | _ \<Rightarrow> io_ret ()))"
  by pat_completeness auto
termination
  by (relation "measure (\<lambda>(S, b, keep, cluster, seen). unat (clusters b) - seen)") auto

definition free_chain :: "('s, 'e) sectors \<Rightarrow> boot_sector \<Rightarrow> u32 \<Rightarrow> u32 list \<Rightarrow> ('s, 'e write_error, unit) io" where
  "free_chain S b first keep = free_chain_loop S b keep first 0"

text \<open>\<open>write_file\<close>: the chain in the tables, the bytes of the new entry, and the whole of it.\<close>

fun link_chain :: "('s, 'e) sectors \<Rightarrow> boot_sector \<Rightarrow> u32 list \<Rightarrow> ('s, 'e write_error, unit) io" where
  "link_chain S b [] = io_ret ()"
| "link_chain S b (cluster # chain) =
     io_bind (set_next_cluster S b cluster (case chain of nxt # _ \<Rightarrow> nxt | [] \<Rightarrow> END_OF_CHAIN)) (\<lambda>_.
       link_chain S b chain)"

definition new_entry_bytes :: "bytes \<Rightarrow> u32 \<Rightarrow> usize \<Rightarrow> bytes" where
  "new_entry_bytes encoded first len =
     encoded @ [ATTR_ARCHIVE] @ replicate 8 0 @ u16_to_le (ucast (drop_bit 16 first)) @ replicate 4 0 @
     u16_to_le (ucast first) @ u32_to_le (of_nat len)"

definition write_entry :: "('s, 'e) sectors \<Rightarrow> u32 \<Rightarrow> usize \<Rightarrow> bytes \<Rightarrow> ('s, 'e write_error, bytes) io" where
  "write_entry S sector offset entry =
     io_bind (wread S sector) (\<lambda>bytes.
       let bytes' = copy_at bytes offset entry
       in io_bind (wwrite S sector bytes') (\<lambda>_. io_ret bytes'))"

definition write_file :: "('s, 'e) sectors \<Rightarrow> boot_sector \<Rightarrow> bytes \<Rightarrow> bytes \<Rightarrow>
    ('s, 'e write_error, directory_entry) io" where
  "write_file S b name contents =
     (case encode_name name of
        None \<Rightarrow> io_fail BadName
      | Some encoded \<Rightarrow>
          (let per_cluster = unat (cluster_bytes b);
               needed = (length contents + per_cluster - 1) div per_cluster in
           io_bind (directory_slot S b encoded) (\<lambda>(sector, offset, existing).
             if (case existing of None \<Rightarrow> False | Some e \<Rightarrow> is_directory e) then io_fail IsADirectory
             else io_bind (free_clusters S b needed) (\<lambda>chain.
               io_bind (write_clusters S b chain contents) (\<lambda>_.
               io_bind (link_chain S b chain) (\<lambda>_.
               let first = (case chain of c # _ \<Rightarrow> c | [] \<Rightarrow> 0) in
               io_bind (write_entry S sector offset (new_entry_bytes encoded first (length contents))) (\<lambda>bytes.
               io_bind (case existing of
                          Some e \<Rightarrow> (if de_first_cluster e \<noteq> 0 then free_chain S b (de_first_cluster e) chain
                                    else io_ret ())
                        | None \<Rightarrow> io_ret ()) (\<lambda>_.
               io_bind (update_fs_info S b) (\<lambda>_.
               case decode_slot (take DIRECTORY_ENTRY_BYTES (drop offset bytes)) of
                 SlotEntry e \<Rightarrow> io_ret e
               | _ \<Rightarrow> io_fail BadName)))))))))"

end
