(* ===== verification/Fat_Read.thy ===== *)
theory Fat_Read
  imports Fat_Volume
begin

text \<open>
  Reading a FAT32 volume. The interface to the device is the locale \<open>medium\<close>: what a read and a write
  do to the bytes on the medium, errors included. The reads of a volume over any such device give
  what they give over a plain image, or a device error; over an image, reading a file gives exactly
  the bytes of the clusters its chain names, and reading from an offset gives the same bytes.
\<close>

section \<open>A volume as an image\<close>

type_synonym image = "u32 \<Rightarrow> bytes"

text \<open>A device that never fails, whose state is the image itself.\<close>

definition image_sectors :: "(image, 'e) sectors" where
  "image_sectors = \<lparr>read_sector = (\<lambda>n i. (Inr (i n), i)), write_sector = (\<lambda>n bs i. (Inr (), i(n := bs)))\<rparr>"

definition image_ok :: "image \<Rightarrow> bool" where
  "image_ok i \<longleftrightarrow> (\<forall>n. length (i n) = 512)"

lemma image_sectors_simps [simp]:
  "vread image_sectors n i = (Inr (i n), i)"
  "wread image_sectors n i = (Inr (i n), i)"
  "wwrite image_sectors n bs i = (Inr (), i(n := bs))"
  by (simp_all add: image_sectors_def vread_def wread_def wwrite_def io_map_err_def)

text \<open>What the table of an image says about a cluster, and the bytes of the cluster.\<close>

definition entry_at :: "boot_sector \<Rightarrow> image \<Rightarrow> u32 \<Rightarrow> entry" where
  "entry_at b i c = decode_entry (u32_at (i (fat_sector b 0 c)) (unat (c mod 128) * 4))"

definition cluster_data :: "boot_sector \<Rightarrow> image \<Rightarrow> u32 \<Rightarrow> bytes" where
  "cluster_data b i c = concat (map (\<lambda>k. i (the (sector_of_cluster b c) + k)) (cluster_offsets b))"

text \<open>The first \<open>n\<close> clusters of the chain that starts at \<open>c\<close>.\<close>

fun follow :: "boot_sector \<Rightarrow> image \<Rightarrow> u32 \<Rightarrow> nat \<Rightarrow> u32 list option" where
  "follow b i c 0 = Some []"
| "follow b i c (Suc n) =
     (if \<not> valid_cluster b c then None
      else if n = 0 then Some [c]
      else case entry_at b i c of Next c' \<Rightarrow> map_option (\<lambda>cs. c # cs) (follow b i c' n) | _ \<Rightarrow> None)"

text \<open>How many clusters a file of a given size takes, and its bytes.\<close>

definition clusters_for :: "boot_sector \<Rightarrow> nat \<Rightarrow> nat" where
  "clusters_for b n = (n + 512 * unat (sectors_per_cluster b) - 1) div (512 * unat (sectors_per_cluster b))"

definition file_contents :: "boot_sector \<Rightarrow> image \<Rightarrow> directory_entry \<Rightarrow> bytes option" where
  "file_contents b i e =
     map_option (\<lambda>cs. take (unat (de_size e)) (concat (map (cluster_data b i) cs)))
       (follow b i (de_first_cluster e) (clusters_for b (unat (de_size e))))"

lemma boot_bps [simp]: "boot_ok b \<Longrightarrow> bytes_per_sector b = 512"
  by (simp add: boot_ok_def)

lemma next_cluster_image:
  assumes "boot_ok b"
  shows "next_cluster image_sectors b c i =
    (if valid_cluster b c then Inr (entry_at b i c) else Inl (BadCluster c), i)"
proof (cases "valid_cluster b c")
  case True
  then have "\<not> (c < FIRST_DATA_CLUSTER \<or> c \<ge> FIRST_DATA_CLUSTER + clusters b)"
    using cluster_checks [OF assms] by blast
  then show ?thesis using True assms
    by (simp add: next_cluster_def entry_at_def fat_sector_def Let_def)
next
  case False
  then have "c < FIRST_DATA_CLUSTER \<or> c \<ge> FIRST_DATA_CLUSTER + clusters b"
    using cluster_checks [OF assms] by blast
  then show ?thesis using False by (auto simp: next_cluster_def)
qed

lemma length_cluster_offsets [simp]: "length (cluster_offsets b) = unat (sectors_per_cluster b)"
  by (simp add: cluster_offsets_def)

lemma length_concat_sectors:
  "image_ok i \<Longrightarrow> length (concat (map (\<lambda>k. i (f k)) ks)) = 512 * length ks"
  by (induction ks) (auto simp: image_ok_def)

lemma length_cluster_data [simp]:
  "image_ok i \<Longrightarrow> length (cluster_data b i c) = 512 * unat (sectors_per_cluster b)"
  by (simp add: cluster_data_def length_concat_sectors)

lemma length_concat_clusters:
  "image_ok i \<Longrightarrow> length (concat (map (cluster_data b i) cs)) = length cs * (512 * unat (sectors_per_cluster b))"
  by (induction cs) auto

lemma follow_length: "follow b i c n = Some cs \<Longrightarrow> length cs = n"
  by (induction n arbitrary: c cs) (auto split: if_splits entry.splits)

lemma follow_valid: "follow b i c n = Some cs \<Longrightarrow> x \<in> set cs \<Longrightarrow> valid_cluster b x"
  by (induction n arbitrary: c cs) (auto split: if_splits entry.splits)

section \<open>Reading whole files\<close>

lemma copy_at_twice:
  assumes "w + length xs \<le> length into"
  shows "copy_at (copy_at into w xs) (w + length xs) ys = copy_at into w (xs @ ys)"
  using assms by (simp add: copy_at_def add.commute add.left_commute)

lemma file_sectors_image:
  fixes S :: "(image, 'e) sectors"
  defines "S \<equiv> image_sectors"
  assumes "image_ok i" "w \<le> n" "n \<le> length into"
  shows "file_sectors S first ks n w into i =
    (Inr (min n (w + 512 * length ks),
          copy_at into w (take (n - w) (concat (map (\<lambda>k. i (first + k)) ks)))), i)"
  using assms(3,4)
proof (induction ks arbitrary: w into)
  case Nil
  then show ?case by (simp add: copy_at_def)
next
  case (Cons k ks)
  show ?case
  proof (cases "w = n")
    case True
    then show ?thesis using Cons.prems by (simp add: copy_at_def)
  next
    case False
    let ?d = "i (first + k)" and ?t = "min (n - w) 512"
    let ?rest = "concat (map (\<lambda>k. i (first + k)) ks)"
    have l: "length ?d = 512" using assms(2) by (simp add: image_ok_def)
    have step: "file_sectors S first (k # ks) n w into i =
        file_sectors S first ks n (w + ?t) (copy_at into w (take ?t ?d)) i"
      using False l by (simp add: Let_def S_def)
    have tk: "length (take ?t ?d) = ?t" using l by simp
    have "file_sectors S first (k # ks) n w into i =
      (Inr (min n (w + ?t + 512 * length ks),
            copy_at (copy_at into w (take ?t ?d)) (w + ?t) (take (n - (w + ?t)) ?rest)), i)"
      unfolding step using Cons.prems False tk by (intro Cons.IH) auto
    also have "copy_at (copy_at into w (take ?t ?d)) (w + ?t) (take (n - (w + ?t)) ?rest) =
      copy_at into w (take ?t ?d @ take (n - (w + ?t)) ?rest)"
      using copy_at_twice [of w "take ?t ?d" into] Cons.prems tk by simp
    also have "take ?t ?d @ take (n - (w + ?t)) ?rest = take (n - w) (concat (map (\<lambda>k. i (first + k)) (k # ks)))"
      using l by (cases "n - w \<le> 512") (simp_all add: diff_diff_add)
    also have "min n (w + ?t + 512 * length ks) = min n (w + 512 * length (k # ks))" by auto
    finally show ?thesis .
  qed
qed

declare read_file_loop.simps [simp del] read_at_loop.simps [simp del] read_root_loop.simps [simp del]
  free_loop.simps [simp del] directory_slot_loop.simps [simp del] free_chain_loop.simps [simp del]

lemma read_cluster_image:
  assumes "boot_ok b" "image_ok i" "valid_cluster b c" "w \<le> n" "n \<le> length into"
  obtains first where "sector_of_cluster b c = Some first"
    "file_sectors (image_sectors :: (image, 'e) sectors) first (cluster_offsets b) n w into i =
      (Inr (min n (w + 512 * unat (sectors_per_cluster b)),
            copy_at into w (take (n - w) (cluster_data b i c))), i)"
proof -
  obtain first where f: "sector_of_cluster b c = Some first" using assms by (metis sector_of_cluster_Some)
  show ?thesis using f by (intro that [of first]) (simp_all add: cluster_data_def file_sectors_image assms)
qed

lemma clusters_for_less:
  assumes "boot_ok b" "0 < n" "n \<le> 512 * unat (sectors_per_cluster b)"
  shows "clusters_for b n = 1"
proof -
  let ?cb = "512 * unat (sectors_per_cluster b)"
  have "0 < ?cb" using assms(1) by (simp add: boot_ok_def)
  then have "(?cb + (n - 1)) div ?cb = 1" using assms(2,3) by (subst div_add_self1) auto
  then show ?thesis using assms(2) by (simp add: clusters_for_def add.commute)
qed

lemma clusters_for_more:
  assumes "boot_ok b" "512 * unat (sectors_per_cluster b) < n"
  shows "clusters_for b n = Suc (clusters_for b (n - 512 * unat (sectors_per_cluster b)))"
proof -
  let ?cb = "512 * unat (sectors_per_cluster b)"
  have "0 < ?cb" using assms(1) by (simp add: boot_ok_def)
  moreover from this have "n + ?cb - 1 = ?cb + (n - ?cb + ?cb - 1)" using assms(2) by simp
  ultimately show ?thesis unfolding clusters_for_def by (simp only: div_add_self1 [of ?cb])
qed

lemma clusters_for_0: "clusters_for b 0 = 0"
  by (cases "unat (sectors_per_cluster b)") (simp_all add: clusters_for_def)

text \<open>The loop over the chain: \<open>m\<close> more clusters are needed for the rest of the file.\<close>

lemma read_file_loop_image:
  fixes S :: "(image, 'e) sectors"
  defines "S \<equiv> image_sectors"
  assumes "boot_ok b" "image_ok i" "w < n" "n \<le> length into"
    and "m = clusters_for b (n - w)" "seen + m \<le> unat (clusters b) + 1"
  shows "case follow b i c m of
      Some cs \<Rightarrow> read_file_loop S b n c w seen into i =
        (Inr (n, copy_at into w (take (n - w) (concat (map (cluster_data b i) cs)))), i)
    | None \<Rightarrow> \<exists>e. read_file_loop S b n c w seen into i = (Inl e, i)"
  using assms(4-)
proof (induction m arbitrary: c w seen into)
  case 0
  then show ?case using clusters_for_less [OF assms(2), of "n - w"] clusters_for_more [OF assms(2), of "n - w"]
    by (cases "n - w \<le> 512 * unat (sectors_per_cluster b)") auto
next
  case (Suc m)
  let ?cb = "512 * unat (sectors_per_cluster b)"
  have cb: "0 < ?cb" using assms(2) by (simp add: boot_ok_def)
  show ?case
  proof (cases "valid_cluster b c")
    case False
    then have "sector_of_cluster b c = None" using sector_of_cluster_None [OF assms(2)] by blast
    then show ?thesis using False Suc.prems(1) by (simp add: read_file_loop.simps)
  next
    case True
    obtain first where f: "sector_of_cluster b c = Some first"
      "file_sectors S first (cluster_offsets b) n w into i =
        (Inr (min n (w + ?cb), copy_at into w (take (n - w) (cluster_data b i c))), i)"
      using read_cluster_image [OF assms(2,3) True, of w n into] Suc.prems unfolding S_def by (metis less_imp_le_nat)
    show ?thesis
    proof (cases "n \<le> w + ?cb")
      case fin: True
      then have "m = 0" using Suc.prems(1,3) clusters_for_less [OF assms(2), of "n - w"] by simp
      then show ?thesis using True f fin Suc.prems(1) by (simp add: read_file_loop.simps)
    next
      case more: False
      let ?into = "copy_at into w (cluster_data b i c)"
      have cd: "length (cluster_data b i c) = ?cb" using assms(3) by simp
      have m: "m = clusters_for b (n - (w + ?cb))"
        using Suc.prems(3) clusters_for_more [OF assms(2), of "n - w"] more by (simp add: diff_diff_add)
      then have m0: "m \<noteq> 0"
        using more clusters_for_less [OF assms(2), of "n - (w + ?cb)"] clusters_for_more [OF assms(2), of "n - (w + ?cb)"]
        by (cases "n - (w + ?cb) \<le> ?cb") auto
      have step: "read_file_loop S b n c w seen into i =
          (case entry_at b i c of Next c' \<Rightarrow> read_file_loop S b n c' (w + ?cb) (seen + 1) ?into i
           | e \<Rightarrow> (Inl (BrokenChain c e), i))"
        using f more Suc.prems(1,4) m0 True cd assms(2)
        by (simp add: read_file_loop.simps [of _ _ _ c] S_def next_cluster_image split: entry.splits)
      have len: "n \<le> length ?into" "w + ?cb < n" using more Suc.prems(2) cd by auto
      show ?thesis
      proof (cases "entry_at b i c")
        case (Next c')
        have joined: "copy_at ?into (w + ?cb) (take (n - (w + ?cb)) ys) =
            copy_at into w (take (n - w) (cluster_data b i c @ ys))" for ys
          using copy_at_twice [of w "cluster_data b i c" into] cd more Suc.prems(2)
          by (simp add: diff_diff_add)
        show ?thesis
          using Suc.IH [OF len(2,1) m, of "seen + 1" c'] Suc.prems(4) Next True m0 step joined
          by (auto split: option.splits)
      qed (use step True m0 in auto)
    qed
  qed
qed

lemma read_file_image:
  assumes "boot_ok b" "image_ok i" "clusters_for b (unat (de_size e)) \<le> unat (clusters b) + 1"
    and "unat (de_size e) \<le> length into"
  shows "case file_contents b i e of
      Some bs \<Rightarrow> read_file (image_sectors :: (image, 'e) sectors) b e into i =
        (Inr (unat (de_size e), copy_at into 0 bs), i)
    | None \<Rightarrow> \<exists>err. read_file (image_sectors :: (image, 'e) sectors) b e into i = (Inl err, i)"
proof (cases "unat (de_size e) = 0")
  case True
  then show ?thesis
    by (simp add: read_file_def read_file_loop.simps file_contents_def clusters_for_0 copy_at_def)
next
  case False
  then show ?thesis
    using read_file_loop_image [where 'e = 'e, OF assms(1,2), of 0 "unat (de_size e)" into _ 0 "de_first_cluster e"] assms(3,4)
    by (auto simp: read_file_def file_contents_def split: option.splits)
qed

section \<open>Reading from an offset\<close>

lemma at_sectors_whole:
  fixes S :: "(image, 'e) sectors"
  defines "S \<equiv> image_sectors"
  assumes "image_ok i" "w \<le> n" "n \<le> length into"
  shows "at_sectors S first ks 0 n w into i = file_sectors S first ks n w into i"
  using assms(3,4)
proof (induction ks arbitrary: w into)
  case (Cons k ks)
  show ?case
  proof (cases "w = n")
    case False
    let ?t = "min (n - w) 512"
    have l: "length (i (first + k)) = 512" using assms(2) by (simp add: image_ok_def)
    then have "at_sectors S first ks 0 n (w + ?t) (copy_at into w (take ?t (i (first + k)))) i =
        file_sectors S first ks n (w + ?t) (copy_at into w (take ?t (i (first + k)))) i"
      using Cons.prems False by (intro Cons.IH) auto
    then show ?thesis using False Cons.prems l by (simp add: S_def Let_def)
  qed (simp add: S_def)
qed simp

lemma at_sectors_image:
  fixes S :: "(image, 'e) sectors"
  defines "S \<equiv> image_sectors"
  assumes "image_ok i" "w < n" "n \<le> length into" "within < 512" "ks \<noteq> []"
  shows "at_sectors S first ks within n w into i =
    (Inr (min n (w + (512 * length ks - within)),
          copy_at into w (take (n - w) (drop within (concat (map (\<lambda>k. i (first + k)) ks))))), i)"
proof -
  obtain k ks' where ks: "ks = k # ks'" using assms(6) by (cases ks) auto
  let ?d = "drop within (i (first + k))" and ?t = "min (n - w) (512 - within)"
  let ?rest = "concat (map (\<lambda>k. i (first + k)) ks')"
  have l: "length ?d = 512 - within" "length (i (first + k)) = 512" using assms(2) by (simp_all add: image_ok_def)
  have tk: "length (take ?t ?d) = ?t" using l by simp
  have t: "w + ?t \<le> n" using assms(3) by simp
  have "length (copy_at into w (take ?t ?d)) = length into"
    using t assms(4) tk by (intro length_copy_at) linarith
  then have le: "w + ?t \<le> n" "n \<le> length (copy_at into w (take ?t ?d))" using t assms(4) by simp_all
  have "at_sectors S first ks within n w into i = file_sectors S first ks' n (w + ?t) (copy_at into w (take ?t ?d)) i"
    using assms(3) at_sectors_whole [OF assms(2) le, where 'e = 'e] by (simp add: ks S_def Let_def)
  also have "\<dots> = (Inr (min n (w + ?t + 512 * length ks'),
      copy_at (copy_at into w (take ?t ?d)) (w + ?t) (take (n - (w + ?t)) ?rest)), i)"
    unfolding S_def by (rule file_sectors_image [OF assms(2) le])
  also have "copy_at (copy_at into w (take ?t ?d)) (w + ?t) (take (n - (w + ?t)) ?rest) =
      copy_at into w (take ?t ?d @ take (n - (w + ?t)) ?rest)"
    by (rule copy_at_twice [of w "take ?t ?d" into, unfolded tk]) (use t assms(4) in linarith)
  also have "take ?t ?d @ take (n - (w + ?t)) ?rest = take (n - w) (?d @ ?rest)"
    using l by (cases "n - w \<le> 512 - within") (simp_all add: min_def diff_diff_add)
  also have "?d @ ?rest = drop within (concat (map (\<lambda>k. i (first + k)) ks))" using l assms(5) by (simp add: ks)
  also have "min n (w + ?t + 512 * length ks') = min n (w + (512 * length ks - within))" using assms(3,5) by (auto simp: ks)
  finally show ?thesis .
qed

lemma drop_concat_sectors:
  assumes "image_ok i"
  shows "concat (map (\<lambda>k. i (f k)) (drop q ks)) = drop (512 * q) (concat (map (\<lambda>k. i (f k)) ks))"
proof (induction ks arbitrary: q)
  case (Cons k ks)
  have "length (i (f k)) = 512" using assms by (simp add: image_ok_def)
  then show ?case using Cons by (cases q) auto
qed simp

lemma at_cluster_image:
  fixes inside :: u32
  assumes "boot_ok b" "image_ok i" "valid_cluster b c" "w < n" "n \<le> length into"
    and "unat inside < 512 * unat (sectors_per_cluster b)"
  obtains first where "sector_of_cluster b c = Some first"
    "at_sectors (image_sectors :: (image, 'e) sectors) first
        (map of_nat [unat (inside div ucast SECTOR_BYTES)..<unat (sectors_per_cluster b)])
        (unat (inside mod ucast SECTOR_BYTES)) n w into i =
      (Inr (min n (w + (512 * unat (sectors_per_cluster b) - unat inside)),
            copy_at into w (take (n - w) (drop (unat inside) (cluster_data b i c)))), i)"
proof -
  obtain first where f: "sector_of_cluster b c = Some first" using assms by (metis sector_of_cluster_Some)
  let ?q = "unat inside div 512" and ?r = "unat inside mod 512"
  have ks: "map of_nat [?q..<unat (sectors_per_cluster b)] = drop ?q (cluster_offsets b)"
    by (simp add: cluster_offsets_def drop_map)
  have q: "?q < unat (sectors_per_cluster b)" using assms(6) by (simp add: less_mult_imp_div_less mult.commute)
  have "at_sectors (image_sectors :: (image, 'e) sectors) first (drop ?q (cluster_offsets b)) ?r n w into i =
      (Inr (min n (w + (512 * length (drop ?q (cluster_offsets b)) - ?r)),
            copy_at into w (take (n - w) (drop ?r (drop (512 * ?q) (cluster_data b i c))))), i)"
    using at_sectors_image [where 'e = 'e, OF assms(2,4,5), of ?r "drop ?q (cluster_offsets b)" first] q
    by (simp add: drop_concat_sectors [OF assms(2)] cluster_data_def f)
  also have "512 * length (drop ?q (cluster_offsets b)) - ?r = 512 * unat (sectors_per_cluster b) - unat inside"
    using q by (simp add: diff_mult_distrib2 diff_diff_add mult_div_mod_eq)
  also have "drop ?r (drop (512 * ?q) (cluster_data b i c)) = drop (unat inside) (cluster_data b i c)"
    by (simp add: add.commute mod_mult_div_eq)
  finally show ?thesis using f ks that by (simp add: SECTOR_BYTES_def unat_div unat_mod)
qed

lemma read_at_loop_image:
  fixes S :: "(image, 'e) sectors"
  defines "S \<equiv> image_sectors"
  assumes "boot_ok b" "image_ok i" "w < n" "n \<le> length into"
    and "unat inside < 512 * unat (sectors_per_cluster b)"
    and "m = clusters_for b (unat inside + (n - w))" "seen + m \<le> unat (clusters b) + 1"
    and "follow b i c m = Some cs"
  shows "read_at_loop S b n inside c w seen into i =
    (Inr (n, copy_at into w (take (n - w) (drop (unat inside) (concat (map (cluster_data b i) cs))))), i)"
  using assms(4-)
proof (induction m arbitrary: c w seen into inside cs)
  case 0
  then show ?case using clusters_for_less [OF assms(2), of "unat inside + (n - w)"]
      clusters_for_more [OF assms(2), of "unat inside + (n - w)"]
    by (cases "unat inside + (n - w) \<le> 512 * unat (sectors_per_cluster b)") auto
next
  case (Suc m)
  let ?cb = "512 * unat (sectors_per_cluster b)" and ?d = "drop (unat inside) (cluster_data b i c)"
  have valid: "valid_cluster b c" using Suc.prems(6) by (auto split: if_splits)
  obtain first where f: "sector_of_cluster b c = Some first"
    "at_sectors S first (map of_nat [unat (inside div ucast SECTOR_BYTES)..<unat (sectors_per_cluster b)])
        (unat (inside mod ucast SECTOR_BYTES)) n w into i =
      (Inr (min n (w + (?cb - unat inside)), copy_at into w (take (n - w) ?d)), i)"
    using at_cluster_image [OF assms(2,3) valid Suc.prems(1-3)] unfolding S_def by metis
  have cd: "length ?d = ?cb - unat inside" using assms(3) by simp
  show ?case
  proof (cases "n \<le> w + (?cb - unat inside)")
    case True
    then have "m = 0" using Suc.prems(1,3,4) clusters_for_less [OF assms(2), of "unat inside + (n - w)"] by simp
    then show ?thesis using f True Suc.prems(1,6) valid by (auto simp: read_at_loop.simps)
  next
    case False
    let ?into = "copy_at into w ?d" and ?w = "w + (?cb - unat inside)"
    have m: "m = clusters_for b (unat (0 :: u32) + (n - ?w))"
      using Suc.prems(3,4) clusters_for_more [OF assms(2), of "unat inside + (n - w)"] False by (simp add: add.commute)
    then have m0: "m \<noteq> 0"
      using False clusters_for_less [OF assms(2), of "n - ?w"] clusters_for_more [OF assms(2), of "n - ?w"]
      by (cases "n - ?w \<le> ?cb") auto
    obtain c' cs' where nx: "entry_at b i c = Next c'" "follow b i c' m = Some cs'" "cs = c # cs'"
      using Suc.prems(6) m0 valid by (auto split: entry.splits)
    have len: "n \<le> length ?into" "?w < n" using False Suc.prems(2) cd by auto
    have "read_at_loop S b n inside c w seen into i = read_at_loop S b n 0 c' ?w (seen + 1) ?into i"
      using f False Suc.prems(1,5) m0 valid cd assms(2) nx(1)
      by (simp add: read_at_loop.simps [of _ _ _ inside c] S_def next_cluster_image)
    also have "\<dots> = (Inr (n, copy_at ?into ?w (take (n - ?w) (drop (unat (0 :: u32)) (concat (map (cluster_data b i) cs'))))), i)"
      using Suc.prems(3,5) by (intro Suc.IH [OF len(2,1) _ m _ nx(2)]) auto
    also have "copy_at ?into ?w (take (n - ?w) (drop (unat (0 :: u32)) (concat (map (cluster_data b i) cs')))) =
        copy_at into w (take (n - w) (?d @ concat (map (cluster_data b i) cs')))"
      using copy_at_twice [of w ?d into] cd False Suc.prems(2) by (simp add: diff_diff_add)
    finally show ?thesis using nx(3) assms(3) Suc.prems(3) by simp
  qed
qed

lemma walk_to_image:
  fixes S :: "(image, 'e) sectors"
  defines "S \<equiv> image_sectors"
  assumes "boot_ok b" "follow b i c (k + m) = Some cs" "0 < m" "seen + k \<le> unat (clusters b)"
  shows "walk_to S b k c seen i = (Inr (cs ! k, seen + k), i) \<and> follow b i (cs ! k) m = Some (drop k cs)"
  using assms(3-)
proof (induction k arbitrary: c seen cs)
  case 0
  then show ?case by (cases m) (auto split: if_splits entry.splits)
next
  case (Suc k)
  have v: "valid_cluster b c" using Suc.prems(1) by (auto split: if_splits)
  then obtain c' cs' where nx: "entry_at b i c = Next c'" "follow b i c' (k + m) = Some cs'" "cs = c # cs'"
    using Suc.prems(1,2) by (auto split: entry.splits if_splits)
  then show ?case using Suc.IH [OF nx(2), of "seen + 1"] Suc.prems(2,3) v assms(2)
    by (simp add: S_def next_cluster_image)
qed

lemma follow_prefix:
  "follow b i c n = Some cs \<Longrightarrow> m \<le> n \<Longrightarrow> follow b i c m = Some (take m cs)"
proof (induction n arbitrary: c cs m)
  case (Suc n)
  then show ?case by (cases m; cases n) (auto split: if_splits entry.splits)
qed simp


text \<open>Clusters needed for a range that ends inside the file.\<close>

lemma clusters_for_mono: "boot_ok b \<Longrightarrow> m \<le> n \<Longrightarrow> clusters_for b m \<le> clusters_for b n"
  unfolding clusters_for_def by (rule div_le_mono) simp

lemma clusters_for_add:
  assumes "boot_ok b" "0 < n"
  shows "clusters_for b (k * (512 * unat (sectors_per_cluster b)) + n) = k + clusters_for b n"
proof -
  let ?cb = "512 * unat (sectors_per_cluster b)"
  have "0 < ?cb" using assms(1) by (simp add: boot_ok_def)
  moreover have "k * ?cb + n + ?cb - 1 = (n + ?cb - 1) + k * ?cb" using assms(2) by simp
  ultimately show ?thesis unfolding clusters_for_def by (simp only: div_mult_self1)
qed

lemma take_drop_take: "p + n \<le> q \<Longrightarrow> take n (drop p (take q xs)) = take n (drop p xs)"
  by (simp add: drop_take min_def)

lemma clusters_for_ge: "boot_ok b \<Longrightarrow> n \<le> clusters_for b n * (512 * unat (sectors_per_cluster b))"
proof -
  assume "boot_ok b"
  then have cb: "0 < 512 * unat (sectors_per_cluster b)" (is "0 < ?cb") by (simp add: boot_ok_def)
  have "n + ?cb - 1 < (n + ?cb - 1) div ?cb * ?cb + ?cb" using dividend_less_div_times [OF cb, of "n + ?cb - 1"] by simp
  then show ?thesis unfolding clusters_for_def using cb by linarith
qed

lemma concat_blocks:
  assumes "\<And>x. length (f x) = L"
  shows "concat (map f (drop k xs)) = drop (k * L) (concat (map f xs))"
    and "concat (map f (take k xs)) = take (k * L) (concat (map f xs))"
proof -
  have "concat (map f (drop k xs)) = drop (k * L) (concat (map f xs)) \<and>
      concat (map f (take k xs)) = take (k * L) (concat (map f xs))"
    using assms by (induction xs arbitrary: k) (auto simp: drop_Cons' take_Cons' diff_mult_distrib)
  then show "concat (map f (drop k xs)) = drop (k * L) (concat (map f xs))"
    "concat (map f (take k xs)) = take (k * L) (concat (map f xs))" by auto
qed

lemma read_at_image:
  fixes S :: "(image, 'e) sectors" and into :: bytes and offset :: u32
  defines "S \<equiv> image_sectors"
  assumes ok: "boot_ok b" "image_ok i" and fits: "clusters_for b (unat (de_size e)) \<le> unat (clusters b) + 1"
    and bs: "file_contents b i e = Some bs"
  defines "n \<equiv> min (unat (de_size e) - unat offset) (length into)"
  shows "read_at S b e offset into i = (Inr (n, copy_at into 0 (take n (drop (unat offset) bs))), i)"
proof (cases "n = 0")
  case True
  then show ?thesis
    by (auto simp: read_at_def n_def Let_def copy_at_def word_le_nat_alt unat_sub_exact)
next
  case False
  let ?cb = "512 * unat (sectors_per_cluster b)" and ?o = "unat offset" and ?z = "unat (de_size e)"
  let ?k = "?o div ?cb" and ?r = "?o mod ?cb"
  define m where "m = clusters_for b (?r + n)"
  have lt: "?o < ?z" and no: "n \<le> length into" "?o + n \<le> ?z" using False by (auto simp: n_def)
  obtain cs where cs: "follow b i (de_first_cluster e) (clusters_for b ?z) = Some cs"
    "bs = take ?z (concat (map (cluster_data b i) cs))"
    using bs by (auto simp: file_contents_def)
  have cb: "0 < ?cb" using ok(1) by (simp add: boot_ok_def)
  have pc: "unat (ucast (sectors_per_cluster b) * ucast SECTOR_BYTES :: u32) = ?cb"
    using cluster_bytes_exact [OF ok(1)] ok(1) by (simp add: cluster_bytes_def SECTOR_BYTES_def mult.commute)
  have on: "?o + n = ?k * ?cb + (?r + n)" using div_mult_mod_eq [of ?o ?cb] by linarith
  have km: "clusters_for b (?o + n) = ?k + m"
    unfolding on m_def by (rule clusters_for_add [OF ok(1)]) (use False in simp)
  then have le: "?k + m \<le> clusters_for b ?z" using clusters_for_mono [OF ok(1) no(2)] by simp
  have m0: "0 < m" using clusters_for_mono [OF ok(1), of 1 "?r + n"] clusters_for_less [OF ok(1), of 1] cb False
    unfolding m_def by simp
  have walk: "walk_to S b ?k (de_first_cluster e) 0 i = (Inr (take (?k + m) cs ! ?k, 0 + ?k), i)"
    "follow b i (take (?k + m) cs ! ?k) m = Some (drop ?k (take (?k + m) cs))"
    using walk_to_image [where 'e = 'e, OF ok(1) follow_prefix [OF cs(1) le] m0, of 0] le fits m0
    unfolding S_def by auto
  have r: "unat (offset mod (ucast (sectors_per_cluster b) * ucast SECTOR_BYTES)) = ?r" by (simp add: unat_mod pc)
  have "read_at_loop S b n (offset mod (ucast (sectors_per_cluster b) * ucast SECTOR_BYTES))
      (take (?k + m) cs ! ?k) 0 (0 + ?k) into i =
    (Inr (n, copy_at into 0 (take (n - 0) (drop ?r (concat (map (cluster_data b i) (drop ?k (take (?k + m) cs))))))), i)"
    using read_at_loop_image [where 'e = 'e, OF ok, of 0 n into "offset mod (ucast (sectors_per_cluster b) * ucast SECTOR_BYTES)"
        m "0 + ?k" _ "drop ?k (take (?k + m) cs)"] False no(1) cb walk(2) le fits m_def
    unfolding r S_def by simp
  moreover have "read_at S b e offset into i =
      read_at_loop S b n (offset mod (ucast (sectors_per_cluster b) * ucast SECTOR_BYTES))
        (take (?k + m) cs ! ?k) 0 (0 + ?k) into i"
  proof -
    have "min (unat (de_size e - offset)) (length into) = n" "\<not> offset \<ge> de_size e"
      using lt by (simp_all add: n_def unat_sub_exact word_le_nat_alt)
    then show ?thesis using False walk(1) by (simp add: read_at_def Let_def unat_div pc)
  qed
  moreover have "take n (drop ?r (concat (map (cluster_data b i) (drop ?k (take (?k + m) cs))))) = take n (drop ?o bs)"
  proof -
    let ?D = "concat (map (cluster_data b i) cs)"
    note blocks = concat_blocks [of "cluster_data b i" ?cb, OF length_cluster_data [OF ok(2)]]
    have rn: "?r + n \<le> m * ?cb" unfolding m_def by (rule clusters_for_ge [OF ok(1)])
    have "drop ?r (concat (map (cluster_data b i) (drop ?k (take (?k + m) cs)))) =
        drop (?k * ?cb + ?r) (take ((?k + m) * ?cb) ?D)"
      unfolding blocks by (simp add: add.commute)
    also have "?k * ?cb + ?r = ?o" by (rule div_mult_mod_eq)
    finally have d: "drop ?r (concat (map (cluster_data b i) (drop ?k (take (?k + m) cs)))) =
        drop ?o (take ((?k + m) * ?cb) ?D)" .
    have "?o + n \<le> (?k + m) * ?cb" using rn unfolding on add_mult_distrib by (rule add_left_mono)
    then show ?thesis unfolding d cs(2) using no(2) by (simp only: take_drop_take)
  qed
  ultimately show ?thesis by simp
qed

end
