(* ===== verification/Fat_Device.thy ===== *)
theory Fat_Device
  imports Fat_Read
begin

text \<open>
  The interface between a volume and its device, as a locale: what a read and a write do to the bytes
  on the medium. Inside it, every operation of a volume over the device is shown to do what it does
  over a plain image, up to the first error of the device. The locale is interpreted on the image
  itself, on the image files of the host tools, and on a device that stops for good after a number
  of writes, which is how a crash in the middle of a write is modelled.
\<close>

section \<open>Sizes and progress\<close>

lemma length_set_entry_bytes:
  fixes c :: u32
  assumes "boot_ok b" "length bs = 512"
  shows "length (set_entry_bytes bs (unat (c mod (ucast (bytes_per_sector b) div 4)) * 4) v) = 512"
proof -
  have "unat (c mod 128 :: u32) < 128" by (simp add: unat_mod)
  then show ?thesis using assms by (simp add: set_entry_bytes_def Let_def)
qed

lemma next_cluster_closer:
  assumes "c < FIRST_DATA_CLUSTER + clusters b"
  shows "unat (FIRST_DATA_CLUSTER + clusters b) - unat (c + 1) < unat (FIRST_DATA_CLUSTER + clusters b) - unat c"
proof -
  have lt: "unat c < unat (FIRST_DATA_CLUSTER + clusters b)" using assms by (simp add: word_less_nat_alt)
  then have "unat c + unat (1 :: u32) < 2 ^ LENGTH(32)"
    using unat_u32_bound [of "FIRST_DATA_CLUSTER + clusters b"] by simp
  then have "unat (c + 1) = unat c + 1" by (subst unat_add_exact) simp_all
  then show ?thesis using lt by simp
qed

text \<open>A slot found by \<open>directory_slot\<close> is a whole slot of its sector.\<close>

definition slot_inside :: "u32 \<times> usize \<times> directory_entry option \<Rightarrow> bool" where
  "slot_inside f \<longleftrightarrow> fst (snd f) + 32 \<le> 512"

lemma dir_slots_inside:
  assumes "index + length slots \<le> 16" "\<forall>x. free = Some x \<longrightarrow> snd x + 32 \<le> 512"
  shows "case dir_slots name sector index slots free of
      Inl f \<Rightarrow> slot_inside f | Inr free' \<Rightarrow> (\<forall>x. free' = Some x \<longrightarrow> snd x + 32 \<le> 512)"
  using assms
proof (induction slots arbitrary: index free)
  case (Cons sl slots)
  have IH: "case dir_slots name sector (Suc index) slots fr of
      Inl f \<Rightarrow> slot_inside f | Inr free' \<Rightarrow> (\<forall>x. free' = Some x \<longrightarrow> snd x + 32 \<le> 512)"
    if "\<forall>x. fr = Some x \<longrightarrow> snd x + 32 \<le> 512" for fr
    using Cons.IH [of "Suc index" fr] Cons.prems(1) that by simp
  show ?case using IH [OF Cons.prems(2)] IH [of "Some (sector, index * 32)"] Cons.prems
    by (auto simp: Let_def slot_inside_def DIRECTORY_ENTRY_BYTES_def split: slot.splits option.splits)
qed simp

lemma dir_sectors_inside:
  assumes "image_ok i" "\<forall>x. free = Some x \<longrightarrow> snd x + 32 \<le> 512" "dir_sectors image_sectors name first ks free i = (Inr r, i')"
  shows "case r of Inl f \<Rightarrow> slot_inside f | Inr free' \<Rightarrow> (\<forall>x. free' = Some x \<longrightarrow> snd x + 32 \<le> 512)"
  using assms(2,3)
proof (induction ks arbitrary: free)
  case (Cons k ks)
  have l: "length (as_chunks DIRECTORY_ENTRY_BYTES (i (first + k))) = 16"
    using assms(1) by (simp add: image_ok_def DIRECTORY_ENTRY_BYTES_def)
  show ?case
    using Cons.IH Cons.prems dir_slots_inside [of 0 "as_chunks DIRECTORY_ENTRY_BYTES (i (first + k))" free name "first + k"] l
    by (auto split: sum.splits)
qed auto

lemma dir_sectors_state [simp]: "snd (dir_sectors image_sectors name first ks free i) = i"
  by (induction ks arbitrary: free) (auto simp: io_bind_def split: sum.splits)

lemma next_cluster_state [simp]: "snd (next_cluster image_sectors b c i) = i"
  by (simp add: next_cluster_def Let_def)

lemma directory_slot_loop_inside:
  assumes "image_ok i" "\<forall>x. free = Some x \<longrightarrow> snd x + 32 \<le> 512"
    "directory_slot_loop (image_sectors :: (image, 'e) sectors) b name c seen free i = (Inr f, i')"
  shows "slot_inside f"
  using assms(2,3)
proof (induction "unat (clusters b) - seen" arbitrary: c seen free rule: less_induct)
  case less
  let ?S = "image_sectors :: (image, 'e) sectors"
  obtain first where first: "sector_of_cluster b c = Some first"
    using less.prems(2) by (cases "sector_of_cluster b c") (simp_all add: directory_slot_loop.simps)
  obtain r t where r: "dir_sectors ?S name first (cluster_offsets b) free i = (Inr r, t)"
    using less.prems(2) first by (subst (asm) directory_slot_loop.simps) (auto simp: io_bind_Inr_iff)
  have t: "t = i" using r dir_sectors_state [of name first "cluster_offsets b" free i] by (metis snd_conv)
  note inside = dir_sectors_inside [OF assms(1) less.prems(1) r]
  show ?case
  proof (cases r)
    case (Inl g)
    then show ?thesis
      using less.prems(2) first r inside by (subst (asm) directory_slot_loop.simps) simp
  next
    case (Inr free')
    have "(if seen + 1 > unat (clusters b) then io_fail (Reading ChainLoops)
       else io_bind (io_map_err Reading (next_cluster ?S b c)) (\<lambda>e.
         case e of Next nxt \<Rightarrow> directory_slot_loop ?S b name nxt (seen + 1) free'
         | _ \<Rightarrow> (case free' of Some (sector, at) \<Rightarrow> io_ret (sector, at, None) | None \<Rightarrow> io_fail DirectoryFull))) i =
      (Inr f, i')"
      using less.prems(2) first r t Inr by (subst (asm) directory_slot_loop.simps) simp
    then obtain e j where e: "next_cluster ?S b c i = (Inr e, j)" "\<not> seen + 1 > unat (clusters b)"
      "(case e of Next nxt \<Rightarrow> directory_slot_loop ?S b name nxt (seen + 1) free'
         | _ \<Rightarrow> (case free' of Some (sector, at) \<Rightarrow> io_ret (sector, at, None) | None \<Rightarrow> io_fail DirectoryFull)) j =
      (Inr f, i')"
      by (auto simp: io_bind_Inr_iff split: if_splits)
    have "j = i" using e(1) next_cluster_state [of b c i] by (metis snd_conv)
    then show ?thesis using e(2,3) inside Inr less.hyps [of "seen + 1" free']
      by (cases e) (auto simp: slot_inside_def split: option.splits)
  qed
qed

lemma directory_slot_offset:
  "image_ok i \<Longrightarrow> directory_slot image_sectors b name i = (Inr (sector, k, ex), i') \<Longrightarrow> k + 32 \<le> 512"
  using directory_slot_loop_inside [of i None b name "root_cluster b" 0 "(sector, k, ex)" i']
  by (simp add: directory_slot_def slot_inside_def)

section \<open>The interface\<close>

locale medium =
  fixes S :: "('s, 'e) sectors" and ok :: "'s \<Rightarrow> bool" and img :: "'s \<Rightarrow> image"
  assumes read_law: "ok s \<Longrightarrow> read_sector S n s = (r, s') \<Longrightarrow>
      ok s' \<and> img s' = img s \<and> (\<forall>bs. r = Inr bs \<longrightarrow> bs = img s n)"
    and write_law: "ok s \<Longrightarrow> write_sector S n bs s = (q, s') \<Longrightarrow> length bs = 512 \<Longrightarrow>
      ok s' \<and> (img s' = (img s)(n := bs) \<or> (\<exists>e. q = Inl e) \<and> img s' = img s)"
    and img_ok: "ok s \<Longrightarrow> image_ok (img s)"
begin

text \<open>\<open>m\<close> over the device does what \<open>m'\<close> does over the image, or answers an error in \<open>D\<close>.\<close>

definition sim :: "'f set \<Rightarrow> ('s, 'f, 'a) io \<Rightarrow> (image, 'f, 'a) io \<Rightarrow> bool" where
  "sim D m m' \<longleftrightarrow> (\<forall>s r s'. ok s \<longrightarrow> m s = (r, s') \<longrightarrow>
     ok s' \<and> (m' (img s) = (r, img s') \<or> (\<exists>e \<in> D. r = Inl e)))"

definition dev_v :: "'e volume_error set" where
  "dev_v = range VDevice"

definition dev_w :: "'e write_error set" where
  "dev_w = range (\<lambda>e. Reading (VDevice e)) \<union> range WDevice"

lemma sim_basic [intro!, simp]: "sim D (io_ret x) (io_ret x)" "sim D (io_fail e) (io_fail e)" "sim D (io_lift r) (io_lift r)"
  "sim D (Pair r) (Pair r)" "sim D (Pair (Inr x)) (io_ret x)" "sim D (io_ret x) (Pair (Inr x))"
  by (simp_all add: sim_def)

lemma sim_bind_post:
  assumes "sim D m m'" "\<And>i x i'. image_ok i \<Longrightarrow> m' i = (Inr x, i') \<Longrightarrow> P x" "\<And>x. P x \<Longrightarrow> sim D (f x) (f' x)"
  shows "sim D (io_bind m f) (io_bind m' f')"
  unfolding sim_def
proof (intro allI impI)
  fix s r s' assume s: "ok s" and "io_bind m f s = (r, s')"
  from this(2) show "ok s' \<and> (io_bind m' f' (img s) = (r, img s') \<or> (\<exists>e \<in> D. r = Inl e))"
  proof (cases rule: io_bind_cases)
    case (err e)
    then have "ok s' \<and> (m' (img s) = (Inl e, img s') \<or> e \<in> D)" using assms(1) s by (auto simp: sim_def)
    then show ?thesis using err by auto
  next
    case (ok x t)
    note x = ok
    then have m: "m' (img s) = (Inr x, img t)" "ok t" using assms(1) s by (fastforce simp: sim_def)+
    then have "sim D (f x) (f' x)" using assms(2) [OF img_ok [OF s]] assms(3) by blast
    then have "ok s' \<and> (f' x (img t) = (r, img s') \<or> (\<exists>e \<in> D. r = Inl e))" using x(2) m(2) by (auto simp: sim_def)
    then show ?thesis using m by auto
  qed
qed

lemma sim_bind [intro]:
  assumes "sim D m m'" "\<And>x. sim D (f x) (f' x)"
  shows "sim D (io_bind m f) (io_bind m' f')"
  using assms(1) by (rule sim_bind_post [where P = "\<lambda>_. True"]) (auto simp: assms(2))

lemma sim_if: "(p \<Longrightarrow> sim D m m') \<Longrightarrow> (\<not> p \<Longrightarrow> sim D k k') \<Longrightarrow>
    sim D (if p then m else k) (if p then m' else k')"
  by simp

lemma sim_map_err [intro]:
  assumes "sim D m m'" "g ` D \<subseteq> D'"
  shows "sim D' (io_map_err g m) (io_map_err g m')"
  unfolding sim_def
proof (intro allI impI)
  fix s r s' assume s: "ok s" and r: "io_map_err g m s = (r, s')"
  then obtain r0 where r0: "m s = (r0, s')" "r = map_err g r0" by (auto simp: io_map_err_def split: prod.splits)
  then have "ok s' \<and> (m' (img s) = (r0, img s') \<or> (\<exists>e \<in> D. r0 = Inl e))" using assms(1) s by (auto simp: sim_def)
  then show "ok s' \<and> (io_map_err g m' (img s) = (r, img s') \<or> (\<exists>e \<in> D'. r = Inl e))"
    using r0(2) assms(2) by (auto simp: io_map_err_def)
qed

lemma sim_vread [intro]: "sim dev_v (vread S n) (vread image_sectors n)"
  unfolding sim_def vread_def io_map_err_def
  by (auto simp: dev_v_def image_sectors_def map_err_def dest: read_law split: prod.splits sum.splits)

lemma sim_wread [intro]: "sim dev_w (wread S n) (wread image_sectors n)"
  unfolding wread_def by (rule sim_map_err [OF sim_vread]) (auto simp: dev_v_def dev_w_def)

lemma sim_wwrite [intro]: "length bs = 512 \<Longrightarrow> sim dev_w (wwrite S n bs) (wwrite image_sectors n bs)"
  unfolding sim_def wwrite_def io_map_err_def
  by (auto simp: dev_w_def image_sectors_def map_err_def dest: write_law split: prod.splits sum.splits)

text \<open>What a read answers is a whole sector.\<close>

lemma sim_wread_bind [intro]:
  assumes "\<And>bs. length bs = 512 \<Longrightarrow> sim dev_w (f bs) (f' bs)"
  shows "sim dev_w (io_bind (wread S n) f) (io_bind (wread image_sectors n) f')"
  using sim_wread by (rule sim_bind_post [where P = "\<lambda>bs. length bs = 512"]) (auto simp: image_ok_def assms)

lemma sim_mount: "sim dev_v (mount S) (mount image_sectors)"
  unfolding mount_def by auto

lemma sim_next_cluster [intro]: "sim dev_v (next_cluster S b c) (next_cluster image_sectors b c)"
  unfolding next_cluster_def Let_def by auto

lemma sim_next_cluster_w [intro]:
  "sim dev_w (io_map_err Reading (next_cluster S b c)) (io_map_err Reading (next_cluster image_sectors b c))"
  by (rule sim_map_err [OF sim_next_cluster]) (auto simp: dev_v_def dev_w_def)

lemma sim_file_sectors [intro]:
  "sim dev_v (file_sectors S first ks n w into) (file_sectors image_sectors first ks n w into)"
  by (induction ks arbitrary: w into) (auto simp: Let_def)

lemma sim_read_file_loop [intro]:
  "sim dev_v (read_file_loop S b n c w seen into) (read_file_loop image_sectors b n c w seen into)"
proof (induction "unat (clusters b) - seen" arbitrary: c w seen into rule: less_induct)
  case less
  show ?case
    by (subst (1 2) read_file_loop.simps)
       (auto intro!: sim_bind sim_next_cluster less diff_less_mono2 split: option.splits entry.splits prod.splits)
qed

lemma sim_read_file: "sim dev_v (read_file S b e into) (read_file image_sectors b e into)"
  unfolding read_file_def Let_def by auto

lemma sim_at_sectors [intro]:
  "sim dev_v (at_sectors S first ks k n w into) (at_sectors image_sectors first ks k n w into)"
  by (induction ks arbitrary: k w into) (auto simp: Let_def)

lemma sim_walk_to [intro]: "sim dev_v (walk_to S b n c seen) (walk_to image_sectors b n c seen)"
  by (induction n arbitrary: c seen) (auto intro!: sim_bind sim_next_cluster split: entry.splits)

lemma sim_read_at_loop [intro]:
  "sim dev_v (read_at_loop S b n k c w seen into) (read_at_loop image_sectors b n k c w seen into)"
proof (induction "unat (clusters b) - seen" arbitrary: k c w seen into rule: less_induct)
  case less
  show ?case
    by (subst (1 2) read_at_loop.simps)
       (auto intro!: sim_bind sim_next_cluster less diff_less_mono2 split: option.splits entry.splits prod.splits)
qed

lemma sim_read_at: "sim dev_v (read_at S b e k into) (read_at image_sectors b e k into)"
  unfolding read_at_def Let_def by (intro sim_if sim_basic sim_bind sim_walk_to) (auto split: prod.splits)

lemma sim_root_sectors [intro]:
  "sim dev_v (root_sectors S each first ks acc) (root_sectors image_sectors each first ks acc)"
  by (induction ks arbitrary: acc) (auto intro!: sim_bind sim_vread split: prod.splits)

lemma sim_read_root_loop [intro]:
  "sim dev_v (read_root_loop S b each c seen acc) (read_root_loop image_sectors b each c seen acc)"
proof (induction "unat (clusters b) - seen" arbitrary: c seen acc rule: less_induct)
  case less
  show ?case
    by (subst (1 2) read_root_loop.simps)
       (auto intro!: sim_bind sim_next_cluster sim_root_sectors less diff_less_mono2
             split: option.splits entry.splits prod.splits)
qed

lemma sim_find: "sim dev_v (volume_find S b name) (volume_find image_sectors b name)"
  unfolding volume_find_def read_root_def by auto

lemma sim_set_in_tables:
  assumes "boot_ok b"
  shows "sim dev_w (set_in_tables S b c v ts) (set_in_tables image_sectors b c v ts)"
proof (induction ts)
  case (Cons t ts)
  show ?case unfolding set_in_tables.simps Let_def
    by (intro sim_wread_bind sim_bind sim_wwrite length_set_entry_bytes assms Cons)
qed simp

lemma sim_set_next_cluster [intro]:
  "boot_ok b \<Longrightarrow> sim dev_w (set_next_cluster S b c v) (set_next_cluster image_sectors b c v)"
  unfolding set_next_cluster_def by (auto intro: sim_set_in_tables)

lemma sim_free_loop [intro]: "sim dev_w (free_loop S b n c found) (free_loop image_sectors b n c found)"
proof (induction "unat (FIRST_DATA_CLUSTER + clusters b) - unat c" arbitrary: c found rule: less_induct)
  case less
  show ?case
    by (subst (1 2) free_loop.simps)
       (auto intro!: sim_bind sim_next_cluster_w less simp: next_cluster_closer)
qed

lemma sim_free_clusters [intro]: "sim dev_w (free_clusters S b n) (free_clusters image_sectors b n)"
  unfolding free_clusters_def by auto

lemma sim_write_cluster [intro]:
  "sim dev_w (write_cluster S pc k first ks bs) (write_cluster image_sectors pc k first ks bs)"
  by (induction ks) (auto simp: Let_def intro!: sim_bind sim_wwrite)

lemma sim_write_clusters [intro]:
  "sim dev_w (write_clusters S b chain bs) (write_clusters image_sectors b chain bs)"
proof -
  have "sim dev_w (write_clusters_from S b k chain bs) (write_clusters_from image_sectors b k chain bs)" for k
    by (induction chain arbitrary: k) (auto intro!: sim_bind sim_write_cluster split: option.splits)
  then show ?thesis by (simp add: write_clusters_def)
qed

lemma sim_link_chain [intro]: "boot_ok b \<Longrightarrow> sim dev_w (link_chain S b chain) (link_chain image_sectors b chain)"
  by (induction chain) (auto intro!: sim_bind sim_set_next_cluster)

lemma sim_dir_sectors [intro]:
  "sim dev_w (dir_sectors S name first ks free) (dir_sectors image_sectors name first ks free)"
  by (induction ks arbitrary: free) (auto intro!: sim_wread_bind split: sum.splits)

lemma sim_directory_slot [intro]: "sim dev_w (directory_slot S b name) (directory_slot image_sectors b name)"
proof -
  have "sim dev_w (directory_slot_loop S b name c seen free) (directory_slot_loop image_sectors b name c seen free)"
    for c seen free
  proof (induction "unat (clusters b) - seen" arbitrary: c seen free rule: less_induct)
    case less
    show ?case
      by (subst (1 2) directory_slot_loop.simps)
         (auto intro!: sim_bind sim_next_cluster_w sim_dir_sectors less diff_less_mono2
               split: option.splits entry.splits prod.splits sum.splits)
  qed
  then show ?thesis by (simp add: directory_slot_def)
qed

lemma sim_count_sectors [intro]:
  "sim dev_w (count_sectors S tb l ks acc) (count_sectors image_sectors tb l ks acc)"
proof (induction ks arbitrary: acc)
  case (Cons k ks)
  show ?case unfolding count_sectors.simps by (intro sim_bind sim_wread Cons)
qed simp

lemma sim_update_fs_info [intro]: "sim dev_w (update_fs_info S b) (update_fs_info image_sectors b)"
  unfolding update_fs_info_def Let_def
  by (auto intro!: sim_wread_bind sim_bind sim_wwrite sim_count_sectors split: prod.splits)

lemma sim_free_chain [intro]:
  assumes "boot_ok b"
  shows "sim dev_w (free_chain S b c keep) (free_chain image_sectors b c keep)"
proof -
  have "sim dev_w (free_chain_loop S b keep c seen) (free_chain_loop image_sectors b keep c seen)" for c seen
  proof (induction "unat (clusters b) - seen" arbitrary: c seen rule: less_induct)
    case less
    show ?case using assms
      by (subst (1 2) free_chain_loop.simps)
         (auto intro!: sim_bind sim_next_cluster_w sim_set_next_cluster less diff_less_mono2 split: entry.splits)
  qed
  then show ?thesis by (simp add: free_chain_def)
qed

lemma sim_write_entry [intro]:
  "k + length e \<le> 512 \<Longrightarrow> sim dev_w (write_entry S n k e) (write_entry image_sectors n k e)"
  unfolding write_entry_def Let_def by (auto intro!: sim_wread_bind sim_bind sim_wwrite)

lemma sim_write_file:
  assumes "boot_ok b"
  shows "sim dev_w (write_file S b name bs) (write_file image_sectors b name bs)"
proof -
  have "sim dev_w (write_file S b name bs) (write_file image_sectors b name bs)" if enc: "encode_name name = Some enc" for enc
  proof -
    have len: "length (new_entry_bytes enc c n) = 32" for c n
      using decode_encoded_name(1) [OF enc] by (simp add: new_entry_bytes_def)
    show ?thesis unfolding write_file_def Let_def enc option.case
      by (rule sim_bind_post [where P = "\<lambda>(sector, k, ex). k + 32 \<le> 512", OF sim_directory_slot])
         (auto intro!: sim_bind sim_free_clusters sim_write_clusters sim_link_chain sim_write_entry sim_free_chain
           sim_update_fs_info assms dest: directory_slot_offset simp: len split: option.splits slot.splits)
  qed
  then show ?thesis by (cases "encode_name name") (auto simp: write_file_def)
qed

end

end
