(* ===== verification/Fat_Write.thy ===== *)
theory Fat_Write
  imports Fat_Device
begin

text \<open>
  Writing a FAT32 volume: what each step of \<open>write_file\<close> does to the tables and to the data of an
  image, that a file written is read back as it was given, and that a write that stops anywhere
  leaves every other file as it was.
\<close>

section \<open>Entries of the table\<close>

text \<open>The four bytes of the entry of a cluster, in copy \<open>t\<close> of the table.\<close>

definition raw_at :: "boot_sector \<Rightarrow> image \<Rightarrow> u32 \<Rightarrow> u32 \<Rightarrow> u32" where
  "raw_at b i t c = u32_at (i (fat_sector b t c)) (unat (c mod 128) * 4)"

lemma entry_at_raw: "entry_at b i c = decode_entry (raw_at b i 0 c)"
  by (simp add: entry_at_def raw_at_def)

definition with_entry :: "u32 \<Rightarrow> u32 \<Rightarrow> u32" where
  "with_entry raw v = (raw AND NOT ENTRY_MASK) OR (v AND ENTRY_MASK)"

lemma with_entry_mask [simp]: "with_entry raw v AND ENTRY_MASK = v AND ENTRY_MASK"
  "with_entry raw v AND NOT ENTRY_MASK = raw AND NOT ENTRY_MASK"
  unfolding with_entry_def by (rule bit_word_eqI; auto simp: bit_simps)+

lemma decode_with_entry [simp]: "decode_entry (with_entry raw v) = decode_entry v"
  by (simp add: decode_entry_def)

lemma decode_entry_Next:
  assumes "2 \<le> unat c" "unat c < 0x0FFFFFF7"
  shows "decode_entry c = Next c"
proof -
  have m: "ENTRY_MASK = mask 28" by (simp add: ENTRY_MASK_def mask_eq_exp_minus_1)
  have "unat (take_bit 28 c) = unat c" using assms(2) by (simp add: unsigned_take_bit_eq take_bit_nat_eq_self)
  then have "c AND ENTRY_MASK = c" by (simp add: m word_unat_eq_iff flip: take_bit_eq_mask)
  then show ?thesis using assms by (auto simp: decode_entry_def word_le_nat_alt word_unat_eq_iff)
qed

lemma decode_END_OF_CHAIN [simp]: "decode_entry END_OF_CHAIN = End"
  by (simp add: decode_entry_def END_OF_CHAIN_def ENTRY_MASK_def)

lemma decode_zero [simp]: "decode_entry 0 = Free"
  by (simp add: decode_entry_def)

lemma u32_at_copy_same:
  assumes "k + 4 \<le> length bs"
  shows "u32_at (copy_at bs k (u32_to_le w)) k = w"
  using assms by (simp add: u32_at_def nth_copy_at u32_to_le_def u32_le_roundtrip nth_Cons')

lemma u32_at_copy_other:
  assumes "k + 4 \<le> length bs" "k' + 4 \<le> length bs" "k' + 4 \<le> k \<or> k + 4 \<le> k'"
  shows "u32_at (copy_at bs k (u32_to_le w)) k' = u32_at bs k'"
  using assms by (auto simp: u32_at_def nth_copy_at)

lemma entry_offset: "unat ((c :: u32) mod 128) * 4 + 4 \<le> 512"
proof -
  have "unat (c mod 128) < 128" by (simp add: unat_mod)
  then show ?thesis by simp
qed

lemma fat_sector_inject:
  assumes "boot_ok b" "valid_cluster b c" "valid_cluster b c'" "unat t < unat (fat_count b)"
    "unat t' < unat (fat_count b)" "fat_sector b t c = fat_sector b t' c'"
  shows "t = t'" "c div 128 = c' div 128"
proof -
  let ?s = "unat (sectors_per_fat b)"
  note f = fat_sector_exact [OF assms(1,2,4)] and f' = fat_sector_exact [OF assms(1,3,5)]
  have eq: "unat t * ?s + unat c div 128 = unat t' * ?s + unat c' div 128" using f(1) f'(1) assms(6) by simp
  have "unat t = (unat t * ?s + unat c div 128) div ?s" "unat t' = (unat t' * ?s + unat c' div 128) div ?s"
    using f(2) f'(2) by simp_all
  then have "unat t = unat t'" using eq by metis
  then show "t = t'" by (simp add: word_unat_eq_iff)
  then have "unat c div 128 = unat c' div 128" using eq by simp
  then show "c div 128 = c' div 128" by (simp add: word_unat_eq_iff unat_div)
qed

text \<open>Writing one entry of one table leaves every other entry, of every table, as it was.\<close>

definition put_entry :: "boot_sector \<Rightarrow> u32 \<Rightarrow> u32 \<Rightarrow> u32 \<Rightarrow> image \<Rightarrow> image" where
  "put_entry b v c t i = i(fat_sector b t c := set_entry_bytes (i (fat_sector b t c)) (unat (c mod 128) * 4) v)"

lemma put_entry_ok: "image_ok i \<Longrightarrow> image_ok (put_entry b v c t i)"
  using entry_offset [of c] by (auto simp: image_ok_def put_entry_def set_entry_bytes_def Let_def)

lemma raw_put_entry:
  assumes "boot_ok b" "image_ok i" "valid_cluster b c" "valid_cluster b c'" "unat t < unat (fat_count b)"
    "unat t' < unat (fat_count b)"
  shows "raw_at b (put_entry b v c t i) t' c' =
    (if t' = t \<and> c' = c then with_entry (raw_at b i t c) v else raw_at b i t' c')"
proof (cases "fat_sector b t' c' = fat_sector b t c")
  case True
  let ?k = "unat (c mod 128) * 4" and ?k' = "unat (c' mod 128) * 4" and ?bs = "i (fat_sector b t c)"
  have t: "t' = t" "c' div 128 = c div 128" using fat_sector_inject [OF assms(1,4,3,6,5) True] by auto
  have l: "length ?bs = 512" using assms(2) by (simp add: image_ok_def)
  show ?thesis
  proof (cases "c' = c")
    case same: True
    then show ?thesis using t l entry_offset [of c]
      by (simp add: raw_at_def put_entry_def set_entry_bytes_def Let_def u32_at_copy_same with_entry_def)
  next
    case False
    have "c' mod 128 \<noteq> c mod 128" using t(2) False
      by (metis (no_types) div_mult_mod_eq [where 'a = u32] word_mod_div_equality)
    then have "unat (c' mod 128) \<noteq> unat (c mod 128)" by (simp add: word_unat_eq_iff)
    then have "?k' + 4 \<le> ?k \<or> ?k + 4 \<le> ?k'" by linarith
    then show ?thesis using t l False True entry_offset [of c] entry_offset [of c']
      by (simp add: raw_at_def put_entry_def set_entry_bytes_def Let_def u32_at_copy_other)
  qed
next
  case False
  then show ?thesis by (auto simp: raw_at_def put_entry_def)
qed

text \<open>The entry in every copy of the table, which is what \<open>set_next_cluster\<close> does.\<close>

definition set_entry :: "boot_sector \<Rightarrow> u32 \<Rightarrow> u32 \<Rightarrow> image \<Rightarrow> image" where
  "set_entry b v c i = fold (put_entry b v c) (map of_nat [0..<unat (fat_count b)]) i"

definition fat_area :: "boot_sector \<Rightarrow> u32 \<Rightarrow> bool" where
  "fat_area b n \<longleftrightarrow> unat (reserved_sectors b) \<le> unat n \<and> unat n < data_start b"

lemma put_entries:
  assumes "boot_ok b" "image_ok i" "valid_cluster b c" "\<forall>t \<in> set ts. unat t < unat (fat_count b)" "distinct ts"
  shows "image_ok (fold (put_entry b v c) ts i)"
    and "\<And>t c'. valid_cluster b c' \<Longrightarrow> unat t < unat (fat_count b) \<Longrightarrow>
      raw_at b (fold (put_entry b v c) ts i) t c' =
        (if t \<in> set ts \<and> c' = c then with_entry (raw_at b i t c) v else raw_at b i t c')"
    and "\<And>n. \<not> fat_area b n \<Longrightarrow> fold (put_entry b v c) ts i n = i n"
proof -
  have "image_ok (fold (put_entry b v c) ts i) \<and>
    (\<forall>t c'. valid_cluster b c' \<longrightarrow> unat t < unat (fat_count b) \<longrightarrow>
      raw_at b (fold (put_entry b v c) ts i) t c' =
        (if t \<in> set ts \<and> c' = c then with_entry (raw_at b i t c) v else raw_at b i t c')) \<and>
    (\<forall>n. \<not> fat_area b n \<longrightarrow> fold (put_entry b v c) ts i n = i n)"
    using assms(2,4,5)
  proof (induction ts arbitrary: i)
    case (Cons t ts)
    have t: "unat t < unat (fat_count b)" using Cons.prems(2) by simp
    have "fat_area b (fat_sector b t c)"
      using fat_sector_exact [OF assms(1,3) t] by (simp add: fat_area_def)
    then have out: "put_entry b v c t i n = i n" if "\<not> fat_area b n" for n using that by (auto simp: put_entry_def)
    show ?case
      using Cons.IH [OF put_entry_ok [OF Cons.prems(1)]] Cons.prems out
      by (auto simp: raw_put_entry [OF assms(1) Cons.prems(1) assms(3) _ t] assms(3))
  qed simp
  then show "image_ok (fold (put_entry b v c) ts i)"
    "\<And>t c'. valid_cluster b c' \<Longrightarrow> unat t < unat (fat_count b) \<Longrightarrow>
      raw_at b (fold (put_entry b v c) ts i) t c' =
        (if t \<in> set ts \<and> c' = c then with_entry (raw_at b i t c) v else raw_at b i t c')"
    "\<And>n. \<not> fat_area b n \<Longrightarrow> fold (put_entry b v c) ts i n = i n"
    by blast+
qed

lemma tables_list:
  fixes b :: boot_sector
  shows "\<forall>t \<in> set (map of_nat [0..<unat (fat_count b)] :: u32 list). unat t < unat (fat_count b)"
    and "distinct (map of_nat [0..<unat (fat_count b)] :: u32 list)"
    and "unat t < unat (fat_count b) \<Longrightarrow> (t :: u32) \<in> set (map of_nat [0..<unat (fat_count b)])"
proof -
  have small: "unat (of_nat k :: u32) = k" if "k < unat (fat_count b)" for k
    using that unat_u8_bound [of "fat_count b"] by (intro unat_of_nat_exact) simp
  then show "\<forall>t \<in> set (map of_nat [0..<unat (fat_count b)] :: u32 list). unat t < unat (fat_count b)" by auto
  show "distinct (map of_nat [0..<unat (fat_count b)] :: u32 list)"
    unfolding distinct_map by (auto intro!: inj_onI) (metis small)
  show "unat t < unat (fat_count b) \<Longrightarrow> (t :: u32) \<in> set (map of_nat [0..<unat (fat_count b)])"
    by (auto intro!: image_eqI [of _ _ "unat t"])
qed

lemma set_entry_spec:
  assumes "boot_ok b" "image_ok i" "valid_cluster b c"
  shows "image_ok (set_entry b v c i)"
    and "valid_cluster b c' \<Longrightarrow> unat t < unat (fat_count b) \<Longrightarrow> raw_at b (set_entry b v c i) t c' =
      (if c' = c then with_entry (raw_at b i t c) v else raw_at b i t c')"
    and "valid_cluster b c' \<Longrightarrow> entry_at b (set_entry b v c i) c' = (if c' = c then decode_entry v else entry_at b i c')"
    and "\<not> fat_area b n \<Longrightarrow> set_entry b v c i n = i n"
proof -
  note puts = put_entries [OF assms tables_list(1,2)]
  show "image_ok (set_entry b v c i)" unfolding set_entry_def by (rule puts(1))
  show raw: "valid_cluster b c' \<Longrightarrow> unat t < unat (fat_count b) \<Longrightarrow> raw_at b (set_entry b v c i) t c' =
      (if c' = c then with_entry (raw_at b i t c) v else raw_at b i t c')" for t
    unfolding set_entry_def using tables_list(3) [of t b] put_entries(2) [OF assms tables_list(1,2)] by simp
  have "0 < unat (fat_count b)" using assms(1) by (simp add: boot_ok_def)
  then show "valid_cluster b c' \<Longrightarrow> entry_at b (set_entry b v c i) c' = (if c' = c then decode_entry v else entry_at b i c')"
    using raw [of 0] by (simp add: entry_at_raw)
  show "\<not> fat_area b n \<Longrightarrow> set_entry b v c i n = i n" unfolding set_entry_def by (rule puts(3))
qed

lemma set_in_tables_image:
  assumes "boot_ok b"
  shows "set_in_tables image_sectors b c v ts i = (Inr (), fold (put_entry b v c) ts i)"
  using assms by (induction ts arbitrary: i) (simp_all add: Let_def put_entry_def fat_sector_def)

lemma set_next_cluster_image:
  assumes "boot_ok b"
  shows "set_next_cluster image_sectors b c v i =
    (if valid_cluster b c then (Inr (), set_entry b v c i) else (Inl (Reading (BadCluster c)), i))"
  using cluster_checks [OF assms, of c]
  by (auto simp: set_next_cluster_def set_in_tables_image [OF assms] set_entry_def)

section \<open>Free clusters\<close>

text \<open>All the clusters of a volume from \<open>c\<close> on, in order.\<close>

definition clusters_from :: "boot_sector \<Rightarrow> nat \<Rightarrow> u32 list" where
  "clusters_from b n = map of_nat [n..<2 + unat (clusters b)]"

definition free_list :: "boot_sector \<Rightarrow> image \<Rightarrow> u32 list" where
  "free_list b i = filter (\<lambda>c. entry_at b i c = Free) (clusters_from b 2)"

lemma set_clusters_from:
  assumes "boot_ok b" "2 \<le> n"
  shows "set (clusters_from b n) = {c. valid_cluster b c \<and> n \<le> unat c}" "distinct (clusters_from b n)"
proof -
  define m where "m = 2 + unat (clusters b)"
  have cl: "clusters_from b n = map of_nat [n..<m]" by (simp only: clusters_from_def m_def)
  have small: "unat (of_nat k :: u32) = k" if "k < m" for k
    using that boot_clusters_bound(1) [OF assms(1)] unfolding m_def by (intro unat_of_nat_exact) simp
  have v: "valid_cluster b c \<longleftrightarrow> 2 \<le> unat c \<and> unat c < m" for c by (simp add: valid_cluster_def m_def)
  have "c \<in> of_nat ` {n..<m}" if "n \<le> unat c" "unat c < m" for c :: u32
    using that by (intro image_eqI [of _ _ "unat c"]) auto
  then show "set (clusters_from b n) = {c. valid_cluster b c \<and> n \<le> unat c}"
    using assms(2) unfolding cl v by (auto simp: small)
  show "distinct (clusters_from b n)"
    unfolding cl distinct_map by (auto intro!: inj_onI) (metis small)
qed

lemma clusters_from_step:
  assumes "boot_ok b" "valid_cluster b c"
  shows "clusters_from b (unat c) = c # clusters_from b (unat (c + 1))" "unat (c + 1) = unat c + 1"
proof -
  define m where "m = 2 + unat (clusters b)"
  have lt: "unat c < m" using assms(2) by (simp add: valid_cluster_def m_def)
  have "unat c + unat (1 :: u32) < 2 ^ LENGTH(32)"
    using assms(2) boot_clusters_bound(1) [OF assms(1)] by (simp add: valid_cluster_def)
  then show one: "unat (c + 1) = unat c + 1" by (subst unat_add_exact) simp_all
  have "[unat c..<m] = unat c # [unat (c + 1)..<m]" using lt one by (simp add: upt_conv_Cons)
  then show "clusters_from b (unat c) = c # clusters_from b (unat (c + 1))"
    by (simp only: clusters_from_def flip: m_def) simp
qed

lemma free_loop_image:
  fixes S :: "(image, 'e) sectors"
  defines "S \<equiv> image_sectors"
  assumes "boot_ok b" "2 \<le> unat c" "length found \<le> n"
  shows "free_loop S b n c found i =
    (Inr (take n (found @ filter (\<lambda>c. entry_at b i c = Free) (clusters_from b (unat c)))), i)"
  using assms(3,4)
proof (induction "2 + unat (clusters b) - unat c" arbitrary: c found)
  case 0
  then have "clusters_from b (unat c) = []" "\<not> c < FIRST_DATA_CLUSTER + clusters b"
    using past_last_cluster [OF assms(2)] by (simp_all add: clusters_from_def word_less_nat_alt)
  then show ?case using 0 by (simp add: free_loop.simps)
next
  case (Suc k)
  then have v: "valid_cluster b c" and lt: "c < FIRST_DATA_CLUSTER + clusters b"
    using past_last_cluster [OF assms(2)] by (simp_all add: valid_cluster_def word_less_nat_alt)
  note nx = clusters_from_step [OF assms(2) v]
  show ?case
  proof (cases "length found < n")
    case True
    let ?f = "if entry_at b i c = Free then found @ [c] else found"
    have "free_loop S b n c found i = free_loop S b n (c + 1) ?f i"
      using True lt v assms(2)
      by (simp add: free_loop.simps [of _ _ _ c] S_def next_cluster_image io_map_err_def io_bind_def)
    also have "\<dots> = (Inr (take n (?f @ filter (\<lambda>c. entry_at b i c = Free) (clusters_from b (unat (c + 1))))), i)"
      using Suc True nx(2) by (intro Suc.hyps(1)) auto
    finally show ?thesis using True unfolding nx(1) by (cases "entry_at b i c = Free") (simp_all del: take_append)
  next
    case False
    then show ?thesis using Suc.prems by (simp add: free_loop.simps)
  qed
qed

lemma free_clusters_image:
  fixes S :: "(image, 'e) sectors"
  defines "S \<equiv> image_sectors"
  assumes "boot_ok b"
  shows "free_clusters S b n i =
    (if n > MAX_FILE_CLUSTERS then Inl (TooManyClusters n)
     else if length (free_list b i) < n then Inl (Full n (length (free_list b i)))
     else Inr (take n (free_list b i)), i)"
proof -
  have "free_loop S b n FIRST_DATA_CLUSTER [] i = (Inr (take n (free_list b i)), i)"
    using free_loop_image [where 'e = 'e, OF assms(2), of FIRST_DATA_CLUSTER "[]" n i]
    by (simp add: S_def free_list_def FIRST_DATA_CLUSTER_def)
  then show ?thesis by (auto simp: free_clusters_def min_def)
qed

lemma free_list_spec:
  assumes "boot_ok b"
  shows "set (free_list b i) = {c. valid_cluster b c \<and> entry_at b i c = Free}" "distinct (free_list b i)"
  using set_clusters_from [OF assms, of 2] by (auto simp: free_list_def valid_cluster_def)

section \<open>The data of a file\<close>

text \<open>Sector \<open>g\<close> of a file, filled up with zeros.\<close>

definition file_sector :: "bytes \<Rightarrow> nat \<Rightarrow> bytes" where
  "file_sector bs g = copy_at (replicate 512 0) 0 (take (min (length bs - 512 * g) 512) (drop (512 * g) bs))"

lemma length_file_sector [simp]: "length (file_sector bs g) = 512"
  by (simp add: file_sector_def)

lemma nth_file_sector: "p < length bs \<Longrightarrow> file_sector bs (p div 512) ! (p mod 512) = bs ! p"
proof -
  assume p: "p < length bs"
  have eq: "512 * (p div 512) + p mod 512 = p" by simp
  have "p mod 512 < 512" by simp
  then have lt: "p mod 512 < min (length bs - 512 * (p div 512)) 512" using p eq by linarith
  have le: "min (length bs - 512 * (p div 512)) 512 \<le> length (drop (512 * (p div 512)) bs)" by simp
  have "file_sector bs (p div 512) ! (p mod 512) =
      take (min (length bs - 512 * (p div 512)) 512) (drop (512 * (p div 512)) bs) ! (p mod 512)"
    unfolding file_sector_def using lt by (subst nth_copy_at) auto
  also have "\<dots> = bs ! (512 * (p div 512) + p mod 512)" using lt p by (simp add: eq)
  finally show ?thesis unfolding eq .
qed

definition in_cluster :: "boot_sector \<Rightarrow> u32 \<Rightarrow> u32 \<Rightarrow> bool" where
  "in_cluster b c n \<longleftrightarrow>
     (\<exists>first. sector_of_cluster b c = Some first \<and> unat first \<le> unat n \<and>
        unat n < unat first + unat (sectors_per_cluster b))"

lemma cluster_sector:
  assumes "boot_ok b" "sector_of_cluster b c = Some first" "k < unat (sectors_per_cluster b)"
  shows "unat (first + of_nat k) = unat first + k" "in_cluster b c (first + of_nat k)"
    "\<not> fat_area b (first + of_nat k)" "unat (of_nat k :: u32) = k"
proof -
  have v: "valid_cluster b c" using sector_of_cluster_None [OF assms(1), of c] assms(2) by auto
  obtain s where s: "sector_of_cluster b c = Some s" "unat s = data_start b + (unat c - 2) * unat (sectors_per_cluster b)"
      "unat s + unat (sectors_per_cluster b) \<le> unat (total_sectors b)"
    by (rule sector_of_cluster_Some [OF assms(1) v])
  then have f: "unat first + unat (sectors_per_cluster b) \<le> unat (total_sectors b)" "data_start b \<le> unat first"
    using assms(2) by auto
  have t: "unat (total_sectors b) < 2 ^ 32" using unat_u32_bound [of "total_sectors b"] by simp
  show k: "unat (of_nat k :: u32) = k" using assms(3) f(1) t by (intro unat_of_nat_exact) simp
  show n: "unat (first + of_nat k) = unat first + k"
    using assms(3) f(1) t by (subst unat_add_exact) (simp_all add: k)
  show "in_cluster b c (first + of_nat k)" using assms(2,3) n by (auto simp: in_cluster_def)
  show "\<not> fat_area b (first + of_nat k)" using f(2) n by (simp add: fat_area_def)
qed

lemma in_cluster_unique:
  assumes "boot_ok b" "in_cluster b c n" "in_cluster b c' n"
  shows "c = c'"
proof (rule ccontr)
  assume ne: "c \<noteq> c'"
  obtain f f' where f: "sector_of_cluster b c = Some f" "unat n \<in> {unat f ..< unat f + unat (sectors_per_cluster b)}"
    "sector_of_cluster b c' = Some f'" "unat n \<in> {unat f' ..< unat f' + unat (sectors_per_cluster b)}"
    using assms(2,3) by (auto simp: in_cluster_def)
  have "valid_cluster b c" "valid_cluster b c'" using sector_of_cluster_None [OF assms(1)] f(1,3)
    by (metis option.distinct(1))+
  then show False using cluster_sectors_disjoint [OF assms(1) _ _ ne f(1,3)] f(2,4) by blast
qed

lemma write_cluster_image:
  fixes S :: "(image, 'e) sectors"
  defines "S \<equiv> image_sectors"
  assumes ok: "boot_ok b" "image_ok i" and f: "sector_of_cluster b c = Some first" and q: "q \<le> unat (sectors_per_cluster b)"
  shows "\<exists>i'. write_cluster S (512 * unat (sectors_per_cluster b)) j first
        (map of_nat [q..<unat (sectors_per_cluster b)]) bs i = (Inr (), i') \<and> image_ok i' \<and>
      (\<forall>k. q \<le> k \<longrightarrow> k < unat (sectors_per_cluster b) \<longrightarrow> 512 * (j * unat (sectors_per_cluster b) + k) < length bs \<longrightarrow>
         i' (first + of_nat k) = file_sector bs (j * unat (sectors_per_cluster b) + k)) \<and>
      (\<forall>n. (\<forall>k. q \<le> k \<longrightarrow> k < unat (sectors_per_cluster b) \<longrightarrow> n \<noteq> first + of_nat k) \<longrightarrow> i' n = i n)"
  using q ok(2)
proof (induction "unat (sectors_per_cluster b) - q" arbitrary: q i)
  case 0
  then show ?case by (intro exI [of _ i]) simp
next
  case (Suc m)
  let ?n = "unat (sectors_per_cluster b)" and ?g = "j * unat (sectors_per_cluster b) + q"
  have lt: "q < ?n" using Suc.hyps(2) by simp
  note cs = cluster_sector [OF ok(1) f lt]
  have cons: "[q..<?n] = q # [Suc q..<?n]" using lt by (rule upt_conv_Cons)
  have at: "j * (512 * ?n) + q * 512 = 512 * ?g" by (simp add: algebra_simps)
  show ?case
  proof (cases "512 * ?g < length bs")
    case False
    have "\<not> 512 * (j * ?n + k) < length bs" if "q \<le> k" for k
      using False mult_le_mono2 [OF add_left_mono [OF that, of "j * ?n"], of 512] by linarith
    then show ?thesis using False at by (intro exI [of _ i]) (simp add: cons cs(4) Let_def S_def Suc.prems)
  next
    case True
    let ?i = "i(first + of_nat q := file_sector bs ?g)"
    have oki: "image_ok ?i" using Suc.prems(2) by (simp add: image_ok_def)
    have m: "m = ?n - Suc q" using Suc.hyps(2) by simp
    obtain i' where i': "write_cluster S (512 * ?n) j first (map of_nat [Suc q..<?n]) bs ?i = (Inr (), i')" "image_ok i'"
        "\<And>k. Suc q \<le> k \<Longrightarrow> k < ?n \<Longrightarrow> 512 * (j * ?n + k) < length bs \<Longrightarrow> i' (first + of_nat k) = file_sector bs (j * ?n + k)"
        "\<And>n. (\<forall>k. Suc q \<le> k \<longrightarrow> k < ?n \<longrightarrow> n \<noteq> first + of_nat k) \<Longrightarrow> i' n = ?i n"
      using Suc.hyps(1) [OF m Suc_leI [OF lt] oki] by blast
    have step: "write_cluster S (512 * ?n) j first (map of_nat [q..<?n]) bs i = (Inr (), i')"
      unfolding cons list.map write_cluster.simps Let_def cs(4) at
      using i'(1) True by (simp add: S_def file_sector_def)
    have diff: "first + of_nat q \<noteq> first + of_nat k" if "Suc q \<le> k" "k < ?n" for k
      using cs(1) cluster_sector(1) [OF ok(1) f that(2)] that(1) by (metis add_left_cancel not_less_eq_eq order_refl)
    have here: "i' (first + of_nat q) = file_sector bs ?g" using i'(4) [of "first + of_nat q"] diff by simp
    have all: "i' (first + of_nat k) = file_sector bs (j * ?n + k)"
      if "q \<le> k" "k < ?n" "512 * (j * ?n + k) < length bs" for k
      using that i'(3) [of k] here by (cases "k = q") auto
    have "i' n = i n" if "\<forall>k. q \<le> k \<longrightarrow> k < ?n \<longrightarrow> n \<noteq> first + of_nat k" for n
      using i'(4) [of n] that lt by simp
    then show ?thesis using step i'(2) all by (intro exI [of _ i']) blast
  qed
qed

lemma write_clusters_image:
  fixes S :: "(image, 'e) sectors"
  defines "S \<equiv> image_sectors"
  assumes ok: "boot_ok b" "image_ok i" and v: "\<forall>c \<in> set chain. valid_cluster b c" "distinct chain"
  shows "\<exists>i'. write_clusters_from S b j chain bs i = (Inr (), i') \<and> image_ok i' \<and>
      (\<forall>x first k. x < length chain \<longrightarrow> sector_of_cluster b (chain ! x) = Some first \<longrightarrow>
         k < unat (sectors_per_cluster b) \<longrightarrow> 512 * ((j + x) * unat (sectors_per_cluster b) + k) < length bs \<longrightarrow>
         i' (first + of_nat k) = file_sector bs ((j + x) * unat (sectors_per_cluster b) + k)) \<and>
      (\<forall>n. (\<forall>c \<in> set chain. \<not> in_cluster b c n) \<longrightarrow> i' n = i n)"
  using v ok(2)
proof (induction chain arbitrary: i j)
  case Nil
  then show ?case by (intro exI [of _ i]) (simp add: S_def)
next
  case (Cons c chain)
  let ?n = "unat (sectors_per_cluster b)"
  obtain first where f: "sector_of_cluster b c = Some first"
    using Cons.prems(1) sector_of_cluster_None [OF ok(1), of c] by (cases "sector_of_cluster b c") auto
  have pc: "unat (cluster_bytes b) = 512 * ?n" by (rule cluster_bytes_exact [OF ok(1)])
  obtain i1 where i1: "write_cluster S (512 * ?n) j first (cluster_offsets b) bs i = (Inr (), i1)" "image_ok i1"
      "\<And>k. k < ?n \<Longrightarrow> 512 * (j * ?n + k) < length bs \<Longrightarrow> i1 (first + of_nat k) = file_sector bs (j * ?n + k)"
      "\<And>n. (\<forall>k < ?n. n \<noteq> first + of_nat k) \<Longrightarrow> i1 n = i n"
    using write_cluster_image [where 'e = 'e, OF ok(1) Cons.prems(3) f, of 0 j bs]
    unfolding S_def cluster_offsets_def by auto
  obtain i2 where i2: "write_clusters_from S b (j + 1) chain bs i1 = (Inr (), i2)" "image_ok i2"
      "\<And>x first k. x < length chain \<Longrightarrow> sector_of_cluster b (chain ! x) = Some first \<Longrightarrow> k < ?n \<Longrightarrow>
         512 * ((j + 1 + x) * ?n + k) < length bs \<Longrightarrow>
         i2 (first + of_nat k) = file_sector bs ((j + 1 + x) * ?n + k)"
      "\<And>n. (\<forall>c \<in> set chain. \<not> in_cluster b c n) \<Longrightarrow> i2 n = i1 n"
    using Cons.IH [of i1 "j + 1"] Cons.prems(1,2) i1(2) by auto
  have run: "write_clusters_from S b j (c # chain) bs i = (Inr (), i2)" using f i1(1) i2(1) by (simp add: pc)
  have mine: "i2 (first + of_nat k) = i1 (first + of_nat k)" if "k < ?n" for k
    using i2(4) [of "first + of_nat k"] in_cluster_unique [OF ok(1) cluster_sector(2) [OF ok(1) f that]] Cons.prems(2) by auto
  have data: "i2 (g + of_nat k) = file_sector bs ((j + x) * ?n + k)"
    if "x < length (c # chain)" "sector_of_cluster b ((c # chain) ! x) = Some g" "k < ?n"
      "512 * ((j + x) * ?n + k) < length bs" for x g k
    using that f mine [of k] i1(3) [of k] i2(3) [of "x - 1" g k] by (cases x) auto
  have "i2 n = i n" if "\<forall>c' \<in> set (c # chain). \<not> in_cluster b c' n" for n
    using that i2(4) [of n] i1(4) [of n] cluster_sector(2) [OF ok(1) f] by auto
  then show ?case using run i2(2) data by (intro exI [of _ i2]) blast
qed

lemma nth_concat_blocks:
  assumes "\<And>x. length (f x) = L" "p < length xs * L"
  shows "concat (map f xs) ! p = f (xs ! (p div L)) ! (p mod L)"
  using assms(2)
proof (induction xs arbitrary: p)
  case (Cons x xs)
  have L: "0 < L" using Cons.prems by (cases L) auto
  show ?case
  proof (cases "p < L")
    case True
    then show ?thesis by (simp add: nth_append assms(1))
  next
    case False
    then have "p div L = Suc ((p - L) div L)" "p mod L = (p - L) mod L" using L by (simp_all add: le_div_geq le_mod_geq)
    then show ?thesis using Cons.IH [of "p - L"] Cons.prems False by (simp add: nth_append assms(1))
  qed
qed simp

lemma sector_split:
  "(p :: nat) div (512 * n) * n + p mod (512 * n) div 512 = p div 512"
  "p mod (512 * n) mod 512 = p mod 512"
proof -
  have "p mod (512 * n) div 512 = p div 512 mod n" by (simp add: mod_mult2_eq)
  then show "p div (512 * n) * n + p mod (512 * n) div 512 = p div 512"
    by (simp add: div_mult2_eq div_mult_mod_eq del: One_nat_def)
  show "p mod (512 * n) mod 512 = p mod 512" by (simp add: mod_mod_cancel)
qed

lemma written_data:
  assumes ok: "boot_ok b" "image_ok i" and v: "\<forall>c \<in> set chain. valid_cluster b c"
    and len: "length bs \<le> length chain * (512 * unat (sectors_per_cluster b))"
    and data: "\<And>x first k. x < length chain \<Longrightarrow> sector_of_cluster b (chain ! x) = Some first \<Longrightarrow>
       k < unat (sectors_per_cluster b) \<Longrightarrow> 512 * (x * unat (sectors_per_cluster b) + k) < length bs \<Longrightarrow>
       i (first + of_nat k) = file_sector bs (x * unat (sectors_per_cluster b) + k)"
  shows "take (length bs) (concat (map (cluster_data b i) chain)) = bs"
proof (rule nth_equalityI)
  let ?n = "unat (sectors_per_cluster b)" and ?cb = "512 * unat (sectors_per_cluster b)"
  show l: "length (take (length bs) (concat (map (cluster_data b i) chain))) = length bs"
    using len by (simp add: length_concat_clusters [OF ok(2)])
  fix p assume "p < length (take (length bs) (concat (map (cluster_data b i) chain)))"
  then have p: "p < length bs" using l by simp
  let ?x = "p div ?cb" and ?r = "p mod ?cb"
  have n0: "0 < ?n" using ok(1) by (simp add: boot_ok_def)
  have x: "?x < length chain" using p len n0 by (simp add: div_less_iff_less_mult)
  then have "valid_cluster b (chain ! ?x)" using v by simp
  then obtain first where f: "sector_of_cluster b (chain ! ?x) = Some first"
    using sector_of_cluster_None [OF ok(1)] by (metis not_None_eq)
  have r: "?r < ?n * 512" using n0 by (simp add: mult.commute)
  then have k: "?r div 512 < ?n" by (simp add: less_mult_imp_div_less)
  have g: "?x * ?n + ?r div 512 = p div 512" "?r mod 512 = p mod 512"
    by (rule sector_split)+
  have "concat (map (cluster_data b i) chain) ! p = cluster_data b i (chain ! ?x) ! ?r"
    using nth_concat_blocks [of "cluster_data b i" ?cb p chain] length_cluster_data [OF ok(2)] p len by simp
  also have "\<dots> = i (first + cluster_offsets b ! (?r div 512)) ! (?r mod 512)"
    unfolding cluster_data_def f option.sel
    using nth_concat_blocks [of "\<lambda>k. i (first + k)" 512 ?r "cluster_offsets b"] ok(2) r by (simp add: image_ok_def)
  also have "cluster_offsets b ! (?r div 512) = of_nat (?r div 512)" using k by (simp add: cluster_offsets_def)
  also have "i (first + of_nat (?r div 512)) = file_sector bs (p div 512)"
    using data [OF x f k] p unfolding g by (simp add: div_times_less_eq_dividend)
  also have "file_sector bs (p div 512) ! (?r mod 512) = bs ! p"
    unfolding g by (rule nth_file_sector [OF p])
  finally show "take (length bs) (concat (map (cluster_data b i) chain)) ! p = bs ! p" using p by simp
qed

section \<open>Chains\<close>

lemma link_chain_image:
  fixes S :: "(image, 'e) sectors"
  defines "S \<equiv> image_sectors"
  assumes ok: "boot_ok b" "image_ok i" and v: "\<forall>c \<in> set chain. valid_cluster b c" "distinct chain"
  shows "\<exists>i'. link_chain S b chain i = (Inr (), i') \<and> image_ok i' \<and>
    (\<forall>x < length chain. entry_at b i' (chain ! x) =
       (if Suc x < length chain then decode_entry (chain ! Suc x) else End)) \<and>
    (\<forall>c. valid_cluster b c \<longrightarrow> c \<notin> set chain \<longrightarrow> entry_at b i' c = entry_at b i c) \<and>
    (\<forall>n. \<not> fat_area b n \<longrightarrow> i' n = i n)"
  using v ok(2)
proof (induction chain arbitrary: i)
  case Nil
  then show ?case by (intro exI [of _ i]) (simp add: S_def)
next
  case (Cons c chain)
  let ?v = "case chain of nxt # _ \<Rightarrow> nxt | [] \<Rightarrow> END_OF_CHAIN" and ?i = "set_entry b (case chain of nxt # _ \<Rightarrow> nxt | [] \<Rightarrow> END_OF_CHAIN) c i"
  have vc: "valid_cluster b c" using Cons.prems(1) by simp
  note se = set_entry_spec [OF ok(1) Cons.prems(3) vc]
  obtain i' where i': "link_chain S b chain ?i = (Inr (), i')" "image_ok i'"
      "\<forall>x < length chain. entry_at b i' (chain ! x) =
         (if Suc x < length chain then decode_entry (chain ! Suc x) else End)"
      "\<forall>c. valid_cluster b c \<longrightarrow> c \<notin> set chain \<longrightarrow> entry_at b i' c = entry_at b ?i c"
      "\<forall>n. \<not> fat_area b n \<longrightarrow> i' n = ?i n"
    using Cons.IH [of ?i] Cons.prems se(1) by auto
  have run: "link_chain S b (c # chain) i = (Inr (), i')"
    using i'(1) vc by (simp add: S_def set_next_cluster_image [OF ok(1)])
  have mine: "entry_at b i' c = decode_entry ?v" using i'(4) vc Cons.prems(2) se(3) by simp
  have links: "entry_at b i' ((c # chain) ! x) =
      (if Suc x < length (c # chain) then decode_entry ((c # chain) ! Suc x) else End)"
    if "x < length (c # chain)" for x
    using that i'(3) mine by (cases x) (auto split: list.splits)
  have "entry_at b i' c' = entry_at b i c'" if "valid_cluster b c'" "c' \<notin> set (c # chain)" for c'
    using that i'(4) se(3) by simp
  then show ?case using run i'(2,5) links se(4) by (intro exI [of _ i']) simp
qed

lemma follow_linked:
  assumes "chain \<noteq> []" "\<forall>c \<in> set chain. valid_cluster b c"
    "\<And>x. Suc x < length chain \<Longrightarrow> entry_at b i (chain ! x) = Next (chain ! Suc x)"
  shows "follow b i (hd chain) (length chain) = Some chain"
  using assms
proof (induction chain)
  case (Cons c chain)
  show ?case
  proof (cases chain)
    case Nil
    then show ?thesis using Cons.prems by simp
  next
    case (Cons d ds)
    have e: "entry_at b i c = Next d" using Cons.prems(3) [of 0] local.Cons by simp
    have links: "entry_at b i (chain ! x) = Next (chain ! Suc x)" if "Suc x < length chain" for x
      using Cons.prems(3) [of "Suc x"] that by simp
    show ?thesis using Cons.IH Cons.prems(2) local.Cons e links by simp
  qed
qed simp

text \<open>Freeing a chain touches the tables only, and never an entry of a cluster to keep.\<close>

lemma free_chain_image:
  fixes S :: "(image, 'e) sectors"
  defines "S \<equiv> image_sectors"
  assumes ok: "boot_ok b" "image_ok i" and run: "free_chain_loop S b keep c seen i = (r, i')"
  shows "image_ok i' \<and> (\<forall>c \<in> set keep. valid_cluster b c \<longrightarrow> entry_at b i' c = entry_at b i c) \<and>
    (\<forall>n. \<not> fat_area b n \<longrightarrow> i' n = i n)"
  using ok(2) run
proof (induction "unat (clusters b) - seen" arbitrary: c seen i rule: less_induct)
  case less
  note step = less.prems(2) [unfolded S_def free_chain_loop.simps [of _ b keep c seen]]
  show ?case
  proof (cases "valid_cluster b c \<and> entry_at b i c \<noteq> Free \<and> c \<notin> set keep")
    case False
    then have "i' = i" using step
      by (auto simp: next_cluster_image [OF ok(1)] io_map_err_def io_bind_def split: if_splits)
    then show ?thesis using less.prems(1) by simp
  next
    case True
    let ?i = "set_entry b 0 c i"
    have vc: "valid_cluster b c" using True by simp
    note se = set_entry_spec [OF ok(1) less.prems(1) vc]
    have rest: "(if seen + 1 > unat (clusters b) then io_fail (Reading ChainLoops)
        else case entry_at b i c of Next c' \<Rightarrow> free_chain_loop S b keep c' (seen + 1) | _ \<Rightarrow> io_ret ()) ?i = (r, i')"
      unfolding S_def using step True
      by (simp add: next_cluster_image [OF ok(1)] set_next_cluster_image [OF ok(1)] io_map_err_def io_bind_def
          split: if_splits)
    have keep: "entry_at b ?i x = entry_at b i x" if "x \<in> set keep" "valid_cluster b x" for x
      using se(3) [OF that(2)] True that(1) by auto
    show ?thesis
    proof (cases "seen + 1 > unat (clusters b) \<or> (\<forall>c'. entry_at b i c \<noteq> Next c')")
      case True
      then have "i' = ?i" using rest by (cases "entry_at b i c") (auto split: if_splits)
      then show ?thesis using se(1,4) keep by simp
    next
      case False
      then obtain c' where c': "entry_at b i c = Next c'" "\<not> seen + 1 > unat (clusters b)" by blast
      then have "free_chain_loop S b keep c' (seen + 1) ?i = (r, i')" using rest by simp
      then show ?thesis using less.hyps [of "seen + 1" ?i c'] c'(2) se(1,4) keep by simp
    qed
  qed
qed

section \<open>The hint, the entry and its slot\<close>

lemma count_sectors_image:
  "\<exists>counts. count_sectors image_sectors tb l ks acc i = (Inr counts, i)"
  by (induction ks arbitrary: acc) auto

lemma update_fs_info_image:
  assumes "image_ok i" "update_fs_info (image_sectors :: (image, 'e) sectors) b i = (r, i')"
  shows "r = Inr ()" "image_ok i'" "\<And>n. unat (reserved_sectors b) \<le> unat n \<Longrightarrow> i' n = i n"
proof -
  let ?s = "ucast (fs_info_sector b) :: u32" and ?l = "FIRST_DATA_CLUSTER + clusters b - 1"
  obtain f g where cnt: "count_sectors (image_sectors :: (image, 'e) sectors) (first_fat_sector b) ?l
      (map of_nat [unat (FIRST_DATA_CLUSTER div 128)..<unat (?l div 128) + 1]) (0, 0) i = (Inr (f, g), i)"
    using count_sectors_image [of "first_fat_sector b" ?l _ "(0, 0)" i] by (metis surj_pair)
  let ?j = "i(?s := copy_at (copy_at (i ?s) 488 (u32_to_le f)) 492 (u32_to_le g))"
  have out: "r = Inr () \<and> (i' = i \<or> i' = ?j \<and> \<not> ?s \<ge> ucast (reserved_sectors b))"
    using assms(2) cnt by (auto simp: update_fs_info_def Let_def split: if_splits)
  have "image_ok ?j" using assms(1) by (simp add: image_ok_def)
  then show "r = Inr ()" "image_ok i'" using out assms(1) by auto
  show "i' n = i n" if "unat (reserved_sectors b) \<le> unat n" for n
    using out that by (auto simp: word_le_nat_alt unat_ucast_up)
qed

lemma cluster_halves: "push_bit 16 (ucast (ucast (drop_bit 16 c) :: u16)) OR ucast (ucast c :: u16) = (c :: u32)"
  by (rule bit_word_eqI) (auto simp: bit_or_iff bit_ucast_iff bit_push_bit_iff bit_drop_bit_eq)

lemma decode_new_entry:
  assumes "encode_name name = Some enc" "length bs < 2 ^ 32"
  shows "length (new_entry_bytes enc first (length bs)) = 32"
    and "\<exists>e. decode_slot (new_entry_bytes enc first (length bs)) = SlotEntry e \<and> de_first_cluster e = first \<and>
      unat (de_size e) = length bs \<and> \<not> is_directory e \<and> de_name e = decode_slot_name (enc @ [])"
proof -
  note dec = decode_encoded_name [OF assms(1)]
  let ?n = "new_entry_bytes enc first (length bs)"
  show l: "length ?n = 32" using dec(1) by (simp add: new_entry_bytes_def)
  define rest where "rest = [ATTR_ARCHIVE] @ replicate 8 0 @ u16_to_le (ucast (drop_bit 16 first)) @ replicate 4 0 @
     u16_to_le (ucast first) @ u32_to_le (of_nat (length bs))"
  have n: "?n = enc @ rest" by (simp add: new_entry_bytes_def rest_def)
  have nth: "?n ! (11 + k) = rest ! k" for k using dec(1) by (simp add: n nth_append)
  have at: "?n ! 11 = ATTR_ARCHIVE" "?n ! 20 = ucast (ucast (drop_bit 16 first) :: u16)" "?n ! 21 = ucast (drop_bit 8 (ucast (drop_bit 16 first) :: u16))"
    "?n ! 26 = ucast (ucast first :: u16)" "?n ! 27 = ucast (drop_bit 8 (ucast first :: u16))"
    "u32_from_le (?n ! 28) (?n ! 29) (?n ! 30) (?n ! 31) = of_nat (length bs)"
    using nth [of 0] nth [of 9] nth [of 10] nth [of 15] nth [of 16] nth [of 17] nth [of 18] nth [of 19] nth [of 20]
    by (simp_all add: rest_def nth_append u16_to_le_def u32_to_le_def u32_le_roundtrip)
  have "?n ! 0 = enc ! 0" using dec(1) by (simp add: n nth_append)
  then have first: "?n ! 0 \<noteq> ENTRY_NEVER_USED" "?n ! 0 \<noteq> ENTRY_DELETED"
    using dec(2,3) by (auto simp: ENTRY_NEVER_USED_def ENTRY_DELETED_def)
  have cl: "push_bit 16 (ucast (u16_from_le (?n ! 20) (?n ! 21))) OR ucast (u16_from_le (?n ! 26) (?n ! 27)) = first"
    using u16_le_roundtrip [of "ucast (drop_bit 16 first)"] u16_le_roundtrip [of "ucast first"] cluster_halves [of first]
    unfolding at by simp
  show "\<exists>e. decode_slot ?n = SlotEntry e \<and> de_first_cluster e = first \<and>
      unat (de_size e) = length bs \<and> \<not> is_directory e \<and> de_name e = decode_slot_name (enc @ [])"
    using first at(1,6) cl dec(4) [of rest] dec(4) [of "[]"] assms(2)
    by (simp add: decode_slot_def Let_def is_directory_def ATTR_ARCHIVE_def ATTR_LONG_NAME_def ATTR_VOLUME_LABEL_def
        ATTR_DIRECTORY_def unat_of_nat n [symmetric])
qed

text \<open>The sectors of the root directory, and that a slot found is in one of them.\<close>

definition root_cluster_of :: "boot_sector \<Rightarrow> image \<Rightarrow> u32 \<Rightarrow> bool" where
  "root_cluster_of b i c \<longleftrightarrow> (\<exists>n cs. follow b i (root_cluster b) n = Some cs \<and> c \<in> set cs)"

definition root_sector :: "boot_sector \<Rightarrow> image \<Rightarrow> u32 \<Rightarrow> bool" where
  "root_sector b i n \<longleftrightarrow> (\<exists>c. root_cluster_of b i c \<and> in_cluster b c n)"

lemma follow_snoc:
  assumes "follow b i r n = Some cs" "valid_cluster b c" "if n = 0 then c = r else entry_at b i (last cs) = Next c"
  shows "follow b i r (Suc n) = Some (cs @ [c])"
  using assms
proof (induction n arbitrary: r cs)
  case 0
  then show ?case by simp
next
  case (Suc n)
  show ?case
  proof (cases n)
    case 0
    then show ?thesis using Suc.prems by (auto split: if_splits)
  next
    case (Suc m)
    obtain d ds where d: "entry_at b i r = Next d" "follow b i d n = Some ds" "cs = r # ds" "valid_cluster b r"
      using Suc.prems(1) Suc by (auto split: if_splits entry.splits)
    have "ds \<noteq> []" using follow_length [OF d(2)] Suc by auto
    then show ?thesis using Suc.IH [OF d(2) Suc.prems(2)] Suc.prems(3) d Suc by simp
  qed
qed

lemma dir_slots_where:
  "case dir_slots name sector j slots free of
     Inl (s, k, ex) \<Rightarrow> s = sector \<or> (\<exists>k'. free = Some (s, k'))
   | Inr free' \<Rightarrow> (\<forall>s k. free' = Some (s, k) \<longrightarrow> s = sector \<or> (\<exists>k'. free = Some (s, k')))"
proof (induction slots arbitrary: j free)
  case (Cons sl slots)
  show ?case using Cons [of free "Suc j"] Cons [of "Some (sector, j * 32)" "Suc j"]
    by (auto simp: Let_def DIRECTORY_ENTRY_BYTES_def split: slot.splits option.splits sum.splits)
qed simp

lemma dir_sectors_where:
  fixes S :: "(image, 'e) sectors"
  defines "S \<equiv> image_sectors"
  assumes "dir_sectors S name first ks free i = (Inr r, i')"
  shows "case r of
     Inl (s, k, ex) \<Rightarrow> s \<in> (\<lambda>k. first + k) ` set ks \<or> (\<exists>k'. free = Some (s, k'))
   | Inr free' \<Rightarrow> (\<forall>s k. free' = Some (s, k) \<longrightarrow> s \<in> (\<lambda>k. first + k) ` set ks \<or> (\<exists>k'. free = Some (s, k')))"
  using assms(2)
proof (induction ks arbitrary: free)
  case Nil
  then show ?case by (auto simp: S_def)
next
  case (Cons z ks)
  let ?d = "dir_slots name (first + z) 0 (as_chunks DIRECTORY_ENTRY_BYTES (i (first + z))) free"
  have w: "case ?d of Inl (s, k, ex) \<Rightarrow> s = first + z \<or> (\<exists>k'. free = Some (s, k'))
     | Inr free' \<Rightarrow> (\<forall>s k. free' = Some (s, k) \<longrightarrow> s = first + z \<or> (\<exists>k'. free = Some (s, k')))"
    by (rule dir_slots_where)
  show ?case
  proof (cases ?d)
    case (Inl f)
    then have "r = Inl f" using Cons.prems by (simp add: S_def)
    then show ?thesis using w unfolding Inl by auto
  next
    case (Inr free')
    then have "dir_sectors S name first ks free' i = (Inr r, i')" using Cons.prems by (simp add: S_def)
    from Cons.IH [OF this] show ?thesis using Inr w by (auto split: sum.splits)
  qed
qed

lemma directory_slot_where:
  fixes S :: "(image, 'e) sectors"
  defines "S \<equiv> image_sectors"
  assumes ok: "boot_ok b" and run: "directory_slot_loop S b name c seen free i = (Inr (s, k, ex), i')"
    and pre: "follow b i (root_cluster b) seen = Some cs" "if seen = 0 then c = root_cluster b else entry_at b i (last cs) = Next c"
    and free: "\<forall>s k. free = Some (s, k) \<longrightarrow> root_sector b i s"
  shows "root_sector b i s \<and> i' = i"
  using run pre free
proof (induction "unat (clusters b) - seen" arbitrary: c seen free cs rule: less_induct)
  case less
  obtain first where first: "sector_of_cluster b c = Some first"
    using less.prems(1) by (cases "sector_of_cluster b c") (simp_all add: directory_slot_loop.simps)
  then have v: "valid_cluster b c" using sector_of_cluster_None [OF ok, of c] by auto
  have fol: "follow b i (root_cluster b) (Suc seen) = Some (cs @ [c])"
    using follow_snoc [OF less.prems(2) v] less.prems(3) by simp
  have mine: "root_sector b i n" if "n \<in> (\<lambda>k. first + k) ` set (cluster_offsets b)" for n
  proof -
    have "root_cluster_of b i c" unfolding root_cluster_of_def using fol by (metis in_set_conv_decomp)
    moreover have "in_cluster b c n" using that cluster_sector(2) [OF ok first] by (auto simp: cluster_offsets_def)
    ultimately show ?thesis by (auto simp: root_sector_def)
  qed
  obtain r t where r: "dir_sectors S name first (cluster_offsets b) free i = (Inr r, t)"
    using less.prems(1) first by (subst (asm) directory_slot_loop.simps) (auto simp: io_bind_Inr_iff)
  have t: "t = i" using r dir_sectors_state [of name first "cluster_offsets b" free i] unfolding S_def by (metis snd_conv)
  note dw = dir_sectors_where [OF r [unfolded S_def]]
  show ?case
  proof (cases r)
    case (Inl g)
    then have "g = (s, k, ex)" "i' = i" using less.prems(1) first r t by (subst (asm) directory_slot_loop.simps, simp)+
    then show ?thesis using Inl dw mine less.prems(4) by auto
  next
    case (Inr free')
    have free': "\<forall>s k. free' = Some (s, k) \<longrightarrow> root_sector b i s" using Inr dw mine less.prems(4) by auto
    have "(if seen + 1 > unat (clusters b) then io_fail (Reading ChainLoops)
       else io_bind (io_map_err Reading (next_cluster S b c)) (\<lambda>e.
         case e of Next nxt \<Rightarrow> directory_slot_loop S b name nxt (seen + 1) free'
         | _ \<Rightarrow> (case free' of Some (sector, at) \<Rightarrow> io_ret (sector, at, None) | None \<Rightarrow> io_fail DirectoryFull))) i =
      (Inr (s, k, ex), i')"
      using less.prems(1) first r t Inr by (subst (asm) directory_slot_loop.simps) simp
    then have nb: "\<not> seen + 1 > unat (clusters b)" and
      e: "(case entry_at b i c of Next nxt \<Rightarrow> directory_slot_loop S b name nxt (seen + 1) free'
         | _ \<Rightarrow> (case free' of Some (sector, at) \<Rightarrow> io_ret (sector, at, None) | None \<Rightarrow> io_fail DirectoryFull)) i =
      (Inr (s, k, ex), i')"
      using v by (auto simp: S_def next_cluster_image [OF ok] io_map_err_def io_bind_def split: if_splits)
    show ?thesis
    proof (cases "entry_at b i c")
      case (Next nxt)
      then show ?thesis using e nb fol free' less.hyps [of "seen + 1" nxt free' "cs @ [c]"] by simp
    qed (use e free' in \<open>auto split: option.splits\<close>)
  qed
qed

lemma directory_slot_root:
  assumes "boot_ok b" "directory_slot image_sectors b name i = (Inr (s, k, ex), i')"
  shows "root_sector b i s" "i' = i"
  using directory_slot_where [OF assms(1) assms(2) [unfolded directory_slot_def], of "[]"] by auto

section \<open>Writing a file\<close>

lemma copy_at_slot: "k + length e \<le> length bs \<Longrightarrow> take (length e) (drop k (copy_at bs k e)) = e"
  by (simp add: copy_at_def)

lemma needed_clusters: "boot_ok b \<Longrightarrow>
    (n + unat (cluster_bytes b) - 1) div unat (cluster_bytes b) = clusters_for b n"
  by (simp add: cluster_bytes_exact clusters_for_def)

lemma small_file:
  assumes "boot_ok b" "clusters_for b n \<le> MAX_FILE_CLUSTERS"
  shows "n < 2 ^ 32"
proof -
  have "n \<le> clusters_for b n * (512 * unat (sectors_per_cluster b))" by (rule clusters_for_ge [OF assms(1)])
  also have "\<dots> \<le> 64 * (512 * 256)"
    using assms(2) unat_u8_bound [of "sectors_per_cluster b"]
    by (intro mult_mono) (auto simp: MAX_FILE_CLUSTERS_def)
  finally show ?thesis by simp
qed

text \<open>The steps of a write that succeeds, one image after the other.\<close>

lemma write_file_steps:
  assumes ok: "boot_ok b" "image_ok i"
    and run: "write_file (image_sectors :: (image, 'e) sectors) b name bs i = (Inr e, i')"
  obtains enc sector k ex chain i1 i2 i3 i4 r where "encode_name name = Some enc"
    "directory_slot (image_sectors :: (image, 'e) sectors) b enc i = (Inr (sector, k, ex), i)"
    "chain = take (clusters_for b (length bs)) (free_list b i)" "length chain = clusters_for b (length bs)"
    "clusters_for b (length bs) \<le> MAX_FILE_CLUSTERS"
    "write_clusters_from (image_sectors :: (image, 'e) sectors) b 0 chain bs i = (Inr (), i1)"
    "link_chain (image_sectors :: (image, 'e) sectors) b chain i1 = (Inr (), i2)"
    "i3 = i2(sector := copy_at (i2 sector) k (new_entry_bytes enc (case chain of c # _ \<Rightarrow> c | [] \<Rightarrow> 0) (length bs)))"
    "i4 = i3 \<or> (\<exists>c. free_chain_loop (image_sectors :: (image, 'e) sectors) b chain c 0 i3 = (r, i4))"
    "update_fs_info (image_sectors :: (image, 'e) sectors) b i4 = (Inr (), i')"
    "decode_slot (take 32 (drop k (i3 sector))) = SlotEntry e"
proof -
  let ?S = "image_sectors :: (image, 'e) sectors"
  obtain enc where enc: "encode_name name = Some enc" using run by (cases "encode_name name") (auto simp: write_file_def)
  note run' = run [unfolded write_file_def enc option.case Let_def needed_clusters [OF ok(1)]]
  from run' obtain sector k ex j where slot: "directory_slot ?S b enc i = (Inr (sector, k, ex), j)"
    by (auto simp: io_bind_Inr_iff)
  have j: "j = i" by (rule directory_slot_root(2) [OF ok(1) slot])
  note free = free_clusters_image [where 'e = 'e, OF ok(1), of "clusters_for b (length bs)" i]
  define chain where "chain = take (clusters_for b (length bs)) (free_list b i)"
  from run' slot j obtain i1 where st: "free_clusters ?S b (clusters_for b (length bs)) i = (Inr chain, i)"
    "write_clusters ?S b chain bs i = (Inr (), i1)"
    using free by (auto simp: io_bind_Inr_iff chain_def split: if_splits)
  have len: "length chain = clusters_for b (length bs)" "clusters_for b (length bs) \<le> MAX_FILE_CLUSTERS"
    using st(1) free by (auto simp: chain_def split: if_splits)
  from run' slot j st obtain i2 where i2: "link_chain ?S b chain i1 = (Inr (), i2)"
    by (auto simp: io_bind_Inr_iff split: if_splits)
  let ?first = "case chain of c # _ \<Rightarrow> c | [] \<Rightarrow> 0"
  define i3 where "i3 = i2(sector := copy_at (i2 sector) k (new_entry_bytes enc ?first (length bs)))"
  have we: "write_entry ?S sector k (new_entry_bytes enc ?first (length bs)) i2 = (Inr (i3 sector), i3)"
    by (simp add: write_entry_def i3_def Let_def)
  let ?free = "case ex of Some e \<Rightarrow> (if de_first_cluster e \<noteq> 0 then free_chain ?S b (de_first_cluster e) chain else io_ret ())
    | None \<Rightarrow> io_ret ()"
  from run' slot j st i2 we obtain i4 where i4: "?free i3 = (Inr (), i4)"
    "update_fs_info ?S b i4 = (Inr (), i')" "decode_slot (take 32 (drop k (i3 sector))) = SlotEntry e"
    by (auto simp: io_bind_Inr_iff DIRECTORY_ENTRY_BYTES_def split: if_splits slot.splits)
  have "i4 = i3 \<or> (\<exists>c. free_chain_loop ?S b chain c 0 i3 = (Inr (), i4))"
    using i4(1) by (auto simp: free_chain_def split: option.splits if_splits)
  then show ?thesis
    using that [OF enc slot [unfolded j] chain_def len st(2) [unfolded write_clusters_def] i2 i3_def _ i4(2,3)] by blast
qed

lemma fat_sector_area:
  assumes "boot_ok b" "valid_cluster b c"
  shows "fat_area b (fat_sector b 0 c)"
proof -
  have "unat (0 :: u32) < unat (fat_count b)" using assms(1) by (simp add: boot_ok_def)
  from fat_sector_exact [OF assms this] show ?thesis by (simp add: fat_area_def)
qed

lemma in_cluster_not_fat: "boot_ok b \<Longrightarrow> in_cluster b c n \<Longrightarrow> \<not> fat_area b n \<and> unat (reserved_sectors b) \<le> unat n"
proof -
  assume ok: "boot_ok b" and n: "in_cluster b c n"
  then obtain f where f: "sector_of_cluster b c = Some f" "unat f \<le> unat n" by (auto simp: in_cluster_def)
  then have "valid_cluster b c" using sector_of_cluster_None [OF ok, of c] by auto
  then obtain g where "sector_of_cluster b c = Some g" "unat g = data_start b + (unat c - 2) * unat (sectors_per_cluster b)"
    using sector_of_cluster_Some [OF ok] by metis
  then have "data_start b \<le> unat n" using f by simp
  then show ?thesis by (auto simp: fat_area_def data_start_def)
qed

lemma entry_at_cong: "i' (fat_sector b 0 c) = i (fat_sector b 0 c) \<Longrightarrow> entry_at b i' c = entry_at b i c"
  by (simp add: entry_at_def)

lemma cluster_data_cong:
  assumes "boot_ok b" "valid_cluster b c" "\<And>n. in_cluster b c n \<Longrightarrow> i' n = i n"
  shows "cluster_data b i' c = cluster_data b i c"
proof -
  obtain first where f: "sector_of_cluster b c = Some first" using sector_of_cluster_Some [OF assms(1,2)] by metis
  show ?thesis
    unfolding cluster_data_def f option.sel cluster_offsets_def
    using assms(3) cluster_sector(2) [OF assms(1) f] by (intro arg_cong [where f = concat] map_cong) auto
qed

text \<open>The new chain and its data survive the last three steps of a write.\<close>

lemma write_tail_keeps:
  assumes ok: "boot_ok b" "image_ok i2" and v: "valid_cluster b c" "c \<in> set chain"
    and i3: "i3 = i2(sector := x)" "length x = 512" "in_cluster b d sector" "d \<noteq> c"
    and i4: "i4 = i3 \<or> (\<exists>c. free_chain_loop (image_sectors :: (image, 'e) sectors) b chain c 0 i3 = (r, i4))"
    and i': "update_fs_info (image_sectors :: (image, 'e) sectors) b i4 = (Inr (), i')"
  shows "entry_at b i' c = entry_at b i2 c" "\<And>n. in_cluster b c n \<Longrightarrow> i' n = i2 n" "image_ok i'"
proof -
  have ok3: "image_ok i3" using ok(2) i3(1,2) by (simp add: image_ok_def)
  have k4: "image_ok i4" "entry_at b i4 c = entry_at b i3 c" "\<And>n. \<not> fat_area b n \<Longrightarrow> i4 n = i3 n"
    using i4 free_chain_image [where 'e = 'e, OF ok(1) ok3, of chain _ 0 r i4] v ok3 by auto
  note k5 = update_fs_info_image [OF k4(1) i']
  have fs: "fat_area b (fat_sector b 0 c)" by (rule fat_sector_area [OF ok(1) v(1)])
  have "\<not> fat_area b sector" using in_cluster_not_fat [OF ok(1) i3(3)] by simp
  then have "fat_sector b 0 c \<noteq> sector" using fs by auto
  then have "entry_at b i3 c = entry_at b i2 c" by (intro entry_at_cong) (simp add: i3(1))
  moreover have "entry_at b i' c = entry_at b i4 c" using k5(3) fs by (intro entry_at_cong) (simp add: fat_area_def)
  ultimately show "entry_at b i' c = entry_at b i2 c" using k4(2) by simp
  show "i' n = i2 n" if "in_cluster b c n" for n
  proof -
    have "n \<noteq> sector" using in_cluster_unique [OF ok(1) that] i3(3,4) by auto
    then show ?thesis using in_cluster_not_fat [OF ok(1) that] k5(3) k4(3) by (simp add: i3(1))
  qed
  show "image_ok i'" by (rule k5(2))
qed

lemma write_file_contents:
  assumes ok: "boot_ok b" "image_ok i" and small: "unat (clusters b) + 2 \<le> 0x0FFFFFF7"
    and root: "\<And>c. root_cluster_of b i c \<Longrightarrow> entry_at b i c \<noteq> Free"
    and run: "write_file (image_sectors :: (image, 'e) sectors) b name bs i = (Inr e, i')"
  shows "file_contents b i' e = Some bs \<and> unat (de_size e) = length bs \<and> \<not> is_directory e"
proof -
  obtain enc sector k ex chain i1 i2 i3 i4 r where st: "encode_name name = Some enc"
    "directory_slot (image_sectors :: (image, 'e) sectors) b enc i = (Inr (sector, k, ex), i)"
    "chain = take (clusters_for b (length bs)) (free_list b i)" "length chain = clusters_for b (length bs)"
    "clusters_for b (length bs) \<le> MAX_FILE_CLUSTERS"
    "write_clusters_from (image_sectors :: (image, 'e) sectors) b 0 chain bs i = (Inr (), i1)"
    "link_chain (image_sectors :: (image, 'e) sectors) b chain i1 = (Inr (), i2)"
    "i3 = i2(sector := copy_at (i2 sector) k (new_entry_bytes enc (case chain of c # _ \<Rightarrow> c | [] \<Rightarrow> 0) (length bs)))"
    "i4 = i3 \<or> (\<exists>c. free_chain_loop (image_sectors :: (image, 'e) sectors) b chain c 0 i3 = (r, i4))"
    "update_fs_info (image_sectors :: (image, 'e) sectors) b i4 = (Inr (), i')"
    "decode_slot (take 32 (drop k (i3 sector))) = SlotEntry e"
    by (rule write_file_steps [OF ok run])
  let ?new = "new_entry_bytes enc (case chain of c # _ \<Rightarrow> c | [] \<Rightarrow> 0) (length bs)"
  have "set chain \<subseteq> set (free_list b i)" unfolding st(3) by (rule set_take_subset)
  then have v: "\<forall>c \<in> set chain. valid_cluster b c" and free: "\<forall>c \<in> set chain. entry_at b i c = Free"
    using free_list_spec(1) [OF ok(1), of i] by auto
  have dist: "distinct chain" unfolding st(3) using free_list_spec(2) [OF ok(1), of i] by (rule distinct_take)
  have i1: "image_ok i1" "\<And>x first k. x < length chain \<Longrightarrow> sector_of_cluster b (chain ! x) = Some first \<Longrightarrow>
      k < unat (sectors_per_cluster b) \<Longrightarrow> 512 * (x * unat (sectors_per_cluster b) + k) < length bs \<Longrightarrow>
      i1 (first + of_nat k) = file_sector bs (x * unat (sectors_per_cluster b) + k)"
    using write_clusters_image [where 'e = 'e, OF ok v dist, of 0 bs] st(6) by auto
  have i2: "image_ok i2" "\<And>x. x < length chain \<Longrightarrow> entry_at b i2 (chain ! x) =
      (if Suc x < length chain then decode_entry (chain ! Suc x) else End)" "\<And>n. \<not> fat_area b n \<Longrightarrow> i2 n = i1 n"
    using link_chain_image [where 'e = 'e, OF ok(1) i1(1) v dist] st(7) by auto
  note enc32 = decode_new_entry [OF st(1) small_file [OF ok(1) st(5)], of "case chain of c # _ \<Rightarrow> c | [] \<Rightarrow> 0"]
  have k: "k + length ?new \<le> length (i2 sector)"
    using directory_slot_offset [OF ok(2) st(2)] enc32(1) i2(1) by (simp add: image_ok_def)
  then have "take 32 (drop k (i3 sector)) = ?new"
    using copy_at_slot [OF k] enc32(1) unfolding st(8) by (simp only: fun_upd_same)
  then have e: "de_first_cluster e = (case chain of c # _ \<Rightarrow> c | [] \<Rightarrow> 0)" "unat (de_size e) = length bs" "\<not> is_directory e"
    using enc32(2) st(11) by auto
  obtain d where d: "root_cluster_of b i d" "in_cluster b d sector"
    using directory_slot_root(1) [OF ok(1) st(2)] by (auto simp: root_sector_def)
  have len3: "length (copy_at (i2 sector) k ?new) = 512" using k i2(1) by (simp add: image_ok_def)
  have keep: "entry_at b i' c = entry_at b i2 c" "\<And>n. in_cluster b c n \<Longrightarrow> i' n = i2 n" "image_ok i'" if "c \<in> set chain" for c
    using write_tail_keeps [where 'e = 'e, OF ok(1) i2(1) _ that st(8) len3 d(2) _ st(9,10)] v free root [OF d(1)] that by auto
  have "file_contents b i' e = Some bs"
  proof (cases "chain = []")
    case True
    have "clusters_for b (length bs) = 0" using st(4) True by simp
    then have "length bs \<le> 0" using clusters_for_ge [OF ok(1), of "length bs"] by simp
    then show ?thesis using e(2) by (simp add: file_contents_def clusters_for_0)
  next
    case False
    have nx: "entry_at b i' (chain ! x) = Next (chain ! Suc x)" if "Suc x < length chain" for x
    proof -
      have "valid_cluster b (chain ! Suc x)" using v that by simp
      then have "decode_entry (chain ! Suc x) = Next (chain ! Suc x)"
        using small by (intro decode_entry_Next) (auto simp: valid_cluster_def)
      then show ?thesis using keep(1) [of "chain ! x"] i2(2) [of x] that by simp
    qed
    have fol: "follow b i' (de_first_cluster e) (clusters_for b (length bs)) = Some chain"
      using follow_linked [OF False v nx] False unfolding st(4) [symmetric] e(1) by (cases chain) auto
    have data: "cluster_data b i' c = cluster_data b i1 c" if "c \<in> set chain" for c
      using that v keep(2) [OF that] i2(3) in_cluster_not_fat [OF ok(1)] by (intro cluster_data_cong [OF ok(1)]) auto
    have "take (length bs) (concat (map (cluster_data b i1) chain)) = bs"
      using clusters_for_ge [OF ok(1), of "length bs"] i1 unfolding st(4) [symmetric]
      by (intro written_data [OF ok(1) _ v]) auto
    moreover have same: "map (cluster_data b i') chain = map (cluster_data b i1) chain" using data by (rule map_cong [OF refl])
    ultimately show ?thesis by (simp only: file_contents_def e(2) fol option.map same)
  qed
  then show ?thesis using e(2,3) by simp
qed

end
