(* ===== verification/Fat_Crash.thy ===== *)
theory Fat_Crash
  imports Fat_Write
begin

text \<open>
  Writes that stop half way. The order of the steps of \<open>write_file\<close> is what keeps a volume readable:
  data and chain go into clusters nothing names, and one sector makes the file appear. Stated over
  any device that follows the interface \<open>medium\<close>, failing wherever it likes: the chain and the bytes
  of every other file are what they were, whatever the write answers.
\<close>

section \<open>What a write may touch\<close>

text \<open>The clusters a chain names, as far as it can be followed.\<close>

definition chain_of :: "boot_sector \<Rightarrow> image \<Rightarrow> u32 \<Rightarrow> u32 set" where
  "chain_of b i c = {d. \<exists>n cs. follow b i c n = Some cs \<and> d \<in> set cs}"

text \<open>
  The frame of a write: the protected clusters \<open>C\<close> keep entry and data; the clusters \<open>Old\<close> of the file
  being replaced keep their entry until they are freed or belong to the new chain.
\<close>

definition frame :: "boot_sector \<Rightarrow> image \<Rightarrow> u32 set \<Rightarrow> u32 set \<Rightarrow> u32 set \<Rightarrow> image \<Rightarrow> bool" where
  "frame b i0 C Old new i \<longleftrightarrow>
     (\<forall>c \<in> C. entry_at b i c = entry_at b i0 c \<and> (\<forall>n. in_cluster b c n \<longrightarrow> i n = i0 n)) \<and>
     (\<forall>c \<in> Old. valid_cluster b c \<longrightarrow> c \<in> new \<or> entry_at b i c = entry_at b i0 c \<or> entry_at b i c = Free)"

lemma frame_refl [simp]: "frame b i0 C Old new i0"
  by (simp add: frame_def)

lemma entry_put_entry:
  assumes "boot_ok b" "image_ok i" "valid_cluster b c" "valid_cluster b d" "unat t < unat (fat_count b)"
  shows "entry_at b (put_entry b v c t i) d = (if t = 0 \<and> d = c then decode_entry v else entry_at b i d)"
proof -
  have "unat (0 :: u32) < unat (fat_count b)" using assms(1) by (simp add: boot_ok_def)
  from raw_put_entry [OF assms this, of v] show ?thesis by (auto simp: entry_at_raw)
qed

lemma frame_put_entry:
  assumes ok: "boot_ok b" "image_ok i" and C: "\<forall>c \<in> C. valid_cluster b c" and c: "valid_cluster b c" "c \<notin> C"
    and v: "c \<in> new \<or> decode_entry v = Free \<or> c \<notin> Old" and t: "unat t < unat (fat_count b)"
    and f: "frame b i0 C Old new i"
  shows "frame b i0 C Old new (put_entry b v c t i)"
proof -
  note e = entry_put_entry [OF ok c(1) _ t]
  have "put_entry b v c t i n = i n" if "in_cluster b d n" for d n
  proof -
    have "fat_area b (fat_sector b t c)" using fat_sector_exact [OF ok(1) c(1) t] by (simp add: fat_area_def)
    then show ?thesis using in_cluster_not_fat [OF ok(1) that] by (auto simp: put_entry_def)
  qed
  moreover have "entry_at b (put_entry b v c t i) d = entry_at b i d" if "d \<in> C" for d
    using e [of d] C c(2) that by auto
  moreover have "d \<in> new \<or> entry_at b (put_entry b v c t i) d = entry_at b i0 d \<or> entry_at b (put_entry b v c t i) d = Free"
    if "d \<in> Old" "valid_cluster b d" for d
    using e [OF that(2)] f that v unfolding frame_def by auto
  ultimately show ?thesis using f unfolding frame_def by auto
qed

lemma frame_other_sector:
  assumes ok: "boot_ok b" and C: "\<forall>c \<in> C. valid_cluster b c"
    and n: "\<not> fat_area b n" "\<And>c. in_cluster b c n \<Longrightarrow> c \<notin> C" and f: "frame b i0 C Old new i"
  shows "frame b i0 C Old new (i(n := x))"
proof -
  have e: "entry_at b (i(n := x)) c = entry_at b i c" if "valid_cluster b c" for c
    using fat_sector_area [OF ok that] n(1) by (intro entry_at_cong) auto
  have "(i(n := x)) m = i m" if "c \<in> C" "in_cluster b c m" for c m using n(2) that by auto
  then have "entry_at b (i(n := x)) c = entry_at b i0 c \<and> (\<forall>m. in_cluster b c m \<longrightarrow> (i(n := x)) m = i0 m)"
    if "c \<in> C" for c
    using f C e that unfolding frame_def by simp
  moreover have "c \<in> new \<or> entry_at b (i(n := x)) c = entry_at b i0 c \<or> entry_at b (i(n := x)) c = Free"
    if "c \<in> Old" "valid_cluster b c" for c
    using f e that unfolding frame_def by simp
  ultimately show ?thesis unfolding frame_def by blast
qed

lemma chain_of_next:
  assumes "d \<in> chain_of b i c" "entry_at b i d = Next d'" "valid_cluster b d'"
  shows "d' \<in> chain_of b i c"
proof -
  obtain n cs where cs: "follow b i c n = Some cs" "d \<in> set cs" using assms(1) by (auto simp: chain_of_def)
  then obtain k where k: "k < length cs" "cs ! k = d" by (auto simp: in_set_conv_nth)
  have n: "length cs = n" by (rule follow_length [OF cs(1)])
  have "follow b i c (Suc k) = Some (take (Suc k) cs)" using follow_prefix [OF cs(1), of "Suc k"] k n by simp
  moreover have "last (take (Suc k) cs) = d" using k by (simp add: take_Suc_conv_app_nth)
  ultimately have "follow b i c (Suc (Suc k)) = Some (take (Suc k) cs @ [d'])"
    using assms(2,3) by (intro follow_snoc) simp_all
  moreover have "d' \<in> set (take (Suc k) cs @ [d'])" by simp
  ultimately show ?thesis unfolding chain_of_def by blast
qed

lemma chain_of_start: "valid_cluster b c \<Longrightarrow> c \<in> chain_of b i c"
  unfolding chain_of_def by (auto intro!: exI [of _ "Suc 0"])

section \<open>Triples over a device\<close>

context medium
begin

text \<open>From a medium in \<open>P\<close>, an answer leaves it in \<open>Q\<close> and an error leaves it in \<open>E\<close>.\<close>

definition triple :: "(image \<Rightarrow> bool) \<Rightarrow> ('s, 'f, 'a) io \<Rightarrow> ('a \<Rightarrow> image \<Rightarrow> bool) \<Rightarrow> (image \<Rightarrow> bool) \<Rightarrow> bool" where
  "triple P m Q E \<longleftrightarrow> (\<forall>s r s'. ok s \<longrightarrow> P (img s) \<longrightarrow> m s = (r, s') \<longrightarrow>
     ok s' \<and> (case r of Inl e \<Rightarrow> E (img s') | Inr x \<Rightarrow> Q x (img s')))"

lemma triple_ret: "(\<And>i. P i \<Longrightarrow> Q x i) \<Longrightarrow> triple P (io_ret x) Q E"
  by (simp add: triple_def)

lemma triple_Pair: "(\<And>i. P i \<Longrightarrow> Q x i) \<Longrightarrow> triple P (Pair (Inr x)) Q E"
  by (simp add: triple_def)

lemma triple_Pair_Inl: "(\<And>i. P i \<Longrightarrow> E i) \<Longrightarrow> triple P (Pair (Inl e)) Q E"
  by (simp add: triple_def)

lemma triple_fail: "(\<And>i. P i \<Longrightarrow> E i) \<Longrightarrow> triple P (io_fail e) Q E"
  by (simp add: triple_def)

lemma triple_bind:
  assumes "triple P m Q E" "\<And>x. triple (Q x) (f x) R E"
  shows "triple P (io_bind m f) R E"
  unfolding triple_def
proof (intro allI impI)
  fix s r s' assume s: "ok s" "P (img s)" and "io_bind m f s = (r, s')"
  from this(3) show "ok s' \<and> (case r of Inl e \<Rightarrow> E (img s') | Inr x \<Rightarrow> R x (img s'))"
  proof (cases rule: io_bind_cases)
    case (err e)
    then show ?thesis using assms(1) s by (fastforce simp: triple_def)
  next
    case (ok x t)
    note x = ok
    have "ok t" "Q x (img t)" using assms(1) s x(1) by (fastforce simp: triple_def)+
    then show ?thesis using assms(2) [of x] x(2) by (fastforce simp: triple_def)
  qed
qed

lemma triple_map_err: "triple P m Q E \<Longrightarrow> triple P (io_map_err g m) Q E"
  unfolding triple_def
proof (intro allI impI)
  fix s r s' assume t: "\<forall>s r s'. ok s \<longrightarrow> P (img s) \<longrightarrow> m s = (r, s') \<longrightarrow>
     ok s' \<and> (case r of Inl e \<Rightarrow> E (img s') | Inr x \<Rightarrow> Q x (img s'))"
    and s: "ok s" "P (img s)" "io_map_err g m s = (r, s')"
  then obtain r0 where r0: "m s = (r0, s')" "r = map_err g r0" by (auto simp: io_map_err_def split: prod.splits)
  then have "ok s' \<and> (case r0 of Inl e \<Rightarrow> E (img s') | Inr x \<Rightarrow> Q x (img s'))" using t s(1,2) by blast
  then show "ok s' \<and> (case r of Inl e \<Rightarrow> E (img s') | Inr x \<Rightarrow> Q x (img s'))" using r0(2) by (cases r0) auto
qed

lemma triple_weaken:
  assumes "triple P m Q E" "\<And>i. P' i \<Longrightarrow> P i" "\<And>x i. Q x i \<Longrightarrow> Q' x i" "\<And>i. E i \<Longrightarrow> E' i"
  shows "triple P' m Q' E'"
  unfolding triple_def
proof (intro allI impI)
  fix s r s' assume s: "ok s" "P' (img s)" "m s = (r, s')"
  have "ok s' \<and> (case r of Inl e \<Rightarrow> E (img s') | Inr x \<Rightarrow> Q x (img s'))"
    using assms(1) s(1,3) assms(2) [OF s(2)] unfolding triple_def by blast
  then show "ok s' \<and> (case r of Inl e \<Rightarrow> E' (img s') | Inr x \<Rightarrow> Q' x (img s'))"
    using assms(3,4) by (cases r) auto
qed

lemma triple_wread: "triple P (wread S n) (\<lambda>bs i. P i \<and> image_ok i \<and> bs = i n) P"
  unfolding wread_def vread_def
proof (intro triple_map_err)
  show "triple P (read_sector S n) (\<lambda>bs i. P i \<and> image_ok i \<and> bs = i n) P"
    unfolding triple_def
  proof (intro allI impI)
    fix s r s' assume s: "ok s" "P (img s)" "read_sector S n s = (r, s')"
    from read_law [OF s(1,3)] show "ok s' \<and> (case r of Inl e \<Rightarrow> P (img s') | Inr bs \<Rightarrow> P (img s') \<and> image_ok (img s') \<and> bs = img s' n)"
      using s(2) img_ok [of s'] by (auto split: sum.splits)
  qed
qed

lemma triple_wwrite:
  assumes "\<And>i. P i \<Longrightarrow> image_ok i \<Longrightarrow> length bs = 512 \<and> E i \<and> E (i(n := bs))"
  shows "triple P (wwrite S n bs) (\<lambda>_. E) E"
  unfolding wwrite_def
proof (intro triple_map_err)
  show "triple P (write_sector S n bs) (\<lambda>_. E) E"
    unfolding triple_def
  proof (intro allI impI)
    fix s r s' assume s: "ok s" "P (img s)" "write_sector S n bs s = (r, s')"
    note a = assms [OF s(2) img_ok [OF s(1)]]
    from write_law [OF s(1,3)] show "ok s' \<and> (case r of Inl e \<Rightarrow> E (img s') | Inr _ \<Rightarrow> E (img s'))"
      using a by (auto split: sum.splits)
  qed
qed

text \<open>Read-only operations keep whatever holds, and answer what they answer over the image.\<close>

lemma triple_sim:
  assumes "sim D m m'" "triple P m (\<lambda>_. P) P"
  shows "triple P m (\<lambda>x i'. \<exists>i. P i \<and> image_ok i \<and> m' i = (Inr x, i')) P"
  unfolding triple_def
proof (intro allI impI)
  fix s r s' assume s: "ok s" "P (img s)" "m s = (r, s')"
  have "ok s' \<and> (case r of Inl e \<Rightarrow> P (img s') | Inr x \<Rightarrow> P (img s'))" using assms(2) s unfolding triple_def by blast
  then have t: "ok s'" "P (img s')" by (auto split: sum.splits)
  moreover have "m' (img s) = (Inr x, img s')" if "r = Inr x" for x using assms(1) s that by (fastforce simp: sim_def)
  ultimately show "ok s' \<and> (case r of Inl e \<Rightarrow> P (img s') | Inr x \<Rightarrow> \<exists>i. P i \<and> image_ok i \<and> m' i = (Inr x, img s'))"
    using s(2) img_ok [OF s(1)] by (auto split: sum.splits)
qed

lemma triple_read_sector: "triple P (read_sector S n) (\<lambda>_. P) P"
  unfolding triple_def
proof (intro allI impI)
  fix s r s' assume s: "ok s" "P (img s)" "read_sector S n s = (r, s')"
  from read_law [OF s(1,3)] show "ok s' \<and> (case r of Inl e \<Rightarrow> P (img s') | Inr _ \<Rightarrow> P (img s'))"
    using s(2) by (auto split: sum.splits)
qed

lemma triple_vread: "triple P (vread S n) (\<lambda>_. P) P"
  unfolding vread_def by (rule triple_map_err [OF triple_read_sector])

lemma triple_next_cluster: "triple P (next_cluster S b c) (\<lambda>_. P) P"
  unfolding next_cluster_def Let_def
  by (auto intro!: triple_fail triple_bind [OF triple_vread] triple_ret)

lemma triple_wread_only: "triple P (wread S n) (\<lambda>_. P) P"
  unfolding wread_def by (intro triple_map_err triple_vread)

lemma triple_dir_sectors: "triple P (dir_sectors S name first ks free) (\<lambda>_. P) P"
proof (induction ks arbitrary: free)
  case Nil
  then show ?case by (auto intro: triple_Pair)
next
  case (Cons k ks)
  show ?case unfolding dir_sectors.simps
    by (rule triple_bind [OF triple_wread_only]) (auto intro!: triple_ret Cons split: sum.splits)
qed

lemma triple_directory_slot: "triple P (directory_slot S b name) (\<lambda>_. P) P"
proof -
  have "triple P (directory_slot_loop S b name c seen free) (\<lambda>_. P) P" for c seen free
  proof (induction "unat (clusters b) - seen" arbitrary: c seen free rule: less_induct)
    case less
    have rest: "triple P (if seen + 1 > unat (clusters b) then io_fail (Reading ChainLoops)
       else io_bind (io_map_err Reading (next_cluster S b c)) (\<lambda>e.
         case e of Next nxt \<Rightarrow> directory_slot_loop S b name nxt (seen + 1) free'
         | _ \<Rightarrow> (case free' of Some (sector, at) \<Rightarrow> io_ret (sector, at, None) | None \<Rightarrow> io_fail DirectoryFull))) (\<lambda>_. P) P"
      for free'
    proof (cases "seen + 1 > unat (clusters b)")
      case False
      have "triple P (case e of Next nxt \<Rightarrow> directory_slot_loop S b name nxt (seen + 1) free'
         | _ \<Rightarrow> (case free' of Some (sector, at) \<Rightarrow> io_ret (sector, at, None) | None \<Rightarrow> io_fail DirectoryFull)) (\<lambda>_. P) P" for e
        using less [of "seen + 1"] False
        by (cases e; cases free') (auto intro!: triple_ret triple_fail)
      then show ?thesis using False
        by (simp only: if_False triple_bind [OF triple_map_err [OF triple_next_cluster]])
    qed (auto intro: triple_fail)
    show ?case
    proof (cases "sector_of_cluster b c")
      case (Some first)
      have "triple P (case r of Inl found \<Rightarrow> io_ret found | Inr free' \<Rightarrow>
          if seen + 1 > unat (clusters b) then io_fail (Reading ChainLoops)
          else io_bind (io_map_err Reading (next_cluster S b c)) (\<lambda>e.
            case e of Next nxt \<Rightarrow> directory_slot_loop S b name nxt (seen + 1) free'
            | _ \<Rightarrow> (case free' of Some (sector, at) \<Rightarrow> io_ret (sector, at, None) | None \<Rightarrow> io_fail DirectoryFull)))
          (\<lambda>_. P) P" for r :: "found_slot + (u32 \<times> nat) option"
        using rest by (cases r) (auto intro: triple_ret)
      then show ?thesis
        by (subst directory_slot_loop.simps) (simp only: Some option.case triple_bind [OF triple_dir_sectors])
    qed (auto simp: directory_slot_loop.simps intro: triple_fail)
  qed
  then show ?thesis by (simp add: directory_slot_def)
qed

lemma triple_free_clusters: "triple P (free_clusters S b n) (\<lambda>_. P) P"
proof -
  have "triple P (free_loop S b n c found) (\<lambda>_. P) P" for c found
  proof (induction "unat (FIRST_DATA_CLUSTER + clusters b) - unat c" arbitrary: c found rule: less_induct)
    case less
    show ?case
    proof (cases "length found < n \<and> c < FIRST_DATA_CLUSTER + clusters b")
      case True
      have "triple P (free_loop S b n (c + 1) found') (\<lambda>_. P) P" for found'
        using True by (intro less next_cluster_closer) simp
      then have "triple P (io_bind (io_map_err Reading (next_cluster S b c)) (\<lambda>e.
          free_loop S b n (c + 1) (if e = Free then found @ [c] else found))) (\<lambda>_. P) P"
        by (intro triple_bind [OF triple_map_err [OF triple_next_cluster]])
      then show ?thesis using True by (subst free_loop.simps) simp
    qed (auto simp: free_loop.simps intro: triple_ret)
  qed
  then show ?thesis unfolding free_clusters_def
    by (auto intro!: triple_fail triple_ret triple_bind [where Q = "\<lambda>_. P"])
qed

text \<open>The steps that write, each within the frame.\<close>

lemma triple_set_next_cluster:
  assumes ok: "boot_ok b" and C: "\<forall>c \<in> C. valid_cluster b c" "c \<notin> C"
    and v: "c \<in> new \<or> decode_entry v = Free \<or> c \<notin> Old"
  shows "triple (frame b i0 C Old new) (set_next_cluster S b c v) (\<lambda>_. frame b i0 C Old new) (frame b i0 C Old new)"
proof (cases "valid_cluster b c")
  case False
  then have "c < FIRST_DATA_CLUSTER \<or> c \<ge> FIRST_DATA_CLUSTER + clusters b" using cluster_checks [OF ok] by blast
  then show ?thesis by (auto simp: set_next_cluster_def intro: triple_fail)
next
  case True
  let ?F = "frame b i0 C Old new" and ?k = "unat (c mod 128) * 4"
  have "triple ?F (set_in_tables S b c v ts) (\<lambda>_. ?F) ?F" if "\<forall>t \<in> set ts. unat t < unat (fat_count b)" for ts
    using that
  proof (induction ts)
    case Nil
    then show ?case by (auto intro: triple_Pair)
  next
    case (Cons t ts)
    let ?n = "fat_sector b t c"
    have t: "unat t < unat (fat_count b)" using Cons.prems by simp
    have put: "length (set_entry_bytes (i ?n) ?k v) = 512 \<and> ?F i \<and> ?F (i(?n := set_entry_bytes (i ?n) ?k v))"
      if "?F i" "image_ok i" for i
      using frame_put_entry [OF ok that(2) C(1) True C(2) v t that(1)] put_entry_ok [OF that(2), of b v c t] that(1)
      by (auto simp: put_entry_def image_ok_def split: if_splits)
    have "triple ?F (io_bind (wread S ?n) (\<lambda>bytes. io_bind (wwrite S ?n (set_entry_bytes bytes ?k v)) (\<lambda>_.
        set_in_tables S b c v ts))) (\<lambda>_. ?F) ?F"
    proof (rule triple_bind [OF triple_wread])
      fix bs
      show "triple (\<lambda>i. ?F i \<and> image_ok i \<and> bs = i ?n) (io_bind (wwrite S ?n (set_entry_bytes bs ?k v)) (\<lambda>_.
          set_in_tables S b c v ts)) (\<lambda>_. ?F) ?F"
        by (rule triple_bind [OF triple_wwrite]) (use put Cons in auto)
    qed
    then show ?case using ok by (simp add: Let_def fat_sector_def)
  qed
  then have "triple ?F (set_in_tables S b c v (map of_nat [0..<unat (fat_count b)])) (\<lambda>_. ?F) ?F"
    using tables_list(1) [of b] by blast
  moreover have "\<not> (c < FIRST_DATA_CLUSTER \<or> c \<ge> FIRST_DATA_CLUSTER + clusters b)"
    using cluster_checks [OF ok] True by blast
  ultimately show ?thesis unfolding set_next_cluster_def by (simp only: if_False)
qed

lemma triple_link_chain:
  assumes ok: "boot_ok b" and C: "\<forall>c \<in> C. valid_cluster b c" "set chain \<inter> C = {}" "set chain \<subseteq> new"
  shows "triple (frame b i0 C Old new) (link_chain S b chain) (\<lambda>_. frame b i0 C Old new) (frame b i0 C Old new)"
  using C(2,3)
proof (induction chain)
  case Nil
  then show ?case by (auto intro: triple_Pair)
next
  case (Cons c chain)
  show ?case unfolding link_chain.simps
    by (rule triple_bind [OF triple_set_next_cluster]) (use ok C(1) Cons in auto)
qed

lemma triple_write_clusters:
  assumes ok: "boot_ok b" and C: "\<forall>c \<in> C. valid_cluster b c" "set chain \<inter> C = {}"
  shows "triple (frame b i0 C Old new) (write_clusters S b chain bs) (\<lambda>_. frame b i0 C Old new) (frame b i0 C Old new)"
proof -
  let ?F = "frame b i0 C Old new"
  have one: "triple ?F (write_cluster S pc j first ks bs) (\<lambda>_. ?F) ?F"
    if c: "sector_of_cluster b c = Some first" "c \<notin> C" and ks: "set ks \<subseteq> of_nat ` {..<unat (sectors_per_cluster b)}"
    for pc j first ks c
    using ks
  proof (induction ks)
    case Nil
    then show ?case by (auto intro: triple_Pair)
  next
    case (Cons k ks)
    obtain q where q: "k = of_nat q" "q < unat (sectors_per_cluster b)" using Cons.prems by auto
    note cs = cluster_sector [OF ok c(1) q(2), folded q(1)]
    have out: "d \<notin> C" if "in_cluster b d (first + k)" for d
      using in_cluster_unique [OF ok cs(2) that] c(2) by simp
    have keep: "?F (i(first + k := x))" if "?F i" for i x
      by (rule frame_other_sector [OF ok C(1) cs(3) out that])
    have IH: "triple ?F (write_cluster S pc j first ks bs) (\<lambda>_. ?F) ?F" using Cons by simp
    have "triple ?F (wwrite S (first + k) x) (\<lambda>_. ?F) ?F" if "length x = 512" for x
      by (rule triple_wwrite) (simp add: that keep)
    then have "triple ?F (io_bind (wwrite S (first + k) x) (\<lambda>_. write_cluster S pc j first ks bs)) (\<lambda>_. ?F) ?F"
      if "length x = 512" for x
      using that IH by (blast intro: triple_bind)
    then show ?case by (auto simp: Let_def intro: triple_ret)
  qed
  have "triple ?F (write_clusters_from S b j chain bs) (\<lambda>_. ?F) ?F" for j
    using C(2)
  proof (induction chain arbitrary: j)
    case Nil
    then show ?case by (auto intro: triple_Pair)
  next
    case (Cons c chain)
    show ?case
    proof (cases "sector_of_cluster b c")
      case (Some first)
      have "triple ?F (write_cluster S (unat (cluster_bytes b)) j first (cluster_offsets b) bs) (\<lambda>_. ?F) ?F"
        using Cons.prems by (intro one [OF Some]) (auto simp: cluster_offsets_def)
      then show ?thesis using Cons Some by (auto intro!: triple_bind)
    qed (auto intro: triple_Pair_Inl)
  qed
  then show ?thesis by (simp add: write_clusters_def)
qed

lemma triple_write_entry:
  assumes "boot_ok b" "\<forall>c \<in> C. valid_cluster b c" "in_cluster b d n" "d \<notin> C" "k + length e \<le> 512"
  shows "triple (frame b i0 C Old new) (write_entry S n k e) (\<lambda>_. frame b i0 C Old new) (frame b i0 C Old new)"
proof -
  let ?F = "frame b i0 C Old new"
  have "?F (i(n := x))" if "?F i" for i x
    using in_cluster_not_fat [OF assms(1,3)] in_cluster_unique [OF assms(1,3)] assms(4) that
    by (intro frame_other_sector [OF assms(1,2)]) auto
  then have w: "triple (\<lambda>i. ?F i \<and> image_ok i \<and> bs = i n) (wwrite S n (copy_at bs k e)) (\<lambda>_. ?F) ?F" for bs
    using assms(5) by (intro triple_wwrite) (auto simp: image_ok_def)
  show ?thesis unfolding write_entry_def Let_def
    by (rule triple_bind [OF triple_wread], rule triple_bind [OF w], rule triple_ret)
qed

lemma triple_update_fs_info:
  assumes ok: "boot_ok b" and C: "\<forall>c \<in> C. valid_cluster b c"
  shows "triple (frame b i0 C Old new) (update_fs_info S b) (\<lambda>_. frame b i0 C Old new) (frame b i0 C Old new)"
proof -
  let ?F = "frame b i0 C Old new" and ?n = "ucast (fs_info_sector b) :: u32"
  have cnt: "triple P (count_sectors S tb l ks acc) (\<lambda>_. P) P" for P tb l ks acc
  proof (induction ks arbitrary: acc)
    case Nil
    then show ?case unfolding count_sectors.simps by (rule triple_ret)
  next
    case (Cons k ks)
    show ?case unfolding count_sectors.simps by (rule triple_bind [OF triple_wread_only Cons])
  qed
  have keep: "?F (i(?n := x))" if "?F i" "\<not> ?n \<ge> ucast (reserved_sectors b)" for i x
  proof -
    have "unat ?n < unat (reserved_sectors b)" using that(2) by (simp add: word_le_nat_alt unat_ucast_up)
    then have "\<not> fat_area b ?n" "\<not> in_cluster b c ?n" for c
      using in_cluster_not_fat [OF ok, of c ?n] by (auto simp: fat_area_def)
    then show ?thesis using that(1) by (intro frame_other_sector [OF ok C]) auto
  qed
  show ?thesis
  proof (cases "?n = 0 \<or> ?n \<ge> ucast (reserved_sectors b)")
    case True
    then show ?thesis by (auto simp: update_fs_info_def intro: triple_ret)
  next
    case False
    let ?P = "\<lambda>bs i. ?F i \<and> image_ok i \<and> bs = i ?n"
    have w: "triple (?P bs) (wwrite S ?n (copy_at (copy_at bs 488 (u32_to_le x)) 492 (u32_to_le y))) (\<lambda>_. ?F) ?F" for bs x y
      by (rule triple_wwrite) (use keep False in \<open>auto simp: image_ok_def\<close>)
    have "triple (?P bs) (io_bind (count_sectors S tb l ks acc) (\<lambda>(x, y).
        wwrite S ?n (copy_at (copy_at bs 488 (u32_to_le x)) 492 (u32_to_le y)))) (\<lambda>_. ?F) ?F" for bs tb l ks acc
      by (rule triple_bind [OF triple_weaken [OF cnt [of "?P bs"], where E' = ?F and Q' = "\<lambda>_. ?P bs"]]) (auto intro: w)
    then show ?thesis unfolding update_fs_info_def Let_def using False
      by (simp only: if_False) (rule triple_bind [OF triple_wread], auto intro!: triple_ret)
  qed
qed

lemma triple_free_chain:
  assumes ok: "boot_ok b" and C: "\<forall>c \<in> C. valid_cluster b c" "Old \<inter> C = {}"
    and closed: "\<And>d d'. d \<in> Old \<Longrightarrow> entry_at b i0 d = Next d' \<Longrightarrow> valid_cluster b d' \<Longrightarrow> d' \<in> Old"
    and c: "valid_cluster b c \<Longrightarrow> c \<in> Old"
  shows "triple (frame b i0 C Old (set keep)) (free_chain S b c keep)
    (\<lambda>_. frame b i0 C Old (set keep)) (frame b i0 C Old (set keep))"
proof -
  let ?F = "frame b i0 C Old (set keep)"
  have "triple ?F (free_chain_loop S b keep c seen) (\<lambda>_. ?F) ?F" for seen
    using c
  proof (induction "unat (clusters b) - seen" arbitrary: c seen rule: less_induct)
    case less
    have nx: "triple ?F (io_map_err Reading (next_cluster S b c))
        (\<lambda>e i. ?F i \<and> valid_cluster b c \<and> e = entry_at b i c) ?F"
      by (rule triple_weaken [OF triple_sim [OF sim_next_cluster_w triple_map_err [OF triple_next_cluster]]])
         (auto simp: next_cluster_image [OF ok] io_map_err_def split: if_splits)
    show ?case
    proof (subst free_chain_loop.simps, rule triple_bind [OF nx])
      fix e
      let ?P = "\<lambda>i. ?F i \<and> valid_cluster b c \<and> e = entry_at b i c"
      show "triple ?P (if e = Free \<or> c \<in> set keep then io_ret ()
        else io_bind (set_next_cluster S b c 0) (\<lambda>_. if seen + 1 > unat (clusters b) then io_fail (Reading ChainLoops)
          else case e of Next c' \<Rightarrow> free_chain_loop S b keep c' (seen + 1) | _ \<Rightarrow> io_ret ())) (\<lambda>_. ?F) ?F"
      proof (cases "e = Free \<or> c \<in> set keep \<or> \<not> (\<exists>i. ?P i)")
        case True
        then show ?thesis by (auto intro!: triple_ret simp: triple_def)
      next
        case False
        then obtain i where i: "?F i" "valid_cluster b c" "e = entry_at b i c" by blast
        then have cO: "c \<in> Old" and e0: "e = entry_at b i0 c"
          using less.prems False unfolding frame_def by auto
        have set0: "triple ?P (set_next_cluster S b c 0) (\<lambda>_. ?F) ?F"
          by (rule triple_weaken [OF triple_set_next_cluster [OF ok C(1), of c "set keep" 0 Old i0]]) (use cO C(2) in auto)
        have "triple ?F (if seen + 1 > unat (clusters b) then io_fail (Reading ChainLoops)
          else case e of Next c' \<Rightarrow> free_chain_loop S b keep c' (seen + 1) | _ \<Rightarrow> io_ret ()) (\<lambda>_. ?F) ?F"
        proof (cases "(\<exists>c'. e = Next c') \<and> \<not> seen + 1 > unat (clusters b)")
          case True
          then obtain c' where c': "e = Next c'" "\<not> seen + 1 > unat (clusters b)" by blast
          have "triple ?F (free_chain_loop S b keep c' (seen + 1)) (\<lambda>_. ?F) ?F"
            using c' closed [OF cO] e0 by (intro less.hyps) auto
          then show ?thesis using c' by simp
        qed (cases e; auto intro!: triple_ret triple_fail triple_Pair)
        then show ?thesis using False by (simp only: if_False de_Morgan_disj simp_thms triple_bind [OF set0])
      qed
    qed
  qed
  then show ?thesis by (simp add: free_chain_def)
qed

text \<open>The whole write, from an image \<open>i0\<close>: on every outcome the protected clusters are as they were.\<close>

lemma triple_write_file:
  assumes ok: "boot_ok b" and C: "\<And>c. c \<in> C \<Longrightarrow> valid_cluster b c \<and> entry_at b i0 c \<noteq> Free \<and> \<not> root_cluster_of b i0 c"
    and old: "\<And>enc sector k e. encode_name name = Some enc \<Longrightarrow>
      directory_slot (image_sectors :: (image, 'e) sectors) b enc i0 = (Inr (sector, k, Some e), i0) \<Longrightarrow>
      chain_of b i0 (de_first_cluster e) \<inter> C = {}"
  shows "triple (\<lambda>i. i = i0) (write_file S b name bs) (\<lambda>_. frame b i0 C {} {}) (frame b i0 C {} {})"
proof (cases "encode_name name")
  case None
  then show ?thesis by (auto simp: write_file_def intro!: triple_fail)
next
  case (Some enc)
  let ?E = "frame b i0 C {} {}"
  have Cv: "\<forall>c \<in> C. valid_cluster b c" using C by blast
  have len: "length (new_entry_bytes enc c n) = 32" for c n
    using decode_encoded_name(1) [OF Some] by (simp add: new_entry_bytes_def)
  have slot: "triple (\<lambda>i. i = i0) (directory_slot S b enc) (\<lambda>x i. i = i0 \<and> image_ok i0 \<and>
      directory_slot (image_sectors :: (image, 'e) sectors) b enc i0 = (Inr x, i0)) ?E"
    by (rule triple_weaken [OF triple_sim [OF sim_directory_slot triple_directory_slot, where P = "\<lambda>i. i = i0"]])
       (auto dest: directory_slot_root(2) [OF ok])
  have rest: "triple (\<lambda>i. i = i0 \<and> image_ok i0 \<and>
      directory_slot (image_sectors :: (image, 'e) sectors) b enc i0 = (Inr (sector, k, ex), i0))
    (io_bind (free_clusters S b n) (\<lambda>chain.
       io_bind (write_clusters S b chain bs) (\<lambda>_.
       io_bind (link_chain S b chain) (\<lambda>_.
       io_bind (write_entry S sector k (new_entry_bytes enc (case chain of c # _ \<Rightarrow> c | [] \<Rightarrow> 0) (length bs))) (\<lambda>bytes.
       io_bind (case ex of Some e \<Rightarrow> (if de_first_cluster e \<noteq> 0 then free_chain S b (de_first_cluster e) chain else io_ret ())
                | None \<Rightarrow> io_ret ()) (\<lambda>_.
       io_bind (update_fs_info S b) (\<lambda>_.
       case decode_slot (take DIRECTORY_ENTRY_BYTES (drop k bytes)) of SlotEntry e \<Rightarrow> io_ret e | _ \<Rightarrow> io_fail BadName))))))) (\<lambda>_. ?E) ?E"
    for sector k ex n
  proof (cases "directory_slot (image_sectors :: (image, 'e) sectors) b enc i0 = (Inr (sector, k, ex), i0) \<and> image_ok i0")
    case False
    then show ?thesis by (auto simp: triple_def)
  next
    case True
    let ?Old = "case ex of Some e \<Rightarrow> chain_of b i0 (de_first_cluster e) | None \<Rightarrow> {}"
    obtain d where d: "root_cluster_of b i0 d" "in_cluster b d sector"
      using directory_slot_root(1) [OF ok conjunct1 [OF True]] by (auto simp: root_sector_def)
    have dC: "d \<notin> C" using C d(1) by blast
    have k32: "k + 32 \<le> 512" using directory_slot_offset True by blast
    have OC: "?Old \<inter> C = {}" using old [OF Some, of sector k] True by (auto split: option.splits)
    have free: "triple (\<lambda>i. i = i0) (free_clusters S b n) (\<lambda>chain i. i = i0 \<and> set chain \<inter> C = {}) ?E"
    proof (rule triple_weaken [OF triple_sim [OF sim_free_clusters triple_free_clusters, where P = "\<lambda>i. i = i0"]])
      fix chain i assume "\<exists>j. j = i0 \<and> image_ok j \<and> free_clusters (image_sectors :: (image, 'e) sectors) b n j = (Inr chain, i)"
      then have "set chain \<subseteq> set (free_list b i0)" "i = i0"
        using free_clusters_image [where 'e = 'e, OF ok, of n i0] by (auto split: if_splits dest: in_set_takeD)
      then show "i = i0 \<and> set chain \<inter> C = {}" using C free_list_spec(1) [OF ok, of i0] by auto
    qed auto
    have tail: "triple (frame b i0 C ?Old (set chain))
      (io_bind (write_clusters S b chain bs) (\<lambda>_.
       io_bind (link_chain S b chain) (\<lambda>_.
       io_bind (write_entry S sector k (new_entry_bytes enc (case chain of c # _ \<Rightarrow> c | [] \<Rightarrow> 0) (length bs))) (\<lambda>bytes.
       io_bind (case ex of Some e \<Rightarrow> (if de_first_cluster e \<noteq> 0 then free_chain S b (de_first_cluster e) chain else io_ret ())
                | None \<Rightarrow> io_ret ()) (\<lambda>_.
       io_bind (update_fs_info S b) (\<lambda>_.
       case decode_slot (take DIRECTORY_ENTRY_BYTES (drop k bytes)) of SlotEntry e \<Rightarrow> io_ret e | _ \<Rightarrow> io_fail BadName))))))
      (\<lambda>_. frame b i0 C ?Old (set chain)) (frame b i0 C ?Old (set chain))" if "set chain \<inter> C = {}" for chain
    proof (intro triple_bind [OF triple_write_clusters [OF ok Cv that]] triple_bind [OF triple_link_chain [OF ok Cv that order.refl]]
        triple_bind [OF triple_write_entry [OF ok Cv d(2) dC]] triple_bind [OF _ triple_bind [OF triple_update_fs_info [OF ok Cv]]])
      let ?F = "frame b i0 C ?Old (set chain)"
      show "triple ?F (case ex of Some e \<Rightarrow> (if de_first_cluster e \<noteq> 0 then free_chain S b (de_first_cluster e) chain else io_ret ())
          | None \<Rightarrow> io_ret ()) (\<lambda>_. ?F) ?F"
      proof (cases ex)
        case None
        then show ?thesis by (simp only: option.case) (rule triple_ret)
      next
        case (Some e)
        have "triple ?F (free_chain S b (de_first_cluster e) chain) (\<lambda>_. ?F) ?F"
          by (rule triple_free_chain [OF ok Cv OC]) (simp_all only: Some option.case chain_of_next chain_of_start)
        then show ?thesis by (cases "de_first_cluster e = 0") (simp_all add: Some triple_ret)
      qed
      show "triple ?F (case decode_slot (take DIRECTORY_ENTRY_BYTES (drop k bytes)) of SlotEntry e \<Rightarrow> io_ret e | _ \<Rightarrow> io_fail BadName)
          (\<lambda>_. ?F) ?F" for bytes
        by (auto split: slot.splits intro!: triple_ret triple_fail)
    qed (use len k32 in auto)
    have weak: "?E i" if "frame b i0 C O' N i" for O' N i using that by (simp add: frame_def)
    show ?thesis
    proof (rule triple_weaken [OF triple_bind [OF free]])
      fix chain
      show "triple (\<lambda>i. i = i0 \<and> set chain \<inter> C = {}) (io_bind (write_clusters S b chain bs) (\<lambda>_.
       io_bind (link_chain S b chain) (\<lambda>_.
       io_bind (write_entry S sector k (new_entry_bytes enc (case chain of c # _ \<Rightarrow> c | [] \<Rightarrow> 0) (length bs))) (\<lambda>bytes.
       io_bind (case ex of Some e \<Rightarrow> (if de_first_cluster e \<noteq> 0 then free_chain S b (de_first_cluster e) chain else io_ret ())
                | None \<Rightarrow> io_ret ()) (\<lambda>_.
       io_bind (update_fs_info S b) (\<lambda>_.
       case decode_slot (take DIRECTORY_ENTRY_BYTES (drop k bytes)) of SlotEntry e \<Rightarrow> io_ret e | _ \<Rightarrow> io_fail BadName)))))) (\<lambda>_. ?E) ?E"
      proof (cases "set chain \<inter> C = {}")
        case True
        show ?thesis by (rule triple_weaken [OF tail [OF True]]) (auto intro: weak)
      qed (simp add: triple_def)
    qed auto
  qed
  show ?thesis unfolding write_file_def Some option.case Let_def
    by (rule triple_bind [OF slot]) (auto intro!: triple_fail rest split: prod.splits)
qed

text \<open>Every operation that only reads keeps whatever holds of the medium.\<close>

lemma triple_prod: "(\<And>a b. triple P (f a b) Q E) \<Longrightarrow> triple P (case x of (a, b) \<Rightarrow> f a b) Q E"
  by (cases x) simp

lemma triple_root_sectors: "triple P (root_sectors S each first ks acc) (\<lambda>_. P) P"
proof (induction ks arbitrary: acc)
  case (Cons k ks)
  have "triple P (case root_slots each (as_chunks DIRECTORY_ENTRY_BYTES bs) acc of (go_on, acc') \<Rightarrow>
      if go_on then root_sectors S each first ks acc' else io_ret (False, acc')) (\<lambda>_. P) P" for bs
    by (rule triple_prod) (simp add: Cons triple_ret)
  then show ?case by (simp only: root_sectors.simps triple_bind [OF triple_vread])
qed (simp add: triple_ret)

lemma triple_read_root: "triple P (read_root S b each acc) (\<lambda>_. P) P"
proof -
  have "triple P (read_root_loop S b each c seen acc) (\<lambda>_. P) P" for c seen acc
  proof (induction "unat (clusters b) - seen" arbitrary: c seen acc rule: less_induct)
    case less
    have step: "triple P (case e of Next nxt \<Rightarrow> read_root_loop S b each nxt (seen + 1) acc | End \<Rightarrow> io_ret acc
        | _ \<Rightarrow> io_fail (BrokenChain c e)) (\<lambda>_. P) P" if "\<not> seen + 1 > unat (clusters b)" for e acc
      using that less by (cases e) (auto intro: triple_ret triple_fail)
    have "triple P (if \<not> go_on then io_ret acc else if seen + 1 > unat (clusters b) then io_fail ChainLoops
        else io_bind (next_cluster S b c) (\<lambda>e. case e of Next nxt \<Rightarrow> read_root_loop S b each nxt (seen + 1) acc
          | End \<Rightarrow> io_ret acc | _ \<Rightarrow> io_fail (BrokenChain c e))) (\<lambda>_. P) P" for go_on acc
      using triple_bind [OF triple_next_cluster step] by (simp add: triple_ret triple_fail)
    then show ?case
      by (subst read_root_loop.simps, cases "sector_of_cluster b c")
         (auto intro!: triple_fail triple_bind [OF triple_root_sectors] triple_prod)
  qed
  then show ?thesis by (simp add: read_root_def)
qed

lemma triple_file_sectors: "triple P (file_sectors S first ks sz written into) (\<lambda>_. P) P"
proof (induction ks arbitrary: written into)
  case (Cons k ks)
  then show ?case by (auto simp: Let_def intro!: triple_ret triple_bind [OF triple_vread])
qed (simp add: triple_ret)

lemma triple_read_file: "triple P (read_file S b e into) (\<lambda>_. P) P"
proof -
  have "triple P (read_file_loop S b sz c written seen into) (\<lambda>_. P) P" for sz c written seen into
  proof (induction "unat (clusters b) - seen" arbitrary: c written seen into rule: less_induct)
    case less
    have step: "triple P (case e of Next nxt \<Rightarrow> read_file_loop S b sz nxt written (seen + 1) into
        | _ \<Rightarrow> io_fail (BrokenChain c e)) (\<lambda>_. P) P" if "\<not> seen + 1 > unat (clusters b)" for e written into
      using that less by (cases e) (auto intro: triple_fail)
    have "triple P (if written = sz then io_ret (written, into) else if seen + 1 > unat (clusters b) then io_fail ChainLoops
        else io_bind (next_cluster S b c) (\<lambda>e. case e of Next nxt \<Rightarrow> read_file_loop S b sz nxt written (seen + 1) into
          | _ \<Rightarrow> io_fail (BrokenChain c e))) (\<lambda>_. P) P" for written into
      using triple_bind [OF triple_next_cluster step] by (simp add: triple_ret triple_fail)
    then show ?case
      by (subst read_file_loop.simps, cases "sector_of_cluster b c")
         (auto intro!: triple_ret triple_fail triple_bind [OF triple_file_sectors] triple_prod)
  qed
  then show ?thesis by (auto simp: read_file_def Let_def intro: triple_fail)
qed

lemma triple_walk_to: "triple P (walk_to S b n c seen) (\<lambda>_. P) P"
proof (induction n arbitrary: c seen)
  case (Suc n)
  have "triple P (case e of Next nxt \<Rightarrow> walk_to S b n nxt (seen + 1) | _ \<Rightarrow> io_fail (BrokenChain c e)) (\<lambda>_. P) P" for e
    using Suc by (cases e) (auto intro: triple_fail)
  from triple_bind [OF triple_next_cluster this] show ?case by (simp add: triple_fail)
qed (simp add: triple_ret)

lemma triple_at_sectors: "triple P (at_sectors S first ks within want written into) (\<lambda>_. P) P"
proof (induction ks arbitrary: within written into)
  case (Cons k ks)
  then show ?case by (auto simp: Let_def intro!: triple_ret triple_bind [OF triple_vread])
qed (simp add: triple_ret)

lemma triple_read_at: "triple P (read_at S b e offset into) (\<lambda>_. P) P"
proof -
  have "triple P (read_at_loop S b want inside c written seen into) (\<lambda>_. P) P" for want inside c written seen into
  proof (induction "unat (clusters b) - seen" arbitrary: inside c written seen into rule: less_induct)
    case less
    have step: "triple P (case e of Next nxt \<Rightarrow> read_at_loop S b want 0 nxt written (seen + 1) into
        | _ \<Rightarrow> io_fail (BrokenChain c e)) (\<lambda>_. P) P" if "\<not> seen + 1 > unat (clusters b)" for e written into
      using that less by (cases e) (auto intro: triple_fail)
    have "triple P (if written = want then io_ret (written, into) else if seen + 1 > unat (clusters b) then io_fail ChainLoops
        else io_bind (next_cluster S b c) (\<lambda>e. case e of Next nxt \<Rightarrow> read_at_loop S b want 0 nxt written (seen + 1) into
          | _ \<Rightarrow> io_fail (BrokenChain c e))) (\<lambda>_. P) P" for written into
      using triple_bind [OF triple_next_cluster step] by (simp add: triple_ret triple_fail)
    then show ?case
      by (subst read_at_loop.simps, cases "sector_of_cluster b c")
         (auto intro!: triple_ret triple_fail triple_bind [OF triple_at_sectors] triple_prod)
  qed
  then have "triple P (case x of (c, seen) \<Rightarrow> read_at_loop S b want inside c 0 seen into) (\<lambda>_. P) P" for x want inside
    by (intro triple_prod)
  then show ?thesis unfolding read_at_def Let_def
    by (auto intro!: triple_ret triple_bind [OF triple_walk_to])
qed

end

end
