(* ===== verification/Fat_Properties.thy ===== *)
theory Fat_Properties
  imports Fat_Crash
begin

text \<open>
  What a FAT32 volume promises, over the devices the interface \<open>medium\<close> is interpreted on: a plain
  image, and a device that stops for good after a number of writes, which is a machine that loses
  power in the middle of one. Reading gives the bytes of the chain, a write reads back, and a write
  that stops anywhere leaves every other file as it was.
\<close>

section \<open>Two devices\<close>

interpretation plain: medium "image_sectors :: (image, 'e) sectors" image_ok "\<lambda>i. i"
  by unfold_locales (auto simp: image_sectors_def image_ok_def)

datatype stopped = Stopped

definition stopping_sectors :: "(image \<times> nat, stopped) sectors" where
  "stopping_sectors = \<lparr>read_sector = (\<lambda>n (i, k). (Inr (i n), (i, k))),
     write_sector = (\<lambda>n bs (i, k). if k = 0 then (Inl Stopped, (i, 0)) else (Inr (), (i(n := bs), k - 1)))\<rparr>"

interpretation stopping: medium stopping_sectors "\<lambda>s. image_ok (fst s)" fst
  by unfold_locales (auto simp: stopping_sectors_def image_ok_def split: prod.splits if_splits)

section \<open>A file the write does not touch\<close>

lemma follow_frame:
  assumes "follow b i c n = Some cs" "\<And>d. d \<in> set cs \<Longrightarrow> entry_at b i' d = entry_at b i d"
  shows "follow b i' c n = Some cs"
  using assms
proof (induction b i c n arbitrary: cs rule: follow.induct)
  case (2 b i c n)
  show ?case
  proof (cases "n = 0")
    case False
    from 2(2) False obtain c' cs' where c': "valid_cluster b c" "entry_at b i c = Next c'" "follow b i c' n = Some cs'" "cs = c # cs'"
      by (auto split: if_splits entry.splits)
    then have "follow b i' c' n = Some cs'" using 2(1) False 2(3) by auto
    then show ?thesis using c' 2(3) [of c] False by simp
  qed (use 2 in \<open>auto split: if_splits\<close>)
qed simp

text \<open>The clusters a file keeps its bytes in, and those of the file a name stands for, if any.\<close>

definition file_clusters :: "boot_sector \<Rightarrow> image \<Rightarrow> directory_entry \<Rightarrow> u32 set" where
  "file_clusters b i e = (case follow b i (de_first_cluster e) (clusters_for b (unat (de_size e))) of
     Some cs \<Rightarrow> set cs | None \<Rightarrow> {})"

definition replaced :: "boot_sector \<Rightarrow> image \<Rightarrow> bytes \<Rightarrow> u32 set" where
  "replaced b i name = (case encode_name name of None \<Rightarrow> {}
     | Some enc \<Rightarrow> (case fst (directory_slot (image_sectors :: (image, unit) sectors) b enc i) of
         Inr (_, _, Some e) \<Rightarrow> chain_of b i (de_first_cluster e) | _ \<Rightarrow> {}))"

text \<open>What is found does not depend on how a device, which an image is not, would report its errors.\<close>

lemma dir_sectors_error_free:
  "dir_sectors (image_sectors :: (image, 'e) sectors) name first ks free i = (Inr r, i') \<Longrightarrow>
   dir_sectors (image_sectors :: (image, 'f) sectors) name first ks free i = (Inr r, i')"
  by (induction ks arbitrary: free) (auto split: sum.splits)

lemma directory_slot_error_free:
  assumes "boot_ok b" "directory_slot (image_sectors :: (image, 'e) sectors) b name i = (Inr f, i')"
  shows "directory_slot (image_sectors :: (image, 'f) sectors) b name i = (Inr f, i')"
proof -
  let ?S = "image_sectors :: (image, 'e) sectors" and ?T = "image_sectors :: (image, 'f) sectors"
  have "directory_slot_loop ?T b name c seen free i = (Inr f, i')"
    if "directory_slot_loop ?S b name c seen free i = (Inr f, i')" for c seen free
    using that
  proof (induction "unat (clusters b) - seen" arbitrary: c seen free rule: less_induct)
    case less
    obtain first where first: "sector_of_cluster b c = Some first"
      using less.prems by (cases "sector_of_cluster b c") (simp_all add: directory_slot_loop.simps)
    obtain r t where rt: "dir_sectors ?S name first (cluster_offsets b) free i = (Inr r, t)"
      using less.prems first by (subst (asm) directory_slot_loop.simps) (auto simp: io_bind_Inr_iff)
    then have r: "dir_sectors ?S name first (cluster_offsets b) free i = (Inr r, i)"
      using dir_sectors_state [of name first "cluster_offsets b" free i] by (metis snd_conv)
    note step = less.prems [unfolded directory_slot_loop.simps [of ?S b name c seen free] first option.case]
    show ?case
      using step r dir_sectors_error_free [where 'f = 'f, OF r] less.hyps [of "seen + 1"]
      by (subst directory_slot_loop.simps)
         (auto simp: first next_cluster_image [OF assms(1)] io_map_err_def io_bind_def
           split: sum.splits if_splits entry.splits option.splits)
  qed
  then show ?thesis using assms(2) by (simp add: directory_slot_def)
qed

lemma file_contents_frame:
  assumes ok: "boot_ok b" and f: "frame b i (file_clusters b i e) {} {} i'"
  shows "file_contents b i e = Some bs \<Longrightarrow> file_contents b i' e = Some bs"
proof -
  assume bs: "file_contents b i e = Some bs"
  let ?n = "clusters_for b (unat (de_size e))"
  obtain cs where cs: "follow b i (de_first_cluster e) ?n = Some cs" using bs by (auto simp: file_contents_def)
  then have C: "file_clusters b i e = set cs" by (simp add: file_clusters_def)
  have "follow b i' (de_first_cluster e) ?n = Some cs"
    using f unfolding C frame_def by (intro follow_frame [OF cs]) blast
  moreover have "cluster_data b i' c = cluster_data b i c" if "c \<in> set cs" for c
    using f that unfolding C frame_def by (intro cluster_data_cong [OF ok follow_valid [OF cs that]]) blast
  ultimately show ?thesis using bs cs by (simp add: file_contents_def cong: map_cong)
qed

lemma length_file_contents:
  assumes "boot_ok b" "image_ok i" "file_contents b i e = Some bs"
  shows "length bs = unat (de_size e)"
proof -
  obtain cs where cs: "follow b i (de_first_cluster e) (clusters_for b (unat (de_size e))) = Some cs"
      "bs = take (unat (de_size e)) (concat (map (cluster_data b i) cs))"
    using assms(3) by (auto simp: file_contents_def)
  then show ?thesis
    using clusters_for_ge [OF assms(1), of "unat (de_size e)"] follow_length [OF cs(1)]
      length_concat_clusters [OF assms(2), of b cs] by simp
qed

text \<open>A file of another name, over a whole write.\<close>

lemma write_file_untouched:
  fixes S :: "('s, 'e) sectors"
  assumes "medium S ok img" "parse_boot first = Inr b" "ok s" "write_file S b name bs s = (r, s')"
    "file_contents b (img s) f = Some old"
    "\<And>c. c \<in> file_clusters b (img s) f \<Longrightarrow> entry_at b (img s) c \<noteq> Free \<and> \<not> root_cluster_of b (img s) c"
    "replaced b (img s) name \<inter> file_clusters b (img s) f = {}"
  shows "file_contents b (img s') f = Some old"
proof -
  note b = parse_boot_ok [OF assms(2)]
  let ?C = "file_clusters b (img s) f"
  have valid: "valid_cluster b c" if "c \<in> ?C" for c
    using that follow_valid by (auto simp: file_clusters_def split: option.splits)
  have old: "chain_of b (img s) (de_first_cluster e) \<inter> ?C = {}"
    if "encode_name name = Some enc" "directory_slot (image_sectors :: (image, 'e) sectors) b enc (img s) = (Inr (sector, k, Some e), img s)"
    for enc sector k e
    using assms(7) directory_slot_error_free [where 'f = unit, OF b that(2)] that(1) by (simp add: replaced_def)
  have "medium.triple ok img (\<lambda>i. i = img s) (write_file S b name bs) (\<lambda>_. frame b (img s) ?C {} {}) (frame b (img s) ?C {} {})"
    by (rule medium.triple_write_file [OF assms(1) b]) (use valid assms(6) old in auto)
  then have "frame b (img s) ?C {} {} (img s')"
    using assms(3,4) unfolding medium.triple_def [OF assms(1)] by (auto split: sum.splits)
  then show ?thesis using file_contents_frame [OF b _ assms(5)] by blast
qed

section \<open>Writes that succeed\<close>

lemma write_new_file_steps:
  fixes S :: "(image, 'e) sectors"
  defines "S \<equiv> image_sectors"
  assumes ok: "boot_ok b" "image_ok i" and enc: "encode_name name = Some enc"
    and slot: "directory_slot S b enc i = (Inr (sector, k, None), i)"
    and room: "clusters_for b (length bs) \<le> MAX_FILE_CLUSTERS" "clusters_for b (length bs) \<le> length (free_list b i)"
  shows "\<exists>e i'. write_file S b name bs i = (Inr e, i')"
proof -
  let ?n = "clusters_for b (length bs)"
  define chain where "chain = take ?n (free_list b i)"
  have chain: "\<forall>c \<in> set chain. valid_cluster b c" "distinct chain"
    using free_list_spec [OF ok(1), of i] by (auto simp: chain_def dest: in_set_takeD)
  have free: "free_clusters S b ?n i = (Inr chain, i)"
    using free_clusters_image [where 'e = 'e, OF ok(1), of ?n i] room by (simp add: S_def chain_def)
  obtain i1 where i1: "write_clusters S b chain bs i = (Inr (), i1)" "image_ok i1"
    using write_clusters_image [where 'e = 'e, OF ok chain, of 0 bs] unfolding S_def write_clusters_def by blast
  obtain i2 where i2: "link_chain S b chain i1 = (Inr (), i2)" "image_ok i2"
    using link_chain_image [where 'e = 'e, OF ok(1) i1(2) chain] unfolding S_def by blast
  let ?first = "case chain of c # _ \<Rightarrow> c | [] \<Rightarrow> 0" and ?e = "new_entry_bytes enc (case chain of c # _ \<Rightarrow> c | [] \<Rightarrow> 0) (length bs)"
  define i3 where "i3 = i2(sector := copy_at (i2 sector) k ?e)"
  have we: "write_entry S sector k ?e i2 = (Inr (i3 sector), i3)"
    by (simp add: S_def write_entry_def i3_def Let_def)
  have k: "k + 32 \<le> 512" using directory_slot_offset [OF ok(2)] slot by (simp add: S_def)
  have len: "length ?e = 32" using decode_encoded_name(1) [OF enc] by (simp add: new_entry_bytes_def)
  have "image_ok i3" using i2(2) k len by (simp add: i3_def image_ok_def)
  then obtain i4 where i4: "update_fs_info S b i3 = (Inr (), i4)"
    using update_fs_info_image(1) [where 'e = 'e] unfolding S_def by (metis surj_pair)
  have "take 32 (drop k (i3 sector)) = ?e"
    using copy_at_slot [of k ?e "i2 sector"] i2(2) k len by (simp add: i3_def image_ok_def)
  then obtain e where e: "decode_slot (take 32 (drop k (i3 sector))) = SlotEntry e"
    using decode_new_entry [OF enc small_file [OF ok(1) room(1)]] by metis
  have "write_file S b name bs i = (Inr e, i4)"
    unfolding write_file_def enc option.case Let_def needed_clusters [OF ok(1)]
    using slot free i1(1) i2(1) we i4 e by (simp add: DIRECTORY_ENTRY_BYTES_def)
  then show ?thesis by blast
qed

lemma written_size:
  assumes "boot_ok b" "image_ok i" "write_file (image_sectors :: (image, 'e) sectors) b name bs i = (Inr e, i')"
  shows "clusters_for b (length bs) \<le> unat (clusters b)"
proof (rule write_file_steps [OF assms])
  fix chain
  assume "chain = take (clusters_for b (length bs)) (free_list b i)" "length chain = clusters_for b (length bs)"
  then have "clusters_for b (length bs) \<le> length (free_list b i)" by simp
  also have "\<dots> \<le> length (clusters_from b 2)" unfolding free_list_def by (rule length_filter_le)
  finally show ?thesis unfolding clusters_from_def length_map length_upt by linarith
qed

section \<open>A sample volume\<close>

text \<open>Cluster 2 is the root directory, empty; cluster 3 is a file of one sector; the rest is free.\<close>

definition sample_table :: bytes where
  "sample_table = replicate 8 0 @ [0xFF, 0xFF, 0xFF, 0x0F, 0xFF, 0xFF, 0xFF, 0x0F] @ replicate 496 0"

definition sample_image :: image where
  "sample_image n = (if n = 0 then sample_boot_bytes else if n = 32 \<or> n = 1056 then sample_table
     else if n = 2081 then replicate 512 65 else replicate 512 0)"

definition sample_file :: directory_entry where
  "sample_file = \<lparr>de_name = [65], de_attributes = ATTR_ARCHIVE, de_first_cluster = 3, de_size = 5\<rparr>"

lemma sample_boot_ok: "boot_ok sample_boot"
  by (rule parse_boot_ok [OF sample_boot_parses])

lemma sample_image_ok: "image_ok sample_image"
  by (simp add: image_ok_def sample_image_def sample_boot_bytes_def sample_table_def)

lemma sample_valid: "valid_cluster sample_boot c \<longleftrightarrow> 2 \<le> unat c \<and> unat c < 100002"
  by (auto simp: valid_cluster_def sample_boot_def)

lemma sample_entry:
  "entry_at sample_boot sample_image 2 = End" "entry_at sample_boot sample_image 3 = End"
  "entry_at sample_boot sample_image 4 = Free"
  by (simp_all add: entry_at_def fat_sector_def first_fat_sector_def sample_boot_def sample_image_def sample_table_def
      u32_at_def u32_from_le_def nth_append decode_entry_def ENTRY_MASK_def)

lemma sample_follow: "follow sample_boot sample_image 2 n = Some cs \<Longrightarrow> set cs \<subseteq> {2}"
  "follow sample_boot sample_image 3 1 = Some [3]"
  using sample_entry(1) by (cases n; auto simp: sample_valid split: if_splits)+

lemma sample_root: "root_cluster_of sample_boot sample_image c \<Longrightarrow> c = 2"
  using sample_follow(1) by (fastforce simp: root_cluster_of_def sample_boot_def)

lemma sample_root_not_free: "root_cluster_of sample_boot sample_image c \<Longrightarrow> entry_at sample_boot sample_image c \<noteq> Free"
  using sample_root sample_entry(1) by fastforce

lemma sample_contents: "file_contents sample_boot sample_image sample_file = Some (replicate 5 65)"
proof -
  have "clusters_for sample_boot 5 = 1" by (simp add: clusters_for_def sample_boot_def)
  moreover have "cluster_data sample_boot sample_image 3 = replicate 512 65"
    by (simp add: cluster_data_def cluster_offsets_def sector_of_cluster_def first_data_sector_def sample_boot_def
        sample_image_def FIRST_DATA_CLUSTER_def)
  ultimately show ?thesis using sample_follow(2) by (simp add: file_contents_def sample_file_def)
qed

lemma sample_slot:
  "directory_slot (image_sectors :: (image, 'e) sectors) sample_boot enc sample_image = (Inr (2080, 0, None), sample_image)"
proof -
  have "[0..<16] = 0 # [1..<16 :: nat]" by (subst upt_conv_Cons) simp_all
  then obtain rest where ch: "as_chunks 32 (replicate 512 (0 :: u8)) = replicate 32 0 # rest"
    by (simp add: as_chunks_def del: upt_Suc)
  have "decode_slot (replicate 32 0) = SlotEnd" by (simp add: decode_slot_def ENTRY_NEVER_USED_def)
  then have "dir_slots enc sc 0 (as_chunks 32 (replicate 512 0)) None = Inl (sc, 0, None)" for sc
    unfolding ch by simp
  then show ?thesis
    by (simp add: directory_slot_def directory_slot_loop.simps sector_of_cluster_def first_data_sector_def sample_boot_def
        cluster_offsets_def sample_image_def FIRST_DATA_CLUSTER_def DIRECTORY_ENTRY_BYTES_def)
qed

section \<open>Properties\<close>

text \<open>
  C11. Reading a file: with room for it, \<open>read_file\<close> hands over exactly the bytes its chain holds, cut at
  its size, and leaves the rest of the buffer alone; a chain that cannot be followed that far is an
  error. Nothing is written either way.
\<close>

theorem read_file_exact:
  assumes "parse_boot first = Inr b" "image_ok i" "clusters_for b (unat (de_size e)) \<le> unat (clusters b) + 1"
    "unat (de_size e) \<le> length into"
  shows "case file_contents b i e of
      Some bs \<Rightarrow> read_file (image_sectors :: (image, 'e) sectors) b e into i =
        (Inr (unat (de_size e), bs @ drop (unat (de_size e)) into), i)
    | None \<Rightarrow> \<exists>err. read_file (image_sectors :: (image, 'e) sectors) b e into i = (Inl err, i)"
proof -
  have ok: "boot_ok b" by (rule parse_boot_ok [OF assms(1)])
  have "length bs = unat (de_size e)" if "file_contents b i e = Some bs" for bs
    using that length_file_contents [OF ok assms(2)] by blast
  then show ?thesis using read_file_image [where 'e = 'e, OF ok assms(2-4)]
    by (auto simp: copy_at_def split: option.splits)
qed

theorem read_file_exact_witness:
  "read_file (image_sectors :: (image, unit) sectors) sample_boot sample_file (replicate 6 0) sample_image =
     (Inr (5, replicate 5 65 @ [0]), sample_image)"
  using read_file_exact [where 'e = unit, OF sample_boot_parses sample_image_ok, of sample_file "replicate 6 0"]
  unfolding sample_contents by (simp add: sample_file_def clusters_for_def sample_boot_def)

text \<open>
  Reading a piece: from any offset, \<open>read_at\<close> hands over as much of the file as is there and as
  the buffer holds, which is the same bytes \<open>read_file\<close> gives at that offset.
\<close>

theorem read_at_is_slice:
  assumes "parse_boot first = Inr b" "image_ok i" "clusters_for b (unat (de_size e)) \<le> unat (clusters b) + 1"
    "file_contents b i e = Some bs"
  shows "read_at (image_sectors :: (image, 'e) sectors) b e offset into i =
    (let n = min (unat (de_size e) - unat offset) (length into)
     in (Inr (n, take n (drop (unat offset) bs) @ drop n into), i))"
proof -
  let ?n = "min (unat (de_size e) - unat offset) (length into)"
  have ok: "boot_ok b" by (rule parse_boot_ok [OF assms(1)])
  have "length (take ?n (drop (unat offset) bs)) = ?n" using length_file_contents [OF ok assms(2,4)] by simp
  then show ?thesis using read_at_image [where 'e = 'e, OF ok assms(2-4), of offset into]
    by (simp add: Let_def copy_at_def)
qed

theorem read_at_is_slice_witness:
  "read_at (image_sectors :: (image, unit) sectors) sample_boot sample_file 3 (replicate 4 0) sample_image =
     (Inr (2, replicate 2 65 @ replicate 2 0), sample_image)"
  using read_at_is_slice [where 'e = unit, OF sample_boot_parses sample_image_ok _ sample_contents, of 3 "replicate 4 0"]
  by (simp add: sample_file_def clusters_for_def sample_boot_def)

text \<open>
  Changing an entry of the tables: \<open>set_next_cluster\<close> refuses a cluster the volume does not have,
  and otherwise every copy of the table gets the new value in that entry, with the four reserved bits
  as they were, no other entry of any copy changes, and no sector outside the tables does.
\<close>

theorem set_next_cluster_exact:
  assumes "parse_boot first = Inr b" "image_ok i"
  shows "if valid_cluster b c
    then \<exists>i'. set_next_cluster (image_sectors :: (image, 'e) sectors) b c v i = (Inr (), i') \<and>
      (\<forall>t d. unat t < unat (fat_count b) \<longrightarrow> valid_cluster b d \<longrightarrow> raw_at b i' t d =
         (if d = c then (raw_at b i t c AND NOT ENTRY_MASK) OR (v AND ENTRY_MASK) else raw_at b i t d)) \<and>
      (\<forall>n. \<not> fat_area b n \<longrightarrow> i' n = i n)
    else set_next_cluster (image_sectors :: (image, 'e) sectors) b c v i = (Inl (Reading (BadCluster c)), i)"
proof -
  have ok: "boot_ok b" by (rule parse_boot_ok [OF assms(1)])
  show ?thesis using set_next_cluster_image [OF ok, of c v i] set_entry_spec(2,4) [OF ok assms(2)]
    by (auto simp: with_entry_def)
qed

theorem set_next_cluster_exact_witness:
  "\<exists>i'. set_next_cluster (image_sectors :: (image, unit) sectors) sample_boot 4 3 sample_image = (Inr (), i') \<and>
     raw_at sample_boot i' 1 4 = (raw_at sample_boot sample_image 1 4 AND NOT ENTRY_MASK) OR (3 AND ENTRY_MASK) \<and>
     raw_at sample_boot i' 1 3 = raw_at sample_boot sample_image 1 3"
  using set_next_cluster_exact [where 'e = unit, OF sample_boot_parses sample_image_ok, of 4 3]
  by (auto simp: sample_valid) (auto simp: sample_boot_def)

text \<open>
  Finding room: \<open>free_clusters\<close> gives the first free clusters of the volume in order, all of them
  different; when there are too few it says how many there are, and it never gives more than a file
  may have. Nothing is written.
\<close>

theorem free_clusters_first_fit:
  assumes "parse_boot first = Inr b"
  shows "free_clusters (image_sectors :: (image, 'e) sectors) b n i =
    (let frees = filter (\<lambda>c. entry_at b i c = Free) (map of_nat [2..<2 + unat (clusters b)]) in
     if n > 64 then Inl (TooManyClusters n)
     else if length frees < n then Inl (Full n (length frees)) else Inr (take n frees), i)"
  using free_clusters_image [where 'e = 'e, OF parse_boot_ok [OF assms], of n i]
  by (simp add: Let_def free_list_def clusters_from_def MAX_FILE_CLUSTERS_def del: upt_Suc)

theorem free_clusters_first_fit_witness:
  "free_clusters (image_sectors :: (image, unit) sectors) sample_boot 65 sample_image = (Inl (TooManyClusters 65), sample_image) \<and>
   free_clusters (image_sectors :: (image, unit) sectors) sample_boot 0 sample_image = (Inr [], sample_image)"
  using free_clusters_first_fit [where 'e = unit, OF sample_boot_parses, of 65 sample_image]
    free_clusters_first_fit [where 'e = unit, OF sample_boot_parses, of 0 sample_image]
  by (simp only: Let_def) simp


lemma sample_name: "\<exists>enc. encode_name [66] = Some enc"
  by (simp add: encode_name_def split_name_def allowed_in_a_name_def copy_at_def ENTRY_DELETED_def
      to_ascii_uppercase_def RESERVED_bytes_def)

lemma sample_write:
  "\<exists>e i'. write_file (image_sectors :: (image, 'e) sectors) sample_boot [66] [1, 2, 3] sample_image = (Inr e, i')"
proof -
  obtain enc where enc: "encode_name [66] = Some enc" using sample_name by blast
  have "4 \<in> set (free_list sample_boot sample_image)"
    using sample_entry(3) free_list_spec(1) [OF sample_boot_ok] by (simp add: sample_valid)
  then have "1 \<le> length (free_list sample_boot sample_image)" by (cases "free_list sample_boot sample_image") auto
  then show ?thesis
    using write_new_file_steps [where 'e = 'e, OF sample_boot_ok sample_image_ok enc sample_slot, of "[1, 2, 3]"]
    by (simp add: clusters_for_def sample_boot_def MAX_FILE_CLUSTERS_def)
qed




text \<open>
  C1. A write that stops anywhere, on any device that follows the interface: whatever \<open>write_file\<close>
  answers, a file of another name keeps its chain and its bytes. The clusters of that file are in use,
  and are neither the directory's nor those of the file being replaced.
\<close>

theorem write_file_crash_safe:
  fixes S :: "('s, 'e) sectors"
  assumes "medium S ok img" "parse_boot first = Inr b" "ok s" "write_file S b name bs s = (r, s')"
    "file_contents b (img s) f = Some old"
    "\<And>c. c \<in> file_clusters b (img s) f \<Longrightarrow> entry_at b (img s) c \<noteq> Free \<and> \<not> root_cluster_of b (img s) c"
    "replaced b (img s) name \<inter> file_clusters b (img s) f = {}"
  shows "file_contents b (img s') f = Some old"
  using assms by (rule write_file_untouched)

theorem write_file_crash_safe_witness:
  "file_contents sample_boot (fst (snd (write_file stopping_sectors sample_boot [66] [1, 2, 3] (sample_image, 2)))) sample_file =
     Some (replicate 5 65)"
proof -
  have C: "file_clusters sample_boot sample_image sample_file = {3}"
    using sample_follow(2) by (simp add: file_clusters_def sample_file_def clusters_for_def sample_boot_def)
  have "replaced sample_boot sample_image [66] = {}" by (simp add: replaced_def sample_slot split: option.splits)
  then show ?thesis
    using write_file_crash_safe [OF stopping.medium_axioms sample_boot_parses, of "(sample_image, 2)" "[66]" "[1, 2, 3]"
        "fst (write_file stopping_sectors sample_boot [66] [1, 2, 3] (sample_image, 2))" "snd (write_file stopping_sectors sample_boot [66] [1, 2, 3] (sample_image, 2))" sample_file "replicate 5 65"]
      sample_image_ok sample_contents sample_entry(2) sample_root [of 3]
    by (auto simp add: C)
qed

end
