(* ===== verification/Hal_Memory.thy ===== *)
theory Hal_Memory
  imports Prelude
begin

text \<open>
  The hardware abstraction layer's vocabulary of memory: physical and virtual addresses
  (\<^verbatim>\<open>hal/src/addr.rs\<close>), frames and ranges (\<^verbatim>\<open>hal/src/frame.rs\<close>), the firmware's memory map
  (\<^verbatim>\<open>hal/src/memory_map.rs\<close>) and the page vocabulary of the mapper interface
  (\<^verbatim>\<open>hal/src/paging.rs\<close>).
\<close>

section \<open>Addresses (hal/src/addr.rs)\<close>

text \<open>
  The macro \<open>address_type!\<close> declares two newtypes over \<open>u64\<close> with the same operations. The
  newtypes are datatypes here too, so that a physical address cannot stand where a virtual one is
  expected; the operations are written once on the number and lifted.
\<close>

datatype phys_addr = PhysAddr (p_u64: u64)
datatype virt_addr = VirtAddr (v_u64: u64)

definition is_aligned_to :: "u64 \<Rightarrow> u64 \<Rightarrow> bool" where
  "is_aligned_to a align = is_multiple_of a align"

definition align_down :: "u64 \<Rightarrow> u64 \<Rightarrow> u64" where
  "align_down a align = a - a mod align"

definition phys_checked_add :: "phys_addr \<Rightarrow> u64 \<Rightarrow> phys_addr option" where
  "phys_checked_add a offset = map_option PhysAddr (checked_add (p_u64 a) offset)"

definition virt_checked_add :: "virt_addr \<Rightarrow> u64 \<Rightarrow> virt_addr option" where
  "virt_checked_add a offset = map_option VirtAddr (checked_add (v_u64 a) offset)"

definition phys_saturating_sub :: "phys_addr \<Rightarrow> phys_addr \<Rightarrow> u64" where
  "phys_saturating_sub a earlier = saturating_sub (p_u64 a) (p_u64 earlier)"

text \<open>\<open>impl Add<u64>\<close>: the sum, or a panic where it would wrap.\<close>

definition phys_add :: "phys_addr \<Rightarrow> u64 \<Rightarrow> panic + phys_addr" where
  "phys_add a offset =
     ok_or (Panic ''address addition overflow'') (map_option PhysAddr (checked_add (p_u64 a) offset))"

instantiation phys_addr :: linorder
begin

definition less_eq_phys_addr :: "phys_addr \<Rightarrow> phys_addr \<Rightarrow> bool" where
  "less_eq_phys_addr a b \<longleftrightarrow> p_u64 a \<le> p_u64 b"

definition less_phys_addr :: "phys_addr \<Rightarrow> phys_addr \<Rightarrow> bool" where
  "less_phys_addr a b \<longleftrightarrow> p_u64 a < p_u64 b"

instance
  by standard
     (auto simp: less_eq_phys_addr_def less_phys_addr_def intro: phys_addr.expand)

end

instantiation virt_addr :: linorder
begin

definition less_eq_virt_addr :: "virt_addr \<Rightarrow> virt_addr \<Rightarrow> bool" where
  "less_eq_virt_addr a b \<longleftrightarrow> v_u64 a \<le> v_u64 b"

definition less_virt_addr :: "virt_addr \<Rightarrow> virt_addr \<Rightarrow> bool" where
  "less_virt_addr a b \<longleftrightarrow> v_u64 a < v_u64 b"

instance
  by standard
     (auto simp: less_eq_virt_addr_def less_virt_addr_def intro: virt_addr.expand)

end

lemma unat_align_down: "unat (align_down a align) = unat a - unat a mod unat align"
  unfolding align_down_def
  by (subst unat_sub_exact) (simp_all add: word_nat)

section \<open>Frames and ranges (hal/src/frame.rs)\<close>

definition FRAME_SIZE :: u64 where
  "FRAME_SIZE = 4096"

record phys_range =
  range_start :: phys_addr
  range_len :: u64

definition range_end :: "phys_range \<Rightarrow> phys_addr" where
  "range_end r =
     (case phys_checked_add (range_start r) (range_len r) of
        Some e \<Rightarrow> e
      | None \<Rightarrow> PhysAddr u64_max)"

definition range_contains :: "phys_range \<Rightarrow> phys_addr \<Rightarrow> bool" where
  "range_contains r a \<longleftrightarrow>
     p_u64 (range_start r) \<le> p_u64 a \<and> p_u64 a < p_u64 (range_end r)"

definition range_overlaps :: "phys_range \<Rightarrow> phys_addr \<Rightarrow> phys_addr \<Rightarrow> bool" where
  "range_overlaps r s e \<longleftrightarrow>
     p_u64 s < p_u64 (range_end r) \<and> p_u64 (range_start r) < p_u64 e"

text \<open>A frame is named by its start address, which is aligned by construction.\<close>

record phys_frame =
  frame_start :: phys_addr

definition frame_from_start_address :: "phys_addr \<Rightarrow> phys_frame option" where
  "frame_from_start_address a =
     (if is_aligned_to (p_u64 a) FRAME_SIZE then Some \<lparr>frame_start = a\<rparr> else None)"

definition containing_address :: "phys_addr \<Rightarrow> phys_frame" where
  "containing_address a = \<lparr>frame_start = PhysAddr (align_down (p_u64 a) FRAME_SIZE)\<rparr>"

definition start_address :: "phys_frame \<Rightarrow> phys_addr" where
  "start_address f = frame_start f"

text \<open>The number of a frame is a \<open>u64\<close> in the source; it is read as a natural number here.\<close>

definition number :: "phys_frame \<Rightarrow> nat" where
  "number f = unat (p_u64 (frame_start f) div FRAME_SIZE)"

lemma unat_FRAME_SIZE [simp]: "unat FRAME_SIZE = 4096"
  by (simp add: FRAME_SIZE_def)

lemma unat_range_end:
  "unat (p_u64 (range_end r)) =
     min (unat (p_u64 (range_start r)) + unat (range_len r)) (2 ^ 64 - 1)"
  by (auto simp: range_end_def phys_checked_add_def checked_add_def u64_max_def unat_add_exact
      unat_minus_one_max split: option.splits)

text \<open>A frame the model's functions build is aligned; two aligned frames are equal when their
  numbers are.\<close>

definition frame_aligned :: "phys_frame \<Rightarrow> bool" where
  "frame_aligned f \<longleftrightarrow> is_aligned_to (p_u64 (frame_start f)) FRAME_SIZE"

lemma frame_aligned_unat: "frame_aligned f \<longleftrightarrow> 4096 dvd unat (p_u64 (frame_start f))"
  by (simp add: frame_aligned_def is_aligned_to_def is_multiple_of_def word_unat_eq_iff unat_mod
      mod_eq_0_iff_dvd)

lemma number_unat: "number f = unat (p_u64 (frame_start f)) div 4096"
  by (simp add: number_def unat_div)

lemma number_bound: "number f < 2 ^ 52"
  using unat_u64_bound [of "p_u64 (frame_start f)"] by (simp add: number_unat)

lemma containing_address_aligned [simp]: "frame_aligned (containing_address a)"
  unfolding frame_aligned_unat
  by (simp add: containing_address_def unat_align_down minus_mod_eq_mult_div)

lemma frame_from_start_address_aligned:
  "frame_from_start_address a = Some f \<Longrightarrow> frame_aligned f \<and> start_address f = a"
  by (auto simp: frame_from_start_address_def frame_aligned_def start_address_def split: if_splits)

lemma frame_number_inject:
  assumes "frame_aligned f" "frame_aligned g" "number f = number g"
  shows "f = g"
proof -
  have "unat (p_u64 (frame_start f)) = unat (p_u64 (frame_start g))"
    using assms by (metis dvd_div_eq_cancel frame_aligned_unat number_unat zero_neq_numeral)
  then have "frame_start f = frame_start g" by (metis phys_addr.expand word_unat_eq_iff)
  then show ?thesis by simp
qed

text \<open>The frame with a given number, as \<open>PhysFrame::containing_address(number * FRAME_SIZE)\<close>.\<close>

abbreviation frame_no :: "nat \<Rightarrow> phys_frame" where
  "frame_no n \<equiv> containing_address (PhysAddr (of_nat n * FRAME_SIZE))"

lemma number_frame_no [simp]:
  assumes "n < 2 ^ 52"
  shows "number (frame_no n) = n"
proof -
  have n: "unat (of_nat n :: u64) = n" using assms by (simp add: unat_of_nat_exact)
  then have "unat (of_nat n * FRAME_SIZE :: u64) = n * 4096"
    using assms by (subst unat_mult_exact) simp_all
  then show ?thesis
    by (simp add: number_unat containing_address_def unat_align_down)
qed

lemma frame_no_number [simp]: "frame_aligned f \<Longrightarrow> frame_no (number f) = f"
  by (rule frame_number_inject) (simp_all only: containing_address_aligned number_frame_no [OF number_bound])

lemma containing_address_contains:
  "unat (p_u64 (frame_start (containing_address a))) \<le> unat (p_u64 a)"
  "unat (p_u64 a) < unat (p_u64 (frame_start (containing_address a))) + 4096"
proof -
  have "unat (p_u64 a) mod 4096 < 4096" by simp
  then show "unat (p_u64 (frame_start (containing_address a))) \<le> unat (p_u64 a)"
    "unat (p_u64 a) < unat (p_u64 (frame_start (containing_address a))) + 4096"
    by (auto simp: containing_address_def unat_align_down)
qed

section \<open>The firmware's memory map (hal/src/memory_map.rs)\<close>

datatype memory_region_kind = Usable | BootServices | RuntimeCode | RuntimeData | Reserved

datatype cache_policy = Unspecified | WriteBack | WriteThrough | WriteCombining | Uncacheable

record region_attributes =
  runtime :: bool
  cache :: cache_policy

definition no_attributes :: region_attributes where
  "no_attributes = \<lparr>runtime = False, cache = Unspecified\<rparr>"

record memory_region =
  start_phys_addr :: phys_addr
  page_count :: u64
  kind :: memory_region_kind
  attributes :: region_attributes

text \<open>
  The array of \<open>CAPACITY\<close> regions and the field \<open>len\<close> that says how many are in use are the
  list of the regions in use.
\<close>

record memory_map =
  regions :: "memory_region list"
  truncated :: bool

definition CAPACITY :: usize where
  "CAPACITY = 256"

definition map_new :: memory_map where
  "map_new = \<lparr>regions = [], truncated = False\<rparr>"

definition push :: "memory_map \<Rightarrow> memory_region \<Rightarrow> bool \<times> memory_map" where
  "push m region =
     (if length (regions m) \<ge> CAPACITY then (False, m\<lparr>truncated := True\<rparr>)
      else (True, m\<lparr>regions := regions m @ [region]\<rparr>))"

definition is_complete :: "memory_map \<Rightarrow> bool" where
  "is_complete m \<longleftrightarrow> \<not> truncated m"

definition total_pages :: "memory_map \<Rightarrow> memory_region_kind \<Rightarrow> u64" where
  "total_pages m k = sum_list (map page_count (filter (\<lambda>r. kind r = k) (regions m)))"

definition total_usable_pages :: "memory_map \<Rightarrow> u64" where
  "total_usable_pages m = total_pages m Usable"

definition UNCACHEABLE :: u64 where "UNCACHEABLE = 0x1"
definition WRITE_COMBINE :: u64 where "WRITE_COMBINE = 0x2"
definition WRITE_THROUGH :: u64 where "WRITE_THROUGH = 0x4"
definition WRITE_BACK :: u64 where "WRITE_BACK = 0x8"
definition RUNTIME :: u64 where "RUNTIME = 0x8000000000000000"

definition classify_attributes :: "u64 \<Rightarrow> region_attributes" where
  "classify_attributes raw =
     \<lparr>runtime = (raw AND RUNTIME \<noteq> 0),
      cache =
        (if raw AND WRITE_BACK \<noteq> 0 then WriteBack
         else if raw AND WRITE_THROUGH \<noteq> 0 then WriteThrough
         else if raw AND WRITE_COMBINE \<noteq> 0 then WriteCombining
         else if raw AND UNCACHEABLE \<noteq> 0 then Uncacheable
         else Unspecified)\<rparr>"

definition classify_memory_type :: "u32 \<Rightarrow> memory_region_kind" where
  "classify_memory_type raw =
     (if raw = 7 then Usable
      else if raw = 3 \<or> raw = 4 then BootServices
      else if raw = 5 then RuntimeCode
      else if raw = 6 then RuntimeData
      else Reserved)"

text \<open>Building a map by pushing regions, as the boot stage does with the firmware's descriptors.\<close>

fun push_all :: "memory_map \<Rightarrow> memory_region list \<Rightarrow> memory_map" where
  "push_all m [] = m"
| "push_all m (r # rs) = push_all (snd (push m r)) rs"

lemma push_all_spec:
  assumes "length (regions m) \<le> CAPACITY"
  shows "regions (push_all m rs) = take CAPACITY (regions m @ rs)"
    and "truncated (push_all m rs) \<longleftrightarrow> truncated m \<or> CAPACITY < length (regions m) + length rs"
  using assms
  by (induction rs arbitrary: m) (auto simp: push_def take_Cons')

section \<open>Pages (hal/src/paging.rs)\<close>

record mapped_range =
  mr_range :: phys_range
  mr_writable :: bool
  mr_executable :: bool
  mr_cache :: cache_policy

definition read_only_code :: "phys_range \<Rightarrow> mapped_range" where
  "read_only_code r =
     \<lparr>mr_range = r, mr_writable = False, mr_executable = True, mr_cache = WriteBack\<rparr>"

definition writable_code :: "phys_range \<Rightarrow> cache_policy \<Rightarrow> mapped_range" where
  "writable_code r c =
     \<lparr>mr_range = r, mr_writable = True, mr_executable = True, mr_cache = c\<rparr>"

definition data_range :: "phys_range \<Rightarrow> cache_policy \<Rightarrow> mapped_range" where
  "data_range r c =
     \<lparr>mr_range = r, mr_writable = True, mr_executable = False, mr_cache = c\<rparr>"

definition PAGE_SIZE :: u64 where
  "PAGE_SIZE = FRAME_SIZE"

record page =
  page_start :: virt_addr

definition page_from_start_address :: "virt_addr \<Rightarrow> page option" where
  "page_from_start_address a =
     (if is_aligned_to (v_u64 a) PAGE_SIZE then Some \<lparr>page_start = a\<rparr> else None)"

definition page_containing :: "virt_addr \<Rightarrow> page" where
  "page_containing a = \<lparr>page_start = VirtAddr (align_down (v_u64 a) PAGE_SIZE)\<rparr>"

record page_flags =
  pf_writable :: bool
  pf_executable :: bool
  pf_user :: bool
  pf_cache :: cache_policy

definition kernel_flags :: "bool \<Rightarrow> bool \<Rightarrow> page_flags" where
  "kernel_flags w x =
     \<lparr>pf_writable = w, pf_executable = x, pf_user = False, pf_cache = WriteBack\<rparr>"

definition user_flags :: "bool \<Rightarrow> bool \<Rightarrow> page_flags" where
  "user_flags w x =
     \<lparr>pf_writable = w, pf_executable = x, pf_user = True, pf_cache = WriteBack\<rparr>"

definition cached_as :: "page_flags \<Rightarrow> cache_policy \<Rightarrow> page_flags" where
  "cached_as f c = f\<lparr>pf_cache := c\<rparr>"

datatype map_error =
  MapOutsideKernelSpace | AlreadyMapped | OutOfFrames | TableFrameNotWritable | MapHugePageInTheWay

datatype unmap_error = UnmapOutsideKernelSpace | NotMapped | UnmapHugePageInTheWay

end
