(* ===== verification/Elf.thy ===== *)
theory Elf
  imports Hal_Memory
begin

text \<open>
  Reading an ELF64 program (\<^verbatim>\<open>hal/src/elf.rs\<close>): the header, the program headers, and every
  check \<open>parse\<close> makes before a number of the file becomes an address. Slicing out of range is a panic
  of the model, so that the absence of panics is a theorem; a slice never has more than \<open>isize::MAX\<close>
  bytes. The array of segments is the list of the
  slots in use.
\<close>

section \<open>The format\<close>

definition MAGIC :: bytes where "MAGIC = [0x7F, 0x45, 0x4C, 0x46]"
definition CLASS_64 :: u8 where "CLASS_64 = 2"
definition DATA_LITTLE_ENDIAN :: u8 where "DATA_LITTLE_ENDIAN = 1"
definition VERSION_CURRENT :: u8 where "VERSION_CURRENT = 1"
definition TYPE_EXECUTABLE :: u16 where "TYPE_EXECUTABLE = 2"
definition MACHINE_X86_64 :: u16 where "MACHINE_X86_64 = 0x3E"
definition HEADER_BYTES :: usize where "HEADER_BYTES = 64"
definition PROGRAM_HEADER_BYTES :: usize where "PROGRAM_HEADER_BYTES = 56"
definition PT_LOAD :: u32 where "PT_LOAD = 1"
definition FLAG_EXECUTE :: u32 where "FLAG_EXECUTE = 1"
definition FLAG_WRITE :: u32 where "FLAG_WRITE = 2"
definition FLAG_READ :: u32 where "FLAG_READ = 4"
definition MAX_SEGMENTS :: usize where "MAX_SEGMENTS = 8"

datatype elf_error =
    NotElf
  | NotSixtyFourBitLittleEndian u8 u8 u8
  | NotAStaticExecutable u16
  | NotX86_64 u16
  | Truncated u64 u64
  | BadProgramHeaders u16 u16
  | SegmentOutsideFile u64 u64
  | SegmentShrinks u64 u64
  | SegmentOfNothing u64
  | SegmentOutsideUserSpace u64 u64
  | SegmentWritableAndExecutable u64
  | TooManySegments usize
  | NoSegments
  | EntryOutsideSegments u64

record segment =
  file_offset :: u64
  file_size :: u64
  seg_at :: virt_addr
  memory_size :: u64
  seg_flags :: u32

definition seg_readable :: "segment \<Rightarrow> bool" where
  "seg_readable s \<longleftrightarrow> seg_flags s AND FLAG_READ \<noteq> 0"

definition seg_writable :: "segment \<Rightarrow> bool" where
  "seg_writable s \<longleftrightarrow> seg_flags s AND FLAG_WRITE \<noteq> 0"

definition seg_executable :: "segment \<Rightarrow> bool" where
  "seg_executable s \<longleftrightarrow> seg_flags s AND FLAG_EXECUTE \<noteq> 0"

definition seg_zeroes :: "segment \<Rightarrow> u64" where
  "seg_zeroes s = memory_size s - file_size s"

definition seg_end :: "segment \<Rightarrow> u64" where
  "seg_end s = v_u64 (seg_at s) + memory_size s"

record program =
  prog_entry :: virt_addr
  prog_segments :: "segment list"

definition segment_count :: "program \<Rightarrow> usize" where
  "segment_count p = length (prog_segments p)"

definition highest_address :: "program \<Rightarrow> u64" where
  "highest_address p = fold (\<lambda>s m. max m (seg_end s)) (prog_segments p) 0"

definition u16_at :: "bytes \<Rightarrow> usize \<Rightarrow> u16" where
  "u16_at bs at = u16_from_le (bs ! at) (bs ! (at + 1))"

definition u32_at :: "bytes \<Rightarrow> usize \<Rightarrow> u32" where
  "u32_at bs at = u32_from_le (bs ! at) (bs ! (at + 1)) (bs ! (at + 2)) (bs ! (at + 3))"

definition u64_at :: "bytes \<Rightarrow> usize \<Rightarrow> u64" where
  "u64_at bs at = ucast (u32_at bs at) OR push_bit 32 (ucast (u32_at bs (at + 4)))"

section \<open>Parsing\<close>

text \<open>One loadable header: the checks, in the order of the loop body.\<close>

definition read_segment :: "bytes \<Rightarrow> u64 \<Rightarrow> bytes \<Rightarrow> elf_error + segment" where
  "read_segment file user_space_end header =
     (let offset = u64_at header 8; fsize = u64_at header 32; msize = u64_at header 40;
          address = u64_at header 16; flags = u32_at header 4 in
      if (case checked_add offset fsize of None \<Rightarrow> True | Some e \<Rightarrow> e > of_nat (length file))
      then Inl (SegmentOutsideFile offset fsize)
      else if msize < fsize then Inl (SegmentShrinks fsize msize)
      else if msize = 0 then Inl (SegmentOfNothing address)
      else if (case checked_add address msize of Some e \<Rightarrow> \<not> e \<le> user_space_end | None \<Rightarrow> True)
      then Inl (SegmentOutsideUserSpace address msize)
      else if flags AND FLAG_WRITE \<noteq> 0 \<and> flags AND FLAG_EXECUTE \<noteq> 0
      then Inl (SegmentWritableAndExecutable address)
      else Inr \<lparr>file_offset = offset, file_size = fsize, seg_at = VirtAddr address,
        memory_size = msize, seg_flags = flags\<rparr>)"

text \<open>The loop over the program headers; \<open>segments\<close> are those found so far.\<close>

fun parse_loop :: "bytes \<Rightarrow> u64 \<Rightarrow> u64 \<Rightarrow> u16 \<Rightarrow> nat list \<Rightarrow> segment list \<Rightarrow>
    panic + (elf_error + segment list)" where
  "parse_loop file user_space_end table entry_size [] segments = Inr (Inr segments)"
| "parse_loop file user_space_end table entry_size (index # indices) segments =
     (let at = unat (table + of_nat index * ucast entry_size) in
      if at + PROGRAM_HEADER_BYTES > length file then Inl (Panic ''slice index out of range'')
      else let header = take PROGRAM_HEADER_BYTES (drop at file) in
        if u32_at header 0 \<noteq> PT_LOAD then parse_loop file user_space_end table entry_size indices segments
        else case read_segment file user_space_end header of
            Inl e \<Rightarrow> Inr (Inl e)
          | Inr s \<Rightarrow>
              if length segments = MAX_SEGMENTS then Inr (Inl (TooManySegments (length segments + 1)))
              else parse_loop file user_space_end table entry_size indices (segments @ [s]))"

definition entry_inside :: "u64 \<Rightarrow> segment list \<Rightarrow> bool" where
  "entry_inside entry segments \<longleftrightarrow>
     (\<exists>s \<in> set segments. entry \<ge> v_u64 (seg_at s) \<and> entry < seg_end s \<and> seg_executable s)"

definition parse :: "bytes \<Rightarrow> u64 \<Rightarrow> panic + (elf_error + program)" where
  "parse file user_space_end =
     (if length file < HEADER_BYTES \<or> take 4 file \<noteq> MAGIC then Inr (Inl NotElf)
      else let class = file ! 4; data = file ! 5; version = file ! 6 in
      if class \<noteq> CLASS_64 \<or> data \<noteq> DATA_LITTLE_ENDIAN \<or> version \<noteq> VERSION_CURRENT
      then Inr (Inl (NotSixtyFourBitLittleEndian class data version))
      else let kind = u16_at file 16 in
      if kind \<noteq> TYPE_EXECUTABLE then Inr (Inl (NotAStaticExecutable kind))
      else let machine = u16_at file 18 in
      if machine \<noteq> MACHINE_X86_64 then Inr (Inl (NotX86_64 machine))
      else let entry_size = u16_at file 54; count = u16_at file 56 in
      if unat entry_size \<noteq> PROGRAM_HEADER_BYTES \<or> count = 0 then Inr (Inl (BadProgramHeaders entry_size count))
      else let table = u64_at file 32;
               table_end = saturating_add table (ucast count * ucast entry_size) in
      if table_end > of_nat (length file) then Inr (Inl (Truncated table_end (of_nat (length file))))
      else and_then (parse_loop file user_space_end table entry_size [0..<unat count] []) (\<lambda>r.
        case r of Inl e \<Rightarrow> Inr (Inl e)
        | Inr segments \<Rightarrow>
            let entry = u64_at file 24 in
            if segments = [] then Inr (Inl NoSegments)
            else if \<not> entry_inside entry segments then Inr (Inl (EntryOutsideSegments entry))
            else Inr (Inr \<lparr>prog_entry = VirtAddr entry, prog_segments = segments\<rparr>)))"

section \<open>What is accepted\<close>

definition segment_ok :: "bytes \<Rightarrow> u64 \<Rightarrow> segment \<Rightarrow> bool" where
  "segment_ok file user_space_end s \<longleftrightarrow>
     unat (file_offset s) + unat (file_size s) \<le> length file \<and>
     unat (file_size s) \<le> unat (memory_size s) \<and> 0 < unat (memory_size s) \<and>
     unat (v_u64 (seg_at s)) + unat (memory_size s) \<le> unat user_space_end \<and>
     \<not> (seg_writable s \<and> seg_executable s)"

text \<open>The loadable headers of a file, in order, as a table reads.\<close>

definition header_at :: "bytes \<Rightarrow> u64 \<Rightarrow> nat \<Rightarrow> bytes" where
  "header_at file table k = take 56 (drop (unat table + k * 56) file)"

definition load_headers :: "bytes \<Rightarrow> u64 \<Rightarrow> nat list \<Rightarrow> bytes list" where
  "load_headers file table ks = filter (\<lambda>h. u32_at h 0 = PT_LOAD) (map (header_at file table) ks)"

lemma read_segment_ok:
  assumes "read_segment file e header = Inr s" "length file < 2 ^ 63"
  shows "segment_ok file e s"
  using assms
  by (auto simp: read_segment_def Let_def segment_ok_def seg_writable_def seg_executable_def checked_add_Some_iff
      unat_of_nat_exact word_less_nat_alt word_le_nat_alt unat_gt_0 split: if_splits option.splits)

lemma parse_loop_ok:
  assumes "length file < 2 ^ 63" "entry_size = 56"
    and "\<forall>k \<in> set ks. unat table + k * 56 + 56 \<le> length file"
    and "length segs \<le> 8" "\<forall>s \<in> set segs. segment_ok file e s"
  shows "\<exists>r. parse_loop file e table entry_size ks segs = Inr r \<and>
    (\<forall>ss. r = Inr ss \<longrightarrow> length ss \<le> 8 \<and> (\<forall>s \<in> set ss. segment_ok file e s) \<and>
       map Inr ss = map Inr segs @ map (read_segment file e) (load_headers file table ks))"
  using assms(3-5)
proof (induction ks arbitrary: segs)
  case (Cons k ks)
  have "unat table + k * 56 < 2 ^ 64" using Cons.prems(1) assms(1) by simp
  then have "k < 2 ^ 64" "k * 56 < 2 ^ 64" by simp_all
  then have "unat (of_nat k * 56 :: u64) = k * 56" by (simp add: unat_word_ariths unat_of_nat)
  then have at: "unat (table + of_nat k * ucast entry_size) = unat table + k * 56"
    using \<open>unat table + k * 56 < 2 ^ 64\<close> assms(2) by (simp add: unat_add_exact)
  have IH: "\<exists>r. parse_loop file e table entry_size ks segs' = Inr r \<and>
    (\<forall>ss. r = Inr ss \<longrightarrow> length ss \<le> 8 \<and> (\<forall>s \<in> set ss. segment_ok file e s) \<and>
       map Inr ss = map Inr segs' @ map (read_segment file e) (load_headers file table ks))"
    if "length segs' \<le> 8" "\<forall>s \<in> set segs'. segment_ok file e s" for segs'
    using Cons.IH [OF _ that] Cons.prems(1) by simp
  let ?h = "header_at file table k"
  have step: "parse_loop file e table entry_size (k # ks) segs =
    (if u32_at ?h 0 \<noteq> PT_LOAD then parse_loop file e table entry_size ks segs
     else case read_segment file e ?h of Inl e \<Rightarrow> Inr (Inl e)
       | Inr s \<Rightarrow> if length segs = 8 then Inr (Inl (TooManySegments 9))
         else parse_loop file e table entry_size ks (segs @ [s]))"
    using Cons.prems(1) by (simp add: Let_def at header_at_def PROGRAM_HEADER_BYTES_def MAX_SEGMENTS_def split: sum.splits)
  show ?case
  proof (cases "u32_at ?h 0 = PT_LOAD")
    case False
    then show ?thesis using IH [OF Cons.prems(2,3)] by (simp add: step load_headers_def del: parse_loop.simps)
  next
    case True
    show ?thesis
    proof (cases "read_segment file e ?h")
      case (Inr s)
      have "segment_ok file e s" by (rule read_segment_ok [OF Inr assms(1)])
      then show ?thesis using True Inr IH [of "segs @ [s]"] Cons.prems(2,3)
        by (cases "length segs = 8") (simp_all add: step load_headers_def del: parse_loop.simps)
    qed (use True in \<open>simp add: step del: parse_loop.simps\<close>)
  qed
qed (simp add: load_headers_def)

section \<open>Properties\<close>

lemma parse_cases:
  assumes "length file < 2 ^ 63"
  obtains (refused) e where "parse file user_end = Inr (Inl e)"
    | (accepted) ss where "64 \<le> length file" "u16_at file 54 = 56"
      "unat (u64_at file 32) + unat (u16_at file 56) * 56 \<le> length file"
      "map Inr ss = map (read_segment file user_end) (load_headers file (u64_at file 32) [0..<unat (u16_at file 56)])"
      "length ss \<le> 8" "ss \<noteq> []" "\<forall>s \<in> set ss. segment_ok file user_end s" "entry_inside (u64_at file 24) ss"
      "parse file user_end = Inr (Inr \<lparr>prog_entry = VirtAddr (u64_at file 24), prog_segments = ss\<rparr>)"
proof -
  let ?t = "u64_at file 32" and ?n = "u16_at file 56"
  let ?header = "length file < HEADER_BYTES \<or> take 4 file \<noteq> MAGIC \<or> file ! 4 \<noteq> CLASS_64 \<or> file ! 5 \<noteq> DATA_LITTLE_ENDIAN \<or>
    file ! 6 \<noteq> VERSION_CURRENT \<or> u16_at file 16 \<noteq> TYPE_EXECUTABLE \<or> u16_at file 18 \<noteq> MACHINE_X86_64 \<or>
    unat (u16_at file 54) \<noteq> PROGRAM_HEADER_BYTES \<or> ?n = 0 \<or>
    saturating_add ?t (ucast ?n * ucast (u16_at file 54)) > of_nat (length file)"
  show ?thesis
  proof (cases ?header)
    case True
    have "\<exists>e. r = Inr (Inl e)" if "parse file user_end = r" for r
      using that True unfolding parse_def Let_def by (simp only: split: if_split_asm) blast+
    then show ?thesis using refused by blast
  next
    case False
    have es: "u16_at file 54 = 56" using False by (simp add: PROGRAM_HEADER_BYTES_def word_unat_eq_iff)
    have "unat ?n * 56 < 2 ^ 64" using unat_u16_bound [of ?n] by simp
    then have n: "unat (ucast ?n * 56 :: u64) = unat ?n * 56" by (simp add: unat_word_ariths unat_ucast_up)
    have tab: "unat ?t + unat ?n * 56 \<le> length file"
      using False n assms by (auto simp: es word_less_nat_alt unat_saturating_add unat_of_nat_exact not_less min_def
          split: if_splits)
    then have "\<forall>k \<in> set [0..<unat ?n]. unat ?t + k * 56 + 56 \<le> length file" by auto
    from parse_loop_ok [OF assms es this, of "[]" user_end] obtain r where
      r: "parse_loop file user_end ?t (u16_at file 54) [0..<unat ?n] [] = Inr r"
        "\<forall>ss. r = Inr ss \<longrightarrow> length ss \<le> 8 \<and> (\<forall>s \<in> set ss. segment_ok file user_end s) \<and>
         map Inr ss = map (read_segment file user_end) (load_headers file ?t [0..<unat ?n])"
      by auto
    have p: "parse file user_end = (case r of Inl e \<Rightarrow> Inr (Inl e)
        | Inr segments \<Rightarrow>
            if segments = [] then Inr (Inl NoSegments)
            else if \<not> entry_inside (u64_at file 24) segments then Inr (Inl (EntryOutsideSegments (u64_at file 24)))
            else Inr (Inr \<lparr>prog_entry = VirtAddr (u64_at file 24), prog_segments = segments\<rparr>))"
      using False r(1) by (simp add: parse_def Let_def)
    show ?thesis
    proof (cases "\<exists>ss. r = Inr ss \<and> ss \<noteq> [] \<and> entry_inside (u64_at file 24) ss")
      case True
      then show ?thesis using accepted es tab r(2) p False by (auto simp: HEADER_BYTES_def)
    next
      case False
      then show ?thesis using refused p by (cases r) (auto split: if_splits)
    qed
  qed
qed

text \<open>
  C14. What the loader is handed: \<open>parse\<close> never reads outside the file, whatever the file holds, and
  a program it accepts has between one and eight segments, each with its bytes inside the file, with
  at least as much memory as file, inside the user half with no wrap-around, never writable and
  executable, and an entry point inside an executable segment.
\<close>

theorem parsed_program_is_loadable:
  assumes "length file < 2 ^ 63"
  shows "\<exists>r. parse file user_end = Inr r \<and> (\<forall>p. r = Inr p \<longrightarrow>
    1 \<le> segment_count p \<and> segment_count p \<le> 8 \<and>
    (\<forall>s \<in> set (prog_segments p).
       unat (file_offset s) + unat (file_size s) \<le> length file \<and>
       unat (file_size s) \<le> unat (memory_size s) \<and> 0 < unat (memory_size s) \<and>
       unat (v_u64 (seg_at s)) + unat (memory_size s) \<le> unat user_end \<and>
       \<not> (seg_writable s \<and> seg_executable s)) \<and>
    (\<exists>s \<in> set (prog_segments p). seg_executable s \<and> v_u64 (seg_at s) \<le> v_u64 (prog_entry p) \<and>
       unat (v_u64 (prog_entry p)) < unat (v_u64 (seg_at s)) + unat (memory_size s)))"
  using assms
proof (cases rule: parse_cases [where user_end = user_end])
  case (accepted ss)
  have "unat (seg_end s) = unat (v_u64 (seg_at s)) + unat (memory_size s)" if "s \<in> set ss" for s
  proof -
    have "unat (v_u64 (seg_at s)) + unat (memory_size s) \<le> unat user_end"
      using accepted(7) that by (simp add: segment_ok_def)
    then show ?thesis using unat_lt_pow [of user_end] by (simp add: seg_end_def unat_add_exact)
  qed
  then show ?thesis using accepted
    by (auto simp: segment_count_def segment_ok_def entry_inside_def word_less_nat_alt Suc_le_eq)
qed simp

definition sample_elf :: bytes where
  "sample_elf = [0x7F, 0x45, 0x4C, 0x46, 2, 1, 1] @ replicate 9 0 @ [2, 0, 0x3E, 0] @ replicate 4 0 @
     [0x78, 0, 0x40, 0, 0, 0, 0, 0, 64, 0, 0, 0, 0, 0, 0, 0] @ replicate 14 0 @ [56, 0, 1, 0] @ replicate 6 0 @
     [1, 0, 0, 0, 5, 0, 0, 0] @ replicate 8 0 @ [0, 0, 0x40, 0, 0, 0, 0, 0] @ replicate 8 0 @
     [120, 0, 0, 0, 0, 0, 0, 0, 0, 0x10, 0, 0, 0, 0, 0, 0] @ replicate 8 0"

lemma sample_elf_parses:
  "parse sample_elf 0x800000000000 = Inr (Inr \<lparr>prog_entry = VirtAddr 0x400078, prog_segments =
     [\<lparr>file_offset = 0, file_size = 120, seg_at = VirtAddr 0x400000, memory_size = 0x1000, seg_flags = 5\<rparr>]\<rparr>)"
  by (simp add: parse_def sample_elf_def Let_def MAGIC_def HEADER_BYTES_def CLASS_64_def DATA_LITTLE_ENDIAN_def
      VERSION_CURRENT_def TYPE_EXECUTABLE_def MACHINE_X86_64_def PROGRAM_HEADER_BYTES_def PT_LOAD_def MAX_SEGMENTS_def
      u16_at_def u32_at_def u64_at_def u16_from_le_def u32_from_le_def nth_append saturating_add_def checked_add_def
      read_segment_def entry_inside_def seg_end_def seg_executable_def FLAG_EXECUTE_def FLAG_WRITE_def upt_rec)

theorem parsed_program_is_loadable_witness:
  "\<exists>p. parse sample_elf 0x800000000000 = Inr (Inr p) \<and> 1 \<le> segment_count p \<and> segment_count p \<le> 8"
  using parsed_program_is_loadable [of sample_elf "0x800000000000"]
  unfolding sample_elf_parses by (simp add: sample_elf_def)

text \<open>
  Nothing of the program is lost: the segments of an accepted program are exactly what its
  loadable headers say, in their order, read from the table the file header points at.
\<close>

theorem parsed_segments_are_the_headers:
  assumes "length file < 2 ^ 63" "parse file user_end = Inr (Inr p)"
  shows "map Inr (prog_segments p) = map (read_segment file user_end)
    (filter (\<lambda>h. u32_at h 0 = PT_LOAD)
       (map (\<lambda>k. take 56 (drop (unat (u64_at file 32) + k * 56) file)) [0..<unat (u16_at file 56)]))"
  using assms(1)
proof (cases rule: parse_cases [where user_end = user_end])
  case (accepted ss)
  then show ?thesis using assms(2) by (simp add: load_headers_def header_at_def [abs_def])
qed (use assms(2) in simp)

theorem parsed_segments_are_the_headers_witness:
  "map Inr [\<lparr>file_offset = 0, file_size = 120, seg_at = VirtAddr 0x400000, memory_size = 0x1000, seg_flags = 5\<rparr>] =
     map (read_segment sample_elf 0x800000000000) (filter (\<lambda>h. u32_at h 0 = PT_LOAD)
       (map (\<lambda>k. take 56 (drop (unat (u64_at sample_elf 32) + k * 56) sample_elf)) [0..<unat (u16_at sample_elf 56)]))"
proof -
  have "length sample_elf < 2 ^ 63" by (simp add: sample_elf_def)
  from parsed_segments_are_the_headers [OF this sample_elf_parses] show ?thesis by (simp only: program.select_convs)
qed

end
