(* ===== verification/Frame_Allocator.thy ===== *)
theory Frame_Allocator
  imports Hal_Memory
begin

text \<open>
  The bitmap physical frame allocator (\<^verbatim>\<open>kernel/src/memory/frame_allocator.rs\<close>): one bit per
  frame, set for a frame that is withheld or handed out. The theory gives its operations, the
  invariant that ties the bitmap, the free count and the purpose table to the memory map, what each
  operation does to the set of free frames, and the interface of a source of frames
  (\<open>FrameAllocator\<close> of \<^verbatim>\<open>hal/src/frame.rs\<close>) as a locale that the allocator interprets.
\<close>

section \<open>Data\<close>

datatype frame_purpose = Boot | PageTable | Heap | Stack | Kernel | Dma

datatype dealloc_error =
    NotManaged
  | NotAllocated
  | WrongPurpose frame_purpose "frame_purpose option"

definition purpose_byte :: "frame_purpose \<Rightarrow> u8" where
  "purpose_byte p =
     (case p of Boot \<Rightarrow> 1 | PageTable \<Rightarrow> 2 | Heap \<Rightarrow> 3 | Stack \<Rightarrow> 4 | Kernel \<Rightarrow> 5 | Dma \<Rightarrow> 6)"

definition from_byte :: "u8 \<Rightarrow> frame_purpose option" where
  "from_byte b =
     (if b = 1 then Some Boot
      else if b = 2 then Some PageTable
      else if b = 3 then Some Heap
      else if b = 4 then Some Stack
      else if b = 5 then Some Kernel
      else if b = 6 then Some Dma
      else None)"

text \<open>The counters \<open>free\<close> and \<open>uncovered\<close> are \<open>u64\<close> in the source; both stay below
  \<open>2 ^ 64\<close> (the invariant bounds \<open>free\<close> by the number of covered frames).\<close>

record frame_allocator =
  bitmap :: "u64 list"
  mem_map :: memory_map
  boot_services_reclaimed :: bool
  purposes :: "u8 list option"
  free :: nat
  next_word :: usize
  uncovered :: nat

section \<open>Operations\<close>

definition covered_frames :: "frame_allocator \<Rightarrow> nat" where
  "covered_frames a = length (bitmap a) * 64"

text \<open>The two primitives on the bitmap; every caller passes a frame below \<open>covered_frames\<close>.\<close>

definition bit_of :: "u64 list \<Rightarrow> nat \<Rightarrow> bool" where
  "bit_of bm frame \<longleftrightarrow> (bm ! (frame div 64)) AND push_bit (frame mod 64) 1 \<noteq> 0"

definition set_bit_of :: "u64 list \<Rightarrow> nat \<Rightarrow> bool \<Rightarrow> u64 list" where
  "set_bit_of bm frame value =
     (let word = bm ! (frame div 64); mask = push_bit (frame mod 64) 1
      in bm[frame div 64 := (if value then word OR mask else word AND NOT mask)])"

definition fa_bit :: "frame_allocator \<Rightarrow> nat \<Rightarrow> bool" where
  "fa_bit a frame = bit_of (bitmap a) frame"

definition fa_set_bit :: "frame_allocator \<Rightarrow> nat \<Rightarrow> bool \<Rightarrow> frame_allocator" where
  "fa_set_bit a frame value = a\<lparr>bitmap := set_bit_of (bitmap a) frame value\<rparr>"

definition region_end :: "memory_region \<Rightarrow> u64" where
  "region_end r =
     saturating_add (p_u64 (start_phys_addr r)) (saturating_mul (page_count r) FRAME_SIZE)"

definition inward_frames :: "memory_region \<Rightarrow> nat \<times> nat" where
  "inward_frames r =
     (unat (div_ceil (p_u64 (start_phys_addr r)) FRAME_SIZE), unat (region_end r div FRAME_SIZE))"

definition outward_frames :: "memory_region \<Rightarrow> nat \<times> nat" where
  "outward_frames r =
     (unat (p_u64 (start_phys_addr r) div FRAME_SIZE), unat (div_ceil (region_end r) FRAME_SIZE))"

definition in_frames :: "nat \<times> nat \<Rightarrow> nat \<Rightarrow> bool" where
  "in_frames fe n \<longleftrightarrow> fst fe \<le> n \<and> n < snd fe"

definition allocatable :: "bool \<Rightarrow> memory_region_kind \<Rightarrow> bool" where
  "allocatable reclaimed k \<longleftrightarrow> k = Usable \<or> (reclaimed \<and> k = BootServices)"

definition map_allows :: "memory_map \<Rightarrow> bool \<Rightarrow> nat \<Rightarrow> bool" where
  "map_allows m reclaimed n \<longleftrightarrow>
     list_ex (\<lambda>r. allocatable reclaimed (kind r) \<and> in_frames (inward_frames r) n) (regions m) \<and>
     \<not> list_ex (\<lambda>r. \<not> allocatable reclaimed (kind r) \<and> in_frames (outward_frames r) n) (regions m)"

definition manages :: "frame_allocator \<Rightarrow> phys_frame \<Rightarrow> bool" where
  "manages a frame \<longleftrightarrow>
     (let n = number frame
      in n \<noteq> 0 \<and> n < covered_frames a \<and> map_allows (mem_map a) (boot_services_reclaimed a) n)"

definition fa_set_bits :: "frame_allocator \<Rightarrow> nat list \<Rightarrow> bool \<Rightarrow> frame_allocator" where
  "fa_set_bits a ns value = fold (\<lambda>n a. fa_set_bit a n value) ns a"

definition new_usable :: "frame_allocator \<Rightarrow> memory_region \<Rightarrow> frame_allocator" where
  "new_usable a r =
     (let (first, end) = inward_frames r; covered = covered_frames a
      in fa_set_bits (a\<lparr>uncovered := uncovered a + (end - max first covered)\<rparr>)
           [first..<min end covered] False)"

definition new_withheld :: "frame_allocator \<Rightarrow> memory_region \<Rightarrow> frame_allocator" where
  "new_withheld a r =
     (let (first, end) = outward_frames r
      in fa_set_bits a [first..<min end (covered_frames a)] True)"

definition count_free :: "u64 list \<Rightarrow> nat" where
  "count_free bm = sum_list (map count_zeros bm)"

definition fa_new :: "u64 list \<Rightarrow> memory_map \<Rightarrow> frame_allocator" where
  "fa_new storage m =
     (let a0 = \<lparr>bitmap = map (\<lambda>_. u64_max) storage, mem_map = m, boot_services_reclaimed = False,
                purposes = None, free = 0, next_word = 0, uncovered = 0\<rparr>;
          a1 = fold (\<lambda>r a. new_usable a r) (filter (\<lambda>r. kind r = Usable) (regions m)) a0;
          a2 = fold (\<lambda>r a. new_withheld a r) (filter (\<lambda>r. kind r \<noteq> Usable) (regions m)) a1;
          a3 = (if covered_frames a2 > 0 then fa_set_bit a2 0 True else a2)
      in a3\<lparr>free := count_free (bitmap a3)\<rparr>)"

definition adopt :: "u64 list \<Rightarrow> memory_map \<Rightarrow> bool \<Rightarrow> frame_allocator" where
  "adopt storage m reclaimed =
     \<lparr>bitmap = storage, mem_map = m, boot_services_reclaimed = reclaimed, purposes = None,
      free = count_free storage, next_word = 0, uncovered = 0\<rparr>"

definition with_purposes :: "frame_allocator \<Rightarrow> u8 list \<Rightarrow> panic + frame_allocator" where
  "with_purposes a table =
     (let covered = covered_frames a
      in if length table < covered
         then Inl (Panic ''the purpose table must cover every frame the bitmap does'')
         else Inr (a\<lparr>purposes := Some
           (map (\<lambda>n. if manages a (frame_no n) \<and> fa_bit a n then purpose_byte Boot else 0)
              [0..<covered] @ drop covered table)\<rparr>))"

definition purpose_of :: "frame_allocator \<Rightarrow> phys_frame \<Rightarrow> frame_purpose option" where
  "purpose_of a frame =
     Option.bind (purposes a) (\<lambda>table. Option.bind (get_at table (number frame)) from_byte)"

definition frames_for :: "frame_allocator \<Rightarrow> frame_purpose \<Rightarrow> nat" where
  "frames_for a p =
     (case purposes a of None \<Rightarrow> 0
      | Some table \<Rightarrow> length (filter (\<lambda>b. b = purpose_byte p) table))"

definition set_purpose ::
    "frame_allocator \<Rightarrow> phys_frame \<Rightarrow> frame_purpose option \<Rightarrow> frame_allocator" where
  "set_purpose a frame purpose =
     (case purposes a of
        None \<Rightarrow> a
      | Some table \<Rightarrow>
          (if number frame < length table
           then a\<lparr>purposes := Some (table[number frame :=
                    (case purpose of None \<Rightarrow> 0 | Some p \<Rightarrow> purpose_byte p)])\<rparr>
           else a))"

definition label :: "frame_allocator \<Rightarrow> phys_frame \<Rightarrow> frame_purpose \<Rightarrow> bool \<times> frame_allocator" where
  "label a frame purpose =
     (let held = manages a frame \<and> fa_bit a (number frame)
      in (held, if held then set_purpose a frame (Some purpose) else a))"

text \<open>The search of \<open>allocate\<close> over the words, starting at \<open>next_word\<close> and wrapping round.\<close>

fun find_word :: "u64 list \<Rightarrow> usize \<Rightarrow> usize list \<Rightarrow> usize option" where
  "find_word bm start [] = None"
| "find_word bm start (offset # offsets) =
     (let index = (start + offset) mod length bm
      in if bm ! index \<noteq> u64_max then Some index else find_word bm start offsets)"

definition fa_allocate :: "frame_allocator \<Rightarrow> phys_frame option \<times> frame_allocator" where
  "fa_allocate a =
     (if free a = 0 then (None, a)
      else case find_word (bitmap a) (next_word a) [0..<length (bitmap a)] of
        None \<Rightarrow> (None, a)
      | Some index \<Rightarrow>
          (let word = bitmap a ! index; b = trailing_zeros (NOT word)
           in (Some (frame_no (index * 64 + b)),
               a\<lparr>bitmap := (bitmap a)[index := word OR push_bit b 1],
                 free := free a - 1, next_word := index\<rparr>)))"

definition allocate_for :: "frame_allocator \<Rightarrow> frame_purpose \<Rightarrow> phys_frame option \<times> frame_allocator" where
  "allocate_for a purpose =
     (case fa_allocate a of
        (None, a') \<Rightarrow> (None, a')
      | (Some frame, a') \<Rightarrow> (Some frame, set_purpose a' frame (Some purpose)))"

definition allocate_frame :: "frame_allocator \<Rightarrow> phys_frame option \<times> frame_allocator" where
  "allocate_frame a = allocate_for a PageTable"

definition deallocate_unchecked ::
    "frame_allocator \<Rightarrow> phys_frame \<Rightarrow> (dealloc_error + unit) \<times> frame_allocator" where
  "deallocate_unchecked a frame =
     (if \<not> manages a frame then (Inl NotManaged, a)
      else if \<not> fa_bit a (number frame) then (Inl NotAllocated, a)
      else let a1 = fa_set_bit a (number frame) False; a2 = set_purpose a1 frame None
           in (Inr (), a2\<lparr>free := free a2 + 1\<rparr>))"

definition deallocate_as ::
    "frame_allocator \<Rightarrow> phys_frame \<Rightarrow> frame_purpose \<Rightarrow> (dealloc_error + unit) \<times> frame_allocator" where
  "deallocate_as a frame purpose =
     (let actual = purpose_of a frame
      in if purposes a \<noteq> None \<and> actual \<noteq> Some purpose then (Inl (WrongPurpose purpose actual), a)
         else deallocate_unchecked a frame)"

definition reclaim_frame :: "nat \<Rightarrow> frame_allocator \<times> nat \<Rightarrow> frame_allocator \<times> nat" where
  "reclaim_frame n s =
     (let (a, added) = s
      in if manages a (frame_no n) \<and> fa_bit a n then (fa_set_bit a n False, added + 1)
         else (a, added))"

definition reclaim_region :: "memory_region \<Rightarrow> frame_allocator \<times> nat \<Rightarrow> frame_allocator \<times> nat" where
  "reclaim_region r s =
     (let (first, end) = inward_frames r
      in fold reclaim_frame [first..<min end (covered_frames (fst s))] s)"

definition reclaim_boot_services :: "frame_allocator \<Rightarrow> nat \<times> frame_allocator" where
  "reclaim_boot_services a =
     (if boot_services_reclaimed a then (0, a)
      else let (a', added) =
             fold reclaim_region (filter (\<lambda>r. kind r = BootServices) (regions (mem_map a)))
               (a\<lparr>boot_services_reclaimed := True\<rparr>, 0)
           in (added, a'\<lparr>free := free a' + added\<rparr>))"

definition free_frames :: "frame_allocator \<Rightarrow> nat" where
  "free_frames a = free a"

definition uncovered_usable_frames :: "frame_allocator \<Rightarrow> nat" where
  "uncovered_usable_frames a = uncovered a"

section \<open>The bitmap\<close>

definition free_bits :: "u64 list \<Rightarrow> nat set" where
  "free_bits bm = {n. n < length bm * 64 \<and> \<not> bit_of bm n}"

definition free_set :: "frame_allocator \<Rightarrow> nat set" where
  "free_set a = free_bits (bitmap a)"

lemma bit_of_iff: "bit_of bm n \<longleftrightarrow> bit (bm ! (n div 64)) (n mod 64)"
  by (simp add: bit_of_def bit_iff_and_push_bit_not_eq_0)

lemma length_set_bit_of [simp]: "length (set_bit_of bm n v) = length bm"
  by (simp add: set_bit_of_def Let_def)

lemma bit_of_update:
  assumes "i < length bm" "m < length bm * 64"
    and w: "\<And>k. k < 64 \<Longrightarrow> bit w k \<longleftrightarrow> (if k = b then v else bit (bm ! i) k)" and "b < 64"
  shows "bit_of (bm[i := w]) m \<longleftrightarrow> (if m = i * 64 + b then v else bit_of bm m)"
proof (cases "m div 64 = i")
  case True
  then have "m = i * 64 + b \<longleftrightarrow> m mod 64 = b"
    using div_mult_mod_eq [of m 64] by (metis add_left_cancel)
  with True assms show ?thesis by (simp add: bit_of_iff)
next
  case False
  with assms have "m \<noteq> i * 64 + b" by auto
  with False show ?thesis by (simp add: bit_of_iff)
qed

lemma bit_of_set_bit_of:
  assumes "n < length bm * 64" "m < length bm * 64"
  shows "bit_of (set_bit_of bm n v) m \<longleftrightarrow> (if m = n then v else bit_of bm m)"
proof -
  let ?w = "if v then bm ! (n div 64) OR push_bit (n mod 64) 1
            else bm ! (n div 64) AND NOT (push_bit (n mod 64) 1)"
  have "bit ?w k \<longleftrightarrow> (if k = n mod 64 then v else bit (bm ! (n div 64)) k)" if "k < 64" for k
    using that by (simp add: bit_or_iff bit_and_iff bit_not_iff bit_mask_one del: push_bit_of_1)
  moreover have "n div 64 < length bm" using assms(1) by (simp add: less_mult_imp_div_less)
  ultimately have "bit_of (bm[n div 64 := ?w]) m \<longleftrightarrow>
      (if m = n div 64 * 64 + n mod 64 then v else bit_of bm m)"
    using assms(2) by (intro bit_of_update) simp_all
  then show ?thesis by (simp add: set_bit_of_def Let_def del: push_bit_of_1)
qed

lemma free_bits_set_bit_of:
  assumes "n < length bm * 64"
  shows "free_bits (set_bit_of bm n v) = (if v then free_bits bm - {n} else insert n (free_bits bm))"
  using assms by (auto simp: free_bits_def bit_of_set_bit_of split: if_splits)

lemma finite_free_bits [simp]: "finite (free_bits bm)"
  by (simp add: free_bits_def)

lemma finite_free_set [simp]: "finite (free_set a)"
  by (simp add: free_set_def)

text \<open>The free count of \<open>new\<close> and \<open>adopt\<close>, a sum over the words, is the number of clear bits.\<close>

lemma count_zeros_card: "count_zeros (w :: u64) = card {i. i < 64 \<and> \<not> bit w i}"
proof -
  have "card (set (filter (\<lambda>i. \<not> bit w i) [0..<64])) = length (filter (\<lambda>i. \<not> bit w i) [0..<64])"
    by (rule distinct_card) simp
  moreover have "set (filter (\<lambda>i. \<not> bit w i) [0..<64]) = {i. i < 64 \<and> \<not> bit w i}"
    by auto
  ultimately show ?thesis by (simp add: count_zeros_def)
qed

lemma free_bits_snoc:
  "free_bits (bm @ [w]) = free_bits bm \<union> (\<lambda>i. length bm * 64 + i) ` {i. i < 64 \<and> \<not> bit w i}"
proof -
  have "n \<in> free_bits (bm @ [w]) \<longleftrightarrow>
      n \<in> free_bits bm \<or> n \<in> (\<lambda>i. length bm * 64 + i) ` {i. i < 64 \<and> \<not> bit w i}" for n
  proof (cases "n < length bm * 64")
    case True
    then have "n div 64 < length bm" by (simp add: less_mult_imp_div_less)
    with True show ?thesis by (auto simp: free_bits_def bit_of_iff nth_append)
  next
    case False
    then obtain q where n: "n = length bm * 64 + q" using le_Suc_ex not_less by blast
    have "n div 64 = length bm" "n mod 64 = q" if "q < 64" using that by (simp_all add: n)
    then show ?thesis by (auto simp: free_bits_def bit_of_iff nth_append n)
  qed
  then show ?thesis by blast
qed

lemma count_free_card: "count_free bm = card (free_bits bm)"
proof (induction bm rule: rev_induct)
  case Nil
  then show ?case by (simp add: count_free_def free_bits_def)
next
  case (snoc w bm)
  let ?S = "{i. i < 64 \<and> \<not> bit w i}"
  have "free_bits bm \<inter> (\<lambda>i. length bm * 64 + i) ` ?S = {}"
    by (auto simp: free_bits_def)
  then have "card (free_bits (bm @ [w])) = card (free_bits bm) + card ((\<lambda>i. length bm * 64 + i) ` ?S)"
    by (simp add: free_bits_snoc card_Un_disjoint)
  also have "card ((\<lambda>i. length bm * 64 + i) ` ?S) = card ?S"
    by (rule card_image) (simp add: inj_on_def)
  finally show ?case using snoc.IH by (simp add: count_free_def count_zeros_card)
qed

section \<open>The invariant\<close>

definition managed :: "frame_allocator \<Rightarrow> nat \<Rightarrow> bool" where
  "managed a n \<longleftrightarrow>
     n \<noteq> 0 \<and> n < covered_frames a \<and> map_allows (mem_map a) (boot_services_reclaimed a) n"

definition held_set :: "frame_allocator \<Rightarrow> nat set" where
  "held_set a = {n. managed a n \<and> fa_bit a n}"

definition purposes_ok :: "frame_allocator \<Rightarrow> bool" where
  "purposes_ok a \<longleftrightarrow>
     (case purposes a of None \<Rightarrow> True
      | Some table \<Rightarrow> covered_frames a \<le> length table \<and>
          (\<forall>n < covered_frames a. table ! n \<noteq> 0 \<longrightarrow> n \<in> held_set a))"

text \<open>
  The bitmap covers no more than the \<open>2 ^ 52\<close> frames of the physical address space; the counter
  is the number of clear bits; a clear bit is a frame the map allows; a recorded purpose belongs to
  a frame that is handed out.
\<close>

definition fa_inv :: "frame_allocator \<Rightarrow> bool" where
  "fa_inv a \<longleftrightarrow>
     covered_frames a \<le> 2 ^ 52 \<and> free a = card (free_set a) \<and>
     (\<forall>n \<in> free_set a. managed a n) \<and> purposes_ok a"

lemma manages_managed: "manages a f \<longleftrightarrow> managed a (number f)"
  by (simp add: manages_def managed_def Let_def)

lemma free_set_iff: "n \<in> free_set a \<longleftrightarrow> n < covered_frames a \<and> \<not> fa_bit a n"
  by (simp add: free_set_def free_bits_def covered_frames_def fa_bit_def)

lemma managed_covered: "managed a n \<Longrightarrow> n < covered_frames a"
  by (simp add: managed_def)

lemma fa_invD:
  assumes "fa_inv a"
  shows "covered_frames a \<le> 2 ^ 52" "free a = card (free_set a)" "purposes_ok a"
    and "n \<in> free_set a \<Longrightarrow> managed a n"
  using assms by (auto simp: fa_inv_def)

lemma free_held_partition:
  assumes "fa_inv a"
  shows "free_set a \<union> held_set a = {n. managed a n}" "free_set a \<inter> held_set a = {}"
  using assms by (auto simp: fa_inv_def held_set_def free_set_iff dest: managed_covered)

lemma free_bound: "fa_inv a \<Longrightarrow> free a \<le> covered_frames a"
proof -
  assume "fa_inv a"
  then have "free a = card (free_set a)" by (simp add: fa_inv_def)
  also have "\<dots> \<le> card {..<covered_frames a}"
    by (rule card_mono) (auto simp: free_set_iff)
  finally show ?thesis by simp
qed

text \<open>Nothing the operations change reaches what \<open>managed\<close> reads, except \<open>reclaim\<close>'s flag.\<close>

lemma covered_frames_simps [simp]:
  "covered_frames (fa_set_bit a n v) = covered_frames a"
  "covered_frames (a\<lparr>free := k\<rparr>) = covered_frames a"
  "covered_frames (a\<lparr>uncovered := k\<rparr>) = covered_frames a"
  "covered_frames (a\<lparr>purposes := t\<rparr>) = covered_frames a"
  "covered_frames (a\<lparr>boot_services_reclaimed := b\<rparr>) = covered_frames a"
  by (simp_all add: covered_frames_def fa_set_bit_def)

lemma fa_bit_simps [simp]:
  "fa_bit (a\<lparr>free := k\<rparr>) n = fa_bit a n"
  "fa_bit (a\<lparr>uncovered := k\<rparr>) n = fa_bit a n"
  "fa_bit (a\<lparr>purposes := t\<rparr>) n = fa_bit a n"
  "fa_bit (a\<lparr>boot_services_reclaimed := b\<rparr>) n = fa_bit a n"
  by (simp_all add: fa_bit_def)

lemma fa_set_bit_fields [simp]:
  "mem_map (fa_set_bit a n v) = mem_map a"
  "boot_services_reclaimed (fa_set_bit a n v) = boot_services_reclaimed a"
  "purposes (fa_set_bit a n v) = purposes a"
  "free (fa_set_bit a n v) = free a"
  "uncovered (fa_set_bit a n v) = uncovered a"
  "next_word (fa_set_bit a n v) = next_word a"
  by (simp_all add: fa_set_bit_def)

lemma managed_simps [simp]:
  "managed (fa_set_bit a m v) n = managed a n"
  "managed (a\<lparr>free := k\<rparr>) n = managed a n"
  "managed (a\<lparr>uncovered := k\<rparr>) n = managed a n"
  "managed (a\<lparr>purposes := t\<rparr>) n = managed a n"
  by (simp_all add: managed_def)

lemma fa_bit_set_bit:
  "n < covered_frames a \<Longrightarrow> m < covered_frames a \<Longrightarrow>
   fa_bit (fa_set_bit a n v) m = (if m = n then v else fa_bit a m)"
  by (simp add: fa_bit_def fa_set_bit_def covered_frames_def bit_of_set_bit_of)

lemma set_purpose_cases:
  "set_purpose a f p = a \<or> (\<exists>t. set_purpose a f p = a\<lparr>purposes := t\<rparr>)"
  by (auto simp: set_purpose_def split: option.splits)

lemma set_purpose_fields [simp]:
  "bitmap (set_purpose a f p) = bitmap a"
  "mem_map (set_purpose a f p) = mem_map a"
  "boot_services_reclaimed (set_purpose a f p) = boot_services_reclaimed a"
  "free (set_purpose a f p) = free a"
  "next_word (set_purpose a f p) = next_word a"
  using set_purpose_cases [of a f p] by auto

lemma set_purpose_derived [simp]:
  "covered_frames (set_purpose a f p) = covered_frames a"
  "fa_bit (set_purpose a f p) n = fa_bit a n"
  "managed (set_purpose a f p) n = managed a n"
  "free_set (set_purpose a f p) = free_set a"
  "held_set (set_purpose a f p) = held_set a"
  by (simp_all add: covered_frames_def fa_bit_def managed_def free_set_def held_set_def)

lemma from_purpose_byte [simp]: "from_byte (purpose_byte p) = Some p"
  by (cases p) (simp_all add: from_byte_def purpose_byte_def)

lemma from_byte_Some_iff: "from_byte b = Some p \<longleftrightarrow> b = purpose_byte p"
  by (cases p) (auto simp: from_byte_def purpose_byte_def split: if_splits)

lemma from_byte_zero: "from_byte 0 = None"
  by (simp add: from_byte_def)

lemma purpose_byte_nonzero [simp]: "purpose_byte p \<noteq> 0"
  by (cases p) (simp_all add: purpose_byte_def)

lemma purpose_of_None [simp]: "purposes a = None \<Longrightarrow> purpose_of a f = None"
  by (simp add: purpose_of_def)

lemma purpose_of_held:
  assumes "purposes_ok a" "purpose_of a f = Some p" "number f < covered_frames a"
  shows "number f \<in> held_set a"
proof -
  from assms(2) obtain t where t: "purposes a = Some t" "number f < length t"
    "from_byte (t ! number f) = Some p"
    by (auto simp: purpose_of_def get_at_def bind_eq_Some_conv split: if_splits)
  then have "t ! number f \<noteq> 0" by (simp add: from_byte_Some_iff)
  with t assms(1,3) show ?thesis by (auto simp: purposes_ok_def)
qed

section \<open>Allocation\<close>

lemma find_word_Some:
  assumes "find_word bm s os = Some i" "bm \<noteq> []"
  shows "i < length bm" "bm ! i \<noteq> - 1"
  using assms by (induction os) (auto simp: Let_def u64_max_def split: if_splits)

lemma find_word_None:
  "find_word bm s os = None \<Longrightarrow> o' \<in> set os \<Longrightarrow> bm ! ((s + o') mod length bm) = - 1"
  by (induction os) (auto simp: Let_def u64_max_def split: if_splits)

lemma offset_reaches:
  assumes "i < (n :: nat)"
  shows "\<exists>d < n. (s + d) mod n = i"
proof (intro exI conjI)
  show "(i + (n - s mod n)) mod n < n" using assms by simp
  have "(s + (i + (n - s mod n)) mod n) mod n = (s mod n + (i + (n - s mod n))) mod n"
    by (simp add: mod_simps)
  also have "s mod n + (i + (n - s mod n)) = i + n"
    using mod_less_divisor [of n s] assms by linarith
  finally show "(s + (i + (n - s mod n)) mod n) mod n = i" using assms by simp
qed

lemma full_words_no_free:
  assumes "\<And>i. i < length bm \<Longrightarrow> bm ! i = - 1"
  shows "free_bits bm = {}"
  using assms by (auto simp: free_bits_def bit_of_iff less_mult_imp_div_less)

lemma find_word_complete:
  assumes "find_word bm s [0..<length bm] = None"
  shows "free_bits bm = {}"
proof (rule full_words_no_free)
  fix i assume "i < length bm"
  then obtain d where "d < length bm" "(s + d) mod length bm = i"
    using offset_reaches by blast
  with find_word_None [OF assms, of d] show "bm ! i = - 1" by simp
qed

lemma allocate_None:
  assumes "fa_inv a" "fa_allocate a = (None, a')"
  shows "free_set a = {}" "a' = a"
proof -
  show "a' = a" using assms(2)
    by (auto simp: fa_allocate_def Let_def split: if_splits option.splits)
  show "free_set a = {}"
  proof (cases "free a = 0")
    case True
    with assms(1) show ?thesis by (simp add: fa_inv_def)
  next
    case False
    with assms(2) have "find_word (bitmap a) (next_word a) [0..<length (bitmap a)] = None"
      by (auto simp: fa_allocate_def Let_def split: option.splits)
    then show ?thesis by (simp add: free_set_def find_word_complete)
  qed
qed

lemma free_bits_or_mask:
  assumes "i < length bm" "b < 64"
  shows "free_bits (bm[i := bm ! i OR push_bit b 1]) = free_bits bm - {i * 64 + b}"
proof -
  have "bit_of (bm[i := bm ! i OR push_bit b 1]) m \<longleftrightarrow> (if m = i * 64 + b then True else bit_of bm m)"
    if "m < length bm * 64" for m
    using assms that
    by (intro bit_of_update) (auto simp: bit_or_iff bit_mask_one simp del: push_bit_of_1)
  then show ?thesis by (auto simp: free_bits_def simp del: push_bit_of_1 split: if_splits)
qed

lemma held_set_remove:
  assumes "free_set a' = free_set a - {n}" "n \<in> free_set a" "managed a n"
    and "\<And>m. managed a' m = managed a m" "covered_frames a' = covered_frames a"
  shows "held_set a' = insert n (held_set a)"
  using assms by (auto simp: held_set_def free_set_iff set_eq_iff dest: managed_covered)

lemma allocate_Some:
  assumes inv: "fa_inv a" and al: "fa_allocate a = (Some f, a')"
  obtains n where "f = frame_no n" "n \<in> free_set a" "free_set a' = free_set a - {n}"
    "mem_map a' = mem_map a" "boot_services_reclaimed a' = boot_services_reclaimed a"
    "purposes a' = purposes a" "covered_frames a' = covered_frames a" "free a' = free a - 1"
proof -
  from al obtain i where i: "find_word (bitmap a) (next_word a) [0..<length (bitmap a)] = Some i"
    and nz: "free a \<noteq> 0"
    by (auto simp: fa_allocate_def Let_def split: if_splits option.splits)
  from nz inv have "bitmap a \<noteq> []"
    by (auto simp: fa_inv_def free_set_def free_bits_def)
  then have il: "i < length (bitmap a)" and full: "bitmap a ! i \<noteq> - 1"
    using find_word_Some [OF i] by auto
  define b where "b = trailing_zeros (NOT (bitmap a ! i))"
  have b: "b < 64" "\<not> bit (bitmap a ! i) b"
    using trailing_zeros_first_clear [OF full] by (auto simp: b_def)
  from al i nz have f: "f = frame_no (i * 64 + b)"
    and a': "a' = a\<lparr>bitmap := (bitmap a)[i := bitmap a ! i OR push_bit b 1],
      free := free a - 1, next_word := i\<rparr>"
    by (simp_all add: fa_allocate_def Let_def b_def del: push_bit_of_1)
  have "i * 64 + b \<in> free_set a"
    using il b by (simp add: free_set_def free_bits_def bit_of_iff)
  moreover have "free_set a' = free_set a - {i * 64 + b}"
    using il b by (simp add: a' free_set_def free_bits_or_mask del: push_bit_of_1)
  ultimately show ?thesis
    using f by (intro that) (simp_all add: a' covered_frames_def)
qed

lemma allocate_inv:
  assumes inv: "fa_inv a" and al: "fa_allocate a = (Some f, a')"
  shows "fa_inv a'" "number f \<in> free_set a" "free_set a' = free_set a - {number f}"
    "held_set a' = insert (number f) (held_set a)" "frame_aligned f"
    "covered_frames a' = covered_frames a" "purposes a' = purposes a"
    "\<And>n. managed a' n = managed a n"
proof -
  from allocate_Some [OF inv al] obtain n where n: "f = frame_no n" "n \<in> free_set a"
    "free_set a' = free_set a - {n}" "mem_map a' = mem_map a"
    "boot_services_reclaimed a' = boot_services_reclaimed a"
    "purposes a' = purposes a" "covered_frames a' = covered_frames a" "free a' = free a - 1" .
  from n(2) inv have "n < 2 ^ 52" by (auto simp: free_set_iff fa_inv_def)
  then have num: "number f = n" by (simp add: n(1))
  have m: "managed a' k = managed a k" for k using n by (simp add: managed_def)
  have held: "held_set a' = insert n (held_set a)"
    using n m fa_invD(4) [OF inv n(2)] by (intro held_set_remove) auto
  show "fa_inv a'" using inv n m held
    by (auto simp: fa_inv_def purposes_ok_def split: option.splits)
  show "number f \<in> free_set a" "free_set a' = free_set a - {number f}"
    "held_set a' = insert (number f) (held_set a)" "frame_aligned f"
    "covered_frames a' = covered_frames a" "purposes a' = purposes a"
    "\<And>n. managed a' n = managed a n"
    using n num held m by (simp_all add: n(1) [symmetric]) (simp add: n(1))
qed

lemma purposes_ok_set_purpose:
  assumes "purposes_ok a" "number f \<in> held_set a \<or> p = None"
  shows "purposes_ok (set_purpose a f p)"
  using assms
  by (auto simp: purposes_ok_def set_purpose_def held_set_def nth_list_update split: option.splits)

lemma fa_inv_set_purpose:
  assumes "fa_inv a" "number f \<in> held_set a \<or> p = None"
  shows "fa_inv (set_purpose a f p)"
  using assms purposes_ok_set_purpose [of a f p] by (simp add: fa_inv_def)

lemma purpose_of_set_purpose:
  "purpose_of (set_purpose a f p) g =
     (if number g = number f \<and> purposes a \<noteq> None \<and> number f < length (the (purposes a))
      then p else purpose_of a g)"
  by (cases p)
     (auto simp: purpose_of_def set_purpose_def get_at_def nth_list_update from_byte_zero
        split: option.splits)

lemma allocate_for_Some:
  assumes inv: "fa_inv a" and al: "allocate_for a p = (Some f, a')"
  shows "fa_inv a'" "number f \<in> free_set a" "free_set a' = free_set a - {number f}"
    "held_set a' = insert (number f) (held_set a)" "frame_aligned f"
    "covered_frames a' = covered_frames a" "purposes a \<noteq> None \<Longrightarrow> purpose_of a' f = Some p"
    "\<And>n. managed a' n = managed a n"
proof -
  from al obtain b where b: "fa_allocate a = (Some f, b)" and a': "a' = set_purpose b f (Some p)"
    by (auto simp: allocate_for_def split: prod.splits option.splits)
  note step = allocate_inv [OF inv b]
  show "fa_inv a'" using step by (simp add: a' fa_inv_set_purpose)
  show "number f \<in> free_set a" "free_set a' = free_set a - {number f}"
    "held_set a' = insert (number f) (held_set a)" "frame_aligned f"
    "covered_frames a' = covered_frames a" "\<And>n. managed a' n = managed a n"
    using step by (simp_all add: a')
  show "purpose_of a' f = Some p" if "purposes a \<noteq> None"
  proof -
    from that obtain t where t: "purposes b = Some t" using step by auto
    have "covered_frames b \<le> length t" using fa_invD(3) [OF step(1)] by (simp add: purposes_ok_def t)
    moreover have "number f < covered_frames b" using step by (simp add: free_set_iff)
    ultimately show ?thesis by (simp add: a' purpose_of_set_purpose t)
  qed
qed

lemma allocate_for_None:
  assumes "fa_inv a" "allocate_for a p = (None, a')"
  shows "free_set a = {}" "a' = a"
  using assms allocate_None [OF assms(1)]
  by (auto simp: allocate_for_def split: prod.splits option.splits)

section \<open>Deallocation\<close>

lemma held_set_add:
  assumes "free_set a' = insert n (free_set a)" "n < covered_frames a"
    and "\<And>m. managed a' m = managed a m" "covered_frames a' = covered_frames a"
  shows "held_set a' = held_set a - {n}"
  using assms by (auto simp: held_set_def free_set_iff set_eq_iff dest: managed_covered)

lemma free_set_set_bit:
  "n < covered_frames a \<Longrightarrow>
   free_set (fa_set_bit a n v) = (if v then free_set a - {n} else insert n (free_set a))"
  by (simp add: free_set_def fa_set_bit_def covered_frames_def free_bits_set_bit_of)

lemma deallocate_unchecked_ok_iff:
  "fst (deallocate_unchecked a f) = Inr () \<longleftrightarrow> number f \<in> held_set a"
  by (auto simp: deallocate_unchecked_def held_set_def manages_managed Let_def)

lemma deallocate_unchecked_error:
  "number f \<notin> held_set a \<Longrightarrow> snd (deallocate_unchecked a f) = a"
  by (auto simp: deallocate_unchecked_def held_set_def manages_managed Let_def)

lemma free_set_free_upd [simp]: "free_set (a\<lparr>free := k\<rparr>) = free_set a"
  by (simp add: free_set_def)

lemma held_set_upds [simp]:
  "held_set (a\<lparr>free := k\<rparr>) = held_set a"
  "held_set (a\<lparr>purposes := t\<rparr>) = held_set a"
  by (simp_all add: held_set_def)

lemma purposes_ok_free_upd [simp]: "purposes_ok (a\<lparr>free := k\<rparr>) = purposes_ok a"
  by (simp add: purposes_ok_def split: option.splits)

lemma purposes_ok_cleared:
  assumes ok: "purposes_ok a" and held: "held_set b = held_set a - {number f}"
    and same: "purposes b = purposes a" "covered_frames b = covered_frames a"
    and cov: "number f < covered_frames a"
  shows "purposes_ok (set_purpose b f None)"
proof (cases "purposes a")
  case None
  then show ?thesis using same by (simp add: purposes_ok_def set_purpose_def)
next
  case (Some t)
  with ok cov have "number f < length t" by (auto simp: purposes_ok_def)
  with Some ok same held show ?thesis
    by (auto simp: purposes_ok_def set_purpose_def nth_list_update)
qed

lemma deallocate_unchecked_spec:
  assumes inv: "fa_inv a" and held: "number f \<in> held_set a"
  shows "fa_inv (snd (deallocate_unchecked a f))"
    "free_set (snd (deallocate_unchecked a f)) = insert (number f) (free_set a)"
    "held_set (snd (deallocate_unchecked a f)) = held_set a - {number f}"
proof -
  let ?n = "number f"
  from held have m: "managed a ?n" and cov: "?n < covered_frames a" and bit: "fa_bit a ?n"
    by (auto simp: held_set_def dest: managed_covered)
  define b where "b = fa_set_bit a ?n False"
  have res: "snd (deallocate_unchecked a f) = (set_purpose b f None)\<lparr>free := free b + 1\<rparr>"
    using m bit by (simp add: deallocate_unchecked_def manages_managed b_def Let_def)
  have fr: "free_set b = insert ?n (free_set a)" using cov by (simp add: b_def free_set_set_bit)
  have hb: "held_set b = held_set a - {?n}"
    by (rule held_set_add [OF fr cov]) (simp_all add: b_def)
  show "free_set (snd (deallocate_unchecked a f)) = insert ?n (free_set a)"
    "held_set (snd (deallocate_unchecked a f)) = held_set a - {?n}"
    by (simp_all add: res fr hb)
  have "?n \<notin> free_set a" using bit by (simp add: free_set_iff)
  moreover have "purposes_ok (set_purpose b f None)"
    using purposes_ok_cleared [OF fa_invD(3) [OF inv] hb] cov by (simp add: b_def)
  ultimately show "fa_inv (snd (deallocate_unchecked a f))"
    using inv m fr unfolding res fa_inv_def by (auto simp: b_def)
qed

text \<open>With purposes recorded, a frame is given back exactly when it is held for that purpose.\<close>

lemma deallocate_as_cases:
  "deallocate_as a f p =
     (if purposes a \<noteq> None \<and> purpose_of a f \<noteq> Some p
      then (Inl (WrongPurpose p (purpose_of a f)), a)
      else deallocate_unchecked a f)"
  by (simp add: deallocate_as_def Let_def)

lemma deallocate_as_ok_iff:
  "fst (deallocate_as a f p) = Inr () \<longleftrightarrow>
     number f \<in> held_set a \<and> (purposes a \<noteq> None \<longrightarrow> purpose_of a f = Some p)"
  by (auto simp: deallocate_as_cases deallocate_unchecked_ok_iff)

lemma deallocate_as_error_unchanged:
  "fst (deallocate_as a f p) = Inl e \<Longrightarrow> snd (deallocate_as a f p) = a"
  by (auto simp: deallocate_as_cases deallocate_unchecked_def Let_def split: if_splits)

lemma deallocate_as_inv:
  assumes "fa_inv a"
  shows "fa_inv (snd (deallocate_as a f p))"
proof (cases "fst (deallocate_as a f p)")
  case (Inl e)
  then show ?thesis using assms by (simp add: deallocate_as_error_unchanged)
next
  case (Inr u)
  then have "number f \<in> held_set a" "deallocate_as a f p = deallocate_unchecked a f"
    by (auto simp: deallocate_as_cases deallocate_unchecked_ok_iff split: if_splits)
  then show ?thesis using assms by (simp add: deallocate_unchecked_spec)
qed

section \<open>Construction\<close>

text \<open>What the passes of \<open>new\<close> leave alone.\<close>

definition same_base :: "frame_allocator \<Rightarrow> frame_allocator \<Rightarrow> bool" where
  "same_base a b \<longleftrightarrow>
     length (bitmap a) = length (bitmap b) \<and> mem_map a = mem_map b \<and>
     boot_services_reclaimed a = boot_services_reclaimed b \<and> purposes a = purposes b"

lemma same_base_refl [simp]: "same_base a a"
  by (simp add: same_base_def)

lemma same_base_trans: "same_base a b \<Longrightarrow> same_base b c \<Longrightarrow> same_base a c"
  by (simp add: same_base_def)

lemma same_base_set_bit [simp]: "same_base (fa_set_bit a n v) a"
  by (simp add: same_base_def fa_set_bit_def)

lemma same_base_covered: "same_base a b \<Longrightarrow> covered_frames a = covered_frames b"
  by (simp add: same_base_def covered_frames_def)

lemma same_base_managed: "same_base a b \<Longrightarrow> managed a n = managed b n"
  by (simp add: same_base_def covered_frames_def managed_def)

lemma fa_set_bits_spec:
  assumes "\<forall>n \<in> set ns. n < covered_frames a"
  shows "same_base (fa_set_bits a ns v) a"
    and "m < covered_frames a \<Longrightarrow>
      fa_bit (fa_set_bits a ns v) m = (if m \<in> set ns then v else fa_bit a m)"
  using assms
proof (induction ns arbitrary: a)
  case Nil
  { case 1 then show ?case by (simp add: fa_set_bits_def) }
  { case 2 then show ?case by (simp add: fa_set_bits_def) }
next
  case (Cons n ns)
  have unf: "fa_set_bits a (n # ns) v = fa_set_bits (fa_set_bit a n v) ns v" for a
    by (simp add: fa_set_bits_def)
  { case 1
    then have "same_base (fa_set_bits (fa_set_bit a n v) ns v) (fa_set_bit a n v)"
      by (simp add: Cons.IH(1))
    then show ?case unfolding unf by (rule same_base_trans) simp }
  { case 2
    then show ?case unfolding unf by (simp add: Cons.IH(2) fa_bit_set_bit) }
qed

lemma new_usable_spec:
  shows "same_base (new_usable a r) a"
    and "m < covered_frames a \<Longrightarrow>
      fa_bit (new_usable a r) m \<longleftrightarrow> fa_bit a m \<and> \<not> in_frames (inward_frames r) m"
proof -
  let ?ns = "[fst (inward_frames r)..<min (snd (inward_frames r)) (covered_frames a)]"
  define b where "b = a\<lparr>uncovered := uncovered a +
    (snd (inward_frames r) - max (fst (inward_frames r)) (covered_frames a))\<rparr>"
  have eq: "new_usable a r = fa_set_bits b ?ns False"
    by (simp add: new_usable_def b_def Let_def split: prod.splits)
  have cov: "covered_frames b = covered_frames a" "same_base b a"
    by (simp_all add: b_def same_base_def)
  have ns: "\<forall>n \<in> set ?ns. n < covered_frames b" by (auto simp: cov)
  show "same_base (new_usable a r) a"
    unfolding eq by (rule same_base_trans [OF fa_set_bits_spec(1) [OF ns] cov(2)])
  assume "m < covered_frames a"
  then show "fa_bit (new_usable a r) m \<longleftrightarrow> fa_bit a m \<and> \<not> in_frames (inward_frames r) m"
    unfolding eq using fa_set_bits_spec(2) [OF ns, of m False]
    by (auto simp: cov in_frames_def b_def)
qed

lemma new_withheld_spec:
  shows "same_base (new_withheld a r) a"
    and "m < covered_frames a \<Longrightarrow>
      fa_bit (new_withheld a r) m \<longleftrightarrow> fa_bit a m \<or> in_frames (outward_frames r) m"
proof -
  let ?ns = "[fst (outward_frames r)..<min (snd (outward_frames r)) (covered_frames a)]"
  have eq: "new_withheld a r = fa_set_bits a ?ns True"
    by (simp add: new_withheld_def Let_def split: prod.splits)
  have ns: "\<forall>n \<in> set ?ns. n < covered_frames a" by auto
  show "same_base (new_withheld a r) a"
    unfolding eq by (rule fa_set_bits_spec(1) [OF ns])
  assume "m < covered_frames a"
  then show "fa_bit (new_withheld a r) m \<longleftrightarrow> fa_bit a m \<or> in_frames (outward_frames r) m"
    unfolding eq using fa_set_bits_spec(2) [OF ns, of m True] by (auto simp: in_frames_def)
qed

lemma fold_usable_spec:
  shows "same_base (fold (\<lambda>r a. new_usable a r) rs a) a"
    and "m < covered_frames a \<Longrightarrow> fa_bit (fold (\<lambda>r a. new_usable a r) rs a) m \<longleftrightarrow>
      fa_bit a m \<and> \<not> (\<exists>r \<in> set rs. in_frames (inward_frames r) m)"
  by (induction rs arbitrary: a)
     (auto simp: new_usable_spec same_base_covered [OF new_usable_spec(1)]
        intro: same_base_trans [OF _ new_usable_spec(1)])

lemma fold_withheld_spec:
  shows "same_base (fold (\<lambda>r a. new_withheld a r) rs a) a"
    and "m < covered_frames a \<Longrightarrow> fa_bit (fold (\<lambda>r a. new_withheld a r) rs a) m \<longleftrightarrow>
      fa_bit a m \<or> (\<exists>r \<in> set rs. in_frames (outward_frames r) m)"
  by (induction rs arbitrary: a)
     (auto simp: new_withheld_spec same_base_covered [OF new_withheld_spec(1)]
        intro: same_base_trans [OF _ new_withheld_spec(1)])

lemma fa_new_base:
  "length (bitmap (fa_new storage m)) = length storage" "mem_map (fa_new storage m) = m"
  "boot_services_reclaimed (fa_new storage m) = False" "purposes (fa_new storage m) = None"
  "free (fa_new storage m) = card (free_set (fa_new storage m))"
proof -
  let ?U = "filter (\<lambda>r. kind r = Usable) (regions m)"
  let ?W = "filter (\<lambda>r. kind r \<noteq> Usable) (regions m)"
  define a0 where "a0 = \<lparr>bitmap = map (\<lambda>_. u64_max) storage, mem_map = m,
    boot_services_reclaimed = False, purposes = None, free = 0, next_word = 0, uncovered = 0\<rparr>"
  define a2 where "a2 = fold (\<lambda>r a. new_withheld a r) ?W (fold (\<lambda>r a. new_usable a r) ?U a0)"
  define a3 where "a3 = (if covered_frames a2 > 0 then fa_set_bit a2 0 True else a2)"
  have eq: "fa_new storage m = a3\<lparr>free := count_free (bitmap a3)\<rparr>"
    by (simp add: fa_new_def Let_def a3_def a2_def a0_def)
  have "same_base a2 a0" unfolding a2_def
    by (rule same_base_trans [OF fold_withheld_spec(1) fold_usable_spec(1)])
  then have "same_base a3 a0"
    by (auto simp: a3_def intro: same_base_trans [OF same_base_set_bit])
  then show "length (bitmap (fa_new storage m)) = length storage" "mem_map (fa_new storage m) = m"
    "boot_services_reclaimed (fa_new storage m) = False" "purposes (fa_new storage m) = None"
    by (simp_all add: eq same_base_def a0_def)
  show "free (fa_new storage m) = card (free_set (fa_new storage m))"
    by (simp add: eq count_free_card) (simp add: free_set_def)
qed

lemma fa_new_covered [simp]: "covered_frames (fa_new storage m) = length storage * 64"
  by (simp add: covered_frames_def fa_new_base)

text \<open>The bitmap that \<open>new\<close> builds agrees with what \<open>manages\<close> derives from the map.\<close>

lemma fa_new_bit:
  assumes "n < length storage * 64"
  shows "fa_bit (fa_new storage m) n \<longleftrightarrow> n = 0 \<or> \<not> map_allows m False n"
proof -
  let ?U = "filter (\<lambda>r. kind r = Usable) (regions m)"
  let ?W = "filter (\<lambda>r. kind r \<noteq> Usable) (regions m)"
  define a0 where "a0 = \<lparr>bitmap = map (\<lambda>_. u64_max) storage, mem_map = m,
    boot_services_reclaimed = False, purposes = None, free = 0, next_word = 0, uncovered = 0\<rparr>"
  define a1 where "a1 = fold (\<lambda>r a. new_usable a r) ?U a0"
  define a2 where "a2 = fold (\<lambda>r a. new_withheld a r) ?W a1"
  have c0: "covered_frames a0 = length storage * 64" by (simp add: a0_def covered_frames_def)
  have c1: "covered_frames a1 = length storage * 64"
    using same_base_covered [OF fold_usable_spec(1)] c0 by (simp add: a1_def)
  have c2: "covered_frames a2 = length storage * 64"
    using same_base_covered [OF fold_withheld_spec(1)] c1 by (simp add: a2_def)
  have "fa_bit (fa_new storage m) n \<longleftrightarrow> n = 0 \<or> fa_bit a2 n"
    using assms c2
    by (auto simp: fa_new_def Let_def a2_def [symmetric] a1_def [symmetric] a0_def [symmetric]
        fa_bit_set_bit)
  also have "fa_bit a2 n \<longleftrightarrow> fa_bit a1 n \<or> (\<exists>r \<in> set ?W. in_frames (outward_frames r) n)"
    unfolding a2_def using assms c1 by (intro fold_withheld_spec(2)) simp
  also have "fa_bit a1 n \<longleftrightarrow> fa_bit a0 n \<and> \<not> (\<exists>r \<in> set ?U. in_frames (inward_frames r) n)"
    unfolding a1_def using assms c0 by (intro fold_usable_spec(2)) simp
  also have "fa_bit a0 n \<longleftrightarrow> True"
    using assms by (simp add: a0_def fa_bit_def bit_of_iff u64_max_def less_mult_imp_div_less)
  finally show ?thesis
    by (auto simp: map_allows_def allocatable_def list_ex_iff)
qed

lemma fa_new_free_set:
  "free_set (fa_new storage m) = {n. managed (fa_new storage m) n}"
  by (auto simp: free_set_iff fa_new_bit managed_def fa_new_base)

lemma fa_new_inv: "length storage * 64 \<le> 2 ^ 52 \<Longrightarrow> fa_inv (fa_new storage m)"
  by (simp add: fa_inv_def fa_new_base fa_new_free_set purposes_ok_def)

lemma adopt_inv:
  assumes "fa_inv a"
  shows "fa_inv (adopt (bitmap a) (mem_map a) (boot_services_reclaimed a))"
    and "free_set (adopt (bitmap a) (mem_map a) (boot_services_reclaimed a)) = free_set a"
    and "held_set (adopt (bitmap a) (mem_map a) (boot_services_reclaimed a)) = held_set a"
    and "free (adopt (bitmap a) (mem_map a) (boot_services_reclaimed a)) = free a"
  using assms
  by (auto simp: adopt_def fa_inv_def free_set_def held_set_def managed_def fa_bit_def
      covered_frames_def purposes_ok_def count_free_card)

lemma with_purposes_spec:
  assumes inv: "fa_inv a" and len: "covered_frames a \<le> length table"
  obtains a' where "with_purposes a table = Inr a'" "fa_inv a'" "free_set a' = free_set a"
    "held_set a' = held_set a" "purposes a' \<noteq> None"
    "\<And>f. number f < covered_frames a \<Longrightarrow>
      purpose_of a' f = (if number f \<in> held_set a then Some Boot else None)"
proof -
  define t where "t = map (\<lambda>n. if manages a (frame_no n) \<and> fa_bit a n then purpose_byte Boot else 0)
    [0..<covered_frames a] @ drop (covered_frames a) table"
  have w: "with_purposes a table = Inr (a\<lparr>purposes := Some t\<rparr>)"
    using len by (simp add: with_purposes_def t_def Let_def)
  have small: "n < 2 ^ 52" if "n < covered_frames a" for n
    using that fa_invD(1) [OF inv] by simp
  have tn: "t ! n = (if n \<in> held_set a then purpose_byte Boot else 0)" if "n < covered_frames a" for n
  proof -
    have "t ! n = (if manages a (frame_no n) \<and> fa_bit a n then purpose_byte Boot else 0)"
      using that by (simp add: t_def nth_append)
    also have "manages a (frame_no n) \<longleftrightarrow> managed a n"
      by (simp only: manages_managed number_frame_no [OF small [OF that]])
    finally show ?thesis by (simp add: held_set_def)
  qed
  have "covered_frames a \<le> length t" using len by (simp add: t_def)
  then have "fa_inv (a\<lparr>purposes := Some t\<rparr>)"
    using inv tn by (auto simp: fa_inv_def purposes_ok_def free_set_def split: if_splits)
  moreover have "purpose_of (a\<lparr>purposes := Some t\<rparr>) f =
      (if number f \<in> held_set a then Some Boot else None)" if "number f < covered_frames a" for f
    using that \<open>covered_frames a \<le> length t\<close>
    by (simp add: purpose_of_def get_at_def tn from_byte_zero)
  ultimately show ?thesis
    by (intro that [OF w]) (simp_all add: free_set_def)
qed

section \<open>Reclaiming boot-services memory\<close>

lemma reclaim_frame_spec:
  assumes "n < covered_frames a" "covered_frames a \<le> 2 ^ 52"
  obtains b k' where "reclaim_frame n (a, k) = (b, k')" "same_base b a"
    "free_set b = free_set a \<union> {n. managed a n} \<inter> {n}"
    "k' + card (free_set a) = k + card (free_set b)"
proof (cases "managed a n \<and> fa_bit a n")
  case True
  have man: "manages a (frame_no n)"
    using True assms by (simp only: manages_managed) simp
  have "n \<notin> free_set a" using True by (simp add: free_set_iff)
  with True man assms show ?thesis
    by (intro that [of "fa_set_bit a n False" "k + 1"])
       (simp_all add: reclaim_frame_def free_set_set_bit)
next
  case False
  have "n \<in> free_set a" if "managed a n" using that False assms by (auto simp: free_set_iff)
  moreover have "manages a (frame_no n) \<longleftrightarrow> managed a n"
    using assms by (simp only: manages_managed) simp
  ultimately show ?thesis using False
    by (intro that [of a k]) (auto simp: reclaim_frame_def)
qed

lemma fold_reclaim_frame:
  assumes "\<forall>n \<in> set ns. n < covered_frames a" "covered_frames a \<le> 2 ^ 52"
  obtains b k' where "fold reclaim_frame ns (a, k) = (b, k')" "same_base b a"
    "free_set b = free_set a \<union> {n. managed a n} \<inter> set ns"
    "k' + card (free_set a) = k + card (free_set b)"
  using assms
proof (induction ns arbitrary: a k thesis)
  case Nil
  show ?case by (rule Nil(1) [of a k]) simp_all
next
  case (Cons n ns)
  obtain b k' where b: "reclaim_frame n (a, k) = (b, k')" "same_base b a"
    "free_set b = free_set a \<union> {n. managed a n} \<inter> {n}"
    "k' + card (free_set a) = k + card (free_set b)"
    using reclaim_frame_spec [of n a k] Cons.prems by auto
  have cov: "covered_frames b = covered_frames a" using b(2) by (rule same_base_covered)
  obtain c k'' where c: "fold reclaim_frame ns (b, k') = (c, k'')" "same_base c b"
    "free_set c = free_set b \<union> {n. managed b n} \<inter> set ns"
    "k'' + card (free_set b) = k' + card (free_set c)"
    using Cons.IH [of b k'] Cons.prems cov by auto
  show ?case
  proof (rule Cons.prems(1) [of c k''])
    show "same_base c a" using c(2) b(2) by (rule same_base_trans)
    show "free_set c = free_set a \<union> {n. managed a n} \<inter> set (n # ns)"
      using b c by (auto simp: same_base_managed [OF b(2)])
  qed (use b c in auto)
qed

lemma fold_reclaim_region:
  assumes "covered_frames a \<le> 2 ^ 52"
  obtains b k' where "fold reclaim_region rs (a, k) = (b, k')" "same_base b a"
    "free_set b = free_set a \<union> {n. managed a n \<and> (\<exists>r \<in> set rs. in_frames (inward_frames r) n)}"
    "k' + card (free_set a) = k + card (free_set b)"
  using assms
proof (induction rs arbitrary: a k thesis)
  case Nil
  show ?case by (rule Nil(1) [of a k]) simp_all
next
  case (Cons r rs)
  let ?ns = "[fst (inward_frames r)..<min (snd (inward_frames r)) (covered_frames a)]"
  have reg: "reclaim_region r (a, k) = fold reclaim_frame ?ns (a, k)"
    by (simp add: reclaim_region_def split: prod.splits)
  have ns: "{n. managed a n} \<inter> set ?ns = {n. managed a n \<and> in_frames (inward_frames r) n}"
    by (auto simp: in_frames_def dest: managed_covered)
  have "\<forall>n \<in> set ?ns. n < covered_frames a" by auto
  then obtain b k' where b: "reclaim_region r (a, k) = (b, k')" "same_base b a"
    "free_set b = free_set a \<union> {n. managed a n \<and> in_frames (inward_frames r) n}"
    "k' + card (free_set a) = k + card (free_set b)"
    using fold_reclaim_frame [of ?ns a k] Cons.prems(2) unfolding reg ns by blast
  have cov: "covered_frames b = covered_frames a" using b(2) by (rule same_base_covered)
  obtain c k'' where c: "fold reclaim_region rs (b, k') = (c, k'')" "same_base c b"
    "free_set c = free_set b \<union> {n. managed b n \<and> (\<exists>r \<in> set rs. in_frames (inward_frames r) n)}"
    "k'' + card (free_set b) = k' + card (free_set c)"
    using Cons.IH [of b k'] Cons.prems cov by auto
  show ?case
  proof (rule Cons.prems(1) [of c k''])
    show "same_base c a" using c(2) b(2) by (rule same_base_trans)
    show "free_set c = free_set a \<union>
        {n. managed a n \<and> (\<exists>r \<in> set (r # rs). in_frames (inward_frames r) n)}"
      using b c by (auto simp: same_base_managed [OF b(2)])
  qed (use b c in auto)
qed

lemma inward_outward: "in_frames (inward_frames r) n \<Longrightarrow> in_frames (outward_frames r) n"
  by (auto simp: in_frames_def inward_frames_def outward_frames_def word_nat div_le_mono
      split: if_splits intro: order.strict_trans2)

lemma map_allows_mono: "map_allows m False n \<Longrightarrow> map_allows m True n"
  by (auto simp: map_allows_def list_ex_iff allocatable_def)

lemma map_allows_not_boot:
  assumes "map_allows m False n" "r \<in> set (regions m)" "kind r = BootServices"
  shows "\<not> in_frames (inward_frames r) n"
proof
  assume "in_frames (inward_frames r) n"
  then have "in_frames (outward_frames r) n" by (rule inward_outward)
  with assms show False by (auto simp: map_allows_def list_ex_iff allocatable_def)
qed

definition reclaimable :: "frame_allocator \<Rightarrow> nat set" where
  "reclaimable a =
     {n. n \<noteq> 0 \<and> n < covered_frames a \<and> map_allows (mem_map a) True n \<and>
         (\<exists>r \<in> set (regions (mem_map a)). kind r = BootServices \<and> in_frames (inward_frames r) n)}"

lemma reclaim_frames_free: "free (fst (fold reclaim_frame ns s)) = free (fst s)"
  by (induction ns arbitrary: s) (auto simp: reclaim_frame_def split: prod.splits if_splits)

lemma reclaim_region_free: "free (fst (fold reclaim_region rs s)) = free (fst s)"
  by (induction rs arbitrary: s)
     (auto simp: reclaim_region_def reclaim_frames_free split: prod.splits)

lemma managed_not_reclaimable:
  "\<not> boot_services_reclaimed a \<Longrightarrow> managed a n \<Longrightarrow> n \<notin> reclaimable a"
  using map_allows_not_boot [of "mem_map a" n] by (auto simp: managed_def reclaimable_def)

lemma reclaim_spec:
  assumes inv: "fa_inv a" and fresh: "\<not> boot_services_reclaimed a"
  obtains a' where "reclaim_boot_services a = (card (reclaimable a), a')" "fa_inv a'"
    "free_set a' = free_set a \<union> reclaimable a" "held_set a \<subseteq> held_set a'"
    "boot_services_reclaimed a'"
proof -
  let ?rs = "filter (\<lambda>r. kind r = BootServices) (regions (mem_map a))"
  let ?a1 = "a\<lparr>boot_services_reclaimed := True\<rparr>"
  have "covered_frames ?a1 \<le> 2 ^ 52" using fa_invD(1) [OF inv] by simp
  then obtain b k where b: "fold reclaim_region ?rs (?a1, 0) = (b, k)" "same_base b ?a1"
    and fb: "free_set b = free_set ?a1 \<union>
      {n. managed ?a1 n \<and> (\<exists>r \<in> set ?rs. in_frames (inward_frames r) n)}"
    and kb: "k + card (free_set ?a1) = 0 + card (free_set b)"
    using fold_reclaim_region by blast
  define a' where "a' = b\<lparr>free := free a + k\<rparr>"
  have "free b = free a" using reclaim_region_free [of ?rs "(?a1, 0)"] b(1) by simp
  then have res: "reclaim_boot_services a = (k, a')"
    using b(1) fresh by (simp add: reclaim_boot_services_def a'_def)
  have f1: "free_set ?a1 = free_set a" by (simp add: free_set_def)
  have fs: "free_set a' = free_set a \<union> reclaimable a"
    using fb by (auto simp: a'_def f1 reclaimable_def managed_def)
  note disj = managed_not_reclaimable [OF fresh]
  have "free_set a \<inter> reclaimable a = {}" using fa_invD(4) [OF inv] disj by blast
  moreover have "finite (reclaimable a)" by (simp add: reclaimable_def)
  ultimately have k: "k = card (reclaimable a)"
    using kb fs by (simp add: f1 a'_def card_Un_disjoint)
  have man: "managed a' n \<longleftrightarrow> n \<noteq> 0 \<and> n < covered_frames a \<and> map_allows (mem_map a) True n" for n
    using same_base_managed [OF b(2), of n] by (simp add: a'_def) (simp add: managed_def)
  have up: "managed a' n" if "managed a n" for n
    using that fresh unfolding man by (auto simp: managed_def map_allows_mono)
  have cov: "covered_frames a' = covered_frames a"
    using same_base_covered [OF b(2)] by (simp add: a'_def)
  have held: "held_set a \<subseteq> held_set a'"
  proof
    fix n assume "n \<in> held_set a"
    then have n: "managed a n" "fa_bit a n" by (auto simp: held_set_def)
    then have "n \<notin> free_set a'" using fs disj by (auto simp: free_set_iff)
    then show "n \<in> held_set a'"
      using n up cov managed_covered [OF n(1)] by (auto simp: held_set_def free_set_iff)
  qed
  have "purposes a' = purposes a" using b(2) by (simp add: a'_def same_base_def)
  then have "purposes_ok a'"
    using fa_invD(3) [OF inv] held cov by (auto simp: purposes_ok_def split: option.splits)
  moreover have "managed a' n" if "n \<in> free_set a'" for n
    using that fs up fa_invD(4) [OF inv] by (auto simp: man reclaimable_def)
  moreover have "free a' = card (free_set a')"
    using kb fb f1 fa_invD(2) [OF inv] by (simp add: a'_def) 
  ultimately have "fa_inv a'" using fa_invD(1) [OF inv] cov by (simp add: fa_inv_def)
  moreover have "boot_services_reclaimed a'" using b(2) by (simp add: a'_def same_base_def)
  ultimately show ?thesis using res k fs held by (intro that) auto
qed

section \<open>A source of frames\<close>

text \<open>
  What a consumer of the trait \<open>FrameAllocator\<close> relies on: a frame it gets was available and is
  available no more, nothing else changes hands, and the source says no only when it is empty.
\<close>

locale frame_source =
  fixes alloc :: "'s \<Rightarrow> phys_frame option \<times> 's"
    and source_inv :: "'s \<Rightarrow> bool"
    and available :: "'s \<Rightarrow> nat set"
  assumes alloc_Some: "source_inv s \<Longrightarrow> alloc s = (Some f, s') \<Longrightarrow>
      source_inv s' \<and> frame_aligned f \<and> number f \<in> available s \<and>
      available s' = available s - {number f}"
    and alloc_None: "source_inv s \<Longrightarrow> alloc s = (None, s') \<Longrightarrow> available s = {} \<and> s' = s"
    and available_finite: "source_inv s \<Longrightarrow> finite (available s)"

text \<open>A consumer that takes \<open>k\<close> frames, or as many as there are.\<close>

fun take_frames :: "('s \<Rightarrow> phys_frame option \<times> 's) \<Rightarrow> nat \<Rightarrow> 's \<Rightarrow> phys_frame list \<times> 's" where
  "take_frames alloc 0 s = ([], s)"
| "take_frames alloc (Suc k) s =
     (case alloc s of
        (None, s') \<Rightarrow> ([], s')
      | (Some f, s') \<Rightarrow> (let (fs, s'') = take_frames alloc k s' in (f # fs, s'')))"

context frame_source
begin

lemma take_frames_spec:
  assumes "source_inv s" "take_frames alloc k s = (fs, s')"
  shows "source_inv s' \<and> distinct (map number fs) \<and> set (map number fs) \<subseteq> available s \<and>
    available s' = available s - set (map number fs) \<and> length fs = min k (card (available s))"
  using assms
proof (induction k arbitrary: s fs)
  case 0
  then show ?case by simp
next
  case (Suc k)
  show ?case
  proof (cases "alloc s")
    case (Pair r t)
    show ?thesis
    proof (cases r)
      case None
      with Pair Suc.prems alloc_None [OF Suc.prems(1)] show ?thesis by auto
    next
      case (Some f)
      note step = alloc_Some [OF Suc.prems(1) Pair [unfolded Some]]
      obtain gs where gs: "take_frames alloc k t = (gs, s')" "fs = f # gs"
        using Suc.prems(2) Pair Some by (auto split: prod.splits)
      with step Suc.IH [of t gs] have IH: "source_inv s'" "distinct (map number gs)"
        "set (map number gs) \<subseteq> available t" "available s' = available t - set (map number gs)"
        "length gs = min k (card (available t))" by auto
      have "card (available t) = card (available s) - 1" "card (available s) \<noteq> 0"
        using step available_finite [OF Suc.prems(1)] by auto
      with step IH gs(2) show ?thesis by auto
    qed
  qed
qed

end

interpretation raw: frame_source fa_allocate fa_inv free_set
proof
  show "fa_inv s' \<and> frame_aligned f \<and> number f \<in> free_set s \<and> free_set s' = free_set s - {number f}"
    if "fa_inv s" "fa_allocate s = (Some f, s')" for s f s'
    using allocate_inv [OF that] by blast
  show "free_set s = {} \<and> s' = s" if "fa_inv s" "fa_allocate s = (None, s')" for s s'
    using allocate_None [OF that] by blast
qed simp

interpretation purposeful: frame_source "\<lambda>a. allocate_for a p" fa_inv free_set for p
proof
  show "fa_inv s' \<and> frame_aligned f \<and> number f \<in> free_set s \<and> free_set s' = free_set s - {number f}"
    if "fa_inv s" "allocate_for s p = (Some f, s')" for s f s'
    using allocate_for_Some [OF that] by blast
  show "free_set s = {} \<and> s' = s" if "fa_inv s" "allocate_for s p = (None, s')" for s s'
    using allocate_for_None [OF that] by blast
qed simp

interpretation page_tables: frame_source allocate_frame fa_inv free_set
  unfolding allocate_frame_def by (rule purposeful.frame_source_axioms)

section \<open>Reachable allocators\<close>

inductive fa_reachable :: "memory_map \<Rightarrow> frame_allocator \<Rightarrow> bool" for m where
  new: "length storage * 64 \<le> 2 ^ 52 \<Longrightarrow> fa_reachable m (fa_new storage m)"
| move: "fa_reachable m a \<Longrightarrow> fa_reachable m (adopt (bitmap a) m (boot_services_reclaimed a))"
| track: "fa_reachable m a \<Longrightarrow> with_purposes a table = Inr a' \<Longrightarrow> fa_reachable m a'"
| allocate: "fa_reachable m a \<Longrightarrow> allocate_for a p = (r, a') \<Longrightarrow> fa_reachable m a'"
| deallocate: "fa_reachable m a \<Longrightarrow> deallocate_as a f p = (r', a') \<Longrightarrow> fa_reachable m a'"
| relabel: "fa_reachable m a \<Longrightarrow> label a f p = (b, a') \<Longrightarrow> fa_reachable m a'"
| reclaim: "fa_reachable m a \<Longrightarrow> reclaim_boot_services a = (k, a') \<Longrightarrow> fa_reachable m a'"

lemma label_inv: "fa_inv a \<Longrightarrow> fa_inv (snd (label a f p))"
  by (simp add: label_def Let_def manages_managed fa_inv_set_purpose held_set_def)

lemma allocate_for_inv: "fa_inv a \<Longrightarrow> fa_inv (snd (allocate_for a p))"
  by (metis allocate_for_None(2) allocate_for_Some(1) option.exhaust prod.collapse)

lemma reclaim_inv: "fa_inv a \<Longrightarrow> fa_inv (snd (reclaim_boot_services a))"
  by (cases "boot_services_reclaimed a") (auto simp: reclaim_boot_services_def elim: reclaim_spec)

lemma with_purposes_inv:
  assumes "fa_inv a" "with_purposes a t = Inr a'"
  shows "fa_inv a'"
proof -
  have "covered_frames a \<le> length t"
    using assms(2) by (auto simp: with_purposes_def Let_def split: if_splits)
  from with_purposes_spec [OF assms(1) this] assms(2) show ?thesis by auto
qed

lemma map_unchanged:
  "mem_map (snd (allocate_for a p)) = mem_map a"
  "mem_map (snd (deallocate_as a f p)) = mem_map a"
  "mem_map (snd (label a f p)) = mem_map a"
  "with_purposes a t = Inr a' \<Longrightarrow> mem_map a' = mem_map a"
  by (auto simp: allocate_for_def fa_allocate_def deallocate_as_def deallocate_unchecked_def
      label_def with_purposes_def Let_def split: option.splits if_splits)

lemma reclaim_map: "mem_map (snd (reclaim_boot_services a)) = mem_map a"
proof -
  have fr: "mem_map (fst (fold reclaim_frame ns s)) = mem_map (fst s)" for ns s
    by (induction ns arbitrary: s) (auto simp: reclaim_frame_def split: prod.splits if_splits)
  have "mem_map (fst (fold reclaim_region rs s)) = mem_map (fst s)" for rs s
    by (induction rs arbitrary: s) (auto simp: reclaim_region_def fr split: prod.splits)
  from this [of _ "(a\<lparr>boot_services_reclaimed := True\<rparr>, 0)"] show ?thesis
    by (auto simp: reclaim_boot_services_def split: prod.splits) (metis fst_conv)
qed

lemma fa_reachable_inv: "fa_reachable m a \<Longrightarrow> fa_inv a \<and> mem_map a = m"
proof (induction rule: fa_reachable.induct)
  case (new storage)
  then show ?case by (simp add: fa_new_inv fa_new_base)
next
  case (move a)
  then show ?case using adopt_inv(1) [of a] by (simp add: adopt_def)
next
  case (track a table a')
  then show ?case using with_purposes_inv [of a table a'] by (simp add: map_unchanged(4))
next
  case (allocate a p r a')
  then show ?case using allocate_for_inv [of a p] map_unchanged(1) [of a p] by simp
next
  case (deallocate a f p r' a')
  then show ?case using deallocate_as_inv [of a f p] map_unchanged(2) [of a f p] by simp
next
  case (relabel a f p b a')
  then show ?case using label_inv [of a f p] map_unchanged(3) [of a f p] by simp
next
  case (reclaim a k a')
  then show ?case using reclaim_inv [of a] reclaim_map [of a] by simp
qed

section \<open>Properties\<close>

text \<open>The bytes of a region, as the firmware reports it, and of a frame.\<close>

definition region_bytes :: "memory_region \<Rightarrow> nat set" where
  "region_bytes r =
     {unat (p_u64 (start_phys_addr r)) ..< unat (p_u64 (start_phys_addr r)) + unat (page_count r) * 4096}"

definition frame_bytes :: "nat \<Rightarrow> nat set" where
  "frame_bytes n = {n * 4096 ..< (n + 1) * 4096}"

lemma unat_region_end:
  "unat (region_end r) =
     min (unat (p_u64 (start_phys_addr r)) + unat (page_count r) * 4096) (2 ^ 64 - 1)"
  by (simp add: region_end_def word_nat min_def)

lemma inward_frame_bytes:
  assumes "in_frames (inward_frames r) n"
  shows "frame_bytes n \<subseteq> region_bytes r"
proof -
  let ?s = "unat (p_u64 (start_phys_addr r))"
  from assms have "n < unat (region_end r) div 4096" and le: "(if ?s mod 4096 = 0 then ?s div 4096
      else ?s div 4096 + 1) \<le> n"
    by (auto simp: in_frames_def inward_frames_def word_nat split: if_splits)
  then have "(n + 1) * 4096 \<le> unat (region_end r)" by (simp add: less_eq_div_iff_mult_less_eq Suc_le_eq [symmetric])
  also have "\<dots> \<le> ?s + unat (page_count r) * 4096" by (simp add: unat_region_end)
  finally have "(n + 1) * 4096 \<le> ?s + unat (page_count r) * 4096" .
  moreover have "?s \<le> n * 4096"
    using le div_mult_mod_eq [of ?s 4096] mod_less_divisor [of 4096 ?s] by (auto split: if_splits)
  ultimately show ?thesis by (auto simp: frame_bytes_def region_bytes_def)
qed

lemma outward_frame_bytes:
  assumes "n < 2 ^ 52" "x \<in> frame_bytes n" "x \<in> region_bytes r"
  shows "in_frames (outward_frames r) n"
proof -
  let ?s = "unat (p_u64 (start_phys_addr r))" and ?e = "unat (region_end r)"
  have x: "x div 4096 = n" "x < 2 ^ 64" "?s \<le> x" "x < ?s + unat (page_count r) * 4096"
    using assms by (auto simp: frame_bytes_def region_bytes_def intro!: div_nat_eqI)
  then have "?s div 4096 \<le> n" by (metis div_le_mono)
  moreover have "n < (if ?e mod 4096 = 0 then ?e div 4096 else ?e div 4096 + 1)"
  proof (cases "?e = 2 ^ 64 - 1")
    case True
    then show ?thesis using assms(1) by simp
  next
    case False
    with x have "x < ?e" by (auto simp: unat_region_end min_def split: if_splits)
    then have "n \<le> ?e div 4096" using x(1) by (metis div_le_mono less_imp_le)
    moreover have "n \<noteq> ?e div 4096" if "?e mod 4096 = 0"
    proof -
      have "?e = ?e div 4096 * 4096" using that by auto
      with \<open>x < ?e\<close> x(1) show ?thesis
        by (metis div_times_less_eq_dividend leD le_less_trans times_div_less_eq_dividend mult.commute)
    qed
    ultimately show ?thesis by auto
  qed
  ultimately show ?thesis by (auto simp: in_frames_def outward_frames_def word_nat split: if_splits)
qed

text \<open>
  C2. No frame is handed out twice: in every state the allocator can reach, whatever
  \<open>allocate_for\<close> returns is a frame the memory map allows, is not frame 0, was not handed out
  before, and is the one frame that changes hands.
\<close>

theorem allocate_hands_out_once:
  assumes "fa_reachable m a" "allocate_for a p = (Some f, a')"
  shows "manages a f \<and> number f \<noteq> 0 \<and> number f \<notin> held_set a \<and>
    held_set a' = insert (number f) (held_set a) \<and> free_set a' = free_set a - {number f} \<and>
    free_frames a = free_frames a' + 1"
proof -
  have inv: "fa_inv a" using fa_reachable_inv [OF assms(1)] by blast
  note step = allocate_for_Some [OF inv assms(2)]
  have "managed a (number f)" using fa_invD(4) [OF inv step(2)] .
  moreover have "number f \<notin> held_set a" using step(2) by (auto simp: held_set_def free_set_iff)
  moreover have "free a = free a' + 1"
    using step(2,3) fa_invD(2) [OF inv] fa_invD(2) [OF step(1)] card_Suc_Diff1 [of "free_set a" "number f"]
    by simp
  ultimately show ?thesis
    using step by (simp add: manages_managed free_frames_def managed_def)
qed

definition sample_map :: memory_map where
  "sample_map = push_all map_new
     [\<lparr>start_phys_addr = PhysAddr 0, page_count = 4, kind = BootServices, attributes = no_attributes\<rparr>,
      \<lparr>start_phys_addr = PhysAddr 0x4000, page_count = 4, kind = Usable, attributes = no_attributes\<rparr>,
      \<lparr>start_phys_addr = PhysAddr 0x8000, page_count = 4, kind = BootServices, attributes = no_attributes\<rparr>]"

definition sample_allocator :: frame_allocator where
  "sample_allocator = fa_new [0] sample_map"

lemma sample_reachable: "fa_reachable sample_map sample_allocator"
  unfolding sample_allocator_def by (rule fa_reachable.new) simp

lemma sample_bitmap: "bitmap sample_allocator = [0xFFFFFFFFFFFFFF0F]"
  by (simp add: sample_allocator_def sample_map_def fa_new_def push_def CAPACITY_def map_new_def
      inward_frames_def outward_frames_def region_end_def word_nat fa_set_bits_def new_usable_def
      new_withheld_def fa_set_bit_def set_bit_of_def covered_frames_def upt_rec u64_max_def
      Let_def min_def max_def)

lemma sample_free: "free sample_allocator = 4"
proof -
  have "free sample_allocator = count_free (bitmap sample_allocator)"
    unfolding sample_allocator_def fa_new_base(5) by (simp add: count_free_card free_set_def)
  also have "\<dots> = 4" by (simp add: sample_bitmap count_free_def count_zeros_def upt_rec)
  finally show ?thesis .
qed

lemma sample_next: "next_word sample_allocator = 0"
  by (simp add: sample_allocator_def sample_map_def fa_new_def push_def CAPACITY_def map_new_def
      inward_frames_def outward_frames_def region_end_def word_nat fa_set_bits_def new_usable_def
      new_withheld_def fa_set_bit_def set_bit_of_def covered_frames_def upt_rec u64_max_def
      Let_def min_def max_def)

lemma sample_allocate: "fst (allocate_for sample_allocator Heap) = Some (frame_no 4)"
  by (simp add: allocate_for_def fa_allocate_def sample_free sample_next sample_bitmap u64_max_def
      trailing_zeros_def upt_rec Let_def)

theorem allocate_hands_out_once_witness:
  "\<exists>a'. allocate_for sample_allocator Heap = (Some (frame_no 4), a') \<and>
     held_set a' = insert (number (frame_no 4)) (held_set sample_allocator)"
proof -
  obtain a' where a': "allocate_for sample_allocator Heap = (Some (frame_no 4), a')"
    using sample_allocate by (metis prod.collapse)
  show ?thesis using allocate_hands_out_once [OF sample_reachable a'] a' by blast
qed

text \<open>
  C5. Memory safety in bytes: every byte of a frame the allocator hands out lies inside one region
  the firmware reported as usable (or as boot-services memory once that was reclaimed), and no byte
  of it lies in a region of any other kind, however the regions overlap and however corrupt their
  page counts are.
\<close>

theorem allocate_respects_the_map:
  assumes "fa_reachable m a" "allocate_for a p = (Some f, a')"
  shows "(\<exists>r \<in> set (regions m). allocatable (boot_services_reclaimed a) (kind r) \<and>
            frame_bytes (number f) \<subseteq> region_bytes r) \<and>
         (\<forall>r \<in> set (regions m). allocatable (boot_services_reclaimed a) (kind r) \<or>
            frame_bytes (number f) \<inter> region_bytes r = {})"
proof -
  have inv: "fa_inv a" and m: "mem_map a = m" using fa_reachable_inv [OF assms(1)] by auto
  have "managed a (number f)"
    using fa_invD(4) [OF inv allocate_for_Some(2) [OF inv assms(2)]] .
  then have "map_allows m (boot_services_reclaimed a) (number f)" by (simp add: managed_def m)
  then show ?thesis
    using inward_frame_bytes outward_frame_bytes [OF number_bound [of f]]
    by (fastforce simp: map_allows_def list_ex_iff)
qed

theorem allocate_respects_the_map_witness:
  "\<exists>r \<in> set (regions sample_map). frame_bytes (number (frame_no 4)) \<subseteq> region_bytes r"
proof -
  obtain a' where "allocate_for sample_allocator Heap = (Some (frame_no 4), a')"
    using sample_allocate by (metis prod.collapse)
  from allocate_respects_the_map [OF sample_reachable this] show ?thesis by blast
qed

text \<open>
  C6. The allocator says no only when it has nothing: in every reachable state \<open>allocate_for\<close>
  returns a frame exactly when \<open>free_frames\<close> is not 0, and \<open>free_frames\<close> counts the frames the
  map allows that nobody holds.
\<close>

theorem allocate_succeeds_iff_free:
  assumes "fa_reachable m a"
  shows "((\<exists>f a'. allocate_for a p = (Some f, a')) \<longleftrightarrow> free_frames a \<noteq> 0) \<and>
    free_frames a + card (held_set a) = card {n. managed a n}"
proof (rule conjI)
  have inv: "fa_inv a" using fa_reachable_inv [OF assms] by blast
  obtain r a' where r: "allocate_for a p = (r, a')" by fastforce
  show "(\<exists>f a'. allocate_for a p = (Some f, a')) \<longleftrightarrow> free_frames a \<noteq> 0"
  proof (cases r)
    case None
    then show ?thesis using allocate_for_None(1) [OF inv] r fa_invD(2) [OF inv]
      by (simp add: free_frames_def)
  next
    case (Some f)
    then have "number f \<in> free_set a" using allocate_for_Some(2) [OF inv] r by simp
    then have "free a \<noteq> 0" using fa_invD(2) [OF inv] by (simp add: card_gt_0_iff) blast
    then show ?thesis using r Some by (auto simp: free_frames_def)
  qed
  have "finite (held_set a)"
    by (rule finite_subset [of _ "{..<covered_frames a}"]) (auto simp: held_set_def dest: managed_covered)
  then have "card (free_set a) + card (held_set a) = card (free_set a \<union> held_set a)"
    by (simp add: card_Un_disjoint free_held_partition(2) [OF inv])
  then show "free_frames a + card (held_set a) = card {n. managed a n}"
    using fa_invD(2) [OF inv] by (simp add: free_frames_def free_held_partition(1) [OF inv])
qed

theorem allocate_succeeds_iff_free_witness:
  "(\<exists>f a'. allocate_for sample_allocator Dma = (Some f, a')) \<longleftrightarrow> free_frames sample_allocator \<noteq> 0"
  using allocate_succeeds_iff_free [OF sample_reachable] by blast

text \<open>
  The bitmap built from the map is exact: after \<open>new\<close>, a covered frame is free exactly when
  \<open>manages\<close>, which re-derives the answer from the map, says it can be handed out, and
  \<open>free_frames\<close> is the number of such frames.
\<close>

theorem new_agrees_with_manages:
  assumes "length storage * 64 \<le> 2 ^ 52"
  shows "(\<forall>n < length storage * 64.
      \<not> fa_bit (fa_new storage m) n \<longleftrightarrow> manages (fa_new storage m) (frame_no n)) \<and>
    free_frames (fa_new storage m) =
      card {n. n < length storage * 64 \<and> manages (fa_new storage m) (frame_no n)}"
proof (intro conjI allI impI)
  have num: "number (frame_no n) = n" if "n < length storage * 64" for n
    using that assms by simp
  have man: "manages (fa_new storage m) (frame_no n) \<longleftrightarrow> managed (fa_new storage m) n"
    if "n < length storage * 64" for n
    by (simp only: manages_managed num [OF that])
  have free: "free_set (fa_new storage m) = {n. managed (fa_new storage m) n}"
    by (rule fa_new_free_set)
  show "\<not> fa_bit (fa_new storage m) n \<longleftrightarrow> manages (fa_new storage m) (frame_no n)"
    if "n < length storage * 64" for n
    using free that unfolding man [OF that] by (auto simp: free_set_iff set_eq_iff)
  have "{n. n < length storage * 64 \<and> manages (fa_new storage m) (frame_no n)} =
      {n. managed (fa_new storage m) n}"
    using man managed_covered [of "fa_new storage m"] by fastforce
  then show "free_frames (fa_new storage m) =
      card {n. n < length storage * 64 \<and> manages (fa_new storage m) (frame_no n)}"
    by (simp add: free_frames_def fa_new_base(5) free)
qed

theorem new_agrees_with_manages_witness:
  "\<not> fa_bit (fa_new [0] sample_map) 5 \<longleftrightarrow> manages (fa_new [0] sample_map) (frame_no 5)"
  using new_agrees_with_manages [of "[0]" sample_map] by simp

text \<open>
  Giving back what was taken restores the allocator, once: a frame taken for a purpose is
  accepted back for that purpose, the free and held frames are then what they were before, and a
  second attempt is refused.
\<close>

theorem deallocate_undoes_allocate:
  assumes reach: "fa_reachable m a" and al: "allocate_for a p = (Some f, a1)"
  shows "\<exists>a2. deallocate_as a1 f p = (Inr (), a2) \<and> free_set a2 = free_set a \<and>
    held_set a2 = held_set a \<and> free_frames a2 = free_frames a \<and>
    fst (deallocate_as a2 f q) =
      Inl (if purposes a = None then NotAllocated else WrongPurpose q None)"
proof -
  have inv: "fa_inv a" using fa_reachable_inv [OF reach] by blast
  note step = allocate_for_Some [OF inv al]
  have pur: "purposes a1 = None \<longleftrightarrow> purposes a = None"
    using al allocate_inv(7) [OF inv]
    by (auto simp: allocate_for_def set_purpose_def split: prod.splits option.splits)
  have held: "number f \<in> held_set a1" using step by simp
  define a2 where "a2 = snd (deallocate_unchecked a1 f)"
  note undo = deallocate_unchecked_spec [OF step(1) held]
  have "deallocate_as a1 f p = deallocate_unchecked a1 f"
    using step(7) pur by (auto simp: deallocate_as_cases)
  then have d: "deallocate_as a1 f p = (Inr (), a2)"
    using held deallocate_unchecked_ok_iff [of a1 f] by (metis a2_def prod.collapse)
  have fr: "free_set a2 = free_set a" using undo step by (auto simp: a2_def)
  have hd: "held_set a2 = held_set a"
    using undo step by (auto simp: a2_def held_set_def free_set_iff)
  have nf: "number f \<notin> held_set a2" using hd step(2) by (auto simp: held_set_def free_set_iff)
  have cov: "number f < covered_frames a2"
    using fr step(2) free_set_iff [of "number f" a2] by simp
  have none: "purpose_of a2 f = None"
    using purpose_of_held [OF fa_invD(3) [OF undo(1)]] nf cov by (cases "purpose_of a2 f") (auto simp: a2_def)
  have pur2: "purposes a2 = None \<longleftrightarrow> purposes a = None"
    using held pur
    by (auto simp: a2_def deallocate_unchecked_def held_set_def manages_managed set_purpose_def Let_def
        split: option.splits)
  have "manages a2 f" using fr step(2) fa_invD(4) [OF undo(1), of "number f"]
    by (simp add: manages_managed a2_def)
  then have "fst (deallocate_unchecked a2 f) = Inl NotAllocated"
    using nf by (simp add: deallocate_unchecked_def held_set_def manages_managed)
  then have "fst (deallocate_as a2 f q) =
      Inl (if purposes a = None then NotAllocated else WrongPurpose q None)"
    using pur2 none by (simp add: deallocate_as_cases)
  then show ?thesis
    using d fr hd fa_invD(2) [OF undo(1)] fa_invD(2) [OF inv] by (auto simp: free_frames_def a2_def)
qed

theorem deallocate_undoes_allocate_witness:
  "\<exists>a1 a2. allocate_for sample_allocator Heap = (Some (frame_no 4), a1) \<and>
     deallocate_as a1 (frame_no 4) Heap = (Inr (), a2) \<and> free_set a2 = free_set sample_allocator"
proof -
  obtain a1 where a1: "allocate_for sample_allocator Heap = (Some (frame_no 4), a1)"
    using sample_allocate by (metis prod.collapse)
  show ?thesis using deallocate_undoes_allocate [OF sample_reachable a1, of Heap] a1 by blast
qed

text \<open>
  Reclaiming boot-services memory adds exactly the frames that lie wholly inside such a region
  and that no reserved region touches, never frame 0; it answers how many, keeps every frame that
  was handed out handed out, and adds nothing the second time.
\<close>

theorem reclaim_adds_boot_services:
  assumes "fa_reachable m a" "\<not> boot_services_reclaimed a"
  shows "\<exists>a'. reclaim_boot_services a = (card (reclaimable a), a') \<and>
    free_set a' = free_set a \<union> reclaimable a \<and> held_set a \<subseteq> held_set a' \<and>
    reclaim_boot_services a' = (0, a')"
proof -
  have inv: "fa_inv a" using fa_reachable_inv [OF assms(1)] by blast
  from reclaim_spec [OF inv assms(2)] obtain a' where
    "reclaim_boot_services a = (card (reclaimable a), a')"
    "free_set a' = free_set a \<union> reclaimable a" "held_set a \<subseteq> held_set a'"
    "boot_services_reclaimed a'" .
  then show ?thesis by (auto simp: reclaim_boot_services_def)
qed

theorem reclaim_adds_boot_services_witness:
  "\<not> boot_services_reclaimed sample_allocator \<and>
   fst (reclaim_boot_services sample_allocator) = card (reclaimable sample_allocator)"
proof -
  have fresh: "\<not> boot_services_reclaimed sample_allocator"
    by (simp add: sample_allocator_def fa_new_base)
  from reclaim_adds_boot_services [OF sample_reachable fresh] fresh show ?thesis by auto
qed

text \<open>
  What a consumer of frames gets: taking any number of frames for page tables yields pairwise
  different frames, all of them free before and none free after, and as many as were asked for
  unless the allocator ran out.
\<close>

theorem page_table_frames_distinct:
  assumes "fa_reachable m a" "take_frames allocate_frame k a = (fs, a')"
  shows "distinct (map number fs) \<and> set (map number fs) \<subseteq> free_set a \<and>
    free_set a' = free_set a - set (map number fs) \<and> length fs = min k (free_frames a)"
proof -
  have inv: "fa_inv a" using fa_reachable_inv [OF assms(1)] by blast
  show ?thesis using page_tables.take_frames_spec [OF inv assms(2)] fa_invD(2) [OF inv]
    by (auto simp: free_frames_def)
qed

theorem page_table_frames_distinct_witness:
  "length (fst (take_frames allocate_frame 3 sample_allocator)) = 3"
proof -
  obtain fs a' where t: "take_frames allocate_frame 3 sample_allocator = (fs, a')" by fastforce
  from page_table_frames_distinct [OF sample_reachable t] show ?thesis
    by (simp add: t free_frames_def sample_free)
qed

text \<open>
  Giving a frame back succeeds exactly when the allocator has it handed out and, once purposes
  are recorded, handed out for that very purpose; every refusal leaves the allocator untouched and
  every acceptance frees that frame and no other.
\<close>

theorem deallocate_as_exact:
  assumes "fa_reachable m a"
  shows "if number f \<in> held_set a \<and> (purposes a = None \<or> purpose_of a f = Some p)
    then (\<exists>a'. deallocate_as a f p = (Inr (), a') \<and> free_set a' = insert (number f) (free_set a) \<and>
            held_set a' = held_set a - {number f})
    else (\<exists>e. deallocate_as a f p = (Inl e, a))"
proof (cases "number f \<in> held_set a \<and> (purposes a = None \<or> purpose_of a f = Some p)")
  case True
  have inv: "fa_inv a" using fa_reachable_inv [OF assms] by blast
  have "deallocate_as a f p = deallocate_unchecked a f" using True by (auto simp: deallocate_as_cases)
  moreover have "fst (deallocate_unchecked a f) = Inr ()"
    using True by (simp add: deallocate_unchecked_ok_iff)
  ultimately show ?thesis
    using True deallocate_unchecked_spec [OF inv, of f] by (cases "deallocate_unchecked a f") auto
next
  case False
  then have "fst (deallocate_as a f p) \<noteq> Inr ()" by (auto simp: deallocate_as_ok_iff)
  then obtain e where "fst (deallocate_as a f p) = Inl e" by (cases "fst (deallocate_as a f p)") auto
  with deallocate_as_error_unchanged [OF this] have "deallocate_as a f p = (Inl e, a)"
    by (metis prod.collapse)
  with False show ?thesis by auto
qed

theorem deallocate_as_exact_witness:
  "\<exists>e. deallocate_as sample_allocator (frame_no 0) Heap = (Inl e, sample_allocator)"
proof -
  have "number (frame_no 0) = 0" by (rule number_frame_no) simp
  then have "number (frame_no 0) \<notin> held_set sample_allocator" by (simp only: held_set_def managed_def) simp
  with deallocate_as_exact [OF sample_reachable, of "frame_no 0" Heap] show ?thesis by auto
qed

end
