(* ===== verification/Process.thy ===== *)
theory Process
  imports Elf Fat_Format Frame_Allocator
begin

text \<open>
  A process (\<^verbatim>\<open>kernel/src/process.rs\<close>): the ranges of memory it owns and may write, the frames behind
  them, its kernel stack and its table of open files, and the bookkeeping of one being built. Its page
  tables are of a type the theory does not look into. The arrays of fixed length are lists.
\<close>

section \<open>Constants and errors\<close>

definition CODE_BASE :: virt_addr where "CODE_BASE = VirtAddr 0x400000"
definition STACK_BASE :: virt_addr where "STACK_BASE = VirtAddr 0x500000"
definition STACK_TOP :: virt_addr where "STACK_TOP = VirtAddr 0x501000"
definition MAX_RANGES :: usize where "MAX_RANGES = MAX_SEGMENTS + 1"
definition MAX_FRAMES :: usize where "MAX_FRAMES = 32"
definition MAX_OPEN :: usize where "MAX_OPEN = 4"

text \<open>\<open>SpawnError\<close>, with the error of the page tables a parameter.\<close>

datatype 'p spawn_error =
    SpawnOutOfMemory
  | SpawnSpace 'p
  | SpawnMapping map_error
  | ProgramTooBig
  | TooManyRanges
  | TooManyFrames
  | SegmentsShareAPage u64

record stack =
  stack_bottom :: virt_addr
  stack_top :: virt_addr

section \<open>Open files\<close>

record open_file =
  of_entry :: directory_entry
  of_position :: u32

type_synonym open_files = "open_file option list"

definition open_files_new :: open_files where
  "open_files_new = replicate MAX_OPEN None"

definition open_file :: "open_file \<Rightarrow> open_files \<Rightarrow> usize option \<times> open_files" where
  "open_file f t =
     (case position Option.is_none t of None \<Rightarrow> (None, t) | Some at \<Rightarrow> (Some at, t[at := Some f]))"

definition open_at :: "open_files \<Rightarrow> usize \<Rightarrow> open_file option" where
  "open_at t descriptor = Option.bind (get_at t descriptor) id"

text \<open>What a caller does through the reference \<open>at\<close> hands out.\<close>

definition update_at :: "usize \<Rightarrow> (open_file \<Rightarrow> open_file) \<Rightarrow> open_files \<Rightarrow> open_files" where
  "update_at descriptor g t =
     (case open_at t descriptor of None \<Rightarrow> t | Some f \<Rightarrow> t[descriptor := Some (g f)])"

definition close_file :: "usize \<Rightarrow> open_files \<Rightarrow> bool \<times> open_files" where
  "close_file descriptor t =
     (case get_at t descriptor of
        Some slot \<Rightarrow> (slot \<noteq> None, t[descriptor := None])
      | None \<Rightarrow> (False, t))"

definition holds :: "open_files \<Rightarrow> bytes \<Rightarrow> bool" where
  "holds t name \<longleftrightarrow> (\<exists>f. Some f \<in> set t \<and> is_named (of_entry f) name)"

definition close_everything :: "open_files \<Rightarrow> open_files" where
  "close_everything t = replicate MAX_OPEN None"

definition open_count :: "open_files \<Rightarrow> usize" where
  "open_count t = length (filter (\<lambda>slot. slot \<noteq> None) t)"

section \<open>Processes\<close>

record 'sp process =
  space :: 'sp
  owned :: "phys_range option list"
  writable :: "phys_range option list"
  frames :: "(phys_frame \<times> frame_purpose) option list"
  entry :: virt_addr
  kernel_stack :: stack
  open_table :: open_files

definition fixed :: "phys_range option list \<Rightarrow> phys_range list" where
  "fixed ranges = map (\<lambda>r. case r of Some r \<Rightarrow> r | None \<Rightarrow> \<lparr>range_start = PhysAddr 0, range_len = 0\<rparr>) ranges"

definition owned_by :: "phys_range list \<Rightarrow> u64 \<Rightarrow> u64 \<Rightarrow> bool" where
  "owned_by ranges ptr len =
     (if len = 0 then False
      else case checked_add ptr len of None \<Rightarrow> False
        | Some e \<Rightarrow> (\<exists>r \<in> set ranges. ptr \<ge> p_u64 (range_start r) \<and> e \<le> p_u64 (range_end r)))"

definition ranges :: "'sp process \<Rightarrow> phys_range list" where
  "ranges p = fixed (owned p)"

definition writable_ranges :: "'sp process \<Rightarrow> phys_range list" where
  "writable_ranges p = fixed (writable p)"

definition process_owns :: "'sp process \<Rightarrow> u64 \<Rightarrow> u64 \<Rightarrow> bool" where
  "process_owns p ptr len \<longleftrightarrow> (\<exists>r \<in> set (ranges p). owned_by [r] ptr len)"

definition has_open :: "'sp process \<Rightarrow> bytes \<Rightarrow> bool" where
  "has_open p name \<longleftrightarrow> holds (open_table p) name"

definition process_close_everything :: "'sp process \<Rightarrow> 'sp process" where
  "process_close_everything p = p\<lparr>open_table := close_everything (open_table p)\<rparr>"

section \<open>Being built\<close>

record 'sp building =
  bd_space :: 'sp
  bd_owned :: "phys_range option list"
  bd_writable :: "phys_range option list"
  bd_frames :: "(phys_frame \<times> frame_purpose) option list"
  bd_ranges :: usize
  bd_taken :: usize

definition building_new :: "'sp \<Rightarrow> 'sp building" where
  "building_new sp = \<lparr>bd_space = sp, bd_owned = replicate MAX_RANGES None, bd_writable = replicate MAX_RANGES None,
     bd_frames = replicate MAX_FRAMES None, bd_ranges = 0, bd_taken = 0\<rparr>"

definition own :: "phys_range \<Rightarrow> bool \<Rightarrow> 'sp building \<Rightarrow> 'p spawn_error + 'sp building" where
  "own rng can_write b =
     (if bd_ranges b = MAX_RANGES then Inl TooManyRanges
      else let b1 = b\<lparr>bd_owned := (bd_owned b)[bd_ranges b := Some rng]\<rparr>;
               b2 = (if can_write then b1\<lparr>bd_writable := (bd_writable b1)[bd_ranges b := Some rng]\<rparr> else b1)
           in Inr (b2\<lparr>bd_ranges := bd_ranges b + 1\<rparr>))"

definition took :: "phys_frame \<Rightarrow> frame_purpose \<Rightarrow> 'sp building \<Rightarrow> 'p spawn_error + 'sp building" where
  "took frame purpose b =
     (if bd_taken b = MAX_FRAMES then Inl TooManyFrames
      else Inr (b\<lparr>bd_frames := (bd_frames b)[bd_taken b := Some (frame, purpose)], bd_taken := bd_taken b + 1\<rparr>))"

definition finish :: "'sp building \<Rightarrow> virt_addr \<Rightarrow> stack \<Rightarrow> 'sp process" where
  "finish b e kstack = \<lparr>space = bd_space b, owned = bd_owned b, writable = bd_writable b, frames = bd_frames b,
     entry = e, kernel_stack = kstack, open_table = open_files_new\<rparr>"

section \<open>The table of open files as a map of descriptors\<close>

definition descriptors :: "open_files \<Rightarrow> usize \<Rightarrow> open_file option" where
  "descriptors t = (\<lambda>d. if d < length t then t ! d else None)"

lemma descriptors_update: "at < length t \<Longrightarrow> descriptors (t[at := v]) = (descriptors t)(at := v)"
  by (auto simp: descriptors_def fun_eq_iff nth_list_update)

lemma open_at_descriptors: "open_at t = descriptors t"
  by (auto simp: open_at_def descriptors_def get_at_def fun_eq_iff)

lemma ran_descriptors: "ran (descriptors t) = {f. Some f \<in> set t}"
  by (auto simp: ran_def descriptors_def in_set_conv_nth)

lemma dom_descriptors: "dom (descriptors t) \<subseteq> {..<length t}"
  by (auto simp: descriptors_def dom_def split: if_splits)

text \<open>The bytes a request covers, and those of a range.\<close>

definition request_bytes :: "u64 \<Rightarrow> u64 \<Rightarrow> nat set" where
  "request_bytes ptr len = {unat ptr ..< unat ptr + unat len}"

definition range_bytes :: "phys_range \<Rightarrow> nat set" where
  "range_bytes r = {unat (p_u64 (range_start r)) ..< unat (p_u64 (range_end r))}"

lemma owned_by_iff:
  "owned_by rs ptr len \<longleftrightarrow> len \<noteq> 0 \<and> unat ptr + unat len < 2 ^ 64 \<and> (\<exists>r \<in> set rs. request_bytes ptr len \<subseteq> range_bytes r)"
proof -
  have sub: "{a..<b :: nat} \<subseteq> {c..<d} \<longleftrightarrow> c \<le> a \<and> b \<le> d" if "a < b" for a b c d
    using that by (auto simp: ivl_subset)
  show ?thesis
    using sub [of "unat ptr" "unat ptr + unat len"]
    by (auto simp: owned_by_def request_bytes_def range_bytes_def checked_add_def unat_add_exact word_le_nat_alt
        unat_gt_0 word_neq_0_conv)
qed

lemma fixed_bytes: "r \<in> set (fixed rs) \<Longrightarrow> request_bytes ptr len \<subseteq> range_bytes r \<Longrightarrow> len \<noteq> 0 \<Longrightarrow> Some r \<in> set rs"
  by (auto simp: fixed_def request_bytes_def range_bytes_def unat_range_end unat_eq_zero split: option.splits)

text \<open>What is writable is owned.\<close>

definition building_ok :: "'sp building \<Rightarrow> bool" where
  "building_ok b \<longleftrightarrow> length (bd_owned b) = MAX_RANGES \<and> length (bd_writable b) = MAX_RANGES \<and>
     length (bd_frames b) = MAX_FRAMES \<and> bd_ranges b \<le> MAX_RANGES \<and> bd_taken b \<le> MAX_FRAMES \<and>
     (\<forall>k < MAX_RANGES. bd_writable b ! k \<in> {None, bd_owned b ! k}) \<and>
     (\<forall>k < MAX_RANGES. bd_owned b ! k \<noteq> None \<longleftrightarrow> k < bd_ranges b) \<and>
     (\<forall>k < MAX_FRAMES. bd_frames b ! k \<noteq> None \<longleftrightarrow> k < bd_taken b)"

lemma building_new_ok: "building_ok (building_new sp)"
  by (simp add: building_ok_def building_new_def)

lemma own_ok:
  assumes "building_ok b"
  shows "case own r w b of Inr b' \<Rightarrow> building_ok b' \<and> bd_ranges b' = bd_ranges b + 1 | Inl e \<Rightarrow> e = TooManyRanges \<and> bd_ranges b = MAX_RANGES"
proof (cases "bd_ranges b = MAX_RANGES")
  case False
  then have "bd_ranges b < MAX_RANGES" using assms by (simp add: building_ok_def)
  moreover have "bd_writable b ! bd_ranges b = None"
    using assms calculation unfolding building_ok_def by (metis insertE less_irrefl singletonD)
  ultimately show ?thesis using assms unfolding building_ok_def own_def Let_def
    by (auto simp: nth_list_update less_Suc_eq)
qed (simp add: own_def)

lemma took_ok:
  assumes "building_ok b"
  shows "case took f p b of Inr b' \<Rightarrow> building_ok b' \<and> bd_taken b' = bd_taken b + 1 | Inl e \<Rightarrow> e = TooManyFrames \<and> bd_taken b = MAX_FRAMES"
  using assms unfolding building_ok_def took_def
  by (auto simp: nth_list_update less_Suc_eq)

section \<open>Properties\<close>

text \<open>
  A table of open files is a map from at most four descriptors to files: opening takes the lowest
  free descriptor and is refused only when all four are in use, closing frees exactly the descriptor
  named, a number that is out of range or closed names nothing, and a name is held exactly when an
  open file has it.
\<close>

theorem open_files_are_a_map:
  assumes "length t = MAX_OPEN"
  shows "dom (descriptors t) \<subseteq> {..<4} \<and>
    (case open_file f t of
       (Some d, t') \<Rightarrow> d < 4 \<and> descriptors t d = None \<and> (\<forall>k < d. descriptors t k \<noteq> None) \<and>
         descriptors t' = (descriptors t)(d \<mapsto> f) \<and> length t' = MAX_OPEN
     | (None, t') \<Rightarrow> t' = t \<and> dom (descriptors t) = {..<4}) \<and>
    open_at t d = descriptors t d \<and>
    (case close_file d t of (was_open, t') \<Rightarrow>
       was_open = (d \<in> dom (descriptors t)) \<and> descriptors t' = (descriptors t)(d := None) \<and> length t' = MAX_OPEN) \<and>
    holds t name = (\<exists>f \<in> ran (descriptors t). is_named (of_entry f) name) \<and>
    descriptors (close_everything t) = Map.empty"
proof (intro conjI)
  show "dom (descriptors t) \<subseteq> {..<4}" using dom_descriptors [of t] assms by (simp add: MAX_OPEN_def)
  show "case open_file f t of
       (Some d, t') \<Rightarrow> d < 4 \<and> descriptors t d = None \<and> (\<forall>k < d. descriptors t k \<noteq> None) \<and>
         descriptors t' = (descriptors t)(d \<mapsto> f) \<and> length t' = MAX_OPEN
     | (None, t') \<Rightarrow> t' = t \<and> dom (descriptors t) = {..<4}"
  proof (cases "position Option.is_none t")
    case None
    then have "\<forall>k < length t. t ! k \<noteq> None" by (auto simp: position_None_iff Option.is_none_def in_set_conv_nth)
    then have "dom (descriptors t) = {..<4}" using assms by (auto simp: descriptors_def dom_def MAX_OPEN_def)
    then show ?thesis using None by (simp add: open_file_def)
  next
    case (Some at)
    then have at: "at < length t" "t ! at = None" "\<forall>k < at. t ! k \<noteq> None"
      by (auto simp: position_Some_iff Option.is_none_def)
    then show ?thesis using Some assms by (auto simp: open_file_def descriptors_update descriptors_def MAX_OPEN_def)
  qed
  show "open_at t d = descriptors t d" by (simp add: open_at_descriptors)
  show "case close_file d t of (was_open, t') \<Rightarrow>
       was_open = (d \<in> dom (descriptors t)) \<and> descriptors t' = (descriptors t)(d := None) \<and> length t' = MAX_OPEN"
    using assms by (auto simp: close_file_def get_at_def descriptors_update descriptors_def fun_eq_iff)
  show "holds t name = (\<exists>f \<in> ran (descriptors t). is_named (of_entry f) name)"
    by (auto simp: holds_def ran_descriptors)
  show "descriptors (close_everything t) = Map.empty"
    by (auto simp: descriptors_def close_everything_def fun_eq_iff)
qed

definition sample_open :: open_file where
  "sample_open = \<lparr>of_entry = \<lparr>de_name = [65], de_attributes = 0, de_first_cluster = 3, de_size = 5\<rparr>, of_position = 0\<rparr>"

theorem open_files_are_a_map_witness:
  "fst (open_file sample_open open_files_new) = Some 0 \<and>
   descriptors (snd (open_file sample_open open_files_new)) = [0 \<mapsto> sample_open]"
proof -
  have "length open_files_new = MAX_OPEN" by (simp add: open_files_new_def)
  moreover have "open_file sample_open open_files_new = (Some 0, open_files_new[0 := Some sample_open])"
    by (simp add: open_file_def open_files_new_def MAX_OPEN_def numeral_eq_Suc)
  moreover have "descriptors open_files_new = Map.empty" by (auto simp: descriptors_def open_files_new_def)
  ultimately show ?thesis using open_files_are_a_map [of open_files_new sample_open] by auto
qed

text \<open>
  The check every pointer from ring 3 goes through is exact: a request is accepted if and only if it
  is not empty, does not wrap around the address space, and all its bytes lie inside one of the ranges
  the process owns; the empty slots of the table never match anything.
\<close>

theorem pointer_check_exact:
  "owned_by (ranges p) ptr len \<longleftrightarrow>
     len \<noteq> 0 \<and> unat ptr + unat len < 2 ^ 64 \<and>
     (\<exists>r. Some r \<in> set (owned p) \<and>
        {unat ptr ..< unat ptr + unat len} \<subseteq>
        {unat (p_u64 (range_start r)) ..< unat (p_u64 (range_start r)) + unat (range_len r)})"
proof -
  have sub: "request_bytes ptr len \<subseteq> range_bytes r \<longleftrightarrow>
      {unat ptr ..< unat ptr + unat len} \<subseteq>
        {unat (p_u64 (range_start r)) ..< unat (p_u64 (range_start r)) + unat (range_len r)}"
    if "unat ptr + unat len < 2 ^ 64" for r
    using that by (auto simp: request_bytes_def range_bytes_def unat_range_end subset_iff)
  have mem: "r \<in> set (fixed (owned p))" if "Some r \<in> set (owned p)" for r
    using that by (force simp: fixed_def)
  show ?thesis
    using sub fixed_bytes [of _ "owned p" ptr len] mem unfolding owned_by_iff ranges_def by blast
qed

end
