(* ===== verification/Ipc.thy ===== *)
theory Ipc
  imports Prelude
begin

text \<open>
  A process's mailbox (\<^verbatim>\<open>kernel/src/ipc.rs\<close>): at most one message of at most 64 bytes. The locale
  \<open>one_slot\<close> is the contract the scheduler relies on, and its main fact is that over any sequence of
  deliveries and takes the accepted messages come out once, unchanged and in order.
\<close>

definition CAPACITY_ipc :: usize where
  "CAPACITY_ipc = 64"

record delivery =
  dl_from :: usize
  dl_len :: usize

datatype deliver_error = Busy | DeliverTooLong usize | Empty

datatype take_error = Nothing | TakeTooLong usize

record mailbox =
  mb_bytes :: bytes
  mb_waiting :: "delivery option"

definition mailbox_new :: mailbox where
  "mailbox_new = \<lparr>mb_bytes = replicate CAPACITY_ipc 0, mb_waiting = None\<rparr>"

definition is_empty :: "mailbox \<Rightarrow> bool" where
  "is_empty b \<longleftrightarrow> mb_waiting b = None"

definition deliver :: "usize \<Rightarrow> bytes \<Rightarrow> mailbox \<Rightarrow> (deliver_error + delivery) \<times> mailbox" where
  "deliver sender message b =
     (if message = [] then (Inl Empty, b)
      else if length message > CAPACITY_ipc then (Inl (DeliverTooLong CAPACITY_ipc), b)
      else if mb_waiting b \<noteq> None then (Inl Busy, b)
      else let d = \<lparr>dl_from = sender, dl_len = length message\<rparr>
           in (Inr d, b\<lparr>mb_bytes := copy_at (mb_bytes b) 0 message, mb_waiting := Some d\<rparr>))"

text \<open>\<open>take_into\<close> answers with the buffer offered, filled on success.\<close>

definition take_into :: "bytes \<Rightarrow> mailbox \<Rightarrow> (take_error + delivery) \<times> bytes \<times> mailbox" where
  "take_into into b =
     (case mb_waiting b of
        None \<Rightarrow> (Inl Nothing, into, b)
      | Some d \<Rightarrow>
          (if length into < dl_len d then (Inl (TakeTooLong (dl_len d)), into, b)
           else (Inr d, copy_at into 0 (take (dl_len d) (mb_bytes b)), b\<lparr>mb_waiting := None\<rparr>)))"

section \<open>The contract of a mailbox\<close>

definition mailbox_ok :: "mailbox \<Rightarrow> bool" where
  "mailbox_ok b \<longleftrightarrow> length (mb_bytes b) = CAPACITY_ipc \<and>
     (\<forall>d. mb_waiting b = Some d \<longrightarrow> 0 < dl_len d \<and> dl_len d \<le> CAPACITY_ipc)"

text \<open>What is waiting: who sent it and its bytes.\<close>

definition content :: "mailbox \<Rightarrow> (usize \<times> bytes) option" where
  "content b = map_option (\<lambda>d. (dl_from d, take (dl_len d) (mb_bytes b))) (mb_waiting b)"

datatype mail_op = Put usize bytes | Take bytes

locale one_slot =
  fixes ok :: "'s \<Rightarrow> bool"
    and cont :: "'s \<Rightarrow> (usize \<times> bytes) option"
    and put :: "usize \<Rightarrow> bytes \<Rightarrow> 's \<Rightarrow> (deliver_error + delivery) \<times> 's"
    and tak :: "bytes \<Rightarrow> 's \<Rightarrow> (take_error + delivery) \<times> bytes \<times> 's"
  assumes put_law: "ok s \<Longrightarrow> put f msg s = (r, s') \<Longrightarrow> ok s' \<and>
      (case r of Inl e \<Rightarrow> s' = s
       | Inr d \<Rightarrow> cont s = None \<and> cont s' = Some (f, msg) \<and> dl_from d = f \<and> dl_len d = length msg)"
    and tak_law: "ok s \<Longrightarrow> tak into s = (r', into', s') \<Longrightarrow> ok s' \<and>
      (case r' of Inl e \<Rightarrow> s' = s \<and> into' = into
       | Inr d \<Rightarrow> cont s = Some (dl_from d, take (dl_len d) into') \<and> cont s' = None \<and>
           length into' = length into \<and> drop (dl_len d) into' = drop (dl_len d) into)"
begin

text \<open>Runs of operations, with the messages accepted and the messages handed over.\<close>

fun run :: "mail_op list \<Rightarrow> 's \<Rightarrow> (usize \<times> bytes) list \<times> (usize \<times> bytes) list \<times> 's" where
  "run [] s = ([], [], s)"
| "run (Put f msg # ops) s =
     (let (r, s') = put f msg s; (ins, outs, t) = run ops s'
      in (case r of Inl e \<Rightarrow> ins | Inr d \<Rightarrow> (f, msg) # ins, outs, t))"
| "run (Take into # ops) s =
     (let (r, into', s') = tak into s; (ins, outs, t) = run ops s'
      in (ins, case r of Inl e \<Rightarrow> outs | Inr d \<Rightarrow> (dl_from d, take (dl_len d) into') # outs, t))"

definition waiting_list :: "'s \<Rightarrow> (usize \<times> bytes) list" where
  "waiting_list s = (case cont s of None \<Rightarrow> [] | Some m \<Rightarrow> [m])"

lemma run_fifo:
  "ok s \<Longrightarrow> run ops s = (ins, outs, t) \<Longrightarrow>
     ok t \<and> waiting_list s @ ins = outs @ waiting_list t"
proof (induction ops s arbitrary: ins outs t rule: run.induct)
  case (1 s)
  then show ?case by simp
next
  case (2 f msg ops s)
  obtain r s' where p: "put f msg s = (r, s')" by fastforce
  obtain ins' outs' t' where rest: "run ops s' = (ins', outs', t')" by (metis prod_cases3)
  have "ok s'" "waiting_list s' @ ins' = outs' @ waiting_list t'" "ok t'"
    using "2.IH" [of "(r, s')" r s' ins' outs' t'] put_law [OF "2.prems"(1) p] p rest by auto
  then show ?case
    using "2.prems" put_law [OF "2.prems"(1) p] p rest by (auto simp: waiting_list_def split: sum.splits)
next
  case (3 into ops s)
  obtain r into' s' where p: "tak into s = (r, into', s')" by (metis prod_cases3)
  obtain ins' outs' t' where rest: "run ops s' = (ins', outs', t')" by (metis prod_cases3)
  have "ok s'" "waiting_list s' @ ins' = outs' @ waiting_list t'" "ok t'"
    using "3.IH" [of "(r, into', s')" r "(into', s')" into' s' ins' outs' t'] tak_law [OF "3.prems"(1) p] p rest
    by auto
  then show ?case
    using "3.prems" tak_law [OF "3.prems"(1) p] p rest by (auto simp: waiting_list_def split: sum.splits)
qed

end

lemma mailbox_put_law:
  assumes "mailbox_ok b" "deliver f msg b = (r, b')"
  shows "mailbox_ok b' \<and> (case r of Inl e \<Rightarrow> b' = b
    | Inr d \<Rightarrow> content b = None \<and> content b' = Some (f, msg) \<and> dl_from d = f \<and> dl_len d = length msg)"
  using assms by (auto simp: deliver_def mailbox_ok_def content_def Let_def split: if_splits)

lemma mailbox_tak_law:
  assumes "mailbox_ok b" "take_into into b = (r, into', b')"
  shows "mailbox_ok b' \<and> (case r of Inl e \<Rightarrow> b' = b \<and> into' = into
    | Inr d \<Rightarrow> content b = Some (dl_from d, take (dl_len d) into') \<and> content b' = None \<and>
        length into' = length into \<and> drop (dl_len d) into' = drop (dl_len d) into)"
  using assms
  by (auto simp: take_into_def mailbox_ok_def content_def copy_at_def split: option.splits if_splits)

interpretation mail: one_slot mailbox_ok content deliver take_into
  using mailbox_put_law mailbox_tak_law by unfold_locales blast+

lemma mailbox_new_ok [simp]: "mailbox_ok mailbox_new" "content mailbox_new = None"
  by (simp_all add: mailbox_new_def mailbox_ok_def content_def)

section \<open>Properties\<close>

text \<open>The runs of the mailbox itself: a sequence of deliveries and takes.\<close>

definition mail_run :: "mail_op list \<Rightarrow> mailbox \<Rightarrow> (usize \<times> bytes) list \<times> (usize \<times> bytes) list \<times> mailbox" where
  "mail_run = mail.run"

text \<open>
  C9. Over any sequence of deliveries and takes, starting from an empty mailbox, the messages handed
  over are exactly the messages accepted, each once, with its sender and its bytes unchanged and in
  the order of acceptance, except for the one that may still be waiting.
\<close>

theorem mailbox_exactly_once:
  assumes "mail_run ops mailbox_new = (accepted, received, b)"
  shows "accepted = received @ (case content b of None \<Rightarrow> [] | Some msg \<Rightarrow> [msg])"
  using mail.run_fifo [OF mailbox_new_ok(1), of ops accepted received b] assms
  by (simp add: mail_run_def mail.waiting_list_def)

theorem mailbox_exactly_once_witness:
  "mail_run [Put 3 [1, 2], Put 4 [9], Take [0, 0, 0], Put 5 [7]] mailbox_new =
     ([(3, [1, 2]), (5, [7])], [(3, [1, 2])], snd (deliver 5 [7] (snd (snd (take_into [0, 0, 0]
        (snd (deliver 3 [1, 2] mailbox_new))))))) \<and>
   [(3, [1, 2]), (5, [7])] = [(3 :: usize, [1, 2 :: u8])] @ [(5, [7])]"
proof -
  have r: "mail_run [Put 3 [1, 2], Put 4 [9], Take [0, 0, 0], Put 5 [7]] mailbox_new =
     ([(3, [1, 2]), (5, [7])], [(3, [1, 2])], snd (deliver 5 [7] (snd (snd (take_into [0, 0, 0]
        (snd (deliver 3 [1, 2] mailbox_new)))))))"
    by (simp add: mail_run_def deliver_def take_into_def mailbox_new_def CAPACITY_ipc_def Let_def copy_at_def)
  show ?thesis using r mailbox_exactly_once [OF r] by simp
qed

text \<open>
  The refusals of a mailbox, exactly: an empty message, one longer than 64 bytes, or a mailbox
  that already holds a message; a take with nothing waiting or into too small a buffer. Every refusal
  leaves the mailbox and the buffer as they were, and everything else succeeds.
\<close>

theorem mailbox_refusals:
  "fst (deliver f msg b) =
     (if msg = [] then Inl Empty else if length msg > 64 then Inl (DeliverTooLong 64)
      else if content b \<noteq> None then Inl Busy else Inr \<lparr>dl_from = f, dl_len = length msg\<rparr>) \<and>
   (\<forall>e. fst (deliver f msg b) = Inl e \<longrightarrow> snd (deliver f msg b) = b) \<and>
   (\<forall>e. fst (take_into into b) = Inl e \<longrightarrow> snd (take_into into b) = (into, b)) \<and>
   ((\<exists>d. fst (take_into into b) = Inr d) \<longleftrightarrow>
      (\<exists>d. mb_waiting b = Some d \<and> dl_len d \<le> length into))"
  by (auto simp: deliver_def take_into_def content_def CAPACITY_ipc_def Let_def split: option.splits)

theorem mailbox_refusals_witness:
  "deliver 1 [] mailbox_new = (Inl Empty, mailbox_new) \<and>
   take_into [0] mailbox_new = (Inl Nothing, [0], mailbox_new)"
proof -
  have "fst (deliver 1 [] mailbox_new) = Inl Empty" "fst (take_into [0] mailbox_new) = Inl Nothing"
    by (simp_all add: deliver_def take_into_def mailbox_new_def)
  then show ?thesis using mailbox_refusals [of 1 "[]" mailbox_new "[0]"] by (metis prod.collapse)
qed

end
