(* ===== verification/Events.thy ===== *)
theory Events
  imports Fat_Volume
begin

text \<open>
  The system event log (\<^verbatim>\<open>kernel/src/events.rs\<close>): a ring of fixed lines, the layout of a line, what a
  flush takes, and how a flush is joined to the file on the disk. The ring is behind a lock that keeps
  interrupts off, so each operation is one step; the tick counter of the CPU is an argument.
\<close>

section \<open>Lines\<close>

definition EVENTS :: usize where "EVENTS = 128"
definition LINE :: usize where "LINE = 72"

definition MAX_FILE :: usize where
  "MAX_FILE = MAX_FILE_CLUSTERS * unat SECTOR_BYTES"

datatype what = Boot | Disk | NoDisk | NotOurs | Loaded | Started | Exited | Faulted | Wrote | Frames | Shell | ShellGone

text \<open>The bytes of a string literal.\<close>

definition ascii :: "string \<Rightarrow> bytes" where
  "ascii s = map (\<lambda>c. of_nat (of_char c)) s"

fun word :: "what \<Rightarrow> bytes" where
  "word Boot = ascii ''boot      ''"
| "word Disk = ascii ''disk      ''"
| "word NoDisk = ascii ''no-disk   ''"
| "word NotOurs = ascii ''not-ours  ''"
| "word Loaded = ascii ''loaded    ''"
| "word Started = ascii ''started   ''"
| "word Exited = ascii ''exited    ''"
| "word Faulted = ascii ''faulted   ''"
| "word Wrote = ascii ''wrote     ''"
| "word Frames = ascii ''frames    ''"
| "word Shell = ascii ''shell     ''"
| "word ShellGone = ascii ''shell-gone''"

record line =
  ln_bytes :: bytes
  ln_len :: usize

definition line_empty :: line where
  "line_empty = \<lparr>ln_bytes = replicate LINE 0, ln_len = 0\<rparr>"

text \<open>\<open>put\<close> answers how much went in, and the buffer.\<close>

definition put :: "bytes \<Rightarrow> usize \<Rightarrow> bytes \<Rightarrow> usize \<times> bytes" where
  "put into at text =
     (let room = length into - at; taking = min (length text) room
      in (taking, copy_at into at (take taking text)))"

text \<open>The digits of a number, the last one first.\<close>

function digits_of :: "u64 \<Rightarrow> bytes" where
  "digits_of left = (0x30 + ucast (left mod 10)) # (if left div 10 = 0 then [] else digits_of (left div 10))"
  by pat_completeness auto
termination
proof (relation "measure unat")
  fix left :: u64 assume "left div 10 \<noteq> 0"
  then have "unat (left div 10) \<noteq> 0" by (simp only: unat_eq_zero not_False_eq_True)
  then have "0 < unat left" by (auto simp: unat_div)
  then show "(left div 10, left) \<in> measure unat" by (simp add: unat_div)
qed simp

declare digits_of.simps [simp del]

fun put_spaces :: "nat \<Rightarrow> bytes \<Rightarrow> usize \<Rightarrow> usize \<times> bytes" where
  "put_spaces 0 into here = (here, into)"
| "put_spaces (Suc n) into here =
     (case put into here [0x20] of (k, into') \<Rightarrow> put_spaces n into' (here + k))"

fun put_digits :: "bytes \<Rightarrow> bytes \<Rightarrow> usize \<Rightarrow> usize \<times> bytes" where
  "put_digits [] into here = (here, into)"
| "put_digits (d # ds) into here =
     (if length into - here = 0 then (here, into)
      else put_digits ds (into[here := d]) (here + 1))"

definition put_number :: "bytes \<Rightarrow> usize \<Rightarrow> u64 \<Rightarrow> usize \<Rightarrow> usize \<times> bytes" where
  "put_number into at number width =
     (let digits = digits_of number in
      case put_spaces (width - length digits) into at of (here, into1) \<Rightarrow>
      case put_digits (rev digits) into1 here of (here', into2) \<Rightarrow> (here' - at, into2))"

section \<open>The ring\<close>

record ring =
  lines :: "line list"
  written :: usize
  boot :: u32
  flushed :: usize

definition ring_new :: ring where
  "ring_new = \<lparr>lines = replicate EVENTS line_empty, written = 0, boot = 0, flushed = 0\<rparr>"

text \<open>The pieces of a line, one after the other: each puts itself where the last one stopped.\<close>

definition put_second :: "bytes \<Rightarrow> usize \<Rightarrow> u64 option \<Rightarrow> usize \<times> bytes" where
  "put_second into at second =
     (case second of None \<Rightarrow> (at, into)
      | Some n \<Rightarrow> (let (k, into) = put into at [0x20]; at = at + k;
                      (k, into) = put_number into at n 0 in (at + k, into)))"

definition put_name :: "bytes \<Rightarrow> usize \<Rightarrow> bytes \<Rightarrow> usize \<times> bytes" where
  "put_name into at name =
     (if name = [] then (at, into)
      else (let (k, into) = put into at [0x20]; at = at + k;
                (k, into) = put into at name in (at + k, into)))"

definition format_line :: "bytes \<Rightarrow> u32 \<Rightarrow> u64 \<Rightarrow> what \<Rightarrow> u64 \<Rightarrow> u64 option \<Rightarrow> bytes \<Rightarrow> usize \<times> bytes" where
  "format_line into0 bt ticks wh detail second name =
     (let (k, into) = put_number into0 0 (ucast bt) 5; at = k;
          (k, into) = put into at [0x20]; at = at + k;
          (k, into) = put_number into at ticks 8; at = at + k;
          (k, into) = put into at [0x20]; at = at + k;
          (k, into) = put into at (word wh); at = at + k;
          (k, into) = put into at [0x20]; at = at + k;
          (k, into) = put_number into at detail 0; at = at + k;
          (at, into) = put_second into at second;
          (at, into) = put_name into at name;
          (k, into) = put into at [0x0A]
      in (at + k, into))"

definition write_line :: "u64 \<Rightarrow> what \<Rightarrow> u64 \<Rightarrow> u64 option \<Rightarrow> bytes \<Rightarrow> ring \<Rightarrow> ring" where
  "write_line ticks wh detail second name r =
     (let at = written r mod EVENTS;
          (len, bs) = format_line (ln_bytes (lines r ! at)) (boot r) ticks wh detail second name
      in r\<lparr>lines := (lines r)[at := \<lparr>ln_bytes = bs, ln_len = len\<rparr>], written := written r + 1\<rparr>)"

definition record_event :: "u64 \<Rightarrow> what \<Rightarrow> u64 \<Rightarrow> ring \<Rightarrow> ring" where
  "record_event ticks wh detail r = write_line ticks wh detail None [] r"

definition record_two :: "u64 \<Rightarrow> what \<Rightarrow> u64 \<Rightarrow> u64 \<Rightarrow> ring \<Rightarrow> ring" where
  "record_two ticks wh detail second r = write_line ticks wh detail (Some second) [] r"

definition record_with :: "u64 \<Rightarrow> what \<Rightarrow> u64 \<Rightarrow> bytes \<Rightarrow> ring \<Rightarrow> ring" where
  "record_with ticks wh detail name r = write_line ticks wh detail None name r"

definition fill_boot :: "u32 \<Rightarrow> line \<Rightarrow> line" where
  "fill_boot bt l = l\<lparr>ln_bytes := snd (put_number (ln_bytes l) 0 (ucast bt) 5)\<rparr>"

definition this_boot :: "u32 \<Rightarrow> ring \<Rightarrow> ring" where
  "this_boot bt r0 =
     (let r = r0\<lparr>boot := bt\<rparr> in
      if bt \<ge> 100000 then r
      else let have_n = min (written r) EVENTS; first = written r - have_n
           in r\<lparr>lines := fold (\<lambda>step ls. ls[(first + step) mod EVENTS := fill_boot bt (ls ! ((first + step) mod EVENTS))])
                [0..<have_n] (lines r)\<rparr>)"

definition unflushed :: "usize \<Rightarrow> usize \<Rightarrow> usize \<Rightarrow> usize \<times> usize" where
  "unflushed wr fl capacity =
     (let oldest = wr - capacity; first = max fl oldest in (first, wr - first))"

fun copy_loop :: "line list \<Rightarrow> usize \<Rightarrow> nat list \<Rightarrow> usize \<Rightarrow> usize \<Rightarrow> bytes \<Rightarrow> usize \<times> usize \<times> bytes" where
  "copy_loop ls first [] at taken into = (at, taken, into)"
| "copy_loop ls first (step # steps) at taken into =
     (let l = ls ! ((first + step) mod EVENTS) in
      if at + ln_len l > length into then (at, taken, into)
      else copy_loop ls first steps (at + ln_len l) (taken + 1) (copy_at into at (take (ln_len l) (ln_bytes l))))"

text \<open>\<open>copy_into\<close> answers how many bytes, the buffer and the ring.\<close>

definition copy_into :: "bytes \<Rightarrow> ring \<Rightarrow> usize \<times> bytes \<times> ring" where
  "copy_into into r =
     (let (first, count) = unflushed (written r) (flushed r) EVENTS;
          (at, taken, into') = copy_loop (lines r) first [0..<count] 0 0 into
      in (at, into', r\<lparr>flushed := first + taken\<rparr>))"

definition counted :: "ring \<Rightarrow> usize \<times> usize" where
  "counted r = (min (written r) EVENTS, written r - EVENTS)"

section \<open>The file\<close>

definition newest_whole_lines :: "bytes \<Rightarrow> usize \<Rightarrow> bytes" where
  "newest_whole_lines text room =
     (if length text \<le> room then text
      else let cut = length text - room in
        if cut = 0 \<or> text ! (cut - 1) = 0x0A then drop cut text
        else case position (\<lambda>b. b = 0x0A) (drop cut text) of
            Some at \<Rightarrow> drop (cut + at + 1) text
          | None \<Rightarrow> drop (length text) text)"

definition join :: "bytes \<Rightarrow> bytes \<Rightarrow> usize \<Rightarrow> bytes \<Rightarrow> usize \<times> bytes" where
  "join old new lim into =
     (let limit = min lim (length into);
          new_kept = newest_whole_lines new limit;
          old_kept = newest_whole_lines old (limit - length new_kept)
      in (length old_kept + length new_kept,
          copy_at (copy_at into 0 old_kept) (length old_kept) new_kept))"

section \<open>What a line says\<close>

text \<open>The whole text of a line, as if the buffer had no end.\<close>

definition decimal :: "u64 \<Rightarrow> nat \<Rightarrow> bytes" where
  "decimal n width = replicate (width - length (digits_of n)) 0x20 @ rev (digits_of n)"

definition line_text :: "u32 \<Rightarrow> u64 \<Rightarrow> what \<Rightarrow> u64 \<Rightarrow> u64 option \<Rightarrow> bytes \<Rightarrow> bytes" where
  "line_text bt ticks wh detail second name =
     decimal (ucast bt) 5 @ [0x20] @ decimal ticks 8 @ [0x20] @ word wh @ [0x20] @ decimal detail 0 @
     (case second of None \<Rightarrow> [] | Some n \<Rightarrow> [0x20] @ decimal n 0) @
     (if name = [] then [] else [0x20] @ name) @ [0x0A]"

text \<open>A buffer that holds as much of a text as fits, and where the next piece goes.\<close>

definition filled :: "bytes \<Rightarrow> bytes \<Rightarrow> usize \<Rightarrow> bytes \<Rightarrow> bool" where
  "filled into0 tx at into \<longleftrightarrow>
     at = min (length into0) (length tx) \<and> into = take (length into0) tx @ drop (length tx) into0"

lemma filled_length: "filled into0 tx at into \<Longrightarrow> length into = length into0"
  by (auto simp: filled_def min_def)

lemma filled_stored:
  assumes "filled into0 tx n bs" "length into0 = LINE"
  shows "n \<le> LINE" "length bs = LINE" "take n bs = take LINE tx"
  using assms filled_length [OF assms(1)] by (auto simp: filled_def min_def)

lemma filled_put:
  assumes "filled into0 tx at into" "put into at piece = (k, into')"
  shows "filled into0 (tx @ piece) (at + k) into'"
proof (cases "length tx \<le> length into0")
  case True
  then have "into = tx @ drop (length tx) into0" "at = length tx" using assms(1) by (auto simp: filled_def)
  then show ?thesis using assms(2) True
    by (auto simp: filled_def put_def Let_def copy_at_def min_def add.commute)
next
  case False
  then show ?thesis using assms by (auto simp: filled_def put_def Let_def copy_at_def)
qed

lemma filled_spaces:
  assumes "filled into0 tx at into" "put_spaces n into at = (here, into')"
  shows "filled into0 (tx @ replicate n 0x20) here into'"
  using assms
proof (induction n arbitrary: tx at into)
  case (Suc n)
  obtain k into1 where k: "put into at [0x20] = (k, into1)" by fastforce
  have "filled into0 ((tx @ [0x20]) @ replicate n 0x20) here into'"
    using Suc.IH [OF filled_put [OF Suc.prems(1) k]] Suc.prems(2) k by simp
  then show ?case by simp
qed simp

lemma filled_digits:
  assumes "filled into0 tx at into" "put_digits ds into at = (here, into')"
  shows "filled into0 (tx @ ds) here into'"
  using assms
proof (induction ds arbitrary: tx at into)
  case (Cons d ds)
  note len = filled_length [OF Cons.prems(1)]
  show ?case
  proof (cases "length tx < length into0")
    case True
    then have at: "at = length tx" "into = tx @ drop (length tx) into0" using Cons.prems(1) by (auto simp: filled_def)
    have "into[at := d] = (tx @ [d]) @ drop (Suc (length tx)) into0"
      using True at by (simp add: list_update_append Cons_nth_drop_Suc [symmetric])
    then have "filled into0 (tx @ [d]) (at + 1) (into[at := d])" using True at by (simp add: filled_def)
    from Cons.IH [OF this] show ?thesis using Cons.prems(2) True at(1) len by simp
  next
    case False
    then show ?thesis using Cons.prems len by (auto simp: filled_def split: if_splits)
  qed
qed simp

lemma filled_number:
  assumes "filled into0 tx at into" "put_number into at n width = (k, into')"
  shows "filled into0 (tx @ decimal n width) (at + k) into'"
proof -
  obtain here into1 where s: "put_spaces (width - length (digits_of n)) into at = (here, into1)" by fastforce
  obtain here' into2 where d: "put_digits (rev (digits_of n)) into1 here = (here', into2)" by fastforce
  have f: "filled into0 (tx @ decimal n width) here' into2"
    using filled_digits [OF filled_spaces [OF assms(1) s] d] by (simp add: decimal_def)
  then have "at \<le> here'" using assms(1) by (auto simp: filled_def)
  then show ?thesis using f assms(2) s d by (auto simp: put_number_def Let_def)
qed

lemma filled_second:
  assumes "filled into0 tx at into" "put_second into at second = (here, into')"
  shows "filled into0 (tx @ (case second of None \<Rightarrow> [] | Some n \<Rightarrow> [0x20] @ decimal n 0)) here into'"
proof (cases second)
  case (Some m)
  obtain k i where k: "put into at [0x20] = (k, i)" by fastforce
  obtain k' i' where k': "put_number i (at + k) m 0 = (k', i')" by fastforce
  show ?thesis using filled_number [OF filled_put [OF assms(1) k] k'] assms(2) Some k k' by (simp add: put_second_def)
qed (use assms in \<open>simp add: put_second_def\<close>)

lemma filled_name:
  assumes "filled into0 tx at into" "put_name into at name = (here, into')"
  shows "filled into0 (tx @ (if name = [] then [] else [0x20] @ name)) here into'"
proof (cases "name = []")
  case False
  obtain k i where k: "put into at [0x20] = (k, i)" by fastforce
  obtain k' i' where k': "put i (at + k) name = (k', i')" by fastforce
  show ?thesis using filled_put [OF filled_put [OF assms(1) k] k'] assms(2) False k k' by (simp add: put_name_def)
qed (use assms in \<open>simp add: put_name_def\<close>)

text \<open>The layout of a line is exactly its text, cut at the end of the buffer.\<close>

lemma format_line_filled:
  assumes "format_line into0 bt ticks wh detail second name = (n, into)"
  shows "filled into0 (line_text bt ticks wh detail second name) n into"
proof -
  have start: "filled into0 [] 0 into0" by (simp add: filled_def)
  obtain k1 i1 where 1: "put_number into0 0 (ucast bt) 5 = (k1, i1)" by fastforce
  note f1 = filled_number [OF start 1]
  obtain k2 i2 where 2: "put i1 k1 [0x20] = (k2, i2)" by fastforce
  note f2 = filled_put [OF f1 [simplified] 2]
  obtain k3 i3 where 3: "put_number i2 (k1 + k2) ticks 8 = (k3, i3)" by fastforce
  note f3 = filled_number [OF f2 3]
  obtain k4 i4 where 4: "put i3 (k1 + k2 + k3) [0x20] = (k4, i4)" by fastforce
  note f4 = filled_put [OF f3 4]
  obtain k5 i5 where 5: "put i4 (k1 + k2 + k3 + k4) (word wh) = (k5, i5)" by fastforce
  note f5 = filled_put [OF f4 5]
  obtain k6 i6 where 6: "put i5 (k1 + k2 + k3 + k4 + k5) [0x20] = (k6, i6)" by fastforce
  note f6 = filled_put [OF f5 6]
  obtain k7 i7 where 7: "put_number i6 (k1 + k2 + k3 + k4 + k5 + k6) detail 0 = (k7, i7)" by fastforce
  let ?a = "k1 + k2 + k3 + k4 + k5 + k6 + k7"
  note f7 = filled_number [OF f6 7]
  obtain a8 i8 where 8: "put_second i7 ?a second = (a8, i8)" by fastforce
  note f8 = filled_second [OF f7 8]
  obtain a9 i9 where 9: "put_name i8 a8 name = (a9, i9)" by fastforce
  note f9 = filled_name [OF f8 9]
  obtain k10 i10 where 10: "put i9 a9 [0x0A] = (k10, i10)" by fastforce
  have "(n, into) = (a9 + k10, i10)"
    using assms by (simp add: format_line_def Let_def 1 2 3 4 5 6 7 8 9 10)
  then show ?thesis using filled_put [OF f9 10] by (simp add: line_text_def)
qed

section \<open>The ring remembers the last lines\<close>

definition stored :: "line \<Rightarrow> bytes" where
  "stored l = take (ln_len l) (ln_bytes l)"

text \<open>\<open>h\<close> is everything ever recorded; the ring holds the end of it.\<close>

definition ring_ok :: "bytes list \<Rightarrow> ring \<Rightarrow> bool" where
  "ring_ok h r \<longleftrightarrow> length (lines r) = EVENTS \<and> written r = length h \<and> flushed r \<le> length h \<and>
     (\<forall>l \<in> set (lines r). length (ln_bytes l) = LINE \<and> ln_len l \<le> LINE) \<and>
     (\<forall>k < length h. length h \<le> k + EVENTS \<longrightarrow> stored (lines r ! (k mod EVENTS)) = h ! k)"

lemma ring_new_ok: "ring_ok [] ring_new"
  by (simp add: ring_ok_def ring_new_def line_empty_def)

lemma EVENTS_pos [simp]: "0 < EVENTS"
  by (simp add: EVENTS_def)

lemma mod_window:
  fixes k n m :: nat
  assumes "k mod m = n mod m" "k < n" "n < k + m"
  shows False
proof -
  have "m dvd n - k" using assms(1,2) mod_eq_dvd_iff_nat [of k n m] by simp
  then have "m \<le> n - k" using assms(2) by (intro dvd_imp_le) simp_all
  then show False using assms(2,3) by simp
qed

lemma write_line_ok:
  assumes "ring_ok h r"
  shows "ring_ok (h @ [take LINE (line_text (boot r) ticks wh detail second name)]) (write_line ticks wh detail second name r)"
    and "boot (write_line ticks wh detail second name r) = boot r"
    and "flushed (write_line ticks wh detail second name r) = flushed r"
proof -
  let ?at = "written r mod EVENTS" and ?t = "line_text (boot r) ticks wh detail second name"
  obtain n bs where f: "format_line (ln_bytes (lines r ! ?at)) (boot r) ticks wh detail second name = (n, bs)" by fastforce
  have at: "?at < length (lines r)" using assms by (simp add: ring_ok_def)
  then have "length (ln_bytes (lines r ! ?at)) = LINE" using assms by (simp add: ring_ok_def)
  note fl = filled_stored [OF format_line_filled [OF f] this]
  have w: "write_line ticks wh detail second name r =
      r\<lparr>lines := (lines r)[?at := \<lparr>ln_bytes = bs, ln_len = n\<rparr>], written := written r + 1\<rparr>"
    by (simp add: write_line_def f Let_def)
  have "stored ((lines r)[?at := \<lparr>ln_bytes = bs, ln_len = n\<rparr>] ! (k mod EVENTS)) = (h @ [take LINE ?t]) ! k"
    if "k < length h + 1" "length h + 1 \<le> k + EVENTS" for k
  proof (cases "k = length h")
    case True
    then show ?thesis using assms at fl(3) by (simp add: ring_ok_def stored_def)
  next
    case False
    then have "k < length h" "k mod EVENTS \<noteq> ?at"
      using that assms mod_window [of k EVENTS "length h"] by (auto simp: ring_ok_def)
    then show ?thesis using that assms by (simp add: ring_ok_def nth_append)
  qed
  moreover have "\<forall>l \<in> set ((lines r)[?at := \<lparr>ln_bytes = bs, ln_len = n\<rparr>]). length (ln_bytes l) = LINE \<and> ln_len l \<le> LINE"
    using assms fl set_update_subset_insert [of "lines r" ?at] by (fastforce simp: ring_ok_def)
  ultimately show "ring_ok (h @ [take LINE ?t]) (write_line ticks wh detail second name r)"
    using assms unfolding ring_ok_def w by auto
  show "boot (write_line ticks wh detail second name r) = boot r"
    "flushed (write_line ticks wh detail second name r) = flushed r" by (simp_all add: w)
qed

lemma copy_loop_spec:
  assumes "\<forall>st \<in> set steps. ln_len (ls ! ((first + st) mod EVENTS)) \<le> length (ln_bytes (ls ! ((first + st) mod EVENTS)))"
    and "at \<le> length into" "copy_loop ls first steps at taken into = (at', taken', into')"
  shows "\<exists>m \<le> length steps. taken' = taken + m \<and> at' \<le> length into \<and> length into' = length into \<and>
    take at' into' = take at into @ concat (map (\<lambda>st. stored (ls ! ((first + st) mod EVENTS))) (take m steps)) \<and>
    (m < length steps \<longrightarrow> at' + ln_len (ls ! ((first + steps ! m) mod EVENTS)) > length into)"
  using assms
proof (induction steps arbitrary: at taken into)
  case (Cons st steps)
  let ?l = "ls ! ((first + st) mod EVENTS)"
  show ?case
  proof (cases "at + ln_len ?l > length into")
    case True
    then show ?thesis using Cons.prems by (intro exI [of _ 0]) auto
  next
    case False
    let ?i = "copy_at into at (stored ?l)"
    have sl: "length (stored ?l) = ln_len ?l" using Cons.prems(1) by (simp add: stored_def)
    have li: "length ?i = length into" using False sl by simp
    have tk: "take (at + ln_len ?l) ?i = take at into @ stored ?l"
      using False sl Cons.prems(2) by (simp add: copy_at_def)
    have "copy_loop ls first steps (at + ln_len ?l) (taken + 1) ?i = (at', taken', into')"
      using Cons.prems(3) False by (simp add: Let_def stored_def)
    from Cons.IH [OF _ _ this] Cons.prems(1) False li obtain m where
      "m \<le> length steps" "taken' = taken + 1 + m" "at' \<le> length into" "length into' = length into"
      "take at' into' = take (at + ln_len ?l) ?i @ concat (map (\<lambda>st. stored (ls ! ((first + st) mod EVENTS))) (take m steps))"
      "m < length steps \<longrightarrow> at' + ln_len (ls ! ((first + steps ! m) mod EVENTS)) > length into"
      by (auto simp: li)
    then show ?thesis by (intro exI [of _ "Suc m"]) (simp add: tk)
  qed
qed (auto intro!: exI [of _ 0])

lemma copy_into_spec:
  assumes "ring_ok h r" "copy_into into r = (n, into', r')"
  shows "\<exists>first m. first = max (flushed r) (length h - EVENTS) \<and> first + m \<le> length h \<and> flushed r' = first + m \<and>
    take n into' = concat (take m (drop first h)) \<and> ring_ok h r' \<and> boot r' = boot r \<and>
    (first + m < length h \<longrightarrow> length into < n + length (h ! (first + m)))"
proof -
  let ?f = "max (flushed r) (length h - EVENTS)" and ?c = "length h - max (flushed r) (length h - EVENTS)"
  have wr: "written r = length h" and fl: "?f \<le> length h" using assms(1) by (auto simp: ring_ok_def)
  obtain tk where cl: "copy_loop (lines r) ?f [0..<?c] 0 0 into = (n, tk, into')" "r' = r\<lparr>flushed := ?f + tk\<rparr>"
    using assms(2) by (auto simp: copy_into_def unflushed_def Let_def wr split: prod.splits)
  let ?l = "\<lambda>st. lines r ! ((?f + st) mod EVENTS)"
  have inl: "?l st \<in> set (lines r)" for st using assms(1) by (intro nth_mem) (simp add: ring_ok_def)
  then have ll: "\<forall>st \<in> set [0..<?c]. ln_len (?l st) \<le> length (ln_bytes (?l st))"
    using assms(1) by (simp add: ring_ok_def)
  have st: "stored (?l st) = h ! (?f + st)" if "st < ?c" for st
    using assms(1) that by (simp add: ring_ok_def)
  have len: "length (h ! (?f + st)) = ln_len (?l st)" if "st < ?c" for st
    using st [OF that, symmetric] ll that by (simp add: stored_def)
  from copy_loop_spec [OF ll _ cl(1)] obtain m where m: "m \<le> ?c" "tk = m"
    "take n into' = concat (map (\<lambda>st. stored (?l st)) [0..<m])"
    "m < ?c \<longrightarrow> n + ln_len (?l m) > length into"
    by auto
  have "map (\<lambda>st. stored (?l st)) [0..<m] = take m (drop ?f h)"
    using m(1) st fl by (intro nth_equalityI) auto
  moreover have "?f + m \<le> length h" using m(1) fl by linarith
  moreover have "?f + m < length h \<longrightarrow> length into < n + length (h ! (?f + m))"
    using m(4) len [of m] by auto
  moreover have "ring_ok h r'" using assms(1) cl(2) m(2) calculation(2) by (simp add: ring_ok_def)
  ultimately show ?thesis using m(2,3) cl(2) by (intro exI [of _ ?f] exI [of _ m]) simp
qed

text \<open>Recording and flushing, in any order; a flush offers a buffer of its own.\<close>

datatype log_op = Log u64 what u64 "u64 option" bytes | Flush usize

fun log_run :: "log_op list \<Rightarrow> ring \<Rightarrow> bytes list \<times> ring" where
  "log_run [] r = ([], r)"
| "log_run (Log ticks wh detail second name # ops) r = log_run ops (write_line ticks wh detail second name r)"
| "log_run (Flush room # ops) r =
     (let (n, into, r') = copy_into (replicate room 0) r; (outs, r'') = log_run ops r'
      in (take n into # outs, r''))"

fun recorded :: "u32 \<Rightarrow> log_op list \<Rightarrow> bytes list" where
  "recorded bt [] = []"
| "recorded bt (Log ticks wh detail second name # ops) = take LINE (line_text bt ticks wh detail second name) # recorded bt ops"
| "recorded bt (Flush room # ops) = recorded bt ops"

lemma log_run_spec:
  assumes "ring_ok h r" "log_run ops r = (outs, r')"
  shows "\<exists>ks. ring_ok (h @ recorded (boot r) ops) r' \<and> sorted_wrt (<) ks \<and> set ks \<subseteq> {flushed r..<flushed r'} \<and>
    flushed r \<le> flushed r' \<and> concat outs = concat (map (nth (h @ recorded (boot r) ops)) ks) \<and>
    (\<forall>k. flushed r \<le> k \<and> k < flushed r' \<and> k \<notin> set ks \<longrightarrow> k + EVENTS < length (h @ recorded (boot r) ops))"
  using assms
proof (induction ops arbitrary: h r outs)
  case Nil
  then show ?case by (intro exI [of _ "[]"]) simp
next
  case (Cons c ops)
  show ?case
  proof (cases c)
    case (Log ticks wh detail second name)
    note w = write_line_ok [OF Cons.prems(1), of ticks wh detail second name]
    show ?thesis using Cons.IH [OF w(1)] Cons.prems(2) Log w(2,3) by simp
  next
    case (Flush room)
    obtain n into r1 where c: "copy_into (replicate room 0) r = (n, into, r1)" by (metis surj_pair)
    obtain outs' where o: "log_run ops r1 = (outs', r')" "outs = take n into # outs'"
      using Cons.prems(2) Flush c by (auto simp: Let_def split: prod.splits)
    let ?f = "max (flushed r) (length h - EVENTS)" and ?H = "h @ recorded (boot r) ops"
    obtain m where m: "?f + m \<le> length h" "flushed r1 = ?f + m" "take n into = concat (take m (drop ?f h))"
      "ring_ok h r1" "boot r1 = boot r"
      using copy_into_spec [OF Cons.prems(1) c] by blast
    from Cons.IH [OF m(4) o(1)] m(5) obtain ks where ks: "ring_ok ?H r'" "sorted_wrt (<) ks"
      "set ks \<subseteq> {flushed r1..<flushed r'}" "flushed r1 \<le> flushed r'" "concat outs' = concat (map (nth ?H) ks)"
      "\<forall>k. flushed r1 \<le> k \<and> k < flushed r' \<and> k \<notin> set ks \<longrightarrow> k + EVENTS < length ?H" by auto
    have "take m (drop ?f h) = map (nth ?H) [?f..<?f + m]"
      using m(1) by (intro nth_equalityI) (auto simp: nth_append)
    then have "concat outs = concat (map (nth ?H) ([?f..<?f + m] @ ks))" using o(2) m(3) ks(5) by simp
    moreover have "sorted_wrt (<) ([?f..<?f + m] @ ks)" using ks(2,3) m(2) by (auto simp: sorted_wrt_append)
    moreover have "k + EVENTS < length ?H" if "flushed r \<le> k" "k < flushed r'" "k \<notin> set ([?f..<?f + m] @ ks)" for k
    proof (cases "k < ?f + m")
      case True
      then show ?thesis using that by auto
    qed (use that ks(6) m(2) in auto)
    moreover have "set ([?f..<?f + m] @ ks) \<subseteq> {flushed r..<flushed r'}" "flushed r \<le> flushed r'"
      using ks(3,4) m(2) by fastforce+
    ultimately show ?thesis using ks(1) Flush
      by (intro exI [of _ "[?f..<?f + m] @ ks"]) (simp only: recorded.simps simp_thms, blast)
  qed
qed

section \<open>Whole lines\<close>

definition line_start :: "bytes \<Rightarrow> nat \<Rightarrow> bool" where
  "line_start bs k \<longleftrightarrow> k \<le> length bs \<and> (k = 0 \<or> k = length bs \<or> bs ! (k - 1) = 0x0A)"

text \<open>The longest suffix that starts where a line starts and has room.\<close>

definition newest :: "bytes \<Rightarrow> nat \<Rightarrow> nat \<Rightarrow> bool" where
  "newest bs room k \<longleftrightarrow> line_start bs k \<and> length bs - k \<le> room \<and>
     (\<forall>j < k. line_start bs j \<longrightarrow> room < length bs - j)"

lemma newest_whole_lines_spec: "\<exists>k. newest_whole_lines bs room = drop k bs \<and> newest bs room k"
proof (cases "length bs \<le> room")
  case True
  then show ?thesis by (intro exI [of _ 0]) (simp add: newest_whole_lines_def newest_def line_start_def)
next
  case False
  let ?c = "length bs - room"
  consider (here) "bs ! (?c - 1) = 0x0A"
    | (later) at where "bs ! (?c - 1) \<noteq> 0x0A" "position (\<lambda>b. b = 0x0A) (drop ?c bs) = Some at"
    | (none) "bs ! (?c - 1) \<noteq> 0x0A" "position (\<lambda>b. b = 0x0A) (drop ?c bs) = None"
    by (cases "position (\<lambda>b. b = 0x0A) (drop ?c bs)") auto
  then show ?thesis
  proof cases
    case here
    then show ?thesis using False
      by (intro exI [of _ ?c]) (auto simp: newest_whole_lines_def Let_def newest_def line_start_def)
  next
    case later
    then have at: "at < room" "bs ! (?c + at) = 0x0A" "\<forall>j < at. bs ! (?c + j) \<noteq> 0x0A"
      using False by (auto simp: position_Some_iff)
    have "room < length bs - j" if "j < ?c + at + 1" "line_start bs j" for j
    proof (rule ccontr)
      assume "\<not> ?thesis"
      then have j: "?c \<le> j" by linarith
      have "bs ! (j - 1) \<noteq> 0x0A"
      proof (cases "j = ?c")
        case False
        then have "j - 1 = ?c + (j - 1 - ?c)" "j - 1 - ?c < at" using j that(1) by linarith+
        then show ?thesis using at(3) by metis
      qed (use later in simp)
      then show False using that j at(1) False by (auto simp: line_start_def)
    qed
    then show ?thesis using later at False
      by (intro exI [of _ "?c + at + 1"]) (auto simp: newest_whole_lines_def Let_def newest_def line_start_def)
  next
    case none
    have "room < length bs - j" if "j < length bs" "line_start bs j" for j
    proof (rule ccontr)
      assume "\<not> ?thesis"
      then have j: "?c \<le> j" by linarith
      have "bs ! (j - 1) \<noteq> 0x0A"
      proof (cases "j = ?c")
        case False
        then have d: "j - 1 = ?c + (j - 1 - ?c)" "j - 1 - ?c < length (drop ?c bs)" using j that(1) by auto
        then have "drop ?c bs ! (j - 1 - ?c) \<noteq> 0x0A" using none(2) nth_mem [OF d(2)] by (auto simp: position_None_iff)
        then show ?thesis using d by (metis nth_drop diff_le_self)
      qed (use none in simp)
      then show False using that j False by (auto simp: line_start_def)
    qed
    then show ?thesis using none False
      by (intro exI [of _ "length bs"]) (auto simp: newest_whole_lines_def Let_def newest_def line_start_def)
  qed
qed

section \<open>Properties\<close>



text \<open>
  Joining a flush to the file keeps whole lines only: what is left is the longest run of last
  lines of the new text that has room, behind the longest run of last lines of the old one in what
  room is left, within the limit and the buffer, whose other bytes do not change.
\<close>

theorem join_keeps_whole_lines:
  "\<exists>i j. newest new (min lim (length into)) j \<and> newest old (min lim (length into) - (length new - j)) i \<and>
     (let kept = drop i old @ drop j new in
        length kept \<le> min lim (length into) \<and>
        join old new lim into = (length kept, kept @ drop (length kept) into))"
proof -
  let ?l = "min lim (length into)"
  obtain j where j: "newest_whole_lines new ?l = drop j new" "newest new ?l j" using newest_whole_lines_spec by blast
  obtain i where i: "newest_whole_lines old (?l - (length new - j)) = drop i old" "newest old (?l - (length new - j)) i"
    using newest_whole_lines_spec by blast
  have "length (drop i old @ drop j new) \<le> ?l" using i(2) j(2) by (auto simp: newest_def)
  then show ?thesis using i j
    by (intro exI [of _ i] exI [of _ j]) (simp add: Let_def join_def copy_at_def add.commute)
qed

end
