(* ===== verification/Scheduler.thy ===== *)
theory Scheduler
  imports Process Ipc Events
begin

text \<open>
  Whose turn it is (\<^verbatim>\<open>kernel/src/scheduler.rs\<close>): the states of a process, the table of slots, the round
  robin, and the switching between kernel stacks. A saved stack pointer is modelled by what the switch
  returns into when it is loaded, which is what \<open>switch\<close> and \<open>prepare_first_run\<close> put there; a function
  that switches away is its body up to the switch followed by what runs on the other stack, until the
  CPU is back in ring 3 or in the kernel's own flow. Every such handler runs with interrupts off, so it
  is one step. The root of a process's page tables is read by the parameter \<open>root\<close>.
\<close>

section \<open>States and slots\<close>

definition MAX_PROCESSES :: usize where "MAX_PROCESSES = 16"

datatype state = New | Runnable | Blocked | Dead

definition can_run :: "state \<Rightarrow> bool" where
  "can_run s \<longleftrightarrow> s = New \<or> s = Runnable"

definition waiting :: "state \<Rightarrow> state option" where
  "waiting s = (if can_run s then Some Blocked else None)"

definition woken :: "state \<Rightarrow> state option" where
  "woken s = (if s = Blocked then Some Runnable else None)"

text \<open>
  What a saved stack pointer returns into: \<open>run_first\<close>, the end of a \<open>switch_to\<close> that was called to
  yield, to wait for a message or to end a process, or the end of \<open>leave_for_the_kernel\<close>.
\<close>

datatype resume = FirstRun | Yielded | Waited | Ended | Left

record 'sp slot =
  sl_process :: "'sp process"
  sl_state :: state
  kernel_rsp :: resume
  kernel_stack_top :: virt_addr
  sl_mailbox :: mailbox

record 'sp scheduler =
  slots :: "'sp slot option list"
  current :: usize
  switching :: bool
  handed_over :: bool

definition scheduler_new :: "'sp scheduler" where
  "scheduler_new = \<lparr>slots = replicate MAX_PROCESSES None, current = 0, switching = False, handed_over = False\<rparr>"

text \<open>\<open>slots.get_mut(i).and_then(Option::as_mut)\<close>, and an update through it.\<close>

definition slot_at :: "'sp scheduler \<Rightarrow> usize \<Rightarrow> 'sp slot option" where
  "slot_at s i = (if i < length (slots s) then slots s ! i else None)"

definition set_slot :: "usize \<Rightarrow> 'sp slot \<Rightarrow> 'sp scheduler \<Rightarrow> 'sp scheduler" where
  "set_slot i sl s = s\<lparr>slots := (slots s)[i := Some sl]\<rparr>"

definition scheduler_add :: "'sp slot \<Rightarrow> 'sp scheduler \<Rightarrow> usize option \<times> 'sp scheduler" where
  "scheduler_add sl s =
     (case position Option.is_none (slots s) of
        None \<Rightarrow> (None, s)
      | Some at \<Rightarrow> (Some at, set_slot at sl s))"

definition kill :: "usize \<Rightarrow> 'sp scheduler \<Rightarrow> 'sp scheduler" where
  "kill i s =
     (case slot_at s i of None \<Rightarrow> s
      | Some sl \<Rightarrow> set_slot i (sl\<lparr>sl_state := Dead, sl_process := process_close_everything (sl_process sl)\<rparr>) s)"

definition kill_current :: "'sp scheduler \<Rightarrow> 'sp scheduler" where
  "kill_current s = kill (current s) s"

definition move_to :: "usize \<Rightarrow> (state \<Rightarrow> state option) \<Rightarrow> 'sp scheduler \<Rightarrow> bool \<times> 'sp scheduler" where
  "move_to i transition s =
     (case slot_at s i of None \<Rightarrow> (False, s)
      | Some sl \<Rightarrow> (case transition (sl_state sl) of
            Some st \<Rightarrow> (True, set_slot i (sl\<lparr>sl_state := st\<rparr>) s)
          | None \<Rightarrow> (False, s)))"

definition block :: "usize \<Rightarrow> 'sp scheduler \<Rightarrow> bool \<times> 'sp scheduler" where
  "block i s = move_to i waiting s"

definition unblock :: "usize \<Rightarrow> 'sp scheduler \<Rightarrow> bool \<times> 'sp scheduler" where
  "unblock i s = move_to i woken s"

definition states :: "'sp scheduler \<Rightarrow> state option list" where
  "states s = map (map_option sl_state) (slots s)"

definition next_runnable :: "state option list \<Rightarrow> usize \<Rightarrow> usize option" where
  "next_runnable sts from =
     find (\<lambda>i. case sts ! i of None \<Rightarrow> False | Some st \<Rightarrow> can_run st)
       (map (\<lambda>step. (from + step) mod length sts) [1..<length sts + 1])"

definition next_after :: "'sp scheduler \<Rightarrow> usize \<Rightarrow> usize option" where
  "next_after s from = next_runnable (states s) from"

definition blocked :: "'sp scheduler \<Rightarrow> usize" where
  "blocked s = length (filter (\<lambda>st. st = Some Blocked) (states s))"

definition alive :: "'sp scheduler \<Rightarrow> usize" where
  "alive s = length (filter (\<lambda>st. st \<noteq> None \<and> st \<noteq> Some Dead) (states s))"

definition should_switch_on_tick :: "'sp scheduler \<Rightarrow> bool" where
  "should_switch_on_tick s \<longleftrightarrow> handed_over s \<and> \<not> switching s"

section \<open>The machine around it\<close>

text \<open>
  The statics, and what the CPU was told: the tables it walks, the stack an interrupt from ring 3 and
  the stack a syscall enters on, and on whose stack it runs (\<open>None\<close> for the kernel's own flow).
\<close>

record 'sp machine =
  sched :: "'sp scheduler"
  kernel_cr3 :: u64
  cr3 :: u64
  tss_stack :: virt_addr
  syscall_stack :: u64
  on_stack_of :: "usize option"

definition prepare_cpu_for :: "usize \<Rightarrow> 'sp machine \<Rightarrow> 'sp machine" where
  "prepare_cpu_for i m =
     (case slot_at (sched m) i of None \<Rightarrow> m
      | Some sl \<Rightarrow> m\<lparr>tss_stack := kernel_stack_top sl, syscall_stack := v_u64 (kernel_stack_top sl)\<rparr>)"

text \<open>Where a process runs for the first time.\<close>

definition run_first :: "('sp \<Rightarrow> u64) \<Rightarrow> 'sp machine \<Rightarrow> panic + 'sp machine" where
  "run_first root m =
     (let s = (sched m)\<lparr>switching := False\<rparr> in
      case slot_at s (current s) of
        None \<Rightarrow> Inl (Panic ''the process just switched into'')
      | Some sl \<Rightarrow> Inr (m\<lparr>sched := set_slot (current s) (sl\<lparr>sl_state := Runnable\<rparr>) s, cr3 := root (space (sl_process sl))\<rparr>))"

text \<open>What runs when a saved stack pointer is loaded.\<close>

definition resume_process :: "('sp \<Rightarrow> u64) \<Rightarrow> resume \<Rightarrow> 'sp machine \<Rightarrow> panic + 'sp machine" where
  "resume_process root r m =
     (case r of
        FirstRun \<Rightarrow> run_first root m
      | Ended \<Rightarrow> Inl (Panic ''a process that has ended is never switched into'')
      | Left \<Rightarrow> Inr m
      | _ \<Rightarrow> Inr (m\<lparr>sched := (sched m)\<lparr>switching := False\<rparr>\<rparr>))"

definition switch_to :: "('sp \<Rightarrow> u64) \<Rightarrow> resume \<Rightarrow> usize \<Rightarrow> usize \<Rightarrow> 'sp machine \<Rightarrow> panic + 'sp machine" where
  "switch_to root after from to m =
     (let m1 = m\<lparr>sched := (sched m)\<lparr>switching := True, current := to\<rparr>\<rparr> in
      case slot_at (sched m1) to of
        None \<Rightarrow> Inl (Panic ''the slot just found'')
      | Some next \<Rightarrow>
          (let m2 = prepare_cpu_for to m1 in
           case slot_at (sched m2) from of
             None \<Rightarrow> Inl (Panic ''the process leaving'')
           | Some leaving \<Rightarrow>
               (let m3 = m2\<lparr>sched := set_slot from (leaving\<lparr>kernel_rsp := after\<rparr>) (sched m2),
                           cr3 := root (space (sl_process next)), on_stack_of := Some to\<rparr>
                in resume_process root (kernel_rsp next) m3)))"

text \<open>The end of \<open>run_until_empty\<close>, which is what the kernel's own stack was left in.\<close>

definition give_up_waiting :: "'sp scheduler \<Rightarrow> 'sp scheduler" where
  "give_up_waiting s =
     fold (\<lambda>i s. if map_option sl_state (slot_at s i) = Some Blocked then kill i s else s) [0..<MAX_PROCESSES] s"

definition resume_kernel :: "'sp machine \<Rightarrow> 'sp machine" where
  "resume_kernel m = m\<lparr>sched := give_up_waiting ((sched m)\<lparr>handed_over := False\<rparr>)\<rparr>"

definition leave_for_the_kernel :: "usize \<Rightarrow> resume \<Rightarrow> 'sp machine \<Rightarrow> panic + 'sp machine" where
  "leave_for_the_kernel cur after m =
     (if \<not> cur < length (slots (sched m)) then Inl (Panic ''index out of bounds'')
      else case slots (sched m) ! cur of
        None \<Rightarrow> Inr m
      | Some sl \<Rightarrow> Inr (resume_kernel (m\<lparr>sched := set_slot cur (sl\<lparr>kernel_rsp := after\<rparr>) (sched m),
          cr3 := kernel_cr3 m, on_stack_of := None\<rparr>)))"

definition run_until_empty :: "('sp \<Rightarrow> u64) \<Rightarrow> u64 \<Rightarrow> 'sp machine \<Rightarrow> panic + 'sp machine" where
  "run_until_empty root kcr3 m =
     (case next_after (sched m) (MAX_PROCESSES - 1) of
        None \<Rightarrow> Inr m
      | Some first \<Rightarrow>
          (let m1 = m\<lparr>sched := (sched m)\<lparr>current := first\<rparr>\<rparr> in
           case slot_at (sched m1) first of
             None \<Rightarrow> Inl (Panic ''the slot just found'')
           | Some sl \<Rightarrow>
               (let m2 = prepare_cpu_for first (m1\<lparr>kernel_cr3 := kcr3\<rparr>);
                    m3 = m2\<lparr>sched := (sched m2)\<lparr>handed_over := True\<rparr>, cr3 := root (space (sl_process sl)),
                            on_stack_of := Some first\<rparr>
                in resume_process root (kernel_rsp sl) m3)))"

definition switch_to_next :: "('sp \<Rightarrow> u64) \<Rightarrow> 'sp machine \<Rightarrow> panic + 'sp machine" where
  "switch_to_next root m =
     (if switching (sched m) then Inr m
      else let cur = current (sched m) in
        case next_after (sched m) cur of
          None \<Rightarrow> leave_for_the_kernel cur Left m
        | Some nxt \<Rightarrow> if nxt = cur then Inr m else switch_to root Yielded cur nxt m)"

definition end_current :: "('sp \<Rightarrow> u64) \<Rightarrow> 'sp machine \<Rightarrow> panic + 'sp machine" where
  "end_current root m =
     (let cur = current (sched m); m1 = m\<lparr>sched := kill_current (sched m)\<rparr> in
      case next_after (sched m1) cur of
        Some nxt \<Rightarrow> if nxt \<noteq> cur then switch_to root Ended cur nxt m1 else leave_for_the_kernel cur Ended m1
      | None \<Rightarrow> leave_for_the_kernel cur Ended m1)"

definition exit_current :: "('sp \<Rightarrow> u64) \<Rightarrow> u64 \<Rightarrow> u64 \<Rightarrow> ring \<Rightarrow> 'sp machine \<Rightarrow> ring \<times> (panic + 'sp machine)" where
  "exit_current root ticks code log m =
     (record_two ticks Exited (of_nat (current (sched m))) code log, end_current root m)"

definition fault_current :: "('sp \<Rightarrow> u64) \<Rightarrow> 'sp machine \<Rightarrow> panic + 'sp machine" where
  "fault_current root m = end_current root m"

definition on_tick :: "('sp \<Rightarrow> u64) \<Rightarrow> 'sp machine \<Rightarrow> panic + 'sp machine" where
  "on_tick root m = (if should_switch_on_tick (sched m) then switch_to_next root m else Inr m)"

text \<open>\<open>add\<close>: the slot of a process \<open>spawn\<close> built, its stack prepared for a first run.\<close>

definition add_process :: "'sp process \<Rightarrow> 'sp scheduler \<Rightarrow> usize option \<times> 'sp scheduler" where
  "add_process p s = scheduler_add \<lparr>sl_process = p, sl_state = New, kernel_rsp = FirstRun,
     kernel_stack_top = stack_top (kernel_stack p), sl_mailbox = mailbox_new\<rparr> s"

definition dead_processes :: "'sp scheduler \<Rightarrow> 'sp process list" where
  "dead_processes s = [sl_process sl. Some sl \<leftarrow> slots s, sl_state sl = Dead]"

definition anyone_has_open :: "'sp scheduler \<Rightarrow> bytes \<Rightarrow> bool" where
  "anyone_has_open s name \<longleftrightarrow> (\<exists>sl. Some sl \<in> set (slots s) \<and> has_open (sl_process sl) name)"

section \<open>Who is running, and messages\<close>

record running =
  run_slot :: usize
  run_ranges :: "phys_range list"
  run_writable :: "phys_range list"

definition running_owns :: "running \<Rightarrow> u64 \<Rightarrow> u64 \<Rightarrow> bool" where
  "running_owns r ptr len = owned_by (run_ranges r) ptr len"

definition running_owns_writable :: "running \<Rightarrow> u64 \<Rightarrow> u64 \<Rightarrow> bool" where
  "running_owns_writable r ptr len = owned_by (run_writable r) ptr len"

text \<open>The slot that has the CPU, if a process has it and has not ended.\<close>

definition running_slot :: "'sp scheduler \<Rightarrow> 'sp slot option" where
  "running_slot s =
     (if \<not> handed_over s then None
      else case slot_at s (current s) of None \<Rightarrow> None
        | Some held \<Rightarrow> if sl_state held = Dead then None else Some held)"

definition running :: "'sp scheduler \<Rightarrow> running option" where
  "running s = map_option (\<lambda>held. \<lparr>run_slot = current s, run_ranges = ranges (sl_process held),
     run_writable = writable_ranges (sl_process held)\<rparr>) (running_slot s)"

definition with_running :: "('sp process \<Rightarrow> 'r \<times> 'sp process) \<Rightarrow> 'sp scheduler \<Rightarrow> 'r option \<times> 'sp scheduler" where
  "with_running operation s =
     (case running_slot s of None \<Rightarrow> (None, s)
      | Some held \<Rightarrow>
          (case operation (sl_process held) of (r, p) \<Rightarrow>
             (Some r, set_slot (current s) (held\<lparr>sl_process := p\<rparr>) s)))"

datatype send_error = NoSuchProcess | SendBusy | Rejected deliver_error

definition deliver_to :: "usize \<Rightarrow> usize \<Rightarrow> bytes \<Rightarrow> 'sp scheduler \<Rightarrow> (send_error + delivery) \<times> 'sp scheduler" where
  "deliver_to to from message s =
     (case slot_at s to of None \<Rightarrow> (Inl NoSuchProcess, s)
      | Some sl \<Rightarrow>
          if sl_state sl = Dead then (Inl NoSuchProcess, s)
          else case deliver from message (sl_mailbox sl) of
              (Inl Busy, _) \<Rightarrow> (Inl SendBusy, s)
            | (Inl e, _) \<Rightarrow> (Inl (Rejected e), s)
            | (Inr d, mb) \<Rightarrow> (Inr d, snd (unblock to (set_slot to (sl\<lparr>sl_mailbox := mb\<rparr>) s))))"

definition take_message :: "bytes \<Rightarrow> 'sp scheduler \<Rightarrow> (take_error + delivery) \<times> bytes \<times> 'sp scheduler" where
  "take_message into s =
     (case slot_at s (current s) of
        Some sl \<Rightarrow> (case take_into into (sl_mailbox sl) of (r, into', mb) \<Rightarrow>
          (r, into', set_slot (current s) (sl\<lparr>sl_mailbox := mb\<rparr>) s))
      | None \<Rightarrow> (Inl Nothing, into, s))"

definition wait_for_message :: "('sp \<Rightarrow> u64) \<Rightarrow> 'sp machine \<Rightarrow> panic + (bool \<times> 'sp machine)" where
  "wait_for_message root m =
     (let cur = current (sched m) in
      case next_after (sched m) cur of
        Some nxt \<Rightarrow>
          (if nxt \<noteq> cur
           then case block cur (sched m) of
               (False, s) \<Rightarrow> Inr (False, m\<lparr>sched := s\<rparr>)
             | (True, s) \<Rightarrow> and_then (switch_to root Waited cur nxt (m\<lparr>sched := s\<rparr>)) (\<lambda>m'. Inr (True, m'))
           else Inr (False, m))
      | None \<Rightarrow> Inr (False, m))"

end
