(* ===== verification/Scheduler_Safe.thy ===== *)
theory Scheduler_Safe
  imports Scheduler
begin

text \<open>
  What holds of the scheduler whenever the CPU is back in ring 3 or in the kernel's own flow, over every
  sequence of ticks, yields, exits, faults, messages and file operations: an invariant by rule induction
  over a step relation. From it: no panic of the switching code can happen, the CPU always enters the
  kernel on the stack of the process it runs and walks its tables, nobody sleeps through a message, and
  what is open is open in a process that is alive.
\<close>

section \<open>Slots\<close>

lemma slot_at_set_slot [simp]:
  "slot_at (set_slot i sl s) j = (if j = i \<and> i < length (slots s) then Some sl else slot_at s j)"
  by (auto simp: slot_at_def set_slot_def)

lemma set_slot_simps [simp]:
  "length (slots (set_slot i sl s)) = length (slots s)" "current (set_slot i sl s) = current s"
  "switching (set_slot i sl s) = switching s" "handed_over (set_slot i sl s) = handed_over s"
  by (simp_all add: set_slot_def)

lemma set_slot_twice [simp]: "set_slot i a (set_slot i b s) = set_slot i a s"
  by (simp add: set_slot_def)

lemma slot_at_update [simp]:
  "slot_at (s\<lparr>current := c\<rparr>) j = slot_at s j" "slot_at (s\<lparr>switching := b\<rparr>) j = slot_at s j"
  "slot_at (s\<lparr>handed_over := b\<rparr>) j = slot_at s j"
  by (simp_all add: slot_at_def)

lemma slot_at_Some: "slot_at s i = Some sl \<Longrightarrow> i < length (slots s)"
  by (auto simp: slot_at_def split: if_splits)

lemma kill_simps [simp]:
  "length (slots (kill i s)) = length (slots s)" "current (kill i s) = current s"
  "switching (kill i s) = switching s" "handed_over (kill i s) = handed_over s"
  by (auto simp: kill_def split: option.splits)

lemma slot_at_kill [simp]:
  "slot_at (kill i s) j = (if j = i
     then map_option (\<lambda>sl. sl\<lparr>sl_state := Dead, sl_process := process_close_everything (sl_process sl)\<rparr>) (slot_at s j)
     else slot_at s j)"
  by (auto simp: kill_def dest: slot_at_Some split: option.splits)

lemma states_nth: "i < length (slots s) \<Longrightarrow> states s ! i = map_option sl_state (slot_at s i)"
  by (simp add: states_def slot_at_def)

section \<open>The round robin\<close>

definition runs :: "state option list \<Rightarrow> nat \<Rightarrow> bool" where
  "runs sts i \<longleftrightarrow> (case sts ! i of None \<Rightarrow> False | Some st \<Rightarrow> can_run st)"

text \<open>How many steps of the walk it takes from \<open>i\<close> to \<open>j\<close>: a whole round when they are the same.\<close>

definition distance :: "nat \<Rightarrow> nat \<Rightarrow> nat \<Rightarrow> nat" where
  "distance n i j = (if i < j then j - i else n - i + j)"

lemma distance_bounds: "i < n \<Longrightarrow> j < n \<Longrightarrow> 1 \<le> distance n i j \<and> distance n i j \<le> n"
  by (auto simp: distance_def)

lemma distance_walk: "i < n \<Longrightarrow> j < n \<Longrightarrow> (i + distance n i j) mod n = j"
  by (auto simp: distance_def)

lemma walk_distance: "i < n \<Longrightarrow> 1 \<le> d \<Longrightarrow> d \<le> n \<Longrightarrow> distance n i ((i + d) mod n) = d"
  by (cases "i + d < n") (auto simp: distance_def mod_if)

lemma distance_trans:
  "i < n \<Longrightarrow> j < n \<Longrightarrow> k < n \<Longrightarrow> distance n i k < distance n i j \<Longrightarrow>
   distance n k j = distance n i j - distance n i k"
  by (auto simp: distance_def split: if_splits)

lemma next_runnable_Some:
  assumes "from < length sts"
  shows "next_runnable sts from = Some j \<longleftrightarrow> j < length sts \<and> runs sts j \<and>
    (\<forall>k < length sts. runs sts k \<longrightarrow> distance (length sts) from j \<le> distance (length sts) from k)"
proof -
  let ?n = "length sts"
  let ?w = "map (\<lambda>step. (from + step) mod ?n) [1..<?n + 1]"
  have nth: "?w ! d = (from + Suc d) mod ?n" if "d < ?n" for d using that by (simp del: upt_Suc)
  have runs: "next_runnable sts from = find (runs sts) ?w"
    by (simp add: next_runnable_def runs_def [abs_def] del: upt_Suc)
  show ?thesis
  proof
    assume "next_runnable sts from = Some j"
    then obtain d where d: "d < ?n" "j = ?w ! d" "runs sts (?w ! d)" "\<forall>e < d. \<not> runs sts (?w ! e)"
      unfolding runs by (auto simp: find_Some_iff simp del: upt_Suc)
    have j: "j = (from + Suc d) mod ?n" using d(2) nth [OF d(1)] by simp
    then have dj: "distance ?n from j = Suc d" using walk_distance [of "from" ?n "Suc d"] assms d(1) by simp
    have "Suc d \<le> distance ?n from k" if k: "k < ?n" "runs sts k" for k
    proof (rule ccontr)
      assume "\<not> ?thesis"
      then obtain e where e: "distance ?n from k = Suc e" "e < d"
        using distance_bounds [OF assms k(1)] by (cases "distance ?n from k") auto
      then have "?w ! e = k" using distance_walk [OF assms k(1)] nth [of e] d(1) by simp
      then show False using d(4) e(2) k(2) by auto
    qed
    moreover have "j < ?n" unfolding j using assms by (intro mod_less_divisor) linarith
    moreover have "runs sts j" using d(2,3) by simp
    ultimately show "j < ?n \<and> runs sts j \<and> (\<forall>k < ?n. runs sts k \<longrightarrow> distance ?n from j \<le> distance ?n from k)"
      unfolding dj by blast
  next
    assume r: "j < ?n \<and> runs sts j \<and> (\<forall>k < ?n. runs sts k \<longrightarrow> distance ?n from j \<le> distance ?n from k)"
    then obtain d where d: "distance ?n from j = Suc d" "d < ?n"
      using distance_bounds [OF assms, of j] by (cases "distance ?n from j") auto
    then have wj: "?w ! d = j" using distance_walk [OF assms, of j] nth [of d] r by simp
    have "\<not> runs sts (?w ! e)" if "e < d" for e
    proof
      assume a: "runs sts (?w ! e)"
      have "?w ! e = (from + Suc e) mod ?n" using nth [of e] that d(2) by simp
      then have "?w ! e < ?n" using assms by (metis mod_less_divisor not_less_zero gr0I)
      moreover have "distance ?n from (?w ! e) = Suc e"
        using walk_distance [of "from" ?n "Suc e"] nth [of e] that d(2) assms by simp
      ultimately show False using r a d(1) that by fastforce
    qed
    then show "next_runnable sts from = Some j"
      unfolding runs using wj r d(2) by (auto simp: find_Some_iff simp del: upt_Suc intro!: exI [of _ d])
  qed
qed

lemma next_runnable_None:
  assumes "from < length sts"
  shows "next_runnable sts from = None \<longleftrightarrow> (\<forall>k < length sts. \<not> runs sts k)"
proof
  let ?n = "length sts"
  assume "next_runnable sts from = None"
  then have none: "\<forall>x \<in> set (map (\<lambda>step. (from + step) mod ?n) [1..<?n + 1]). \<not> runs sts x"
    by (auto simp: next_runnable_def runs_def find_None_iff)
  show "\<forall>k < ?n. \<not> runs sts k"
  proof (intro allI impI)
    fix k assume k: "k < ?n"
    have "(from + distance ?n from k) mod ?n = k" by (rule distance_walk [OF assms k])
    moreover have "distance ?n from k \<in> set [1..<?n + 1]"
      using distance_bounds [OF assms k] by (simp del: upt_Suc)
    ultimately have "k \<in> set (map (\<lambda>step. (from + step) mod ?n) [1..<?n + 1])"
      unfolding set_map by (metis image_eqI)
    then show "\<not> runs sts k" using none by blast
  qed
next
  assume none: "\<forall>k < length sts. \<not> runs sts k"
  have "\<not> runs sts ((from + d) mod length sts)" for d
    using assms by (intro none [rule_format] mod_less_divisor) linarith
  then show "next_runnable sts from = None"
    by (auto simp: next_runnable_def runs_def find_None_iff)
qed

text \<open>The two as facts on slots.\<close>

lemma next_after_Some:
  assumes "next_after s from = Some j" "from < length (slots s)"
  shows "j < length (slots s) \<and> (\<exists>sl. slot_at s j = Some sl \<and> can_run (sl_state sl))"
  using assms next_runnable_Some [of "from" "states s" j] states_nth [of j s]
  by (auto simp: next_after_def runs_def states_def split: option.splits)

lemma next_after_None:
  assumes "next_after s from = None" "from < length (slots s)" "slot_at s j = Some sl"
  shows "\<not> can_run (sl_state sl)"
  using assms next_runnable_None [of "from" "states s"] states_nth [of j s] slot_at_Some [OF assms(3)]
  by (auto simp: next_after_def runs_def states_def)

lemma next_after_nearest:
  assumes "next_after s from = Some j" "from < length (slots s)" "slot_at s k = Some sl" "can_run (sl_state sl)"
  shows "distance (length (slots s)) from j \<le> distance (length (slots s)) from k"
proof -
  have len: "length (states s) = length (slots s)" by (simp add: states_def)
  have "runs (states s) k" using assms(3,4) states_nth [OF slot_at_Some [OF assms(3)]] by (simp add: runs_def)
  then show ?thesis
    using assms(1,2) next_runnable_Some [of "from" "states s" j] slot_at_Some [OF assms(3)]
    by (simp add: next_after_def len)
qed

section \<open>The invariant\<close>

text \<open>Of a slot whose process does not have the CPU.\<close>

definition slot_ok :: "'sp slot \<Rightarrow> bool" where
  "slot_ok sl \<longleftrightarrow> mailbox_ok (sl_mailbox sl) \<and> length (open_table (sl_process sl)) = MAX_OPEN \<and>
     kernel_stack_top sl = stack_top (kernel_stack (sl_process sl)) \<and>
     (sl_state sl = Blocked \<longrightarrow> is_empty (sl_mailbox sl)) \<and>
     (sl_state sl = Dead \<longrightarrow> open_table (sl_process sl) = replicate MAX_OPEN None)"

definition parked_ok :: "'sp slot \<Rightarrow> bool" where
  "parked_ok sl \<longleftrightarrow> (case sl_state sl of New \<Rightarrow> kernel_rsp sl = FirstRun
     | Dead \<Rightarrow> True | _ \<Rightarrow> kernel_rsp sl = Yielded \<or> kernel_rsp sl = Waited)"

text \<open>What the CPU was told is about the process that has it.\<close>

definition cpu_ok :: "('sp \<Rightarrow> u64) \<Rightarrow> 'sp machine \<Rightarrow> 'sp slot \<Rightarrow> bool" where
  "cpu_ok root m sl \<longleftrightarrow> cr3 m = root (space (sl_process sl)) \<and> tss_stack m = kernel_stack_top sl \<and>
     syscall_stack m = v_u64 (kernel_stack_top sl)"

definition table_ok :: "'sp scheduler \<Rightarrow> bool" where
  "table_ok s \<longleftrightarrow> length (slots s) = MAX_PROCESSES \<and> (\<forall>i sl. slot_at s i = Some sl \<longrightarrow> slot_ok sl)"

definition others_ok :: "'sp scheduler \<Rightarrow> usize \<Rightarrow> bool" where
  "others_ok s c \<longleftrightarrow> (\<forall>i sl. i \<noteq> c \<longrightarrow> slot_at s i = Some sl \<longrightarrow> parked_ok sl)"

definition in_process :: "('sp \<Rightarrow> u64) \<Rightarrow> 'sp machine \<Rightarrow> bool" where
  "in_process root m \<longleftrightarrow> table_ok (sched m) \<and> handed_over (sched m) \<and> \<not> switching (sched m) \<and>
     on_stack_of m = Some (current (sched m)) \<and> others_ok (sched m) (current (sched m)) \<and>
     (\<exists>sl. slot_at (sched m) (current (sched m)) = Some sl \<and> sl_state sl = Runnable \<and> cpu_ok root m sl)"

definition in_kernel :: "'sp machine \<Rightarrow> bool" where
  "in_kernel m \<longleftrightarrow> table_ok (sched m) \<and> \<not> handed_over (sched m) \<and> \<not> switching (sched m) \<and> on_stack_of m = None \<and>
     (\<forall>i sl. slot_at (sched m) i = Some sl \<longrightarrow> sl_state sl = Dead \<or> sl_state sl = New \<and> kernel_rsp sl = FirstRun)"

definition machine_ok :: "('sp \<Rightarrow> u64) \<Rightarrow> 'sp machine \<Rightarrow> bool" where
  "machine_ok root m \<longleftrightarrow> in_process root m \<or> in_kernel m"

text \<open>Giving the CPU to a parked process that can run.\<close>

lemma resume_ok:
  assumes "table_ok (sched m)" "handed_over (sched m)" "slot_at (sched m) (current (sched m)) = Some sl"
    "can_run (sl_state sl)" "kernel_rsp sl = r" "parked_ok sl" "others_ok (sched m) (current (sched m))"
    "on_stack_of m = Some (current (sched m))" "cpu_ok root m sl"
  shows "\<exists>m'. resume_process root r m = Inr m' \<and> in_process root m'"
proof (cases "sl_state sl = New")
  case True
  then have r: "r = FirstRun" using assms(5,6) by (simp add: parked_ok_def)
  let ?s = "(sched m)\<lparr>switching := False\<rparr>"
  let ?s' = "set_slot (current (sched m)) (sl\<lparr>sl_state := Runnable\<rparr>) ?s"
  have c: "current (sched m) < length (slots (sched m))" by (rule slot_at_Some [OF assms(3)])
  have run: "resume_process root r m = Inr (m\<lparr>sched := ?s', cr3 := root (space (sl_process sl))\<rparr>)"
    using assms(3) r by (simp add: resume_process_def run_first_def Let_def)
  have "slot_ok sl" using assms(1,3) by (simp add: table_ok_def)
  then have "slot_ok (sl\<lparr>sl_state := Runnable\<rparr>)" by (simp add: slot_ok_def)
  then have "table_ok ?s'" using assms(1) by (auto simp: table_ok_def)
  moreover have "others_ok ?s' (current (sched m))" using assms(7) by (auto simp: others_ok_def)
  ultimately show ?thesis using run c assms(2,8,9) by (auto simp: in_process_def cpu_ok_def)
next
  case False
  then have st: "sl_state sl = Runnable" "r = Yielded \<or> r = Waited"
    using assms(4-6) by (auto simp: can_run_def parked_ok_def split: state.splits)
  let ?s = "(sched m)\<lparr>switching := False\<rparr>"
  have "resume_process root r m = Inr (m\<lparr>sched := ?s\<rparr>)" using st(2) by (auto simp: resume_process_def)
  moreover have "table_ok ?s" "others_ok ?s (current (sched m))"
    using assms(1,7) by (simp_all add: table_ok_def others_ok_def)
  ultimately show ?thesis using assms st(1) by (auto simp: in_process_def cpu_ok_def)
qed

text \<open>A switch from a slot that is parked for it to one that can run.\<close>

lemma switch_to_ok:
  assumes "table_ok (sched m)" "handed_over (sched m)" "slot_at (sched m) from = Some old" "from \<noteq> to"
    "parked_ok (old\<lparr>kernel_rsp := after\<rparr>)" "slot_at (sched m) to = Some nxs" "can_run (sl_state nxs)"
    "others_ok (sched m) from"
  shows "\<exists>m'. switch_to root after from to m = Inr m' \<and> in_process root m'"
proof -
  let ?s1 = "(sched m)\<lparr>switching := True, current := to\<rparr>"
  let ?s = "set_slot from (old\<lparr>kernel_rsp := after\<rparr>) ?s1"
  let ?m = "m\<lparr>tss_stack := kernel_stack_top nxs, syscall_stack := v_u64 (kernel_stack_top nxs), sched := ?s,
     cr3 := root (space (sl_process nxs)), on_stack_of := Some to\<rparr>"
  have f: "from < length (slots (sched m))" by (rule slot_at_Some [OF assms(3)])
  have sw: "switch_to root after from to m = resume_process root (kernel_rsp nxs) ?m"
    using assms(3,6) by (simp add: switch_to_def prepare_cpu_for_def Let_def)
  have to: "slot_at ?s to = Some nxs" using assms(4,6) by simp
  have "slot_ok old" using assms(1,3) by (simp add: table_ok_def)
  then have "slot_ok (old\<lparr>kernel_rsp := after\<rparr>)" by (simp add: slot_ok_def)
  then have t: "table_ok ?s" using assms(1) by (auto simp: table_ok_def)
  have p: "parked_ok nxs" using assms(4,6,8) by (auto simp: others_ok_def)
  have "others_ok ?s to" using assms(4,5,8) f by (auto simp: others_ok_def)
  then show ?thesis unfolding sw
    by (intro resume_ok [where sl = nxs]) (use t to p assms in \<open>auto simp: cpu_ok_def\<close>)
qed

lemma slot_ok_killed:
  "slot_ok sl \<Longrightarrow> slot_ok (sl\<lparr>sl_state := Dead, sl_process := process_close_everything (sl_process sl)\<rparr>)"
  by (simp add: slot_ok_def process_close_everything_def close_everything_def)

lemma table_ok_kill: "table_ok s \<Longrightarrow> table_ok (kill i s)"
  by (auto simp: table_ok_def slot_ok_killed)

lemma give_up_waiting_fold:
  "slot_at (fold (\<lambda>i s. if map_option sl_state (slot_at s i) = Some Blocked then kill i s else s) [0..<n] s) j =
     (if j < n \<and> map_option sl_state (slot_at s j) = Some Blocked then slot_at (kill j s) j else slot_at s j) \<and>
   (table_ok s \<longrightarrow> table_ok (fold (\<lambda>i s. if map_option sl_state (slot_at s i) = Some Blocked then kill i s else s) [0..<n] s)) \<and>
   handed_over (fold (\<lambda>i s. if map_option sl_state (slot_at s i) = Some Blocked then kill i s else s) [0..<n] s) = handed_over s \<and>
   switching (fold (\<lambda>i s. if map_option sl_state (slot_at s i) = Some Blocked then kill i s else s) [0..<n] s) = switching s"
proof (induction n arbitrary: j)
  case (Suc n)
  from Suc [of j] Suc [of n] show ?case by (auto simp: less_Suc_eq table_ok_kill)
qed simp

lemma leave_ok:
  assumes "table_ok (sched m)" "\<not> switching (sched m)" "slot_at (sched m) cur = Some sl"
    "\<forall>i sl. slot_at (sched m) i = Some sl \<longrightarrow> \<not> can_run (sl_state sl)"
  shows "\<exists>m'. leave_for_the_kernel cur after m = Inr m' \<and> in_kernel m'"
proof -
  let ?s = "(set_slot cur (sl\<lparr>kernel_rsp := after\<rparr>) (sched m))\<lparr>handed_over := False\<rparr>"
  let ?m = "m\<lparr>sched := set_slot cur (sl\<lparr>kernel_rsp := after\<rparr>) (sched m), cr3 := kernel_cr3 m, on_stack_of := None\<rparr>"
  have c: "cur < length (slots (sched m))" by (rule slot_at_Some [OF assms(3)])
  then have run: "leave_for_the_kernel cur after m = Inr (resume_kernel ?m)"
    using assms(3) by (simp add: leave_for_the_kernel_def slot_at_def)
  have "slot_ok sl" using assms(1,3) by (simp add: table_ok_def)
  then have "slot_ok (sl\<lparr>kernel_rsp := after\<rparr>)" by (simp add: slot_ok_def)
  then have t: "table_ok ?s" using assms(1) by (auto simp: table_ok_def)
  have st: "sl_state sl' = Blocked \<or> sl_state sl' = Dead" if "slot_at ?s i = Some sl'" for i sl'
  proof -
    have "\<not> can_run (sl_state sl')" using assms(3,4) that by (auto split: if_splits)
    then show ?thesis by (cases "sl_state sl'") (auto simp: can_run_def)
  qed
  have lt: "i < MAX_PROCESSES" if "slot_at ?s i = Some sl'" for i sl'
    using slot_at_Some [OF that] t by (simp add: table_ok_def)
  note g = give_up_waiting_fold [of MAX_PROCESSES ?s, folded give_up_waiting_def]
  have "sl_state sl' = Dead" if "slot_at (give_up_waiting ?s) i = Some sl'" for i sl'
  proof (cases "slot_at ?s i")
    case (Some sl0)
    then show ?thesis using that g [of i] st [OF Some] lt [OF Some] by (auto split: if_splits)
  qed (use that g [of i] in simp)
  moreover have "table_ok (give_up_waiting ?s)" using g t by blast
  moreover have "\<not> handed_over (give_up_waiting ?s)" "\<not> switching (give_up_waiting ?s)" using g assms(2) by simp_all
  ultimately have "in_kernel (resume_kernel ?m)" by (auto simp: in_kernel_def resume_kernel_def)
  then show ?thesis using run by blast
qed

text \<open>The handlers, from ring 3.\<close>

lemma in_process_slot:
  assumes "in_process root m"
  obtains sl where "slot_at (sched m) (current (sched m)) = Some sl" "sl_state sl = Runnable" "cpu_ok root m sl" "slot_ok sl"
  using assms by (auto simp: in_process_def table_ok_def)

lemma switch_to_next_ok:
  assumes "in_process root m"
  shows "\<exists>m'. switch_to_next root m = Inr m' \<and> in_process root m'"
proof -
  let ?c = "current (sched m)"
  obtain sl where sl: "slot_at (sched m) ?c = Some sl" "sl_state sl = Runnable" using assms by (rule in_process_slot)
  have c: "?c < length (slots (sched m))" by (rule slot_at_Some [OF sl(1)])
  obtain j where j: "next_after (sched m) ?c = Some j"
    using next_after_None [OF _ c sl(1)] sl(2) by (cases "next_after (sched m) ?c") (auto simp: can_run_def)
  obtain nxs where nx: "slot_at (sched m) j = Some nxs" "can_run (sl_state nxs)" using next_after_Some [OF j c] by blast
  have sw: "\<not> switching (sched m)" using assms by (simp add: in_process_def)
  show ?thesis
  proof (cases "j = ?c")
    case False
    have "\<exists>m'. switch_to root Yielded ?c j m = Inr m' \<and> in_process root m'"
      by (rule switch_to_ok [OF _ _ sl(1) _ _ nx]) (use assms False sl(2) in \<open>auto simp: in_process_def parked_ok_def\<close>)
    then show ?thesis using False j sw by (simp add: switch_to_next_def)
  qed (use j sw assms in \<open>simp add: switch_to_next_def\<close>)
qed

lemma end_current_ok:
  assumes "in_process root m"
  shows "\<exists>m'. end_current root m = Inr m' \<and> machine_ok root m'"
proof -
  let ?c = "current (sched m)" and ?m = "m\<lparr>sched := kill_current (sched m)\<rparr>"
  obtain sl where sl: "slot_at (sched m) ?c = Some sl" using assms by (rule in_process_slot)
  let ?d = "sl\<lparr>sl_state := Dead, sl_process := process_close_everything (sl_process sl)\<rparr>"
  have c: "?c < length (slots (sched ?m))" using slot_at_Some [OF sl] by (simp add: kill_current_def)
  have d: "slot_at (sched ?m) ?c = Some ?d" using sl by (simp add: kill_current_def)
  have t: "table_ok (sched ?m)" "others_ok (sched ?m) ?c" "handed_over (sched ?m)" "\<not> switching (sched ?m)"
    using assms by (auto simp: in_process_def kill_current_def table_ok_kill others_ok_def)
  show ?thesis
  proof (cases "next_after (sched ?m) ?c")
    case None
    have "\<exists>m'. leave_for_the_kernel ?c Ended ?m = Inr m' \<and> in_kernel m'"
      by (rule leave_ok [OF t(1,4) d]) (use next_after_None [OF None c] in blast)
    then show ?thesis using None by (auto simp: end_current_def Let_def machine_ok_def)
  next
    case (Some j)
    then obtain nxs where nx: "slot_at (sched ?m) j = Some nxs" "can_run (sl_state nxs)"
      using next_after_Some [OF Some c] by blast
    then have jc: "j \<noteq> ?c" using d by (auto simp: can_run_def)
    have "\<exists>m'. switch_to root Ended ?c j ?m = Inr m' \<and> in_process root m'"
      by (rule switch_to_ok [OF t(1,3) d _ _ nx t(2)]) (use jc in \<open>auto simp: parked_ok_def\<close>)
    then show ?thesis using Some jc by (auto simp: end_current_def Let_def machine_ok_def)
  qed
qed

lemma wait_for_message_ok:
  assumes "in_process root m" "\<And>sl. slot_at (sched m) (current (sched m)) = Some sl \<Longrightarrow> is_empty (sl_mailbox sl)"
  shows "\<exists>b m'. wait_for_message root m = Inr (b, m') \<and> in_process root m'"
proof -
  let ?c = "current (sched m)"
  obtain sl where sl: "slot_at (sched m) ?c = Some sl" "sl_state sl = Runnable" "slot_ok sl"
    using assms(1) by (rule in_process_slot)
  have c: "?c < length (slots (sched m))" by (rule slot_at_Some [OF sl(1)])
  obtain j where j: "next_after (sched m) ?c = Some j"
    using next_after_None [OF _ c sl(1)] sl(2) by (cases "next_after (sched m) ?c") (auto simp: can_run_def)
  obtain nxs where nx: "slot_at (sched m) j = Some nxs" "can_run (sl_state nxs)" using next_after_Some [OF j c] by blast
  show ?thesis
  proof (cases "j = ?c")
    case False
    let ?b = "sl\<lparr>sl_state := Blocked\<rparr>" and ?m = "m\<lparr>sched := set_slot ?c (sl\<lparr>sl_state := Blocked\<rparr>) (sched m)\<rparr>"
    have bl: "block ?c (sched m) = (True, sched ?m)"
      using sl by (simp add: block_def move_to_def waiting_def can_run_def)
    have "slot_ok ?b" using sl(3) assms(2) [OF sl(1)] by (simp add: slot_ok_def)
    then have "table_ok (sched ?m)" using assms(1) by (auto simp: in_process_def table_ok_def)
    moreover have "slot_at (sched ?m) ?c = Some ?b" using c by simp
    moreover have "slot_at (sched ?m) j = Some nxs" using nx(1) False by simp
    ultimately have "\<exists>m'. switch_to root Waited ?c j ?m = Inr m' \<and> in_process root m'"
      by (intro switch_to_ok [where old = ?b and nxs = nxs])
         (use assms(1) False nx(2) in \<open>auto simp: in_process_def parked_ok_def others_ok_def\<close>)
    then show ?thesis using False j bl by (auto simp: wait_for_message_def Let_def)
  next
    case True
    then have "wait_for_message root m = Inr (False, m)" using j by (simp add: wait_for_message_def)
    then show ?thesis using assms(1) by blast
  qed
qed

text \<open>Changing one slot and nothing else, to one that is as good.\<close>

lemma in_process_set_slot:
  assumes "in_process root m" "slot_at (sched m) i = Some sl" "slot_ok sl'" "sl_process sl' = sl_process sl \<or> space (sl_process sl') = space (sl_process sl)"
    "kernel_stack_top sl' = kernel_stack_top sl"
    "i = current (sched m) \<Longrightarrow> sl_state sl' = Runnable" "i \<noteq> current (sched m) \<Longrightarrow> parked_ok sl'"
  shows "in_process root (m\<lparr>sched := set_slot i sl' (sched m)\<rparr>)"
proof -
  have "table_ok (set_slot i sl' (sched m))" using assms(1,3) by (auto simp: in_process_def table_ok_def)
  moreover have "others_ok (set_slot i sl' (sched m)) (current (sched m))"
    using assms(1,7) by (auto simp: in_process_def others_ok_def)
  ultimately show ?thesis using assms slot_at_Some [OF assms(2)]
    by (auto simp: in_process_def cpu_ok_def)
qed

lemma deliver_to_ok:
  assumes "in_process root m" "deliver_to to from message (sched m) = (r, s)"
  shows "in_process root (m\<lparr>sched := s\<rparr>)"
proof (cases "s = sched m")
  case True
  then have "m\<lparr>sched := s\<rparr> = m" by simp
  then show ?thesis using assms(1) by simp
next
  case False
  then obtain sl d mb where sl: "slot_at (sched m) to = Some sl" "sl_state sl \<noteq> Dead"
      "deliver from message (sl_mailbox sl) = (Inr d, mb)"
      "s = snd (unblock to (set_slot to (sl\<lparr>sl_mailbox := mb\<rparr>) (sched m)))"
    using assms(2) by (auto simp: deliver_to_def split: option.splits if_splits prod.splits sum.splits deliver_error.splits)
  have to: "to < length (slots (sched m))" by (rule slot_at_Some [OF sl(1)])
  let ?sl = "if sl_state sl = Blocked then sl\<lparr>sl_mailbox := mb, sl_state := Runnable\<rparr> else sl\<lparr>sl_mailbox := mb\<rparr>"
  have s: "s = set_slot to ?sl (sched m)"
    using sl(4) to by (simp add: unblock_def move_to_def woken_def)
  have old: "slot_ok sl" using assms(1) sl(1) by (auto simp: in_process_def table_ok_def)
  have "mailbox_ok mb" using mailbox_put_law [OF _ sl(3)] old by (simp add: slot_ok_def)
  then have "slot_ok ?sl" using old sl(2) by (auto simp: slot_ok_def)
  moreover have "parked_ok ?sl" if "to \<noteq> current (sched m)"
  proof -
    have "parked_ok sl" using assms(1) sl(1) that by (auto simp: in_process_def others_ok_def)
    then show ?thesis by (auto simp: parked_ok_def split: state.splits)
  qed
  moreover have "sl_state ?sl = Runnable" if "to = current (sched m)"
    using assms(1) sl(1) that by (auto simp: in_process_def)
  ultimately show ?thesis unfolding s by (intro in_process_set_slot [OF assms(1) sl(1)]) auto
qed

lemma take_message_ok:
  assumes "in_process root m" "take_message into (sched m) = (r, into', s)"
  shows "in_process root (m\<lparr>sched := s\<rparr>)"
proof -
  let ?c = "current (sched m)"
  obtain sl where sl: "slot_at (sched m) ?c = Some sl" "sl_state sl = Runnable" "slot_ok sl"
    using assms(1) by (rule in_process_slot)
  obtain mb where mb: "take_into into (sl_mailbox sl) = (r, into', mb)" "s = set_slot ?c (sl\<lparr>sl_mailbox := mb\<rparr>) (sched m)"
    using assms(2) sl(1) by (auto simp: take_message_def split: prod.splits)
  have "slot_ok (sl\<lparr>sl_mailbox := mb\<rparr>)" using sl mailbox_tak_law [OF _ mb(1)] by (simp add: slot_ok_def)
  then show ?thesis unfolding mb(2) by (intro in_process_set_slot [OF assms(1) sl(1)]) (use sl in auto)
qed

lemma with_running_ok:
  assumes "in_process root m" "with_running f (sched m) = (r, s)"
    and f: "\<And>p. length (open_table p) = MAX_OPEN \<Longrightarrow> \<exists>t. length t = MAX_OPEN \<and> snd (f p) = p\<lparr>open_table := t\<rparr>"
  shows "in_process root (m\<lparr>sched := s\<rparr>)"
proof -
  let ?c = "current (sched m)"
  obtain sl where sl: "slot_at (sched m) ?c = Some sl" "sl_state sl = Runnable" "slot_ok sl"
    using assms(1) by (rule in_process_slot)
  have "running_slot (sched m) = Some sl" using assms(1) sl by (simp add: running_slot_def in_process_def)
  then have s: "s = set_slot ?c (sl\<lparr>sl_process := snd (f (sl_process sl))\<rparr>) (sched m)"
    using assms(2) by (auto simp: with_running_def split: prod.splits)
  obtain t where t: "length t = MAX_OPEN" "snd (f (sl_process sl)) = (sl_process sl)\<lparr>open_table := t\<rparr>"
    using f sl(3) unfolding slot_ok_def by blast
  have "slot_ok (sl\<lparr>sl_process := snd (f (sl_process sl))\<rparr>)" using sl t by (simp add: slot_ok_def)
  then show ?thesis unfolding s by (intro in_process_set_slot [OF assms(1) sl(1)]) (use sl t in auto)
qed

lemma add_process_ok:
  assumes "in_kernel m" "add_process p (sched m) = (r, s)" "open_table p = open_files_new"
  shows "in_kernel (m\<lparr>sched := s\<rparr>)"
proof -
  let ?sl = "\<lparr>sl_process = p, sl_state = New, kernel_rsp = FirstRun,
     kernel_stack_top = stack_top (kernel_stack p), sl_mailbox = mailbox_new\<rparr>"
  have "slot_ok ?sl" using assms(3) by (simp add: slot_ok_def open_files_new_def)
  then have "in_kernel (m\<lparr>sched := set_slot i ?sl (sched m)\<rparr>)" for i
    using assms(1) by (auto simp: in_kernel_def table_ok_def)
  moreover have "m\<lparr>sched := sched m\<rparr> = m" by simp
  ultimately show ?thesis using assms(1,2)
    by (auto simp: add_process_def scheduler_add_def split: option.splits)
qed

lemma run_until_empty_ok:
  assumes "in_kernel m"
  shows "\<exists>m'. run_until_empty root kcr3 m = Inr m' \<and>
    (if next_after (sched m) (MAX_PROCESSES - 1) = None then m' = m else in_process root m')"
proof (cases "next_after (sched m) (MAX_PROCESSES - 1)")
  case None
  then show ?thesis by (simp add: run_until_empty_def)
next
  case (Some j)
  have "MAX_PROCESSES - 1 < length (slots (sched m))" using assms by (simp add: in_kernel_def table_ok_def MAX_PROCESSES_def)
  then obtain sl where sl: "slot_at (sched m) j = Some sl" "can_run (sl_state sl)" using next_after_Some [OF Some] by blast
  let ?s = "(sched m)\<lparr>current := j, handed_over := True\<rparr>"
  let ?m = "m\<lparr>kernel_cr3 := kcr3, tss_stack := kernel_stack_top sl, syscall_stack := v_u64 (kernel_stack_top sl),
     sched := ?s, cr3 := root (space (sl_process sl)), on_stack_of := Some j\<rparr>"
  have run: "run_until_empty root kcr3 m = resume_process root (kernel_rsp sl) ?m"
    using Some sl(1) by (simp add: run_until_empty_def prepare_cpu_for_def Let_def)
  have pk: "parked_ok sl'" if "slot_at (sched m) i = Some sl'" for i sl'
  proof -
    have "sl_state sl' = Dead \<or> sl_state sl' = New \<and> kernel_rsp sl' = FirstRun"
      using assms that unfolding in_kernel_def by blast
    then show ?thesis by (auto simp: parked_ok_def)
  qed
  have "\<exists>m'. resume_process root (kernel_rsp sl) ?m = Inr m' \<and> in_process root m'"
    by (rule resume_ok [where sl = sl])
       (use assms sl pk in \<open>auto simp: in_kernel_def table_ok_def others_ok_def cpu_ok_def\<close>)
  then show ?thesis using Some unfolding run by simp
qed

section \<open>Everything that can happen\<close>

text \<open>
  The kernel's own flow adds processes and runs them; a process that has the CPU is interrupted by a
  tick, yields, ends, sends, takes or waits for a message, or changes its table of open files.
\<close>

definition changes_open_table :: "('sp process \<Rightarrow> 'r \<times> 'sp process) \<Rightarrow> bool" where
  "changes_open_table f \<longleftrightarrow> (\<forall>p. length (open_table p) = MAX_OPEN \<longrightarrow> (\<exists>t. length t = MAX_OPEN \<and> snd (f p) = p\<lparr>open_table := t\<rparr>))"

inductive step :: "('sp \<Rightarrow> u64) \<Rightarrow> 'sp machine \<Rightarrow> 'sp machine \<Rightarrow> bool" for root where
  spawned: "on_stack_of m = None \<Longrightarrow> open_table p = open_files_new \<Longrightarrow> add_process p (sched m) = (r, s) \<Longrightarrow>
    step root m (m\<lparr>sched := s\<rparr>)"
| handed: "on_stack_of m = None \<Longrightarrow> run_until_empty root k m = Inr m' \<Longrightarrow> step root m m'"
| ticked: "on_stack_of m = Some i \<Longrightarrow> on_tick root m = Inr m' \<Longrightarrow> step root m m'"
| yielded: "on_stack_of m = Some i \<Longrightarrow> switch_to_next root m = Inr m' \<Longrightarrow> step root m m'"
| ended: "on_stack_of m = Some i \<Longrightarrow> end_current root m = Inr m' \<Longrightarrow> step root m m'"
| sent: "on_stack_of m = Some i \<Longrightarrow> deliver_to dest i message (sched m) = (r, s) \<Longrightarrow> step root m (m\<lparr>sched := s\<rparr>)"
| took: "on_stack_of m = Some i \<Longrightarrow> take_message into (sched m) = (r, into', s) \<Longrightarrow> step root m (m\<lparr>sched := s\<rparr>)"
| waited: "on_stack_of m = Some i \<Longrightarrow> take_message into (sched m) = (Inl Nothing, into', s) \<Longrightarrow>
    wait_for_message root (m\<lparr>sched := s\<rparr>) = Inr (b, m') \<Longrightarrow> step root m m'"
| filed: "on_stack_of m = Some i \<Longrightarrow> changes_open_table f \<Longrightarrow> with_running f (sched m) = (r :: nat option, s) \<Longrightarrow>
    step root m (m\<lparr>sched := s\<rparr>)"

definition boot_machine :: "u64 \<Rightarrow> 'sp machine" where
  "boot_machine k = \<lparr>sched = scheduler_new, kernel_cr3 = 0, cr3 = k, tss_stack = VirtAddr 0, syscall_stack = 0, on_stack_of = None\<rparr>"

inductive reachable :: "('sp \<Rightarrow> u64) \<Rightarrow> 'sp machine \<Rightarrow> bool" for root where
  start: "reachable root (boot_machine k)"
| more: "reachable root m \<Longrightarrow> step root m m' \<Longrightarrow> reachable root m'"

lemma machine_ok_kernel: "machine_ok root m \<Longrightarrow> on_stack_of m = None \<Longrightarrow> in_kernel m"
  by (auto simp: machine_ok_def in_process_def)

lemma machine_ok_process: "machine_ok root m \<Longrightarrow> on_stack_of m = Some i \<Longrightarrow> in_process root m \<and> i = current (sched m)"
  by (auto simp: machine_ok_def in_process_def in_kernel_def)

lemma taken_nothing:
  assumes "take_message into s = (Inl Nothing, into', s')" "slot_at s' (current s') = Some sl"
  shows "is_empty (sl_mailbox sl)"
  using assms slot_at_Some
  by (auto simp: take_message_def take_into_def is_empty_def split: option.splits prod.splits if_splits)

lemma step_ok:
  assumes "step root m m'" "machine_ok root m"
  shows "machine_ok root m'"
  using assms(1)
proof (cases rule: step.cases)
  case (spawned p r s)
  then show ?thesis using add_process_ok machine_ok_kernel assms(2) by (metis machine_ok_def)
next
  case (handed k)
  then have "in_kernel m" using machine_ok_kernel [OF assms(2)] by blast
  then show ?thesis using run_until_empty_ok [of m root k] handed(2) assms(2)
    by (auto simp: machine_ok_def split: if_splits)
next
  case (ticked i)
  then show ?thesis using switch_to_next_ok machine_ok_process [OF assms(2)] assms(2)
    by (fastforce simp: on_tick_def machine_ok_def split: if_splits)
next
  case (yielded i)
  then show ?thesis using switch_to_next_ok machine_ok_process [OF assms(2)] by (fastforce simp: machine_ok_def)
next
  case (ended i)
  then show ?thesis using end_current_ok machine_ok_process [OF assms(2)] by fastforce
next
  case (sent i dest message r s)
  then show ?thesis using deliver_to_ok machine_ok_process [OF assms(2)] by (metis machine_ok_def)
next
  case (took i into r into' s)
  then show ?thesis using take_message_ok machine_ok_process [OF assms(2)] by (metis machine_ok_def)
next
  case (waited i into into' s b)
  have p: "in_process root (m\<lparr>sched := s\<rparr>)" using waited take_message_ok machine_ok_process [OF assms(2)] by metis
  have "\<exists>b m'. wait_for_message root (m\<lparr>sched := s\<rparr>) = Inr (b, m') \<and> in_process root m'"
    by (rule wait_for_message_ok [OF p]) (use taken_nothing [OF waited(2)] in simp)
  then show ?thesis using waited(3) by (auto simp: machine_ok_def)
next
  case (filed i f r s)
  have "in_process root (m\<lparr>sched := s\<rparr>)"
    by (rule with_running_ok [OF _ filed(4)]) (use machine_ok_process [OF assms(2)] filed in \<open>auto simp: changes_open_table_def\<close>)
  then show ?thesis using filed(1) by (simp add: machine_ok_def)
qed

lemma boot_machine_ok: "in_kernel (boot_machine k)"
  by (simp add: in_kernel_def boot_machine_def table_ok_def scheduler_new_def slot_at_def)

lemma reachable_ok: "reachable root m \<Longrightarrow> machine_ok root m"
proof (induction rule: reachable.induct)
  case (start k)
  then show ?case using boot_machine_ok unfolding machine_ok_def by blast
qed (rule step_ok)

text \<open>Turn after turn, while nobody's state changes.\<close>

lemma turns_reach:
  assumes "i < length sts" "j < length sts" "runs sts j"
  shows "\<exists>k. 1 \<le> k \<and> k \<le> distance (length sts) i j \<and> ((\<lambda>i. the (next_runnable sts i)) ^^ k) i = j"
  using assms(1)
proof (induction "distance (length sts) i j" arbitrary: i rule: less_induct)
  case less
  let ?n = "length sts" and ?f = "\<lambda>i. the (next_runnable sts i)"
  obtain a where a: "next_runnable sts i = Some a"
    using next_runnable_None [OF less.prems] assms(2,3) by (cases "next_runnable sts i") auto
  then have an: "a < ?n" and le: "distance ?n i a \<le> distance ?n i j"
    using next_runnable_Some [OF less.prems] assms(2,3) by auto
  show ?case
  proof (cases "a = j")
    case True
    then show ?thesis using a distance_bounds [OF less.prems assms(2)] by (intro exI [of _ 1]) simp
  next
    case False
    have "distance ?n i a \<noteq> distance ?n i j"
      using distance_walk [OF less.prems an] distance_walk [OF less.prems assms(2)] False by metis
    with le have lt: "distance ?n i a < distance ?n i j" by simp
    note tr = distance_trans [OF less.prems assms(2) an lt]
    have pos: "1 \<le> distance ?n i a" using distance_bounds [OF less.prems an] by simp
    obtain k where k: "1 \<le> k" "k \<le> distance ?n a j" "(?f ^^ k) a = j"
      using less.hyps [OF _ an] tr pos lt by auto
    have "(?f ^^ Suc k) i = j" using k(3) a by (simp add: funpow_Suc_right del: funpow.simps)
    then show ?thesis using k tr pos lt by (intro exI [of _ "Suc k"]) simp
  qed
qed

section \<open>Properties\<close>

definition sample_process :: "u64 process" where
  "sample_process = \<lparr>space = 7, owned = [], writable = [], frames = [], entry = CODE_BASE,
     kernel_stack = \<lparr>stack_bottom = VirtAddr 0x1000, stack_top = VirtAddr 0x2000\<rparr>, open_table = open_files_new\<rparr>"

definition sample_machine :: "u64 machine" where
  "sample_machine = (boot_machine 3)\<lparr>sched := snd (add_process sample_process scheduler_new)\<rparr>"

lemma sample_machine_reachable: "reachable (\<lambda>sp. sp) sample_machine"
proof -
  have "step (\<lambda>sp. sp) (boot_machine 3) sample_machine"
    unfolding sample_machine_def
    by (rule step.spawned [where p = sample_process and r = "fst (add_process sample_process scheduler_new)"])
       (simp_all add: boot_machine_def sample_process_def)
  then show ?thesis by (rule reachable.more [OF reachable.start])
qed

lemma sample_runs: "\<exists>m i. on_stack_of m = Some i \<and> reachable (\<lambda>sp. sp :: u64) m"
proof -
  have k: "in_kernel sample_machine" "on_stack_of sample_machine = None"
    using machine_ok_kernel [OF reachable_ok [OF sample_machine_reachable]] by (simp_all add: sample_machine_def boot_machine_def)
  have "slot_at (sched sample_machine) 0 = Some \<lparr>sl_process = sample_process, sl_state = New, kernel_rsp = FirstRun,
      kernel_stack_top = stack_top (kernel_stack sample_process), sl_mailbox = mailbox_new\<rparr>"
    by (simp add: sample_machine_def add_process_def scheduler_add_def scheduler_new_def MAX_PROCESSES_def slot_at_def
        set_slot_def numeral_eq_Suc)
  moreover have "MAX_PROCESSES - 1 < length (slots (sched sample_machine))"
    using k(1) by (simp add: in_kernel_def table_ok_def MAX_PROCESSES_def)
  ultimately have "next_after (sched sample_machine) (MAX_PROCESSES - 1) \<noteq> None"
    using next_after_None by (fastforce simp: can_run_def)
  then obtain m where m: "run_until_empty (\<lambda>sp. sp) 3 sample_machine = Inr m" "in_process (\<lambda>sp. sp) m"
    using run_until_empty_ok [OF k(1), of "\<lambda>sp. sp" 3] by auto
  then show ?thesis using step.handed [OF k(2) m(1)] reachable.more [OF sample_machine_reachable]
    by (auto simp: in_process_def)
qed

text \<open>
  C3. Whose CPU it is: in every state the machine can reach, when a process has the CPU it is the one
  the scheduler calls current, it is alive and not waiting, the CPU walks its own page tables, and both
  ways into the kernel land on its own kernel stack; when the kernel has it, no process is half way.
\<close>

theorem cpu_belongs_to_current:
  assumes "reachable root m"
  shows "case on_stack_of m of
      Some i \<Rightarrow> i = current (sched m) \<and> handed_over (sched m) \<and>
        (\<exists>sl. slot_at (sched m) i = Some sl \<and> sl_state sl = Runnable \<and> cr3 m = root (space (sl_process sl)) \<and>
          tss_stack m = stack_top (kernel_stack (sl_process sl)) \<and>
          syscall_stack m = v_u64 (stack_top (kernel_stack (sl_process sl))))
    | None \<Rightarrow> \<not> handed_over (sched m) \<and>
        (\<forall>i sl. slot_at (sched m) i = Some sl \<longrightarrow> sl_state sl = New \<or> sl_state sl = Dead)"
proof (cases "on_stack_of m")
  case None
  then have "in_kernel m" using machine_ok_kernel [OF reachable_ok [OF assms]] by blast
  then show ?thesis using None by (auto simp: in_kernel_def)
next
  case (Some i)
  then have p: "in_process root m" "i = current (sched m)" using machine_ok_process [OF reachable_ok [OF assms]] by auto
  obtain sl where "slot_at (sched m) i = Some sl" "sl_state sl = Runnable" "cpu_ok root m sl" "slot_ok sl"
    using p by (metis in_process_slot)
  then show ?thesis using Some p by (auto simp: in_process_def cpu_ok_def slot_ok_def)
qed

theorem cpu_belongs_to_current_witness:
  "\<exists>(m :: u64 machine) i sl. on_stack_of m = Some i \<and> slot_at (sched m) i = Some sl \<and> sl_state sl = Runnable \<and> cr3 m = space (sl_process sl)"
proof -
  obtain m :: "u64 machine" and i where m: "on_stack_of m = Some i" "reachable (\<lambda>sp. sp) m" using sample_runs by blast
  from cpu_belongs_to_current [OF m(2)] m(1) show ?thesis by (intro exI [of _ m] exI [of _ i]) auto
qed

text \<open>
  C16. The switching never panics and always gives the CPU to somebody: from every state the machine can
  reach, a tick, a yield, the end of a process and a wait all come to an end in ring 3 or in the
  kernel, whatever the other processes are doing, and so does handing the CPU over.
\<close>

theorem switching_never_panics:
  assumes "reachable root m"
  shows "(on_stack_of m \<noteq> None \<longrightarrow>
      (\<exists>m'. on_tick root m = Inr m') \<and> (\<exists>m'. switch_to_next root m = Inr m') \<and> (\<exists>m'. end_current root m = Inr m') \<and>
      (\<forall>into s. take_message into (sched m) = (Inl Nothing, into, s) \<longrightarrow>
         (\<exists>b m'. wait_for_message root (m\<lparr>sched := s\<rparr>) = Inr (b, m')))) \<and>
    (on_stack_of m = None \<longrightarrow> (\<forall>k. \<exists>m'. run_until_empty root k m = Inr m'))"
proof (cases "on_stack_of m")
  case None
  then show ?thesis using run_until_empty_ok machine_ok_kernel [OF reachable_ok [OF assms]] by fastforce
next
  case (Some i)
  then have p: "in_process root m" using machine_ok_process [OF reachable_ok [OF assms]] by blast
  obtain m1 m2 where m12: "switch_to_next root m = Inr m1" "end_current root m = Inr m2"
    using switch_to_next_ok [OF p] end_current_ok [OF p] by blast
  have "\<exists>b m'. wait_for_message root (m\<lparr>sched := s\<rparr>) = Inr (b, m')"
    if "take_message into (sched m) = (Inl Nothing, into, s)" for into s
  proof -
    have "\<exists>b m'. wait_for_message root (m\<lparr>sched := s\<rparr>) = Inr (b, m') \<and> in_process root m'"
      by (rule wait_for_message_ok [OF take_message_ok [OF p that]]) (use taken_nothing [OF that] in simp)
    then show ?thesis by blast
  qed
  then show ?thesis using Some m12 by (simp add: on_tick_def)
qed

theorem switching_never_panics_witness:
  "\<exists>(m :: u64 machine) i m'. on_stack_of m = Some i \<and> end_current (\<lambda>sp. sp) m = Inr m'"
proof -
  obtain m :: "u64 machine" and i where m: "on_stack_of m = Some i" "reachable (\<lambda>sp. sp) m" using sample_runs by blast
  from switching_never_panics [OF m(2)] m(1) show ?thesis by (intro exI [of _ m]) auto
qed

text \<open>
  C17. Nobody sleeps through a message: in every state the machine can reach a process that waits has an
  empty mailbox, so a message sent to it is never refused as one too many, and a message that is
  accepted wakes it with exactly that message in its mailbox.
\<close>

theorem no_lost_wakeup:
  assumes "reachable root m" "slot_at (sched m) i = Some sl" "sl_state sl = Blocked"
  shows "content (sl_mailbox sl) = None \<and> fst (deliver_to i from message (sched m)) \<noteq> Inl SendBusy \<and>
    (\<forall>d s. deliver_to i from message (sched m) = (Inr d, s) \<longrightarrow>
       (\<exists>sl'. slot_at s i = Some sl' \<and> sl_state sl' = Runnable \<and> content (sl_mailbox sl') = Some (from, message)))"
proof -
  have ok: "slot_ok sl" using reachable_ok [OF assms(1)] assms(2)
    by (auto simp: machine_ok_def in_process_def in_kernel_def table_ok_def)
  then have e: "is_empty (sl_mailbox sl)" "mailbox_ok (sl_mailbox sl)" using assms(3) by (simp_all add: slot_ok_def)
  have i: "i < length (slots (sched m))" by (rule slot_at_Some [OF assms(2)])
  have busy: "fst (deliver from message (sl_mailbox sl)) \<noteq> Inl Busy"
    using e(1) by (simp add: deliver_def is_empty_def Let_def)
  then have "fst (deliver_to i from message (sched m)) \<noteq> Inl SendBusy"
    using assms(2,3) by (auto simp: deliver_to_def split: prod.splits sum.splits deliver_error.splits)
  moreover have "\<exists>sl'. slot_at s i = Some sl' \<and> sl_state sl' = Runnable \<and> content (sl_mailbox sl') = Some (from, message)"
    if dt: "deliver_to i from message (sched m) = (Inr d, s)" for d s
  proof -
    obtain r mb0 where dl: "deliver from message (sl_mailbox sl) = (r, mb0)" by fastforce
    then obtain mb where mb: "deliver from message (sl_mailbox sl) = (Inr d, mb)"
        "s = snd (unblock i (set_slot i (sl\<lparr>sl_mailbox := mb\<rparr>) (sched m)))"
      using dt assms(2,3) by (cases r) (auto simp: deliver_to_def split: deliver_error.splits)
    have "content mb = Some (from, message)" using mailbox_put_law [OF e(2) mb(1)] by simp
    then show ?thesis using mb(2) i assms(3) by (simp add: unblock_def move_to_def woken_def)
  qed
  moreover have "content (sl_mailbox sl) = None" using e(1) by (simp add: content_def is_empty_def)
  ultimately show ?thesis by blast
qed

text \<open>Whoever waits while somebody else can run is parked.\<close>

lemma wait_blocks:
  assumes "in_process root m" "slot_at (sched m) (current (sched m)) = Some sl" "next_after (sched m) (current (sched m)) = Some j"
    "j \<noteq> current (sched m)" "wait_for_message root m = Inr (b, m')"
  shows "\<exists>sl'. slot_at (sched m') (current (sched m)) = Some sl' \<and> sl_state sl' = Blocked"
proof -
  let ?c = "current (sched m)"
  have c: "?c < length (slots (sched m))" by (rule slot_at_Some [OF assms(2)])
  have st: "sl_state sl = Runnable" using assms(1,2) by (auto simp: in_process_def)
  have "switch_to root Waited ?c j (m\<lparr>sched := set_slot ?c (sl\<lparr>sl_state := Blocked\<rparr>) (sched m)\<rparr>) = Inr m'"
    using assms(2-5) st
    by (auto simp: wait_for_message_def Let_def block_def move_to_def waiting_def can_run_def and_then_Inr_iff)
  then show ?thesis using c assms(4)
    by (auto simp: switch_to_def Let_def prepare_cpu_for_def resume_process_def run_first_def
        split: option.splits resume.splits if_splits)
qed

lemma sample_waits: "\<exists>(m :: u64 machine) i sl. reachable (\<lambda>sp. sp) m \<and> slot_at (sched m) i = Some sl \<and> sl_state sl = Blocked"
proof -
  let ?r = "\<lambda>sp :: u64. sp"
  let ?new = "\<lparr>sl_process = sample_process, sl_state = New, kernel_rsp = FirstRun,
     kernel_stack_top = stack_top (kernel_stack sample_process), sl_mailbox = mailbox_new\<rparr>"
  define m1 where "m1 = sample_machine\<lparr>sched := snd (add_process sample_process (sched sample_machine))\<rparr>"
  have "step ?r sample_machine m1" unfolding m1_def
    by (rule step.spawned [where p = sample_process and r = "fst (add_process sample_process (sched sample_machine))"])
       (simp_all add: sample_machine_def boot_machine_def sample_process_def)
  then have r1: "reachable ?r m1" by (rule reachable.more [OF sample_machine_reachable])
  have s1: "slots (sched m1) = Some ?new # Some ?new # replicate 14 None"
    by (simp add: m1_def sample_machine_def add_process_def scheduler_add_def scheduler_new_def MAX_PROCESSES_def
        set_slot_def numeral_eq_Suc)
  have k1: "in_kernel m1" using machine_ok_kernel [OF reachable_ok [OF r1]]
    by (simp add: m1_def sample_machine_def boot_machine_def)
  have new: "slot_at (sched m1) i = Some ?new \<longleftrightarrow> i < 2" for i
    by (auto simp: slot_at_def s1 nth_Cons split: nat.splits)
  have some: "slot_at (sched m1) i = Some sl \<Longrightarrow> sl = ?new \<and> i < 2" for i sl
    by (auto simp: slot_at_def s1 nth_Cons split: nat.splits if_splits)
  have l1: "length (slots (sched m1)) = 16" by (simp add: s1)
  obtain j where j: "next_after (sched m1) (MAX_PROCESSES - 1) = Some j"
    using next_after_None [of "sched m1" "MAX_PROCESSES - 1" 0 ?new] new [of 0] l1
    by (cases "next_after (sched m1) (MAX_PROCESSES - 1)") (auto simp: can_run_def MAX_PROCESSES_def)
  then have j2: "slot_at (sched m1) j = Some ?new" using next_after_Some [OF j] some l1 by (auto simp: MAX_PROCESSES_def)
  obtain m2 where m2: "run_until_empty ?r 3 m1 = Inr m2" "in_process ?r m2"
    using run_until_empty_ok [OF k1, of ?r 3] j by auto
  have "on_stack_of m1 = None" using k1 by (simp add: in_kernel_def)
  then have r2: "reachable ?r m2" using step.handed m2(1) reachable.more [OF r1] by blast
  have s2: "sched m2 = set_slot j (?new\<lparr>sl_state := Runnable\<rparr>) ((sched m1)\<lparr>current := j, handed_over := True, switching := False\<rparr>)"
    using m2(1) j j2 by (auto simp: run_until_empty_def Let_def prepare_cpu_for_def resume_process_def run_first_def)
  have jl: "j < 16" using slot_at_Some [OF j2] l1 by simp
  have c2: "current (sched m2) = j" "slot_at (sched m2) j = Some (?new\<lparr>sl_state := Runnable\<rparr>)" using s2 jl l1 by simp_all
  have "1 - j \<noteq> j" using some [OF j2] by presburger
  then have other: "slot_at (sched m2) (1 - j) = Some ?new" using s2 new [of "1 - j"] by simp
  obtain n where n: "next_after (sched m2) j = Some n"
    using next_after_None [OF _ _ c2(2)] s2 jl l1 by (cases "next_after (sched m2) j") (auto simp: can_run_def)
  have "n \<noteq> j"
  proof
    assume "n = j"
    then have "distance 16 j j \<le> distance 16 j (1 - j)"
      using next_after_nearest [OF n _ other] s2 jl l1 by (simp add: can_run_def)
    then show False using some [OF j2] by (auto simp: distance_def split: if_splits)
  qed
  moreover have tm: "take_message [] (sched m2) = (Inl Nothing, [], set_slot j (?new\<lparr>sl_state := Runnable\<rparr>) (sched m2))"
    using c2 by (simp add: take_message_def take_into_def mailbox_new_def)
  moreover have "m2\<lparr>sched := set_slot j (?new\<lparr>sl_state := Runnable\<rparr>) (sched m2)\<rparr> = m2" using s2 by simp
  ultimately obtain b m3 where m3: "wait_for_message ?r m2 = Inr (b, m3)" "step ?r m2 m3"
    using wait_for_message_ok [OF m2(2)] c2 step.waited [of m2 j "[]" "[]"] m2(2)
    by (auto simp: mailbox_new_def is_empty_def in_process_def)
  have "\<exists>sl'. slot_at (sched m3) (current (sched m2)) = Some sl' \<and> sl_state sl' = Blocked"
    by (rule wait_blocks [OF m2(2) _ _ _ m3(1)]) (use c2 n \<open>n \<noteq> j\<close> in auto)
  then show ?thesis using reachable.more [OF r2 m3(2)] by blast
qed

theorem no_lost_wakeup_witness:
  "\<exists>(m :: u64 machine) i sl. slot_at (sched m) i = Some sl \<and> sl_state sl = Blocked \<and> content (sl_mailbox sl) = None"
proof -
  obtain m :: "u64 machine" and i sl where m: "reachable (\<lambda>sp. sp) m" "slot_at (sched m) i = Some sl" "sl_state sl = Blocked"
    using sample_waits by blast
  from no_lost_wakeup [OF m] m show ?thesis by blast
qed



text \<open>
  A file counts as open only while a process that is alive holds it: in every state the machine can
  reach, whoever has a name open has not ended, so a process that faulted or left never keeps a file
  unwritable.
\<close>

theorem open_means_alive:
  assumes "reachable root m" "anyone_has_open (sched m) name"
  shows "\<exists>i sl. slot_at (sched m) i = Some sl \<and> sl_state sl \<noteq> Dead \<and> has_open (sl_process sl) name"
proof -
  obtain sl where sl: "Some sl \<in> set (slots (sched m))" "has_open (sl_process sl) name"
    using assms(2) by (auto simp: anyone_has_open_def)
  then obtain i where "i < length (slots (sched m))" "slots (sched m) ! i = Some sl" by (auto simp: in_set_conv_nth)
  then have i: "slot_at (sched m) i = Some sl" by (simp add: slot_at_def)
  then have "slot_ok sl" using reachable_ok [OF assms(1)]
    by (auto simp: machine_ok_def in_process_def in_kernel_def table_ok_def)
  then have "sl_state sl \<noteq> Dead" using sl(2) by (auto simp: slot_ok_def has_open_def holds_def)
  then show ?thesis using i sl(2) by blast
qed

theorem open_means_alive_witness:
  "\<exists>(m :: u64 machine) i sl. slot_at (sched m) i = Some sl \<and> sl_state sl \<noteq> Dead \<and> has_open (sl_process sl) [65]"
proof -
  obtain m :: "u64 machine" and i where m: "on_stack_of m = Some i" "reachable (\<lambda>sp. sp) m" using sample_runs by blast
  let ?f = "\<lambda>p :: u64 process. (0 :: nat, p\<lparr>open_table := [Some sample_open, None, None, None]\<rparr>)"
  obtain r s where rs: "with_running ?f (sched m) = (r, s)" by fastforce
  have "changes_open_table ?f" unfolding changes_open_table_def
    by (intro allI impI exI [of _ "[Some sample_open, None, None, None]"]) (simp add: MAX_OPEN_def)
  then have re: "reachable (\<lambda>sp. sp) (m\<lparr>sched := s\<rparr>)"
    using reachable.more [OF m(2) step.filed [OF m(1) _ rs]] by blast
  have p: "in_process (\<lambda>sp. sp) m" using machine_ok_process [OF reachable_ok [OF m(2)] m(1)] by blast
  obtain sl where sl: "slot_at (sched m) (current (sched m)) = Some sl" "sl_state sl = Runnable" using p by (rule in_process_slot)
  have s: "s = set_slot (current (sched m)) (sl\<lparr>sl_process := snd (?f (sl_process sl))\<rparr>) (sched m)"
    using rs p sl by (simp add: with_running_def running_slot_def in_process_def)
  have "anyone_has_open s [65]" unfolding anyone_has_open_def
  proof (intro exI conjI)
    show "Some (sl\<lparr>sl_process := snd (?f (sl_process sl))\<rparr>) \<in> set (slots s)"
      using s slot_at_Some [OF sl(1)] by (simp add: set_slot_def set_update_memI)
    show "has_open (sl_process (sl\<lparr>sl_process := snd (?f (sl_process sl))\<rparr>)) [65]"
      by (simp add: has_open_def holds_def sample_open_def is_named_def entry_name_def str_or_empty_def utf8_valid.simps
          eq_ignore_ascii_case_def)
  qed
  then show ?thesis using open_means_alive [OF re, of "[65]"] by (intro exI [of _ "m\<lparr>sched := s\<rparr>"]) simp
qed

end
