(* ===== verification/Fs.thy ===== *)
theory Fs
  imports Fat_Properties Scheduler_Safe
begin

text \<open>
  The disk where a syscall can reach it (\<^verbatim>\<open>kernel/src/fs.rs\<close>): the mounted volume, the adapter that
  stops every write to a disk this kernel did not make, and the file operations. The device and its
  reader are a state of any type with the two operations of a \<open>Sectors\<close>; the lock makes each operation
  one step. Whether a name is open is asked of the scheduler.
\<close>

section \<open>The mounted disk\<close>

datatype read_error =
    ReadOutOfMemory
  | QueueTooBig u16
  | QueueTooSmall u16
  | SizeRefused u16 u16
  | NoAnswer
  | WrongChain u16
  | Failed u8
  | ShortRead u32
  | NotOurDisk

definition OUR_SERIAL :: u32 where "OUR_SERIAL = 0x4841524C"
definition OUR_LABEL :: bytes where "OUR_LABEL = ascii ''HARLAN''"

record 'd mounted =
  mt_disk :: 'd
  mt_boot :: boot_sector
  mt_ours :: bool

definition fs_sectors :: "('d, read_error) sectors \<Rightarrow> ('d mounted, read_error) sectors" where
  "fs_sectors D = \<lparr>
     read_sector = (\<lambda>n m. case read_sector D n (mt_disk m) of (r, d) \<Rightarrow> (r, m\<lparr>mt_disk := d\<rparr>)),
     write_sector = (\<lambda>n bs m.
       if \<not> mt_ours m then (Inl NotOurDisk, m)
       else case write_sector D n bs (mt_disk m) of (r, d) \<Rightarrow> (r, m\<lparr>mt_disk := d\<rparr>))\<rparr>"

datatype file_error =
    FileNoDisk
  | FileBadName
  | NoSuchFile
  | FileIsADirectory
  | FileOpen
  | FileNotOurDisk
  | FileReading "read_error volume_error"
  | FileWriting "read_error write_error"

definition is_ours :: "boot_sector \<Rightarrow> bool" where
  "is_ours b = (case volume_id_of b of
     Some v \<Rightarrow> vid_serial v = OUR_SERIAL \<and> Fat_Format.label v = OUR_LABEL
   | None \<Rightarrow> False)"

definition adopt_disk :: "'d \<Rightarrow> boot_sector \<Rightarrow> 'd mounted option \<Rightarrow> bool \<times> 'd mounted option" where
  "adopt_disk d b _ = (is_ours b, Some \<lparr>mt_disk = d, mt_boot = b, mt_ours = is_ours b\<rparr>)"

definition fs_writable :: "'d mounted option \<Rightarrow> bool" where
  "fs_writable disk = (case disk of Some m \<Rightarrow> mt_ours m | None \<Rightarrow> False)"

definition fs_mounted :: "'d mounted option \<Rightarrow> bool" where
  "fs_mounted disk \<longleftrightarrow> disk \<noteq> None"

text \<open>\<open>with\<close>: the operation over the volume that is mounted, which it leaves mounted.\<close>

definition with_volume :: "(boot_sector \<Rightarrow> 'd mounted \<Rightarrow> 'r \<times> 'd mounted) \<Rightarrow> ('d mounted option, file_error, 'r) io" where
  "with_volume operation disk =
     (case disk of None \<Rightarrow> (Inl FileNoDisk, None)
      | Some m \<Rightarrow> (case operation (mt_boot m) m of (r, m') \<Rightarrow> (Inr r, Some m')))"

section \<open>Files\<close>

definition fs_find :: "('d, read_error) sectors \<Rightarrow> bytes \<Rightarrow> ('d mounted option, file_error, directory_entry) io" where
  "fs_find D name =
     (if encode_name name = None then io_fail FileBadName
      else io_bind (with_volume (\<lambda>b. volume_find (fs_sectors D) b name)) (\<lambda>r.
        case r of
          Inr (Some e) \<Rightarrow> if is_directory e then io_fail FileIsADirectory else io_ret e
        | Inr None \<Rightarrow> io_fail NoSuchFile
        | Inl err \<Rightarrow> io_fail (FileReading err)))"

definition fs_read_at :: "('d, read_error) sectors \<Rightarrow> directory_entry \<Rightarrow> u32 \<Rightarrow> bytes \<Rightarrow>
    ('d mounted option, file_error, usize \<times> bytes) io" where
  "fs_read_at D e offset into =
     io_bind (with_volume (\<lambda>b. read_at (fs_sectors D) b e offset into)) (\<lambda>r. io_lift (map_err FileReading r))"

text \<open>A write asks the scheduler who has the name open, and is recorded in the event log.\<close>

definition fs_write_file :: "('d, read_error) sectors \<Rightarrow> (bytes \<Rightarrow> bool) \<Rightarrow> u64 \<Rightarrow> bytes \<Rightarrow> bytes \<Rightarrow>
    ring \<Rightarrow> 'd mounted option \<Rightarrow> ring \<times> (file_error + directory_entry) \<times> 'd mounted option" where
  "fs_write_file D is_open ticks name contents log disk =
     (if \<not> fs_writable disk then (log, Inl FileNotOurDisk, disk)
      else if encode_name name = None then (log, Inl FileBadName, disk)
      else if is_open name then (log, Inl FileOpen, disk)
      else case with_volume (\<lambda>b. write_file (fs_sectors D) b name contents) disk of
          (Inl err, disk') \<Rightarrow> (log, Inl err, disk')
        | (Inr (Inr e), disk') \<Rightarrow> (record_with ticks Wrote (ucast (de_size e)) (entry_name e) log, Inr e, disk')
        | (Inr (Inl IsADirectory), disk') \<Rightarrow> (log, Inl FileIsADirectory, disk')
        | (Inr (Inl err), disk') \<Rightarrow> (log, Inl (FileWriting err), disk'))"

definition fs_read_file :: "('d, read_error) sectors \<Rightarrow> directory_entry \<Rightarrow> bytes \<Rightarrow>
    ('d mounted option, file_error, usize \<times> bytes) io" where
  "fs_read_file D e into =
     io_bind (with_volume (\<lambda>b. read_file (fs_sectors D) b e into)) (\<lambda>r. io_lift (map_err FileReading r))"

definition fs_read_sector :: "('d, read_error) sectors \<Rightarrow> u32 \<Rightarrow> ('d mounted option, file_error, bytes) io" where
  "fs_read_sector D sector =
     io_bind (with_volume (\<lambda>b. read_sector (fs_sectors D) sector)) (\<lambda>r. io_lift (map_err (\<lambda>e. FileReading (VDevice e)) r))"

definition fs_boot_sector :: "'d mounted option \<Rightarrow> boot_sector option" where
  "fs_boot_sector disk = map_option mt_boot disk"

definition fs_each_name :: "('d, read_error) sectors \<Rightarrow> ('c \<Rightarrow> directory_entry \<Rightarrow> bool \<times> 'c) \<Rightarrow> 'c \<Rightarrow>
    ('d mounted option, file_error, 'c) io" where
  "fs_each_name D each acc =
     io_bind (with_volume (\<lambda>b. read_root (fs_sectors D) b each acc)) (\<lambda>r. io_lift (map_err FileReading r))"

definition fs_entry_at :: "('d, read_error) sectors \<Rightarrow> usize \<Rightarrow> ('d mounted option, file_error, directory_entry) io" where
  "fs_entry_at D index =
     io_bind (with_volume (\<lambda>b. read_root (fs_sectors D) b
         (\<lambda>(at, found) e. if at = index then (False, at, Some e) else (True, at + 1, found)) (0, None))) (\<lambda>r.
       io_bind (io_lift (map_err FileReading r)) (\<lambda>(at, found). io_lift (ok_or NoSuchFile found)))"

section \<open>The adapter is a device\<close>

text \<open>What is known of a mounted volume while its operations run: only the disk under it changes.\<close>

definition mounted_as :: "('d \<Rightarrow> bool) \<Rightarrow> boot_sector \<Rightarrow> bool \<Rightarrow> 'd mounted \<Rightarrow> bool" where
  "mounted_as ok b ours m \<longleftrightarrow> ok (mt_disk m) \<and> mt_boot m = b \<and> mt_ours m = ours"

lemma fs_medium:
  assumes "medium D ok img"
  shows "medium (fs_sectors D) (mounted_as ok b ours) (\<lambda>m. img (mt_disk m))"
proof
  fix m n r m' assume m: "mounted_as ok b ours m" "read_sector (fs_sectors D) n m = (r, m')"
  then obtain d where d: "read_sector D n (mt_disk m) = (r, d)" "m' = m\<lparr>mt_disk := d\<rparr>"
    by (auto simp: fs_sectors_def split: prod.splits)
  then show "mounted_as ok b ours m' \<and> img (mt_disk m') = img (mt_disk m) \<and> (\<forall>bs. r = Inr bs \<longrightarrow> bs = img (mt_disk m) n)"
    using medium.read_law [OF assms _ d(1)] m(1) by (auto simp: mounted_as_def)
next
  fix m n bs q m'
  assume m: "mounted_as ok b ours m" "write_sector (fs_sectors D) n bs m = (q, m')" "length bs = 512"
  show "mounted_as ok b ours m' \<and>
    (img (mt_disk m') = (img (mt_disk m))(n := bs) \<or> (\<exists>e. q = Inl e) \<and> img (mt_disk m') = img (mt_disk m))"
  proof (cases ours)
    case True
    then obtain d where d: "write_sector D n bs (mt_disk m) = (q, d)" "m' = m\<lparr>mt_disk := d\<rparr>"
      using m by (auto simp: fs_sectors_def mounted_as_def split: prod.splits)
    have "ok (mt_disk m)" using m(1) by (simp add: mounted_as_def)
    from medium.write_law [OF assms this d(1) m(3)] show ?thesis using m(1) d(2) by (auto simp: mounted_as_def)
  qed (use m in \<open>auto simp: fs_sectors_def mounted_as_def\<close>)
next
  fix m assume "mounted_as ok b ours m"
  then show "image_ok (img (mt_disk m))" using medium.img_ok [OF assms] by (simp add: mounted_as_def)
qed

lemma fs_write_cases:
  assumes "fs_write_file D is_open ticks name contents log (Some m) = (log', r, disk')"
  obtains (refused) e where "disk' = Some m" "r = Inl e"
    | (tried) r' m' where "\<not> is_open name" "mt_ours m" "write_file (fs_sectors D) (mt_boot m) name contents m = (r', m')"
      "disk' = Some m'"
proof (cases "\<not> mt_ours m \<or> encode_name name = None \<or> is_open name")
  case True
  then show ?thesis using assms refused by (auto simp: fs_write_file_def fs_writable_def split: if_splits)
next
  case False
  obtain r' m' where w: "write_file (fs_sectors D) (mt_boot m) name contents m = (r', m')" by fastforce
  have "disk' = Some m'" using assms False w
    by (auto simp: fs_write_file_def fs_writable_def with_volume_def split: sum.splits write_error.splits if_splits)
  then show ?thesis using tried w False by blast
qed

section \<open>Properties\<close>


definition sample_mounted :: "image mounted" where
  "sample_mounted = \<lparr>mt_disk = sample_image, mt_boot = sample_boot, mt_ours = True\<rparr>"

definition sample_reader :: "u64 slot" where
  "sample_reader = \<lparr>sl_process = sample_process\<lparr>open_table := [Some \<lparr>of_entry = sample_file, of_position = 0\<rparr>]\<rparr>,
     sl_state = Runnable, kernel_rsp = FirstRun, kernel_stack_top = VirtAddr 0, sl_mailbox = mailbox_new\<rparr>"


text \<open>Every file operation of the kernel, as the disk sees it.\<close>

datatype fs_op = Find bytes | ReadAt directory_entry u32 bytes | ReadFile directory_entry bytes | ReadSector u32
  | EntryAt usize | WriteFile bytes bytes

fun fs_do :: "('d, read_error) sectors \<Rightarrow> (bytes \<Rightarrow> bool) \<Rightarrow> fs_op \<Rightarrow> 'd mounted option \<Rightarrow> 'd mounted option" where
  "fs_do D is_open (Find name) disk = snd (fs_find D name disk)"
| "fs_do D is_open (ReadAt e offset into) disk = snd (fs_read_at D e offset into disk)"
| "fs_do D is_open (ReadFile e into) disk = snd (fs_read_file D e into disk)"
| "fs_do D is_open (ReadSector n) disk = snd (fs_read_sector D n disk)"
| "fs_do D is_open (EntryAt n) disk = snd (fs_entry_at D n disk)"
| "fs_do D is_open (WriteFile name contents) disk = snd (snd (fs_write_file D is_open 0 name contents ring_new disk))"

text \<open>An operation that keeps the image of a medium keeps that of a mounted volume.\<close>

definition kept :: "('d \<Rightarrow> bool) \<Rightarrow> ('d \<Rightarrow> image) \<Rightarrow> boot_sector \<Rightarrow> bool \<Rightarrow> image \<Rightarrow> 'd mounted option \<Rightarrow> bool" where
  "kept ok img b ours i disk \<longleftrightarrow> (\<exists>m. disk = Some m \<and> mounted_as ok b ours m \<and> img (mt_disk m) = i)"

lemma io_bind_snd:
  assumes "Q (snd (m s))" "\<And>x t. Q t \<Longrightarrow> Q (snd (f x t))"
  shows "Q (snd (io_bind m f s))"
  using assms by (cases "m s" rule: prod.exhaust) (auto simp: io_bind_def split: sum.splits)

lemma io_lift_snd [simp]: "snd (io_lift r s) = s"
  by (simp add: io_lift_def split: sum.splits)

lemma io_bind_snd_same: "snd (m s) = s \<Longrightarrow> (\<And>x t. snd (f x t) = t) \<Longrightarrow> snd (io_bind m f s) = s"
  using io_bind_snd [of "\<lambda>t. t = s" m s f] by simp

lemma with_volume_keeps:
  fixes D :: "('d, read_error) sectors"
  assumes "medium D ok img" "kept ok img b ours i (Some m)"
    "\<And>P. medium.triple (mounted_as ok b ours) (\<lambda>m. img (mt_disk m)) P (f b) (\<lambda>_. P) P"
  shows "kept ok img b ours i (snd (with_volume f (Some m)))"
proof -
  have m: "mt_boot m = b" "mounted_as ok b ours m" "img (mt_disk m) = i" using assms(2) by (auto simp: kept_def mounted_as_def)
  obtain x m' where x: "f b m = (x, m')" by fastforce
  have "mounted_as ok b ours m' \<and> img (mt_disk m') = i"
    using assms(3) [of "\<lambda>j. j = i", unfolded medium.triple_def [OF fs_medium [OF assms(1)]], rule_format, OF m(2) _ x] m(3)
    by (simp split: sum.splits)
  then show ?thesis using x m(1) by (auto simp: with_volume_def kept_def)
qed

lemma foreign_op:
  assumes "medium D ok img" "kept ok img b False i disk"
  shows "kept ok img b False i (fs_do D is_open opn disk)"
proof -
  note med = fs_medium [OF assms(1), of b False]
  obtain m where m: "disk = Some m" "mounted_as ok b False m" using assms(2) by (auto simp: kept_def)
  note keep = with_volume_keeps [OF assms(1) assms(2) [unfolded m(1)]]
  show ?thesis
  proof (cases opn)
    case (Find name)
    have "kept ok img b False i (snd (io_bind (with_volume (\<lambda>b. volume_find (fs_sectors D) b name)) g (Some m)))"
      if "\<And>x t. snd (g x t) = t" for g :: "_ \<Rightarrow> (_, file_error, directory_entry) io"
      unfolding volume_find_def
      by (rule io_bind_snd, rule keep, rule medium.triple_read_root [OF med]) (simp add: that)
    then show ?thesis
      using assms(2) by (simp add: Find fs_find_def m(1) split: sum.splits option.splits)
  next
    case (ReadAt e offset into)
    show ?thesis
      unfolding ReadAt fs_do.simps fs_read_at_def m(1)
      by (rule io_bind_snd, rule keep, rule medium.triple_read_at [OF med]) simp
  next
    case (ReadFile e into)
    show ?thesis
      unfolding ReadFile fs_do.simps fs_read_file_def m(1)
      by (rule io_bind_snd, rule keep, rule medium.triple_read_file [OF med]) simp
  next
    case (ReadSector n)
    show ?thesis
      unfolding ReadSector fs_do.simps fs_read_sector_def m(1)
      by (rule io_bind_snd, rule keep, rule medium.triple_read_sector [OF med]) simp
  next
    case (EntryAt n)
    show ?thesis
      unfolding EntryAt fs_do.simps fs_entry_at_def m(1)
      by (rule io_bind_snd, rule keep, rule medium.triple_read_root [OF med]) (simp add: io_bind_snd_same split: prod.splits)
  next
    case (WriteFile name contents)
    then show ?thesis using assms(2) m by (simp add: fs_write_file_def fs_writable_def mounted_as_def)
  qed
qed

text \<open>
  C20. A disk this kernel did not make is never written: mounted, a volume that does not carry our serial
  and label keeps every sector through any sequence of file operations, whatever they answer, and stays
  recognised as foreign; on every device that follows the interface.
\<close>

theorem foreign_disk_untouched:
  assumes "medium D ok img" "ok d" "\<not> is_ours b"
  shows "\<exists>m. fold (fs_do D is_open) ops (snd (adopt_disk d b old)) = Some m \<and> img (mt_disk m) = img d \<and> \<not> mt_ours m"
proof -
  have "kept ok img b False (img d) disk \<Longrightarrow> kept ok img b False (img d) (fold (fs_do D is_open) ops disk)" for disk
    by (induction ops arbitrary: disk) (simp_all add: foreign_op [OF assms(1)])
  moreover have "kept ok img b False (img d) (snd (adopt_disk d b old))"
    using assms(2,3) by (simp add: kept_def adopt_disk_def mounted_as_def)
  ultimately show ?thesis by (fastforce simp: kept_def mounted_as_def)
qed

theorem foreign_disk_untouched_witness:
  "\<exists>m. fold (fs_do image_sectors (\<lambda>_. False)) [WriteFile [65] [1], Find [65], EntryAt 0]
       (snd (adopt_disk sample_image sample_boot None)) = Some m \<and> mt_disk m = sample_image \<and> \<not> mt_ours m"
proof -
  have "\<not> is_ours sample_boot" by (simp add: is_ours_def sample_boot_def)
  from foreign_disk_untouched [OF plain.medium_axioms [where 'e = read_error], of sample_image, OF sample_image_ok this]
  show ?thesis by blast
qed

end
