(* ===== verification/Paging.thy ===== *)
theory Paging
  imports Frame_Allocator
begin

text \<open>
  Four-level page tables (\<^verbatim>\<open>arch/x86_64/src/paging.rs\<close>). The memory of the tables is a function from the
  physical address of a table and an index to the entry there, beside the window tables are reached
  through and the translations the CPU was told to drop. The allocator of frames is any state with the
  operation of the trait \<open>FrameAllocator\<close>. The loops over the 512 entries of a table are folds over
  their indices; the wrappers that read and load the control registers are not modelled.
\<close>

section \<open>Constants\<close>

definition KERNEL_SPACE_BASE :: u64 where "KERNEL_SPACE_BASE = 0xFFFF800000000000"
definition ENTRIES :: usize where "ENTRIES = 512"
definition PAGE :: u64 where "PAGE = 4096"
definition LARGE_PAGE :: u64 where "LARGE_PAGE = 0x200000"
definition GIB :: u64 where "GIB = 0x40000000"

definition PRESENT :: u64 where "PRESENT = 0x1"
definition WRITABLE :: u64 where "WRITABLE = 0x2"
definition USER :: u64 where "USER = 0x4"
definition WRITE_THROUGH :: u64 where "WRITE_THROUGH = 0x8"
definition CACHE_DISABLE :: u64 where "CACHE_DISABLE = 0x10"
definition HUGE :: u64 where "HUGE = 0x80"
definition NO_EXECUTE :: u64 where "NO_EXECUTE = 0x8000000000000000"
definition ADDRESS_MASK :: u64 where "ADDRESS_MASK = 0x000FFFFFFFFFF000"

lemmas paging_bits = PRESENT_def WRITABLE_def USER_def WRITE_THROUGH_def CACHE_DISABLE_def HUGE_def NO_EXECUTE_def ADDRESS_MASK_def

definition table_indices :: "u64 \<Rightarrow> usize list" where
  "table_indices va = map (\<lambda>shift. unat (drop_bit shift va AND 0x1FF)) [39, 30, 21, 12]"

definition is_canonical :: "u64 \<Rightarrow> bool" where
  "is_canonical va \<longleftrightarrow> drop_bit 47 va = 0 \<or> drop_bit 47 va = 0x1FFFF"

datatype paging_error =
    FiveLevelPaging
  | PcidEnabled
  | NoExecuteDisabled
  | NotIdentityMapped
  | KernelSpaceInUse
  | PagingOutOfFrames
  | PagingTableFrameNotWritable
  | BadIdentityLimit
  | RequiredRangeOutsideIdentityMap
  | WindowOutsideKernelSpace
  | WindowSlotTaken

record identity_map_stats =
  st_tables :: nat
  st_limit :: u64
  st_executable_pages :: nat
  st_read_only_pages :: nat

fun cache_bits :: "cache_policy \<Rightarrow> u64" where
  "cache_bits WriteBack = 0"
| "cache_bits Unspecified = 0"
| "cache_bits WriteThrough = WRITE_THROUGH"
| "cache_bits WriteCombining = CACHE_DISABLE OR WRITE_THROUGH"
| "cache_bits Uncacheable = CACHE_DISABLE OR WRITE_THROUGH"

section \<open>The memory of the tables\<close>

datatype flush = FlushPage u64 | FlushAll

record table_memory =
  entries :: "u64 \<Rightarrow> usize \<Rightarrow> u64"
  flushed :: "flush list"
  table_window :: u64

definition pt_write :: "u64 \<Rightarrow> usize \<Rightarrow> u64 \<Rightarrow> table_memory \<Rightarrow> table_memory" where
  "pt_write table index value m = m\<lparr>entries := (entries m)(table := (entries m table)(index := value))\<rparr>"

definition pt_flush :: "flush \<Rightarrow> table_memory \<Rightarrow> table_memory" where
  "pt_flush x m = m\<lparr>flushed := flushed m @ [x]\<rparr>"

text \<open>The state of an operation that may take frames: the tables and the allocator.\<close>

type_synonym 'f tables_io = "table_memory \<times> 'f"

definition io_write :: "u64 \<Rightarrow> usize \<Rightarrow> u64 \<Rightarrow> ('f tables_io, 'e, unit) io" where
  "io_write table index value = (\<lambda>(m, fs). (Inr (), pt_write table index value m, fs))"

definition io_flush :: "flush \<Rightarrow> ('f tables_io, 'e, unit) io" where
  "io_flush x = (\<lambda>(m, fs). (Inr (), pt_flush x m, fs))"

definition io_read :: "u64 \<Rightarrow> usize \<Rightarrow> ('f tables_io, 'e, u64) io" where
  "io_read table index = (\<lambda>(m, fs). (Inr (entries m table index), m, fs))"

fun io_each :: "('a \<Rightarrow> ('s, 'e, unit) io) \<Rightarrow> 'a list \<Rightarrow> ('s, 'e, unit) io" where
  "io_each f [] = io_ret ()"
| "io_each f (x # xs) = io_bind (f x) (\<lambda>_. io_each f xs)"

fun io_fold :: "('a \<Rightarrow> 'b \<Rightarrow> ('s, 'e, 'b) io) \<Rightarrow> 'a list \<Rightarrow> 'b \<Rightarrow> ('s, 'e, 'b) io" where
  "io_fold f [] acc = io_ret acc"
| "io_fold f (x # xs) acc = io_bind (f x acc) (io_fold f xs)"

section \<open>Translation\<close>

record translation =
  tr_phys :: u64
  tr_writable :: bool
  tr_page_size :: u64

text \<open>The loop of \<open>translate\<close>, from a level on.\<close>

fun translate_from :: "table_memory \<Rightarrow> u64 \<Rightarrow> nat \<Rightarrow> u64 \<Rightarrow> bool \<Rightarrow> usize list \<Rightarrow> translation option" where
  "translate_from m va level table can_write [] = None"
| "translate_from m va level table can_write (index # indices) =
     (let e = entries m table index in
      if e AND PRESENT = 0 \<or> (level = 0 \<and> e AND HUGE \<noteq> 0) then None
      else let can_write = (can_write \<and> e AND WRITABLE \<noteq> 0) in
        if level = 3 \<or> e AND HUGE \<noteq> 0
        then let size = push_bit (39 - 9 * level) 1;
                 base = e AND ADDRESS_MASK AND NOT (size - 1)
             in Some \<lparr>tr_phys = base + (va AND (size - 1)), tr_writable = can_write, tr_page_size = size\<rparr>
        else translate_from m va (level + 1) (e AND ADDRESS_MASK) can_write indices)"

definition translate :: "table_memory \<Rightarrow> u64 \<Rightarrow> u64 \<Rightarrow> translation option" where
  "translate m root va =
     (if \<not> is_canonical va then None else translate_from m va 0 root True (table_indices va))"

section \<open>Mapping and unmapping\<close>

text \<open>A zeroed table in a fresh frame, which must be writable through the window.\<close>

definition new_table :: "('f \<Rightarrow> phys_frame option \<times> 'f) \<Rightarrow> u64 \<Rightarrow> ('f tables_io, map_error, u64) io" where
  "new_table alloc root = (\<lambda>(m, fs).
     case alloc fs of
       (None, fs') \<Rightarrow> (Inl OutOfFrames, m, fs')
     | (Some f, fs') \<Rightarrow>
         (let frame = p_u64 (start_address f) in
          case translate m root (table_window m + frame) of
            Some t \<Rightarrow>
              if tr_phys t = frame \<and> tr_writable t
              then (Inr frame, fold (\<lambda>index. pt_write frame index 0) [0..<ENTRIES] m, fs')
              else (Inl TableFrameNotWritable, m, fs')
          | None \<Rightarrow> (Inl TableFrameNotWritable, m, fs')))"

text \<open>The three upper levels of \<open>map\<close>: the table of the leaf, and whether a table was opened to ring 3.\<close>

fun map_walk :: "('f \<Rightarrow> phys_frame option \<times> 'f) \<Rightarrow> u64 \<Rightarrow> bool \<Rightarrow> u64 \<Rightarrow> bool \<Rightarrow> usize list \<Rightarrow>
    ('f tables_io, map_error, u64 \<times> bool) io" where
  "map_walk alloc root user table upgraded [] = io_ret (table, upgraded)"
| "map_walk alloc root user table upgraded (index # indices) =
     io_bind (io_read table index) (\<lambda>e.
       let reachable = (if user then PRESENT OR WRITABLE OR USER else PRESENT OR WRITABLE) in
       if e AND PRESENT = 0
       then io_bind (new_table alloc root) (\<lambda>new.
              io_bind (io_write table index (new OR reachable)) (\<lambda>_.
                map_walk alloc root user new upgraded indices))
       else if e AND HUGE \<noteq> 0 then io_fail MapHugePageInTheWay
       else if user \<and> e AND USER = 0
       then io_bind (io_write table index (e OR USER)) (\<lambda>_.
              map_walk alloc root user (e AND ADDRESS_MASK) True indices)
       else map_walk alloc root user (e AND ADDRESS_MASK) upgraded indices)"

definition leaf_entry :: "phys_frame \<Rightarrow> page_flags \<Rightarrow> u64" where
  "leaf_entry frame flags =
     (let leaf = p_u64 (start_address frame) OR PRESENT OR cache_bits (pf_cache flags);
          leaf = (if pf_writable flags then leaf OR WRITABLE else leaf);
          leaf = (if \<not> pf_executable flags then leaf OR NO_EXECUTE else leaf)
      in if pf_user flags then leaf OR USER else leaf)"

definition pt_map :: "('f \<Rightarrow> phys_frame option \<times> 'f) \<Rightarrow> u64 \<Rightarrow> u64 \<Rightarrow> phys_frame \<Rightarrow> page_flags \<Rightarrow>
    ('f tables_io, map_error, unit) io" where
  "pt_map alloc root page frame flags =
     (if pf_user flags \<noteq> (page < KERNEL_SPACE_BASE) then io_fail MapOutsideKernelSpace
      else let indices = table_indices page in
        io_bind (map_walk alloc root (pf_user flags) root False (take 3 indices)) (\<lambda>(table, upgraded).
          io_bind (io_read table (indices ! 3)) (\<lambda>e.
            if e AND PRESENT \<noteq> 0 then io_fail AlreadyMapped
            else io_bind (io_write table (indices ! 3) (leaf_entry frame flags)) (\<lambda>_.
              io_bind (io_flush (FlushPage page)) (\<lambda>_.
                if upgraded then io_flush FlushAll else io_ret ())))))"

fun unmap_walk :: "table_memory \<Rightarrow> u64 \<Rightarrow> usize list \<Rightarrow> unmap_error + u64" where
  "unmap_walk m table [] = Inr table"
| "unmap_walk m table (index # indices) =
     (let e = entries m table index in
      if e AND PRESENT = 0 then Inl NotMapped
      else if e AND HUGE \<noteq> 0 then Inl UnmapHugePageInTheWay
      else unmap_walk m (e AND ADDRESS_MASK) indices)"

definition pt_unmap :: "u64 \<Rightarrow> u64 \<Rightarrow> table_memory \<Rightarrow> (unmap_error + phys_frame) \<times> table_memory" where
  "pt_unmap root page m =
     (if page < KERNEL_SPACE_BASE then (Inl UnmapOutsideKernelSpace, m)
      else let indices = table_indices page in
        case unmap_walk m root (take 3 indices) of
          Inl e \<Rightarrow> (Inl e, m)
        | Inr table \<Rightarrow>
            (let leaf = entries m table (indices ! 3) in
             if leaf AND PRESENT = 0 then (Inl NotMapped, m)
             else (Inr (containing_address (PhysAddr (leaf AND ADDRESS_MASK))),
                   pt_flush (FlushPage page) (pt_write table (indices ! 3) 0 m))))"

section \<open>Whole spaces\<close>

definition KERNEL_SLOT :: usize where "KERNEL_SLOT = table_indices KERNEL_SPACE_BASE ! 0"

definition to_paging :: "map_error \<Rightarrow> paging_error" where
  "to_paging e = (if e = OutOfFrames then PagingOutOfFrames else PagingTableFrameNotWritable)"

definition copy_slots :: "u64 \<Rightarrow> u64 \<Rightarrow> usize list \<Rightarrow> table_memory \<Rightarrow> table_memory" where
  "copy_slots old_root new_root slots = fold (\<lambda>slot m. pt_write new_root slot (entries m old_root slot) m) slots"

text \<open>\<open>adopt\<close>: the answer is the new root.\<close>

definition pt_adopt :: "('f \<Rightarrow> phys_frame option \<times> 'f) \<Rightarrow> u64 \<Rightarrow> ('f tables_io, paging_error, u64) io" where
  "pt_adopt alloc old_root = (\<lambda>(m, fs).
     if \<exists>slot \<in> set [KERNEL_SLOT..<ENTRIES]. entries m old_root slot AND PRESENT \<noteq> 0 then (Inl KernelSpaceInUse, m, fs)
     else io_bind (io_map_err to_paging (new_table alloc old_root)) (\<lambda>new_root (m, fs).
       (Inr new_root, copy_slots old_root new_root [0..<ENTRIES] m, fs)) (m, fs))"

definition new_process_space :: "('f \<Rightarrow> phys_frame option \<times> 'f) \<Rightarrow> u64 \<Rightarrow> ('f tables_io, map_error, u64) io" where
  "new_process_space alloc root =
     io_bind (new_table alloc root) (\<lambda>new_root (m, fs).
       (Inr new_root, copy_slots root new_root [KERNEL_SLOT..<ENTRIES] m, fs))"

text \<open>
  \<open>free_lower_half\<close>: \<open>give_back\<close> takes a frame and says whether it came back; the state is that of the
  allocator behind it, and how many came back.
\<close>

definition hand_back :: "('g \<Rightarrow> phys_frame \<Rightarrow> bool \<times> 'g) \<Rightarrow> u64 \<Rightarrow> nat \<times> 'g \<Rightarrow> nat \<times> 'g" where
  "hand_back give_back addr = (\<lambda>(freed, g).
     case give_back g (containing_address (PhysAddr addr)) of (b, g') \<Rightarrow> (if b then freed + 1 else freed, g'))"

definition free_directory :: "('g \<Rightarrow> phys_frame \<Rightarrow> bool \<times> 'g) \<Rightarrow> table_memory \<Rightarrow> u64 \<Rightarrow> nat \<times> 'g \<Rightarrow> nat \<times> 'g" where
  "free_directory give_back m directory st =
     hand_back give_back directory (fold (\<lambda>index st.
       let e = entries m directory index in
       if e AND PRESENT = 0 \<or> e AND HUGE \<noteq> 0 then st else hand_back give_back (e AND ADDRESS_MASK) st) [0..<ENTRIES] st)"

definition free_pointers :: "('g \<Rightarrow> phys_frame \<Rightarrow> bool \<times> 'g) \<Rightarrow> table_memory \<Rightarrow> u64 \<Rightarrow> nat \<times> 'g \<Rightarrow> nat \<times> 'g" where
  "free_pointers give_back m pointers st =
     hand_back give_back pointers (fold (\<lambda>index st.
       let e = entries m pointers index in
       if e AND PRESENT = 0 \<or> e AND HUGE \<noteq> 0 then st else free_directory give_back m (e AND ADDRESS_MASK) st) [0..<ENTRIES] st)"

definition free_slot :: "('g \<Rightarrow> phys_frame \<Rightarrow> bool \<times> 'g) \<Rightarrow> u64 \<Rightarrow> usize \<Rightarrow> table_memory \<times> nat \<times> 'g \<Rightarrow> table_memory \<times> nat \<times> 'g" where
  "free_slot give_back root slot = (\<lambda>(m, st).
     let e = entries m root slot in
     if e AND PRESENT = 0 then (m, st)
     else (pt_write root slot 0 m, free_pointers give_back m (e AND ADDRESS_MASK) st))"

definition free_lower_half :: "('g \<Rightarrow> phys_frame \<Rightarrow> bool \<times> 'g) \<Rightarrow> u64 \<Rightarrow> table_memory \<Rightarrow> 'g \<Rightarrow> table_memory \<times> nat \<times> 'g" where
  "free_lower_half give_back root m g =
     (case fold (free_slot give_back root) [0..<KERNEL_SLOT] (m, 0, g) of
        (m', st) \<Rightarrow> (m', hand_back give_back root st))"

section \<open>The window and the identity map\<close>

definition map_physical_window :: "('f \<Rightarrow> phys_frame option \<times> 'f) \<Rightarrow> u64 \<Rightarrow> u64 \<Rightarrow> u64 \<Rightarrow> ('f tables_io, paging_error, nat) io" where
  "map_physical_window alloc root base lim =
     (if lim = 0 \<or> \<not> is_multiple_of lim GIB \<or> lim > 512 * GIB then io_fail BadIdentityLimit
      else if base < KERNEL_SPACE_BASE \<or> \<not> is_multiple_of base (512 * GIB) then io_fail WindowOutsideKernelSpace
      else let root_slot = table_indices base ! 0 in
        io_bind (io_read root root_slot) (\<lambda>e.
          if e AND PRESENT \<noteq> 0 then io_fail WindowSlotTaken
          else io_bind (io_map_err to_paging (new_table alloc root)) (\<lambda>pdpt.
            io_bind (io_each (\<lambda>slot.
              io_bind (io_map_err to_paging (new_table alloc root)) (\<lambda>directory.
                io_bind (io_each (\<lambda>i. io_write directory i
                    ((of_nat slot * GIB + of_nat i * LARGE_PAGE) OR PRESENT OR WRITABLE OR HUGE OR NO_EXECUTE)) [0..<ENTRIES]) (\<lambda>_.
                  io_write pdpt slot (directory OR PRESENT OR WRITABLE)))) [0..<unat (lim div GIB)]) (\<lambda>_.
              io_bind (io_write root root_slot (pdpt OR PRESENT OR WRITABLE)) (\<lambda>_.
                io_bind (io_flush FlushAll) (\<lambda>_. io_ret (1 + unat (lim div GIB))))))))"

text \<open>One page of the identity map: whether code runs from it, and whether it holds nothing but code.\<close>

definition runs_code :: "mapped_range list \<Rightarrow> u64 \<Rightarrow> bool" where
  "runs_code executable page \<longleftrightarrow>
     (\<exists>code \<in> set executable. mr_executable code \<and> range_overlaps (mr_range code) (PhysAddr page) (PhysAddr (page + PAGE)))"

definition only_code :: "mapped_range list \<Rightarrow> u64 \<Rightarrow> bool" where
  "only_code executable page \<longleftrightarrow>
     (\<exists>code \<in> set executable. range_contains (mr_range code) (PhysAddr page) \<and> page + PAGE \<le> p_u64 (range_end (mr_range code))) \<and>
     \<not> (\<exists>code \<in> set executable. mr_writable code \<and> range_overlaps (mr_range code) (PhysAddr page) (PhysAddr (page + PAGE)))"

definition identity_leaf :: "mapped_range list \<Rightarrow> u64 \<Rightarrow> u64" where
  "identity_leaf executable page =
     (let flags = PRESENT;
          flags = (if \<not> only_code executable page then flags OR WRITABLE else flags);
          flags = (if \<not> runs_code executable page then flags OR NO_EXECUTE else flags)
      in page OR flags)"

text \<open>The counts of tables, executable pages and read-only pages, threaded through the loops.\<close>

type_synonym counts = "nat \<times> nat \<times> nat"

definition identity_page :: "mapped_range list \<Rightarrow> u64 \<Rightarrow> u64 \<Rightarrow> usize \<Rightarrow> counts \<Rightarrow> ('f tables_io, paging_error, counts) io" where
  "identity_page executable base table index = (\<lambda>(tables, executable_pages, read_only_pages).
     let page = base + of_nat index * PAGE in
     if page = 0 then io_ret (tables, executable_pages, read_only_pages)
     else io_bind (io_write table index (identity_leaf executable page)) (\<lambda>_.
       io_ret (tables, executable_pages + of_bool (runs_code executable page), read_only_pages + of_bool (only_code executable page))))"

definition identity_entry :: "('f \<Rightarrow> phys_frame option \<times> 'f) \<Rightarrow> u64 \<Rightarrow> mapped_range list \<Rightarrow> usize \<Rightarrow> u64 \<Rightarrow> usize \<Rightarrow> counts \<Rightarrow>
    ('f tables_io, paging_error, counts) io" where
  "identity_entry alloc root executable slot directory e = (\<lambda>(tables, executable_pages, read_only_pages).
     let base = of_nat slot * GIB + of_nat e * LARGE_PAGE;
         fine_grained = (base = 0 \<or> (\<exists>code \<in> set executable.
           range_overlaps (mr_range code) (PhysAddr base) (PhysAddr (base + LARGE_PAGE))))
     in if \<not> fine_grained
        then io_bind (io_write directory e (base OR PRESENT OR WRITABLE OR HUGE OR NO_EXECUTE)) (\<lambda>_.
          io_ret (tables, executable_pages, read_only_pages))
        else io_bind (io_map_err to_paging (new_table alloc root)) (\<lambda>table.
          io_bind (io_fold (identity_page executable base table) [0..<ENTRIES] (tables + 1, executable_pages, read_only_pages)) (\<lambda>c.
            io_bind (io_write directory e (table OR PRESENT OR WRITABLE)) (\<lambda>_. io_ret c))))"

definition identity_slot :: "('f \<Rightarrow> phys_frame option \<times> 'f) \<Rightarrow> u64 \<Rightarrow> mapped_range list \<Rightarrow> u64 \<Rightarrow> usize \<Rightarrow> counts \<Rightarrow>
    ('f tables_io, paging_error, counts) io" where
  "identity_slot alloc root executable pdpt slot = (\<lambda>(tables, executable_pages, read_only_pages).
     io_bind (io_map_err to_paging (new_table alloc root)) (\<lambda>directory.
       io_bind (io_fold (identity_entry alloc root executable slot directory) [0..<ENTRIES] (tables + 1, executable_pages, read_only_pages)) (\<lambda>c.
         io_bind (io_write pdpt slot (directory OR PRESENT OR WRITABLE)) (\<lambda>_. io_ret c))))"

definition rebuild_identity :: "('f \<Rightarrow> phys_frame option \<times> 'f) \<Rightarrow> u64 \<Rightarrow> u64 \<Rightarrow> mapped_range list \<Rightarrow>
    ('f tables_io, paging_error, identity_map_stats) io" where
  "rebuild_identity alloc root lim executable =
     (if lim = 0 \<or> \<not> is_multiple_of lim GIB \<or> lim > 512 * GIB then io_fail BadIdentityLimit
      else if \<exists>code \<in> set executable. let r = mr_range code in
          range_len r = 0 \<or> lim \<le> p_u64 (range_start r) \<or> phys_checked_add (range_start r) (range_len r) = None \<or>
          p_u64 (range_end r) > lim
      then io_fail RequiredRangeOutsideIdentityMap
      else io_bind (io_map_err to_paging (new_table alloc root)) (\<lambda>pdpt.
        io_bind (io_fold (identity_slot alloc root executable pdpt) [0..<unat (lim div GIB)] (1, 0, 0)) (\<lambda>(tables, executable_pages, read_only_pages).
          io_bind (io_write root 0 (pdpt OR PRESENT OR WRITABLE)) (\<lambda>_.
            io_bind (io_each (\<lambda>slot. io_write root slot 0) [1..<KERNEL_SLOT]) (\<lambda>_.
              io_bind (io_flush FlushAll) (\<lambda>_.
                io_ret \<lparr>st_tables = tables, st_limit = lim, st_executable_pages = executable_pages, st_read_only_pages = read_only_pages\<rparr>))))))"

text \<open>\<open>keep_only\<close>: the two levels below the new directory pointers, one page, the pages of a range.\<close>

fun keep_walk :: "('f \<Rightarrow> phys_frame option \<times> 'f) \<Rightarrow> u64 \<Rightarrow> u64 \<Rightarrow> usize list \<Rightarrow> nat \<Rightarrow> ('f tables_io, paging_error, u64 \<times> nat) io" where
  "keep_walk alloc root table [] tables = io_ret (table, tables)"
| "keep_walk alloc root table (index # indices) tables =
     io_bind (io_read table index) (\<lambda>e.
       if e AND PRESENT = 0
       then io_bind (io_map_err to_paging (new_table alloc root)) (\<lambda>new.
         io_bind (io_write table index (new OR PRESENT OR WRITABLE)) (\<lambda>_.
           keep_walk alloc root new indices (tables + 1)))
       else keep_walk alloc root (e AND ADDRESS_MASK) indices tables)"

definition keep_page :: "('f \<Rightarrow> phys_frame option \<times> 'f) \<Rightarrow> u64 \<Rightarrow> u64 \<Rightarrow> mapped_range \<Rightarrow> u64 \<Rightarrow> nat \<Rightarrow> ('f tables_io, paging_error, nat) io" where
  "keep_page alloc root pdpt code page tables =
     (let indices = table_indices page in
      io_bind (keep_walk alloc root pdpt (take 2 (drop 1 indices)) tables) (\<lambda>(table, tables).
        let leaf = page OR PRESENT OR cache_bits (mr_cache code);
            leaf = (if mr_writable code then leaf OR WRITABLE else leaf);
            leaf = (if \<not> mr_executable code then leaf OR NO_EXECUTE else leaf)
        in io_bind (io_write table (indices ! 3) leaf) (\<lambda>_. io_ret tables)))"

definition pages_of :: "phys_range \<Rightarrow> u64 list" where
  "pages_of r =
     (let first = p_u64 (range_start r) div PAGE * PAGE;
          last = (p_u64 (range_end r) - 1) div PAGE * PAGE
      in map (\<lambda>i. first + of_nat i * PAGE) [0..<(if first \<le> last then unat ((last - first) div PAGE) + 1 else 0)])"

definition keep_only :: "('f \<Rightarrow> phys_frame option \<times> 'f) \<Rightarrow> u64 \<Rightarrow> mapped_range list \<Rightarrow> ('f tables_io, paging_error, nat) io" where
  "keep_only alloc root keep =
     (if \<exists>code \<in> set keep. let r = mr_range code in
          range_len r = 0 \<or> 512 * GIB \<le> p_u64 (range_start r) \<or> p_u64 (range_end r) > 512 * GIB
      then io_fail RequiredRangeOutsideIdentityMap
      else io_bind (io_map_err to_paging (new_table alloc root)) (\<lambda>pdpt.
        io_bind (io_fold (\<lambda>code. io_fold (keep_page alloc root pdpt code) (pages_of (mr_range code))) keep 1) (\<lambda>tables.
          io_bind (io_write root 0 (pdpt OR PRESENT OR WRITABLE OR USER)) (\<lambda>_.
            io_bind (io_each (\<lambda>slot. io_write root slot 0) [1..<KERNEL_SLOT]) (\<lambda>_.
              io_bind (io_flush FlushAll) (\<lambda>_. io_ret tables))))))"

section \<open>The kernel's own tables\<close>

text \<open>
  The registers are arguments: the paging mode, the root in use with its cache bits, and where the stack is.
  The answer of \<open>take_over\<close> is the new root and the value it loads into CR3.
\<close>

definition CR3_FLAGS :: u64 where "CR3_FLAGS = 0x18"
definition CR4_PCIDE :: u64 where "CR4_PCIDE = 0x20000"
definition CR4_LA57 :: u64 where "CR4_LA57 = 0x1000"
definition EFER_NXE :: u64 where "EFER_NXE = 0x800"

definition active_identity_writable_run :: "u64 \<Rightarrow> table_memory \<Rightarrow> phys_frame \<Rightarrow> u64 option" where
  "active_identity_writable_run cr3 m frame =
     (let addr = p_u64 (start_address frame) in
      case translate m (cr3 AND ADDRESS_MASK) addr of
        Some t \<Rightarrow> if tr_writable t \<and> tr_phys t = addr then Some (tr_page_size t - (addr AND (tr_page_size t - 1))) else None
      | None \<Rightarrow> None)"

definition take_over :: "('f \<Rightarrow> phys_frame option \<times> 'f) \<Rightarrow> u64 \<Rightarrow> u64 \<Rightarrow> u64 \<Rightarrow> u64 \<Rightarrow> ('f tables_io, paging_error, u64 \<times> u64) io" where
  "take_over alloc cr4 efer cr3 stack_addr = (\<lambda>(m, fs).
     if cr4 AND CR4_LA57 \<noteq> 0 then (Inl FiveLevelPaging, m, fs)
     else if cr4 AND CR4_PCIDE \<noteq> 0 then (Inl PcidEnabled, m, fs)
     else if efer AND EFER_NXE = 0 then (Inl NoExecuteDisabled, m, fs)
     else let firmware = cr3 AND ADDRESS_MASK in
       if \<exists>addr \<in> set [firmware, stack_addr]. map_option tr_phys (translate m firmware addr) \<noteq> Some addr
       then (Inl NotIdentityMapped, m, fs)
       else io_bind (pt_adopt alloc firmware) (\<lambda>root. io_ret (root, root OR (cr3 AND CR3_FLAGS)))
         (m\<lparr>table_window := 0\<rparr>, fs))"

definition new_address_space :: "('f \<Rightarrow> phys_frame option \<times> 'f) \<Rightarrow> u64 \<Rightarrow> ('f tables_io, paging_error, u64) io" where
  "new_address_space alloc root = io_map_err to_paging (new_process_space alloc root)"

definition use_physical_window :: "virt_addr \<Rightarrow> table_memory \<Rightarrow> table_memory" where
  "use_physical_window base m = m\<lparr>table_window := v_u64 base\<rparr>"

end
