(* ===== verification/Pci.thy ===== *)
theory Pci
  imports Prelude
begin

text \<open>
  The PCI bus (\<^verbatim>\<open>hal/src/pci.rs\<close>): what a function says about itself, the scan of every bus, base address
  registers and the capability list. Configuration space is an argument of the definitions that read it,
  the function from an address and an offset to a dword that the trait \<open>ConfigSpace\<close> asks for.
\<close>

section \<open>Addresses\<close>

definition MAX_DEVICES :: usize where "MAX_DEVICES = 96"
definition NO_VENDOR :: u16 where "NO_VENDOR = 0xFFFF"

record address =
  a_bus :: u8
  a_device :: u8
  a_function :: u8

definition address_new :: "u8 \<Rightarrow> u8 \<Rightarrow> u8 \<Rightarrow> address option" where
  "address_new bus device fn =
     (if device < 32 \<and> fn < 8 then Some \<lparr>a_bus = bus, a_device = device, a_function = fn\<rparr> else None)"

definition config_address :: "address \<Rightarrow> u8 \<Rightarrow> u32" where
  "config_address at offset =
     push_bit 31 1 OR push_bit 16 (ucast (a_bus at)) OR push_bit 11 (ucast (a_device at)) OR
     push_bit 8 (ucast (a_function at)) OR (ucast offset AND 0xFC)"

section \<open>Headers\<close>

record header =
  h_vendor :: u16
  h_device :: u16
  h_class :: u8
  h_subclass :: u8
  h_prog_if :: u8
  h_revision :: u8
  h_type :: u8
  h_bars :: "u32 list"

definition from_config :: "u32 list \<Rightarrow> header option" where
  "from_config words =
     (let vendor = ucast (words ! 0) in
      if vendor = NO_VENDOR then None
      else Some \<lparr>h_vendor = vendor, h_device = ucast (drop_bit 16 (words ! 0)),
             h_class = ucast (drop_bit 24 (words ! 2)), h_subclass = ucast (drop_bit 16 (words ! 2)),
             h_prog_if = ucast (drop_bit 8 (words ! 2)), h_revision = ucast (words ! 2),
             h_type = ucast (drop_bit 16 (words ! 3)),
             h_bars = [words ! 4, words ! 5, words ! 6, words ! 7, words ! 8, words ! 9]\<rparr>)"

definition is_multifunction :: "header \<Rightarrow> bool" where
  "is_multifunction h \<longleftrightarrow> h_type h AND 0x80 \<noteq> 0"

definition header_layout :: "header \<Rightarrow> u8" where
  "header_layout h = h_type h AND 0x7F"

definition class_name :: "header \<Rightarrow> string" where
  "class_name h =
     (let c = h_class h; s = h_subclass h in
      if c = 0x00 then ''unclassified''
      else if c = 0x01 \<and> s = 0x00 then ''SCSI storage''
      else if c = 0x01 \<and> s = 0x01 then ''IDE storage''
      else if c = 0x01 \<and> s = 0x06 then ''SATA storage''
      else if c = 0x01 \<and> s = 0x08 then ''NVMe storage''
      else if c = 0x01 then ''storage''
      else if c = 0x02 then ''network''
      else if c = 0x03 then ''display''
      else if c = 0x04 then ''multimedia''
      else if c = 0x06 \<and> s = 0x00 then ''host bridge''
      else if c = 0x06 \<and> s = 0x01 then ''ISA bridge''
      else if c = 0x06 \<and> s = 0x04 then ''PCI-to-PCI bridge''
      else if c = 0x06 then ''bridge''
      else if c = 0x0C \<and> s = 0x03 then ''USB controller''
      else if c = 0x0C then ''serial bus''
      else ''something else'')"

section \<open>The table of functions\<close>

record pci_function =
  f_at :: address
  f_header :: header

record devices =
  found :: "pci_function option list"
  seen :: usize

definition devices_new :: devices where
  "devices_new = \<lparr>found = replicate MAX_DEVICES None, seen = 0\<rparr>"

definition devices_add :: "devices \<Rightarrow> pci_function \<Rightarrow> bool \<times> devices" where
  "devices_add d f =
     (let d = d\<lparr>seen := seen d + 1\<rparr> in
      case position (\<lambda>x. x = None) (found d) of
        Some k \<Rightarrow> (True, d\<lparr>found := (found d)[k := Some f]\<rparr>)
      | None \<Rightarrow> (False, d))"

fun flatten :: "'a option list \<Rightarrow> 'a list" where
  "flatten [] = []"
| "flatten (None # xs) = flatten xs"
| "flatten (Some x # xs) = x # flatten xs"

definition devices_iter :: "devices \<Rightarrow> pci_function list" where
  "devices_iter d = flatten (found d)"

definition devices_len :: "devices \<Rightarrow> usize" where
  "devices_len d = length (devices_iter d)"

definition devices_is_empty :: "devices \<Rightarrow> bool" where
  "devices_is_empty d \<longleftrightarrow> devices_len d = 0"

definition devices_lost :: "devices \<Rightarrow> usize" where
  "devices_lost d = seen d - devices_len d"

definition devices_find :: "devices \<Rightarrow> u16 \<Rightarrow> u16 \<Rightarrow> pci_function option" where
  "devices_find d vendor device =
     find (\<lambda>f. h_vendor (f_header f) = vendor \<and> h_device (f_header f) = device) (devices_iter d)"

definition devices_find_class :: "devices \<Rightarrow> u8 \<Rightarrow> u8 \<Rightarrow> pci_function option" where
  "devices_find_class d class subclass =
     find (\<lambda>f. h_class (f_header f) = class \<and> h_subclass (f_header f) = subclass) (devices_iter d)"

section \<open>The scan\<close>

type_synonym config_space = "address \<Rightarrow> u8 \<Rightarrow> u32"

definition BUSES :: nat where "BUSES = 256"
definition DEVICES_PER_BUS :: nat where "DEVICES_PER_BUS = 32"
definition FUNCTIONS_PER_DEVICE :: nat where "FUNCTIONS_PER_DEVICE = 8"
definition HEADER_DWORDS :: nat where "HEADER_DWORDS = 16"

definition read_header :: "config_space \<Rightarrow> address \<Rightarrow> header option" where
  "read_header space at =
     (let first = space at 0 in
      if (ucast first :: u16) = NO_VENDOR then None
      else from_config (first # map (\<lambda>i. space at (of_nat (i * 4))) [1..<HEADER_DWORDS]))"

definition scan_function :: "config_space \<Rightarrow> u8 \<Rightarrow> u8 \<Rightarrow> nat \<Rightarrow> devices \<Rightarrow> devices" where
  "scan_function space bus device fn d =
     (case address_new bus device (of_nat fn) of
        None \<Rightarrow> d
      | Some at \<Rightarrow>
          (case read_header space at of
             None \<Rightarrow> d
           | Some h \<Rightarrow> snd (devices_add d \<lparr>f_at = at, f_header = h\<rparr>)))"

definition scan_device :: "config_space \<Rightarrow> u8 \<Rightarrow> nat \<Rightarrow> devices \<Rightarrow> devices" where
  "scan_device space bus device d =
     (case address_new bus (of_nat device) 0 of
        None \<Rightarrow> d
      | Some at \<Rightarrow>
          (case read_header space at of
             None \<Rightarrow> d
           | Some h \<Rightarrow>
               (let d = snd (devices_add d \<lparr>f_at = at, f_header = h\<rparr>) in
                if \<not> is_multifunction h then d
                else fold (scan_function space bus (of_nat device)) [1..<FUNCTIONS_PER_DEVICE] d)))"

definition scan_bus :: "config_space \<Rightarrow> nat \<Rightarrow> devices \<Rightarrow> devices" where
  "scan_bus space bus = fold (scan_device space (of_nat bus)) [0..<DEVICES_PER_BUS]"

definition scan :: "config_space \<Rightarrow> devices" where
  "scan space = fold (scan_bus space) [0..<BUSES] devices_new"

section \<open>Base address registers\<close>

datatype bar =
    Memory u64 bool bool
  | Ports u16

fun bar_entries :: "bar \<Rightarrow> usize" where
  "bar_entries (Memory _ wide _) = (if wide then 2 else 1)"
| "bar_entries (Ports _) = 1"

fun memory_address :: "bar \<Rightarrow> u64 option" where
  "memory_address (Memory address _ _) = Some address"
| "memory_address (Ports _) = None"

definition decode_bar :: "u32 list \<Rightarrow> usize \<Rightarrow> bar option" where
  "decode_bar bars index =
     (if 6 \<le> index then None
      else let raw = bars ! index in
        if raw = 0 then None
        else if raw AND 1 \<noteq> 0 then Some (Ports (ucast (raw AND 0xFFFFFFFC)))
        else let wide = (drop_bit 1 raw AND 0x3 = 0x2);
                 low = (ucast (raw AND 0xFFFFFFF0) :: u64)
             in if wide \<and> 6 \<le> index + 1 then None
                else Some (Memory (if wide then low OR push_bit 32 (ucast (bars ! (index + 1))) else low) wide (raw AND 0x8 \<noteq> 0)))"

section \<open>The capability list\<close>

definition STATUS_CAPABILITIES :: u32 where "STATUS_CAPABILITIES = 0x100000"
definition STATUS_DWORD :: u8 where "STATUS_DWORD = 0x04"
definition CAPABILITY_POINTER :: u8 where "CAPABILITY_POINTER = 0x34"
definition CAPABILITY_MASK :: u8 where "CAPABILITY_MASK = 0xFC"
definition CAPABILITY_LIMIT :: nat where "CAPABILITY_LIMIT = 48"

record capability =
  cap_id :: u8
  cap_offset :: u8

text \<open>The loop, with the entries it may still follow; the answer is what \<open>each\<close> is called with, in order.\<close>

fun capabilities_from :: "(u8 \<Rightarrow> u32) \<Rightarrow> u8 \<Rightarrow> nat \<Rightarrow> capability list" where
  "capabilities_from rd offset 0 = []"
| "capabilities_from rd offset (Suc left) =
     (if offset = 0 then []
      else let header = rd offset in
        \<lparr>cap_id = ucast header, cap_offset = offset\<rparr> #
        capabilities_from rd (ucast (drop_bit 8 header) AND CAPABILITY_MASK) left)"

definition capabilities :: "config_space \<Rightarrow> address \<Rightarrow> capability list" where
  "capabilities space at =
     (if space at STATUS_DWORD AND STATUS_CAPABILITIES = 0 then []
      else capabilities_from (space at) (ucast (space at CAPABILITY_POINTER) AND CAPABILITY_MASK) CAPABILITY_LIMIT)"

section \<open>What a scan finds\<close>

text \<open>The functions of a device that answer, in the order the scan asks.\<close>

definition answering :: "config_space \<Rightarrow> u8 \<Rightarrow> u8 \<Rightarrow> nat \<Rightarrow> pci_function list" where
  "answering space bus device fn =
     (let at = \<lparr>a_bus = bus, a_device = device, a_function = of_nat fn\<rparr> in
      case read_header space at of None \<Rightarrow> [] | Some h \<Rightarrow> [\<lparr>f_at = at, f_header = h\<rparr>])"

definition functions_of :: "config_space \<Rightarrow> u8 \<Rightarrow> u8 \<Rightarrow> pci_function list" where
  "functions_of space bus device =
     (case answering space bus device 0 of
        [] \<Rightarrow> []
      | f # _ \<Rightarrow> f # (if is_multifunction (f_header f) then concat (map (answering space bus device) [1..<8]) else []))"

definition all_functions :: "config_space \<Rightarrow> pci_function list" where
  "all_functions space = concat (map (\<lambda>b. concat (map (\<lambda>d. functions_of space (of_nat b) (of_nat d)) [0..<32])) [0..<256])"

text \<open>The table holds the first entries of a list, and the count of all of them.\<close>

definition holds :: "devices \<Rightarrow> pci_function list \<Rightarrow> bool" where
  "holds d fs \<longleftrightarrow> seen d = length fs \<and>
     found d = map Some (take MAX_DEVICES fs) @ replicate (MAX_DEVICES - length fs) None"

lemma position_append_Some: "position (\<lambda>x. x = None) (map Some xs @ replicate k None) = (if k = 0 then None else Some (length xs))"
  by (induction xs) (cases k; auto)+

lemma holds_new: "holds devices_new []"
  by (simp add: holds_def devices_new_def)

lemma holds_add: "holds d fs \<Longrightarrow> holds (snd (devices_add d f)) (fs @ [f])"
proof (cases "length fs < MAX_DEVICES")
  case True
  assume h: "holds d fs"
  have p: "position (\<lambda>x. x = None) (found d) = Some (length fs)"
    using h True by (simp add: holds_def position_append_Some)
  obtain k where k: "MAX_DEVICES - length fs = Suc k" using True by (metis Suc_diff_Suc)
  then have k': "MAX_DEVICES - length (fs @ [f]) = k" by simp
  show ?thesis using h True p k k' by (simp add: holds_def devices_add_def list_update_append)
next
  case False
  assume h: "holds d fs"
  have "position (\<lambda>x. x = None) (found d) = None"
    using h False position_append_Some [of "take MAX_DEVICES fs" 0] by (simp add: holds_def)
  then show ?thesis using h False by (simp add: holds_def devices_add_def)
qed

lemma holds_step:
  assumes "holds d fs"
  shows "fn < 8 \<Longrightarrow> dv < 32 \<Longrightarrow> holds (scan_function space bus dv fn d) (fs @ answering space bus dv fn)"
proof -
  assume f: "fn < 8" "dv < 32"
  then have "(of_nat fn :: u8) < 8" by (simp add: word_less_nat_alt unat_of_nat_exact)
  then show ?thesis using f assms holds_add [OF assms]
    by (simp add: scan_function_def address_new_def answering_def Let_def split: option.splits)
qed

lemma holds_fold:
  assumes "\<And>d fs x. holds d fs \<Longrightarrow> x \<in> set xs \<Longrightarrow> holds (F x d) (fs @ G x)" "holds d fs"
  shows "holds (fold F xs d) (fs @ concat (map G xs))"
  using assms
proof (induction xs arbitrary: d fs)
  case (Cons x xs)
  have "holds (F x d) (fs @ G x)" using Cons.prems by simp
  then have "holds (fold F xs (F x d)) ((fs @ G x) @ concat (map G xs))" using Cons.prems(1) by (intro Cons.IH) auto
  then show ?case by simp
qed simp

lemma holds_device:
  assumes "holds d fs" "dv < 32"
  shows "holds (scan_device space bus dv d) (fs @ functions_of space bus (of_nat dv))"
proof -
  let ?v = "of_nat dv :: u8" and ?at = "\<lparr>a_bus = bus, a_device = of_nat dv, a_function = 0\<rparr>"
  have v: "?v < 32" using assms(2) by (simp add: word_less_nat_alt unat_of_nat_exact)
  show ?thesis
  proof (cases "read_header space ?at")
    case None
    then show ?thesis using assms(1) v by (simp add: scan_device_def address_new_def functions_of_def answering_def)
  next
    case (Some h)
    have a: "holds (snd (devices_add d \<lparr>f_at = ?at, f_header = h\<rparr>)) (fs @ [\<lparr>f_at = ?at, f_header = h\<rparr>])"
      by (rule holds_add [OF assms(1)])
    have "holds (fold (scan_function space bus ?v) [1..<8] (snd (devices_add d \<lparr>f_at = ?at, f_header = h\<rparr>)))
        ((fs @ [\<lparr>f_at = ?at, f_header = h\<rparr>]) @ concat (map (answering space bus ?v) [1..<8]))"
      using v by (intro holds_fold [OF _ a] holds_step) auto
    then show ?thesis using a v Some
      by (simp add: scan_device_def address_new_def functions_of_def answering_def Let_def FUNCTIONS_PER_DEVICE_def)
  qed
qed

lemma holds_scan: "holds (scan space) (all_functions space)"
proof -
  have bus: "holds (scan_bus space b d) (fs @ concat (map (\<lambda>dv. functions_of space (of_nat b) (of_nat dv)) [0..<32]))" if "holds d fs" for b d fs
    unfolding scan_bus_def DEVICES_PER_BUS_def using holds_device by (intro holds_fold [OF _ that]) auto
  have "holds (fold (scan_bus space) [0..<256] devices_new)
      ([] @ concat (map (\<lambda>b. concat (map (\<lambda>dv. functions_of space (of_nat b) (of_nat dv)) [0..<32])) [0..<256]))"
    using bus by (intro holds_fold [OF _ holds_new]) auto
  then show ?thesis by (simp add: scan_def all_functions_def BUSES_def)
qed

lemma flatten_Some: "flatten (map Some xs @ replicate k None) = xs"
  by (induction xs) (induction k; auto)+

lemma holds_iter: "holds d fs \<Longrightarrow> devices_iter d = take MAX_DEVICES fs \<and> devices_lost d = length fs - MAX_DEVICES"
  by (auto simp: holds_def devices_iter_def devices_lost_def devices_len_def flatten_Some)

section \<open>Reading the address back\<close>

lemma small_bits:
  fixes w :: u8
  assumes "unat w < 2 ^ k" "k \<le> i"
  shows "\<not> bit w i"
proof -
  have "take_bit k (unat w) = unat w" using assms(1) by (simp add: take_bit_nat_eq_self)
  then have "take_bit k w = w" by (simp add: word_unat_eq_iff unsigned_take_bit_eq)
  then show ?thesis using assms(2) by (metis bit_take_bit_iff leD)
qed

lemma config_fields:
  assumes "a_device at < 32" "a_function at < 8"
  shows "ucast (drop_bit 16 (config_address at offset)) = a_bus at"
    "ucast (drop_bit 11 (config_address at offset)) AND 0x1F = a_device at"
    "ucast (drop_bit 8 (config_address at offset)) AND 0x7 = a_function at"
    "ucast (config_address at offset) = offset AND 0xFC"
proof -
  have d: "\<not> bit (a_device at) i" if "5 \<le> i" for i using small_bits [of "a_device at" 5 i] assms(1) that by (simp add: word_less_nat_alt)
  have f: "\<not> bit (a_function at) i" if "3 \<le> i" for i using small_bits [of "a_function at" 3 i] assms(2) that by (simp add: word_less_nat_alt)
  have lt: "bit (a_device at) i \<Longrightarrow> i < 5" "bit (a_function at) i \<Longrightarrow> i < 3" for i using d f by (meson leI)+
  have M: "(0x1F :: u8) = mask 5" "(0x7 :: u8) = mask 3" by (simp_all add: mask_eq_exp_minus_1)
  define g where "g = offset AND 0xFC"
  have "(ucast offset AND 0xFC :: u32) = ucast g" by (simp add: g_def unsigned_and_eq)
  moreover define top :: u32 where "top = push_bit 31 1"
  ultimately have C: "config_address at offset = top OR push_bit 16 (ucast (a_bus at)) OR push_bit 11 (ucast (a_device at)) OR
      push_bit 8 (ucast (a_function at)) OR ucast g" by (simp only: config_address_def)
  have t: "bit top i \<longleftrightarrow> i = 31" for i unfolding top_def bit_mask_one by auto
  have g: "\<not> bit g i" if "8 \<le> i" for i using that bit_imp_le_length [of g i] by auto
  show "ucast (drop_bit 16 (config_address at offset)) = a_bus at"
    unfolding C by (rule bit_word_eqI) (use d f t g in \<open>auto simp: bit_simps dest: lt\<close>)
  show "ucast (drop_bit 11 (config_address at offset)) AND 0x1F = a_device at"
    unfolding C M by (rule bit_word_eqI) (use d f t g in \<open>auto simp: bit_simps dest: lt\<close>)
  show "ucast (drop_bit 8 (config_address at offset)) AND 0x7 = a_function at"
    unfolding C M by (rule bit_word_eqI) (use d f t g in \<open>auto simp: bit_simps dest: lt\<close>)
  show "ucast (config_address at offset) = offset AND 0xFC"
    unfolding C g_def [symmetric] by (rule bit_word_eqI) (use d f t g in \<open>auto simp: bit_simps dest: lt\<close>)
qed

section \<open>Properties\<close>

text \<open>
  C31. The scan is exact: the table holds, in the order of bus, device and function, the first 96 of all the
  functions that answer (functions 1 to 7 only of a device whose function 0 says it has several), and
  \<open>lost\<close> counts the ones that did not fit. Every recorded header is what configuration space holds.
\<close>

theorem scan_exact:
  "devices_iter (scan space) = take MAX_DEVICES (all_functions space) \<and>
   devices_lost (scan space) = length (all_functions space) - MAX_DEVICES"
  by (rule holds_iter [OF holds_scan])

text \<open>
  The address of a configuration register names one function and one dword: the bus, the device, the
  function and the aligned offset can be read back from it, so two different ones never give the same word.
\<close>

theorem config_address_names_one:
  assumes "address_new b d f = Some at" "address_new b' d' f' = Some at'" "config_address at offset = config_address at' offset'"
  shows "at = at' \<and> offset AND 0xFC = offset' AND 0xFC"
proof -
  have v: "a_device at < 32" "a_function at < 8" "a_device at' < 32" "a_function at' < 8"
    using assms(1,2) by (auto simp: address_new_def split: if_splits)
  have "a_bus at = a_bus at'" "a_device at = a_device at'" "a_function at = a_function at'" "offset AND 0xFC = offset' AND 0xFC"
    using config_fields [OF v(1,2), of offset] config_fields [OF v(3,4), of offset'] assms(3) by metis+
  then show ?thesis by simp
qed

theorem config_address_names_one_witness:
  "\<exists>at. address_new 1 2 3 = Some at \<and> config_address at 0x12 = config_address at 0x10 \<and> (0x12 :: u8) AND 0xFC = 0x10 AND 0xFC"
proof -
  obtain at where at: "address_new 1 2 3 = Some at" by (simp add: address_new_def)
  have "config_address at 0x12 = config_address at 0x10" by (simp add: config_address_def)
  then show ?thesis using config_address_names_one [OF at at] at by blast
qed

end
