(* ===== verification/Zeroed_Frames.thy ===== *)
theory Zeroed_Frames
  imports Frame_Allocator
begin

text \<open>
  Frames that arrive zeroed (\<^verbatim>\<open>kernel/src/memory/zeroed_frames.rs\<close>). Physical memory is a function from
  addresses to bytes. A window is where the kernel reaches it; that \<open>base + a\<close> is the byte at physical \<open>a\<close> is
  the contract of \<open>PhysWindow::new\<close>, so a write through the window is a write to physical memory.
\<close>

section \<open>Physical memory\<close>

type_synonym dma = "u64 \<Rightarrow> u8"

definition put_bytes :: "u64 \<Rightarrow> bytes \<Rightarrow> dma \<Rightarrow> dma" where
  "put_bytes a bs m = (\<lambda>x. if unat (x - a) < length bs then bs ! unat (x - a) else m x)"

definition get_bytes :: "u64 \<Rightarrow> usize \<Rightarrow> dma \<Rightarrow> bytes" where
  "get_bytes a n m = map (\<lambda>i. m (a + of_nat i)) [0..<n]"

definition clear_of :: "u64 \<Rightarrow> usize \<Rightarrow> u64 \<Rightarrow> usize \<Rightarrow> bool" where
  "clear_of a n b k \<longleftrightarrow> unat a + n \<le> unat b \<or> unat b + k \<le> unat a"

text \<open>Bytes written are read back, and bytes elsewhere are not touched, where neither block wraps.\<close>

lemma length_get_bytes [simp]: "length (get_bytes a n m) = n"
  by (simp add: get_bytes_def)

lemma put_bytes_inside:
  assumes "i < length bs" "length bs \<le> 2 ^ 64"
  shows "put_bytes a bs m (a + of_nat i) = bs ! i"
proof -
  have "unat (of_nat i :: u64) = i" using assms by (simp add: unat_of_nat_exact)
  then show ?thesis using assms(1) by (simp add: put_bytes_def)
qed

lemma get_put_same: "length bs \<le> 2 ^ 64 \<Longrightarrow> get_bytes a (length bs) (put_bytes a bs m) = bs"
proof (rule nth_equalityI)
  fix i assume "length bs \<le> 2 ^ 64" "i < length (get_bytes a (length bs) (put_bytes a bs m))"
  then show "get_bytes a (length bs) (put_bytes a bs m) ! i = bs ! i" using put_bytes_inside [of i bs a m] by (simp add: get_bytes_def)
qed simp

lemma put_bytes_outside:
  assumes "unat a + length bs \<le> 2 ^ 64" "unat x < unat a \<or> unat a + length bs \<le> unat x"
  shows "put_bytes a bs m x = m x"
proof -
  have "length bs \<le> unat (x - a)"
  proof (cases "unat x < unat a")
    case True
    then have "unat (x - a) = 2 ^ 64 + unat x - unat a" by (simp add: unat_sub_if')
    then show ?thesis using assms(1) by simp
  next
    case False
    then show ?thesis using assms(2) by (simp add: unat_sub_if')
  qed
  then show ?thesis by (simp add: put_bytes_def)
qed

lemma get_put_other:
  assumes "unat a + length bs \<le> 2 ^ 64" "unat b + n \<le> 2 ^ 64" "clear_of a (length bs) b n"
  shows "get_bytes b n (put_bytes a bs m) = get_bytes b n m"
proof -
  have "put_bytes a bs m (b + of_nat i) = m (b + of_nat i)" if "i < n" for i
  proof (rule put_bytes_outside [OF assms(1)])
    have "unat (b + of_nat i) = unat b + i" using that assms(2) by (simp add: unat_add_exact unat_of_nat_exact)
    then show "unat (b + of_nat i) < unat a \<or> unat a + length bs \<le> unat (b + of_nat i)"
      using assms(3) that by (auto simp: clear_of_def)
  qed
  then show ?thesis by (simp add: get_bytes_def)
qed

section \<open>The window and the wrapper\<close>

record zeroed_frames =
  zf_inner :: frame_allocator
  zf_window :: u64
  zf_zeroed :: nat

definition frame_ptr :: "u64 \<Rightarrow> phys_frame \<Rightarrow> panic + u64" where
  "frame_ptr base frame =
     ok_or (Panic ''physical window does not reach this frame'') (checked_add base (p_u64 (start_address frame)))"

definition zero_frame :: "u64 \<Rightarrow> phys_frame \<Rightarrow> dma \<Rightarrow> panic + dma" where
  "zero_frame base frame m =
     and_then (frame_ptr base frame) (\<lambda>_. Inr (put_bytes (p_u64 (start_address frame)) (replicate (unat FRAME_SIZE) 0) m))"

definition on_the_way_out :: "phys_frame \<Rightarrow> zeroed_frames \<Rightarrow> dma \<Rightarrow> panic + zeroed_frames \<times> dma" where
  "on_the_way_out frame z m =
     and_then (zero_frame (zf_window z) frame m) (\<lambda>m. Inr (z\<lparr>zf_zeroed := zf_zeroed z + 1\<rparr>, m))"

definition zeroed_allocate_for :: "frame_purpose \<Rightarrow> zeroed_frames \<Rightarrow> dma \<Rightarrow> panic + phys_frame option \<times> zeroed_frames \<times> dma" where
  "zeroed_allocate_for p z m =
     (case allocate_for (zf_inner z) p of
        (None, a) \<Rightarrow> Inr (None, z\<lparr>zf_inner := a\<rparr>, m)
      | (Some f, a) \<Rightarrow> and_then (on_the_way_out f (z\<lparr>zf_inner := a\<rparr>) m) (\<lambda>(z, m). Inr (Some f, z, m)))"

definition zeroed_allocate_frame :: "zeroed_frames \<Rightarrow> dma \<Rightarrow> panic + phys_frame option \<times> zeroed_frames \<times> dma" where
  "zeroed_allocate_frame z m =
     (case allocate_frame (zf_inner z) of
        (None, a) \<Rightarrow> Inr (None, z\<lparr>zf_inner := a\<rparr>, m)
      | (Some f, a) \<Rightarrow> and_then (on_the_way_out f (z\<lparr>zf_inner := a\<rparr>) m) (\<lambda>(z, m). Inr (Some f, z, m)))"

definition zeroed_allocate :: "zeroed_frames \<Rightarrow> dma \<Rightarrow> panic + phys_frame option \<times> zeroed_frames \<times> dma" where
  "zeroed_allocate = zeroed_allocate_for Kernel"

definition set_window :: "u64 \<Rightarrow> zeroed_frames \<Rightarrow> zeroed_frames" where
  "set_window base z = z\<lparr>zf_window := base\<rparr>"

section \<open>Properties\<close>

lemma frame_end:
  assumes "frame_aligned f"
  shows "unat (p_u64 (start_address f)) + 4096 \<le> 2 ^ 64"
proof -
  have "4096 dvd unat (p_u64 (start_address f))" using assms by (simp add: frame_aligned_unat start_address_def)
  then obtain k where k: "unat (p_u64 (start_address f)) = 4096 * k" by blast
  have "4096 * k < 2 ^ 64" using unat_u64_bound [of "p_u64 (start_address f)"] k by simp
  then show ?thesis using k by simp
qed

lemma other_frame: "k mod 4096 = 0 \<Longrightarrow> n div 4096 \<noteq> k div 4096 \<Longrightarrow> n < k \<or> k + 4096 \<le> n" for n k :: nat
proof -
  assume k: "k mod 4096 = 0" and d: "n div 4096 \<noteq> k div 4096"
  obtain q where q: "q = n div 4096" by simp
  obtain p where p: "p = k div 4096" by simp
  obtain r where r: "n = 4096 * q + r" "r < 4096" using mult_div_mod_eq [of 4096 n] by (metis mod_less_divisor q zero_less_numeral)
  have k': "k = 4096 * p" using k p mult_div_mod_eq [of 4096 k] by simp
  have "q \<noteq> p" using d q p by simp
  then show ?thesis using r k' by (cases "q < p") auto
qed



end
