(* ===== verification/Virtio.thy ===== *)
theory Virtio
  imports Pci Zeroed_Frames
begin

text \<open>
  Virtio over PCI (\<^verbatim>\<open>hal/src/virtio.rs\<close>): where a device keeps its registers, the registers of the common
  configuration, the doorbell, the header of a block request, and the split queue. Memory that the device
  shares is a function from physical addresses to bytes; the kernel's window onto it is another view of the
  same bytes and has no part in the model. Registers are read and written through two arguments, the
  operations of the device, at the width the specification gives.
\<close>

section \<open>Where the registers are\<close>

definition VENDOR :: u16 where "VENDOR = 0x1AF4"
definition DEVICE_BLOCK :: u16 where "DEVICE_BLOCK = 0x1042"
definition DEVICE_BLOCK_TRANSITIONAL :: u16 where "DEVICE_BLOCK_TRANSITIONAL = 0x1001"
definition CAPABILITY_ID :: u8 where "CAPABILITY_ID = 0x09"

datatype virtio_structure = Common | Notify | Isr | Device | PciConfig | Unknown u8

definition from_cfg_type :: "u8 \<Rightarrow> virtio_structure" where
  "from_cfg_type t =
     (if t = 1 then Common else if t = 2 then Notify else if t = 3 then Isr else if t = 4 then Device
      else if t = 5 then PciConfig else Unknown t)"

record location =
  loc_structure :: virtio_structure
  loc_bar :: usize
  loc_offset :: u32
  loc_length :: u32
  loc_notify_multiplier :: "u32 option"

definition NOTIFY_CAPABILITY_BYTES :: u8 where "NOTIFY_CAPABILITY_BYTES = 20"

definition decode_capability :: "u32 list \<Rightarrow> u32 option \<Rightarrow> location option" where
  "decode_capability words fifth =
     (if (ucast (words ! 0) :: u8) \<noteq> CAPABILITY_ID then None
      else let bar = unat (ucast (words ! 1 AND 0xFF) :: u8) in
        if 6 \<le> bar then None
        else let len = words ! 3 in
          if len = 0 then None
          else let st = from_cfg_type (ucast (drop_bit 24 (words ! 0)));
                   capability_bytes = (ucast (drop_bit 16 (words ! 0)) :: u8);
                   multiplier = (case (st, fifth) of
                       (Notify, Some m) \<Rightarrow> if NOTIFY_CAPABILITY_BYTES \<le> capability_bytes then Some m else None
                     | _ \<Rightarrow> None)
               in Some \<lparr>loc_structure = st, loc_bar = bar, loc_offset = words ! 2, loc_length = len,
                    loc_notify_multiplier = multiplier\<rparr>)"

text \<open>One capability of the list, and what \<open>locations\<close> calls \<open>each\<close> with.\<close>

definition location_at :: "config_space \<Rightarrow> address \<Rightarrow> capability \<Rightarrow> location option" where
  "location_at space at cap =
     (if cap_id cap \<noteq> CAPABILITY_ID then None
      else let offsets = map (\<lambda>i. checked_add (cap_offset cap) (of_nat (i * 4))) [0..<4] in
        if None \<in> set offsets then None
        else decode_capability (map (\<lambda>p. space at (the p)) offsets)
               (map_option (space at) (checked_add (cap_offset cap) 16)))"

definition locations :: "config_space \<Rightarrow> address \<Rightarrow> location list" where
  "locations space at = List.map_filter (location_at space at) (capabilities space at)"

definition common_config_location :: "config_space \<Rightarrow> address \<Rightarrow> location option" where
  "common_config_location space at = find (\<lambda>l. loc_structure l = Common) (locations space at)"

section \<open>The common configuration\<close>

definition STATUS_ACKNOWLEDGE :: u8 where "STATUS_ACKNOWLEDGE = 1"
definition STATUS_DRIVER :: u8 where "STATUS_DRIVER = 2"
definition STATUS_DRIVER_OK :: u8 where "STATUS_DRIVER_OK = 4"
definition STATUS_FEATURES_OK :: u8 where "STATUS_FEATURES_OK = 8"
definition STATUS_DEVICE_NEEDS_RESET :: u8 where "STATUS_DEVICE_NEEDS_RESET = 64"
definition STATUS_FAILED :: u8 where "STATUS_FAILED = 128"
definition FEATURE_VERSION_1 :: u32 where "FEATURE_VERSION_1 = 1"
definition FEATURE_VERSION_1_SELECT :: u32 where "FEATURE_VERSION_1_SELECT = 1"
definition COMMON_CONFIG_BYTES :: u32 where "COMMON_CONFIG_BYTES = 0x38"

text \<open>A device's registers: a read and a write of so many bytes at an offset, each of which may change the device.\<close>

record 'd registers =
  reg_read :: "nat \<Rightarrow> u64 \<Rightarrow> 'd \<Rightarrow> u64 \<times> 'd"
  reg_write :: "nat \<Rightarrow> u64 \<Rightarrow> u64 \<Rightarrow> 'd \<Rightarrow> 'd"

definition DEVICE_FEATURE_SELECT :: u64 where "DEVICE_FEATURE_SELECT = 0x00"
definition DEVICE_FEATURE :: u64 where "DEVICE_FEATURE = 0x04"
definition DRIVER_FEATURE_SELECT :: u64 where "DRIVER_FEATURE_SELECT = 0x08"
definition DRIVER_FEATURE :: u64 where "DRIVER_FEATURE = 0x0C"
definition NUM_QUEUES :: u64 where "NUM_QUEUES = 0x12"
definition DEVICE_STATUS :: u64 where "DEVICE_STATUS = 0x14"
definition CONFIG_GENERATION :: u64 where "CONFIG_GENERATION = 0x15"
definition QUEUE_SELECT :: u64 where "QUEUE_SELECT = 0x16"
definition QUEUE_SIZE_AT :: u64 where "QUEUE_SIZE_AT = 0x18"
definition QUEUE_ENABLE :: u64 where "QUEUE_ENABLE = 0x1C"
definition QUEUE_NOTIFY_OFF :: u64 where "QUEUE_NOTIFY_OFF = 0x1E"
definition QUEUE_DESC :: u64 where "QUEUE_DESC = 0x20"
definition QUEUE_DRIVER :: u64 where "QUEUE_DRIVER = 0x28"
definition QUEUE_DEVICE :: u64 where "QUEUE_DEVICE = 0x30"

definition status :: "'d registers \<Rightarrow> 'd \<Rightarrow> u8 \<times> 'd" where
  "status R d = (case reg_read R 1 DEVICE_STATUS d of (v, d) \<Rightarrow> (ucast v, d))"

definition set_status :: "'d registers \<Rightarrow> u8 \<Rightarrow> 'd \<Rightarrow> 'd" where
  "set_status R s = reg_write R 1 DEVICE_STATUS (ucast s)"

definition device_features :: "'d registers \<Rightarrow> u32 \<Rightarrow> 'd \<Rightarrow> u32 \<times> 'd" where
  "device_features R select d =
     (case reg_read R 4 DEVICE_FEATURE (reg_write R 4 DEVICE_FEATURE_SELECT (ucast select) d) of (v, d) \<Rightarrow> (ucast v, d))"

definition set_driver_features :: "'d registers \<Rightarrow> u32 \<Rightarrow> u32 \<Rightarrow> 'd \<Rightarrow> 'd" where
  "set_driver_features R select features d =
     reg_write R 4 DRIVER_FEATURE (ucast features) (reg_write R 4 DRIVER_FEATURE_SELECT (ucast select) d)"

definition queue_count :: "'d registers \<Rightarrow> 'd \<Rightarrow> u16 \<times> 'd" where
  "queue_count R d = (case reg_read R 2 NUM_QUEUES d of (v, d) \<Rightarrow> (ucast v, d))"

definition config_generation :: "'d registers \<Rightarrow> 'd \<Rightarrow> u8 \<times> 'd" where
  "config_generation R d = (case reg_read R 1 CONFIG_GENERATION d of (v, d) \<Rightarrow> (ucast v, d))"

definition select_queue :: "'d registers \<Rightarrow> u16 \<Rightarrow> 'd \<Rightarrow> 'd" where
  "select_queue R queue = reg_write R 2 QUEUE_SELECT (ucast queue)"

definition queue_size :: "'d registers \<Rightarrow> 'd \<Rightarrow> u16 \<times> 'd" where
  "queue_size R d = (case reg_read R 2 QUEUE_SIZE_AT d of (v, d) \<Rightarrow> (ucast v, d))"

definition queue_notify_offset :: "'d registers \<Rightarrow> 'd \<Rightarrow> u16 \<times> 'd" where
  "queue_notify_offset R d = (case reg_read R 2 QUEUE_NOTIFY_OFF d of (v, d) \<Rightarrow> (ucast v, d))"

definition queue_enabled :: "'d registers \<Rightarrow> 'd \<Rightarrow> bool \<times> 'd" where
  "queue_enabled R d = (case reg_read R 2 QUEUE_ENABLE d of (v, d) \<Rightarrow> ((ucast v :: u16) \<noteq> 0, d))"

definition set_queue_size :: "'d registers \<Rightarrow> u16 \<Rightarrow> 'd \<Rightarrow> 'd" where
  "set_queue_size R n = reg_write R 2 QUEUE_SIZE_AT (ucast n)"

definition set_queue_addresses :: "'d registers \<Rightarrow> u64 \<Rightarrow> u64 \<Rightarrow> u64 \<Rightarrow> 'd \<Rightarrow> 'd" where
  "set_queue_addresses R descriptors available used d =
     reg_write R 8 QUEUE_DEVICE used (reg_write R 8 QUEUE_DRIVER available (reg_write R 8 QUEUE_DESC descriptors d))"

definition enable_queue :: "'d registers \<Rightarrow> 'd \<Rightarrow> 'd" where
  "enable_queue R = reg_write R 2 QUEUE_ENABLE 1"

section \<open>Requests\<close>

definition TYPE_IN :: u32 where "TYPE_IN = 0"
definition TYPE_OUT :: u32 where "TYPE_OUT = 1"
definition HEADER_BYTES :: usize where "HEADER_BYTES = 16"
definition BLOCK_SECTOR_BYTES :: u32 where "BLOCK_SECTOR_BYTES = 512"
definition STATUS_OK :: u8 where "STATUS_OK = 0"
definition STATUS_IO_ERROR :: u8 where "STATUS_IO_ERROR = 1"
definition STATUS_UNSUPPORTED :: u8 where "STATUS_UNSUPPORTED = 2"

definition u64_to_le :: "u64 \<Rightarrow> bytes" where
  "u64_to_le w = map (\<lambda>i. ucast (drop_bit (8 * i) w)) [0..<8]"

definition request_header :: "u32 \<Rightarrow> u64 \<Rightarrow> bytes" where
  "request_header ty sector = u32_to_le ty @ [0, 0, 0, 0] @ u64_to_le sector"

definition status_name :: "u8 \<Rightarrow> string" where
  "status_name s =
     (if s = STATUS_OK then ''ok'' else if s = STATUS_IO_ERROR then ''an I/O error''
      else if s = STATUS_UNSUPPORTED then ''unsupported'' else ''something the specification does not define'')"

section \<open>Numbers in shared memory\<close>

definition get_u16 :: "u64 \<Rightarrow> dma \<Rightarrow> u16" where
  "get_u16 a m = u16_from_le (m a) (m (a + 1))"

definition get_u32 :: "u64 \<Rightarrow> dma \<Rightarrow> u32" where
  "get_u32 a m = u32_from_le (m a) (m (a + 1)) (m (a + 2)) (m (a + 3))"

definition get_u64 :: "u64 \<Rightarrow> dma \<Rightarrow> u64" where
  "get_u64 a m = ucast (get_u32 a m) OR push_bit 32 (ucast (get_u32 (a + 4) m))"

section \<open>The queue\<close>

definition DESCRIPTOR_BYTES :: u64 where "DESCRIPTOR_BYTES = 16"
definition DESC_NEXT :: u16 where "DESC_NEXT = 1"
definition DESC_WRITE :: u16 where "DESC_WRITE = 2"

record queue_layout =
  lay_size :: u16
  lay_descriptors :: u64
  lay_available :: u64
  lay_used :: u64

definition AVAILABLE_INDEX :: u64 where "AVAILABLE_INDEX = 2"
definition AVAILABLE_RING :: u64 where "AVAILABLE_RING = 4"
definition USED_INDEX :: u64 where "USED_INDEX = 2"
definition USED_RING :: u64 where "USED_RING = 4"
definition USED_ENTRY_BYTES :: u64 where "USED_ENTRY_BYTES = 8"
definition DESCRIPTORS_AT :: u64 where "DESCRIPTORS_AT = 0"
definition AVAILABLE_AT :: u64 where "AVAILABLE_AT = 0x400"
definition USED_AT :: u64 where "USED_AT = 0x800"

definition in_one_frame :: "u16 \<Rightarrow> u64 \<Rightarrow> queue_layout option" where
  "in_one_frame n avail_bytes =
     (if n = 0 \<or> \<not> is_power_of_two n then None
      else let size64 = ucast n in
        if size64 * DESCRIPTOR_BYTES > AVAILABLE_AT \<or> USED_AT + USED_RING + USED_ENTRY_BYTES * size64 + 2 > avail_bytes then None
        else Some \<lparr>lay_size = n, lay_descriptors = DESCRIPTORS_AT, lay_available = AVAILABLE_AT, lay_used = USED_AT\<rparr>)"

definition descriptor_at :: "queue_layout \<Rightarrow> u16 \<Rightarrow> u64 option" where
  "descriptor_at l index = (if lay_size l \<le> index then None else Some (lay_descriptors l + ucast index * DESCRIPTOR_BYTES))"

definition available_slot :: "queue_layout \<Rightarrow> u16 \<Rightarrow> u64" where
  "available_slot l index = lay_available l + AVAILABLE_RING + ucast (index mod lay_size l) * 2"

definition used_slot :: "queue_layout \<Rightarrow> u16 \<Rightarrow> u64" where
  "used_slot l index = lay_used l + USED_RING + ucast (index mod lay_size l) * USED_ENTRY_BYTES"

record descriptor =
  desc_address :: u64
  desc_length :: u32
  desc_flags :: u16
  desc_next :: u16

record completion =
  done_head :: u16
  done_written :: u32

record queue =
  q_base :: u64
  q_layout :: queue_layout

definition set_descriptor :: "queue \<Rightarrow> u16 \<Rightarrow> descriptor \<Rightarrow> dma \<Rightarrow> bool \<times> dma" where
  "set_descriptor q index d m =
     (case descriptor_at (q_layout q) index of
        None \<Rightarrow> (False, m)
      | Some offset \<Rightarrow>
          (True, put_bytes (q_base q + (offset + 14)) (u16_to_le (desc_next d))
            (put_bytes (q_base q + (offset + 12)) (u16_to_le (desc_flags d))
              (put_bytes (q_base q + (offset + 8)) (u32_to_le (desc_length d))
                (put_bytes (q_base q + offset) (u64_to_le (desc_address d)) m)))))"

definition available_index :: "queue \<Rightarrow> dma \<Rightarrow> u16" where
  "available_index q m = get_u16 (q_base q + (lay_available (q_layout q) + AVAILABLE_INDEX)) m"

definition publish :: "queue \<Rightarrow> u16 \<Rightarrow> dma \<Rightarrow> u16 \<times> dma" where
  "publish q head m =
     (let index = available_index q m;
          m = put_bytes (q_base q + available_slot (q_layout q) index) (u16_to_le head) m
      in (index + 1, put_bytes (q_base q + (lay_available (q_layout q) + AVAILABLE_INDEX)) (u16_to_le (index + 1)) m))"

definition used_index :: "queue \<Rightarrow> dma \<Rightarrow> u16" where
  "used_index q m = get_u16 (q_base q + (lay_used (q_layout q) + USED_INDEX)) m"

definition completion_at :: "queue \<Rightarrow> u16 \<Rightarrow> dma \<Rightarrow> completion" where
  "completion_at q index m =
     (let offset = q_base q + used_slot (q_layout q) index
      in \<lparr>done_head = ucast (get_u32 offset m), done_written = get_u32 (offset + 4) m\<rparr>)"

record notify =
  nt_base :: u64
  nt_multiplier :: u32

definition doorbell :: "notify \<Rightarrow> u16 \<Rightarrow> u64" where
  "doorbell n notify_offset = ucast notify_offset * ucast (nt_multiplier n)"

end
