(* ===== verification/Virtio_Blk.thy ===== *)
theory Virtio_Blk
  imports Fs Paging Virtio
begin

text \<open>
  The driver of the disk (\<^verbatim>\<open>kernel/src/devices/virtio_blk.rs\<close>): finding the device and negotiating with it,
  giving it a queue, and one request at a time. The device is the state behind the registers and, once it
  has a queue, the other user of the shared memory: it may act whenever the driver looks at the used ring.
\<close>

section \<open>Starting the disk\<close>

datatype start_error =
    NotFound
  | Transitional
  | NoCommonConfig
  | TooShort u32
  | NoSuchBar usize
  | NotMemory usize
  | Mapping map_error
  | NoVersion1 u64
  | FeaturesRefused u8

record disk =
  d_at :: address
  d_bar :: usize
  d_registers :: virt_addr
  d_offered :: u64
  d_accepted :: u64
  d_header_bars :: "u32 list"
  d_queues :: u16
  d_queue_size :: u16
  d_notify_offset :: u16

definition KERNEL_DEVICES_START :: virt_addr where
  "KERNEL_DEVICES_START = VirtAddr (KERNEL_SPACE_BASE + 6 * push_bit 39 1)"

definition virt_add :: "virt_addr \<Rightarrow> u64 \<Rightarrow> panic + virt_addr" where
  "virt_add a offset = ok_or (Panic ''address addition overflow'') (virt_checked_add a offset)"

definition u64_add :: "u64 \<Rightarrow> u64 \<Rightarrow> panic + u64" where
  "u64_add a b = ok_or (Panic ''attempt to add with overflow'') (checked_add a b)"

text \<open>One page of registers, and all of them; an error is a panic or a refusal.\<close>

definition map_register_page :: "('f \<Rightarrow> phys_frame option \<times> 'f) \<Rightarrow> u64 \<Rightarrow> u64 \<Rightarrow> ('f tables_io, panic + map_error, unit) io" where
  "map_register_page alloc root at =
     (let flags = cached_as (kernel_flags True False) Uncacheable;
          frame = containing_address (PhysAddr at)
      in io_bind (io_lift (map_err Inl (virt_add KERNEL_DEVICES_START at))) (\<lambda>v s.
        case pt_map alloc root (v_u64 (page_start (page_containing v))) frame flags s of
          (Inr (), s') \<Rightarrow> (Inr (), s')
        | (Inl e, s') \<Rightarrow> if e = AlreadyMapped then (Inr (), s') else (Inl (Inr e), s')))"

definition map_registers :: "('f \<Rightarrow> phys_frame option \<times> 'f) \<Rightarrow> u64 \<Rightarrow> u64 \<Rightarrow> u32 \<Rightarrow> ('f tables_io, panic + map_error, virt_addr) io" where
  "map_registers alloc root start len =
     io_bind (io_lift (map_err Inl (u64_add start (ucast len)))) (\<lambda>stop.
       if stop = 0 then io_lift (Inl (Inl (Panic ''attempt to subtract with overflow'')))
       else let first = start AND NOT (PAGE_SIZE - 1);
           last = (stop - 1) AND NOT (PAGE_SIZE - 1);
           pages = (if first \<le> last then unat ((last - first) div PAGE_SIZE) + 1 else 0)
       in io_bind (io_each (map_register_page alloc root) (map (\<lambda>i. first + of_nat i * PAGE_SIZE) [0..<pages])) (\<lambda>_.
         io_lift (map_err Inl (virt_add KERNEL_DEVICES_START start))))"

text \<open>The handshake: the answer, and the device as it was left.\<close>

definition give_up :: "'d registers \<Rightarrow> start_error \<Rightarrow> 'd \<Rightarrow> (start_error + 'a) \<times> 'd" where
  "give_up R why d = (Inl why, set_status R STATUS_FAILED d)"

definition handshake :: "'d registers \<Rightarrow> 'd \<Rightarrow> (start_error + u64 \<times> u64 \<times> u16 \<times> u16 \<times> u16) \<times> 'd" where
  "handshake R d =
     (let d = set_status R 0 d;
          d = set_status R STATUS_ACKNOWLEDGE d;
          d = set_status R (STATUS_ACKNOWLEDGE OR STATUS_DRIVER) d;
          (low, d) = device_features R 0 d;
          (high, d) = device_features R FEATURE_VERSION_1_SELECT d;
          offered = (ucast low OR push_bit 32 (ucast high) :: u64)
      in if high AND FEATURE_VERSION_1 = 0 then give_up R (NoVersion1 offered) d
         else let d = set_driver_features R 0 0 d;
                  d = set_driver_features R FEATURE_VERSION_1_SELECT FEATURE_VERSION_1 d;
                  accepted = push_bit 32 (ucast FEATURE_VERSION_1);
                  d = set_status R (STATUS_ACKNOWLEDGE OR STATUS_DRIVER OR STATUS_FEATURES_OK) d;
                  (st, d) = status R d
              in if st AND STATUS_FEATURES_OK = 0 then give_up R (FeaturesRefused st) d
                 else let (queues, d) = queue_count R d;
                          d = select_queue R 0 d;
                          (size, d) = queue_size R d;
                          (notify_offset, d) = queue_notify_offset R d
                      in (Inr (offered, accepted, queues, size, notify_offset), d))"

text \<open>\<open>start\<close>: the tables and frames, the registers once mapped, and the device.\<close>

definition start :: "('f \<Rightarrow> phys_frame option \<times> 'f) \<Rightarrow> u64 \<Rightarrow> config_space \<Rightarrow> (virt_addr \<Rightarrow> 'd registers) \<Rightarrow> devices \<Rightarrow>
    ('f tables_io \<times> 'd, panic + start_error, disk) io" where
  "start alloc root cfg regs devices = (\<lambda>(s, d).
     case devices_find devices VENDOR DEVICE_BLOCK of
       None \<Rightarrow> (Inl (Inr (case devices_find devices VENDOR DEVICE_BLOCK_TRANSITIONAL of Some _ \<Rightarrow> Transitional | None \<Rightarrow> NotFound)), s, d)
     | Some f \<Rightarrow>
         (case common_config_location cfg (f_at f) of
            None \<Rightarrow> (Inl (Inr NoCommonConfig), s, d)
          | Some l \<Rightarrow>
              if loc_length l < COMMON_CONFIG_BYTES then (Inl (Inr (TooShort (loc_length l))), s, d)
              else (case decode_bar (h_bars (f_header f)) (loc_bar l) of
                 None \<Rightarrow> (Inl (Inr (NoSuchBar (loc_bar l))), s, d)
               | Some b \<Rightarrow>
                   (case memory_address b of
                      None \<Rightarrow> (Inl (Inr (NotMemory (loc_bar l))), s, d)
                    | Some base \<Rightarrow>
                        (case u64_add base (ucast (loc_offset l)) of
                           Inl p \<Rightarrow> (Inl (Inl p), s, d)
                         | Inr at \<Rightarrow>
                             (case map_registers alloc root at (loc_length l) s of
                                (Inl (Inl p), s) \<Rightarrow> (Inl (Inl p), s, d)
                              | (Inl (Inr e), s) \<Rightarrow> (Inl (Inr (Mapping e)), s, d)
                              | (Inr regs_at, s) \<Rightarrow>
                                  (case handshake (regs regs_at) d of
                                     (Inl e, d) \<Rightarrow> (Inl (Inr e), s, d)
                                   | (Inr (offered, accepted, queues, qsize, notify_offset), d) \<Rightarrow>
                                       (Inr \<lparr>d_at = f_at f, d_bar = loc_bar l, d_registers = regs_at, d_offered = offered,
                                          d_accepted = accepted, d_header_bars = h_bars (f_header f), d_queues = queues,
                                          d_queue_size = qsize, d_notify_offset = notify_offset\<rparr>, s, d))))))))"

section \<open>The queue\<close>

definition QUEUE_SIZE :: u16 where "QUEUE_SIZE = 4"
definition QUEUE :: u16 where "QUEUE = 0"
definition POLL_LIMIT :: nat where "POLL_LIMIT = 20000000"
definition HEAD :: u16 where "HEAD = 0"
definition DATA :: u16 where "DATA = 1"
definition STATUS :: u16 where "STATUS = 2"
definition HEADER_AT :: u64 where "HEADER_AT = 0"
definition DATA_AT :: u64 where "DATA_AT = 0x200"
definition STATUS_AT :: u64 where "STATUS_AT = 0xE00"

record reader =
  r_queue :: queue
  r_notify :: notify
  r_request :: u64

definition notify_location :: "config_space \<Rightarrow> address \<Rightarrow> location option" where
  "notify_location cfg at = find (\<lambda>l. loc_structure l = Notify) (locations cfg at)"

text \<open>The registers of the queue; the answer is the size the device took.\<close>

definition configure_queue :: "'d registers \<Rightarrow> u64 \<Rightarrow> queue_layout \<Rightarrow> 'd \<Rightarrow> u16 \<times> 'd" where
  "configure_queue R ring_phys layout d =
     (let d = select_queue R QUEUE d;
          d = set_queue_size R QUEUE_SIZE d;
          (taken, d) = queue_size R d
      in if taken = QUEUE_SIZE
         then let d = set_queue_addresses R (ring_phys + lay_descriptors layout) (ring_phys + lay_available layout) (ring_phys + lay_used layout) d;
                  d = enable_queue R d
              in (taken, set_status R (STATUS_ACKNOWLEDGE OR STATUS_DRIVER OR STATUS_FEATURES_OK OR STATUS_DRIVER_OK) d)
         else (taken, d))"

text \<open>
  \<open>start_queue\<close>: \<open>dma\<close> is the allocator asked for frames for a device. Its panics (a window that does not
  reach a frame) are those of \<open>KernelFrames\<close>, so here they are part of what \<open>dma\<close> answers.
\<close>

definition start_queue :: "('f \<Rightarrow> phys_frame option \<times> 'f) \<Rightarrow> ('f \<Rightarrow> phys_frame option \<times> 'f) \<Rightarrow> u64 \<Rightarrow> config_space \<Rightarrow> 'd registers \<Rightarrow> disk \<Rightarrow>
    ('f tables_io \<times> 'd, panic + read_error, reader) io" where
  "start_queue alloc dma root cfg R disk = (\<lambda>((m, fs), d).
     if d_queue_size disk < 3 then (Inl (Inr (QueueTooSmall (d_queue_size disk))), (m, fs), d)
     else case in_one_frame QUEUE_SIZE PAGE_SIZE of
       None \<Rightarrow> (Inl (Inr (QueueTooBig QUEUE_SIZE)), (m, fs), d)
     | Some layout \<Rightarrow>
         (case dma fs of
            (None, fs) \<Rightarrow> (Inl (Inr ReadOutOfMemory), (m, fs), d)
          | (Some ring_frame, fs) \<Rightarrow>
              (case dma fs of
                 (None, fs) \<Rightarrow> (Inl (Inr ReadOutOfMemory), (m, fs), d)
               | (Some request_frame, fs) \<Rightarrow>
                   (let ring_phys = p_u64 (start_address ring_frame);
                        request_phys = p_u64 (start_address request_frame)
                    in case Option.bind (notify_location cfg (d_at disk)) (\<lambda>l.
                          Option.bind (decode_bar (d_header_bars disk) (loc_bar l)) (\<lambda>b.
                            map_option (Pair l) (memory_address b))) of
                         None \<Rightarrow> (Inl (Inr NoAnswer), (m, fs), d)
                       | Some (l, bar) \<Rightarrow>
                           (case u64_add bar (ucast (loc_offset l)) of
                              Inl p \<Rightarrow> (Inl (Inl p), (m, fs), d)
                            | Inr at \<Rightarrow>
                                (case map_registers alloc root at (loc_length l) (m, fs) of
                                   (Inl (Inl p), s) \<Rightarrow> (Inl (Inl p), s, d)
                                 | (Inl (Inr _), s) \<Rightarrow> (Inl (Inr NoAnswer), s, d)
                                 | (Inr notify_base, s) \<Rightarrow>
                                     (case configure_queue R ring_phys layout d of
                                        (taken, d) \<Rightarrow>
                                          if taken \<noteq> QUEUE_SIZE then (Inl (Inr (SizeRefused QUEUE_SIZE taken)), s, d)
                                          else (Inr \<lparr>r_queue = \<lparr>q_base = ring_phys, q_layout = layout\<rparr>,
                                                  r_notify = \<lparr>nt_base = v_u64 notify_base,
                                                              nt_multiplier = (case loc_notify_multiplier l of Some k \<Rightarrow> k | None \<Rightarrow> 0)\<rparr>,
                                                  r_request = request_phys\<rparr>, s, d))))))))"

section \<open>Requests\<close>

text \<open>
  The world of a request: shared memory and the device. \<open>act\<close> is what the device does with the memory when it
  gets to it, \<open>bell\<close> what a doorbell does to the device.
\<close>

record 'd device_ops =
  act :: "'d \<Rightarrow> dma \<Rightarrow> 'd \<times> dma"
  bell :: "u64 \<Rightarrow> u16 \<Rightarrow> 'd \<Rightarrow> 'd"

type_synonym 'd world = "dma \<times> 'd"

text \<open>The three descriptors, and everything that is written before the doorbell.\<close>

definition data_flags :: "bool \<Rightarrow> u16" where
  "data_flags writing = (if writing then DESC_NEXT else DESC_NEXT OR DESC_WRITE)"

definition prepare :: "reader \<Rightarrow> u32 \<Rightarrow> u64 \<Rightarrow> (dma \<Rightarrow> dma) \<Rightarrow> dma \<Rightarrow> u16 \<times> dma" where
  "prepare r ty sector fill m =
     (let writing = (ty = TYPE_OUT);
          m = put_bytes (r_request r + HEADER_AT) (request_header ty sector) m;
          m = put_bytes (r_request r + STATUS_AT) [0xFF] m;
          m = fill m;
          m = snd (set_descriptor (r_queue r) HEAD
                \<lparr>desc_address = r_request r + HEADER_AT, desc_length = of_nat HEADER_BYTES, desc_flags = DESC_NEXT, desc_next = DATA\<rparr> m);
          m = snd (set_descriptor (r_queue r) DATA
                \<lparr>desc_address = r_request r + DATA_AT, desc_length = BLOCK_SECTOR_BYTES, desc_flags = data_flags writing, desc_next = STATUS\<rparr> m);
          m = snd (set_descriptor (r_queue r) STATUS
                \<lparr>desc_address = r_request r + STATUS_AT, desc_length = 1, desc_flags = DESC_WRITE, desc_next = 0\<rparr> m)
      in publish (r_queue r) HEAD m)"

text \<open>The wait: \<open>looks\<close> more looks are allowed after one that finds nothing.\<close>

fun wait_used :: "'d device_ops \<Rightarrow> queue \<Rightarrow> u16 \<Rightarrow> nat \<Rightarrow> ('d world, read_error, unit) io" where
  "wait_used D q published looks (m, d) =
     (case act D d m of
        (d', m') \<Rightarrow>
          if used_index q m' = published then (Inr (), m', d')
          else if looks = 0 then (Inl NoAnswer, m', d')
          else wait_used D q published (looks - 1) (m', d'))"

definition check_done :: "reader \<Rightarrow> bool \<Rightarrow> u16 \<Rightarrow> dma \<Rightarrow> read_error + unit" where
  "check_done r writing published m =
     (let result = completion_at (r_queue r) (published - 1) m;
          st = m (r_request r + STATUS_AT);
          expected = (if writing then 1 else BLOCK_SECTOR_BYTES + 1)
      in if done_head result \<noteq> HEAD then Inl (WrongChain (done_head result))
         else if st \<noteq> STATUS_OK then Inl (Failed st)
         else if done_written result \<noteq> expected then Inl (ShortRead (done_written result))
         else Inr ())"

definition request :: "'d device_ops \<Rightarrow> reader \<Rightarrow> disk \<Rightarrow> u32 \<Rightarrow> u64 \<Rightarrow> (dma \<Rightarrow> dma) \<Rightarrow> ('d world, read_error, unit) io" where
  "request D r disk ty sector fill = (\<lambda>(m, d).
     let (published, m) = prepare r ty sector fill m;
         d = bell D (nt_base (r_notify r) + doorbell (r_notify r) (d_notify_offset disk)) QUEUE d
     in io_bind (wait_used D (r_queue r) published POLL_LIMIT) (\<lambda>_ (m, d).
          (check_done r (ty = TYPE_OUT) published m, m, d)) (m, d))"

definition blk_read_sector :: "'d device_ops \<Rightarrow> reader \<Rightarrow> disk \<Rightarrow> u64 \<Rightarrow> ('d world, read_error, bytes) io" where
  "blk_read_sector D r disk sector =
     io_bind (request D r disk TYPE_IN sector (\<lambda>m. m)) (\<lambda>_ (m, d). (Inr (get_bytes (r_request r + DATA_AT) 512 m), m, d))"

definition blk_write_sector :: "'d device_ops \<Rightarrow> reader \<Rightarrow> disk \<Rightarrow> u64 \<Rightarrow> bytes \<Rightarrow> ('d world, read_error, unit) io" where
  "blk_write_sector D r disk sector from =
     request D r disk TYPE_OUT sector (put_bytes (r_request r + DATA_AT) from)"

end
