(* ===== verification/Virtio_Disk.thy ===== *)
theory Virtio_Disk
  imports Virtio_Blk
begin

text \<open>
  The driver over a device that follows the specification is a disk: a read answers the bytes of the sector
  or an error and changes nothing, a write stores exactly its bytes in exactly its sector or answers an
  error. That is the contract \<open>medium\<close> the file system rests on, so everything proved of files over a medium
  holds over this driver. The device may be as slow as it likes, answer late, or refuse.
\<close>

section \<open>A frame of memory\<close>

text \<open>Offsets into a frame that does not wrap.\<close>

definition whole :: "u64 \<Rightarrow> bool" where
  "whole base \<longleftrightarrow> unat base + 4096 \<le> 2 ^ 64"

lemma unat_inside: "whole base \<Longrightarrow> unat k < 4096 \<Longrightarrow> unat (base + k) = unat base + unat k"
  unfolding whole_def by (rule unat_add_exact) simp

lemma put_same_frame:
  assumes "whole base" "unat k + length bs \<le> 4096" "unat j < 4096"
  shows "put_bytes (base + k) bs m (base + j) =
    (if unat k \<le> unat j \<and> unat j < unat k + length bs then bs ! (unat j - unat k) else m (base + j))"
proof (cases "unat k \<le> unat j \<and> unat j < unat k + length bs")
  case True
  have "unat (base + j - (base + k)) = unat j - unat k" using True by (simp add: unat_sub word_le_nat_alt)
  moreover have "unat j - unat k < length bs" using True by linarith
  ultimately show ?thesis using True by (simp add: put_bytes_def)
next
  case False
  show ?thesis
  proof (cases "bs = []")
    case True
    then show ?thesis by (auto simp: put_bytes_def)
  next
    case ne: False
    then have k: "unat k < 4096" using assms(2) by (cases bs) auto
    have "put_bytes (base + k) bs m (base + j) = m (base + j)"
      using False assms unat_inside [OF assms(1) k] unat_inside [OF assms(1,3)]
      by (intro put_bytes_outside) (auto simp: whole_def)
    then show ?thesis using False by metis
  qed
qed

lemma put_other_frame:
  assumes "whole a" "whole b" "clear_of a 4096 b 4096" "unat k + length bs \<le> 4096" "unat j < 4096"
  shows "put_bytes (a + k) bs m (b + j) = m (b + j)"
proof (cases "bs = []")
  case True
  then show ?thesis by (simp add: put_bytes_def)
next
  case False
  then have k: "unat k < 4096" using assms(4) by (cases bs) auto
  show ?thesis
    using assms unat_inside [OF assms(1) k] unat_inside [OF assms(2,5)]
    by (intro put_bytes_outside) (auto simp: whole_def clear_of_def)
qed

lemma clear_of_sym: "clear_of a n b n \<Longrightarrow> clear_of b n a n"
  by (auto simp: clear_of_def)

section \<open>The reader's two frames\<close>

definition reader_ok :: "reader \<Rightarrow> bool" where
  "reader_ok r \<longleftrightarrow> in_one_frame QUEUE_SIZE PAGE_SIZE = Some (q_layout (r_queue r)) \<and>
     whole (q_base (r_queue r)) \<and> whole (r_request r) \<and> clear_of (q_base (r_queue r)) 4096 (r_request r) 4096"

lemma reader_layout:
  "reader_ok r \<Longrightarrow> q_layout (r_queue r) = \<lparr>lay_size = 4, lay_descriptors = 0, lay_available = 0x400, lay_used = 0x800\<rparr>"
  by (auto simp: reader_ok_def in_one_frame_def QUEUE_SIZE_def PAGE_SIZE_def FRAME_SIZE_def DESCRIPTOR_BYTES_def AVAILABLE_AT_def USED_AT_def
      USED_RING_def USED_ENTRY_BYTES_def DESCRIPTORS_AT_def Let_def split: if_splits)

text \<open>Two memories that agree on the first bytes of a frame.\<close>

definition agree :: "u64 \<Rightarrow> nat \<Rightarrow> nat \<Rightarrow> dma \<Rightarrow> dma \<Rightarrow> bool" where
  "agree base lo hi m m' \<longleftrightarrow> (\<forall>j. lo \<le> unat j \<longrightarrow> unat j < hi \<longrightarrow> m' (base + j) = m (base + j))"

lemma agreeD: "agree base lo hi m m' \<Longrightarrow> lo \<le> unat j \<Longrightarrow> unat j < hi \<Longrightarrow> m' (base + j) = m (base + j)"
  by (simp add: agree_def)

lemma agree_refl [simp]: "agree base lo hi m m"
  by (simp add: agree_def)

lemma agree_trans: "agree base lo hi m m' \<Longrightarrow> agree base lo hi m' m'' \<Longrightarrow> agree base lo hi m m''"
  by (simp add: agree_def)

lemma agree_put_same:
  assumes "whole base" "unat k + length bs \<le> 4096" "hi \<le> 4096" "unat k + length bs \<le> lo \<or> hi \<le> unat k"
  shows "agree base lo hi m (put_bytes (base + k) bs m)"
  unfolding agree_def using assms put_same_frame [OF assms(1,2)] by auto

lemma agree_put_other:
  assumes "whole a" "whole b" "clear_of a 4096 b 4096" "unat k + length bs \<le> 4096" "hi \<le> 4096"
  shows "agree b lo hi m (put_bytes (a + k) bs m)"
  unfolding agree_def using put_other_frame [OF assms(1-4)] assms(5) by auto

section \<open>A device that follows the specification\<close>

text \<open>What the device reads in the memory it was given.\<close>

definition read_descriptor :: "queue \<Rightarrow> u16 \<Rightarrow> dma \<Rightarrow> descriptor" where
  "read_descriptor q i m =
     (let a = q_base q + (lay_descriptors (q_layout q) + ucast i * DESCRIPTOR_BYTES)
      in \<lparr>desc_address = get_u64 a m, desc_length = get_u32 (a + 8) m, desc_flags = get_u16 (a + 12) m, desc_next = get_u16 (a + 14) m\<rparr>)"

text \<open>
  The device as the driver can know it: the sectors, how far it has read the available ring, how many
  chains it has returned, and the memory. One chain served, with the status the device decides on and, if
  that is a failure, any number of bytes reported.
\<close>

type_synonym device_view = "(u64 \<Rightarrow> bytes) \<times> u16 \<times> u16 \<times> dma"

definition serve_chain :: "queue \<Rightarrow> u8 \<Rightarrow> u32 \<Rightarrow> device_view \<Rightarrow> device_view" where
  "serve_chain q st n = (\<lambda>(sectors, taken, returned, m).
     let head = get_u16 (q_base q + available_slot (q_layout q) taken) m;
         h = read_descriptor q head m;
         dt = read_descriptor q (desc_next h) m;
         sd = read_descriptor q (desc_next dt) m;
         ty = get_u32 (desc_address h) m;
         sector = get_u64 (desc_address h + 8) m;
         reads = (ty = TYPE_IN \<and> desc_length dt = 512 \<and> desc_flags dt AND DESC_WRITE \<noteq> 0);
         writes = (ty = TYPE_OUT \<and> desc_length dt = 512 \<and> desc_flags dt AND DESC_WRITE = 0);
         st = (if reads \<or> writes then st else STATUS_UNSUPPORTED);
         sectors' = (if st = STATUS_OK \<and> writes then sectors(sector := get_bytes (desc_address dt) 512 m) else sectors);
         m = (if st = STATUS_OK \<and> reads then put_bytes (desc_address dt) (sectors sector) m else m);
         m = put_bytes (desc_address sd) [st] m;
         wrote = (if st \<noteq> STATUS_OK then n else if reads then 513 else 1);
         m = put_bytes (q_base q + used_slot (q_layout q) returned) (u32_to_le (ucast head) @ u32_to_le wrote) m;
         m = put_bytes (q_base q + (lay_used (q_layout q) + USED_INDEX)) (u16_to_le (returned + 1)) m
     in (sectors', taken + 1, returned + 1, m))"

inductive serves :: "queue \<Rightarrow> device_view \<Rightarrow> device_view \<Rightarrow> bool" for q where
  chain: "taken \<noteq> available_index q m \<Longrightarrow> serves q (sectors, taken, returned, m) (serve_chain q st n (sectors, taken, returned, m))"

section \<open>The chain of a request\<close>

definition request_chain :: "reader \<Rightarrow> u32 \<Rightarrow> u64 \<Rightarrow> dma \<Rightarrow> bool" where
  "request_chain r ty sector m \<longleftrightarrow>
     read_descriptor (r_queue r) 0 m = \<lparr>desc_address = r_request r, desc_length = 16, desc_flags = 1, desc_next = 1\<rparr> \<and>
     read_descriptor (r_queue r) 1 m = \<lparr>desc_address = r_request r + 0x200, desc_length = 512, desc_flags = data_flags (ty = TYPE_OUT), desc_next = 2\<rparr> \<and>
     read_descriptor (r_queue r) 2 m = \<lparr>desc_address = r_request r + 0xE00, desc_length = 1, desc_flags = 2, desc_next = 0\<rparr> \<and>
     get_u32 (r_request r) m = ty \<and> get_u64 (r_request r + 8) m = sector"

definition slots_empty :: "reader \<Rightarrow> dma \<Rightarrow> bool" where
  "slots_empty r m \<longleftrightarrow> (\<forall>i. get_u16 (q_base (r_queue r) + available_slot (q_layout (r_queue r)) i) m = 0)"

lemma mod_4_cases: "(i :: u16) mod 4 = 0 \<or> i mod 4 = 1 \<or> i mod 4 = 2 \<or> i mod 4 = 3"
proof -
  have "unat (i mod 4) < 4" by (simp add: unat_mod)
  then have "unat (i mod 4) = 0 \<or> unat (i mod 4) = 1 \<or> unat (i mod 4) = 2 \<or> unat (i mod 4) = 3" by linarith
  then show ?thesis by (auto simp: word_unat_eq_iff)
qed

lemmas queue_consts = DESCRIPTOR_BYTES_def AVAILABLE_RING_def AVAILABLE_INDEX_def USED_RING_def USED_INDEX_def USED_ENTRY_BYTES_def

lemma slot_offsets:
  assumes "reader_ok r"
  shows "available_slot (q_layout (r_queue r)) i \<in> {0x404, 0x406, 0x408, 0x40A}" "used_slot (q_layout (r_queue r)) i \<in> {0x804, 0x80C, 0x814, 0x81C}"
proof -
  define k where "k = i mod 4"
  have k: "k = 0 \<or> k = 1 \<or> k = 2 \<or> k = 3" unfolding k_def by (rule mod_4_cases)
  have "available_slot (q_layout (r_queue r)) i = 0x404 + ucast k * 2" "used_slot (q_layout (r_queue r)) i = 0x804 + ucast k * 8"
    by (simp_all add: available_slot_def used_slot_def reader_layout [OF assms] queue_consts k_def)
  then show "available_slot (q_layout (r_queue r)) i \<in> {0x404, 0x406, 0x408, 0x40A}" "used_slot (q_layout (r_queue r)) i \<in> {0x804, 0x80C, 0x814, 0x81C}"
    using k by auto
qed

text \<open>What the driver's side of the memory says does not depend on the bytes the device writes.\<close>

lemma get_u16_agree: "agree base lo hi m m' \<Longrightarrow> lo \<le> unat k \<Longrightarrow> unat k + 2 \<le> hi \<Longrightarrow> hi \<le> 4096 \<Longrightarrow> get_u16 (base + k) m' = get_u16 (base + k) m"
  using agreeD [of base lo hi m m' k] agreeD [of base lo hi m m' "k + 1"] unat_add_exact [of k 1]
  by (simp add: get_u16_def add.assoc)

lemma get_u32_agree: "agree base lo hi m m' \<Longrightarrow> lo \<le> unat k \<Longrightarrow> unat k + 4 \<le> hi \<Longrightarrow> hi \<le> 4096 \<Longrightarrow> get_u32 (base + k) m' = get_u32 (base + k) m"
  using agreeD [of base lo hi m m' k] agreeD [of base lo hi m m' "k + 1"] agreeD [of base lo hi m m' "k + 2"] agreeD [of base lo hi m m' "k + 3"]
    unat_add_exact [of k 1] unat_add_exact [of k 2] unat_add_exact [of k 3]
  by (simp add: get_u32_def add.assoc)

lemma get_u64_agree: "agree base lo hi m m' \<Longrightarrow> lo \<le> unat k \<Longrightarrow> unat k + 8 \<le> hi \<Longrightarrow> hi \<le> 4096 \<Longrightarrow> get_u64 (base + k) m' = get_u64 (base + k) m"
  using get_u32_agree [of base lo hi m m' k] get_u32_agree [of base lo hi m m' "k + 4"] unat_add_exact [of k 4]
  by (simp add: get_u64_def add.assoc)

lemma get_bytes_agree:
  assumes "agree base lo hi m m'" "lo \<le> unat k" "unat k + n \<le> hi" "hi \<le> 4096"
  shows "get_bytes (base + k) n m' = get_bytes (base + k) n m"
proof -
  have "m' (base + k + of_nat i) = m (base + k + of_nat i)" if "i < n" for i
  proof -
    have "unat (k + of_nat i) = unat k + i" using that assms(3,4) by (simp add: unat_add_exact unat_of_nat_exact)
    then show ?thesis using agreeD [OF assms(1), of "k + of_nat i"] that assms(2,3) by (simp add: add.assoc)
  qed
  then show ?thesis by (simp add: get_bytes_def)
qed

lemma request_chain_agree:
  assumes "reader_ok r" "agree (q_base (r_queue r)) 0 0x800 m m'" "agree (r_request r) 0 16 m m'"
  shows "request_chain r ty sector m' = request_chain r ty sector m" "slots_empty r m' = slots_empty r m"
    "available_index (r_queue r) m' = available_index (r_queue r) m"
proof -
  have d: "read_descriptor (r_queue r) i m' = read_descriptor (r_queue r) i m" if "i \<in> {0, 1, 2}" for i
    using that get_u16_agree [OF assms(2)] get_u32_agree [OF assms(2)] get_u64_agree [OF assms(2)] get_u64_agree [OF assms(2), of 0]
    by (auto simp: read_descriptor_def reader_layout [OF assms(1)] queue_consts Let_def add.assoc)
  have "get_u32 (r_request r) m' = get_u32 (r_request r) m" using get_u32_agree [OF assms(3), of 0] by simp
  moreover have "get_u64 (r_request r + 8) m' = get_u64 (r_request r + 8) m" using get_u64_agree [OF assms(3), of 8] by simp
  ultimately show "request_chain r ty sector m' = request_chain r ty sector m" using d by (simp add: request_chain_def)
  have "get_u16 (q_base (r_queue r) + available_slot (q_layout (r_queue r)) i) m' = get_u16 (q_base (r_queue r) + available_slot (q_layout (r_queue r)) i) m" for i
    using slot_offsets(1) [OF assms(1), of i] get_u16_agree [OF assms(2)] by auto
  then show "slots_empty r m' = slots_empty r m" by (simp add: slots_empty_def)
  show "available_index (r_queue r) m' = available_index (r_queue r) m"
    using get_u16_agree [OF assms(2)] by (simp add: available_index_def reader_layout [OF assms(1)] queue_consts)
qed

text \<open>The memory after a chain was served: the data if it was a read that worked, the status, the used ring.\<close>

definition after_chain :: "reader \<Rightarrow> bytes option \<Rightarrow> u8 \<Rightarrow> u64 \<Rightarrow> bytes \<Rightarrow> bytes \<Rightarrow> dma \<Rightarrow> dma" where
  "after_chain r data st slot elem idx m =
     put_bytes (q_base (r_queue r) + 0x802) idx (put_bytes (q_base (r_queue r) + slot) elem
       (put_bytes (r_request r + 0xE00) [st] (case data of None \<Rightarrow> m | Some bs \<Rightarrow> put_bytes (r_request r + 0x200) bs m)))"

lemma after_chain_agree:
  assumes r: "reader_ok r" and len: "data = None \<or> (\<exists>bs. data = Some bs \<and> length bs = 512)" "length elem = 8" "length idx = 2"
    and slot: "slot \<in> {0x804, 0x80C, 0x814, 0x81C}"
  shows "agree (q_base (r_queue r)) 0 0x800 m (after_chain r data st slot elem idx m)"
    "agree (r_request r) 0 16 m (after_chain r data st slot elem idx m)"
    "data = None \<Longrightarrow> agree (r_request r) 0x200 0x400 m (after_chain r data st slot elem idx m)"
    "data = Some bs \<Longrightarrow> get_bytes (r_request r + 0x200) 512 (after_chain r data st slot elem idx m) = bs"
    "after_chain r data st slot elem idx m (r_request r + 0xE00) = st"
proof -
  let ?q = "q_base (r_queue r)" and ?p = "r_request r"
  have w: "whole ?q" "whole ?p" "clear_of ?q 4096 ?p 4096" "clear_of ?p 4096 ?q 4096"
    using r clear_of_sym by (auto simp: reader_ok_def)
  let ?m1 = "case data of None \<Rightarrow> m | Some bs \<Rightarrow> put_bytes (?p + 0x200) bs m"
  let ?m2 = "put_bytes (?p + 0xE00) [st] ?m1"
  let ?m3 = "put_bytes (?q + slot) elem ?m2"
  let ?m4 = "put_bytes (?q + 0x802) idx ?m3"
  have s: "unat slot + 8 \<le> 4096" "0x804 \<le> unat slot" using slot by auto
  have q1: "agree ?q 0 0x800 m ?m1" using len(1) agree_put_other [OF w(2,1,4)] by auto
  have q2: "agree ?q 0 0x800 ?m1 ?m2" by (rule agree_put_other [OF w(2,1,4)]) simp_all
  have q3: "agree ?q 0 0x800 ?m2 ?m3" using s len(2) by (intro agree_put_same [OF w(1)]) auto
  have q4: "agree ?q 0 0x800 ?m3 ?m4" using len(3) by (intro agree_put_same [OF w(1)]) auto
  have p3: "agree ?p lo hi ?m2 ?m3" if "hi \<le> 4096" for lo hi using that s len(2) by (intro agree_put_other [OF w(1,2,3)]) auto
  have p4: "agree ?p lo hi ?m3 ?m4" if "hi \<le> 4096" for lo hi using that len(3) by (intro agree_put_other [OF w(1,2,3)]) auto
  have p2: "agree ?p lo hi ?m1 ?m2" if "hi \<le> 0xE00" for lo hi using that by (intro agree_put_same [OF w(2)]) auto
  have p1: "agree ?p 0 16 m ?m1" using len(1) agree_put_same [OF w(2)] by auto
  have tail: "agree ?p lo hi ?m1 ?m4" if "hi \<le> 0xE00" for lo hi
  proof -
    have "hi \<le> 4096" using that by simp
    then show ?thesis using agree_trans [OF agree_trans [OF p2 [OF that] p3] p4] by blast
  qed
  show "agree ?q 0 0x800 m (after_chain r data st slot elem idx m)"
    unfolding after_chain_def using agree_trans [OF agree_trans [OF agree_trans [OF q1 q2] q3] q4] .
  show "agree ?p 0 16 m (after_chain r data st slot elem idx m)"
    unfolding after_chain_def using agree_trans [OF p1 tail [of 16 0]] by simp
  show "agree ?p 0x200 0x400 m (after_chain r data st slot elem idx m)" if "data = None"
    unfolding after_chain_def using tail [of "0x400" "0x200"] that by simp
  show "get_bytes (?p + 0x200) 512 (after_chain r data st slot elem idx m) = bs" if d: "data = Some bs"
  proof -
    have l: "length bs = 512" using len(1) d by auto
    have "get_bytes (?p + 0x200) 512 ?m4 = get_bytes (?p + 0x200) 512 ?m1"
      by (rule get_bytes_agree [OF tail [of "0x400" "0x200"]]) simp_all
    also have "\<dots> = bs" using get_put_same [of bs "?p + 0x200" m] l d by simp
    finally show ?thesis by (simp add: after_chain_def)
  qed
  have "?m4 (?p + 0xE00) = ?m2 (?p + 0xE00)"
    using agreeD [OF p4 [of 4096 0], of "0xE00"] agreeD [OF p3 [of 4096 0], of "0xE00"] by simp
  also have "\<dots> = st" using put_same_frame [OF w(2), of "0xE00" "[st]" "0xE00"] by simp
  finally show "after_chain r data st slot elem idx m (?p + 0xE00) = st" by (simp add: after_chain_def)
qed

lemma serve_chain_eq:
  assumes r: "reader_ok r" and c: "request_chain r ty sector m" "slots_empty r m" "ty = TYPE_IN \<or> ty = TYPE_OUT"
  shows "serve_chain (r_queue r) st n (sectors, taken, returned, m) =
      (if ty = TYPE_OUT \<and> st = 0 then sectors(sector := get_bytes (r_request r + 0x200) 512 m) else sectors, taken + 1, returned + 1,
       after_chain r (if ty = TYPE_IN \<and> st = 0 then Some (sectors sector) else None) st (used_slot (q_layout (r_queue r)) returned)
         (u32_to_le 0 @ u32_to_le (if st \<noteq> STATUS_OK then n else if ty = TYPE_IN then 513 else 1)) (u16_to_le (returned + 1)) m)"
proof -
  have h: "get_u16 (q_base (r_queue r) + available_slot (q_layout (r_queue r)) taken) m = 0" using c(2) by (simp add: slots_empty_def)
  have fl: "data_flags True AND DESC_WRITE = 0" "data_flags False AND DESC_WRITE \<noteq> 0" by (simp_all add: data_flags_def DESC_NEXT_def DESC_WRITE_def)
  have lay: "lay_used (q_layout (r_queue r)) = 0x800" by (simp add: reader_layout [OF r])
  have ty: "TYPE_IN \<noteq> TYPE_OUT" by (simp add: TYPE_IN_def TYPE_OUT_def)
  have D: "read_descriptor (r_queue r) 0 m = \<lparr>desc_address = r_request r, desc_length = 16, desc_flags = 1, desc_next = 1\<rparr>"
    "read_descriptor (r_queue r) 1 m = \<lparr>desc_address = r_request r + 0x200, desc_length = 512, desc_flags = data_flags (ty = TYPE_OUT), desc_next = 2\<rparr>"
    "read_descriptor (r_queue r) 2 m = \<lparr>desc_address = r_request r + 0xE00, desc_length = 1, desc_flags = 2, desc_next = 0\<rparr>"
    "get_u32 (r_request r) m = ty" "get_u64 (r_request r + 8) m = sector"
    using c(1) by (simp_all only: request_chain_def)
  show ?thesis
    using c(3)
    by (elim disjE; cases "st = 0")
       (simp_all add: serve_chain_def Let_def h D fl ty ty [symmetric] after_chain_def STATUS_OK_def USED_INDEX_def lay)
qed

lemma serve_chain_cases:
  assumes r: "reader_ok r" and c: "request_chain r ty sector m" "slots_empty r m" "ty = TYPE_IN \<or> ty = TYPE_OUT"
    and sv: "serve_chain (r_queue r) st n (sectors, taken, returned, m) = (sectors', taken', returned', m')"
  shows "\<exists>slot elem idx. m' = after_chain r (if ty = TYPE_IN \<and> st = 0 then Some (sectors sector) else None) st slot elem idx m \<and>
      slot \<in> {0x804, 0x80C, 0x814, 0x81C} \<and> length elem = 8 \<and> length idx = 2"
    "sectors' = (if ty = TYPE_OUT \<and> st = 0 then sectors(sector := get_bytes (r_request r + 0x200) 512 m) else sectors)"
proof -
  note S = serve_chain_eq [OF r c, of st n sectors taken returned]
  show "\<exists>slot elem idx. m' = after_chain r (if ty = TYPE_IN \<and> st = 0 then Some (sectors sector) else None) st slot elem idx m \<and>
      slot \<in> {0x804, 0x80C, 0x814, 0x81C} \<and> length elem = 8 \<and> length idx = 2"
    using S sv slot_offsets(2) [OF r, of returned]
    by (intro exI [of _ "used_slot (q_layout (r_queue r)) returned"]
          exI [of _ "u32_to_le 0 @ u32_to_le (if st \<noteq> STATUS_OK then n else if ty = TYPE_IN then 513 else 1)"] exI [of _ "u16_to_le (returned + 1)"]) auto
  show "sectors' = (if ty = TYPE_OUT \<and> st = 0 then sectors(sector := get_bytes (r_request r + 0x200) 512 m) else sectors)"
    using S sv by auto
qed

section \<open>What the driver writes\<close>

lemma get_put_inside:
  assumes "whole base" "unat k + length bs \<le> 4096" "unat k \<le> unat j" "unat j + n \<le> unat k + length bs"
  shows "get_bytes (base + j) n (put_bytes (base + k) bs m) = take n (drop (unat j - unat k) bs)"
proof (rule nth_equalityI)
  show "length (get_bytes (base + j) n (put_bytes (base + k) bs m)) = length (take n (drop (unat j - unat k) bs))"
    using assms(3,4) by simp
  fix i assume "i < length (get_bytes (base + j) n (put_bytes (base + k) bs m))"
  then have i: "i < n" by simp
  have u: "unat (j + of_nat i) = unat j + i" using i assms(2,4) by (simp add: unat_add_exact unat_of_nat_exact)
  have "put_bytes (base + k) bs m (base + (j + of_nat i)) = bs ! (unat j + i - unat k)"
    using put_same_frame [OF assms(1,2), of "j + of_nat i" m] u i assms(2-4) by simp
  then show "get_bytes (base + j) n (put_bytes (base + k) bs m) ! i = take n (drop (unat j - unat k) bs) ! i"
    using i assms(3,4) by (simp add: get_bytes_def add.assoc)
qed

lemma get_put_apart:
  assumes "whole base" "unat k + length bs \<le> 4096" "unat j + n \<le> 4096" "unat j + n \<le> unat k \<or> unat k + length bs \<le> unat j"
  shows "get_bytes (base + j) n (put_bytes (base + k) bs m) = get_bytes (base + j) n m"
proof -
  have "agree base (unat j) (unat j + n) m (put_bytes (base + k) bs m)" using assms by (intro agree_put_same) auto
  then show ?thesis by (rule get_bytes_agree) (use assms(3) in simp_all)
qed

lemma get_put_elsewhere:
  assumes "whole a" "whole b" "clear_of a 4096 b 4096" "unat k + length bs \<le> 4096" "unat j + n \<le> 4096"
  shows "get_bytes (b + j) n (put_bytes (a + k) bs m) = get_bytes (b + j) n m"
proof -
  have "agree b (unat j) (unat j + n) m (put_bytes (a + k) bs m)" using assms by (intro agree_put_other) auto
  then show ?thesis by (rule get_bytes_agree) (use assms(5) in simp_all)
qed

lemma length_u64_to_le [simp]: "length (u64_to_le w) = 8"
  by (simp add: u64_to_le_def)

lemma get_u16_bytes: "get_bytes a 2 m = u16_to_le w \<Longrightarrow> get_u16 a m = w"
  by (simp add: get_bytes_def u16_to_le_def get_u16_def upt_rec u16_le_roundtrip)

lemma get_u32_bytes: "get_bytes a 4 m = u32_to_le w \<Longrightarrow> get_u32 a m = w"
  by (simp add: get_bytes_def u32_to_le_def get_u32_def upt_rec u32_le_roundtrip)

lemma get_u64_bytes:
  assumes "get_bytes a 8 m = u64_to_le w"
  shows "get_u64 a m = w"
proof -
  let ?lo = "ucast w :: u32" and ?hi = "ucast (drop_bit 32 w) :: u32"
  have b: "m (a + of_nat i) = ucast (drop_bit (8 * i) w)" if "i < 8" for i
  proof -
    have "get_bytes a 8 m ! i = u64_to_le w ! i" using assms by simp
    then show ?thesis using that by (simp add: get_bytes_def u64_to_le_def)
  qed
  have sub: "(ucast (drop_bit k ?lo) :: u8) = ucast (drop_bit k w)" if "k \<le> 24" for k
    using that by (intro bit_word_eqI) (auto simp: bit_simps)
  have sub': "(ucast (drop_bit k ?hi) :: u8) = ucast (drop_bit (k + 32) w)" if "k \<le> 24" for k
    using that by (intro bit_word_eqI) (auto simp: bit_simps ac_simps)
  have "get_u32 a m = ?lo"
    using b [of 0] b [of 1] b [of 2] b [of 3] sub [of 8] sub [of 16] sub [of 24] sub [of 0] u32_le_roundtrip [of ?lo]
    by (simp add: get_u32_def)
  moreover have "get_u32 (a + 4) m = ?hi"
    using b [of 4] b [of 5] b [of 6] b [of 7] sub' [of 8] sub' [of 16] sub' [of 24] sub' [of 0] u32_le_roundtrip [of ?hi]
    by (simp add: get_u32_def add.assoc)
  moreover have "ucast ?lo OR push_bit 32 (ucast ?hi) = w"
    by (rule bit_word_eqI) (auto simp: bit_simps)
  ultimately show ?thesis by (simp add: get_u64_def)
qed

text \<open>The whole of what is written before the doorbell, at its offsets.\<close>

definition chain_memory :: "reader \<Rightarrow> u32 \<Rightarrow> u64 \<Rightarrow> dma \<Rightarrow> dma" where
  "chain_memory r ty sector m =
     (let q = q_base (r_queue r); p = r_request r in
      put_bytes (q + 0x2E) (u16_to_le 0) (put_bytes (q + 0x2C) (u16_to_le 2) (put_bytes (q + 0x28) (u32_to_le 1) (put_bytes (q + 0x20) (u64_to_le (p + 0xE00))
        (put_bytes (q + 0x1E) (u16_to_le 2) (put_bytes (q + 0x1C) (u16_to_le (data_flags (ty = TYPE_OUT))) (put_bytes (q + 0x18) (u32_to_le 512) (put_bytes (q + 0x10) (u64_to_le (p + 0x200))
          (put_bytes (q + 0x0E) (u16_to_le 1) (put_bytes (q + 0x0C) (u16_to_le 1) (put_bytes (q + 0x08) (u32_to_le 16) (put_bytes (q + 0) (u64_to_le p) m))))))))))))"

lemma prepare_memory:
  assumes "reader_ok r"
  shows "prepare r ty sector fill m =
    publish (r_queue r) 0 (chain_memory r ty sector
      (fill (put_bytes (r_request r + 0xE00) [0xFF] (put_bytes (r_request r + 0) (request_header ty sector) m))))"
  by (simp add: prepare_def chain_memory_def set_descriptor_def descriptor_at_def reader_layout [OF assms] DESCRIPTOR_BYTES_def HEAD_def DATA_def
      STATUS_def HEADER_AT_def DATA_AT_def STATUS_AT_def HEADER_BYTES_def BLOCK_SECTOR_BYTES_def DESC_NEXT_def DESC_WRITE_def Let_def word_le_nat_alt)

lemma chain_memory_descriptors:
  assumes "reader_ok r" "ty = TYPE_IN \<or> ty = TYPE_OUT"
  shows "read_descriptor (r_queue r) 0 (chain_memory r ty sector m) = \<lparr>desc_address = r_request r, desc_length = 16, desc_flags = 1, desc_next = 1\<rparr>"
    "read_descriptor (r_queue r) 1 (chain_memory r ty sector m) =
       \<lparr>desc_address = r_request r + 0x200, desc_length = 512, desc_flags = data_flags (ty = TYPE_OUT), desc_next = 2\<rparr>"
    "read_descriptor (r_queue r) 2 (chain_memory r ty sector m) = \<lparr>desc_address = r_request r + 0xE00, desc_length = 1, desc_flags = 2, desc_next = 0\<rparr>"
proof -
  let ?m = "chain_memory r ty sector m" and ?q = "q_base (r_queue r)"
  have w: "whole ?q" using assms(1) by (simp add: reader_ok_def)
  note G = chain_memory_def Let_def get_put_inside [OF w] get_put_apart [OF w]
  have d0: "get_bytes (?q + 0) 8 ?m = u64_to_le (r_request r)" "get_bytes (?q + 8) 4 ?m = u32_to_le 16"
    "get_bytes (?q + 12) 2 ?m = u16_to_le 1" "get_bytes (?q + 14) 2 ?m = u16_to_le 1"
    by (simp_all add: G del: add_0_right)
  have d1: "get_bytes (?q + 16) 8 ?m = u64_to_le (r_request r + 0x200)" "get_bytes (?q + 24) 4 ?m = u32_to_le 512"
    "get_bytes (?q + 28) 2 ?m = u16_to_le (data_flags (ty = TYPE_OUT))" "get_bytes (?q + 30) 2 ?m = u16_to_le 2"
    by (simp_all add: G del: add_0_right)
  have d2: "get_bytes (?q + 32) 8 ?m = u64_to_le (r_request r + 0xE00)" "get_bytes (?q + 40) 4 ?m = u32_to_le 1"
    "get_bytes (?q + 44) 2 ?m = u16_to_le 2" "get_bytes (?q + 46) 2 ?m = u16_to_le 0"
    by (simp_all add: G del: add_0_right)
  note N = get_u64_bytes get_u32_bytes get_u16_bytes
  show "read_descriptor (r_queue r) 0 ?m = \<lparr>desc_address = r_request r, desc_length = 16, desc_flags = 1, desc_next = 1\<rparr>"
    using N(1) [OF d0(1)] N(2) [OF d0(2)] N(3) [OF d0(3)] N(3) [OF d0(4)]
    by (simp add: read_descriptor_def reader_layout [OF assms(1)] DESCRIPTOR_BYTES_def)
  show "read_descriptor (r_queue r) 1 ?m =
       \<lparr>desc_address = r_request r + 0x200, desc_length = 512, desc_flags = data_flags (ty = TYPE_OUT), desc_next = 2\<rparr>"
    using N(1) [OF d1(1)] N(2) [OF d1(2)] N(3) [OF d1(3)] N(3) [OF d1(4)]
    by (simp add: read_descriptor_def reader_layout [OF assms(1)] DESCRIPTOR_BYTES_def add.assoc)
  show "read_descriptor (r_queue r) 2 ?m = \<lparr>desc_address = r_request r + 0xE00, desc_length = 1, desc_flags = 2, desc_next = 0\<rparr>"
    using N(1) [OF d2(1)] N(2) [OF d2(2)] N(3) [OF d2(3)] N(3) [OF d2(4)]
    by (simp add: read_descriptor_def reader_layout [OF assms(1)] DESCRIPTOR_BYTES_def add.assoc)
qed

text \<open>The descriptors and the rings are written in the ring frame; the request frame keeps what it holds.\<close>

lemma chain_memory_agree:
  assumes "reader_ok r"
  shows "agree (r_request r) 0 4096 m (chain_memory r ty sector m)" "agree (q_base (r_queue r)) 0x400 4096 m (chain_memory r ty sector m)"
proof -
  let ?q = "q_base (r_queue r)" and ?p = "r_request r"
  have w: "whole ?q" "whole ?p" "clear_of ?q 4096 ?p 4096" using assms by (auto simp: reader_ok_def)
  have p: "agree ?p 0 4096 m' m'' \<Longrightarrow> unat k + length bs \<le> 4096 \<Longrightarrow> agree ?p 0 4096 m' (put_bytes (?q + k) bs m'')" for m' m'' k bs
    using agree_trans agree_put_other [OF w] by blast
  have q: "agree ?q 0x400 4096 m' m'' \<Longrightarrow> unat k + length bs \<le> 0x400 \<Longrightarrow> agree ?q 0x400 4096 m' (put_bytes (?q + k) bs m'')" for m' m'' k bs
    using agree_trans agree_put_same [OF w(1)] by simp
  show "agree ?p 0 4096 m (chain_memory r ty sector m)"
    unfolding chain_memory_def Let_def by (intro p agree_refl) simp_all
  show "agree ?q 0x400 4096 m (chain_memory r ty sector m)"
    unfolding chain_memory_def Let_def by (intro q agree_refl) simp_all
qed

lemma publish_spec:
  assumes r: "reader_ok r" and pub: "publish (r_queue r) 0 m = (p, m')" and s: "slots_empty r m"
  shows "p = available_index (r_queue r) m + 1" "agree (q_base (r_queue r)) 0 0x400 m m'" "agree (r_request r) 0 4096 m m'" "slots_empty r m'"
    "available_index (r_queue r) m' = p"
proof -
  let ?q = "q_base (r_queue r)" and ?p = "r_request r" and ?i = "available_index (r_queue r) m"
  have w: "whole ?q" "whole ?p" "clear_of ?q 4096 ?p 4096" using r by (auto simp: reader_ok_def)
  define sl where "sl = available_slot (q_layout (r_queue r)) ?i"
  let ?m1 = "put_bytes (?q + sl) (u16_to_le 0) m"
  have sl: "unat sl + 2 \<le> 0x40C" "0x404 \<le> unat sl" using slot_offsets(1) [OF r, of ?i] by (auto simp: sl_def)
  have m': "p = ?i + 1" "m' = put_bytes (?q + 0x402) (u16_to_le (?i + 1)) ?m1"
    using pub by (auto simp: publish_def Let_def sl_def reader_layout [OF r] AVAILABLE_INDEX_def)
  show "p = ?i + 1" by (rule m'(1))
  have a: "agree ?q 0 0x400 m ?m1" "agree ?q 0 0x400 ?m1 m'" "agree ?p 0 4096 m ?m1" "agree ?p 0 4096 ?m1 m'"
    unfolding m'(2) using sl agree_put_same [OF w(1)] agree_put_other [OF w] by auto
  show "agree ?q 0 0x400 m m'" "agree ?p 0 4096 m m'" using agree_trans a by blast+
  show "available_index (r_queue r) m' = p"
    using get_put_inside [OF w(1), of "0x402" "u16_to_le p" "0x402" 2 ?m1]
    by (simp add: available_index_def reader_layout [OF r] AVAILABLE_INDEX_def m' get_u16_bytes)
  show "slots_empty r m'" unfolding slots_empty_def
  proof
    fix i
    define x where "x = available_slot (q_layout (r_queue r)) i"
    have x: "unat x + 2 \<le> 0x40C" "0x404 \<le> unat x" using slot_offsets(1) [OF r, of i] by (auto simp: x_def)
    have "get_bytes (?q + x) 2 m' = get_bytes (?q + x) 2 ?m1" unfolding m'(2) by (rule get_put_apart [OF w(1)]) (use x in simp_all)
    moreover have "get_u16 (?q + x) ?m1 = 0"
    proof (cases "x = sl")
      case True
      then show ?thesis using get_put_inside [OF w(1), of sl "u16_to_le 0" sl 2 m] sl by (simp add: get_u16_bytes)
    next
      case False
      have "unat x + 2 \<le> unat sl \<or> unat sl + 2 \<le> unat x"
        using False slot_offsets(1) [OF r, of i] slot_offsets(1) [OF r, of ?i] by (auto simp: x_def sl_def)
      then have "agree ?q (unat x) (unat x + 2) m ?m1" using sl x by (intro agree_put_same [OF w(1)]) auto
      then have "get_u16 (?q + x) ?m1 = get_u16 (?q + x) m" by (rule get_u16_agree) (use x in simp_all)
      then show ?thesis using s by (simp add: slots_empty_def x_def)
    qed
    moreover have "get_u16 a m' = get_u16 a ?m1" if "get_bytes a 2 m' = get_bytes a 2 ?m1" for a
      using that by (simp add: get_bytes_def get_u16_def upt_rec)
    ultimately show "get_u16 (?q + available_slot (q_layout (r_queue r)) i) m' = 0" by (simp add: x_def)
  qed
qed

text \<open>\<open>fill\<close> writes nothing but the data of the request.\<close>

definition fills :: "reader \<Rightarrow> (dma \<Rightarrow> dma) \<Rightarrow> bool" where
  "fills r fill \<longleftrightarrow> (\<forall>m. agree (q_base (r_queue r)) 0 4096 m (fill m) \<and> agree (r_request r) 0 16 m (fill m) \<and>
     agree (r_request r) 0xE00 4096 m (fill m))"

lemma prepare_spec:
  assumes r: "reader_ok r" and ty: "ty = TYPE_IN \<or> ty = TYPE_OUT" and f: "fills r fill" and s: "slots_empty r m"
    and p: "prepare r ty sector fill m = (published, m')"
  shows "request_chain r ty sector m'" "slots_empty r m'" "m' (r_request r + 0xE00) = 0xFF" "available_index (r_queue r) m' = published"
    "published = available_index (r_queue r) m + 1"
    "\<exists>m0. agree (r_request r) 0 4096 (fill m0) m'"
proof -
  let ?q = "q_base (r_queue r)" and ?p = "r_request r"
  have w: "whole ?q" "whole ?p" "clear_of ?q 4096 ?p 4096" "clear_of ?p 4096 ?q 4096"
    using r clear_of_sym by (auto simp: reader_ok_def)
  define m1 where "m1 = put_bytes (?p + 0xE00) [0xFF] (put_bytes (?p + 0) (request_header ty sector) m)"
  let ?m2 = "fill m1"
  let ?m3 = "chain_memory r ty sector ?m2"
  have pub: "publish (r_queue r) 0 ?m3 = (published, m')" using p prepare_memory [OF r] by (simp add: m1_def)
  have hl: "length (request_header ty sector) = 16" by (simp add: request_header_def)
  have q1: "agree ?q 0 4096 m m1" unfolding m1_def
    by (rule agree_trans [OF agree_put_other [OF w(2,1,4)] agree_put_other [OF w(2,1,4)]]) (simp_all add: hl)
  have f': "agree ?q 0 4096 m1 ?m2" "agree ?p 0 16 m1 ?m2" "agree ?p 0xE00 4096 m1 ?m2" using f by (simp_all add: fills_def)
  note C = chain_memory_agree [OF r, of ?m2 ty sector]
  have q: "agree ?q 0x400 0x800 m ?m3"
    using agreeD [OF q1] agreeD [OF f'(1)] agreeD [OF C(2)] by (simp add: agree_def)
  have ai: "available_index (r_queue r) ?m3 = available_index (r_queue r) m"
    using get_u16_agree [OF q] by (simp add: available_index_def reader_layout [OF r] AVAILABLE_INDEX_def)
  have "get_u16 (?q + available_slot (q_layout (r_queue r)) i) ?m3 = get_u16 (?q + available_slot (q_layout (r_queue r)) i) m" for i
    using slot_offsets(1) [OF r, of i] by (intro get_u16_agree [OF q]) auto
  then have se: "slots_empty r ?m3" using s by (simp add: slots_empty_def)
  note P = publish_spec [OF r pub se]
  show "slots_empty r m'" "available_index (r_queue r) m' = published" by (rule P(4), rule P(5))
  show "published = available_index (r_queue r) m + 1" using P(1) ai by simp
  have p3: "agree ?p 0 4096 ?m2 m'" using agree_trans [OF C(1) P(3)] .
  then show "\<exists>m0. agree (r_request r) 0 4096 (fill m0) m'" by blast
  have h: "agree ?p 0 16 m1 m'" using agreeD [OF f'(2)] agreeD [OF p3] by (simp add: agree_def)
  have st: "agree ?p 0xE00 4096 m1 m'" using agreeD [OF f'(3)] agreeD [OF p3] by (simp add: agree_def)
  have "m1 (?p + 0xE00) = 0xFF" unfolding m1_def using put_same_frame [OF w(2), of "0xE00" "[0xFF]" "0xE00"] by simp
  then show "m' (?p + 0xE00) = 0xFF" using agreeD [OF st, of "0xE00"] by simp
  have "get_bytes (?p + 0) 4 m1 = u32_to_le ty" "get_bytes (?p + 8) 8 m1 = u64_to_le sector"
    unfolding m1_def using get_put_apart [OF w(2), of "0xE00" "[0xFF]"] get_put_inside [OF w(2), of 0 "request_header ty sector"] hl
    by (simp_all add: request_header_def del: add_0_right)
  then have "get_u32 ?p m' = ty" "get_u64 (?p + 8) m' = sector"
    using get_u32_bytes get_u64_bytes get_u32_agree [OF h, of 0] get_u64_agree [OF h, of 8] by simp_all
  moreover have "read_descriptor (r_queue r) i m' = read_descriptor (r_queue r) i ?m3" if "i \<in> {0, 1, 2}" for i
    using that get_u16_agree [OF P(2)] get_u32_agree [OF P(2)] get_u64_agree [OF P(2)] get_u64_agree [OF P(2), of 0]
    by (auto simp: read_descriptor_def reader_layout [OF r] queue_consts Let_def add.assoc)
  ultimately show "request_chain r ty sector m'" using chain_memory_descriptors [OF r ty] by (simp add: request_chain_def)
qed

section \<open>A request\<close>

text \<open>
  What holds of the device's view from the doorbell on, whatever number of chains it serves: a write has
  happened or not, a read changes no sector, and a status of 0 means the request was carried out.
\<close>

definition in_request :: "reader \<Rightarrow> u32 \<Rightarrow> u64 \<Rightarrow> bytes \<Rightarrow> (u64 \<Rightarrow> bytes) \<Rightarrow> device_view \<Rightarrow> bool" where
  "in_request r ty sector bs before = (\<lambda>(sectors, taken, returned, m).
     request_chain r ty sector m \<and> slots_empty r m \<and> (\<forall>x. length (sectors x) = 512) \<and>
     (if ty = TYPE_OUT
      then get_bytes (r_request r + 0x200) 512 m = bs \<and> (sectors = before \<or> sectors = before(sector := bs)) \<and>
        (m (r_request r + 0xE00) = 0 \<longrightarrow> sectors = before(sector := bs))
      else sectors = before \<and> (m (r_request r + 0xE00) = 0 \<longrightarrow> get_bytes (r_request r + 0x200) 512 m = before sector)))"

lemma in_request_step:
  assumes r: "reader_ok r" and ty: "ty = TYPE_IN \<or> ty = TYPE_OUT" and J: "in_request r ty sector bs before v" and sv: "serves (r_queue r) v v'"
  shows "in_request r ty sector bs before v'"
proof -
  obtain sectors taken returned m st n where v: "v = (sectors, taken, returned, m)" "v' = serve_chain (r_queue r) st n (sectors, taken, returned, m)"
    using sv by (auto elim!: serves.cases)
  obtain sectors' taken' returned' m' where v': "v' = (sectors', taken', returned', m')" by (metis prod_cases4)
  have j: "request_chain r ty sector m" "slots_empty r m" "\<forall>x. length (sectors x) = 512" using J v(1) by (simp_all add: in_request_def)
  note S = serve_chain_cases [OF r j(1,2) ty v(2)[symmetric, unfolded v']]
  let ?data = "if ty = TYPE_IN \<and> st = 0 then Some (sectors sector) else None"
  obtain slot elem idx where m': "m' = after_chain r ?data st slot elem idx m" and sl: "slot \<in> {0x804, 0x80C, 0x814, 0x81C}" "length elem = 8" "length idx = 2"
    using S(1) by blast
  have d: "?data = None \<or> (\<exists>b. ?data = Some b \<and> length b = 512)" using j(3) by simp
  note A = after_chain_agree [OF r d sl(2,3,1), where m = m and st = st, folded m']
  note K = request_chain_agree [OF r A(1,2)]
  have len: "\<forall>x. length (sectors' x) = 512" using S(2) j(3) by simp
  have nt: "TYPE_IN \<noteq> TYPE_OUT" by (simp add: TYPE_IN_def TYPE_OUT_def)
  show ?thesis
  proof (cases "ty = TYPE_OUT")
    case True
    then have out: "get_bytes (r_request r + 0x200) 512 m = bs" "sectors = before \<or> sectors = before(sector := bs)"
      using J v(1) by (auto simp: in_request_def)
    have "?data = None" using True nt by simp
    then have "get_bytes (r_request r + 0x200) 512 m' = bs" using get_bytes_agree [OF A(3), of "0x200" 512] out(1) by simp
    moreover have "sectors' = (if st = 0 then sectors(sector := bs) else sectors)" using S(2) True out(1) by simp
    ultimately show ?thesis using True K j len A(5) out(2) by (auto simp: in_request_def v')
  next
    case False
    then have inn: "ty = TYPE_IN" "sectors = before" using ty J v(1) by (auto simp: in_request_def)
    have "sectors' = before" using S(2) False inn by simp
    moreover have "get_bytes (r_request r + 0x200) 512 m' = before sector" if "st = 0" using A(4) inn that by simp
    ultimately show ?thesis using False K j len A(5) by (auto simp: in_request_def v')
  qed
qed

lemma in_request_steps:
  assumes "reader_ok r" "ty = TYPE_IN \<or> ty = TYPE_OUT" "(serves (r_queue r))\<^sup>*\<^sup>* v v'" "in_request r ty sector bs before v"
  shows "in_request r ty sector bs before v'"
  using assms(3,4) by (induction rule: rtranclp_induct) (auto intro: in_request_step [OF assms(1,2)])

section \<open>The contract of the device\<close>

text \<open>
  \<open>view\<close> is what the driver can know of a device: its sectors, how far it has read the available ring and how
  many chains it has returned. Whenever it gets to act it serves some number of published chains, possibly
  none, and touches the shared memory in no other way; a doorbell changes none of that.
\<close>

locale block_device =
  fixes D :: "'d device_ops" and r :: reader and view :: "'d \<Rightarrow> (u64 \<Rightarrow> bytes) \<times> u16 \<times> u16"
  assumes frames: "reader_ok r"
    and act_law: "act D d m = (d', m') \<Longrightarrow> view d = (sectors, taken, returned) \<Longrightarrow> view d' = (sectors', taken', returned') \<Longrightarrow>
      (serves (r_queue r))\<^sup>*\<^sup>* (sectors, taken, returned, m) (sectors', taken', returned', m')"
    and bell_law: "view (bell D a v d) = view d"
begin

definition full_view :: "dma \<Rightarrow> 'd \<Rightarrow> device_view" where
  "full_view m d = (case view d of (sectors, taken, returned) \<Rightarrow> (sectors, taken, returned, m))"

lemma act_serves: "act D d m = (d', m') \<Longrightarrow> (serves (r_queue r))\<^sup>*\<^sup>* (full_view m d) (full_view m' d')"
  using act_law by (auto simp: full_view_def split: prod.splits)

lemma wait_used_serves:
  assumes "wait_used D (r_queue r) published looks (m, d) = (res, m', d')"
  shows "(serves (r_queue r))\<^sup>*\<^sup>* (full_view m d) (full_view m' d')"
  using assms
proof (induction looks arbitrary: m d)
  case 0
  then show ?case using act_serves by (auto split: prod.splits if_splits)
next
  case (Suc k)
  obtain d1 m1 where a: "act D d m = (d1, m1)" by fastforce
  show ?case
  proof (cases "used_index (r_queue r) m1 = published")
    case True
    then show ?thesis using Suc.prems a act_serves [OF a] by simp
  next
    case False
    then have "wait_used D (r_queue r) published k (m1, d1) = (res, m', d')" using Suc.prems a by simp
    then show ?thesis using Suc.IH act_serves [OF a] by (meson rtranclp_trans)
  qed
qed

definition disk_of :: "'d \<Rightarrow> u64 \<Rightarrow> bytes" where
  "disk_of d = fst (view d)"

definition world_ok :: "'d world \<Rightarrow> bool" where
  "world_ok = (\<lambda>(m, d). slots_empty r m \<and> (\<forall>x. length (disk_of d x) = 512))"

text \<open>A request of either kind, from a good world.\<close>

lemma request_spec:
  assumes ok: "world_ok (m, d)" and ty: "ty = TYPE_IN \<or> ty = TYPE_OUT" and f: "fills r fill"
    and data: "ty = TYPE_OUT \<Longrightarrow> \<forall>m. get_bytes (r_request r + 0x200) 512 (fill m) = bs"
    and run: "request D r dk ty sector fill (m, d) = (res, m', d')"
  shows "in_request r ty sector bs (disk_of d) (full_view m' d')" "res = Inr () \<Longrightarrow> m' (r_request r + 0xE00) = 0"
proof -
  obtain published m1 where p: "prepare r ty sector fill m = (published, m1)" by fastforce
  define d1 where "d1 = bell D (nt_base (r_notify r) + doorbell (r_notify r) (d_notify_offset dk)) QUEUE d"
  have s: "slots_empty r m" and len: "\<forall>x. length (disk_of d x) = 512" using ok by (simp_all add: world_ok_def)
  note P = prepare_spec [OF frames ty f s p]
  obtain sectors taken returned where v: "view d = (sectors, taken, returned)" by (metis prod_cases3)
  have v1: "full_view m1 d1 = (disk_of d, taken, returned, m1)"
    by (simp add: full_view_def d1_def bell_law v disk_of_def)
  have "get_bytes (r_request r + 0x200) 512 m1 = bs" if "ty = TYPE_OUT"
  proof -
    obtain m0 where "agree (r_request r) 0 4096 (fill m0) m1" using P(6) by blast
    then show ?thesis using get_bytes_agree [of "r_request r" 0 4096 "fill m0" m1 "0x200" 512] data [OF that] by simp
  qed
  then have J: "in_request r ty sector bs (disk_of d) (full_view m1 d1)" using P(1-3) len by (simp add: v1 in_request_def)
  obtain w m2 d2 where w: "wait_used D (r_queue r) published POLL_LIMIT (m1, d1) = (w, m2, d2)" by (metis prod_cases3)
  have res: "m' = m2" "d' = d2" "res = Inr () \<Longrightarrow> check_done r (ty = TYPE_OUT) published m2 = Inr ()"
    using run by (auto simp: request_def p w d1_def [symmetric] io_bind_def simp del: wait_used.simps split: sum.splits)
  show "in_request r ty sector bs (disk_of d) (full_view m' d')"
    using in_request_steps [OF frames ty wait_used_serves [OF w] J] res(1,2) by simp
  show "m' (r_request r + 0xE00) = 0" if "res = Inr ()"
    using res(3) [OF that] res(1) by (auto simp: check_done_def Let_def STATUS_AT_def STATUS_OK_def split: if_splits)
qed

end

section \<open>The driver as a medium\<close>

text \<open>How the file system calls the driver: sector numbers are widened.\<close>

definition blk_sectors :: "'d device_ops \<Rightarrow> reader \<Rightarrow> disk \<Rightarrow> ('d world, read_error) sectors" where
  "blk_sectors D r dk =
     \<lparr>read_sector = (\<lambda>n. blk_read_sector D r dk (ucast n)), write_sector = (\<lambda>n bs. blk_write_sector D r dk (ucast n) bs)\<rparr>"

lemma fills_nothing: "fills r (\<lambda>m. m)"
  by (simp add: fills_def)

lemma fills_data:
  assumes "reader_ok r" "length bs = 512"
  shows "fills r (put_bytes (r_request r + DATA_AT) bs)"
    "get_bytes (r_request r + 0x200) 512 (put_bytes (r_request r + DATA_AT) bs m) = bs"
proof -
  have w: "whole (q_base (r_queue r))" "whole (r_request r)" "clear_of (r_request r) 4096 (q_base (r_queue r)) 4096"
    using assms(1) clear_of_sym by (auto simp: reader_ok_def)
  show "fills r (put_bytes (r_request r + DATA_AT) bs)"
    unfolding fills_def DATA_AT_def using assms(2) agree_put_other [OF w(2,1,3)] agree_put_same [OF w(2)] by auto
  show "get_bytes (r_request r + 0x200) 512 (put_bytes (r_request r + DATA_AT) bs m) = bs"
    using get_put_inside [OF w(2), of "0x200" bs "0x200" 512 m] assms(2) by (simp add: DATA_AT_def)
qed

lemma ucast_sector_inject: "ucast (a :: u32) = (ucast b :: u64) \<longleftrightarrow> a = b"
  by (simp add: word_unat_eq_iff unat_ucast_up)

context block_device
begin

lemma read_sector_spec:
  assumes ok: "world_ok (m, d)" and run: "blk_read_sector D r dk sector (m, d) = (res, m', d')"
  shows "world_ok (m', d') \<and> disk_of d' = disk_of d \<and> (\<forall>bs. res = Inr bs \<longrightarrow> bs = disk_of d sector)"
proof -
  obtain q m1 d1 where q: "request D r dk TYPE_IN sector (\<lambda>m. m) (m, d) = (q, m1, d1)" by (metis prod_cases3)
  have nt: "TYPE_IN \<noteq> TYPE_OUT" by (simp add: TYPE_IN_def TYPE_OUT_def)
  note R = request_spec [OF ok disjI1 [OF refl] fills_nothing _ q]
  have e: "m' = m1" "d' = d1" "\<forall>bs. res = Inr bs \<longrightarrow> q = Inr () \<and> bs = get_bytes (r_request r + 0x200) 512 m1"
    using run q by (auto simp: blk_read_sector_def io_bind_def DATA_AT_def split: sum.splits)
  obtain sectors taken returned where v: "view d1 = (sectors, taken, returned)" by (metis prod_cases3)
  show ?thesis using R nt e v by (auto simp: in_request_def full_view_def world_ok_def disk_of_def)
qed

lemma write_sector_spec:
  assumes ok: "world_ok (m, d)" and run: "blk_write_sector D r dk sector bs (m, d) = (res, m', d')" and len: "length bs = 512"
  shows "world_ok (m', d') \<and> (disk_of d' = (disk_of d)(sector := bs) \<or> (\<exists>e. res = Inl e) \<and> disk_of d' = disk_of d)"
proof -
  note F = fills_data [OF frames len]
  have q: "request D r dk TYPE_OUT sector (put_bytes (r_request r + DATA_AT) bs) (m, d) = (res, m', d')"
    using run by (simp add: blk_write_sector_def)
  note R = request_spec [OF ok disjI2 [OF refl] F(1) _ q, of bs]
  obtain sectors taken returned where v: "view d' = (sectors, taken, returned)" by (metis prod_cases3)
  have J: "in_request r TYPE_OUT sector bs (disk_of d) (full_view m' d')" using R(1) F(2) by blast
  have z: "res = Inr () \<Longrightarrow> m' (r_request r + 0xE00) = 0" using R(2) F(2) by blast
  have f: "slots_empty r m'" "\<forall>x. length (sectors x) = 512" "sectors = disk_of d \<or> sectors = (disk_of d)(sector := bs)"
    "m' (r_request r + 0xE00) = 0 \<Longrightarrow> sectors = (disk_of d)(sector := bs)"
    using J v by (simp_all add: in_request_def full_view_def)
  have "world_ok (m', d')" using f(1,2) v by (simp add: world_ok_def disk_of_def)
  moreover have "disk_of d' = sectors" using v by (simp add: disk_of_def)
  ultimately show ?thesis using f(3,4) z by (cases res) auto
qed

end

sublocale block_device < driver: medium "blk_sectors D r dk" world_ok "\<lambda>w n. disk_of (snd w) (ucast n)" for dk
proof
  show "world_ok s' \<and> (\<lambda>n. disk_of (snd s') (ucast n)) = (\<lambda>n. disk_of (snd s) (ucast n)) \<and> (\<forall>bs. q = Inr bs \<longrightarrow> bs = disk_of (snd s) (ucast n))"
    if "world_ok s" "read_sector (blk_sectors D r dk) n s = (q, s')" for s s' n q
    using read_sector_spec [of "fst s" "snd s" dk "ucast n" q "fst s'" "snd s'"] that by (simp add: blk_sectors_def)
  show "world_ok s' \<and> ((\<lambda>n. disk_of (snd s') (ucast n)) = (\<lambda>n. disk_of (snd s) (ucast n))(n := bs) \<or>
      (\<exists>e. q = Inl e) \<and> (\<lambda>n. disk_of (snd s') (ucast n)) = (\<lambda>n. disk_of (snd s) (ucast n)))"
    if "world_ok s" "write_sector (blk_sectors D r dk) n bs s = (q, s')" "length bs = 512" for s s' n bs q
    using write_sector_spec [of "fst s" "snd s" dk "ucast n" bs q "fst s'" "snd s'"] that
    by (auto simp: blk_sectors_def fun_eq_iff ucast_sector_inject)
  show "image_ok (\<lambda>n. disk_of (snd s) (ucast n))" if "world_ok s" for s
    using that by (auto simp: image_ok_def world_ok_def)
qed

context block_device
begin

lemma driver_medium: "medium (blk_sectors D r dk) world_ok (\<lambda>w n. disk_of (snd w) (ucast n))"
  by (rule driver.medium_axioms)

end

section \<open>A device that answers\<close>

text \<open>What the used ring says after a chain was served.\<close>

lemma after_chain_used:
  assumes r: "reader_ok r"
  shows "used_index (r_queue r) (after_chain r data st (used_slot (q_layout (r_queue r)) i) (u32_to_le (ucast HEAD) @ u32_to_le wrote) (u16_to_le x) m) = x"
    "completion_at (r_queue r) i (after_chain r data st (used_slot (q_layout (r_queue r)) i) (u32_to_le (ucast HEAD) @ u32_to_le wrote) (u16_to_le x) m) =
      \<lparr>done_head = HEAD, done_written = wrote\<rparr>"
proof -
  let ?q = "q_base (r_queue r)"
  have w: "whole ?q" using r by (simp add: reader_ok_def)
  define sl where "sl = used_slot (q_layout (r_queue r)) i"
  define m0 where "m0 = put_bytes (r_request r + 0xE00) [st] (case data of None \<Rightarrow> m | Some bs \<Rightarrow> put_bytes (r_request r + 0x200) bs m)"
  define m1 where "m1 = put_bytes (?q + sl) (u32_to_le (ucast HEAD) @ u32_to_le wrote) m0"
  have sl: "sl \<in> {0x804, 0x80C, 0x814, 0x81C}" using slot_offsets(2) [OF r, of i] by (simp add: sl_def)
  have m: "after_chain r data st (used_slot (q_layout (r_queue r)) i) (u32_to_le (ucast HEAD) @ u32_to_le wrote) (u16_to_le x) m = put_bytes (?q + 0x802) (u16_to_le x) m1"
    by (simp add: after_chain_def m1_def m0_def sl_def)
  show "used_index (r_queue r) (after_chain r data st (used_slot (q_layout (r_queue r)) i) (u32_to_le (ucast HEAD) @ u32_to_le wrote) (u16_to_le x) m) = x"
    unfolding m using get_put_inside [OF w, of "0x802" "u16_to_le x" "0x802" 2 m1]
    by (simp add: used_index_def reader_layout [OF r] USED_INDEX_def get_u16_bytes)
  have b: "get_bytes (?q + sl) 4 (put_bytes (?q + 0x802) (u16_to_le x) m1) = u32_to_le (ucast HEAD)"
    "get_bytes (?q + (sl + 4)) 4 (put_bytes (?q + 0x802) (u16_to_le x) m1) = u32_to_le wrote"
    unfolding m1_def using sl by (auto simp: get_put_apart [OF w] get_put_inside [OF w])
  show "completion_at (r_queue r) i (after_chain r data st (used_slot (q_layout (r_queue r)) i) (u32_to_le (ucast HEAD) @ u32_to_le wrote) (u16_to_le x) m) =
      \<lparr>done_head = HEAD, done_written = wrote\<rparr>"
    unfolding m using get_u32_bytes [OF b(1)] get_u32_bytes [OF b(2)]
    by (simp add: completion_at_def Let_def sl_def [symmetric] add.assoc HEAD_def)
qed

text \<open>A device in step with the driver that serves the request at the first look.\<close>

definition answers_at_once :: "'d device_ops \<Rightarrow> reader \<Rightarrow> ('d \<Rightarrow> (u64 \<Rightarrow> bytes) \<times> u16 \<times> u16) \<Rightarrow> bool" where
  "answers_at_once D r view \<longleftrightarrow> (\<forall>d m sectors taken returned. view d = (sectors, taken, returned) \<longrightarrow>
     taken \<noteq> available_index (r_queue r) m \<longrightarrow>
     (\<exists>n s t u m' d'. act D d m = (d', m') \<and> view d' = (s, t, u) \<and>
        serve_chain (r_queue r) STATUS_OK n (sectors, taken, returned, m) = (s, t, u, m')))"

context block_device
begin

lemma request_answered:
  assumes ok: "world_ok (m, d)" and ty: "ty = TYPE_IN \<or> ty = TYPE_OUT" and f: "fills r fill" and once: "answers_at_once D r view"
    and sync: "view d = (sectors, i, i)" "i = available_index (r_queue r) m"
  shows "\<exists>m' d' sectors'. request D r dk ty sector fill (m, d) = (Inr (), m', d') \<and> view d' = (sectors', i + 1, i + 1)"
proof -
  obtain published m1 where p: "prepare r ty sector fill m = (published, m1)" by fastforce
  define d1 where "d1 = bell D (nt_base (r_notify r) + doorbell (r_notify r) (d_notify_offset dk)) QUEUE d"
  have s: "slots_empty r m" and len: "\<forall>x. length (sectors x) = 512" using ok sync(1) by (simp_all add: world_ok_def disk_of_def)
  note P = prepare_spec [OF frames ty f s p]
  have pub: "published = i + 1" "available_index (r_queue r) m1 = i + 1" using P(4,5) sync(2) by simp_all
  have v1: "view d1 = (sectors, i, i)" using sync(1) by (simp add: d1_def bell_law)
  have ne: "i \<noteq> available_index (r_queue r) m1" using pub(2) by simp
  obtain n s2 t2 u2 m2 d2 where v2: "act D d1 m1 = (d2, m2)" "view d2 = (s2, t2, u2)"
    "serve_chain (r_queue r) STATUS_OK n (sectors, i, i, m1) = (s2, t2, u2, m2)"
    using once [unfolded answers_at_once_def, rule_format, OF v1 ne] by (elim exE conjE) blast
  define data where "data = (if ty = TYPE_IN then Some (sectors sector) else None)"
  define wrote where "wrote = (if ty = TYPE_IN then 513 else 1 :: u32)"
  have e: "t2 = i + 1" "u2 = i + 1" "m2 = after_chain r data 0 (used_slot (q_layout (r_queue r)) i)
      (u32_to_le (ucast HEAD) @ u32_to_le wrote) (u16_to_le published) m1"
    using trans [OF v2(3) [unfolded STATUS_OK_def, symmetric] serve_chain_eq [OF frames P(1,2) ty, of 0 n sectors i i]]
    by (simp_all add: STATUS_OK_def data_def wrote_def HEAD_def pub(1))
  have data: "data = None \<or> (\<exists>bs. data = Some bs \<and> length bs = 512)" using len by (simp add: data_def)
  note U = after_chain_used [OF frames, where data = data and st = 0 and i = i and wrote = wrote and x = published and m = m1, folded e(3)]
  have st: "m2 (r_request r + 0xE00) = 0"
    unfolding e(3) by (rule after_chain_agree(5) [OF frames data _ _ slot_offsets(2) [OF frames]]) simp_all
  have "wrote = (if ty = TYPE_OUT then 1 else BLOCK_SECTOR_BYTES + 1)"
    using ty by (auto simp: wrote_def TYPE_IN_def TYPE_OUT_def BLOCK_SECTOR_BYTES_def)
  then have "check_done r (ty = TYPE_OUT) published m2 = Inr ()"
    using U(2) st pub(1) by (simp add: check_done_def Let_def STATUS_AT_def STATUS_OK_def)
  moreover have "wait_used D (r_queue r) published POLL_LIMIT (m1, d1) = (Inr (), m2, d2)"
    by (subst wait_used.simps) (simp add: v2(1) U(1) del: wait_used.simps)
  ultimately show ?thesis using v2(2) e(1,2) by (simp add: request_def p d1_def [symmetric] io_bind_def del: wait_used.simps)
qed

end

section \<open>A device that keeps the contract\<close>

text \<open>One that serves the chain it is offered whenever it looks, and never fails.\<close>

definition prompt :: "reader \<Rightarrow> ((u64 \<Rightarrow> bytes) \<times> u16 \<times> u16) device_ops" where
  "prompt r =
     \<lparr>act = (\<lambda>(sectors, taken, returned) m.
        if taken = available_index (r_queue r) m then ((sectors, taken, returned), m)
        else (case serve_chain (r_queue r) STATUS_OK 0 (sectors, taken, returned, m) of (s, t, u, m') \<Rightarrow> ((s, t, u), m'))),
      bell = (\<lambda>a v d. d)\<rparr>"

lemma prompt_keeps_contract: "reader_ok r \<Longrightarrow> block_device (prompt r) r (\<lambda>d. d)"
proof
  show "(serves (r_queue r))\<^sup>*\<^sup>* (sectors, taken, returned, m) (sectors', taken', returned', m')"
    if a: "act (prompt r) d m = (d', m')" and v: "d = (sectors, taken, returned)" "d' = (sectors', taken', returned')"
    for d m d' m' sectors taken returned sectors' taken' returned'
  proof (cases "taken = available_index (r_queue r) m")
    case True
    then show ?thesis using a v by (auto simp: prompt_def)
  next
    case False
    then have "serve_chain (r_queue r) STATUS_OK 0 (sectors, taken, returned, m) = (sectors', taken', returned', m')"
      using a v by (auto simp: prompt_def split: prod.splits)
    then show ?thesis using serves.chain [OF False, of sectors returned STATUS_OK 0] by auto
  qed
qed (auto simp: prompt_def)

lemma prompt_answers: "answers_at_once (prompt r) r (\<lambda>d. d)"
  unfolding answers_at_once_def
proof (intro allI impI)
  fix d :: "(u64 \<Rightarrow> bytes) \<times> u16 \<times> u16" and m sectors taken returned
  assume a: "d = (sectors, taken, returned)" "taken \<noteq> available_index (r_queue r) m"
  obtain s t u m' where e: "serve_chain (r_queue r) STATUS_OK 0 (sectors, taken, returned, m) = (s, t, u, m')" by (metis prod_cases4)
  show "\<exists>n s t u m' d'. act (prompt r) d m = (d', m') \<and> d' = (s, t, u) \<and>
      serve_chain (r_queue r) STATUS_OK n (sectors, taken, returned, m) = (s, t, u, m')"
    by (rule exI [of _ 0]) (use a e in \<open>simp add: prompt_def\<close>)
qed

definition sample_reader :: reader where
  "sample_reader =
     \<lparr>r_queue = \<lparr>q_base = 0x4000, q_layout = \<lparr>lay_size = 4, lay_descriptors = 0, lay_available = 0x400, lay_used = 0x800\<rparr>\<rparr>,
      r_notify = \<lparr>nt_base = 0, nt_multiplier = 4\<rparr>, r_request = 0x5000\<rparr>"

lemma sample_reader_ok: "reader_ok sample_reader"
  by (simp add: reader_ok_def sample_reader_def whole_def clear_of_def in_one_frame_def QUEUE_SIZE_def PAGE_SIZE_def FRAME_SIZE_def
      DESCRIPTOR_BYTES_def AVAILABLE_AT_def USED_AT_def USED_RING_def USED_ENTRY_BYTES_def DESCRIPTORS_AT_def is_power_of_two_def upt_rec Let_def)

definition sample_disk :: disk where
  "sample_disk = \<lparr>d_at = \<lparr>a_bus = 0, a_device = 4, a_function = 0\<rparr>, d_bar = 4, d_registers = VirtAddr 0, d_offered = 0, d_accepted = 0,
     d_header_bars = [], d_queues = 1, d_queue_size = 4, d_notify_offset = 0\<rparr>"

interpretation pd: block_device "prompt sample_reader" sample_reader "\<lambda>d. d"
  by (rule prompt_keeps_contract [OF sample_reader_ok])

section \<open>Starting the queue\<close>

text \<open>Two frames of the bitmap allocator, taken one after the other, lie apart.\<close>

lemma frames_apart:
  assumes "frame_aligned f" "frame_aligned g" "number f \<noteq> number g"
  shows "clear_of (p_u64 (start_address f)) 4096 (p_u64 (start_address g)) 4096"
  using other_frame [of "unat (p_u64 (start_address g))" "unat (p_u64 (start_address f))"]
    other_frame [of "unat (p_u64 (start_address f))" "unat (p_u64 (start_address g))"] assms
  by (auto simp: clear_of_def frame_aligned_unat number_unat start_address_def mod_eq_0_iff_dvd)

lemma started_reader_ok:
  assumes inv: "fa_inv fs" and st: "start_queue alloc (\<lambda>a. allocate_for a Dma) root cfg R dk ((m, fs), d) = (Inr r, s)"
  shows "reader_ok r"
proof -
  obtain layout f fs1 g fs2 where e: "in_one_frame QUEUE_SIZE PAGE_SIZE = Some layout"
    "allocate_for fs Dma = (Some f, fs1)" "allocate_for fs1 Dma = (Some g, fs2)"
    "r_queue r = \<lparr>q_base = p_u64 (start_address f), q_layout = layout\<rparr>" "r_request r = p_u64 (start_address g)"
    using st by (auto simp: start_queue_def Let_def split: if_splits option.splits prod.splits sum.splits)
  note A = allocate_for_Some [OF inv e(2)]
  note B = allocate_for_Some [OF A(1) e(3)]
  have "number f \<noteq> number g" using A(3) B(2) by auto
  then show ?thesis using e(1,4,5) frames_apart [OF A(5) B(5)] frame_end [OF A(5)] frame_end [OF B(5)]
    by (simp add: reader_ok_def whole_def)
qed

text \<open>A ring frame that arrives zeroed has an empty available ring.\<close>

lemma zeroed_slots_empty:
  assumes r: "reader_ok r" and z: "get_bytes (q_base (r_queue r)) 4096 m = replicate 4096 0"
  shows "slots_empty r m" "available_index (r_queue r) m = 0"
proof -
  let ?q = "q_base (r_queue r)"
  have b: "m (?q + k) = 0" if "unat k < 4096" for k
    using z that nth_map [of "unat k" "[0..<4096]" "\<lambda>i. m (?q + of_nat i)"] by (simp add: get_bytes_def)
  have g: "get_u16 (?q + k) m = 0" if "unat k + 2 \<le> 4096" for k
    using that b [of k] b [of "k + 1"] unat_add_exact [of k 1] by (simp add: get_u16_def add.assoc u16_from_le_def)
  have "unat (available_slot (q_layout (r_queue r)) i) + 2 \<le> 4096" for i using slot_offsets(1) [OF r, of i] by auto
  then show "slots_empty r m" unfolding slots_empty_def using g by blast
  show "available_index (r_queue r) m = 0"
    using g [of "0x402"] by (simp add: available_index_def reader_layout [OF r] AVAILABLE_INDEX_def)
qed

section \<open>Properties\<close>

definition driver_world :: "reader \<Rightarrow> ('d \<Rightarrow> (u64 \<Rightarrow> bytes) \<times> u16 \<times> u16) \<Rightarrow> 'd world \<Rightarrow> bool" where
  "driver_world r view = (\<lambda>(m, d). slots_empty r m \<and> (\<forall>x. length (fst (view d) x) = 512))"

lemma world_ok_driver: "block_device D r view \<Longrightarrow> block_device.world_ok r view = driver_world r view"
  by (simp add: fun_eq_iff block_device.world_ok_def block_device.disk_of_def driver_world_def)





end
