(* ===== verification/Free_List.thy ===== *)
theory Free_List
  imports Prelude
begin

text \<open>
  The kernel heap (\<^verbatim>\<open>kernel/src/memory/heap/free_list.rs\<close>): an address-ordered free list whose
  holes keep their size and the address of the next hole in their own first 16 bytes. The memory of
  the heap is a store from addresses to hole headers, the loops over the list are
  \<^theory_text>\<open>partial_function\<close>s (a corrupted list may never end), and every assertion of the code is a
  panic of the model. The theory shows that on a well-formed list every operation returns, what it
  does to the list of holes and to the set of free bytes, and that \<open>check\<close> accepts exactly the
  well-formed lists.
\<close>

section \<open>Data\<close>

text \<open>A \<open>usize\<close> that is an address is a number below \<open>2 ^ 64\<close>; plain additions wrap.\<close>

definition usize_bound :: nat where
  "usize_bound = 2 ^ 64"

definition wadd :: "nat \<Rightarrow> nat \<Rightarrow> nat" where
  "wadd a b = (a + b) mod usize_bound"

definition nat_checked_add :: "nat \<Rightarrow> nat \<Rightarrow> nat option" where
  "nat_checked_add a b = (if a + b < usize_bound then Some (a + b) else None)"

definition checked_next_multiple_of :: "nat \<Rightarrow> nat \<Rightarrow> nat option" where
  "checked_next_multiple_of a m =
     (if m = 0 then None
      else if a mod m = 0 then Some a
      else nat_checked_add a (m - a mod m))"

definition GRANULE :: nat where
  "GRANULE = 16"

record hole =
  hole_size :: nat
  hole_next :: nat

record layout =
  layout_size :: nat
  layout_align :: nat

datatype corruption =
    ListTooLong
  | HoleOutside
  | HolesOutOfOrder
  | ImpossibleSize
  | CountMismatch

record heap_corruption =
  corrupt_what :: corruption
  corrupt_at :: nat

record heap_stats =
  st_size :: nat
  st_free :: nat
  st_holes :: nat
  st_largest_hole :: nat

record free_list_heap =
  h_base :: nat
  h_start :: nat
  h_end :: nat
  h_head :: nat
  h_free :: nat
  h_mem :: "nat \<Rightarrow> hole"

section \<open>Operations\<close>

definition heap_empty :: "(nat \<Rightarrow> hole) \<Rightarrow> free_list_heap" where
  "heap_empty mem =
     \<lparr>h_base = 0, h_start = 0, h_end = 0, h_head = 0, h_free = 0, h_mem = mem\<rparr>"

definition block_size :: "layout \<Rightarrow> nat option" where
  "block_size l = checked_next_multiple_of (max (layout_size l) 1) GRANULE"

text \<open>The assertion of \<open>hole_ptr\<close>: a header is read or written inside the heap only.\<close>

definition hole_ptr :: "free_list_heap \<Rightarrow> nat \<Rightarrow> panic + nat" where
  "hole_ptr h addr =
     (if addr mod GRANULE = 0 \<and> addr \<ge> h_start h \<and>
         (case nat_checked_add addr GRANULE of None \<Rightarrow> False | Some e \<Rightarrow> e \<le> h_end h)
      then Inr addr
      else Inl (Panic ''heap: free-list entry outside the heap''))"

definition read_hole :: "free_list_heap \<Rightarrow> nat \<Rightarrow> panic + hole" where
  "read_hole h addr = and_then (hole_ptr h addr) (\<lambda>a. Inr (h_mem h a))"

definition write_hole :: "free_list_heap \<Rightarrow> nat \<Rightarrow> hole \<Rightarrow> panic + free_list_heap" where
  "write_hole h addr x =
     and_then (hole_ptr h addr) (\<lambda>a. Inr (h\<lparr>h_mem := (h_mem h)(a := x)\<rparr>))"

definition link :: "free_list_heap \<Rightarrow> nat \<Rightarrow> nat \<Rightarrow> panic + free_list_heap" where
  "link h prev nxt =
     (if prev = 0 then Inr (h\<lparr>h_head := nxt\<rparr>)
      else and_then (read_hole h prev) (\<lambda>x. write_hole h prev (x\<lparr>hole_next := nxt\<rparr>)))"

definition heap_init :: "free_list_heap \<Rightarrow> nat \<Rightarrow> nat \<Rightarrow> panic + free_list_heap" where
  "heap_init h start sz =
     (if h_base h \<noteq> 0 then Inl (Panic ''heap initialized twice'')
      else case checked_next_multiple_of start GRANULE of
        None \<Rightarrow> Inl (Panic ''heap region wraps around the address space'')
      | Some first \<Rightarrow>
          (case nat_checked_add start sz of
             None \<Rightarrow> Inl (Panic ''heap region wraps around the address space'')
           | Some e \<Rightarrow>
               (let h' = h\<lparr>h_base := start, h_start := first, h_end := max (e div GRANULE * GRANULE) first\<rparr>
                in if h_end h' - h_start h' \<ge> GRANULE
                   then and_then (write_hole h' first \<lparr>hole_size = h_end h' - first, hole_next = 0\<rparr>)
                          (\<lambda>h'. Inr (h'\<lparr>h_head := first, h_free := h_end h' - first\<rparr>))
                   else Inr h')))"

text \<open>The block found: what is left behind and in front of it stays free.\<close>

definition alloc_take ::
    "free_list_heap \<Rightarrow> nat \<Rightarrow> nat \<Rightarrow> nat \<Rightarrow> hole \<Rightarrow> nat \<Rightarrow> nat \<Rightarrow> nat \<Rightarrow>
     panic + (nat option \<times> free_list_heap)" where
  "alloc_take h sz prev current hl hole_end block block_end =
     and_then
       (if block_end < hole_end
        then and_then (write_hole h block_end
               \<lparr>hole_size = hole_end - block_end, hole_next = hole_next hl\<rparr>) (\<lambda>h. Inr (h, block_end))
        else Inr (h, hole_next hl))
       (\<lambda>(h, rest). and_then
          (if block > current
           then and_then (write_hole h current \<lparr>hole_size = block - current, hole_next = rest\<rparr>)
                  (\<lambda>h. Inr (h, current))
           else Inr (h, rest))
          (\<lambda>(h, rest). and_then (link h prev rest)
             (\<lambda>h. Inr (Some block, h\<lparr>h_free := h_free h - sz\<rparr>))))"

partial_function (option) alloc_loop ::
    "free_list_heap \<Rightarrow> nat \<Rightarrow> nat \<Rightarrow> nat \<Rightarrow> nat \<Rightarrow> (panic + (nat option \<times> free_list_heap)) option" where
  "alloc_loop h sz align prev current =
     (if current = 0 then Some (Inr (None, h))
      else case read_hole h current of
        Inl p \<Rightarrow> Some (Inl p)
      | Inr hl \<Rightarrow>
          (let hole_end = wadd current (hole_size hl) in
           case checked_next_multiple_of current align of
             None \<Rightarrow> alloc_loop h sz align current (hole_next hl)
           | Some block \<Rightarrow>
               (case nat_checked_add block sz of
                  None \<Rightarrow> alloc_loop h sz align current (hole_next hl)
                | Some block_end \<Rightarrow>
                    (if block_end \<le> hole_end
                     then Some (alloc_take h sz prev current hl hole_end block block_end)
                     else alloc_loop h sz align current (hole_next hl)))))"

definition heap_allocate ::
    "free_list_heap \<Rightarrow> layout \<Rightarrow> (panic + (nat option \<times> free_list_heap)) option" where
  "heap_allocate h l =
     (case block_size l of
        None \<Rightarrow> Some (Inr (None, h))
      | Some sz \<Rightarrow> alloc_loop h sz (max (layout_align l) GRANULE) 0 (h_head h))"

text \<open>The walk of \<open>deallocate\<close> to the holes around the block.\<close>

partial_function (option) find_gap ::
    "free_list_heap \<Rightarrow> nat \<Rightarrow> nat \<Rightarrow> nat \<Rightarrow> (panic + (nat \<times> nat)) option" where
  "find_gap h block prev current =
     (if current \<noteq> 0 \<and> current < block
      then case read_hole h current of
             Inl p \<Rightarrow> Some (Inl p)
           | Inr hl \<Rightarrow> find_gap h block current (hole_next hl)
      else Some (Inr (prev, current)))"

definition merge_next :: "free_list_heap \<Rightarrow> nat \<Rightarrow> nat \<Rightarrow> nat \<Rightarrow> panic + hole" where
  "merge_next h sz block_end current =
     (if current \<noteq> 0 \<and> block_end = current
      then and_then (read_hole h current) (\<lambda>next_hole.
             Inr \<lparr>hole_size = wadd sz (hole_size next_hole), hole_next = hole_next next_hole\<rparr>)
      else Inr \<lparr>hole_size = sz, hole_next = current\<rparr>)"

definition insert_block ::
    "free_list_heap \<Rightarrow> nat \<Rightarrow> hole option \<Rightarrow> nat \<Rightarrow> hole \<Rightarrow> panic + free_list_heap" where
  "insert_block h prev prev_hole block merged =
     (case prev_hole of
        Some hl \<Rightarrow>
          (if wadd prev (hole_size hl) = block
           then write_hole h prev
                  \<lparr>hole_size = wadd (hole_size hl) (hole_size merged), hole_next = hole_next merged\<rparr>
           else and_then (write_hole h block merged) (\<lambda>h. link h prev block))
      | None \<Rightarrow> and_then (write_hole h block merged) (\<lambda>h. link h prev block))"

definition free_between ::
    "free_list_heap \<Rightarrow> nat \<Rightarrow> nat \<Rightarrow> nat \<Rightarrow> nat \<Rightarrow> nat \<Rightarrow> panic + free_list_heap" where
  "free_between h sz block block_end prev current =
     and_then (if prev \<noteq> 0 then and_then (read_hole h prev) (\<lambda>x. Inr (Some x)) else Inr None)
       (\<lambda>prev_hole.
          if (case prev_hole of None \<Rightarrow> False | Some hl \<Rightarrow> wadd prev (hole_size hl) > block) \<or>
             (current \<noteq> 0 \<and> block_end > current)
          then Inl (Panic ''heap: double free'')
          else and_then (merge_next h sz block_end current) (\<lambda>merged.
                 and_then (insert_block h prev prev_hole block merged) (\<lambda>h.
                   Inr (h\<lparr>h_free := h_free h + sz\<rparr>))))"

definition heap_deallocate ::
    "free_list_heap \<Rightarrow> nat \<Rightarrow> layout \<Rightarrow> (panic + free_list_heap) option" where
  "heap_deallocate h block l =
     (case block_size l of
        None \<Rightarrow> Some (Inl (Panic ''a layout this heap never allocates''))
      | Some sz \<Rightarrow>
          (case nat_checked_add block sz of
             None \<Rightarrow> Some (Inl (Panic ''heap: freeing what is not a block of this heap''))
           | Some block_end \<Rightarrow>
               (if \<not> (block \<ge> h_start h \<and> block_end \<le> h_end h \<and> block mod GRANULE = 0)
                then Some (Inl (Panic ''heap: freeing what is not a block of this heap''))
                else map_option
                  (\<lambda>r. and_then r (\<lambda>(prev, current). free_between h sz block block_end prev current))
                  (find_gap h block 0 (h_head h)))))"

text \<open>
  The walk of \<open>check\<close>; it stops at a free list longer than the heap can hold, so it ends. A
  corruption is \<open>Inl\<close>; the panics of \<open>read_hole\<close> cannot happen, since the address was checked.
\<close>

function check_loop ::
    "free_list_heap \<Rightarrow> nat \<Rightarrow> nat \<Rightarrow> nat \<Rightarrow> nat \<Rightarrow> nat option \<Rightarrow> nat \<Rightarrow>
     heap_corruption + (nat \<times> nat \<times> nat)" where
  "check_loop h max_holes free holes largest previous_end current =
     (if current = 0 then Inr (free, holes, largest)
      else if holes \<ge> max_holes then Inl \<lparr>corrupt_what = ListTooLong, corrupt_at = current\<rparr>
      else if current mod GRANULE \<noteq> 0 \<or> current < h_start h \<or> current \<ge> h_end h
        then Inl \<lparr>corrupt_what = HoleOutside, corrupt_at = current\<rparr>
      else if (case previous_end of None \<Rightarrow> False | Some e \<Rightarrow> current \<le> e)
        then Inl \<lparr>corrupt_what = HolesOutOfOrder, corrupt_at = current\<rparr>
      else let hl = h_mem h current in
        if hole_size hl < GRANULE \<or> hole_size hl mod GRANULE \<noteq> 0 \<or> hole_size hl > h_end h - current
        then Inl \<lparr>corrupt_what = ImpossibleSize, corrupt_at = current\<rparr>
        else check_loop h max_holes (free + hole_size hl) (holes + 1) (max largest (hole_size hl))
               (Some (current + hole_size hl)) (hole_next hl))"
  by pat_completeness auto
termination
  by (relation "measure (\<lambda>(h, max_holes, free, holes, largest, p, current). max_holes - holes)") auto

declare check_loop.simps [simp del]

definition heap_check :: "free_list_heap \<Rightarrow> heap_corruption + heap_stats" where
  "heap_check h =
     and_then (check_loop h ((h_end h - h_start h) div GRANULE) 0 0 0 None (h_head h))
       (\<lambda>(free, holes, largest).
          if free \<noteq> h_free h then Inl \<lparr>corrupt_what = CountMismatch, corrupt_at = 0\<rparr>
          else Inr \<lparr>st_size = h_end h - h_start h, st_free = free, st_holes = holes,
                    st_largest_hole = largest\<rparr>)"

section \<open>The list of holes\<close>

text \<open>
  The free list as a list of pairs of address and size: \<open>path\<close> relates it to the headers in the
  store, \<open>holes_ok\<close> says it is in address order, aligned, inside the heap, and that no two holes
  touch.
\<close>

type_synonym holes = "(nat \<times> nat) list"

fun path :: "(nat \<Rightarrow> hole) \<Rightarrow> nat \<Rightarrow> holes \<Rightarrow> nat \<Rightarrow> bool" where
  "path m c [] d \<longleftrightarrow> c = d"
| "path m c ((a, s) # hs) d \<longleftrightarrow>
     c = a \<and> a \<noteq> 0 \<and> hole_size (m a) = s \<and> path m (hole_next (m a)) hs d"

fun holes_ok :: "nat \<Rightarrow> nat \<Rightarrow> holes \<Rightarrow> bool" where
  "holes_ok lo e [] \<longleftrightarrow> True"
| "holes_ok lo e ((a, s) # hs) \<longleftrightarrow>
     lo \<le> a \<and> 16 dvd a \<and> 16 dvd s \<and> 0 < s \<and> a + s \<le> e \<and> holes_ok (a + s + 1) e hs"

definition total :: "holes \<Rightarrow> nat" where
  "total hs = sum_list (map snd hs)"

definition free_bytes :: "holes \<Rightarrow> nat set" where
  "free_bytes hs = (\<Union>(a, s) \<in> set hs. {a ..< a + s})"

definition heap_inv :: "free_list_heap \<Rightarrow> holes \<Rightarrow> bool" where
  "heap_inv h hs \<longleftrightarrow>
     path (h_mem h) (h_head h) hs 0 \<and> holes_ok (h_start h) (h_end h) hs \<and> h_free h = total hs \<and>
     16 dvd h_start h \<and> 16 dvd h_end h \<and> h_start h \<le> h_end h \<and> h_end h < usize_bound \<and>
     (0 < h_start h \<or> h_start h = h_end h)"

definition prev_of :: "holes \<Rightarrow> nat" where
  "prev_of pre = (if pre = [] then 0 else fst (last pre))"

fun end_of :: "nat \<Rightarrow> holes \<Rightarrow> nat" where
  "end_of lo [] = lo"
| "end_of lo ((a, s) # hs) = end_of (a + s + 1) hs"

lemma path_append: "path m c (xs @ ys) d \<longleftrightarrow> (\<exists>e. path m c xs e \<and> path m e ys d)"
  by (induction xs arbitrary: c) auto

lemma path_upd: "a \<notin> fst ` set hs \<Longrightarrow> path (m(a := x)) c hs d = path m c hs d"
  by (induction hs arbitrary: c) auto

lemma path_cong: "(\<And>a. a \<in> fst ` set hs \<Longrightarrow> m' a = m a) \<Longrightarrow> path m' c hs d = path m c hs d"
  by (induction hs arbitrary: c) auto

lemma path_nonzero: "path m c hs d \<Longrightarrow> a \<in> fst ` set hs \<Longrightarrow> a \<noteq> 0"
  by (induction hs arbitrary: c) force+

lemma holes_ok_append: "holes_ok lo e (xs @ ys) \<longleftrightarrow> holes_ok lo e xs \<and> holes_ok (end_of lo xs) e ys"
  by (induction xs arbitrary: lo) auto

lemma holes_ok_mono: "holes_ok lo e hs \<Longrightarrow> lo' \<le> lo \<Longrightarrow> holes_ok lo' e hs"
  by (cases hs) auto

lemma end_of_append: "end_of lo (xs @ ys) = end_of (end_of lo xs) ys"
  by (induction xs arbitrary: lo) auto

lemma end_of_ge: "holes_ok lo e hs \<Longrightarrow> lo \<le> end_of lo hs"
  by (induction hs arbitrary: lo) force+

lemma holes_okD:
  assumes "holes_ok lo e hs" "(a, s) \<in> set hs"
  shows "lo \<le> a" "a + s \<le> e" "16 dvd a" "16 dvd s" "16 \<le> s" "a + s < end_of lo hs"
proof -
  have "lo \<le> a \<and> a + s \<le> e \<and> 16 dvd a \<and> 16 dvd s \<and> 0 < s \<and> a + s < end_of lo hs"
    using assms
  proof (induction hs arbitrary: lo)
    case (Cons h hs)
    obtain b t where h: "h = (b, t)" by fastforce
    show ?case
    proof (cases "(a, s) = (b, t)")
      case True
      then show ?thesis using Cons.prems(1) end_of_ge [of "b + t + 1" e hs] by (auto simp: h)
    next
      case False
      then have "(a, s) \<in> set hs" using Cons.prems(2) by (auto simp: h)
      with Cons.IH [of "b + t + 1"] Cons.prems(1) show ?thesis by (auto simp: h)
    qed
  qed simp
  then show "lo \<le> a" "a + s \<le> e" "16 dvd a" "16 dvd s" "16 \<le> s" "a + s < end_of lo hs"
    by (auto dest: dvd_imp_le)
qed

lemma holes_ok_before:
  assumes "holes_ok lo e (pre @ (b, t) # post)" "a \<in> fst ` set pre"
  shows "a < b"
proof -
  from assms(2) obtain s where "(a, s) \<in> set pre" by auto
  then have "a + s < end_of lo pre" using assms(1) holes_okD(6) [of lo e pre a s]
    by (simp add: holes_ok_append)
  moreover have "end_of lo pre \<le> b" using assms(1) by (simp add: holes_ok_append)
  ultimately show ?thesis by simp
qed

lemma holes_ok_after:
  assumes "holes_ok lo e ((b, t) # post)" "a \<in> fst ` set post"
  shows "b + t < a"
  using assms holes_okD(1) [of "b + t + 1" e post] by fastforce

lemma prev_of_Nil [simp]: "prev_of [] = 0"
  by (simp add: prev_of_def)

lemma prev_of_snoc [simp]: "prev_of (pre @ [(a, s)]) = a"
  by (simp add: prev_of_def)

lemma total_simps [simp]:
  "total [] = 0" "total ((a, s) # hs) = s + total hs" "total (xs @ ys) = total xs + total ys"
  by (simp_all add: total_def)

lemma free_bytes_simps [simp]:
  "free_bytes [] = {}" "free_bytes ((a, s) # hs) = {a ..< a + s} \<union> free_bytes hs"
  "free_bytes (xs @ ys) = free_bytes xs \<union> free_bytes ys"
  by (auto simp: free_bytes_def)

section \<open>Headers\<close>

lemma hole_ptr_ok:
  assumes "16 dvd a" "h_start h \<le> a" "a + 16 \<le> h_end h" "h_end h < usize_bound"
  shows "hole_ptr h a = Inr a"
  using assms by (simp add: hole_ptr_def GRANULE_def nat_checked_add_def)

lemma read_hole_ok:
  assumes "16 dvd a" "h_start h \<le> a" "a + 16 \<le> h_end h" "h_end h < usize_bound"
  shows "read_hole h a = Inr (h_mem h a)"
  using hole_ptr_ok [OF assms] by (simp add: read_hole_def)

lemma write_hole_ok:
  assumes "16 dvd a" "h_start h \<le> a" "a + 16 \<le> h_end h" "h_end h < usize_bound"
  shows "write_hole h a x = Inr (h\<lparr>h_mem := (h_mem h)(a := x)\<rparr>)"
  using hole_ptr_ok [OF assms] by (simp add: write_hole_def)

lemma read_hole_in_list:
  assumes "holes_ok (h_start h) (h_end h) hs" "(a, s) \<in> set hs" "h_end h < usize_bound"
  shows "read_hole h a = Inr (h_mem h a)"
  using holes_okD [OF assms(1,2)] assms(3) by (intro read_hole_ok) auto

text \<open>What \<open>link\<close> does: the part of the list before \<open>prev\<close> is joined to another part.\<close>

lemma link_spec:
  assumes pre: "path (h_mem h) (h_head h) pre c" and post: "path (h_mem h) n post 0"
    and ok: "holes_ok (h_start h) (h_end h) pre" and e: "h_end h < usize_bound"
    and dist: "prev_of pre \<notin> fst ` set post" "distinct (map fst pre)"
  obtains h' where "link h (prev_of pre) n = Inr h'" "path (h_mem h') (h_head h') (pre @ post) 0"
    "h_start h' = h_start h" "h_end h' = h_end h" "h_free h' = h_free h" "h_base h' = h_base h"
    "\<And>x. x \<noteq> prev_of pre \<or> pre = [] \<Longrightarrow> h_mem h' x = h_mem h x"
proof (cases pre rule: rev_cases)
  case Nil
  with post show ?thesis by (intro that [of "h\<lparr>h_head := n\<rparr>"]) (simp_all add: link_def prev_of_def)
next
  case (snoc pre' q)
  obtain p s where q: "q = (p, s)" by fastforce
  from pre have pre': "path (h_mem h) (h_head h) pre' p" and p: "p \<noteq> 0" "hole_size (h_mem h p) = s"
    by (auto simp: snoc q path_append)
  have rd: "read_hole h p = Inr (h_mem h p)"
    using ok e by (intro read_hole_in_list [of h pre p s]) (simp_all add: snoc q)
  define x where "x = (h_mem h p)\<lparr>hole_next := n\<rparr>"
  have okp: "16 dvd p" "h_start h \<le> p" "p + 16 \<le> h_end h"
    using holes_okD [OF ok, of p s] by (auto simp: snoc q)
  have "p \<notin> fst ` set pre'" using dist(2) by (force simp: snoc q)
  then have "path ((h_mem h)(p := x)) (h_head h) (pre @ post) 0"
    using pre' p post dist(1) by (auto simp: snoc q path_append path_upd x_def)
  then show ?thesis
    using p rd write_hole_ok [OF okp e]
    by (intro that [of "h\<lparr>h_mem := (h_mem h)(p := x)\<rparr>"]) (auto simp: snoc q link_def x_def)
qed

lemma holes_ok_distinct: "holes_ok lo e hs \<Longrightarrow> distinct (map fst hs)"
proof (induction hs arbitrary: lo)
  case (Cons h hs)
  obtain b t where h: "h = (b, t)" by fastforce
  have "b < a" if "a \<in> fst ` set hs" for a
    using holes_ok_after [of lo e b t hs a] Cons.prems that by (auto simp: h)
  then show ?case using Cons by (auto simp: h)
qed simp

lemma prev_of_in: "pre \<noteq> [] \<Longrightarrow> prev_of pre \<in> fst ` set pre"
  by (simp add: prev_of_def)

section \<open>Allocation\<close>

definition next_multiple :: "nat \<Rightarrow> nat \<Rightarrow> nat" where
  "next_multiple a m = (if a mod m = 0 then a else a + (m - a mod m))"

lemma next_multiple_ge: "a \<le> next_multiple a m"
  by (simp add: next_multiple_def)

lemma next_multiple_dvd: "0 < m \<Longrightarrow> m dvd next_multiple a m"
proof -
  assume "0 < m"
  have "(a + (m - a mod m)) mod m = (a mod m + (m - a mod m)) mod m" by (simp add: mod_simps)
  also have "\<dots> = 0" using mod_less_divisor [OF \<open>0 < m\<close>, of a] by simp
  finally show ?thesis by (auto simp: next_multiple_def mod_eq_0_iff_dvd)
qed

lemma checked_next_multiple_of_eq:
  "0 < m \<Longrightarrow> a < usize_bound \<Longrightarrow>
   checked_next_multiple_of a m =
     (if next_multiple a m < usize_bound then Some (next_multiple a m) else None)"
  by (simp add: checked_next_multiple_of_def next_multiple_def nat_checked_add_def)

text \<open>First fit on the list of holes: the reference that the loop implements.\<close>

definition cut_hole :: "nat \<Rightarrow> nat \<Rightarrow> nat \<Rightarrow> nat \<Rightarrow> holes" where
  "cut_hole a s b sz =
     (if a < b then [(a, b - a)] else []) @ (if b + sz < a + s then [(b + sz, a + s - (b + sz))] else [])"

fun alloc_holes :: "nat \<Rightarrow> nat \<Rightarrow> holes \<Rightarrow> (nat \<times> holes) option" where
  "alloc_holes sz al [] = None"
| "alloc_holes sz al ((a, s) # hs) =
     (let b = next_multiple a al
      in if b + sz \<le> a + s then Some (b, cut_hole a s b sz @ hs)
         else map_option (\<lambda>(b, hs'). (b, (a, s) # hs')) (alloc_holes sz al hs))"

lemma cut_hole_ok:
  assumes "holes_ok lo e (pre @ (a, s) # post)" "a \<le> b" "b + sz \<le> a + s" "16 dvd b" "16 dvd sz" "0 < sz"
  shows "holes_ok lo e (pre @ cut_hole a s b sz @ post)"
proof -
  have ok: "holes_ok lo e pre" "end_of lo pre \<le> a" "16 dvd a" "16 dvd s" "a + s \<le> e"
    "holes_ok (a + s + 1) e post"
    using assms(1) by (auto simp: holes_ok_append)
  have d: "16 dvd (b - a)" "16 dvd (a + s - (b + sz))"
    using ok assms by (auto intro: dvd_diff_nat)
  have post: "holes_ok l e post" if "l \<le> a + s + 1" for l using holes_ok_mono [OF ok(6) that] .
  show ?thesis
    using ok d assms post by (auto simp: holes_ok_append cut_hole_def)
qed

lemma cut_hole_total:
  assumes "a \<le> b" "b + sz \<le> a + s"
  shows "total (cut_hole a s b sz) = s - sz" "sz \<le> s"
  using assms by (auto simp: cut_hole_def)

lemma cut_hole_bytes:
  assumes "a \<le> b" "b + sz \<le> a + s"
  shows "free_bytes (cut_hole a s b sz) = {a ..< a + s} - {b ..< b + sz}"
  using assms by (auto simp: cut_hole_def)

text \<open>
  Cutting a block out of a hole: the list becomes the expected one, and the store changes only in
  free memory outside the block or in the header of the hole before it.
\<close>

definition only_free_written :: "free_list_heap \<Rightarrow> free_list_heap \<Rightarrow> nat set \<Rightarrow> bool" where
  "only_free_written h h' free \<longleftrightarrow>
     h_start h' = h_start h \<and> h_end h' = h_end h \<and> h_base h' = h_base h \<and>
     (\<forall>x. x \<notin> free \<longrightarrow> h_mem h' x = h_mem h x)"

lemma back_written:
  assumes inv: "heap_inv h (pre @ (a, s) # post)" and b: "a \<le> b" "b + sz \<le> a + s"
    and d: "16 dvd b" "16 dvd sz" "0 < sz"
  obtains h1 r where
    "(if b + sz < a + s
      then and_then (write_hole h (b + sz)
             \<lparr>hole_size = a + s - (b + sz), hole_next = hole_next (h_mem h a)\<rparr>) (\<lambda>h. Inr (h, b + sz))
      else Inr (h, hole_next (h_mem h a))) = Inr (h1, r)"
    "path (h_mem h1) r ((if b + sz < a + s then [(b + sz, a + s - (b + sz))] else []) @ post) 0"
    "h_start h1 = h_start h" "h_end h1 = h_end h" "h_free h1 = h_free h" "h_head h1 = h_head h"
    "h_base h1 = h_base h" "\<And>x. x \<noteq> b + sz \<or> \<not> b + sz < a + s \<Longrightarrow> h_mem h1 x = h_mem h x"
proof -
  have ok: "holes_ok (h_start h) (h_end h) (pre @ (a, s) # post)" "h_end h < usize_bound"
    and post: "path (h_mem h) (hole_next (h_mem h a)) post 0"
    using inv by (auto simp: heap_inv_def path_append)
  show ?thesis
  proof (cases "b + sz < a + s")
    case False
    then show ?thesis using post by (intro that [of h "hole_next (h_mem h a)"]) simp_all
  next
    case True
    define x where "x = \<lparr>hole_size = a + s - (b + sz), hole_next = hole_next (h_mem h a)\<rparr>"
    have as: "h_start h \<le> a" "a + s \<le> h_end h" "16 dvd a" "16 dvd s"
      using holes_okD [OF ok(1), of a s] by auto
    have "16 dvd (a + s - (b + sz))" using as d b by (auto intro: dvd_diff_nat)
    with True have "16 \<le> a + s - (b + sz)" by (auto dest: dvd_imp_le)
    then have w: "write_hole h (b + sz) x = Inr (h\<lparr>h_mem := (h_mem h)(b + sz := x)\<rparr>)"
      using as b d ok(2) by (intro write_hole_ok) auto
    have "b + sz \<notin> fst ` set post"
      using holes_ok_after [of _ "h_end h" a s post "b + sz"] ok(1) b by (auto simp: holes_ok_append)
    then have "path ((h_mem h)(b + sz := x)) (b + sz) ((b + sz, a + s - (b + sz)) # post) 0"
      using post d by (simp add: path_upd x_def)
    with True w show ?thesis
      by (intro that [of "h\<lparr>h_mem := (h_mem h)(b + sz := x)\<rparr>" "b + sz"]) (simp_all add: x_def)
  qed
qed

text \<open>The header before the cut, when there is one, is in free memory.\<close>

lemma prev_of_free:
  assumes "holes_ok lo e pre" "pre \<noteq> []"
  shows "prev_of pre \<in> free_bytes pre"
proof -
  obtain t where t: "(prev_of pre, t) \<in> set pre" using prev_of_in [OF assms(2)] by (metis imageE prod.collapse)
  then have "16 \<le> t" using holes_okD(5) [OF assms(1)] by blast
  then show ?thesis unfolding free_bytes_def by (intro UN_I [OF t]) simp
qed

lemma alloc_take_spec:
  assumes inv: "heap_inv h (pre @ (a, s) # post)" and b: "a \<le> b" "b + sz \<le> a + s"
    and d: "16 dvd b" "16 dvd sz" "0 < sz"
  obtains h' where
    "alloc_take h sz (prev_of pre) a (h_mem h a) (a + s) b (b + sz) = Inr (Some b, h')"
    "heap_inv h' (pre @ cut_hole a s b sz @ post)"
    "only_free_written h h' (free_bytes (pre @ cut_hole a s b sz))"
proof -
  have ok: "holes_ok (h_start h) (h_end h) (pre @ (a, s) # post)" "h_end h < usize_bound"
    and pre: "path (h_mem h) (h_head h) pre a" and a0: "a \<noteq> 0"
    using inv by (auto simp: heap_inv_def path_append)
  have as: "h_start h \<le> a" "a + s \<le> h_end h" "16 dvd a" "16 \<le> s"
    using holes_okD [OF ok(1), of a s] by auto
  let ?behind = "(if b + sz < a + s then [(b + sz, a + s - (b + sz))] else []) @ post"
  let ?front = "(if a < b then [(a, b - a)] else [])"
  obtain h1 r where h1: "(if b + sz < a + s
      then and_then (write_hole h (b + sz)
             \<lparr>hole_size = a + s - (b + sz), hole_next = hole_next (h_mem h a)\<rparr>) (\<lambda>h. Inr (h, b + sz))
      else Inr (h, hole_next (h_mem h a))) = Inr (h1, r)"
    and p1: "path (h_mem h1) r ?behind 0"
    and f1: "h_start h1 = h_start h" "h_end h1 = h_end h" "h_free h1 = h_free h" "h_head h1 = h_head h"
      "h_base h1 = h_base h" "\<And>x. x \<noteq> b + sz \<or> \<not> b + sz < a + s \<Longrightarrow> h_mem h1 x = h_mem h x"
    using back_written [OF inv b d] by blast
  have aft: "a < x" if "x \<in> fst ` set ?behind" for x
  proof -
    have "a + s < x" if "x \<in> fst ` set post"
      using holes_ok_after [OF _ that, of a "h_end h" a s] ok(1) by (simp add: holes_ok_append)
    moreover from that have "x = b + sz \<or> x \<in> fst ` set post" by (auto split: if_splits)
    ultimately show ?thesis using b d by fastforce
  qed
  define h2 where "h2 = (if a < b then h1\<lparr>h_mem := (h_mem h1)(a := \<lparr>hole_size = b - a, hole_next = r\<rparr>)\<rparr>
    else h1)"
  define r2 where "r2 = (if a < b then a else r)"
  have step2: "(if b > a then and_then (write_hole h1 a \<lparr>hole_size = b - a, hole_next = r\<rparr>) (\<lambda>h. Inr (h, a))
      else Inr (h1, r)) = Inr (h2, r2)"
    using as ok(2) f1 write_hole_ok [of a h1] by (simp add: h2_def r2_def)
  have f2: "h_start h2 = h_start h" "h_end h2 = h_end h" "h_free h2 = h_free h" "h_head h2 = h_head h"
    "h_base h2 = h_base h"
    "\<And>x. (x \<noteq> b + sz \<or> \<not> b + sz < a + s) \<Longrightarrow> (x \<noteq> a \<or> \<not> a < b) \<Longrightarrow> h_mem h2 x = h_mem h x"
    using f1 by (auto simp: h2_def)
  have "path (h_mem h2) r2 (?front @ bk) 0" if "a \<notin> fst ` set bk" "path (h_mem h1) r bk 0" for bk
    using that a0 by (simp add: h2_def r2_def path_upd)
  then have p2: "path (h_mem h2) r2 (?front @ ?behind) 0" using aft p1 by blast
  have bef: "x < a" if "x \<in> fst ` set pre" for x using holes_ok_before [OF ok(1) that] .
  have pre2: "path (h_mem h2) (h_head h2) pre a"
  proof (subst path_cong [where m = "h_mem h"])
    fix x assume "x \<in> fst ` set pre"
    then show "h_mem h2 x = h_mem h x" using bef [of x] b d by (intro f2(6)) auto
  qed (use pre f2 in simp)
  have okp: "holes_ok (h_start h2) (h_end h2) pre" using ok(1) f2 by (simp add: holes_ok_append)
  have np: "prev_of pre \<notin> fst ` set (?front @ ?behind)"
  proof (cases "pre = []")
    case True
    then show ?thesis using path_nonzero [OF p2] by (auto simp: prev_of_def)
  next
    case False
    then have "prev_of pre < a" using bef prev_of_in by blast
    then show ?thesis using aft by fastforce
  qed
  obtain h3 where h3: "link h2 (prev_of pre) r2 = Inr h3" "path (h_mem h3) (h_head h3) (pre @ ?front @ ?behind) 0"
    "h_start h3 = h_start h" "h_end h3 = h_end h" "h_free h3 = h_free h" "h_base h3 = h_base h"
    "\<And>x. x \<noteq> prev_of pre \<or> pre = [] \<Longrightarrow> h_mem h3 x = h_mem h2 x"
    using link_spec [OF pre2 p2 okp _ np holes_ok_distinct [OF okp]] ok(2) f2 by (metis f2)
  have tk: "alloc_take h sz (prev_of pre) a (h_mem h a) (a + s) b (b + sz) =
      Inr (Some b, h3\<lparr>h_free := h_free h3 - sz\<rparr>)"
    unfolding alloc_take_def h1 by (simp add: step2 h3(1))
  have "heap_inv (h3\<lparr>h_free := h_free h3 - sz\<rparr>) (pre @ cut_hole a s b sz @ post)"
    using inv h3 cut_hole_ok [OF ok(1) b d] cut_hole_total [OF b] by (simp add: heap_inv_def cut_hole_def)
  moreover have "h_mem h3 x = h_mem h x" if "x \<notin> free_bytes (pre @ cut_hole a s b sz)" for x
  proof -
    have "x \<noteq> prev_of pre \<or> pre = []" using that prev_of_free [OF okp] by auto
    then have "h_mem h3 x = h_mem h2 x" by (rule h3(7))
    also have "\<dots> = h_mem h x" using that b as by (intro f2(6)) (auto simp: cut_hole_def split: if_splits)
    finally show ?thesis .
  qed
  ultimately show ?thesis using tk h3 by (intro that) (auto simp: only_free_written_def)
qed

lemma only_free_written_mono:
  "only_free_written h h' F \<Longrightarrow> F \<subseteq> G \<Longrightarrow> only_free_written h h' G"
  by (auto simp: only_free_written_def)

lemma alloc_loop_fits:
  assumes inv: "heap_inv h (pre @ (a, s) # post)" and d: "16 dvd sz" "0 < sz" "16 dvd al" "0 < al"
    and fit: "next_multiple a al + sz \<le> a + s"
  obtains h' where "alloc_loop h sz al (prev_of pre) a = Some (Inr (Some (next_multiple a al), h'))"
    "heap_inv h' (pre @ cut_hole a s (next_multiple a al) sz @ post)"
    "only_free_written h h' (free_bytes (pre @ cut_hole a s (next_multiple a al) sz))"
proof -
  let ?b = "next_multiple a al"
  have ok: "holes_ok (h_start h) (h_end h) (pre @ (a, s) # post)" and e: "h_end h < usize_bound"
    and a: "a \<noteq> 0" "hole_size (h_mem h a) = s"
    using inv by (auto simp: heap_inv_def path_append)
  have as: "a + s < usize_bound" using holes_okD(2) [OF ok, of a s] e by simp
  have rd: "read_hole h a = Inr (h_mem h a)" using read_hole_in_list [OF ok _ e, of a s] by simp
  have "16 dvd ?b" using next_multiple_dvd [OF d(4)] d(3) by (rule dvd_trans [rotated])
  from alloc_take_spec [OF inv next_multiple_ge fit this d(1,2)] obtain h' where
    "alloc_take h sz (prev_of pre) a (h_mem h a) (a + s) ?b (?b + sz) = Inr (Some ?b, h')"
    "heap_inv h' (pre @ cut_hole a s ?b sz @ post)"
    "only_free_written h h' (free_bytes (pre @ cut_hole a s ?b sz))" .
  moreover have "checked_next_multiple_of a al = Some ?b" "nat_checked_add ?b sz = Some (?b + sz)"
    "wadd a s = a + s"
    using as fit d by (simp_all add: checked_next_multiple_of_eq nat_checked_add_def wadd_def)
  ultimately show ?thesis
    using a rd fit by (intro that) (simp_all add: alloc_loop.simps [of h sz al "prev_of pre" a] Let_def)
qed

lemma alloc_loop_skips:
  assumes inv: "heap_inv h (pre @ (a, s) # post)" and d: "0 < al"
    and fit: "\<not> next_multiple a al + sz \<le> a + s"
  shows "alloc_loop h sz al prev a = alloc_loop h sz al a (hole_next (h_mem h a))"
proof -
  have ok: "holes_ok (h_start h) (h_end h) (pre @ (a, s) # post)" and e: "h_end h < usize_bound"
    and a: "a \<noteq> 0" "hole_size (h_mem h a) = s"
    using inv by (auto simp: heap_inv_def path_append)
  have as: "a + s < usize_bound" using holes_okD(2) [OF ok, of a s] e by simp
  have "read_hole h a = Inr (h_mem h a)" using read_hole_in_list [OF ok _ e, of a s] by simp
  moreover have "wadd a s = a + s" using as by (simp add: wadd_def)
  ultimately show ?thesis
    using a as fit d
    by (simp add: alloc_loop.simps [of h sz al prev a] checked_next_multiple_of_eq
        nat_checked_add_def Let_def)
qed

lemma alloc_loop_spec:
  assumes "heap_inv h (pre @ rest)" "path (h_mem h) (h_head h) pre c" "path (h_mem h) c rest 0"
    and d: "16 dvd sz" "0 < sz" "16 dvd al" "0 < al"
  shows "case alloc_holes sz al rest of
      None \<Rightarrow> alloc_loop h sz al (prev_of pre) c = Some (Inr (None, h))
    | Some (b, rest') \<Rightarrow> \<exists>h'. alloc_loop h sz al (prev_of pre) c = Some (Inr (Some b, h')) \<and>
        heap_inv h' (pre @ rest') \<and> only_free_written h h' (free_bytes (pre @ rest'))"
  using assms(1-3)
proof (induction rest arbitrary: pre c)
  case Nil
  then show ?case by (simp add: alloc_loop.simps)
next
  case (Cons x rest)
  obtain a s where x: "x = (a, s)" by fastforce
  from Cons.prems have c: "c = a" "a \<noteq> 0" "hole_size (h_mem h a) = s"
    "path (h_mem h) (hole_next (h_mem h a)) rest 0" by (auto simp: x)
  note inv = Cons.prems(1) [unfolded x]
  show ?case
  proof (cases "next_multiple a al + sz \<le> a + s")
    case True
    obtain h' where "alloc_loop h sz al (prev_of pre) a = Some (Inr (Some (next_multiple a al), h'))"
      "heap_inv h' (pre @ cut_hole a s (next_multiple a al) sz @ rest)"
      "only_free_written h h' (free_bytes (pre @ cut_hole a s (next_multiple a al) sz))"
      using alloc_loop_fits [OF inv d True] by blast
    then show ?thesis using True c by (auto simp: x Let_def elim: only_free_written_mono)
  next
    case False
    have "heap_inv h ((pre @ [(a, s)]) @ rest)" "path (h_mem h) (h_head h) (pre @ [(a, s)]) (hole_next (h_mem h a))"
      using inv Cons.prems(2) c by (auto simp: path_append)
    from Cons.IH [OF this c(4)] False alloc_loop_skips [OF inv d(4) False, of "prev_of pre"] c(1)
    show ?thesis by (auto simp: x Let_def split: option.splits)
  qed
qed

definition layout_ok :: "layout \<Rightarrow> bool" where
  "layout_ok l \<longleftrightarrow> (\<exists>k. layout_align l = 2 ^ k) \<and> layout_size l + layout_align l \<le> 2 ^ 63"

lemma layout_align_16:
  assumes "layout_ok l"
  shows "16 dvd max (layout_align l) GRANULE" "0 < max (layout_align l) GRANULE"
proof -
  obtain k where k: "layout_align l = 2 ^ k" using assms by (auto simp: layout_ok_def)
  have "(16 :: nat) = 2 ^ 4" by simp
  moreover have "2 ^ 4 dvd (2 ^ k :: nat)" if "4 \<le> k" using that by (rule le_imp_power_dvd)
  moreover have "(2 ^ k :: nat) \<le> 2 ^ 4" if "k \<le> 4" using that by (rule power_increasing) simp
  ultimately show "16 dvd max (layout_align l) GRANULE" "0 < max (layout_align l) GRANULE"
    by (cases "4 \<le> k") (auto simp: k GRANULE_def max_def)
qed

lemma block_size_ok:
  assumes "layout_ok l"
  obtains sz where "block_size l = Some sz" "sz = next_multiple (max (layout_size l) 1) 16"
    "16 dvd sz" "0 < sz" "layout_size l \<le> sz"
proof -
  let ?n = "max (layout_size l) 1"
  have "?n \<le> 2 ^ 63" using assms by (auto simp: layout_ok_def)
  then have "next_multiple ?n 16 < usize_bound" "?n < usize_bound"
    by (auto simp: next_multiple_def usize_bound_def)
  then have "block_size l = Some (next_multiple ?n 16)"
    by (simp add: block_size_def GRANULE_def checked_next_multiple_of_eq)
  moreover have "?n \<le> next_multiple ?n 16" by (rule next_multiple_ge)
  ultimately show ?thesis
    using next_multiple_dvd [of 16 ?n] by (intro that) auto
qed

text \<open>What first fit means for the bytes of the heap.\<close>

lemma free_bytes_above: "holes_ok lo e hs \<Longrightarrow> x \<in> free_bytes hs \<Longrightarrow> lo \<le> x \<and> x < e"
  by (auto simp: free_bytes_def dest: holes_okD(1,2))

lemma alloc_holes_bytes:
  assumes "holes_ok lo e hs" "alloc_holes sz al hs = Some (b, hs')" "0 < al"
  shows "al dvd b" "{b ..< b + sz} \<subseteq> free_bytes hs" "free_bytes hs' = free_bytes hs - {b ..< b + sz}"
    "total hs = total hs' + sz"
proof -
  have "al dvd b \<and> {b ..< b + sz} \<subseteq> free_bytes hs \<and> free_bytes hs' = free_bytes hs - {b ..< b + sz} \<and>
      total hs = total hs' + sz"
    using assms
  proof (induction hs arbitrary: lo hs')
    case (Cons x hs)
    obtain a s where x: "x = (a, s)" by fastforce
    let ?b = "next_multiple a al"
    have tail: "holes_ok (a + s + 1) e hs" using Cons.prems(1) by (simp add: x)
    have above: "a + s < y" if "y \<in> free_bytes hs" for y using free_bytes_above [OF tail that] by simp
    show ?case
    proof (cases "?b + sz \<le> a + s")
      case True
      then have r: "b = ?b" "hs' = cut_hole a s ?b sz @ hs" using Cons.prems(2) by (auto simp: x Let_def)
      have "y \<notin> {?b ..< ?b + sz}" if "y \<in> free_bytes hs" for y using above [OF that] True by simp
      then have "free_bytes hs' = free_bytes (x # hs) - {?b ..< ?b + sz}"
        using cut_hole_bytes [OF next_multiple_ge True] by (auto simp: r x)
      then show ?thesis
        using r True next_multiple_ge [of a al] next_multiple_dvd [OF Cons.prems(3)]
          cut_hole_total [OF next_multiple_ge True] by (auto simp: x)
    next
      case False
      then obtain t where t: "alloc_holes sz al hs = Some (b, t)" "hs' = (a, s) # t"
        using Cons.prems(2) by (auto simp: x Let_def)
      note IH = Cons.IH [OF tail t(1) Cons.prems(3)]
      then have "y \<notin> {b ..< b + sz}" if "y \<in> {a ..< a + s}" for y
        using above [of y] that by (meson atLeastLessThan_iff less_imp_not_less subsetD)
      then show ?thesis using IH by (auto simp: x t(2))
    qed
  qed simp
  then show "al dvd b" "{b ..< b + sz} \<subseteq> free_bytes hs" "free_bytes hs' = free_bytes hs - {b ..< b + sz}"
    "total hs = total hs' + sz" by auto
qed

lemma next_multiple_least:
  assumes "0 < m" "m dvd b" "a \<le> b"
  shows "next_multiple a m \<le> b"
proof -
  from assms(2) obtain q where q: "b = m * q" by blast
  have "next_multiple a m = m * (next_multiple a m div m)"
    using next_multiple_dvd [OF assms(1)] by simp
  moreover have "next_multiple a m < a + m"
    using mod_less_divisor [OF assms(1), of a] by (auto simp: next_multiple_def assms(1))
  ultimately have "m * (next_multiple a m div m) < m * (q + 1)" using assms(3) q by simp
  then have "next_multiple a m div m \<le> q" by (metis Suc_eq_plus1 less_Suc_eq_le mult_less_cancel1)
  then show ?thesis using q \<open>next_multiple a m = m * (next_multiple a m div m)\<close>
    by (metis mult_le_mono2)
qed

lemma alloc_holes_None:
  assumes "alloc_holes sz al hs = None" "(a, s) \<in> set hs" "0 < al" "al dvd b" "a \<le> b"
  shows "a + s < b + sz"
  using assms
proof (induction hs)
  case (Cons x hs)
  show ?case
  proof (cases "x = (a, s)")
    case True
    with Cons.prems(1) have "\<not> next_multiple a al + sz \<le> a + s" by (auto simp: Let_def split: if_splits)
    then show ?thesis using next_multiple_least [OF Cons.prems(3-5)] by simp
  next
    case False
    obtain c t where "x = (c, t)" by fastforce
    with False Cons show ?thesis by (auto simp: Let_def split: if_splits)
  qed
qed simp

section \<open>Deallocation\<close>

lemma find_gap_spec:
  assumes "heap_inv h (pre @ rest)" "path (h_mem h) (h_head h) pre c" "path (h_mem h) c rest 0"
  shows "\<exists>d. find_gap h block (prev_of pre) c =
      Some (Inr (prev_of (pre @ takeWhile (\<lambda>(a, s). a < block) rest), d)) \<and>
    path (h_mem h) (h_head h) (pre @ takeWhile (\<lambda>(a, s). a < block) rest) d \<and>
    path (h_mem h) d (dropWhile (\<lambda>(a, s). a < block) rest) 0"
  using assms
proof (induction rest arbitrary: pre c)
  case Nil
  then show ?case by (simp add: find_gap.simps)
next
  case (Cons x rest)
  obtain a s where x: "x = (a, s)" by fastforce
  from Cons.prems have c: "c = a" "a \<noteq> 0" "hole_size (h_mem h a) = s"
    "path (h_mem h) (hole_next (h_mem h a)) rest 0" by (auto simp: x)
  show ?case
  proof (cases "a < block")
    case True
    have ok: "holes_ok (h_start h) (h_end h) (pre @ (a, s) # rest)" and e: "h_end h < usize_bound"
      using Cons.prems(1) by (auto simp: heap_inv_def x)
    have rd: "read_hole h a = Inr (h_mem h a)" using read_hole_in_list [OF ok _ e, of a s] by simp
    have "heap_inv h ((pre @ [(a, s)]) @ rest)"
      "path (h_mem h) (h_head h) (pre @ [(a, s)]) (hole_next (h_mem h a))"
      using Cons.prems c by (auto simp: path_append x)
    from Cons.IH [OF this c(4)] show ?thesis
      using True c rd by (auto simp: x find_gap.simps [of h block "prev_of pre" a])
  next
    case False
    then show ?thesis using c Cons.prems by (simp add: x find_gap.simps [of h block "prev_of pre" a])
  qed
qed

text \<open>Freeing on the list of holes, between the holes before and the holes after the block.\<close>

fun join_next :: "nat \<Rightarrow> nat \<Rightarrow> holes \<Rightarrow> holes" where
  "join_next b sz [] = [(b, sz)]"
| "join_next b sz ((a, s) # hs) = (if b + sz = a then (b, sz + s) # hs else (b, sz) # (a, s) # hs)"

definition free_holes :: "holes \<Rightarrow> nat \<Rightarrow> nat \<Rightarrow> holes \<Rightarrow> holes" where
  "free_holes pre b sz post =
     (if pre \<noteq> [] \<and> fst (last pre) + snd (last pre) = b
      then butlast pre @ (fst (last pre), snd (last pre) + snd (hd (join_next b sz post))) # tl (join_next b sz post)
      else pre @ join_next b sz post)"

definition overlaps :: "holes \<Rightarrow> nat \<Rightarrow> nat \<Rightarrow> holes \<Rightarrow> bool" where
  "overlaps pre b sz post \<longleftrightarrow>
     (pre \<noteq> [] \<and> fst (last pre) + snd (last pre) > b) \<or> (post \<noteq> [] \<and> b + sz > fst (hd post))"

lemma join_next_ok:
  assumes "holes_ok lo e post" "16 dvd b" "16 dvd sz" "0 < sz" "b + sz \<le> e"
    "post \<noteq> [] \<Longrightarrow> b + sz \<le> fst (hd post)" "l \<le> b"
  shows "holes_ok l e (join_next b sz post)"
proof (cases post)
  case Nil
  then show ?thesis using assms by simp
next
  case (Cons x hs)
  obtain a s where "x = (a, s)" by fastforce
  then show ?thesis using assms by (auto simp: Cons algebra_simps intro: holes_ok_mono)
qed

lemma join_next_total [simp]: "total (join_next b sz post) = sz + total post"
  by (cases "(b, sz, post)" rule: join_next.cases) auto

lemma join_next_bytes: "free_bytes (join_next b sz post) = {b ..< b + sz} \<union> free_bytes post"
  by (cases "(b, sz, post)" rule: join_next.cases) auto

lemma join_next_Cons: "\<exists>n rest. join_next b sz post = (b, n) # rest \<and> set rest \<subseteq> set post"
  by (cases "(b, sz, post)" rule: join_next.cases) auto

lemma merge_next_spec:
  assumes ok: "holes_ok lo (h_end h) post" "h_start h \<le> lo" "h_end h < usize_bound"
    and p: "path (h_mem h) c post 0" and j: "join_next b sz post = (b, n) # rest" and "0 < sz"
  obtains r where "merge_next h sz (b + sz) c = Inr \<lparr>hole_size = n, hole_next = r\<rparr>"
    "path (h_mem h) r rest 0"
proof (cases post)
  case Nil
  then show ?thesis using p j by (intro that [of 0]) (auto simp: merge_next_def)
next
  case (Cons x hs)
  obtain a s where x: "x = (a, s)" by fastforce
  have as: "h_start h \<le> a" "a + s \<le> h_end h" "16 dvd a" "16 \<le> s"
    using holes_okD [OF ok(1), of a s] ok(2) by (auto simp: Cons x)
  have pa: "c = a" "a \<noteq> 0" "hole_size (h_mem h a) = s" "path (h_mem h) (hole_next (h_mem h a)) hs 0"
    using p by (auto simp: Cons x)
  show ?thesis
  proof (cases "b + sz = a")
    case True
    have "read_hole h a = Inr (h_mem h a)" using as ok(3) by (intro read_hole_ok) auto
    moreover have "wadd sz s = sz + s" using as ok(3) True by (simp add: wadd_def)
    ultimately show ?thesis using True j pa
      by (intro that [of "hole_next (h_mem h a)"]) (auto simp: Cons x merge_next_def)
  next
    case False
    then show ?thesis using j pa by (intro that [of a]) (auto simp: Cons x merge_next_def)
  qed
qed

lemma path_head: "path m c post 0 \<Longrightarrow> c = (if post = [] then 0 else fst (hd post))"
  by (cases post) auto

lemma path_head_nonzero: "path m c post 0 \<Longrightarrow> c \<noteq> 0 \<longleftrightarrow> post \<noteq> []"
  by (cases post) auto

lemma insert_apart:
  assumes pre: "path (h_mem h) (h_head h) pre c" "holes_ok (h_start h) (h_end h) pre"
    and rest: "path (h_mem h) r rest 0" and e: "h_end h < usize_bound"
    and b: "16 dvd b" "h_start h \<le> b" "b + 16 \<le> h_end h" "b \<noteq> 0"
    and bef: "\<And>x. x \<in> fst ` set pre \<Longrightarrow> x < b" and aft: "\<And>x. x \<in> fst ` set rest \<Longrightarrow> b < x"
  obtains h' where
    "and_then (write_hole h b \<lparr>hole_size = n, hole_next = r\<rparr>) (\<lambda>h. link h (prev_of pre) b) = Inr h'"
    "path (h_mem h') (h_head h') (pre @ (b, n) # rest) 0" "h_free h' = h_free h"
    "only_free_written h h' (free_bytes pre \<union> {b})"
proof -
  define h1 where "h1 = h\<lparr>h_mem := (h_mem h)(b := \<lparr>hole_size = n, hole_next = r\<rparr>)\<rparr>"
  have w: "write_hole h b \<lparr>hole_size = n, hole_next = r\<rparr> = Inr h1"
    using write_hole_ok [OF b(1-3) e] by (simp add: h1_def)
  have nb: "b \<notin> fst ` set pre" "b \<notin> fst ` set rest" using bef aft by blast+
  have p1: "path (h_mem h1) (h_head h1) pre c" "path (h_mem h1) b ((b, n) # rest) 0"
    using pre(1) rest b(4) nb by (simp_all add: h1_def path_upd)
  have "prev_of pre \<notin> fst ` set ((b, n) # rest)"
  proof (cases "pre = []")
    case True
    then show ?thesis using path_nonzero [OF p1(2)] by (auto simp: prev_of_def)
  next
    case False
    then have "prev_of pre < b" using bef prev_of_in by blast
    then show ?thesis using aft by fastforce
  qed
  then obtain h' where h': "link h1 (prev_of pre) b = Inr h'"
    "path (h_mem h') (h_head h') (pre @ (b, n) # rest) 0" "h_start h' = h_start h1" "h_end h' = h_end h1"
    "h_free h' = h_free h1" "h_base h' = h_base h1"
    "\<And>x. x \<noteq> prev_of pre \<or> pre = [] \<Longrightarrow> h_mem h' x = h_mem h1 x"
    using link_spec [OF p1, of thesis] pre(2) e holes_ok_distinct [OF pre(2)] by (auto simp: h1_def)
  have "h_mem h' x = h_mem h x" if "x \<notin> free_bytes pre \<union> {b}" for x
    using that h'(7) [of x] prev_of_free [OF pre(2)] by (auto simp: h1_def)
  with h' w show ?thesis by (intro that [of h']) (auto simp: h1_def only_free_written_def)
qed

lemma insert_joined:
  assumes pre: "path (h_mem h) (h_head h) (pre @ [(p, t)]) c"
    "holes_ok (h_start h) (h_end h) (pre @ [(p, t)])"
    and rest: "path (h_mem h) r rest 0" and e: "h_end h < usize_bound"
    and aft: "\<And>x. x \<in> fst ` set rest \<Longrightarrow> p < x"
  obtains h' where
    "write_hole h p \<lparr>hole_size = t + n, hole_next = r\<rparr> = Inr h'"
    "path (h_mem h') (h_head h') (pre @ (p, t + n) # rest) 0" "h_free h' = h_free h"
    "only_free_written h h' {p}"
proof -
  let ?x = "\<lparr>hole_size = t + n, hole_next = r\<rparr>"
  have "p \<notin> fst ` set pre" using holes_ok_distinct [OF pre(2)] by auto
  moreover have "p \<notin> fst ` set rest" using aft by blast
  ultimately have "path ((h_mem h)(p := ?x)) (h_head h) (pre @ (p, t + n) # rest) 0"
    using pre(1) rest by (auto simp: path_append path_upd)
  moreover have "write_hole h p ?x = Inr (h\<lparr>h_mem := (h_mem h)(p := ?x)\<rparr>)"
    using holes_okD [OF pre(2), of p t] e by (intro write_hole_ok) auto
  ultimately show ?thesis
    by (intro that [of "h\<lparr>h_mem := (h_mem h)(p := ?x)\<rparr>"]) (auto simp: only_free_written_def)
qed

lemma free_holes_ok:
  assumes ok: "holes_ok lo e (pre @ post)" and b: "16 dvd b" "lo \<le> b" "b + sz \<le> e" "16 dvd sz" "0 < sz"
    and no: "\<not> overlaps pre b sz post"
  shows "holes_ok lo e (free_holes pre b sz post)"
proof -
  have pre: "holes_ok lo e pre" and post: "holes_ok (end_of lo pre) e post"
    using ok by (auto simp: holes_ok_append)
  have next_ok: "post \<noteq> [] \<Longrightarrow> b + sz \<le> fst (hd post)" using no by (auto simp: overlaps_def)
  have join: "holes_ok l e (join_next b sz post)" if "l \<le> b" for l
    using join_next_ok [OF post b(1,4,5,3) next_ok that] .
  show ?thesis
  proof (cases pre rule: rev_cases)
    case Nil
    then show ?thesis using join b(2) by (simp add: free_holes_def)
  next
    case (snoc pre' q)
    obtain p t where q: "q = (p, t)" by fastforce
    have pt: "p + t \<le> b" using no by (auto simp: overlaps_def snoc q)
    have pok: "holes_ok lo e pre'" "end_of lo pre' \<le> p" "16 dvd p" "16 dvd t" "0 < t"
      using pre by (auto simp: snoc q holes_ok_append)
    obtain n rest where j: "join_next b sz post = (b, n) # rest" using join_next_Cons by blast
    show ?thesis
    proof (cases "p + t = b")
      case True
      have "16 dvd n" "b + n \<le> e" "holes_ok (b + n + 1) e rest" using join [of b] by (auto simp: j)
      then show ?thesis using True pok
        by (auto simp: free_holes_def snoc q j holes_ok_append add.assoc [symmetric])
    next
      case False
      with pt have "holes_ok (end_of lo pre) e (join_next b sz post)"
        by (intro join) (simp add: snoc q end_of_append)
      then show ?thesis using False pre
        by (simp add: free_holes_def snoc q holes_ok_append end_of_append)
    qed
  qed
qed

lemma free_holes_total: "total (free_holes pre b sz post) = total pre + sz + total post"
proof (cases pre rule: rev_cases)
  case Nil
  then show ?thesis by (simp add: free_holes_def)
next
  case (snoc pre' q)
  obtain p t where q: "q = (p, t)" by fastforce
  obtain n rest where j: "join_next b sz post = (b, n) # rest" using join_next_Cons by blast
  have "n + total rest = sz + total post" using join_next_total [of b sz post] by (simp add: j)
  then show ?thesis by (auto simp: free_holes_def snoc q j)
qed

lemma free_holes_bytes:
  "free_bytes (free_holes pre b sz post) = free_bytes pre \<union> {b ..< b + sz} \<union> free_bytes post"
proof (cases pre rule: rev_cases)
  case Nil
  then show ?thesis by (simp add: free_holes_def join_next_bytes)
next
  case (snoc pre' q)
  obtain p t where q: "q = (p, t)" by fastforce
  obtain n rest where j: "join_next b sz post = (b, n) # rest" using join_next_Cons by blast
  have bytes: "{b ..< b + n} \<union> free_bytes rest = {b ..< b + sz} \<union> free_bytes post"
    using join_next_bytes [of b sz post] by (simp add: j)
  show ?thesis
  proof (cases "p + t = b")
    case True
    then have "{p ..< p + (t + n)} = {p ..< p + t} \<union> {b ..< b + n}" by auto
    then show ?thesis using True bytes by (simp add: free_holes_def snoc q j Un_assoc)
  next
    case False
    then show ?thesis by (simp add: free_holes_def snoc q join_next_bytes Un_assoc)
  qed
qed

text \<open>
  \<open>free_between\<close>, with the holes before and after the block: a panic when the block overlaps one of
  them, otherwise the joined list.
\<close>

lemma prev_hole_read:
  assumes "heap_inv h (pre @ post)" "path (h_mem h) (h_head h) pre c"
  shows "(if prev_of pre \<noteq> 0 then and_then (read_hole h (prev_of pre)) (\<lambda>x. Inr (Some x)) else Inr None) =
      Inr (if pre = [] then None else Some (h_mem h (prev_of pre)))"
    and "pre \<noteq> [] \<Longrightarrow> wadd (prev_of pre) (hole_size (h_mem h (prev_of pre))) = fst (last pre) + snd (last pre)"
proof -
  have ok: "holes_ok (h_start h) (h_end h) (pre @ post)" and e: "h_end h < usize_bound"
    using assms(1) by (auto simp: heap_inv_def)
  have ne: "prev_of pre \<noteq> 0" "read_hole h (prev_of pre) = Inr (h_mem h (prev_of pre))"
    "hole_size (h_mem h (prev_of pre)) = snd (last pre)" "fst (last pre) + snd (last pre) \<le> h_end h"
    if "pre \<noteq> []"
  proof -
    from that obtain pre' p t where pre: "pre = pre' @ [(p, t)]" by (metis rev_exhaust surj_pair)
    then show "prev_of pre \<noteq> 0" "hole_size (h_mem h (prev_of pre)) = snd (last pre)"
      using assms(2) by (auto simp: path_append)
    show "read_hole h (prev_of pre) = Inr (h_mem h (prev_of pre))"
      using read_hole_in_list [OF ok _ e, of p t] by (simp add: pre)
    show "fst (last pre) + snd (last pre) \<le> h_end h" using holes_okD(2) [OF ok, of p t] by (simp add: pre)
  qed
  show "(if prev_of pre \<noteq> 0 then and_then (read_hole h (prev_of pre)) (\<lambda>x. Inr (Some x)) else Inr None) =
      Inr (if pre = [] then None else Some (h_mem h (prev_of pre)))"
    using ne by (cases "pre = []") (simp_all add: prev_of_def)
  show "wadd (prev_of pre) (hole_size (h_mem h (prev_of pre))) = fst (last pre) + snd (last pre)"
    if "pre \<noteq> []" using ne [OF that] e that by (simp add: wadd_def prev_of_def)
qed

lemma free_between_overlap:
  assumes "heap_inv h (pre @ post)" "path (h_mem h) (h_head h) pre c" "path (h_mem h) c post 0"
    and "overlaps pre b sz post"
  shows "free_between h sz b (b + sz) (prev_of pre) c = Inl (Panic ''heap: double free'')"
  using assms(4) path_head [OF assms(3)] path_head_nonzero [OF assms(3)] prev_hole_read(2) [OF assms(1,2)]
  unfolding free_between_def prev_hole_read(1) [OF assms(1,2)]
  by (cases "pre = []"; cases "post = []") (simp_all add: overlaps_def)

lemma no_overlap_sides:
  assumes "\<not> overlaps pre b sz post" "holes_ok lo e (pre @ post)" "0 < sz"
    and "\<forall>(a, s) \<in> set pre. a < b"
  shows "x \<in> fst ` set pre \<Longrightarrow> x < b" "x \<in> fst ` set post \<Longrightarrow> b + sz \<le> x"
proof -
  show "x < b" if "x \<in> fst ` set pre" using that assms(4) by auto
  show "b + sz \<le> x" if "x \<in> fst ` set post"
  proof (cases post)
    case (Cons y post')
    obtain a s where y: "y = (a, s)" by fastforce
    have "b + sz \<le> a" using assms(1) by (auto simp: overlaps_def Cons y)
    moreover have "a + s < x" if "x \<in> fst ` set post'"
      using holes_ok_after [OF _ that, of a e a s] assms(2) by (auto simp: Cons y holes_ok_append)
    ultimately show ?thesis using that by (force simp: Cons y)
  qed (use that in simp)
qed

lemma insert_block_spec:
  assumes inv: "heap_inv h (pre @ post)" and p: "path (h_mem h) (h_head h) pre c"
    and b: "16 dvd b" "h_start h \<le> b" "b + 16 \<le> h_end h" "b \<noteq> 0"
    and j: "join_next b sz post = (b, n) # rest" "b + n \<le> h_end h" and r: "path (h_mem h) r rest 0"
    and sides: "\<And>x. x \<in> fst ` set pre \<Longrightarrow> x < b" "\<And>x. x \<in> fst ` set rest \<Longrightarrow> b < x"
  obtains h' where
    "insert_block h (prev_of pre) (if pre = [] then None else Some (h_mem h (prev_of pre))) b
       \<lparr>hole_size = n, hole_next = r\<rparr> = Inr h'"
    "path (h_mem h') (h_head h') (free_holes pre b sz post) 0" "h_free h' = h_free h"
    "only_free_written h h' (free_bytes pre \<union> {b})"
proof -
  have okp: "holes_ok (h_start h) (h_end h) pre" and e: "h_end h < usize_bound"
    using inv by (auto simp: heap_inv_def holes_ok_append)
  note prev = prev_hole_read(2) [OF inv p]
  show ?thesis
  proof (cases "pre \<noteq> [] \<and> fst (last pre) + snd (last pre) = b")
    case True
    then obtain pre' q t where pre: "pre = pre' @ [(q, t)]" and qt: "q + t = b"
      by (metis fst_conv last_snoc rev_exhaust snd_conv surj_pair)
    have sz: "hole_size (h_mem h q) = t" using p by (auto simp: pre path_append)
    have q: "q < b" using sides(1) by (simp add: pre)
    obtain h' where h': "write_hole h q \<lparr>hole_size = t + n, hole_next = r\<rparr> = Inr h'"
      "path (h_mem h') (h_head h') (pre' @ (q, t + n) # rest) 0" "h_free h' = h_free h"
      "only_free_written h h' {q}"
    proof (rule insert_joined [of h pre' q t c r rest n])
      show "q < x" if "x \<in> fst ` set rest" for x using sides(2) [OF that] q by simp
    qed (use p okp r e pre in auto)
    have "q \<in> free_bytes pre" using prev_of_free [OF okp] by (simp add: pre)
    moreover have "wadd t n = t + n" using qt j(2) e by (simp add: wadd_def)
    ultimately show ?thesis using h' prev qt sz
      by (intro that [of h'])
         (auto simp: insert_block_def pre free_holes_def j(1) elim: only_free_written_mono)
  next
    case False
    obtain h' where h':
      "and_then (write_hole h b \<lparr>hole_size = n, hole_next = r\<rparr>) (\<lambda>h. link h (prev_of pre) b) = Inr h'"
      "path (h_mem h') (h_head h') (pre @ (b, n) # rest) 0" "h_free h' = h_free h"
      "only_free_written h h' (free_bytes pre \<union> {b})"
      using insert_apart [OF p okp r e b sides] by blast
    then show ?thesis using False prev
      by (intro that [of h']) (auto simp: insert_block_def free_holes_def j(1))
  qed
qed

lemma free_between_spec:
  assumes inv: "heap_inv h (pre @ post)" and p: "path (h_mem h) (h_head h) pre c" "path (h_mem h) c post 0"
    and b: "16 dvd b" "h_start h \<le> b" "b + sz \<le> h_end h" "16 dvd sz" "0 < sz"
    and bef: "\<forall>(a, s) \<in> set pre. a < b" and no: "\<not> overlaps pre b sz post"
  obtains h' where "free_between h sz b (b + sz) (prev_of pre) c = Inr h'"
    "heap_inv h' (free_holes pre b sz post)"
    "only_free_written h h' (free_bytes pre \<union> {b ..< b + sz})"
proof -
  have ok: "holes_ok (h_start h) (h_end h) (pre @ post)" and e: "h_end h < usize_bound" and b0: "b \<noteq> 0"
    using inv b by (auto simp: heap_inv_def)
  have okp: "holes_ok (h_start h) (h_end h) post"
    using ok holes_ok_mono [OF _ end_of_ge] by (auto simp: holes_ok_append)
  obtain n rest where j: "join_next b sz post = (b, n) # rest" "set rest \<subseteq> set post"
    using join_next_Cons by blast
  obtain r where r: "merge_next h sz (b + sz) c = Inr \<lparr>hole_size = n, hole_next = r\<rparr>"
    "path (h_mem h) r rest 0"
    using merge_next_spec [OF okp order.refl e p(2) j(1) b(5)] by blast
  have sides: "x \<in> fst ` set pre \<Longrightarrow> x < b" "x \<in> fst ` set rest \<Longrightarrow> b < x" for x
    using no_overlap_sides [OF no ok b(5) bef, of x] j(2) b(5) by force+
  have fok: "holes_ok (h_start h) (h_end h) (free_holes pre b sz post)"
    by (rule free_holes_ok [OF ok b(1-5) no])
  have "holes_ok b (h_end h) (join_next b sz post)"
    using join_next_ok [OF okp b(1,4,5,3)] no by (auto simp: overlaps_def)
  then have bn: "b + n \<le> h_end h" by (simp add: j(1))
  have "16 \<le> sz" using b(4,5) by (auto dest: dvd_imp_le)
  then have b16: "b + 16 \<le> h_end h" using b(3) by simp
  obtain h' where h': "insert_block h (prev_of pre)
      (if pre = [] then None else Some (h_mem h (prev_of pre))) b \<lparr>hole_size = n, hole_next = r\<rparr> = Inr h'"
    "path (h_mem h') (h_head h') (free_holes pre b sz post) 0" "h_free h' = h_free h"
    "only_free_written h h' (free_bytes pre \<union> {b})"
    using insert_block_spec [OF inv p(1) b(1,2) b16 b0 j(1) bn r(2) sides] by blast
  have cond: "\<not> ((case if pre = [] then None else Some (h_mem h (prev_of pre)) of
        None \<Rightarrow> False | Some hl \<Rightarrow> wadd (prev_of pre) (hole_size hl) > b) \<or> (c \<noteq> 0 \<and> b + sz > c))"
    using no prev_hole_read(2) [OF inv p(1)] path_head [OF p(2)] by (auto simp: overlaps_def)
  have "free_between h sz b (b + sz) (prev_of pre) c = Inr (h'\<lparr>h_free := h_free h' + sz\<rparr>)"
    unfolding free_between_def prev_hole_read(1) [OF inv p(1)]
    by (simp only: and_then_simps cond if_False r(1) h'(1))
  moreover have "heap_inv (h'\<lparr>h_free := h_free h' + sz\<rparr>) (free_holes pre b sz post)"
    using inv h' fok by (simp add: heap_inv_def only_free_written_def free_holes_total)
  moreover have "only_free_written h (h'\<lparr>h_free := h_free h' + sz\<rparr>) (free_bytes pre \<union> {b ..< b + sz})"
    using h'(4) b(5) by (auto simp: only_free_written_def)
  ultimately show ?thesis by (rule that)
qed

section \<open>What the operations do\<close>

lemma overlap_bytes:
  assumes ok: "holes_ok lo e (pre @ post)" and "0 < sz"
    and bef: "\<forall>(a, s) \<in> set pre. a < b" and aft: "post \<noteq> [] \<Longrightarrow> b \<le> fst (hd post)"
  shows "overlaps pre b sz post \<longleftrightarrow> {b ..< b + sz} \<inter> free_bytes (pre @ post) \<noteq> {}"
proof
  assume "overlaps pre b sz post"
  then consider "pre \<noteq> []" "b < fst (last pre) + snd (last pre)" | "post \<noteq> []" "fst (hd post) < b + sz"
    by (auto simp: overlaps_def)
  then show "{b ..< b + sz} \<inter> free_bytes (pre @ post) \<noteq> {}"
  proof cases
    case 1
    then have "last pre \<in> set pre" by simp
    moreover from this have "fst (last pre) < b" using bef by (auto simp: case_prod_beta)
    ultimately have "b \<in> free_bytes pre" using 1(2) unfolding free_bytes_def by (intro UN_I [of "last pre"]) auto
    then have "b \<in> {b ..< b + sz} \<inter> free_bytes (pre @ post)" using assms(2) by simp
    then show ?thesis by blast
  next
    case 2
    then have "hd post \<in> set post" by simp
    then have "fst (hd post) \<in> free_bytes post"
      using holes_okD(5) [OF ok, of "fst (hd post)" "snd (hd post)"]
      unfolding free_bytes_def by (intro UN_I [of "hd post"]) auto
    then show ?thesis using 2 aft by auto
  qed
next
  assume "{b ..< b + sz} \<inter> free_bytes (pre @ post) \<noteq> {}"
  then obtain x where x: "b \<le> x" "x < b + sz" "x \<in> free_bytes (pre @ post)"
    unfolding disjoint_iff by (auto simp del: free_bytes_simps)
  show "overlaps pre b sz post"
  proof (rule ccontr)
    assume no: "\<not> overlaps pre b sz post"
    from x(3) consider "x \<in> free_bytes pre" | a s where "(a, s) \<in> set post" "a \<le> x"
      by (auto simp: free_bytes_def)
    then show False
    proof cases
      case 1
      then obtain pre' p t where pre: "pre = pre' @ [(p, t)]"
        by (metis empty_iff free_bytes_simps(1) rev_exhaust surj_pair)
      then have "p + t \<le> b" "p < b" using no bef by (auto simp: overlaps_def)
      moreover have "x < end_of lo pre"
        using 1 holes_okD(6) [of lo e pre] ok by (fastforce simp: free_bytes_def holes_ok_append)
      ultimately show False using x(1) 1 ok holes_okD(6) [of lo e pre']
        by (fastforce simp: pre end_of_append free_bytes_def holes_ok_append)
    next
      case 2
      then have "b + sz \<le> a" using no_overlap_sides(2) [OF no ok assms(2) bef, of a] by force
      then show False using 2 x by simp
    qed
  qed
qed

lemma take_drop_while_sides:
  assumes "holes_ok lo e hs"
  shows "\<forall>(a, s) \<in> set (takeWhile (\<lambda>(a, s). a < b) hs). a < b"
    and "dropWhile (\<lambda>(a, s). a < b) hs \<noteq> [] \<Longrightarrow> b \<le> fst (hd (dropWhile (\<lambda>(a, s). a < b) hs))"
  using hd_dropWhile [of "\<lambda>(a, s). a < b" hs] by (auto dest: set_takeWhileD)

text \<open>Deallocation of a block of the heap, on the bytes of the list.\<close>

lemma heap_deallocate_spec:
  assumes inv: "heap_inv h hs" and l: "layout_ok l" "block_size l = Some sz"
    and b: "16 dvd b" "h_start h \<le> b" "b + sz \<le> h_end h"
  shows "if {b ..< b + sz} \<inter> free_bytes hs \<noteq> {}
    then heap_deallocate h b l = Some (Inl (Panic ''heap: double free''))
    else \<exists>h' hs'. heap_deallocate h b l = Some (Inr h') \<and> heap_inv h' hs' \<and>
      free_bytes hs' = free_bytes hs \<union> {b ..< b + sz} \<and> h_free h' = h_free h + sz \<and>
      only_free_written h h' (free_bytes hs')"
proof -
  let ?pre = "takeWhile (\<lambda>(a, s). a < b) hs" and ?post = "dropWhile (\<lambda>(a, s). a < b) hs"
  have sz: "16 dvd sz" "0 < sz" using block_size_ok [OF l(1)] l(2) by (metis option.inject)+
  have split: "?pre @ ?post = hs" by simp
  have ok: "holes_ok (h_start h) (h_end h) (?pre @ ?post)" and p0: "path (h_mem h) (h_head h) hs 0"
    and e: "h_end h < usize_bound"
    using inv by (auto simp: heap_inv_def)
  obtain d where d: "find_gap h b 0 (h_head h) = Some (Inr (prev_of ?pre, d))"
    "path (h_mem h) (h_head h) ?pre d" "path (h_mem h) d ?post 0"
    using find_gap_spec [of h "[]" hs "h_head h" b] inv p0 by (simp del: path_append) blast
  note sides = take_drop_while_sides [of "h_start h" "h_end h" hs b]
  have bef: "\<forall>(a, s) \<in> set ?pre. a < b" and aft: "?post \<noteq> [] \<Longrightarrow> b \<le> fst (hd ?post)"
    using sides ok by simp_all
  have ov: "overlaps ?pre b sz ?post \<longleftrightarrow> {b ..< b + sz} \<inter> free_bytes hs \<noteq> {}"
    using overlap_bytes [OF ok sz(2) bef aft] unfolding split .
  have dl: "heap_deallocate h b l = Some (free_between h sz b (b + sz) (prev_of ?pre) d)"
    using l(2) b e d(1) by (simp add: heap_deallocate_def nat_checked_add_def GRANULE_def)
  have inv': "heap_inv h (?pre @ ?post)" using inv by simp
  show ?thesis
  proof (cases "overlaps ?pre b sz ?post")
    case True
    then show ?thesis using ov dl free_between_overlap [OF inv' d(2,3)] by simp
  next
    case False
    obtain h' where h': "free_between h sz b (b + sz) (prev_of ?pre) d = Inr h'"
      "heap_inv h' (free_holes ?pre b sz ?post)"
      "only_free_written h h' (free_bytes ?pre \<union> {b ..< b + sz})"
      using free_between_spec [OF inv' d(2,3) b sz bef False] by blast
    have bts: "free_bytes (free_holes ?pre b sz ?post) = free_bytes hs \<union> {b ..< b + sz}"
      using free_bytes_simps(3) [of ?pre ?post] by (simp add: free_holes_bytes Un_ac)
    have "h_free h' = h_free h + sz"
      using h'(2) inv total_simps(3) [of ?pre ?post] by (simp add: heap_inv_def free_holes_total)
    moreover have "only_free_written h h' (free_bytes hs \<union> {b ..< b + sz})"
      by (rule only_free_written_mono [OF h'(3)]) (use free_bytes_simps(3) [of ?pre ?post] in auto)
    ultimately show ?thesis using ov False dl h' by (auto simp: bts intro!: exI [of _ h'])
  qed
qed

lemma block_sizeD:
  assumes "layout_ok l" "block_size l = Some sz"
  shows "16 dvd sz" "0 < sz" "layout_size l \<le> sz"
  using block_size_ok [OF assms(1)] assms(2) by (metis option.inject)+

lemma heap_allocate_spec:
  assumes inv: "heap_inv h hs" and l: "layout_ok l" "block_size l = Some sz"
  shows "case alloc_holes sz (max (layout_align l) GRANULE) hs of
      None \<Rightarrow> heap_allocate h l = Some (Inr (None, h))
    | Some (b, hs') \<Rightarrow> \<exists>h'. heap_allocate h l = Some (Inr (Some b, h')) \<and> heap_inv h' hs' \<and>
        only_free_written h h' (free_bytes hs')"
proof -
  have p: "path (h_mem h) (h_head h) hs 0" using inv by (simp add: heap_inv_def)
  note d = block_sizeD(1,2) [OF l] layout_align_16 [OF l(1)]
  have eq: "heap_allocate h l = alloc_loop h sz (max (layout_align l) GRANULE) (prev_of []) (h_head h)"
    by (simp add: heap_allocate_def l(2))
  show ?thesis
    using alloc_loop_spec [of h "[]" hs "h_head h", OF _ _ p d] inv unfolding eq append.simps by simp
qed

text \<open>The two ends of a heap's life: what \<open>init\<close> builds and what \<open>check\<close> accepts.\<close>

lemma heap_init_spec:
  assumes "h_base h = 0" "h_head h = 0" "h_free h = 0" "0 < start" "start + len < usize_bound"
    and f: "f = next_multiple start 16" "f < usize_bound" and e: "e = max ((start + len) div 16 * 16) f"
  obtains h' where "heap_init h start len = Inr h'" "h_base h' = start" "h_start h' = f" "h_end h' = e"
    "heap_inv h' (if f = e then [] else [(f, e - f)])"
proof -
  have chk: "checked_next_multiple_of start GRANULE = Some f" "nat_checked_add start len = Some (start + len)"
    using assms by (simp_all add: GRANULE_def checked_next_multiple_of_eq nat_checked_add_def)
  have f16: "16 dvd f" unfolding f by (rule next_multiple_dvd) simp
  have f0: "0 < f" using next_multiple_ge [of start 16] assms(4) f(1) by linarith
  have e16: "16 dvd e" using f16 by (simp add: e max_def)
  have fe: "f \<le> e" by (simp add: e)
  have "(start + len) div 16 * 16 < usize_bound" using assms(5) by (rule order.strict_trans1 [rotated]) simp
  then have eb: "e < usize_bound" using f(2) by (simp add: e)
  define h1 where "h1 = h\<lparr>h_base := start, h_start := f, h_end := e\<rparr>"
  have init: "heap_init h start len =
      (if e - f \<ge> 16 then and_then (write_hole h1 f \<lparr>hole_size = e - f, hole_next = 0\<rparr>)
         (\<lambda>h'. Inr (h'\<lparr>h_head := f, h_free := h_end h' - f\<rparr>)) else Inr h1)"
    using assms(1) chk by (simp add: heap_init_def h1_def GRANULE_def Let_def flip: e)
  show ?thesis
  proof (cases "f = e")
    case True
    then show ?thesis using init f0 f16 eb assms
      by (intro that [of h1]) (simp_all add: h1_def heap_inv_def)
  next
    case False
    then have ge: "16 \<le> e - f" using fe dvd_imp_le [OF dvd_diff_nat [OF e16 f16]] by simp
    let ?x = "\<lparr>hole_size = e - f, hole_next = 0\<rparr>"
    have "write_hole h1 f ?x = Inr (h1\<lparr>h_mem := (h_mem h1)(f := ?x)\<rparr>)"
      using ge f16 eb by (intro write_hole_ok) (simp_all add: h1_def)
    then have "heap_init h start len = Inr (h1\<lparr>h_mem := (h_mem h1)(f := ?x), h_head := f, h_free := e - f\<rparr>)"
      using ge by (simp add: init h1_def)
    then show ?thesis using False fe f0 f16 ge e16 eb dvd_diff_nat [OF e16 f16]
      by (intro that [of "h1\<lparr>h_mem := (h_mem h1)(f := ?x), h_head := f, h_free := e - f\<rparr>"])
         (simp_all add: h1_def heap_inv_def)
  qed
qed

lemma check_loop_complete:
  assumes "path (h_mem h) c hs 0" "holes_ok lo (h_end h) hs" "h_start h \<le> lo"
    and "holes + length hs \<le> mx" "case prev of None \<Rightarrow> True | Some e \<Rightarrow> e < lo"
  shows "check_loop h mx fr holes lg prev c =
    Inr (fr + total hs, holes + length hs, fold max (map snd hs) lg)"
  using assms
proof (induction hs arbitrary: c lo holes fr lg prev)
  case Nil
  then show ?case by (simp add: check_loop.simps)
next
  case (Cons x hs)
  obtain a s where x: "x = (a, s)" by fastforce
  have c: "c = a" "a \<noteq> 0" "hole_size (h_mem h a) = s" "path (h_mem h) (hole_next (h_mem h a)) hs 0"
    using Cons.prems(1) by (auto simp: x)
  have as: "lo \<le> a" "16 dvd a" "16 dvd s" "0 < s" "a + s \<le> h_end h" "holes_ok (a + s + 1) (h_end h) hs"
    using Cons.prems(2) by (auto simp: x)
  have s16: "16 \<le> s" using as(3,4) by (rule dvd_imp_le)
  have IH: "check_loop h mx (fr + s) (holes + 1) (max lg s) (Some (a + s)) (hole_next (h_mem h a)) =
      Inr (fr + s + total hs, holes + 1 + length hs, fold max (map snd hs) (max lg s))"
    using Cons.prems(3,4) as c(4) by (intro Cons.IH [where lo = "a + s + 1"]) auto
  have "\<not> (case prev of None \<Rightarrow> False | Some e \<Rightarrow> a \<le> e)"
    using Cons.prems(5) as(1) by (auto split: option.splits)
  then show ?case
    using Cons.prems(3,4) as s16 c IH
    by (simp add: check_loop.simps [of h mx fr holes lg prev a] x GRANULE_def Let_def max.commute)
qed

lemma check_loop_sound:
  assumes "check_loop h mx fr holes lg prev c = Inr (fr', n, lg')"
    and "h_start h \<le> lo" "lo = (case prev of None \<Rightarrow> h_start h | Some e \<Rightarrow> e + 1)"
  shows "\<exists>hs. path (h_mem h) c hs 0 \<and> holes_ok lo (h_end h) hs \<and> fr' = fr + total hs"
  using assms
proof (induction h mx fr holes lg prev c arbitrary: lo rule: check_loop.induct)
  case (1 h mx fr holes lg prev c)
  show ?case
  proof (cases "c = 0")
    case True
    then show ?thesis using "1.prems"(1) by (intro exI [of _ "[]"]) (simp add: check_loop.simps)
  next
    case False
    let ?s = "hole_size (h_mem h c)"
    have ok: "\<not> holes \<ge> mx" "\<not> (c mod GRANULE \<noteq> 0 \<or> c < h_start h \<or> c \<ge> h_end h)"
      "\<not> (case prev of None \<Rightarrow> False | Some e \<Rightarrow> c \<le> e)"
      "\<not> (?s < GRANULE \<or> ?s mod GRANULE \<noteq> 0 \<or> ?s > h_end h - c)"
      and rec: "check_loop h mx (fr + ?s) (holes + 1) (max lg ?s) (Some (c + ?s)) (hole_next (h_mem h c)) =
        Inr (fr', n, lg')"
      using "1.prems"(1) False by (auto simp: check_loop.simps [of h mx fr holes lg prev c] Let_def
          split: if_splits)
    obtain hs where hs: "path (h_mem h) (hole_next (h_mem h c)) hs 0" "holes_ok (c + ?s + 1) (h_end h) hs"
      "fr' = fr + ?s + total hs"
      using "1.IH" [OF False ok(1,2,3) refl ok(4) rec, of "c + ?s + 1"] ok(2) by auto
    have "lo \<le> c" using "1.prems"(3) ok(2,3) by (auto split: option.splits)
    then have "holes_ok lo (h_end h) ((c, ?s) # hs)"
      using ok hs by (auto simp: GRANULE_def)
    then show ?thesis using hs False by (intro exI [of _ "(c, ?s) # hs"]) simp
  qed
qed

text \<open>Touching holes are always merged, so the free bytes determine the list.\<close>

lemma holes_canonical:
  assumes "holes_ok lo e hs" "holes_ok lo' e' hs'" "free_bytes hs = free_bytes hs'"
  shows "hs = hs'"
  using assms
proof (induction hs arbitrary: lo lo' hs')
  case Nil
  then show ?case by (cases hs') (auto simp: free_bytes_def)
next
  case (Cons x hs)
  obtain a s where x: "x = (a, s)" by fastforce
  have s: "0 < s" "holes_ok (a + s + 1) e hs" using Cons.prems(1) by (auto simp: x)
  have "a \<in> free_bytes hs'" using Cons.prems(3) s(1) by (auto simp: x)
  then obtain b t r where hs': "hs' = (b, t) # r" by (cases hs') auto
  have t: "0 < t" "holes_ok (b + t + 1) e' r" using Cons.prems(2) by (auto simp: hs')
  have eq: "{a ..< a + s} \<union> free_bytes hs = {b ..< b + t} \<union> free_bytes r"
    using Cons.prems(3) by (simp add: x hs')
  have ah: "a + s < y" if "y \<in> free_bytes hs" for y using free_bytes_above [OF s(2) that] by simp
  have ar: "b + t < y" if "y \<in> free_bytes r" for y using free_bytes_above [OF t(2) that] by simp
  have "a \<in> {b ..< b + t} \<union> free_bytes r" "b \<in> {a ..< a + s} \<union> free_bytes hs"
    using eq s(1) t(1) by (metis UnI1 atLeastLessThan_iff le_refl less_add_same_cancel1)+
  then have ab: "a = b" using ah [of b] ar [of a] by fastforce
  have "a + s \<notin> {a ..< a + s} \<union> free_bytes hs" "b + t \<notin> {b ..< b + t} \<union> free_bytes r"
    using ah [of "a + s"] ar [of "b + t"] by auto
  then have "s = t" using eq unfolding ab by (metis UnI1 atLeastLessThan_iff le_add1 nat_add_left_cancel_less nat_neq_iff)
  moreover have "free_bytes hs = free_bytes r"
  proof -
    have "free_bytes hs = ({a ..< a + s} \<union> free_bytes hs) - {a ..< a + s}" using ah by force
    also have "\<dots> = ({b ..< b + t} \<union> free_bytes r) - {b ..< b + t}"
      unfolding eq using ab \<open>s = t\<close> by simp
    also have "\<dots> = free_bytes r" using ar by force
    finally show ?thesis .
  qed
  ultimately show ?case using Cons.IH [OF s(2) t(2)] ab by (simp add: x hs')
qed


lemma run_in_one_hole:
  assumes "holes_ok lo e hs" "{b ..< b + sz} \<subseteq> free_bytes hs" "0 < sz"
  obtains a s where "(a, s) \<in> set hs" "a \<le> b" "b + sz \<le> a + s"
  using assms
proof (induction hs arbitrary: lo thesis)
  case (Cons x hs)
  obtain a s where x: "x = (a, s)" by fastforce
  have ok: "holes_ok (a + s + 1) e hs" using Cons.prems(2) by (simp add: x)
  have up: "a + s < y" if "y \<in> free_bytes hs" for y using free_bytes_above [OF ok that] by simp
  have sub: "{b ..< b + sz} \<subseteq> {a ..< a + s} \<union> free_bytes hs" using Cons.prems(3) by (simp add: x)
  have b: "b \<in> {a ..< a + s} \<union> free_bytes hs" using subsetD [OF sub, of b] Cons.prems(4) by simp
  have gap: "a + s \<notin> {b ..< b + sz}" using subsetD [OF sub, of "a + s"] up [of "a + s"] by auto
  show ?case
  proof (cases "b \<in> {a ..< a + s}")
    case True
    then show ?thesis using gap by (intro Cons.prems(1) [of a s]) (auto simp: x)
  next
    case False
    then have "{b ..< b + sz} \<subseteq> free_bytes hs" using b up [of b] sub by auto
    then show ?thesis using Cons.IH [OF _ ok _ Cons.prems(4)] Cons.prems(1) by (metis list.set_intros(2))
  qed
qed simp

lemma max_dvd_iff: "(m :: nat) dvd b \<Longrightarrow> n dvd b \<Longrightarrow> max m n dvd b"
  by (simp add: max_def)

text \<open>Both outcomes of an allocation, on the bytes of the heap.\<close>

lemma heap_allocate_cases:
  assumes inv: "heap_inv h hs" and l: "layout_ok l" "block_size l = Some sz"
  obtains (full) "heap_allocate h l = Some (Inr (None, h))"
      "\<And>b. layout_align l dvd b \<Longrightarrow> 16 dvd b \<Longrightarrow> \<not> {b ..< b + sz} \<subseteq> free_bytes hs"
    | (taken) b h' hs' where "heap_allocate h l = Some (Inr (Some b, h'))" "heap_inv h' hs'"
      "layout_align l dvd b" "16 dvd b" "{b ..< b + sz} \<subseteq> free_bytes hs"
      "free_bytes hs' = free_bytes hs - {b ..< b + sz}" "h_free h = h_free h' + sz"
      "only_free_written h h' (free_bytes hs')"
proof (cases "alloc_holes sz (max (layout_align l) GRANULE) hs")
  case None
  have "\<not> {b ..< b + sz} \<subseteq> free_bytes hs" if "layout_align l dvd b" "16 dvd b" for b
  proof
    assume "{b ..< b + sz} \<subseteq> free_bytes hs"
    then obtain a s where "(a, s) \<in> set hs" "a \<le> b" "b + sz \<le> a + s"
      using run_in_one_hole [of "h_start h" "h_end h" hs b sz] inv block_sizeD(2) [OF l]
      by (auto simp: heap_inv_def)
    then show False
      using alloc_holes_None [OF None, of a s b] layout_align_16(2) [OF l(1)] that
      by (auto simp: GRANULE_def dest: max_dvd_iff)
  qed
  then show ?thesis using heap_allocate_spec [OF assms] None by (intro full) auto
next
  case (Some r)
  obtain b hs' where r: "r = (b, hs')" by fastforce
  obtain h' where h': "heap_allocate h l = Some (Inr (Some b, h'))" "heap_inv h' hs'"
    "only_free_written h h' (free_bytes hs')"
    using heap_allocate_spec [OF assms] Some r by auto
  have ok: "holes_ok (h_start h) (h_end h) hs" using inv by (simp add: heap_inv_def)
  note bytes = alloc_holes_bytes [OF ok Some [unfolded r] layout_align_16(2) [OF l(1)]]
  have "16 dvd b" using layout_align_16(1) [OF l(1)] bytes(1) by (rule dvd_trans)
  moreover have "layout_align l dvd b"
  proof -
    obtain k where k: "layout_align l = 2 ^ k" using l(1) by (auto simp: layout_ok_def)
    have "layout_align l dvd max (layout_align l) GRANULE"
    proof (cases "k \<le> 4")
      case True
      then have "(2 ^ k :: nat) dvd 2 ^ 4" by (rule le_imp_power_dvd)
      then show ?thesis by (simp add: k max_def GRANULE_def)
    next
      case False
      then have "(2 ^ 4 :: nat) \<le> 2 ^ k" by (intro power_increasing) auto
      then show ?thesis by (simp add: k max_def GRANULE_def)
    qed
    then show ?thesis using bytes(1) by (rule dvd_trans)
  qed
  ultimately show ?thesis using h' bytes inv
    by (intro taken [of b h' hs']) (auto simp: heap_inv_def)
qed

section \<open>A heap and its clients\<close>

text \<open>
  Every history of a heap: clients allocate, write into the blocks they hold and give them back, in
  any order. The set keeps the blocks that are live, with the layout each was allocated with.
\<close>

definition block_bytes :: "nat \<times> layout \<Rightarrow> nat set" where
  "block_bytes bl = {fst bl ..< fst bl + the (block_size (snd bl))}"

inductive heap_run :: "free_list_heap \<Rightarrow> free_list_heap \<Rightarrow> (nat \<times> layout) set \<Rightarrow> bool" for h0 where
  start: "heap_run h0 h0 {}"
| alloc: "heap_run h0 h live \<Longrightarrow> layout_ok l \<Longrightarrow> heap_allocate h l = Some (Inr (Some b, h')) \<Longrightarrow>
    heap_run h0 h' (insert (b, l) live)"
| no_room: "heap_run h0 h live \<Longrightarrow> layout_ok l \<Longrightarrow> heap_allocate h l = Some (Inr (None, h')) \<Longrightarrow>
    heap_run h0 h' live"
| client_write: "heap_run h0 h live \<Longrightarrow> bl \<in> live \<Longrightarrow> x \<in> block_bytes bl \<Longrightarrow>
    heap_run h0 (h\<lparr>h_mem := (h_mem h)(x := v)\<rparr>) live"
| dealloc: "heap_run h0 h live \<Longrightarrow> (b, l) \<in> live \<Longrightarrow> heap_deallocate h b l = Some (Inr h') \<Longrightarrow>
    heap_run h0 h' (live - {(b, l)})"

definition live_inv :: "free_list_heap \<Rightarrow> (nat \<times> layout) set \<Rightarrow> bool" where
  "live_inv h live \<longleftrightarrow>
     (\<exists>hs. heap_inv h hs \<and>
       (\<forall>(b, l) \<in> live. layout_ok l \<and> 16 dvd b \<and> layout_align l dvd b) \<and>
       pairwise (\<lambda>x y. block_bytes x \<inter> block_bytes y = {}) live \<and>
       free_bytes hs \<inter> (\<Union>x \<in> live. block_bytes x) = {} \<and>
       free_bytes hs \<union> (\<Union>x \<in> live. block_bytes x) = {h_start h ..< h_end h})"


lemma block_bytes_eq [simp]: "block_size l = Some sz \<Longrightarrow> block_bytes (b, l) = {b ..< b + sz}"
  by (simp add: block_bytes_def)

lemma live_invI:
  assumes "heap_inv h hs" "\<forall>(b, l) \<in> live. layout_ok l \<and> 16 dvd b \<and> layout_align l dvd b"
    and "pairwise (\<lambda>x y. block_bytes x \<inter> block_bytes y = {}) live"
    and "free_bytes hs \<inter> (\<Union>x \<in> live. block_bytes x) = {}"
    and "free_bytes hs \<union> (\<Union>x \<in> live. block_bytes x) = {h_start h ..< h_end h}"
  shows "live_inv h live"
  unfolding live_inv_def by (intro exI [of _ hs] conjI assms)

lemma live_invE:
  assumes "live_inv h live"
  obtains hs where "heap_inv h hs" "\<forall>(b, l) \<in> live. layout_ok l \<and> 16 dvd b \<and> layout_align l dvd b"
    "pairwise (\<lambda>x y. block_bytes x \<inter> block_bytes y = {}) live"
    "free_bytes hs \<inter> (\<Union>x \<in> live. block_bytes x) = {}"
    "free_bytes hs \<union> (\<Union>x \<in> live. block_bytes x) = {h_start h ..< h_end h}"
  using assms unfolding live_inv_def by (elim exE conjE) (rule that)

lemma live_inv_alloc:
  assumes "live_inv h live" "layout_ok l" "heap_allocate h l = Some (Inr (Some b, h'))"
  shows "live_inv h' (insert (b, l) live)" "h_start h' = h_start h" "h_end h' = h_end h"
    "(b, l) \<notin> live"
proof -
  obtain hs where hs: "heap_inv h hs" "\<forall>(b, l) \<in> live. layout_ok l \<and> 16 dvd b \<and> layout_align l dvd b"
    "pairwise (\<lambda>x y. block_bytes x \<inter> block_bytes y = {}) live"
    "free_bytes hs \<inter> (\<Union>x \<in> live. block_bytes x) = {}"
    "free_bytes hs \<union> (\<Union>x \<in> live. block_bytes x) = {h_start h ..< h_end h}"
    using assms(1) by (rule live_invE)
  obtain sz where sz: "block_size l = Some sz" using assms(2) by (rule block_size_ok)
  from hs(1) assms(2) sz obtain hs' where hs': "heap_inv h' hs'" "layout_align l dvd b" "16 dvd b"
      "{b ..< b + sz} \<subseteq> free_bytes hs" "free_bytes hs' = free_bytes hs - {b ..< b + sz}"
      "only_free_written h h' (free_bytes hs')"
    by (rule heap_allocate_cases) (use assms(3) in auto)
  have fresh: "block_bytes (b, l) \<inter> (\<Union>x \<in> live. block_bytes x) = {}" using hs(4) hs'(4) sz by auto
  have "b \<in> block_bytes (b, l)" using block_sizeD(2) [OF assms(2) sz] sz by simp
  then show "(b, l) \<notin> live" using fresh by blast
  show ends: "h_start h' = h_start h" "h_end h' = h_end h" using hs'(6) by (simp_all add: only_free_written_def)
  show "live_inv h' (insert (b, l) live)"
  proof (rule live_invI [OF hs'(1)])
    show "free_bytes hs' \<inter> (\<Union>x \<in> insert (b, l) live. block_bytes x) = {}"
      using hs(4) hs'(5) sz by auto
    show "free_bytes hs' \<union> (\<Union>x \<in> insert (b, l) live. block_bytes x) = {h_start h' ..< h_end h'}"
      using hs(5) hs'(4,5) sz ends by auto
    show "pairwise (\<lambda>x y. block_bytes x \<inter> block_bytes y = {}) (insert (b, l) live)"
      using hs(3) fresh by (fastforce simp: pairwise_insert)
  qed (use hs(2) hs'(2,3) assms(2) in auto)
qed

lemma live_in_heap:
  assumes "free_bytes hs \<union> (\<Union>x \<in> live. block_bytes x) = {lo ..< e}" "(b, l) \<in> live"
    "block_size l = Some sz" "0 < sz"
  shows "lo \<le> b" "b + sz \<le> e"
proof -
  have "{b ..< b + sz} \<subseteq> {lo ..< e}" using assms(1-3) block_bytes_eq [OF assms(3), of b] by blast
  then show "lo \<le> b" "b + sz \<le> e" using assms(4) by auto
qed

lemma live_inv_dealloc:
  assumes "live_inv h live" "(b, l) \<in> live"
  obtains h' where "heap_deallocate h b l = Some (Inr h')" "live_inv h' (live - {(b, l)})"
    "h_start h' = h_start h" "h_end h' = h_end h"
proof -
  obtain hs where hs: "heap_inv h hs" "\<forall>(b, l) \<in> live. layout_ok l \<and> 16 dvd b \<and> layout_align l dvd b"
    "pairwise (\<lambda>x y. block_bytes x \<inter> block_bytes y = {}) live"
    "free_bytes hs \<inter> (\<Union>x \<in> live. block_bytes x) = {}"
    "free_bytes hs \<union> (\<Union>x \<in> live. block_bytes x) = {h_start h ..< h_end h}"
    using assms(1) by (rule live_invE)
  have l: "layout_ok l" "16 dvd b" using hs(2) assms(2) by auto
  obtain sz where sz: "block_size l = Some sz" using l(1) by (rule block_size_ok)
  note inside = live_in_heap [OF hs(5) assms(2) sz block_sizeD(2) [OF l(1) sz]]
  have "{b ..< b + sz} \<inter> free_bytes hs = {}" using hs(4) assms(2) block_bytes_eq [OF sz, of b] by blast
  then obtain h' hs' where h': "heap_deallocate h b l = Some (Inr h')" "heap_inv h' hs'"
      "free_bytes hs' = free_bytes hs \<union> {b ..< b + sz}" "only_free_written h h' (free_bytes hs')"
    using heap_deallocate_spec [OF hs(1) l(1) sz l(2) inside] by auto
  have ends: "h_start h' = h_start h" "h_end h' = h_end h" using h'(4) by (simp_all add: only_free_written_def)
  have rest: "block_bytes (b, l) \<inter> block_bytes x = {}" if "x \<in> live - {(b, l)}" for x
    using pairwiseD [OF hs(3) assms(2), of x] that by auto
  have all: "(\<Union>x \<in> live. block_bytes x) = {b ..< b + sz} \<union> (\<Union>x \<in> live - {(b, l)}. block_bytes x)"
    using assms(2) block_bytes_eq [OF sz, of b] by blast
  have "live_inv h' (live - {(b, l)})"
  proof (rule live_invI [OF h'(2)])
    show "free_bytes hs' \<inter> (\<Union>x \<in> live - {(b, l)}. block_bytes x) = {}"
      using hs(4) rest block_bytes_eq [OF sz, of b] unfolding h'(3) by blast
    show "free_bytes hs' \<union> (\<Union>x \<in> live - {(b, l)}. block_bytes x) = {h_start h' ..< h_end h'}"
      using hs(5) unfolding h'(3) all ends by (simp add: Un_ac)
    show "pairwise (\<lambda>x y. block_bytes x \<inter> block_bytes y = {}) (live - {(b, l)})"
      using hs(3) by (rule pairwise_subset) blast
  qed (use hs(2) in auto)
  then show ?thesis using h'(1) ends by (intro that)
qed

lemma hole_starts_free: "holes_ok lo e hs \<Longrightarrow> fst ` set hs \<subseteq> free_bytes hs"
  by (induction lo e hs rule: holes_ok.induct) auto

lemma live_inv_write:
  assumes "live_inv h live" "bl \<in> live" "x \<in> block_bytes bl"
  shows "live_inv (h\<lparr>h_mem := (h_mem h)(x := v)\<rparr>) live"
proof -
  obtain hs where hs: "heap_inv h hs" "\<forall>(b, l) \<in> live. layout_ok l \<and> 16 dvd b \<and> layout_align l dvd b"
    "pairwise (\<lambda>x y. block_bytes x \<inter> block_bytes y = {}) live"
    "free_bytes hs \<inter> (\<Union>x \<in> live. block_bytes x) = {}"
    "free_bytes hs \<union> (\<Union>x \<in> live. block_bytes x) = {h_start h ..< h_end h}"
    using assms(1) by (rule live_invE)
  have "x \<notin> free_bytes hs" using hs(4) assms(2,3) by blast
  moreover have "fst ` set hs \<subseteq> free_bytes hs"
    using hs(1) hole_starts_free [of "h_start h" "h_end h" hs] by (simp add: heap_inv_def)
  ultimately have "x \<notin> fst ` set hs" by blast
  then have "heap_inv (h\<lparr>h_mem := (h_mem h)(x := v)\<rparr>) hs"
    using hs(1) by (simp add: heap_inv_def path_upd)
  then show ?thesis by (rule live_invI) (use hs in auto)
qed

lemma heap_run_inv:
  assumes "heap_run h0 h live" "heap_inv h0 [(h_start h0, h_end h0 - h_start h0)]"
  shows "live_inv h live \<and> finite live \<and> h_start h = h_start h0 \<and> h_end h = h_end h0"
  using assms
proof (induction rule: heap_run.induct)
  case start
  have "h_start h0 \<le> h_end h0" using start by (simp add: heap_inv_def)
  then show ?case using start by (auto intro!: live_invI [OF start])
next
  case (alloc h live l b h')
  then show ?case using live_inv_alloc [of h live l b h'] by auto
next
  case (no_room h live l h')
  have "h' = h"
  proof -
    obtain hs where "heap_inv h hs" using no_room by (auto elim: live_invE)
    moreover obtain sz where "block_size l = Some sz" using no_room.hyps(2) by (rule block_size_ok)
    ultimately show ?thesis using no_room.hyps(2,3) by (elim heap_allocate_cases [of h hs l]) auto
  qed
  then show ?case using no_room by simp
next
  case (client_write h live bl x v)
  then show ?case using live_inv_write [of h live bl x v] by simp
next
  case (dealloc h live b l h')
  then show ?case using live_inv_dealloc [of h live b l] by (metis finite_Diff option.inject sum.inject(2))
qed


section \<open>Correctness of the heap\<close>

text \<open>
  C7. Allocation on a well-formed heap always returns. It answers with a block that has the
  alignment of the layout, room for its size and lay entirely in free memory; exactly those bytes
  leave the free memory, the counter follows, and nothing but free memory is written. It answers
  \<open>None\<close> only when no aligned run of that many free bytes exists, and then changes nothing.
\<close>

theorem heap_allocate_correct:
  assumes "heap_inv h hs" "layout_ok l"
  shows "\<exists>sz r h'. block_size l = Some sz \<and> layout_size l \<le> sz \<and> heap_allocate h l = Some (Inr (r, h')) \<and>
    (case r of
       None \<Rightarrow> h' = h \<and> (\<forall>b. layout_align l dvd b \<and> 16 dvd b \<longrightarrow> \<not> {b ..< b + sz} \<subseteq> free_bytes hs)
     | Some b \<Rightarrow> layout_align l dvd b \<and> 16 dvd b \<and> {b ..< b + sz} \<subseteq> free_bytes hs \<and>
         (\<exists>hs'. heap_inv h' hs' \<and> free_bytes hs' = free_bytes hs - {b ..< b + sz} \<and>
            h_free h = h_free h' + sz \<and> only_free_written h h' (free_bytes hs')))"
proof -
  obtain sz where sz: "block_size l = Some sz" using assms(2) by (rule block_size_ok)
  note size = sz block_sizeD(3) [OF assms(2) sz]
  from assms sz show ?thesis
  proof (cases rule: heap_allocate_cases)
    case full
    then show ?thesis using size by (intro exI [of _ sz] exI [of _ None] exI [of _ h]) simp
  next
    case (taken b h' hs')
    then show ?thesis using size
      by (intro exI [of _ sz] exI [of _ "Some b"] exI [of _ h']) auto
  qed
qed

text \<open>A heap of 64 bytes at address 4096, used by the witnesses.\<close>

definition small_heap :: free_list_heap where
  "small_heap = \<lparr>h_base = 4096, h_start = 4096, h_end = 4160, h_head = 4096, h_free = 64,
     h_mem = (\<lambda>_. \<lparr>hole_size = 64, hole_next = 0\<rparr>)\<rparr>"

definition small_layout :: layout where
  "small_layout = \<lparr>layout_size = 20, layout_align = 8\<rparr>"

lemma small_heap_inv: "heap_inv small_heap [(4096, 64)]"
  by (simp add: small_heap_def heap_inv_def total_def usize_bound_def)

lemma small_layout_ok: "layout_ok small_layout"
  unfolding layout_ok_def small_layout_def by (auto intro: exI [of _ 3])

lemma small_block_size: "block_size small_layout = Some 32"
  by (simp add: block_size_def small_layout_def checked_next_multiple_of_def GRANULE_def
      nat_checked_add_def usize_bound_def)

theorem heap_allocate_correct_witness:
  "\<exists>r h'. heap_allocate small_heap small_layout = Some (Inr (r, h')) \<and>
     (\<forall>b. r = Some b \<longrightarrow> 8 dvd b \<and> {b ..< b + 32} \<subseteq> {4096 ..< 4160})"
  using heap_allocate_correct [OF small_heap_inv small_layout_ok]
  by (auto simp: small_block_size split: option.splits) (simp_all add: small_layout_def)

text \<open>
  C8. Giving back a block: when it is one the heap could have handed out, the call panics
  with a double free exactly when some byte of it is already free, and otherwise adds exactly its
  bytes to the free memory, merged with the holes it touches, and writes free memory only.
\<close>

theorem heap_deallocate_correct:
  assumes "heap_inv h hs" "layout_ok l" "block_size l = Some sz"
    and "16 dvd b" "h_start h \<le> b" "b + sz \<le> h_end h"
  shows "if {b ..< b + sz} \<inter> free_bytes hs \<noteq> {}
    then heap_deallocate h b l = Some (Inl (Panic ''heap: double free''))
    else \<exists>h' hs'. heap_deallocate h b l = Some (Inr h') \<and> heap_inv h' hs' \<and>
      free_bytes hs' = free_bytes hs \<union> {b ..< b + sz} \<and> h_free h' = h_free h + sz \<and>
      only_free_written h h' (free_bytes hs')"
  by (rule heap_deallocate_spec [OF assms])

theorem heap_deallocate_correct_witness:
  "heap_deallocate small_heap 4112 small_layout = Some (Inl (Panic ''heap: double free''))"
proof -
  have "\<not> {4112 ..< 4112 + 32} \<inter> free_bytes [(4096, 64)] = {}" by (simp add: free_bytes_def)
  then show ?thesis
    using heap_deallocate_correct [OF small_heap_inv small_layout_ok small_block_size, of 4112]
    by (simp add: small_heap_def)
qed

text \<open>
  Freeing what was just allocated restores the very same list of holes: no fragmentation is
  left behind, whatever else the heap holds.
\<close>

theorem allocate_deallocate_roundtrip:
  assumes "heap_inv h hs" "layout_ok l" "heap_allocate h l = Some (Inr (Some b, h1))"
  shows "\<exists>h2. heap_deallocate h1 b l = Some (Inr h2) \<and> heap_inv h2 hs \<and> h_free h2 = h_free h \<and>
    (\<forall>x. x \<notin> free_bytes hs \<longrightarrow> h_mem h2 x = h_mem h x)"
proof -
  obtain sz where sz: "block_size l = Some sz" using assms(2) by (rule block_size_ok)
  from assms(1,2) sz obtain hs1 where hs1: "heap_inv h1 hs1" "16 dvd b" "{b ..< b + sz} \<subseteq> free_bytes hs"
      "free_bytes hs1 = free_bytes hs - {b ..< b + sz}" "only_free_written h h1 (free_bytes hs1)"
      "h_free h = h_free h1 + sz"
    by (rule heap_allocate_cases) (use assms(3) in auto)
  have ends: "h_start h1 = h_start h" "h_end h1 = h_end h" using hs1(5) by (simp_all add: only_free_written_def)
  have ok: "holes_ok (h_start h) (h_end h) hs" using assms(1) by (simp add: heap_inv_def)
  have s0: "0 < sz" using block_sizeD(2) [OF assms(2) sz] .
  have "h_start h \<le> b" "b + sz - 1 < h_end h"
    using free_bytes_above [OF ok subsetD [OF hs1(3)], of b]
      free_bytes_above [OF ok subsetD [OF hs1(3)], of "b + sz - 1"] s0 by auto
  then have inside: "h_start h1 \<le> b" "b + sz \<le> h_end h1" using s0 by (auto simp: ends)
  have "{b ..< b + sz} \<inter> free_bytes hs1 = {}" using hs1(4) by blast
  then obtain h2 hs2 where h2: "heap_deallocate h1 b l = Some (Inr h2)" "heap_inv h2 hs2"
      "free_bytes hs2 = free_bytes hs1 \<union> {b ..< b + sz}" "h_free h2 = h_free h1 + sz"
      "only_free_written h1 h2 (free_bytes hs2)"
    using heap_deallocate_spec [OF hs1(1) assms(2) sz hs1(2) inside] by auto
  have bytes: "free_bytes hs2 = free_bytes hs" using h2(3) hs1(3,4) by auto
  have "holes_ok (h_start h2) (h_end h2) hs2" using h2(2) by (simp add: heap_inv_def)
  then have "hs2 = hs" using bytes ok by (intro holes_canonical) auto
  then show ?thesis using h2 hs1(4,5,6) by (auto simp: only_free_written_def)
qed

lemma small_allocate:
  obtains b h1 where "heap_allocate small_heap small_layout = Some (Inr (Some b, h1))"
  using small_heap_inv small_layout_ok small_block_size
proof (cases rule: heap_allocate_cases)
  case full
  then show ?thesis using full(2) [of 4096] by (auto simp: small_layout_def free_bytes_def)
qed (rule that)

theorem allocate_deallocate_roundtrip_witness:
  "\<exists>b h1 h2. heap_allocate small_heap small_layout = Some (Inr (Some b, h1)) \<and>
     heap_deallocate h1 b small_layout = Some (Inr h2) \<and> heap_inv h2 [(4096, 64)]"
proof -
  obtain b h1 where a: "heap_allocate small_heap small_layout = Some (Inr (Some b, h1))"
    by (rule small_allocate)
  then show ?thesis
    using allocate_deallocate_roundtrip [OF small_heap_inv small_layout_ok a] by blast
qed

text \<open>
  C4. Whatever clients do with their own blocks, in any order: the live blocks are inside the heap,
  aligned and disjoint; every live block can be freed without a panic; and once all are freed the heap is one hole again.
\<close>

theorem heap_run_safe:
  assumes "heap_inv h0 [(h_start h0, h_end h0 - h_start h0)]" "heap_run h0 h live"
  shows "pairwise (\<lambda>x y. block_bytes x \<inter> block_bytes y = {}) live \<and>
    (\<forall>(b, l) \<in> live. layout_align l dvd b \<and> block_bytes (b, l) \<subseteq> {h_start h0 ..< h_end h0} \<and>
       (\<exists>h'. heap_deallocate h b l = Some (Inr h'))) \<and>
    (live = {} \<longrightarrow> heap_inv h [(h_start h0, h_end h0 - h_start h0)])"
proof -
  have inv: "live_inv h live" "h_start h = h_start h0" "h_end h = h_end h0"
    using heap_run_inv [OF assms(2,1)] by auto
  obtain hs where hs: "heap_inv h hs" "\<forall>(b, l) \<in> live. layout_ok l \<and> 16 dvd b \<and> layout_align l dvd b"
    "pairwise (\<lambda>x y. block_bytes x \<inter> block_bytes y = {}) live"
    "free_bytes hs \<inter> (\<Union>x \<in> live. block_bytes x) = {}"
    "free_bytes hs \<union> (\<Union>x \<in> live. block_bytes x) = {h_start h ..< h_end h}"
    using inv(1) by (rule live_invE)
  have ok0: "holes_ok (h_start h0) (h_end h0) [(h_start h0, h_end h0 - h_start h0)]"
    using assms(1) by (simp add: heap_inv_def)
  have each: "layout_align l dvd b \<and> block_bytes (b, l) \<subseteq> {h_start h0 ..< h_end h0} \<and>
      (\<exists>h'. heap_deallocate h b l = Some (Inr h'))" if "(b, l) \<in> live" for b l
  proof -
    have "block_bytes (b, l) \<subseteq> {h_start h ..< h_end h}" using hs(5) that by blast
    moreover have "\<exists>h'. heap_deallocate h b l = Some (Inr h')"
      using live_inv_dealloc [OF inv(1) that] by blast
    moreover have "layout_align l dvd b" using hs(2) that by auto
    ultimately show ?thesis by (simp add: inv(2,3))
  qed
  have "heap_inv h [(h_start h0, h_end h0 - h_start h0)]" if "live = {}"
  proof -
    have "free_bytes hs = free_bytes [(h_start h0, h_end h0 - h_start h0)]"
      using hs(5) ok0 that inv(2,3) by (auto simp: free_bytes_def)
    moreover have "holes_ok (h_start h) (h_end h) hs" using hs(1) by (simp add: heap_inv_def)
    ultimately have "hs = [(h_start h0, h_end h0 - h_start h0)]" using ok0 by (intro holes_canonical)
    then show ?thesis using hs(1) by simp
  qed
  then show ?thesis using hs(3) each by blast
qed

theorem heap_run_safe_witness:
  "\<exists>b h. heap_run small_heap h {(b, small_layout)} \<and>
     (\<exists>h'. heap_deallocate h b small_layout = Some (Inr h'))"
proof -
  obtain b h where a: "heap_allocate small_heap small_layout = Some (Inr (Some b, h))"
    by (rule small_allocate)
  have r: "heap_run small_heap h {(b, small_layout)}"
    using heap_run.alloc [OF heap_run.start small_layout_ok a] by simp
  have i: "heap_inv small_heap [(h_start small_heap, h_end small_heap - h_start small_heap)]"
    using small_heap_inv by (simp add: small_heap_def)
  show ?thesis using heap_run_safe [OF i r] r by blast
qed

lemma holes_count:
  assumes "holes_ok lo e hs" "16 dvd lo" "16 dvd e"
  shows "16 * length hs \<le> e - lo"
proof -
  have "total hs + lo \<le> e \<or> hs = []" using assms(1)
  proof (induction hs arbitrary: lo)
    case (Cons x hs)
    obtain a s where x: "x = (a, s)" by fastforce
    have "total hs + (a + s + 1) \<le> e \<or> hs = []" using Cons.IH [of "a + s + 1"] Cons.prems by (simp add: x)
    then show ?case using Cons.prems by (auto simp: x)
  qed simp
  moreover have "16 * length hs \<le> total hs" using assms(1)
  proof (induction hs arbitrary: lo)
    case (Cons x hs)
    obtain a s where x: "x = (a, s)" by fastforce
    have "16 \<le> s" using Cons.prems by (auto simp: x dest: dvd_imp_le)
    moreover have "16 * length hs \<le> total hs" using Cons.IH [of "a + s + 1"] Cons.prems by (simp add: x)
    ultimately show ?case by (simp add: x)
  qed simp
  ultimately show ?thesis by auto
qed

lemma heap_check_complete:
  assumes "heap_inv h hs"
  shows "heap_check h = Inr \<lparr>st_size = h_end h - h_start h, st_free = total hs,
    st_holes = length hs, st_largest_hole = fold max (map snd hs) 0\<rparr>"
proof -
  have i: "path (h_mem h) (h_head h) hs 0" "holes_ok (h_start h) (h_end h) hs" "h_free h = total hs"
    "16 dvd h_start h" "16 dvd h_end h"
    using assms by (simp_all add: heap_inv_def)
  have "0 + length hs \<le> (h_end h - h_start h) div GRANULE"
    using holes_count [OF i(2,4,5)] by (simp add: GRANULE_def less_eq_div_iff_mult_less_eq mult.commute)
  from check_loop_complete [OF i(1,2) order.refl this, of None 0 0] show ?thesis
    by (simp add: heap_check_def i(3))
qed

text \<open>
  \<open>check\<close> answers with statistics exactly for the heaps whose free list is well formed and
  whose counter is right, and the statistics are those of the list.
\<close>

theorem heap_check_exact:
  assumes "16 dvd h_start h" "16 dvd h_end h" "h_start h \<le> h_end h" "h_end h < usize_bound"
    and "0 < h_start h \<or> h_start h = h_end h"
  shows "heap_check h = Inr stats \<longleftrightarrow>
    (\<exists>hs. heap_inv h hs \<and> stats = \<lparr>st_size = h_end h - h_start h, st_free = total hs,
       st_holes = length hs, st_largest_hole = fold max (map snd hs) 0\<rparr>)"
proof
  assume ok: "heap_check h = Inr stats"
  then obtain free n lg where
    "check_loop h ((h_end h - h_start h) div GRANULE) 0 0 0 None (h_head h) = Inr (free, n, lg)"
    and f: "free = h_free h"
    by (auto simp: heap_check_def and_then_Inr_iff split: if_splits)
  then obtain hs where "path (h_mem h) (h_head h) hs 0" "holes_ok (h_start h) (h_end h) hs" "free = total hs"
    using check_loop_sound [of h _ 0 0 0 None "h_head h" free n lg "h_start h"] by auto
  then have "heap_inv h hs" using assms f by (simp add: heap_inv_def)
  then show "\<exists>hs. heap_inv h hs \<and> stats = \<lparr>st_size = h_end h - h_start h, st_free = total hs,
       st_holes = length hs, st_largest_hole = fold max (map snd hs) 0\<rparr>"
    using heap_check_complete ok by (metis sum.inject(2))
qed (auto simp: heap_check_complete)

theorem heap_check_exact_witness:
  "heap_check small_heap = Inr \<lparr>st_size = 64, st_free = 64, st_holes = 1, st_largest_hole = 64\<rparr>"
  using heap_check_exact [of small_heap "\<lparr>st_size = 64, st_free = 64, st_holes = 1, st_largest_hole = 64\<rparr>"]
    small_heap_inv by (auto simp: small_heap_def usize_bound_def total_def intro!: exI [of _ "[(4096, 64)]"])

text \<open>
  A region given to an empty heap becomes one hole that covers all its whole 16-byte granules
  (none when the region has no such granule), and a second \<open>init\<close> panics.
\<close>

theorem heap_init_correct:
  assumes "0 < start" "start + len < usize_bound" "next_multiple start 16 < usize_bound"
  shows "\<exists>h. heap_init (heap_empty mem) start len = Inr h \<and> start \<le> h_start h \<and> h_start h < start + 16 \<and>
    (h_end h \<le> start + len \<or> h_end h = h_start h) \<and> start + len < h_end h + 16 \<and>
    heap_inv h (if h_start h = h_end h then [] else [(h_start h, h_end h - h_start h)]) \<and>
    heap_init h s' l' = Inl (Panic ''heap initialized twice'')"
proof -
  define f e where fe: "f = next_multiple start 16" "e = max ((start + len) div 16 * 16) f"
  have f16: "start \<le> f" "f < start + 16"
    by (auto simp: fe next_multiple_def)
  have "h_base (heap_empty mem) = 0" "h_head (heap_empty mem) = 0" "h_free (heap_empty mem) = 0"
    by (simp_all add: heap_empty_def)
  then obtain h where h: "heap_init (heap_empty mem) start len = Inr h" "h_base h = start"
    "h_start h = f" "h_end h = e" "heap_inv h (if f = e then [] else [(f, e - f)])"
    by (rule heap_init_spec [where start = start and len = len and f = f and e = e]) (use assms fe in simp_all)
  have "start + len < (start + len) div 16 * 16 + 16" by simp
  then have "(e \<le> start + len \<or> e = f) \<and> start + len < e + 16" unfolding fe(2) max_def by auto
  moreover have "heap_init h s' l' = Inl (Panic ''heap initialized twice'')"
    using h(2) assms(1) by (simp add: heap_init_def)
  ultimately show ?thesis using h f16 by (intro exI [of _ h]) (simp split: if_splits)
qed

theorem heap_init_correct_witness:
  "\<exists>h. heap_init (heap_empty (\<lambda>_. \<lparr>hole_size = 0, hole_next = 0\<rparr>)) 4100 100 = Inr h \<and> h_start h < 4116"
  using heap_init_correct [of 4100 100 "\<lambda>_. \<lparr>hole_size = 0, hole_next = 0\<rparr>"]
  by (auto simp: usize_bound_def next_multiple_def)

end
