(* ===== verification/Syscall.thy ===== *)
theory Syscall
  imports Fs
begin

text \<open>
  The kernel's side of the boundary with ring 3 (\<^verbatim>\<open>kernel/src/user.rs\<close>), the console where a syscall can
  reach it (\<^verbatim>\<open>kernel/src/console.rs\<close>) and the records the ABI hands out, with their readers in
  \<^verbatim>\<open>user/abi/src/lib.rs\<close>. A call works on the state of the whole kernel: the machine and its processes,
  the memory of every address space, the mounted disk, the event log and the console. Lines written to
  the debug log are not modelled.
\<close>

section \<open>Numbers\<close>

datatype call = CLog | CExit | CYield | CSend | CRecv | COpen | CRead | CClose | CWriteFile | CList
  | CConsoleWrite | CConsoleRead

definition call_from :: "u64 \<Rightarrow> call option" where
  "call_from n =
     (if n = 0 then Some CLog else if n = 1 then Some CExit else if n = 2 then Some CYield
      else if n = 3 then Some CSend else if n = 4 then Some CRecv else if n = 5 then Some COpen
      else if n = 6 then Some CRead else if n = 7 then Some CClose else if n = 8 then Some CWriteFile
      else if n = 9 then Some CList else if n = 10 then Some CConsoleWrite
      else if n = 11 then Some CConsoleRead else None)"

text \<open>The errors are \<open>i64\<close>, and cross in a register as \<open>u64\<close>.\<close>

definition ERR_UNKNOWN_CALL :: int where "ERR_UNKNOWN_CALL = -1"
definition ERR_BAD_ARGUMENT :: int where "ERR_BAD_ARGUMENT = -2"
definition ERR_NO_PERMISSION :: int where "ERR_NO_PERMISSION = -3"
definition ERR_MAILBOX_FULL :: int where "ERR_MAILBOX_FULL = -4"
definition ERR_NO_SUCH_PROCESS :: int where "ERR_NO_SUCH_PROCESS = -5"
definition ERR_WOULD_WAIT_FOR_EVER :: int where "ERR_WOULD_WAIT_FOR_EVER = -6"
definition ERR_BAD_DESCRIPTOR :: int where "ERR_BAD_DESCRIPTOR = -7"
definition ERR_TOO_MANY_OPEN :: int where "ERR_TOO_MANY_OPEN = -8"
definition ERR_NO_SUCH_FILE :: int where "ERR_NO_SUCH_FILE = -9"
definition ERR_FILE_IS_OPEN :: int where "ERR_FILE_IS_OPEN = -10"
definition ERR_VOLUME_FULL :: int where "ERR_VOLUME_FULL = -11"
definition ERR_DISK :: int where "ERR_DISK = -12"

lemmas err_defs = ERR_UNKNOWN_CALL_def ERR_BAD_ARGUMENT_def ERR_NO_PERMISSION_def ERR_MAILBOX_FULL_def
  ERR_NO_SUCH_PROCESS_def ERR_WOULD_WAIT_FOR_EVER_def ERR_BAD_DESCRIPTOR_def ERR_TOO_MANY_OPEN_def
  ERR_NO_SUCH_FILE_def ERR_FILE_IS_OPEN_def ERR_VOLUME_FULL_def ERR_DISK_def

definition MAX_NAME :: u64 where "MAX_NAME = 12"
definition MAX_LOG :: u64 where "MAX_LOG = 4096"
definition ENTRY_BYTES :: u64 where "ENTRY_BYTES = 20"
definition ENTRY_NAME :: usize where "ENTRY_NAME = 0"
definition ENTRY_NAME_LEN :: usize where "ENTRY_NAME_LEN = 12"
definition ENTRY_ATTRIBUTES :: usize where "ENTRY_ATTRIBUTES = 12"
definition ENTRY_SIZE :: usize where "ENTRY_SIZE = 16"
definition MAX_READ :: u64 where "MAX_READ = 4096"
definition MAX_WRITE :: u64 where "MAX_WRITE = of_nat MAX_FILE_CLUSTERS * 512"

section \<open>The console\<close>

datatype console_key = KeyChar u32 | KeyEnter | KeyBackspace | KeyUnknown

text \<open>What the kernel calls of the trait \<open>Console\<close>, over a state of any type.\<close>

record 'c console =
  read_key :: "'c \<Rightarrow> console_key option \<times> 'c"
  write_str :: "bytes \<Rightarrow> 'c \<Rightarrow> 'c"

definition console_with :: "('c \<Rightarrow> 'r \<times> 'c) \<Rightarrow> 'c option \<Rightarrow> 'r option \<times> 'c option" where
  "console_with operation held =
     (case held of None \<Rightarrow> (None, None) | Some c \<Rightarrow> (case operation c of (r, c') \<Rightarrow> (Some r, Some c')))"

definition console_take :: "'c option \<Rightarrow> 'c option \<times> 'c option" where
  "console_take held = (held, None)"

definition console_write :: "'c console \<Rightarrow> bytes \<Rightarrow> 'c option \<Rightarrow> usize option \<times> 'c option" where
  "console_write C string = console_with (\<lambda>c. (length string, write_str C string c))"

definition console_read_key :: "'c console \<Rightarrow> 'c option \<Rightarrow> console_key option \<times> 'c option" where
  "console_read_key C held = (case console_with (read_key C) held of (r, h) \<Rightarrow> (Option.bind r id, h))"

definition KEY_NONE :: u64 where "KEY_NONE = 0"
definition KEY_ENTER :: u64 where "KEY_ENTER = 1"
definition KEY_BACKSPACE :: u64 where "KEY_BACKSPACE = 2"
definition KEY_UNKNOWN :: u64 where "KEY_UNKNOWN = 3"

definition is_ascii_graphic :: "u32 \<Rightarrow> bool" where
  "is_ascii_graphic c \<longleftrightarrow> 0x21 \<le> c \<and> c \<le> 0x7E"

fun encode :: "console_key option \<Rightarrow> u64" where
  "encode None = KEY_NONE"
| "encode (Some KeyEnter) = KEY_ENTER"
| "encode (Some KeyBackspace) = KEY_BACKSPACE"
| "encode (Some (KeyChar c)) = (if is_ascii_graphic c \<or> c = 0x20 then ucast c else KEY_UNKNOWN)"
| "encode (Some KeyUnknown) = KEY_UNKNOWN"

section \<open>The state of the kernel\<close>

record syscall_frame =
  rax :: u64
  rdi :: u64
  rsi :: u64
  rdx :: u64
  r10 :: u64

text \<open>
  Memory is that of the lower half of every address space, by the root of its tables. The machine walks
  the tables at \<open>cr3\<close>.
\<close>

record ('sp, 'd, 'c) kernel =
  k_machine :: "'sp machine"
  k_memory :: "u64 \<Rightarrow> u64 \<Rightarrow> u8"
  k_disk :: "'d mounted option"
  k_events :: ring
  k_console :: "'c option"

text \<open>
  What the handlers reach through pointers and traits: the root of a space, the device, the console, the
  number of ticks so far, and the bytes a failed read of the disk left at the start of the buffer it
  was filling.
\<close>

record ('sp, 'd, 'c) hardware =
  hw_root :: "'sp \<Rightarrow> u64"
  hw_disk :: "('d, read_error) sectors"
  hw_console :: "'c console"
  hw_ticks :: u64
  hw_scraps :: bytes

abbreviation k_sched :: "('sp, 'd, 'c) kernel \<Rightarrow> 'sp scheduler" where
  "k_sched k \<equiv> sched (k_machine k)"

definition with_sched :: "'sp scheduler \<Rightarrow> ('sp, 'd, 'c) kernel \<Rightarrow> ('sp, 'd, 'c) kernel" where
  "with_sched s k = k\<lparr>k_machine := (k_machine k)\<lparr>sched := s\<rparr>\<rparr>"

text \<open>\<open>from_raw_parts\<close> and a write through \<open>from_raw_parts_mut\<close>, in the space that is active.\<close>

definition user_bytes :: "('sp, 'd, 'c) kernel \<Rightarrow> u64 \<Rightarrow> usize \<Rightarrow> bytes" where
  "user_bytes k ptr len = map (\<lambda>i. k_memory k (cr3 (k_machine k)) (ptr + of_nat i)) [0..<len]"

definition put_user :: "u64 \<Rightarrow> bytes \<Rightarrow> ('sp, 'd, 'c) kernel \<Rightarrow> ('sp, 'd, 'c) kernel" where
  "put_user ptr bs k =
     (let active = cr3 (k_machine k) in
      k\<lparr>k_memory := (k_memory k)(active := (\<lambda>a.
          if unat (a - ptr) < length bs then bs ! unat (a - ptr) else k_memory k active a))\<rparr>)"

text \<open>
  How a handler ends: back to ring 3 with the registers as they are now; away on another stack, back to
  ring 3 with these registers once this process has the CPU again; away, and round the loop of \<open>recv\<close>
  again then; or never back.
\<close>

datatype outcome = Returns syscall_frame | Resumes syscall_frame | RecvAgain syscall_frame | Never

type_synonym ('sp, 'd, 'c) served = "panic + outcome \<times> ('sp, 'd, 'c) kernel"

definition answer :: "u64 \<Rightarrow> syscall_frame \<Rightarrow> ('sp, 'd, 'c) kernel \<Rightarrow> ('sp, 'd, 'c) served" where
  "answer v f k = Inr (Returns (f\<lparr>rax := v\<rparr>), k)"

definition refuse :: "int \<Rightarrow> syscall_frame \<Rightarrow> ('sp, 'd, 'c) kernel \<Rightarrow> ('sp, 'd, 'c) served" where
  "refuse e = answer (word_of_int e)"

section \<open>What a program is told\<close>

definition encode_entry :: "directory_entry \<Rightarrow> bytes" where
  "encode_entry e =
     (let name = entry_name e;
          taking = min (length name) ENTRY_NAME_LEN;
          named = copy_at (replicate (unat ENTRY_BYTES) 0) ENTRY_NAME (take taking name);
          padded = copy_at named (ENTRY_NAME + taking) (replicate (ENTRY_NAME_LEN - taking) 32);
          attributed = padded[ENTRY_ATTRIBUTES := de_attributes e]
      in copy_at attributed ENTRY_SIZE (u32_to_le (de_size e)))"

fun number_for :: "file_error \<Rightarrow> int" where
  "number_for FileNoDisk = ERR_DISK"
| "number_for FileBadName = ERR_BAD_ARGUMENT"
| "number_for NoSuchFile = ERR_NO_SUCH_FILE"
| "number_for FileIsADirectory = ERR_NO_SUCH_FILE"
| "number_for FileOpen = ERR_FILE_IS_OPEN"
| "number_for FileNotOurDisk = ERR_NO_PERMISSION"
| "number_for (FileReading why) = ERR_DISK"
| "number_for (FileWriting (Full needed available)) = ERR_VOLUME_FULL"
| "number_for (FileWriting (TooManyClusters needed)) = ERR_VOLUME_FULL"
| "number_for (FileWriting DirectoryFull) = ERR_VOLUME_FULL"
| "number_for (FileWriting why) = ERR_DISK"

section \<open>The calls\<close>

definition sys_log :: "running \<Rightarrow> syscall_frame \<Rightarrow> ('sp, 'd, 'c) kernel \<Rightarrow> ('sp, 'd, 'c) served" where
  "sys_log r f k =
     (let ptr = rdi f; len = rsi f in
      if \<not> running_owns r ptr len \<or> len > MAX_LOG then refuse ERR_BAD_ARGUMENT f k
      else if utf8_valid (user_bytes k ptr (unat len)) then answer len f k
      else refuse ERR_BAD_ARGUMENT f k)"

definition sys_exit :: "('sp, 'd, 'c) hardware \<Rightarrow> syscall_frame \<Rightarrow> ('sp, 'd, 'c) kernel \<Rightarrow> ('sp, 'd, 'c) served" where
  "sys_exit hw f k =
     (case exit_current (hw_root hw) (hw_ticks hw) (rdi f) (k_events k) (k_machine k) of
        (log, m) \<Rightarrow> and_then m (\<lambda>m. Inr (Never, k\<lparr>k_events := log, k_machine := m\<rparr>)))"

definition sys_yield :: "('sp, 'd, 'c) hardware \<Rightarrow> syscall_frame \<Rightarrow> ('sp, 'd, 'c) kernel \<Rightarrow> ('sp, 'd, 'c) served" where
  "sys_yield hw f k =
     and_then (switch_to_next (hw_root hw) (k_machine k)) (\<lambda>m. Inr (Resumes (f\<lparr>rax := 0\<rparr>), k\<lparr>k_machine := m\<rparr>))"

definition sys_send :: "running \<Rightarrow> syscall_frame \<Rightarrow> ('sp, 'd, 'c) kernel \<Rightarrow> ('sp, 'd, 'c) served" where
  "sys_send r f k =
     (let to = rdi f; ptr = rsi f; len = rdx f in
      if \<not> running_owns r ptr len \<or> unat len > CAPACITY_ipc then refuse ERR_BAD_ARGUMENT f k
      else case deliver_to (unat to) (run_slot r) (user_bytes k ptr (unat len)) (k_sched k) of
          (Inr delivery, s) \<Rightarrow> answer len f (with_sched s k)
        | (Inl SendBusy, s) \<Rightarrow> refuse ERR_MAILBOX_FULL f (with_sched s k)
        | (Inl NoSuchProcess, s) \<Rightarrow> refuse ERR_NO_SUCH_PROCESS f (with_sched s k)
        | (Inl (Rejected why), s) \<Rightarrow> refuse ERR_BAD_ARGUMENT f (with_sched s k))"

text \<open>Once round the loop of \<open>recv\<close>, and the call itself.\<close>

definition recv_round :: "('sp, 'd, 'c) hardware \<Rightarrow> syscall_frame \<Rightarrow> ('sp, 'd, 'c) kernel \<Rightarrow> ('sp, 'd, 'c) served" where
  "recv_round hw f k =
     (let ptr = rdi f; capacity = rsi f in
      case take_message (user_bytes k ptr (unat capacity)) (k_sched k) of
        (Inr delivery, into, s) \<Rightarrow>
          Inr (Returns (f\<lparr>rax := of_nat (dl_len delivery), rdx := of_nat (dl_from delivery)\<rparr>),
               put_user ptr into (with_sched s k))
      | (Inl (TakeTooLong len), into, s) \<Rightarrow> refuse ERR_BAD_ARGUMENT f (with_sched s k)
      | (Inl Nothing, into, s) \<Rightarrow>
          and_then (wait_for_message (hw_root hw) (k_machine (with_sched s k))) (\<lambda>(waited, m).
            let k' = (with_sched s k)\<lparr>k_machine := m\<rparr> in
            if \<not> waited then refuse ERR_WOULD_WAIT_FOR_EVER f k' else Inr (RecvAgain f, k')))"

definition sys_recv :: "('sp, 'd, 'c) hardware \<Rightarrow> running \<Rightarrow> syscall_frame \<Rightarrow> ('sp, 'd, 'c) kernel \<Rightarrow> ('sp, 'd, 'c) served" where
  "sys_recv hw r f k =
     (let ptr = rdi f; capacity = rsi f in
      if \<not> running_owns r ptr capacity then refuse ERR_BAD_ARGUMENT f k
      else recv_round hw f k)"

definition sys_open :: "('sp, 'd, 'c) hardware \<Rightarrow> running \<Rightarrow> syscall_frame \<Rightarrow> ('sp, 'd, 'c) kernel \<Rightarrow> ('sp, 'd, 'c) served" where
  "sys_open hw r f k =
     (let ptr = rdi f; len = rsi f in
      if \<not> running_owns r ptr len \<or> len > MAX_NAME then refuse ERR_BAD_ARGUMENT f k
      else let name = user_bytes k ptr (unat len) in
      if \<not> utf8_valid name then refuse ERR_BAD_ARGUMENT f k
      else case fs_find (hw_disk hw) name (k_disk k) of
          (Inl err, disk) \<Rightarrow> refuse (number_for err) f (k\<lparr>k_disk := disk\<rparr>)
        | (Inr e, disk) \<Rightarrow>
            (case with_running (\<lambda>p. case open_file \<lparr>of_entry = e, of_position = 0\<rparr> (open_table p) of
                   (d, t) \<Rightarrow> (d, p\<lparr>open_table := t\<rparr>)) (k_sched k) of
               (opened, s) \<Rightarrow>
                 let k' = with_sched s (k\<lparr>k_disk := disk\<rparr>) in
                 (case Option.bind opened id of
                    Some descriptor \<Rightarrow> answer (of_nat descriptor) f k'
                  | None \<Rightarrow> refuse ERR_TOO_MANY_OPEN f k')))"

definition sys_read :: "('sp, 'd, 'c) hardware \<Rightarrow> running \<Rightarrow> syscall_frame \<Rightarrow> ('sp, 'd, 'c) kernel \<Rightarrow> ('sp, 'd, 'c) served" where
  "sys_read hw r f k =
     (let descriptor = unat (rdi f); ptr = rsi f; len = rdx f in
      if \<not> running_owns_writable r ptr len \<or> len > MAX_READ then refuse ERR_BAD_ARGUMENT f k
      else case with_running (\<lambda>p. (open_at (open_table p) descriptor, p)) (k_sched k) of
        (found, s) \<Rightarrow>
          (case Option.bind found id of
             None \<Rightarrow> refuse ERR_BAD_DESCRIPTOR f (with_sched s k)
           | Some file \<Rightarrow>
               let into = user_bytes k ptr (unat len) in
               (case fs_read_at (hw_disk hw) (of_entry file) (of_position file) into (k_disk k) of
                  (Inr (got, into'), disk) \<Rightarrow>
                    (case with_running (\<lambda>p. ((), p\<lparr>open_table := update_at descriptor
                         (\<lambda>o'. o'\<lparr>of_position := saturating_add (of_position o') (of_nat got)\<rparr>) (open_table p)\<rparr>)) s of
                       (_, s') \<Rightarrow> answer (of_nat got) f (put_user ptr into' (with_sched s' (k\<lparr>k_disk := disk\<rparr>))))
                | (Inl err, disk) \<Rightarrow>
                    refuse (number_for err) f
                      (put_user ptr (take (unat len) (hw_scraps hw)) (with_sched s (k\<lparr>k_disk := disk\<rparr>))))))"

definition sys_close :: "running \<Rightarrow> syscall_frame \<Rightarrow> ('sp, 'd, 'c) kernel \<Rightarrow> ('sp, 'd, 'c) served" where
  "sys_close r f k =
     (case with_running (\<lambda>p. case close_file (unat (rdi f)) (open_table p) of (b, t) \<Rightarrow> (b, p\<lparr>open_table := t\<rparr>)) (k_sched k) of
        (closed, s) \<Rightarrow>
          if closed = Some True then answer 0 f (with_sched s k)
          else refuse ERR_BAD_DESCRIPTOR f (with_sched s k))"

definition sys_write_file :: "('sp, 'd, 'c) hardware \<Rightarrow> running \<Rightarrow> syscall_frame \<Rightarrow> ('sp, 'd, 'c) kernel \<Rightarrow> ('sp, 'd, 'c) served" where
  "sys_write_file hw r f k =
     (let name_ptr = rdi f; name_len = rsi f; data_ptr = rdx f; data_len = r10 f in
      if \<not> running_owns r name_ptr name_len \<or> name_len > MAX_NAME then refuse ERR_BAD_ARGUMENT f k
      else if \<not> running_owns r data_ptr data_len \<or> data_len > MAX_WRITE then refuse ERR_BAD_ARGUMENT f k
      else let name = user_bytes k name_ptr (unat name_len);
               contents = user_bytes k data_ptr (unat data_len) in
      if \<not> utf8_valid name then refuse ERR_BAD_ARGUMENT f k
      else case fs_write_file (hw_disk hw) (anyone_has_open (k_sched k)) (hw_ticks hw) name contents (k_events k) (k_disk k) of
          (log, Inr e, disk) \<Rightarrow> answer data_len f (k\<lparr>k_events := log, k_disk := disk\<rparr>)
        | (log, Inl err, disk) \<Rightarrow> refuse (number_for err) f (k\<lparr>k_events := log, k_disk := disk\<rparr>))"

definition sys_list :: "('sp, 'd, 'c) hardware \<Rightarrow> running \<Rightarrow> syscall_frame \<Rightarrow> ('sp, 'd, 'c) kernel \<Rightarrow> ('sp, 'd, 'c) served" where
  "sys_list hw r f k =
     (let index = rdi f; ptr = rsi f; len = rdx f in
      if \<not> running_owns_writable r ptr len \<or> len < ENTRY_BYTES then refuse ERR_BAD_ARGUMENT f k
      else case fs_entry_at (hw_disk hw) (unat index) (k_disk k) of
          (Inl err, disk) \<Rightarrow> refuse (number_for err) f (k\<lparr>k_disk := disk\<rparr>)
        | (Inr e, disk) \<Rightarrow> answer ENTRY_BYTES f (put_user ptr (encode_entry e) (k\<lparr>k_disk := disk\<rparr>)))"

definition sys_console_write :: "('sp, 'd, 'c) hardware \<Rightarrow> running \<Rightarrow> syscall_frame \<Rightarrow> ('sp, 'd, 'c) kernel \<Rightarrow> ('sp, 'd, 'c) served" where
  "sys_console_write hw r f k =
     (let ptr = rdi f; len = rsi f in
      if \<not> running_owns r ptr len \<or> len > MAX_LOG then refuse ERR_BAD_ARGUMENT f k
      else let string = user_bytes k ptr (unat len) in
      if utf8_valid string
      then case console_write (hw_console hw) string (k_console k) of
          (out, c) \<Rightarrow> answer (of_nat (case out of Some n \<Rightarrow> n | None \<Rightarrow> 0)) f (k\<lparr>k_console := c\<rparr>)
      else refuse ERR_BAD_ARGUMENT f k)"

definition sys_console_read :: "('sp, 'd, 'c) hardware \<Rightarrow> syscall_frame \<Rightarrow> ('sp, 'd, 'c) kernel \<Rightarrow> ('sp, 'd, 'c) served" where
  "sys_console_read hw f k =
     (case console_read_key (hw_console hw) (k_console k) of
        (key, c) \<Rightarrow> answer (encode key) f (k\<lparr>k_console := c\<rparr>))"

definition serve :: "('sp, 'd, 'c) hardware \<Rightarrow> running \<Rightarrow> syscall_frame \<Rightarrow> ('sp, 'd, 'c) kernel \<Rightarrow> ('sp, 'd, 'c) served" where
  "serve hw r f k =
     (case call_from (rax f) of
        Some CLog \<Rightarrow> sys_log r f k
      | Some CExit \<Rightarrow> sys_exit hw f k
      | Some CYield \<Rightarrow> sys_yield hw f k
      | Some CSend \<Rightarrow> sys_send r f k
      | Some CRecv \<Rightarrow> sys_recv hw r f k
      | Some COpen \<Rightarrow> sys_open hw r f k
      | Some CRead \<Rightarrow> sys_read hw r f k
      | Some CClose \<Rightarrow> sys_close r f k
      | Some CWriteFile \<Rightarrow> sys_write_file hw r f k
      | Some CList \<Rightarrow> sys_list hw r f k
      | Some CConsoleWrite \<Rightarrow> sys_console_write hw r f k
      | Some CConsoleRead \<Rightarrow> sys_console_read hw f k
      | None \<Rightarrow> refuse ERR_UNKNOWN_CALL f k)"

definition handle :: "('sp, 'd, 'c) hardware \<Rightarrow> syscall_frame \<Rightarrow> ('sp, 'd, 'c) kernel \<Rightarrow> ('sp, 'd, 'c) served" where
  "handle hw f k =
     (case running (k_sched k) of
        None \<Rightarrow> refuse ERR_UNKNOWN_CALL f k
      | Some r \<Rightarrow> serve hw r f k)"

text \<open>A fault of ring 3, with its name; \<open>None\<close> is the CPU halted for good.\<close>

definition on_fault :: "('sp, 'd, 'c) hardware \<Rightarrow> bytes \<Rightarrow> ('sp, 'd, 'c) kernel \<Rightarrow> (panic + ('sp, 'd, 'c) kernel) option" where
  "on_fault hw name k =
     (case running (k_sched k) of
        None \<Rightarrow> None
      | Some r \<Rightarrow>
          Some (and_then (fault_current (hw_root hw) (k_machine k)) (\<lambda>m.
            Inr (k\<lparr>k_events := record_with (hw_ticks hw) Faulted (of_nat (run_slot r)) name (k_events k), k_machine := m\<rparr>))))"

section \<open>The readers of ring 3\<close>

definition abi_entry_name :: "bytes \<Rightarrow> bytes option" where
  "abi_entry_name rec =
     (if length rec < 12 then None
      else let field = take 12 rec;
               e = (case position (\<lambda>b. b = 32) field of Some i \<Rightarrow> i | None \<Rightarrow> length field)
           in if utf8_valid (take e field) then Some (take e field) else None)"

definition abi_entry_size :: "bytes \<Rightarrow> u32 option" where
  "abi_entry_size rec =
     (if length rec < 20 then None else Some (u32_from_le (rec ! 16) (rec ! 17) (rec ! 18) (rec ! 19)))"

definition abi_entry_is_directory :: "bytes \<Rightarrow> bool" where
  "abi_entry_is_directory rec \<longleftrightarrow> (case get_at rec 12 of Some a \<Rightarrow> a AND 0x10 \<noteq> 0 | None \<Rightarrow> False)"

end
