(* ===== verification/Syscall_Safe.thy ===== *)
theory Syscall_Safe
  imports Syscall
begin

text \<open>
  What the boundary promises: which memory a call can change, that no call panics the kernel or leaves
  the states the scheduler can be in, what the answers look like, and that what ring 3 reads out of a
  record is what the kernel put there.
\<close>

section \<open>Memory\<close>

definition span :: "u64 \<Rightarrow> nat \<Rightarrow> u64 set" where
  "span ptr len = {a. unat (a - ptr) < len}"

text \<open>Only the active space changed, and only inside \<open>A\<close>.\<close>

definition wrote_only :: "u64 set \<Rightarrow> ('sp, 'd, 'c) kernel \<Rightarrow> ('sp, 'd, 'c) kernel \<Rightarrow> bool" where
  "wrote_only A k k' \<longleftrightarrow> (\<forall>sp a. k_memory k' sp a = k_memory k sp a \<or> sp = cr3 (k_machine k) \<and> a \<in> A)"

lemma wrote_only_same: "k_memory k' = k_memory k \<Longrightarrow> wrote_only A k k'"
  by (simp add: wrote_only_def)

lemma with_sched_simps [simp]:
  "k_memory (with_sched s k) = k_memory k" "cr3 (k_machine (with_sched s k)) = cr3 (k_machine k)"
  "k_machine (with_sched s k) = (k_machine k)\<lparr>sched := s\<rparr>" "k_disk (with_sched s k) = k_disk k"
  by (simp_all add: with_sched_def)

lemma put_user_simps [simp]: "k_machine (put_user ptr bs k) = k_machine k" "k_disk (put_user ptr bs k) = k_disk k"
  by (simp_all add: put_user_def Let_def)

lemma wrote_only_put:
  "k_memory k0 = k_memory k \<Longrightarrow> cr3 (k_machine k0) = cr3 (k_machine k) \<Longrightarrow> span ptr (length bs) \<subseteq> A \<Longrightarrow>
    wrote_only A k (put_user ptr bs k0)"
  by (auto simp: wrote_only_def put_user_def span_def Let_def)

lemma span_mono: "m \<le> n \<Longrightarrow> span ptr m \<subseteq> span ptr n"
  by (auto simp: span_def)

lemma span_owned:
  assumes "owned_by rs ptr len" "a \<in> span ptr (unat len)"
  shows "owned_by rs a 1"
proof -
  from assms(1) obtain r where r: "len \<noteq> 0" "unat ptr + unat len < 2 ^ 64" "r \<in> set rs" "request_bytes ptr len \<subseteq> range_bytes r"
    by (auto simp: owned_by_iff)
  have "unat (ptr + (a - ptr)) = unat ptr + unat (a - ptr)"
    by (rule unat_add_exact) (use assms(2) r(2) in \<open>simp add: span_def\<close>)
  then have a: "unat a = unat ptr + unat (a - ptr)" by simp
  then have "request_bytes a 1 \<subseteq> request_bytes ptr len" using assms(2) by (auto simp: request_bytes_def span_def)
  then show ?thesis using r a assms(2) by (auto simp: owned_by_iff span_def)
qed

lemma user_bytes_length [simp]: "length (user_bytes k ptr n) = n"
  by (simp add: user_bytes_def)

section \<open>The length of what a read fills\<close>

lemma at_sectors_length:
  assumes "at_sectors S first ks within want wr into s = (Inr (w, into'), s')" "wr \<le> want" "want \<le> length into"
  shows "w \<le> want \<and> length into' = length into"
  using assms
proof (induction S first ks within want wr into arbitrary: s rule: at_sectors.induct)
  case (2 S first sector rest within want wr into)
  show ?case
  proof (cases "wr < want")
    case True
    let ?t = "min (want - wr) (512 - within)"
    obtain bs t where b: "vread S (first + sector) s = (Inr bs, t)"
      "at_sectors S first rest 0 want (wr + ?t) (copy_at into wr (take ?t (drop within bs))) t = (Inr (w, into'), s')"
      using 2(2) True by (auto simp: io_bind_Inr_iff Let_def)
    have l: "length (copy_at into wr (take ?t (drop within bs))) = length into" using 2(4) True by simp
    from 2(1) [OF _ refl b(2)] show ?thesis using True 2(4) l by simp
  qed (use 2 in simp)
qed simp

declare read_at_loop.simps [simp del]

lemma read_at_loop_length:
  assumes "read_at_loop S b want inside c wr seen into s = (Inr (w, into'), s')" "wr \<le> want" "want \<le> length into"
  shows "w \<le> want \<and> length into' = length into"
  using assms
proof (induction "unat (clusters b) - seen" arbitrary: inside c wr seen into s rule: less_induct)
  case less
  show ?case
  proof (cases "wr < want")
    case True
    then obtain first w1 into1 t where a: "at_sectors S first (map of_nat [unat (inside div ucast SECTOR_BYTES)..<unat (sectors_per_cluster b)])
          (unat (inside mod ucast SECTOR_BYTES)) want wr into s = (Inr (w1, into1), t)"
      and rest: "(if w1 = want then io_ret (w1, into1) else if seen + 1 > unat (clusters b) then io_fail ChainLoops
        else io_bind (next_cluster S b c) (\<lambda>e. case e of Next nxt \<Rightarrow> read_at_loop S b want 0 nxt w1 (seen + 1) into1
              | _ \<Rightarrow> io_fail (BrokenChain c e))) t = (Inr (w, into'), s')"
      using less(2) by (subst (asm) read_at_loop.simps) (auto simp: io_bind_Inr_iff split: option.splits)
    have l: "w1 \<le> want" "length into1 = length into" using at_sectors_length [OF a] True less(4) by auto
    show ?thesis
    proof (cases "w1 = want \<or> seen + 1 > unat (clusters b)")
      case False
      then obtain x u where "(case x of Next nxt \<Rightarrow> read_at_loop S b want 0 nxt w1 (seen + 1) into1
              | _ \<Rightarrow> io_fail (BrokenChain c x)) u = (Inr (w, into'), s')"
        using rest by (auto simp: io_bind_Inr_iff)
      then obtain nxt where "read_at_loop S b want 0 nxt w1 (seen + 1) into1 u = (Inr (w, into'), s')"
        by (cases x) auto
      moreover have "unat (clusters b) - (seen + 1) < unat (clusters b) - seen" using False by arith
      ultimately show ?thesis using less(1) l less(4) by fastforce
    qed (use rest l in \<open>auto split: if_splits\<close>)
  qed (use less in \<open>auto simp: read_at_loop.simps\<close>)
qed

lemma read_at_length: "read_at S b e offset into s = (Inr (w, into'), s') \<Longrightarrow> w \<le> length into \<and> length into' = length into"
  by (auto simp: read_at_def Let_def io_bind_Inr_iff split: if_splits prod.splits dest!: read_at_loop_length)

lemma fs_read_at_length:
  "fs_read_at D e offset into disk = (Inr (w, into'), disk') \<Longrightarrow> w \<le> length into \<and> length into' = length into"
  by (auto simp: fs_read_at_def io_bind_Inr_iff with_volume_def io_lift_def map_err_Inr_iff split: option.splits prod.splits
      dest!: read_at_length)

section \<open>Which memory a call can change\<close>

lemma refuse_Inr_iff [simp]: "refuse e f k = Inr (out, k') \<longleftrightarrow> out = Returns (f\<lparr>rax := word_of_int e\<rparr>) \<and> k' = k"
  by (auto simp: refuse_def answer_def)

lemma answer_Inr_iff [simp]: "answer v f k = Inr (out, k') \<longleftrightarrow> out = Returns (f\<lparr>rax := v\<rparr>) \<and> k' = k"
  by (auto simp: answer_def)

text \<open>The calls that only read the memory of the program.\<close>

lemma quiet_calls:
  "sys_log r f k = Inr (out, k') \<Longrightarrow> k_memory k' = k_memory k"
  "sys_exit hw f k = Inr (out, k') \<Longrightarrow> k_memory k' = k_memory k"
  "sys_yield hw f k = Inr (out, k') \<Longrightarrow> k_memory k' = k_memory k"
  "sys_send r f k = Inr (out, k') \<Longrightarrow> k_memory k' = k_memory k"
  "sys_open hw r f k = Inr (out, k') \<Longrightarrow> k_memory k' = k_memory k"
  "sys_close r f k = Inr (out, k') \<Longrightarrow> k_memory k' = k_memory k"
  "sys_write_file hw r f k = Inr (out, k') \<Longrightarrow> k_memory k' = k_memory k"
  "sys_console_write hw r f k = Inr (out, k') \<Longrightarrow> k_memory k' = k_memory k"
  "sys_console_read hw f k = Inr (out, k') \<Longrightarrow> k_memory k' = k_memory k"
  subgoal by (auto simp: sys_log_def Let_def split: if_splits)
  subgoal by (auto simp: sys_exit_def and_then_Inr_iff split: prod.splits)
  subgoal by (auto simp: sys_yield_def and_then_Inr_iff)
  subgoal by (auto simp: sys_send_def Let_def split: if_splits prod.splits sum.splits send_error.splits)
  subgoal by (auto simp: sys_open_def Let_def split: if_splits prod.splits sum.splits option.splits)
  subgoal by (auto simp: sys_close_def split: if_splits prod.splits)
  subgoal by (auto simp: sys_write_file_def Let_def split: if_splits prod.splits sum.splits)
  subgoal by (auto simp: sys_console_write_def Let_def split: if_splits prod.splits option.splits)
  subgoal by (auto simp: sys_console_read_def split: prod.splits)
  done

lemma recv_writes: "sys_recv hw r f k = Inr (out, k') \<Longrightarrow>
    k_memory k' = k_memory k \<or> running_owns r (rdi f) (rsi f) \<and> wrote_only (span (rdi f) (unat (rsi f))) k k'"
  by (auto simp: sys_recv_def recv_round_def Let_def take_message_def take_into_def and_then_Inr_iff
      intro!: wrote_only_put span_mono
      split: if_splits prod.splits sum.splits take_error.splits option.splits)

lemma read_writes: "sys_read hw r f k = Inr (out, k') \<Longrightarrow>
    k_memory k' = k_memory k \<or> running_owns_writable r (rsi f) (rdx f) \<and> wrote_only (span (rsi f) (unat (rdx f))) k k'"
  by (auto simp: sys_read_def Let_def dest!: fs_read_at_length intro!: wrote_only_put span_mono
      split: if_splits prod.splits sum.splits option.splits)

lemma encode_entry_length [simp]: "length (encode_entry e) = 20"
  by (simp add: encode_entry_def Let_def ENTRY_BYTES_def ENTRY_NAME_def ENTRY_NAME_LEN_def ENTRY_ATTRIBUTES_def ENTRY_SIZE_def)

lemma list_writes: "sys_list hw r f k = Inr (out, k') \<Longrightarrow>
    k_memory k' = k_memory k \<or> running_owns_writable r (rsi f) (rdx f) \<and> wrote_only (span (rsi f) (unat (rdx f))) k k'"
  by (auto simp: sys_list_def Let_def ENTRY_BYTES_def word_less_nat_alt intro!: wrote_only_put span_mono
      split: if_splits prod.splits sum.splits)

section \<open>No call panics\<close>

lemma reach_with_running:
  assumes "reachable root m" "on_stack_of m = Some i" "changes_open_table g" "with_running g (sched m) = (r, s)"
  shows "reachable root (m\<lparr>sched := s\<rparr>)"
proof -
  let ?g = "\<lambda>p. (0 :: nat, snd (g p))"
  have "changes_open_table ?g" using assms(3) by (simp add: changes_open_table_def)
  moreover have "with_running ?g (sched m) = (map_option (\<lambda>_. 0) r, s)"
    using assms(4) by (auto simp: with_running_def split: option.splits prod.splits)
  ultimately show ?thesis using step.filed [OF assms(2)] reachable.more [OF assms(1)] by blast
qed

lemma changes_open_tableI:
  assumes "\<And>p. snd (g p) = p\<lparr>open_table := t p\<rparr>" "\<And>p. length (t p) = length (open_table p)"
  shows "changes_open_table g"
  unfolding changes_open_table_def
proof (intro allI impI)
  fix p :: "'a process" assume "length (open_table p) = MAX_OPEN"
  then show "\<exists>t. length t = MAX_OPEN \<and> snd (g p) = p\<lparr>open_table := t\<rparr>"
    using assms by (intro exI [of _ "t p"]) simp
qed

lemma changes_open: "changes_open_table (\<lambda>p. case open_file x (open_table p) of (d, t) \<Rightarrow> (d, p\<lparr>open_table := t\<rparr>))"
  by (rule changes_open_tableI [where t = "\<lambda>p. snd (open_file x (open_table p))"])
     (simp_all add: open_file_def split: prod.splits option.splits)

lemma changes_nothing: "changes_open_table (\<lambda>p. (g p, p))"
  by (rule changes_open_tableI [where t = open_table]) simp_all

lemma changes_position: "changes_open_table (\<lambda>p. ((), p\<lparr>open_table := update_at d g (open_table p)\<rparr>))"
  by (rule changes_open_tableI [where t = "\<lambda>p. update_at d g (open_table p)"])
     (simp_all add: update_at_def split: option.splits)

lemma changes_close: "changes_open_table (\<lambda>p. case close_file d (open_table p) of (b, t) \<Rightarrow> (b, p\<lparr>open_table := t\<rparr>))"
  by (rule changes_open_tableI [where t = "\<lambda>p. snd (close_file d (open_table p))"])
     (simp_all add: close_file_def split: prod.splits option.splits)

text \<open>A handler that ends well, in a state the machine can be in.\<close>

definition serves :: "('sp \<Rightarrow> u64) \<Rightarrow> ('sp, 'd, 'c) served \<Rightarrow> bool" where
  "serves root x \<longleftrightarrow> (\<exists>out k. x = Inr (out, k) \<and> reachable root (k_machine k))"

lemma serves_answer [simp]: "serves root (answer v f k) \<longleftrightarrow> reachable root (k_machine k)"
  "serves root (refuse e f k) \<longleftrightarrow> reachable root (k_machine k)"
  by (auto simp: serves_def answer_def refuse_def)

text \<open>The calls that touch the scheduler are steps of the machine; the others leave it alone.\<close>

lemma serves_scheduler:
  assumes "reachable (hw_root hw) (k_machine k)" "on_stack_of (k_machine k) = Some i"
  shows "serves (hw_root hw) (sys_exit hw f k)" "serves (hw_root hw) (sys_yield hw f k)"
    "run_slot r = i \<Longrightarrow> serves (hw_root hw) (sys_send r f k)" "serves (hw_root hw) (sys_recv hw r f k)"
proof -
  note p = conjunct1 [OF machine_ok_process [OF reachable_ok [OF assms(1)] assms(2)]]
  note more = reachable.more [OF assms(1)]
  obtain m1 where "end_current (hw_root hw) (k_machine k) = Inr m1" using end_current_ok [OF p] by blast
  then show "serves (hw_root hw) (sys_exit hw f k)"
    using more [OF step.ended [OF assms(2)]] by (simp add: serves_def sys_exit_def exit_current_def)
  obtain m2 where "switch_to_next (hw_root hw) (k_machine k) = Inr m2" using switch_to_next_ok [OF p] by blast
  then show "serves (hw_root hw) (sys_yield hw f k)"
    using more [OF step.yielded [OF assms(2)]] by (simp add: serves_def sys_yield_def)
  show "serves (hw_root hw) (sys_send r f k)" if "run_slot r = i"
    using assms(1) more [OF step.sent [OF assms(2)]] that
    by (auto simp: sys_send_def Let_def split: prod.splits sum.splits send_error.splits)
  show "serves (hw_root hw) (sys_recv hw r f k)"
  proof (cases "take_message (user_bytes k (rdi f) (unat (rsi f))) (k_sched k)")
    case (fields res into s)
    have took: "reachable (hw_root hw) ((k_machine k)\<lparr>sched := s\<rparr>)" using more [OF step.took [OF assms(2) fields(1)]] by simp
    show ?thesis
    proof (cases "res = Inl Nothing")
      case True
      have empt: "take_message (user_bytes k (rdi f) (unat (rsi f))) (k_sched k) = (Inl Nothing, into, s)"
        using fields True by simp
      have "\<exists>b m'. wait_for_message (hw_root hw) ((k_machine k)\<lparr>sched := s\<rparr>) = Inr (b, m') \<and> in_process (hw_root hw) m'"
        using wait_for_message_ok [OF take_message_ok [OF p empt]] taken_nothing [OF empt] by simp
      then obtain b m' where w: "wait_for_message (hw_root hw) ((k_machine k)\<lparr>sched := s\<rparr>) = Inr (b, m')" by blast
      from more [OF step.waited [OF assms(2) empt w]] show ?thesis
        using fields True w assms(1) by (simp add: sys_recv_def recv_round_def Let_def) (simp add: serves_def)
    qed (use fields took assms(1) in
        \<open>auto simp: sys_recv_def recv_round_def Let_def serves_def [of _ "Inr _"] split: sum.splits take_error.splits\<close>)
  qed
qed

lemma serves_files:
  assumes "reachable (hw_root hw) (k_machine k)" "on_stack_of (k_machine k) = Some i"
  shows "serves (hw_root hw) (sys_open hw r f k)" "serves (hw_root hw) (sys_read hw r f k)"
    "serves (hw_root hw) (sys_close r f k)" "serves (hw_root hw) (sys_write_file hw r f k)" "serves (hw_root hw) (sys_list hw r f k)"
proof -
  note w = reach_with_running [OF assms]
  show "serves (hw_root hw) (sys_open hw r f k)"
    using assms(1) w [OF changes_open] by (auto simp: sys_open_def Let_def split: prod.splits sum.splits option.splits)
  show "serves (hw_root hw) (sys_close r f k)"
    using assms(1) w [OF changes_close] by (auto simp: sys_close_def split: prod.splits)
  show "serves (hw_root hw) (sys_write_file hw r f k)"
    using assms(1) by (auto simp: sys_write_file_def Let_def split: prod.splits sum.splits)
  show "serves (hw_root hw) (sys_list hw r f k)"
    using assms(1) by (auto simp: sys_list_def Let_def split: prod.splits sum.splits)
  obtain found s where f: "with_running (\<lambda>p. (open_at (open_table p) (unat (rdi f)), p)) (k_sched k) = (found, s)" by fastforce
  note first = w [OF changes_nothing f]
  have second: "reachable (hw_root hw) ((k_machine k)\<lparr>sched := s'\<rparr>)"
    if "with_running (\<lambda>p. ((), p\<lparr>open_table := update_at d g (open_table p)\<rparr>)) s = (u, s')" for d g u s'
    using reach_with_running [OF first _ changes_position, of i d g] that assms(2) by simp
  show "serves (hw_root hw) (sys_read hw r f k)"
    unfolding sys_read_def Let_def using first second assms(1) f
    by (auto split: prod.splits sum.splits option.splits)
qed

lemma serve_serves:
  assumes "reachable (hw_root hw) (k_machine k)" "on_stack_of (k_machine k) = Some i" "run_slot r = i"
  shows "serves (hw_root hw) (serve hw r f k)"
proof (cases "call_from (rax f)")
  case (Some c)
  then show ?thesis
  proof (cases c)
    case CLog
    then show ?thesis using Some assms(1) by (simp add: serve_def sys_log_def Let_def)
  next
    case CConsoleWrite
    then show ?thesis using Some assms(1) by (auto simp: serve_def sys_console_write_def Let_def split: prod.splits)
  next
    case CConsoleRead
    then show ?thesis using Some assms(1) by (auto simp: serve_def sys_console_read_def split: prod.splits)
  qed (use Some serves_scheduler [OF assms(1,2)] serves_files [OF assms(1,2)] assms(3) in \<open>simp_all add: serve_def\<close>)
qed (use assms(1) in \<open>simp add: serve_def\<close>)

section \<open>What a program can be answered\<close>

definition is_error :: "int \<Rightarrow> bool" where
  "is_error e \<longleftrightarrow> -12 \<le> e \<and> e \<le> -1"

definition proper :: "u64 \<Rightarrow> bool" where
  "proper v \<longleftrightarrow> -12 \<le> sint v \<and> sint v \<le> 32768"

lemma sint_small: "n \<le> 32768 \<Longrightarrow> sint (of_nat n :: u64) = int n"
proof -
  assume n: "n \<le> 32768"
  then have "uint (of_nat n :: u64) = int n" by (simp add: uint_nat unat_of_nat_exact)
  then show ?thesis using n by (simp add: sint_uint signed_take_bit_int_eq_self)
qed

lemma proper_of_nat: "n \<le> 32768 \<Longrightarrow> proper (of_nat n)"
  by (simp add: proper_def sint_small)

lemma proper_word: "unat v \<le> 32768 \<Longrightarrow> proper v"
  using proper_of_nat [of "unat v"] by simp

lemma sint_word_error: "is_error e \<Longrightarrow> sint (word_of_int e :: u64) = e"
  by (simp add: is_error_def sint_sbintrunc' signed_take_bit_int_eq_self)

lemma proper_error: "is_error e \<Longrightarrow> proper (word_of_int e)"
  using sint_word_error [of e] by (simp add: proper_def is_error_def)

lemma number_for_error: "is_error (number_for e)"
  by (cases e rule: number_for.cases) (simp_all add: is_error_def err_defs)

lemma recv_length:
  assumes "reachable root m" "on_stack_of m = Some i" "take_message into (sched m) = (Inr d, into', s)"
  shows "dl_len d \<le> 64"
proof -
  have p: "in_process root m" using machine_ok_process [OF reachable_ok [OF assms(1)] assms(2)] by auto
  obtain sl where sl: "slot_at (sched m) (current (sched m)) = Some sl" "slot_ok sl" using p by (rule in_process_slot)
  then have "mailbox_ok (sl_mailbox sl)" by (simp add: slot_ok_def)
  then show ?thesis using assms(3) sl(1)
    by (auto simp: take_message_def take_into_def mailbox_ok_def CAPACITY_ipc_def split: option.splits if_splits prod.splits)
qed

lemma descriptor_bound:
  assumes "reachable root m" "on_stack_of m = Some i"
    "with_running (\<lambda>p. case open_file x (open_table p) of (d, t) \<Rightarrow> (d, p\<lparr>open_table := t\<rparr>)) (sched m) = (Some (Some d), s)"
  shows "d < 4"
proof -
  have p: "in_process root m" using machine_ok_process [OF reachable_ok [OF assms(1)] assms(2)] by auto
  obtain sl where sl: "slot_at (sched m) (current (sched m)) = Some sl" "slot_ok sl" "sl_state sl = Runnable" using p by (rule in_process_slot)
  then have "length (open_table (sl_process sl)) = 4" by (simp add: slot_ok_def MAX_OPEN_def)
  then show ?thesis using assms(3) sl p
    by (auto simp: with_running_def running_slot_def in_process_def open_file_def position_Some_iff
        split: option.splits prod.splits)
qed

lemma encode_bound: "unat (encode key) \<le> 126"
  by (cases key rule: encode.cases)
     (auto simp: KEY_NONE_def KEY_ENTER_def KEY_BACKSPACE_def KEY_UNKNOWN_def is_ascii_graphic_def unat_ucast_up word_le_nat_alt)

text \<open>The registers a call leaves: the answer in \<open>rax\<close>, for \<open>recv\<close> the sender in \<open>rdx\<close>, the rest as they were.\<close>

definition same_registers :: "bool \<Rightarrow> syscall_frame \<Rightarrow> syscall_frame \<Rightarrow> bool" where
  "same_registers recv f f' \<longleftrightarrow> rdi f' = rdi f \<and> rsi f' = rsi f \<and> r10 f' = r10 f \<and> (recv \<or> rdx f' = rdx f)"

definition answers :: "bool \<Rightarrow> syscall_frame \<Rightarrow> ('sp, 'd, 'c) served \<Rightarrow> bool" where
  "answers recv f x \<longleftrightarrow> (\<forall>f' k'. x = Inr (Returns f', k') \<longrightarrow> proper (rax f') \<and> same_registers recv f f')"

lemma answers_answer [simp]: "answers b f (answer v f k) \<longleftrightarrow> proper v" "answers b f (refuse e f k) \<longleftrightarrow> proper (word_of_int e)"
  by (auto simp: answers_def same_registers_def answer_def refuse_def)

lemma err_are_errors: "is_error ERR_UNKNOWN_CALL" "is_error ERR_BAD_ARGUMENT" "is_error ERR_MAILBOX_FULL"
  "is_error ERR_NO_SUCH_PROCESS" "is_error ERR_WOULD_WAIT_FOR_EVER" "is_error ERR_BAD_DESCRIPTOR" "is_error ERR_TOO_MANY_OPEN"
  by (simp_all add: is_error_def err_defs)

lemmas proper_errors [simp] = number_for_error [THEN proper_error] err_are_errors [THEN proper_error]

lemma answers_calls:
  "answers b f (sys_log r f k)" "answers b f (sys_send r f k)" "answers b f (sys_close r f k)"
  "answers b f (sys_write_file hw r f k)" "answers b f (sys_list hw r f k)" "answers b f (sys_console_write hw r f k)"
  "answers b f (sys_console_read hw f k)" "answers b f (sys_exit hw f k)" "answers b f (sys_yield hw f k)"
  subgoal by (auto simp: sys_log_def Let_def MAX_LOG_def word_le_nat_alt word_less_nat_alt intro!: proper_word)
  subgoal by (auto simp: sys_send_def Let_def CAPACITY_ipc_def intro!: proper_word split: prod.splits sum.splits send_error.splits)
  subgoal by (auto simp: sys_close_def intro!: proper_word split: prod.splits)
  subgoal by (auto simp: sys_write_file_def Let_def MAX_WRITE_def MAX_FILE_CLUSTERS_def word_less_nat_alt intro!: proper_word
      split: prod.splits sum.splits)
  subgoal by (auto simp: sys_list_def Let_def ENTRY_BYTES_def intro!: proper_word split: prod.splits sum.splits)
  subgoal by (auto simp: sys_console_write_def Let_def MAX_LOG_def word_less_nat_alt console_write_def console_with_def
      intro!: proper_word split: prod.splits option.splits)
  subgoal by (auto simp: sys_console_read_def intro!: proper_word order.trans [OF encode_bound] split: prod.splits)
  subgoal by (auto simp: sys_exit_def answers_def and_then_Inr_iff split: prod.splits)
  subgoal by (auto simp: sys_yield_def answers_def and_then_Inr_iff)
  done

lemma answers_read: "answers b f (sys_read hw r f k)"
  by (auto simp: sys_read_def Let_def MAX_READ_def word_less_nat_alt intro!: proper_of_nat dest!: fs_read_at_length
      split: prod.splits sum.splits option.splits)

lemma answers_open:
  assumes "reachable (hw_root hw) (k_machine k)" "on_stack_of (k_machine k) = Some i"
  shows "answers b f (sys_open hw r f k)"
  using descriptor_bound [OF assms]
  by (auto simp: sys_open_def Let_def intro!: proper_of_nat split: prod.splits sum.splits option.splits bind_splits) fastforce

lemma answers_recv:
  assumes "reachable (hw_root hw) (k_machine k)" "on_stack_of (k_machine k) = Some i"
  shows "answers True f (sys_recv hw r f k)"
  using recv_length [OF assms]
  by (auto simp: sys_recv_def recv_round_def Let_def answers_def and_then_Inr_iff same_registers_def
      intro!: proper_of_nat split: prod.splits sum.splits take_error.splits if_splits) fastforce

section \<open>Properties\<close>


definition sample_hw :: "(u64, image, unit) hardware" where
  "sample_hw = \<lparr>hw_root = (\<lambda>sp. sp), hw_disk = image_sectors,
     hw_console = \<lparr>read_key = (\<lambda>c. (None, c)), write_str = (\<lambda>_ c. c)\<rparr>, hw_ticks = 0, hw_scraps = []\<rparr>"

definition sample_kernel :: "u64 machine \<Rightarrow> (u64, image, unit) kernel" where
  "sample_kernel m = \<lparr>k_machine = m, k_memory = (\<lambda>_ _. 0), k_disk = Some sample_mounted, k_events = ring_new, k_console = Some ()\<rparr>"


text \<open>
  C22. The kernel only writes what a program may write, on its behalf: a byte of the lower half that a
  call changed is in the space of the process that called, and inside one of its own ranges; only
  \<open>recv\<close>, \<open>read\<close> and \<open>list\<close> change memory at all, and \<open>read\<close> and \<open>list\<close> only memory the program may
  write itself.
\<close>

theorem syscall_memory:
  assumes "running (k_sched k) = Some r" "handle hw f k = Inr (out, k')" "k_memory k' sp a \<noteq> k_memory k sp a"
  shows "sp = cr3 (k_machine k) \<and>
    (if call_from (rax f) = Some CRecv then running_owns r a 1
     else call_from (rax f) \<in> {Some CRead, Some CList} \<and> running_owns_writable r a 1)"
proof -
  have s: "serve hw r f k = Inr (out, k')" using assms(1,2) by (simp add: handle_def)
  then have c: "call_from (rax f) = Some CRecv \<and> sys_recv hw r f k = Inr (out, k') \<or>
      call_from (rax f) = Some CRead \<and> sys_read hw r f k = Inr (out, k') \<or>
      call_from (rax f) = Some CList \<and> sys_list hw r f k = Inr (out, k')"
    using assms(3) by (auto simp: serve_def dest: quiet_calls split: option.splits call.splits)
  have inside: "sp = cr3 (k_machine k) \<and> owned_by rs a 1" if "owned_by rs ptr len" "wrote_only (span ptr (unat len)) k k'" for rs ptr len
    using that assms(3) span_owned [OF that(1), of a] by (auto simp: wrote_only_def)
  have nm: "k_memory k' \<noteq> k_memory k" using assms(3) by auto
  show ?thesis
    using c recv_writes [of hw r f k out k'] read_writes [of hw r f k out k'] list_writes [of hw r f k out k'] nm inside
    by (auto simp: running_owns_def running_owns_writable_def)
qed

text \<open>A process with its code at 4 MiB, which it may not write, its stack a megabyte above, and a message waiting.\<close>

definition sample_waiting :: "u64 slot" where
  "sample_waiting = \<lparr>sl_process = sample_process\<lparr>
       owned := [Some \<lparr>range_start = PhysAddr 0x400000, range_len = 0x1000\<rparr>, Some \<lparr>range_start = PhysAddr 0x500000, range_len = 0x1000\<rparr>],
       writable := [None, Some \<lparr>range_start = PhysAddr 0x500000, range_len = 0x1000\<rparr>]\<rparr>,
     sl_state = Runnable, kernel_rsp = FirstRun, kernel_stack_top = VirtAddr 0x2000,
     sl_mailbox = \<lparr>mb_bytes = 72 # replicate 63 0, mb_waiting = Some \<lparr>dl_from = 3, dl_len = 1\<rparr>\<rparr>\<rparr>"

definition sample_called :: "u64 machine" where
  "sample_called = (boot_machine 3)\<lparr>sched := \<lparr>slots = [Some sample_waiting], current = 0, switching = False, handed_over = True\<rparr>,
     cr3 := 7, on_stack_of := Some 0\<rparr>"

definition sample_running :: running where
  "sample_running = \<lparr>run_slot = 0, run_ranges = fixed (owned (sl_process sample_waiting)),
     run_writable = fixed (writable (sl_process sample_waiting))\<rparr>"

definition recv_into :: "u64 \<Rightarrow> syscall_frame" where
  "recv_into ptr = \<lparr>rax = 4, rdi = ptr, rsi = 64, rdx = 0, r10 = 0\<rparr>"

lemma sample_running: "running (k_sched (sample_kernel sample_called)) = Some sample_running"
  by (simp add: running_def running_slot_def sample_kernel_def sample_called_def slot_at_def sample_running_def
      ranges_def writable_ranges_def sample_waiting_def)

lemma sample_owned:
  "ptr = 0x400000 \<or> ptr = 0x500000 \<Longrightarrow> running_owns sample_running ptr 64"
  "running_owns_writable sample_running 0x500000 1" "\<not> running_owns_writable sample_running 0x400000 1"
  by (auto simp: running_owns_def running_owns_writable_def sample_running_def fixed_def sample_waiting_def
      owned_by_def checked_add_def range_end_def word_le_nat_alt phys_add_def phys_checked_add_def)

lemma sample_recv:
  assumes "ptr = 0x400000 \<or> ptr = 0x500000"
  shows "\<exists>out k'. handle sample_hw (recv_into ptr) (sample_kernel sample_called) = Inr (out, k') \<and> k_memory k' 7 ptr = 72"
proof -
  let ?k = "sample_kernel sample_called"
  have t: "take_message (user_bytes ?k ptr 64) (k_sched ?k) =
      (Inr \<lparr>dl_from = 3, dl_len = 1\<rparr>, copy_at (user_bytes ?k ptr 64) 0 [72],
       set_slot 0 (sample_waiting\<lparr>sl_mailbox := \<lparr>mb_bytes = 72 # replicate 63 0, mb_waiting = None\<rparr>\<rparr>) (k_sched ?k))"
    by (simp add: take_message_def sample_kernel_def sample_called_def slot_at_def take_into_def sample_waiting_def)
  have "serve sample_hw sample_running (recv_into ptr) ?k = recv_round sample_hw (recv_into ptr) ?k"
    using sample_owned(1) [OF assms] by (simp add: serve_def recv_into_def call_from_def sys_recv_def)
  then show ?thesis
    using t unfolding handle_def sample_running
    by (simp add: recv_round_def Let_def recv_into_def put_user_def copy_at_def)
       (simp add: sample_kernel_def sample_called_def)
qed

theorem syscall_memory_witness:
  "\<exists>out k'. handle sample_hw (recv_into 0x500000) (sample_kernel sample_called) = Inr (out, k') \<and>
     k_memory k' 7 0x500000 \<noteq> k_memory (sample_kernel sample_called) 7 0x500000 \<and> running_owns sample_running 0x500000 1"
proof -
  obtain out k' where h: "handle sample_hw (recv_into 0x500000) (sample_kernel sample_called) = Inr (out, k')"
    "k_memory k' 7 0x500000 = 72" using sample_recv by blast
  have d: "k_memory k' 7 0x500000 \<noteq> k_memory (sample_kernel sample_called) 7 0x500000"
    using h(2) by (simp add: sample_kernel_def)
  have "call_from (rax (recv_into 0x500000)) = Some CRecv" by (simp add: recv_into_def call_from_def)
  with syscall_memory [OF sample_running h(1) d] h(1) d show ?thesis by auto
qed


text \<open>
  What a call answers is a number the ABI knows: a count, a descriptor or a key from 0 to 32768, or
  one of the twelve errors from -12 to -1, so that no answer can be taken for an error nor an error
  for an answer; and the argument registers come back as they were, but for the sender in \<open>rdx\<close>
  after a \<open>recv\<close>.
\<close>

theorem answers_are_known:
  assumes "reachable (hw_root hw) (k_machine k)" "on_stack_of (k_machine k) = Some i" "handle hw f k = Inr (Returns f', k')"
  shows "-12 \<le> sint (rax f') \<and> sint (rax f') \<le> 32768 \<and> rdi f' = rdi f \<and> rsi f' = rsi f \<and> r10 f' = r10 f \<and>
    (call_from (rax f) = Some CRecv \<or> rdx f' = rdx f)"
proof -
  have "answers (call_from (rax f) = Some CRecv) f (serve hw r f k)" for r
    using answers_open [OF assms(1,2)] answers_recv [OF assms(1,2)] answers_read answers_calls
    by (auto simp: serve_def split: option.splits call.splits)
  then have "answers (call_from (rax f) = Some CRecv) f (handle hw f k)"
    by (simp add: handle_def split: option.splits)
  then show ?thesis using assms(3) by (auto simp: answers_def proper_def same_registers_def)
qed

theorem answers_are_known_witness:
  "\<exists>m f' k'. handle sample_hw \<lparr>rax = 99, rdi = 0, rsi = 0, rdx = 0, r10 = 0\<rparr> (sample_kernel m) = Inr (Returns f', k') \<and>
     -12 \<le> sint (rax f') \<and> sint (rax f') \<le> 32768"
proof -
  obtain m :: "u64 machine" and i where m: "on_stack_of m = Some i" "reachable (\<lambda>sp. sp) m" using sample_runs by blast
  let ?f = "\<lparr>rax = 99, rdi = 0, rsi = 0, rdx = 0, r10 = 0\<rparr>"
  have "handle sample_hw ?f (sample_kernel m) = refuse ERR_UNKNOWN_CALL ?f (sample_kernel m)"
    by (simp add: handle_def serve_def call_from_def split: option.splits)
  then obtain f' k' where h: "handle sample_hw ?f (sample_kernel m) = Inr (Returns f', k')" by (simp add: refuse_def answer_def)
  have "reachable (hw_root sample_hw) (k_machine (sample_kernel m))" "on_stack_of (k_machine (sample_kernel m)) = Some i"
    using m by (simp_all add: sample_hw_def sample_kernel_def)
  from answers_are_known [OF this h] h show ?thesis by blast
qed

text \<open>The memory each call is handed: whether the kernel means to fill it, where, and how much.\<close>

fun handed_memory :: "call \<Rightarrow> syscall_frame \<Rightarrow> (bool \<times> u64 \<times> u64) list" where
  "handed_memory CLog f = [(False, rdi f, rsi f)]"
| "handed_memory CSend f = [(False, rsi f, rdx f)]"
| "handed_memory CRecv f = [(False, rdi f, rsi f)]"
| "handed_memory COpen f = [(False, rdi f, rsi f)]"
| "handed_memory CRead f = [(True, rsi f, rdx f)]"
| "handed_memory CWriteFile f = [(False, rdi f, rsi f), (False, rdx f, r10 f)]"
| "handed_memory CList f = [(True, rsi f, rdx f)]"
| "handed_memory CConsoleWrite f = [(False, rdi f, rsi f)]"
| "handed_memory _ f = []"

text \<open>
  A pointer that is not the program's is refused unread: when any memory a call is handed is not
  wholly inside one range of the process (one it may write, for \<open>read\<close> and \<open>list\<close>), the answer is
  \<open>ERR_BAD_ARGUMENT\<close> and nothing in the kernel has changed, neither the memory nor the disk, the
  mailboxes, the console or the log of events.
\<close>

theorem bad_pointer_refused:
  assumes "running (k_sched k) = Some r" "call_from (rax f) = Some c" "(fill, ptr, len) \<in> set (handed_memory c f)"
    "\<not> (if fill then running_owns_writable r ptr len else running_owns r ptr len)"
  shows "handle hw f k = Inr (Returns (f\<lparr>rax := word_of_int (-2)\<rparr>), k)"
proof -
  have "serve hw r f k = refuse ERR_BAD_ARGUMENT f k"
    using assms(2-4) by (cases c) (auto simp: serve_def sys_log_def sys_send_def sys_recv_def sys_open_def sys_read_def
        sys_write_file_def sys_list_def sys_console_write_def Let_def)
  then show ?thesis using assms(1) by (simp add: handle_def refuse_def answer_def ERR_BAD_ARGUMENT_def)
qed

theorem bad_pointer_refused_witness:
  "handle sample_hw \<lparr>rax = 0, rdi = 0xFFFF800000000000, rsi = 8, rdx = 0, r10 = 0\<rparr> (sample_kernel sample_called) =
     Inr (Returns \<lparr>rax = word_of_int (-2), rdi = 0xFFFF800000000000, rsi = 8, rdx = 0, r10 = 0\<rparr>, sample_kernel sample_called)"
proof -
  let ?f = "\<lparr>rax = 0, rdi = 0xFFFF800000000000, rsi = 8, rdx = 0, r10 = 0\<rparr>"
  have n: "\<not> running_owns sample_running 0xFFFF800000000000 8"
    by (simp add: running_owns_def sample_running_def fixed_def sample_waiting_def owned_by_def checked_add_def
        range_end_def phys_add_def phys_checked_add_def word_le_nat_alt)
  have c: "call_from (rax ?f) = Some CLog" by (simp add: call_from_def)
  from bad_pointer_refused [OF sample_running c, of False "0xFFFF800000000000" 8 sample_hw] n show ?thesis by simp
qed

section \<open>Records\<close>

lemma position_append: "(\<And>x. x \<in> set xs \<Longrightarrow> \<not> P x) \<Longrightarrow> position P (xs @ ys) = map_option ((+) (length xs)) (position P ys)"
  by (induction xs) (cases "position P ys"; auto)+

lemma position_replicate: "position P (replicate n x) = (if n = 0 \<or> \<not> P x then None else Some 0)"
  by (induction n) auto

lemma encode_entry_parts:
  assumes "length (entry_name e) \<le> 12"
  shows "take 12 (encode_entry e) = entry_name e @ replicate (12 - length (entry_name e)) 32"
    "encode_entry e ! 12 = de_attributes e" "drop 16 (encode_entry e) = u32_to_le (de_size e)"
proof -
  let ?n = "length (entry_name e)"
  let ?pad = "entry_name e @ replicate (12 - ?n) 32"
  have n: "copy_at (replicate 20 0) 0 (entry_name e) = entry_name e @ replicate (20 - ?n) 0"
    by (simp add: copy_at_def)
  have p: "copy_at (entry_name e @ replicate (20 - ?n) 0) ?n (replicate (12 - ?n) 32) = ?pad @ [0, 0, 0, 0, 0, 0, 0, 0]"
  proof -
    have "drop (12 - ?n) (replicate (20 - ?n) (0 :: u8)) = replicate 8 0" using assms by simp
    also have "\<dots> = [0, 0, 0, 0, 0, 0, 0, 0]" by (simp add: numeral_eq_Suc)
    finally show ?thesis using assms by (simp add: copy_at_def)
  qed
  have l: "length ?pad = 12" using assms by simp
  have u: "(?pad @ [0, 0, 0, 0, 0, 0, 0, 0])[12 := de_attributes e] = ?pad @ [de_attributes e, 0, 0, 0, 0, 0, 0, 0]"
    using l by (metis list_update_code(2) list_update_length)
  have z: "copy_at (?pad @ [de_attributes e, 0, 0, 0, 0, 0, 0, 0]) 16 (u32_to_le (de_size e)) =
      ?pad @ [de_attributes e, 0, 0, 0] @ u32_to_le (de_size e)"
    using assms by (simp add: copy_at_def)
  have c: "encode_entry e = ?pad @ [de_attributes e, 0, 0, 0] @ u32_to_le (de_size e)"
    using assms n p u z by (simp add: encode_entry_def Let_def ENTRY_BYTES_def ENTRY_NAME_def ENTRY_NAME_LEN_def
        ENTRY_ATTRIBUTES_def ENTRY_SIZE_def min_absorb1)
  show "take 12 (encode_entry e) = entry_name e @ replicate (12 - ?n) 32" using assms by (simp add: c)
  show "encode_entry e ! 12 = de_attributes e" using assms by (simp add: c nth_append)
  show "drop 16 (encode_entry e) = u32_to_le (de_size e)" using assms by (simp add: c)
qed

lemma decoded_name:
  assumes "decode_slot raw = SlotEntry e"
  shows "length (de_name e) \<le> 12" "32 \<notin> set (de_name e)"
proof -
  have n: "de_name e = decode_slot_name raw" using assms by (auto simp: decode_slot_def Let_def split: if_splits)
  have "length (takeWhile (\<lambda>b. b \<noteq> 32) (take n bs)) \<le> n" for n :: nat and bs :: bytes
    using length_takeWhile_le [of "\<lambda>b. b \<noteq> 32" "take n bs"] by simp
  from this [of 8 raw] this [of 3 "drop 8 raw"] show "length (de_name e) \<le> 12" by (auto simp: n decode_slot_name_def)
  show "32 \<notin> set (de_name e)" by (auto simp: n decode_slot_name_def dest: set_takeWhileD)
qed

text \<open>
  What ring 3 reads out of a directory record is what the directory says: for every entry the
  volume can decode, the readers of the ABI get back, from the 20 bytes \<open>list\<close> hands over, the name as
  the kernel names it, the size and whether it is a directory.
\<close>

theorem record_roundtrip:
  assumes "decode_slot raw = SlotEntry e"
  shows "abi_entry_name (encode_entry e) = Some (entry_name e) \<and> abi_entry_size (encode_entry e) = Some (de_size e) \<and>
    abi_entry_is_directory (encode_entry e) = is_directory e"
proof -
  have e: "length (entry_name e) \<le> 12" "32 \<notin> set (entry_name e)" "utf8_valid (entry_name e)"
    using decoded_name [OF assms] by (auto simp: entry_name_def str_or_empty_def)
  note parts = encode_entry_parts [OF e(1)]
  let ?field = "entry_name e @ replicate (12 - length (entry_name e)) 32"
  have "position (\<lambda>b. b = 32) ?field = (if length (entry_name e) = 12 then None else Some (length (entry_name e)))"
    using e(1,2) by (subst position_append) (auto simp: position_replicate)
  then have n: "abi_entry_name (encode_entry e) = Some (entry_name e)"
    using e parts(1) by (auto simp: abi_entry_name_def Let_def)
  have "encode_entry e ! (16 + k) = u32_to_le (de_size e) ! k" for k
    using parts(3) nth_drop [of 16 "encode_entry e" k] by simp
  from this [of 0] this [of 1] this [of 2] this [of 3] have "abi_entry_size (encode_entry e) = Some (de_size e)"
    by (simp add: abi_entry_size_def u32_to_le_def u32_le_roundtrip)
  then show ?thesis using n parts(2) by (simp add: abi_entry_is_directory_def get_at_def is_directory_def ATTR_DIRECTORY_def)
qed

definition sample_raw :: bytes where
  "sample_raw = [65, 66, 32, 32, 32, 32, 32, 32, 84, 88, 84, 32, 0, 0, 0, 0, 0, 0, 0, 0, 0, 0, 0, 0, 0, 0, 3, 0, 5, 0, 0, 0]"

theorem record_roundtrip_witness:
  "\<exists>e. decode_slot sample_raw = SlotEntry e \<and> entry_name e = [65, 66, 46, 84, 88, 84] \<and>
     abi_entry_name (encode_entry e) = Some [65, 66, 46, 84, 88, 84] \<and> abi_entry_size (encode_entry e) = Some 5"
proof -
  let ?e = "\<lparr>de_name = [65, 66, 46, 84, 88, 84], de_attributes = 32, de_first_cluster = 3, de_size = 5\<rparr>"
  have d: "decode_slot sample_raw = SlotEntry ?e"
    by (simp add: sample_raw_def decode_slot_def Let_def decode_slot_name_def ENTRY_NEVER_USED_def ENTRY_DELETED_def
        ATTR_LONG_NAME_def ATTR_VOLUME_LABEL_def u16_from_le_def u32_from_le_def)
  moreover have "entry_name ?e = [65, 66, 46, 84, 88, 84]" by (simp add: entry_name_def str_or_empty_def)
  ultimately show ?thesis using record_roundtrip [OF d] by (intro exI [of _ ?e]) simp
qed

section \<open>Reading on through a descriptor\<close>

lemma with_running_held: "running_slot s = Some held \<Longrightarrow> with_running g s =
    (Some (fst (g (sl_process held))), set_slot (current s) (held\<lparr>sl_process := snd (g (sl_process held))\<rparr>) s)"
  by (simp add: with_running_def split: prod.split)

lemma running_slot_set: "running_slot s = Some held \<Longrightarrow>
    running_slot (set_slot (current s) (held\<lparr>sl_process := p\<rparr>) s) = Some (held\<lparr>sl_process := p\<rparr>)"
  by (auto simp: running_slot_def slot_at_def set_slot_def split: if_splits option.splits)

lemma user_bytes_put:
  assumes "n \<le> length bs" "length bs < 2 ^ 64"
  shows "user_bytes (put_user ptr bs k) ptr n = take n bs"
proof (rule nth_equalityI)
  fix j assume "j < length (user_bytes (put_user ptr bs k) ptr n)"
  then have j: "j < n" by simp
  then have "unat (of_nat j :: u64) = j" using assms by (intro unat_of_nat_exact) simp
  then show "user_bytes (put_user ptr bs k) ptr n ! j = take n bs ! j"
    using j assms by (simp add: user_bytes_def put_user_def Let_def)
qed (use assms in simp)

lemma fs_read_at_slice:
  assumes "medium D ok img" "ok (mt_disk m)" "parse_boot first = Inr (mt_boot m)"
    "file_contents (mt_boot m) (img (mt_disk m)) e = Some bs" "clusters_for (mt_boot m) (unat (de_size e)) \<le> unat (clusters (mt_boot m)) + 1"
    "fs_read_at D e offset into (Some m) = (Inr (got, into'), disk')"
  shows "got = min (length bs - unat offset) (length into) \<and> take got into' = take got (drop (unat offset) bs) \<and>
    length bs = unat (de_size e)"
proof -
  note med = fs_medium [OF assms(1), of "mt_boot m" "mt_ours m"]
  obtain m' where r: "read_at (fs_sectors D) (mt_boot m) e offset into m = (Inr (got, into'), m')"
    using assms(6) by (auto simp: fs_read_at_def io_bind_Inr_iff with_volume_def io_lift_def map_err_Inr_iff split: prod.splits)
  have "mounted_as ok (mt_boot m) (mt_ours m) m" using assms(2) by (simp add: mounted_as_def)
  then have i: "read_at (image_sectors :: (image, read_error) sectors) (mt_boot m) e offset into (img (mt_disk m)) =
      (Inr (got, into'), img (mt_disk m'))"
    using medium.sim_read_at [OF med, unfolded medium.sim_def [OF med]] r by fastforce
  have ok: "boot_ok (mt_boot m)" "image_ok (img (mt_disk m))"
    using parse_boot_ok [OF assms(3)] medium.img_ok [OF assms(1,2)] by auto
  have len: "length bs = unat (de_size e)" by (rule length_file_contents [OF ok assms(4)])
  let ?n = "min (unat (de_size e) - unat offset) (length into)"
  have "got = ?n" "into' = copy_at into 0 (take ?n (drop (unat offset) bs))"
    using read_at_image [where 'e = read_error, OF ok assms(5,4), of offset into] i by auto
  then show ?thesis using len by (simp add: copy_at_def min_def)
qed

text \<open>A \<open>read\<close> that was not answered with an error, step by step.\<close>

lemma sys_read_succeeds:
  assumes "sys_read hw r f k = Inr (Returns f', k')" "0 \<le> sint (rax f')" "running_slot (k_sched k) = Some held"
    "open_at (open_table (sl_process held)) (unat (rdi f)) = Some file"
  defines "s \<equiv> set_slot (current (k_sched k)) held (k_sched k)"
  obtains got into' disk' where
    "fs_read_at (hw_disk hw) (of_entry file) (of_position file) (user_bytes k (rsi f) (unat (rdx f))) (k_disk k) =
      (Inr (got, into'), disk')"
    "f' = f\<lparr>rax := of_nat got\<rparr>"
    "k' = put_user (rsi f) into' (with_sched (snd (with_running (\<lambda>p. ((), p\<lparr>open_table := update_at (unat (rdi f))
       (\<lambda>o'. o'\<lparr>of_position := saturating_add (of_position o') (of_nat got)\<rparr>) (open_table p)\<rparr>)) s)) (k\<lparr>k_disk := disk'\<rparr>))"
proof -
  have neg: "refuse e f j \<noteq> Inr (Returns f', k')" if "is_error e" for e j
    using that sint_word_error [of e] assms(2) by (auto simp: is_error_def)
  have w: "with_running (\<lambda>p. (open_at (open_table p) (unat (rdi f)), p)) (k_sched k) = (Some (Some file), s)"
    using with_running_held [OF assms(3), of "\<lambda>p. (open_at (open_table p) (unat (rdi f)), p)"] assms(4) by (simp add: s_def)
  show thesis
  proof (cases "fs_read_at (hw_disk hw) (of_entry file) (of_position file) (user_bytes k (rsi f) (unat (rdx f))) (k_disk k)")
    case (Pair res disk')
    show thesis
    proof (cases res)
      case (Inl e)
      then show thesis using assms(1) w Pair neg [OF err_are_errors(2)] neg [OF number_for_error [of e]]
        by (simp add: sys_read_def Let_def del: refuse_Inr_iff split: if_splits)
    next
      case (Inr x)
      obtain got into' where x: "x = (got, into')" by fastforce
      show thesis
      proof (rule that)
        show "fs_read_at (hw_disk hw) (of_entry file) (of_position file) (user_bytes k (rsi f) (unat (rdx f))) (k_disk k) =
          (Inr (got, into'), disk')" using Pair Inr x by simp
      qed (use assms(1) w Pair Inr x neg [OF err_are_errors(2)] in
          \<open>auto simp: sys_read_def Let_def simp del: refuse_Inr_iff split: if_splits prod.splits\<close>)
    qed
  qed
qed

text \<open>
  C24. A loop of \<open>read\<close> reads the file: on a volume whose chain for an open file can be followed, every
  \<open>read\<close> that is not answered with an error fills the buffer with the bytes that come next in the
  file, as many as are left and fit, says how many, and leaves the descriptor exactly that much
  further; 0 means that the file has ended. It holds on every device that follows the interface.
\<close>

theorem read_call_reads_on:
  assumes "medium (hw_disk hw) ok img" "k_disk k = Some m" "ok (mt_disk m)" "parse_boot first = Inr (mt_boot m)"
    "running_slot (k_sched k) = Some held" "open_at (open_table (sl_process held)) (unat (rdi f)) = Some file"
    "file_contents (mt_boot m) (img (mt_disk m)) (of_entry file) = Some bs"
    "clusters_for (mt_boot m) (unat (de_size (of_entry file))) \<le> unat (clusters (mt_boot m)) + 1"
    "rax f = 6" "handle hw f k = Inr (Returns f', k')" "0 \<le> sint (rax f')"
  shows "\<exists>n held'. n = min (length bs - unat (of_position file)) (unat (rdx f)) \<and> rax f' = of_nat n \<and>
    user_bytes k' (rsi f) n = take n (drop (unat (of_position file)) bs) \<and> running_slot (k_sched k') = Some held' \<and>
    open_at (open_table (sl_process held')) (unat (rdi f)) = Some (file\<lparr>of_position := of_position file + of_nat n\<rparr>)"
proof -
  obtain r where r: "running (k_sched k) = Some r" using assms(5) by (simp add: running_def)
  let ?d = "unat (rdi f)" and ?p = "of_position file" and ?into = "user_bytes k (rsi f) (unat (rdx f))"
  have call: "sys_read hw r f k = Inr (Returns f', k')" using assms(9,10) r by (simp add: handle_def serve_def call_from_def)
  let ?s = "set_slot (current (k_sched k)) held (k_sched k)"
  have s: "running_slot ?s = Some held" using running_slot_set [OF assms(5), of "sl_process held"] by simp
  obtain got into' disk' where g: "fs_read_at (hw_disk hw) (of_entry file) ?p ?into (Some m) = (Inr (got, into'), disk')"
    and f': "f' = f\<lparr>rax := of_nat got\<rparr>"
    and k0: "k' = put_user (rsi f) into' (with_sched (snd (with_running (\<lambda>p. ((), p\<lparr>open_table := update_at (unat (rdi f))
       (\<lambda>o'. o'\<lparr>of_position := saturating_add (of_position o') (of_nat got)\<rparr>) (open_table p)\<rparr>)) ?s)) (k\<lparr>k_disk := disk'\<rparr>))"
    by (rule sys_read_succeeds [OF call assms(11,5,6), unfolded assms(2)])
  let ?t = "update_at ?d (\<lambda>o'. o'\<lparr>of_position := saturating_add (of_position o') (of_nat got)\<rparr>) (open_table (sl_process held))"
  let ?held = "held\<lparr>sl_process := (sl_process held)\<lparr>open_table := ?t\<rparr>\<rparr>"
  have k': "k' = put_user (rsi f) into' (with_sched (set_slot (current ?s) ?held ?s) (k\<lparr>k_disk := disk'\<rparr>))"
    unfolding k0 with_running_held [OF s] by simp
  note slice = fs_read_at_slice [OF assms(1,3,4,7,8) g]
  have len: "length into' = unat (rdx f)" "got \<le> unat (rdx f)" using fs_read_at_length [OF g] by simp_all
  have "unat ?p + got < 2 ^ 32"
    using slice unat_u32_bound [of ?p] unat_u32_bound [of "de_size (of_entry file)"] by (auto simp: min_def split: if_splits)
  moreover from this have "unat (of_nat got :: u32) = got" by (intro unat_of_nat_exact) simp
  ultimately have "saturating_add ?p (of_nat got) = ?p + of_nat got" by (simp add: saturating_add_def)
  then have "open_at ?t ?d = Some (file\<lparr>of_position := ?p + of_nat got\<rparr>)"
    using assms(6) by (auto simp: update_at_def open_at_def get_at_def split: if_splits option.splits)
  moreover have "running_slot (k_sched k') = Some ?held"
    using running_slot_set [OF s, of "(sl_process held)\<lparr>open_table := ?t\<rparr>"] by (simp add: k')
  moreover have "user_bytes k' (rsi f) got = take got into'"
    unfolding k' by (rule user_bytes_put) (use len unat_u64_bound [of "rdx f"] in auto)
  moreover have "got = min (length bs - unat ?p) (unat (rdx f))" "take got into' = take got (drop (unat ?p) bs)" using slice by (auto simp only: user_bytes_length)
  ultimately have "got = min (length bs - unat ?p) (unat (rdx f)) \<and> rax f' = of_nat got \<and>
    user_bytes k' (rsi f) got = take got (drop (unat ?p) bs) \<and> running_slot (k_sched k') = Some ?held \<and>
    open_at (open_table (sl_process ?held)) ?d = Some (file\<lparr>of_position := ?p + of_nat got\<rparr>)" using f' by simp
  then show ?thesis by blast
qed

definition sample_reading :: "u64 machine" where
  "sample_reading = (boot_machine 3)\<lparr>sched := \<lparr>slots = [Some (sample_waiting\<lparr>sl_process := (sl_process sample_waiting)\<lparr>
     open_table := [Some \<lparr>of_entry = sample_file, of_position = 3\<rparr>]\<rparr>\<rparr>)], current = 0, switching = False, handed_over = True\<rparr>,
     cr3 := 7, on_stack_of := Some 0\<rparr>"

lemma sample_reads:
  "fs_read_at image_sectors sample_file 3 (replicate 4 0) (Some sample_mounted) =
     (Inr (2, replicate 2 65 @ replicate 2 0), Some sample_mounted)"
proof -
  have "read_at (fs_sectors image_sectors) sample_boot sample_file 3 (replicate 4 0) sample_mounted =
      (Inr (2, replicate 2 65 @ replicate 2 0), sample_mounted)"
    by (simp add: sample_mounted_def read_at_def sample_file_def Let_def sample_boot_def SECTOR_BYTES_def read_at_loop.simps
        sector_of_cluster_def first_data_sector_def first_fat_sector_def FIRST_DATA_CLUSTER_def vread_def io_map_err_def io_bind_def
        fs_sectors_def image_sectors_def sample_image_def copy_at_def)
  then show ?thesis by (simp add: fs_read_at_def io_bind_def with_volume_def io_lift_def) (simp add: sample_mounted_def)
qed

theorem read_call_reads_on_witness:
  "\<exists>f' k'. handle sample_hw \<lparr>rax = 6, rdi = 0, rsi = 0x500000, rdx = 4, r10 = 0\<rparr> (sample_kernel sample_reading) =
     Inr (Returns f', k') \<and> rax f' = 2 \<and> user_bytes k' 0x500000 2 = [65, 65]"
proof -
  let ?f = "\<lparr>rax = 6, rdi = 0, rsi = 0x500000, rdx = 4, r10 = 0\<rparr>" and ?k = "sample_kernel sample_reading"
  let ?p = "(sl_process sample_waiting)\<lparr>open_table := [Some \<lparr>of_entry = sample_file, of_position = 3\<rparr>]\<rparr>"
  have held: "running_slot (k_sched ?k) = Some (sample_waiting\<lparr>sl_process := ?p\<rparr>)"
    by (simp add: running_slot_def sample_kernel_def sample_reading_def slot_at_def sample_waiting_def)
  have run: "running (k_sched ?k) = Some sample_running"
    unfolding running_def held by (simp add: sample_running_def ranges_def writable_ranges_def sample_kernel_def sample_reading_def)
  have own: "running_owns_writable sample_running 0x500000 4"
    by (simp add: running_owns_writable_def sample_running_def fixed_def sample_waiting_def owned_by_def checked_add_def
        range_end_def word_le_nat_alt phys_add_def phys_checked_add_def)
  have bytes: "user_bytes ?k 0x500000 4 = replicate 4 0" by (simp add: user_bytes_def sample_kernel_def map_replicate_const)
  have o': "open_at (open_table ?p) 0 = Some \<lparr>of_entry = sample_file, of_position = 3\<rparr>" by (simp add: open_at_def get_at_def)
  have "\<exists>k'. handle sample_hw ?f ?k = Inr (Returns (?f\<lparr>rax := 2\<rparr>), k')"
    using own bytes sample_reads o' run
    by (simp add: handle_def serve_def call_from_def sys_read_def MAX_READ_def with_running_held [OF held])
       (simp add: sample_kernel_def sample_hw_def answer_def case_prod_beta)
  then obtain k' where h: "handle sample_hw ?f ?k = Inr (Returns (?f\<lparr>rax := 2\<rparr>), k')" by blast
  have med: "medium (hw_disk sample_hw) image_ok (\<lambda>i. i)" using plain.medium_axioms by (simp add: sample_hw_def)
  have disk: "k_disk ?k = Some sample_mounted" "image_ok (mt_disk sample_mounted)" "parse_boot sample_boot_bytes = Inr (mt_boot sample_mounted)"
    "file_contents (mt_boot sample_mounted) (mt_disk sample_mounted) sample_file = Some (replicate 5 65)"
    "clusters_for (mt_boot sample_mounted) (unat (de_size sample_file)) \<le> unat (clusters (mt_boot sample_mounted)) + 1"
    using sample_image_ok sample_boot_parses sample_contents
    by (simp_all add: sample_kernel_def sample_mounted_def) (simp add: sample_file_def clusters_for_def sample_boot_def)
  have "\<exists>n held'. n = min (length (replicate 5 (65 :: u8)) - unat (3 :: u32)) (unat (rdx ?f)) \<and> rax (?f\<lparr>rax := 2\<rparr>) = of_nat n \<and>
    user_bytes k' (rsi ?f) n = take n (drop (unat (3 :: u32)) (replicate 5 65)) \<and> running_slot (k_sched k') = Some held' \<and>
    open_at (open_table (sl_process held')) (unat (rdi ?f)) = Some \<lparr>of_entry = sample_file, of_position = 3 + of_nat n\<rparr>"
    using read_call_reads_on [of sample_hw image_ok "\<lambda>i. i" ?k sample_mounted sample_boot_bytes "sample_waiting\<lparr>sl_process := ?p\<rparr>" ?f
        "\<lparr>of_entry = sample_file, of_position = 3\<rparr>" "replicate 5 65" "?f\<lparr>rax := 2\<rparr>" k', OF med disk(1-3) held _ _ _ _ h]
      o' disk(4,5) by simp
  then have "user_bytes k' 0x500000 2 = replicate 2 65" by auto
  also have "replicate 2 (65 :: u8) = [65, 65]" by (simp add: numeral_2_eq_2)
  finally have "user_bytes k' 0x500000 2 = [65, 65]" .
  then show ?thesis using h by (intro exI [of _ "?f\<lparr>rax := 2\<rparr>"] exI [of _ k']) simp
qed

end
