(* ===== verification/Paging_Safe.thy ===== *)
theory Paging_Safe
  imports Paging
begin

text \<open>
  What the page mapper promises. The tables of a space form a tree: no table is reached by two paths.
  In such a tree an operation that writes one leaf changes one translation, an operation that only
  links empty tables changes none, and the two together are \<open>map\<close> and \<open>unmap\<close>. The allocator is used
  through the contract \<open>frame_source\<close>, extended by the width of a physical address.
\<close>

section \<open>Entries\<close>

lemma mask_or: "a AND ADDRESS_MASK = a \<Longrightarrow> c AND ADDRESS_MASK = 0 \<Longrightarrow> (a OR c) AND ADDRESS_MASK = a"
  by (simp add: bit.conj_disj_distrib2)

lemma and_or_flag: "(a OR c) AND f = (a AND f) OR (c AND f)" for a c f :: u64
  by (simp add: bit.conj_disj_distrib2)

lemma masked_flags:
  assumes "a AND ADDRESS_MASK = a" "f AND ADDRESS_MASK = 0"
  shows "a AND f = (0 :: u64)"
proof -
  have "a AND f = a AND (f AND ADDRESS_MASK)" using assms(1) by (metis and.assoc and.commute)
  then show ?thesis using assms(2) by simp
qed

lemma flags_outside [simp]: "PRESENT AND ADDRESS_MASK = 0" "WRITABLE AND ADDRESS_MASK = 0" "USER AND ADDRESS_MASK = 0"
  "HUGE AND ADDRESS_MASK = 0" "NO_EXECUTE AND ADDRESS_MASK = 0" "cache_bits c AND ADDRESS_MASK = 0"
  by (simp_all add: paging_bits) (cases c; simp add: paging_bits)

definition next_of :: "table_memory \<Rightarrow> u64 \<Rightarrow> usize \<Rightarrow> u64 option" where
  "next_of m t i =
     (let e = entries m t i in if e AND PRESENT = 0 \<or> e AND HUGE \<noteq> 0 then None else Some (e AND ADDRESS_MASK))"

lemma pt_write_simps [simp]:
  "entries (pt_write t i v m) = (entries m)(t := (entries m t)(i := v))"
  "table_window (pt_write t i v m) = table_window m" "flushed (pt_write t i v m) = flushed m"
  by (simp_all add: pt_write_def)

lemma pt_flush_simps [simp]: "entries (pt_flush x m) = entries m" "table_window (pt_flush x m) = table_window m"
  by (simp_all add: pt_flush_def)

section \<open>Trees of tables\<close>

text \<open>
  The tables below \<open>t\<close> (itself included) with \<open>n\<close> levels under it, and that they form a tree whose
  inner entries forbid neither writing nor execution.
\<close>

fun sub :: "table_memory \<Rightarrow> nat \<Rightarrow> u64 \<Rightarrow> u64 set" where
  "sub m 0 t = {t}"
| "sub m (Suc n) t = insert t (\<Union>i \<in> {..<ENTRIES}. case next_of m t i of None \<Rightarrow> {} | Some a \<Rightarrow> sub m n a)"

fun tree :: "table_memory \<Rightarrow> nat \<Rightarrow> u64 \<Rightarrow> bool" where
  "tree m 0 t = True"
| "tree m (Suc n) t \<longleftrightarrow>
     (\<forall>i < ENTRIES. \<forall>a. next_of m t i = Some a \<longrightarrow> entries m t i AND WRITABLE \<noteq> 0 \<and> entries m t i AND NO_EXECUTE = 0 \<and>
        t \<notin> sub m n a \<and> tree m n a) \<and>
     (\<forall>i < ENTRIES. \<forall>j < ENTRIES. \<forall>a b. i \<noteq> j \<longrightarrow> next_of m t i = Some a \<longrightarrow> next_of m t j = Some b \<longrightarrow> sub m n a \<inter> sub m n b = {})"

definition below :: "table_memory \<Rightarrow> nat \<Rightarrow> u64 \<Rightarrow> usize \<Rightarrow> u64 set" where
  "below m n t i = (case next_of m t i of None \<Rightarrow> {} | Some a \<Rightarrow> sub m n a)"

lemma sub_below: "sub m (Suc n) t = insert t (\<Union>i \<in> {..<ENTRIES}. below m n t i)"
  by (simp add: below_def)

lemma sub_self [simp]: "t \<in> sub m n t"
  by (cases n) auto

lemma sub_child: "i < ENTRIES \<Longrightarrow> next_of m t i = Some a \<Longrightarrow> sub m n a \<subseteq> sub m (Suc n) t"
  by force

lemma next_of_cong: "entries m' t = entries m t \<Longrightarrow> next_of m' t = next_of m t"
  by (auto simp: next_of_def fun_eq_iff)

lemma sub_cong: "(\<And>x. x \<in> sub m n t \<Longrightarrow> entries m' x = entries m x) \<Longrightarrow> sub m' n t = sub m n t"
proof (induction n arbitrary: t)
  case (Suc n)
  have nx: "next_of m' t = next_of m t" using Suc.prems by (intro next_of_cong) simp
  have "sub m' n a = sub m n a" if "i < ENTRIES" "next_of m t i = Some a" for i a
    using sub_child [OF that] Suc.prems by (intro Suc.IH) blast
  then show ?case by (auto simp: nx split: option.splits)
qed simp

lemma treeD:
  assumes "tree m (Suc n) t" "i < ENTRIES" "next_of m t i = Some a"
  shows "entries m t i AND WRITABLE \<noteq> 0" "entries m t i AND NO_EXECUTE = 0" "t \<notin> sub m n a" "tree m n a"
    "j < ENTRIES \<Longrightarrow> i \<noteq> j \<Longrightarrow> next_of m t j = Some b \<Longrightarrow> sub m n a \<inter> sub m n b = {}"
  using assms by simp_all

lemma treeI:
  assumes "\<And>i a. i < ENTRIES \<Longrightarrow> next_of m t i = Some a \<Longrightarrow>
      entries m t i AND WRITABLE \<noteq> 0 \<and> entries m t i AND NO_EXECUTE = 0 \<and> t \<notin> sub m n a \<and> tree m n a"
    and "\<And>i j a b. i < ENTRIES \<Longrightarrow> j < ENTRIES \<Longrightarrow> i \<noteq> j \<Longrightarrow> next_of m t i = Some a \<Longrightarrow> next_of m t j = Some b \<Longrightarrow>
      sub m n a \<inter> sub m n b = {}"
  shows "tree m (Suc n) t"
  using assms by simp

lemma tree_cong: "tree m n t \<Longrightarrow> (\<And>x. x \<in> sub m n t \<Longrightarrow> entries m' x = entries m x) \<Longrightarrow> tree m' n t"
proof (induction n arbitrary: t)
  case (Suc n)
  have e: "entries m' t = entries m t" using Suc.prems by simp
  have nx: "next_of m' t = next_of m t" using e by (rule next_of_cong)
  have in_child: "\<And>x. x \<in> sub m n a \<Longrightarrow> entries m' x = entries m x" if "i < ENTRIES" "next_of m t i = Some a" for i a
    using sub_child [OF that] Suc.prems(2) by blast
  have same: "sub m' n a = sub m n a" "tree m' n a" if "i < ENTRIES" "next_of m t i = Some a" for i a
    using Suc.IH [OF treeD(4) [OF Suc.prems(1) that] in_child [OF that]] sub_cong [OF in_child [OF that]] by auto
  show ?case
  proof (rule treeI)
    show "entries m' t i AND WRITABLE \<noteq> 0 \<and> entries m' t i AND NO_EXECUTE = 0 \<and> t \<notin> sub m' n a \<and> tree m' n a"
      if "i < ENTRIES" "next_of m' t i = Some a" for i a
      using treeD(1-3) [OF Suc.prems(1)] same that by (simp add: e nx)
    show "sub m' n a \<inter> sub m' n b = {}"
      if "i < ENTRIES" "j < ENTRIES" "i \<noteq> j" "next_of m' t i = Some a" "next_of m' t j = Some b" for i j a b
      using treeD(5) [OF Suc.prems(1)] same that by (simp add: nx)
  qed
qed simp

text \<open>The walk of \<open>translate\<close> from a table with \<open>n\<close> levels under it.\<close>

definition tr :: "table_memory \<Rightarrow> u64 \<Rightarrow> nat \<Rightarrow> u64 \<Rightarrow> bool \<Rightarrow> usize list \<Rightarrow> translation option" where
  "tr m va n t w is = translate_from m va (3 - n) t w is"

lemma translate_tr: "translate m root va = (if is_canonical va then tr m va 3 root True (table_indices va) else None)"
  by (simp add: translate_def tr_def)

definition path :: "nat \<Rightarrow> usize list \<Rightarrow> bool" where
  "path n is \<longleftrightarrow> length is = n \<and> (\<forall>i \<in> set is. i < ENTRIES)"

lemma path_simps [simp]: "path 0 is \<longleftrightarrow> is = []" "path (Suc n) (i # is) \<longleftrightarrow> i < ENTRIES \<and> path n is" "\<not> path (Suc n) []"
  by (auto simp: path_def)

lemma tr_step:
  assumes "n < 3"
  shows "tr m va (Suc n) t w (i # is) =
    (let e = entries m t i in
     case next_of m t i of
       Some a \<Rightarrow> tr m va n a (w \<and> e AND WRITABLE \<noteq> 0) is
     | None \<Rightarrow>
         if e AND PRESENT = 0 \<or> n = 2 then None
         else let size = push_bit (39 - 9 * (2 - n)) 1
           in Some \<lparr>tr_phys = (e AND ADDRESS_MASK AND NOT (size - 1)) + (va AND (size - 1)),
                tr_writable = (w \<and> e AND WRITABLE \<noteq> 0), tr_page_size = size\<rparr>)"
proof -
  consider "n = 0" | "n = 1" | "n = 2" using assms by linarith
  then show ?thesis by cases (auto simp: tr_def next_of_def Let_def numeral_2_eq_2 numeral_3_eq_3)
qed

lemma tr_cong:
  assumes "n \<le> 3" "path (Suc n) is" "\<And>x. x \<in> sub m n t \<Longrightarrow> entries m' x = entries m x"
  shows "tr m' va n t w is = tr m va n t w is"
  using assms
proof (induction n arbitrary: t w "is")
  case 0
  then show ?case by (cases "is") (auto simp: path_def tr_def Let_def)
next
  case (Suc n)
  obtain i js where i: "is = i # js" "i < ENTRIES" "path (Suc n) js" using Suc.prems(2) by (cases "is") auto
  have e: "entries m' t = entries m t" using Suc.prems(3) by simp
  have "tr m' va n a w' js = tr m va n a w' js" if "next_of m t i = Some a" for a w'
    using sub_child [OF i(2) that] Suc.prems(1,3) by (intro Suc.IH [OF _ i(3)]) auto
  then show ?case using Suc.prems(1)
    by (cases "next_of m t i") (simp_all add: i(1) tr_step next_of_cong [OF e] e Let_def)
qed

text \<open>
  One entry of a table changes to point at a subtree whose tables are not among those of the other
  entries: the tree stays a tree, and what the other entries lead to stays what it was.
\<close>

lemma graft:
  assumes "tree m (Suc n) t" "i < ENTRIES" "entries m' t = (entries m t)(i := e)"
    "next_of m' t i = Some a" "e AND WRITABLE \<noteq> 0" "e AND NO_EXECUTE = 0" "tree m' n a" "sub m' n a \<subseteq> S" "t \<notin> S"
    and oth: "\<forall>j b. j < ENTRIES \<longrightarrow> j \<noteq> i \<longrightarrow> next_of m t j = Some b \<longrightarrow> sub m n b \<inter> S = {}"
    and unch: "\<forall>x. x \<noteq> t \<longrightarrow> x \<notin> S \<longrightarrow> entries m' x = entries m x"
  shows "tree m' (Suc n) t" "sub m' (Suc n) t \<subseteq> sub m (Suc n) t \<union> S"
    "\<And>j js va w. n < 3 \<Longrightarrow> path (Suc (Suc n)) (j # js) \<Longrightarrow> j \<noteq> i \<Longrightarrow> tr m' va (Suc n) t w (j # js) = tr m va (Suc n) t w (j # js)"
proof -
  note others = oth [rule_format] and unchanged = unch [rule_format]
  have nx: "next_of m' t j = next_of m t j" "entries m' t j = entries m t j" if "j \<noteq> i" for j
    using assms(3) that by (simp_all add: next_of_def)
  have in_child: "entries m' x = entries m x" if "j < ENTRIES" "j \<noteq> i" "next_of m t j = Some b" "x \<in> sub m n b" for j b x
    using others [OF that(1-3)] treeD(3) [OF assms(1) that(1,3)] that(4) by (intro unchanged) auto
  have same: "sub m' n b = sub m n b" "tree m' n b" if "j < ENTRIES" "j \<noteq> i" "next_of m t j = Some b" for j b
    using in_child [OF that] sub_cong tree_cong [OF treeD(4) [OF assms(1) that(1,3)]] by blast+
  show "tree m' (Suc n) t"
  proof (rule treeI)
    fix j b assume j: "j < ENTRIES" "next_of m' t j = Some b"
    show "entries m' t j AND WRITABLE \<noteq> 0 \<and> entries m' t j AND NO_EXECUTE = 0 \<and> t \<notin> sub m' n b \<and> tree m' n b"
    proof (cases "j = i")
      case True
      then show ?thesis using assms(3-9) j(2) by auto
    next
      case False
      then show ?thesis using treeD(1-3) [OF assms(1) j(1)] same [OF j(1) False] j(2) nx [OF False] by simp
    qed
  next
    fix j k b c assume jk: "j < ENTRIES" "k < ENTRIES" "j \<noteq> k" "next_of m' t j = Some b" "next_of m' t k = Some c"
    show "sub m' n b \<inter> sub m' n c = {}"
    proof (cases "j = i")
      case True
      then have k: "k \<noteq> i" "b = a" using jk(3,4) assms(4) by auto
      have c: "next_of m t k = Some c" using nx(1) [OF k(1)] jk(5) by simp
      show ?thesis using others [OF jk(2) k(1) c] same(1) [OF jk(2) k(1) c] k(2) assms(8) by auto
    next
      case False
      have b: "next_of m t j = Some b" using nx(1) [OF False] jk(4) by simp
      note j = same(1) [OF jk(1) False b] nx(1) [OF False]
      show ?thesis
      proof (cases "k = i")
        case True
        then show ?thesis using others [OF jk(1) False b] j jk(5) assms(4,8) by auto
      next
        case False
        then show ?thesis using treeD(5) [OF assms(1) jk(1) _ jk(2,3)] same(1) [OF jk(2) False] nx(1) [OF False] j jk(4,5) by simp
      qed
    qed
  qed
  show "sub m' (Suc n) t \<subseteq> sub m (Suc n) t \<union> S"
  proof
    fix x assume "x \<in> sub m' (Suc n) t"
    then consider "x = t" | j b where "j < ENTRIES" "next_of m' t j = Some b" "x \<in> sub m' n b"
      by (auto split: option.splits)
    then show "x \<in> sub m (Suc n) t \<union> S"
    proof cases
      case 2
      then show ?thesis
      proof (cases "j = i")
        case False
        then show ?thesis using 2 same(1) [OF 2(1) False] nx(1) [OF False] sub_child [OF 2(1), of m t b n] by auto
      qed (use assms(4,8) 2 in auto)
    qed simp
  qed
  show "tr m' va (Suc n) t w (j # js) = tr m va (Suc n) t w (j # js)"
    if "n < 3" "path (Suc (Suc n)) (j # js)" "j \<noteq> i" for j js va w
  proof -
    have "tr m' va n b w' js = tr m va n b w' js" if "next_of m t j = Some b" for b w'
      using \<open>n < 3\<close> \<open>path (Suc (Suc n)) (j # js)\<close> in_child [OF _ \<open>j \<noteq> i\<close> that] by (intro tr_cong) auto
    then show ?thesis using that(1) nx [OF that(3)] by (cases "next_of m t j") (simp_all add: tr_step Let_def)
  qed
qed

section \<open>Walks to a leaf\<close>

fun walk :: "table_memory \<Rightarrow> u64 \<Rightarrow> usize list \<Rightarrow> u64 option" where
  "walk m t [] = Some t"
| "walk m t (i # is) = (case next_of m t i of None \<Rightarrow> None | Some a \<Rightarrow> walk m a is)"

text \<open>A property of every entry on the way.\<close>

fun path_all :: "(u64 \<Rightarrow> bool) \<Rightarrow> table_memory \<Rightarrow> u64 \<Rightarrow> usize list \<Rightarrow> bool" where
  "path_all P m t [] = True"
| "path_all P m t (i # is) \<longleftrightarrow> P (entries m t i) \<and> path_all P m (entries m t i AND ADDRESS_MASK) is"

definition leaf_translation :: "u64 \<Rightarrow> u64 \<Rightarrow> translation option" where
  "leaf_translation v va =
     (if v AND PRESENT = 0 then None
      else Some \<lparr>tr_phys = (v AND ADDRESS_MASK AND NOT 0xFFF) + (va AND 0xFFF), tr_writable = (v AND WRITABLE \<noteq> 0), tr_page_size = 0x1000\<rparr>)"

lemma tr_leaf: "tr m va 0 t True [i] = leaf_translation (entries m t i) va"
  by (simp add: tr_def leaf_translation_def Let_def)

lemma tr_walk:
  assumes "n \<le> 3" "tree m n t" "path n is" "i < ENTRIES" "walk m t is = Some leaf"
  shows "tr m va n t True (is @ [i]) = leaf_translation (entries m leaf i) va"
  using assms
proof (induction n arbitrary: t "is")
  case 0
  then show ?case using tr_leaf [of m va t i] by simp
next
  case (Suc n)
  obtain j js a where j: "is = j # js" "j < ENTRIES" "path n js" "next_of m t j = Some a" "walk m a js = Some leaf"
    using Suc.prems(3,5) by (cases "is") (auto split: option.splits)
  have "tr m va n a True (js @ [i]) = leaf_translation (entries m leaf i) va"
    using Suc.IH [OF _ treeD(4) [OF Suc.prems(2) j(2,4)] j(3) Suc.prems(4) j(5)] Suc.prems(1) by simp
  then show ?case using j treeD(1) [OF Suc.prems(2) j(2,4)] Suc.prems(1) by (simp add: tr_step Let_def)
qed

lemma walk_in_sub: "path n is \<Longrightarrow> walk m t is = Some leaf \<Longrightarrow> leaf \<in> sub m n t"
proof (induction n arbitrary: t "is")
  case (Suc n)
  obtain j js a where j: "is = j # js" "j < ENTRIES" "path n js" "next_of m t j = Some a" "walk m a js = Some leaf"
    using Suc.prems by (cases "is") (auto split: option.splits)
  show ?case using Suc.IH [OF j(3,5)] sub_child [OF j(2,4)] by blast
qed simp

text \<open>Writing the leaf a path leads to changes what that path translates to, and nothing else.\<close>

lemma write_leaf:
  fixes v :: u64
  assumes "n \<le> 3" "tree m n t" "path n is" "i < ENTRIES" "walk m t is = Some leaf"
  defines "m' \<equiv> pt_write leaf i v m"
  shows "tree m' n t \<and> sub m' n t \<subseteq> sub m n t \<and> walk m' t is = Some leaf \<and>
    (\<forall>js va w. path (Suc n) js \<longrightarrow> js \<noteq> is @ [i] \<longrightarrow> tr m' va n t w js = tr m va n t w js)"
  using assms(1-5)
proof (induction n arbitrary: t "is")
  case 0
  then have "tr m' va 0 t w js = tr m va 0 t w js" if "path (Suc 0) js" "js \<noteq> [i]" for js va w
    using that by (cases js) (auto simp: tr_def m'_def Let_def path_def)
  then show ?case using 0 by simp
next
  case (Suc n)
  obtain j js a where j: "is = j # js" "j < ENTRIES" "path n js" "next_of m t j = Some a" "walk m a js = Some leaf"
    using Suc.prems(3,5) by (cases "is") (auto split: option.splits)
  note T = Suc.prems(2)
  have IH: "tree m' n a" "sub m' n a \<subseteq> sub m n a" "walk m' a js = Some leaf"
    "\<And>ks va w. path (Suc n) ks \<Longrightarrow> ks \<noteq> js @ [i] \<Longrightarrow> tr m' va n a w ks = tr m va n a w ks"
    using Suc.IH [OF _ treeD(4) [OF T j(2,4)] j(3) Suc.prems(4) j(5)] Suc.prems(1) by auto
  have leaf: "leaf \<in> sub m n a" by (rule walk_in_sub [OF j(3,5)])
  then have t: "entries m' t = (entries m t)(j := entries m t j)" using treeD(3) [OF T j(2,4)] by (auto simp: m'_def)
  then have nx: "next_of m' t j = Some a" using j(4) by (simp add: next_of_def)
  note G = graft [OF T j(2) t nx treeD(1,2) [OF T j(2,4)] IH(1,2) treeD(3) [OF T j(2,4)]]
  have oth: "\<forall>k b. k < ENTRIES \<longrightarrow> k \<noteq> j \<longrightarrow> next_of m t k = Some b \<longrightarrow> sub m n b \<inter> sub m n a = {}"
    using treeD(5) [OF T j(2,4)] by blast
  have unch: "\<forall>x. x \<noteq> t \<longrightarrow> x \<notin> sub m n a \<longrightarrow> entries m' x = entries m x" using leaf by (auto simp: m'_def)
  have tree: "tree m' (Suc n) t" "sub m' (Suc n) t \<subseteq> sub m (Suc n) t"
    using G(1,2) [OF oth unch] sub_child [OF j(2,4), of n] by blast+
  have "tr m' va (Suc n) t w ks = tr m va (Suc n) t w ks" if "path (Suc (Suc n)) ks" "ks \<noteq> is @ [i]" for ks va w
  proof (cases ks)
    case (Cons k ls)
    show ?thesis
    proof (cases "k = j")
      case True
      then have ls: "path (Suc n) ls" "ls \<noteq> js @ [i]" using that j(1) Cons by auto
      have "next_of m' t j = next_of m t j" "entries m' t j = entries m t j" using nx j(4) t by simp_all
      then show ?thesis using IH(4) [OF ls] j(4) Suc.prems(1) True by (simp add: Cons tr_step Let_def)
    next
      case False
      then show ?thesis using G(3) [OF oth unch _ _ False] that Cons Suc.prems(1) by auto
    qed
  qed (use that in simp)
  then show ?case using tree IH(3) nx j(1) by simp
qed

section \<open>Taking tables from an allocator\<close>

text \<open>The contract of the allocator, with frames a table entry can name.\<close>

locale table_frames = frame_source +
  assumes addressable: "source_inv s \<Longrightarrow> n \<in> available s \<Longrightarrow> n < 2 ^ 40"
begin

definition fresh :: "'a \<Rightarrow> u64 set" where
  "fresh s = {a. a mod 4096 = 0 \<and> unat (a div 4096) \<in> available s}"

lemma fresh_masked:
  assumes "source_inv s" "a \<in> fresh s"
  shows "a AND ADDRESS_MASK = a"
proof (rule bit_word_eqI)
  fix i assume i: "i < LENGTH(64)"
  have al: "\<not> bit a i" if "i < 12"
  proof -
    have "a mod 2 ^ 12 = 0" using assms(2) by (simp add: fresh_def)
    then have "take_bit 12 a = 0" by (simp add: take_bit_eq_mod)
    then show ?thesis using that by (metis bit_0_eq bit_take_bit_iff bot_apply bot_bool_def)
  qed
  have hi: "\<not> bit a i" if "52 \<le> i"
  proof -
    have "unat (a div 4096) < 2 ^ 40" using addressable [OF assms(1)] assms(2) by (simp add: fresh_def)
    then have "unat a div 4096 < 2 ^ 40" by (simp add: unat_div)
    then have "unat a < 2 ^ 52" by simp
    then have "take_bit 52 a = a" by (simp add: word_unat_eq_iff unsigned_take_bit_eq take_bit_nat_eq_self)
    then show ?thesis using that by (metis bit_take_bit_iff leD)
  qed
  have m: "bit ADDRESS_MASK i \<longleftrightarrow> 12 \<le> i \<and> i < 52"
  proof -
    have M: "ADDRESS_MASK = push_bit 12 (mask 40)" by (simp add: ADDRESS_MASK_def mask_eq_exp_minus_1 push_bit_eq_mult)
    show ?thesis unfolding M using i by (auto simp: bit_push_bit_iff bit_mask_iff)
  qed
  show "bit (a AND ADDRESS_MASK) i = bit a i" using al hi m by (auto simp: bit_and_iff)
qed

lemma zero_table: "entries (fold (\<lambda>index. pt_write t index 0) is m) = (entries m)(t := (\<lambda>i. if i \<in> set is then 0 else entries m t i))"
  by (induction "is" arbitrary: m) (auto simp: fun_eq_iff)

lemma zero_table_window: "table_window (fold (\<lambda>index. pt_write t index 0) is m) = table_window m"
  by (induction "is" arbitrary: m) auto

lemma alloc_fresh:
  assumes "source_inv fs" "alloc fs = (Some f, fs')"
  shows "source_inv fs'" "p_u64 (start_address f) \<in> fresh fs" "fresh fs' = fresh fs - {p_u64 (start_address f)}"
proof -
  let ?a = "p_u64 (frame_start f)"
  have f: "source_inv fs'" "frame_aligned f" "number f \<in> available fs" "available fs' = available fs - {number f}"
    using alloc_Some [OF assms] by auto
  show "source_inv fs'" by (rule f(1))
  have al: "?a mod 4096 = 0" "number f = unat (?a div 4096)"
    using f(2) by (simp_all add: frame_aligned_def number_def FRAME_SIZE_def is_aligned_to_def is_multiple_of_def)
  then show "p_u64 (start_address f) \<in> fresh fs" using f(3) by (simp add: fresh_def start_address_def)
  have "x = ?a" if "x mod 4096 = 0" "unat (x div 4096) = unat (?a div 4096)" for x
    using that al(1) by (metis unsigned_word_eqI div_mult_mod_eq)
  then show "fresh fs' = fresh fs - {p_u64 (start_address f)}"
    unfolding fresh_def start_address_def f(4) al(2) set_eq_iff mem_Collect_eq Diff_iff singleton_iff by metis
qed

lemma new_table_spec:
  assumes "source_inv fs" "new_table alloc root (m, fs) = (r, m', fs')"
  shows "source_inv fs' \<and> table_window m' = table_window m \<and> fresh fs' \<subseteq> fresh fs \<and>
    (case r of
       Inr a \<Rightarrow> a \<in> fresh fs \<and> fresh fs' = fresh fs - {a} \<and> a AND ADDRESS_MASK = a \<and>
         entries m' = (entries m)(a := (\<lambda>i. if i < ENTRIES then 0 else entries m a i))
     | Inl e \<Rightarrow> m' = m)"
proof (cases "alloc fs")
  case (Pair f fs1)
  show ?thesis
  proof (cases f)
    case None
    then show ?thesis using assms Pair alloc_None [OF assms(1)] by (auto simp: new_table_def)
  next
    case (Some g)
    note A = alloc_fresh [OF assms(1), of g fs1]
    have "fs' = fs1" using assms(2) Pair Some by (auto simp: new_table_def Let_def split: option.splits if_splits)
    moreover have "r = Inr a \<Longrightarrow> a = p_u64 (start_address g)" for a
      using assms(2) Pair Some by (auto simp: new_table_def Let_def split: option.splits if_splits)
    ultimately show ?thesis using assms(2) Pair Some A fresh_masked [OF assms(1)]
      by (auto simp: new_table_def Let_def zero_table zero_table_window split: option.splits if_splits)
  qed
qed

text \<open>What a walk that links tables leaves behind, whether it succeeded or not.\<close>

definition extended :: "table_memory \<Rightarrow> 'a \<Rightarrow> table_memory \<Rightarrow> 'a \<Rightarrow> nat \<Rightarrow> u64 \<Rightarrow> bool" where
  "extended m fs m' fs' n t \<longleftrightarrow> source_inv fs' \<and> fresh fs' \<subseteq> fresh fs \<and> tree m' n t \<and>
     sub m' n t \<subseteq> sub m n t \<union> (fresh fs - fresh fs') \<and>
     (\<forall>x. x \<notin> sub m n t \<longrightarrow> x \<notin> fresh fs - fresh fs' \<longrightarrow> entries m' x = entries m x) \<and>
     (\<forall>va w js. path (Suc n) js \<longrightarrow> tr m' va n t w js = tr m va n t w js)"

text \<open>What such a walk through entry \<open>i\<close> may touch: that entry, the tables below it and fresh ones.\<close>

definition touches :: "table_memory \<Rightarrow> 'a \<Rightarrow> table_memory \<Rightarrow> 'a \<Rightarrow> nat \<Rightarrow> u64 \<Rightarrow> usize \<Rightarrow> bool" where
  "touches m fs m' fs' n t i \<longleftrightarrow> (\<forall>j. j \<noteq> i \<longrightarrow> entries m' t j = entries m t j) \<and>
     (\<forall>x. x \<noteq> t \<longrightarrow> x \<notin> below m n t i \<longrightarrow> x \<notin> fresh fs - fresh fs' \<longrightarrow> entries m' x = entries m x)"

lemma touches_refl: "touches m fs m fs' n t i"
  by (simp add: touches_def)

lemma extended_refl: "source_inv fs' \<Longrightarrow> fresh fs' \<subseteq> fresh fs \<Longrightarrow> tree m n t \<Longrightarrow> extended m fs m fs' n t"
  by (auto simp: extended_def)

text \<open>
  From a walk below an entry to one from its table: the entry now leads to \<open>c\<close>, in memory \<open>m1\<close>, and
  from there the walk went on to \<open>m'\<close>.
\<close>

lemma extended_step:
  assumes T: "tree m (Suc n) t" "n < 3" "i < ENTRIES" "sub m (Suc n) t \<inter> fresh fs = {}" "fresh fs1 \<subseteq> fresh fs"
    and m1: "entries m1 t = (entries m t)(i := e)" "next_of m1 t i = Some c" "e AND WRITABLE \<noteq> 0" "e AND NO_EXECUTE = 0"
    and S0: "sub m1 n c \<subseteq> S0" "t \<notin> S0" "S0 \<subseteq> sub m (Suc n) t \<union> (fresh fs - fresh fs1)"
    and oth: "\<forall>j b. j < ENTRIES \<longrightarrow> j \<noteq> i \<longrightarrow> next_of m t j = Some b \<longrightarrow> sub m n b \<inter> S0 = {}"
    and unch: "\<forall>x. x \<noteq> t \<longrightarrow> x \<notin> S0 \<longrightarrow> entries m1 x = entries m x"
    and hd: "\<And>va w js. path (Suc n) js \<Longrightarrow> tr m1 va (Suc n) t w (i # js) = tr m va (Suc n) t w (i # js)"
    and IH: "extended m1 fs1 m' fs' n c"
  shows "extended m fs m' fs' (Suc n) t" "entries m' t = (entries m t)(i := e)"
    "\<forall>x. x \<noteq> t \<longrightarrow> x \<notin> S0 \<union> (fresh fs1 - fresh fs') \<longrightarrow> entries m' x = entries m x"
proof -
  have IH': "source_inv fs'" "fresh fs' \<subseteq> fresh fs1" "tree m' n c" "sub m' n c \<subseteq> sub m1 n c \<union> (fresh fs1 - fresh fs')"
    "\<And>x. x \<notin> sub m1 n c \<Longrightarrow> x \<notin> fresh fs1 - fresh fs' \<Longrightarrow> entries m' x = entries m1 x"
    "\<And>va w js. path (Suc n) js \<Longrightarrow> tr m' va n c w js = tr m1 va n c w js"
    using IH by (auto simp: extended_def)
  let ?S = "S0 \<union> (fresh fs1 - fresh fs')"
  have t: "t \<notin> ?S" using S0(2) T(4,5) by (auto dest: subsetD)
  have et: "entries m' t = entries m1 t" using t S0(1) by (intro IH'(5)) auto
  then show m't: "entries m' t = (entries m t)(i := e)" using m1(1) by simp
  have nx: "next_of m' t = next_of m1 t" by (rule next_of_cong [OF et])
  have o': "\<forall>j b. j < ENTRIES \<longrightarrow> j \<noteq> i \<longrightarrow> next_of m t j = Some b \<longrightarrow> sub m n b \<inter> ?S = {}"
    using oth sub_child [of _ m t _ n] T(4,5) by blast
  show u': "\<forall>x. x \<noteq> t \<longrightarrow> x \<notin> ?S \<longrightarrow> entries m' x = entries m x"
  proof (intro allI impI)
    fix x assume x: "x \<noteq> t" "x \<notin> ?S"
    have "entries m' x = entries m1 x" using x(2) S0(1) by (intro IH'(5)) blast+
    then show "entries m' x = entries m x" using unch x by simp
  qed
  have sc: "sub m' n c \<subseteq> ?S" using IH'(4) S0(1) by blast
  note G = graft [OF T(1,3) m't _ m1(3,4) IH'(3) sc t o' u', unfolded nx, OF m1(2)]
  have "tr m' va (Suc n) t w js = tr m va (Suc n) t w js" if p: "path (Suc (Suc n)) js" for va w js
  proof (cases js)
    case (Cons j ks)
    show ?thesis
    proof (cases "j = i")
      case True
      have "tr m' va (Suc n) t w (i # ks) = tr m1 va (Suc n) t w (i # ks)"
        using IH'(6) [of ks] p Cons et nx m1(2) T(2) by (simp add: tr_step Let_def)
      then show ?thesis using hd [of ks va w] p Cons True by simp
    next
      case False
      then show ?thesis using G(3) [OF T(2) _ False] p Cons by simp
    qed
  qed (use p in simp)
  moreover have "sub m' (Suc n) t \<subseteq> sub m (Suc n) t \<union> (fresh fs - fresh fs')" using G(2) S0(3) T(5) IH'(2) by blast
  moreover have "entries m' x = entries m x" if "x \<notin> sub m (Suc n) t" "x \<notin> fresh fs - fresh fs'" for x
  proof -
    have "x \<noteq> t" using that(1) sub_self by blast
    moreover have "x \<notin> ?S" using that S0(3) T(5) IH'(2) by blast
    ultimately show ?thesis using u' by blast
  qed
  ultimately show "extended m fs m' fs' (Suc n) t"
    unfolding extended_def using IH'(1,2) T(5) G(1) by blast
qed

text \<open>A zeroed table is a tree of its own and translates nothing.\<close>

lemma empty_table:
  assumes "\<forall>j < ENTRIES. entries m c j = 0"
  shows "tree m n c" "sub m n c = {c}" "n \<le> 3 \<Longrightarrow> path (Suc n) js \<Longrightarrow> tr m va n c w js = None"
proof -
  have nx: "next_of m c j = None" if "j < ENTRIES" for j using assms that by (simp add: next_of_def)
  show "tree m n c" "sub m n c = {c}" using nx by (cases n; simp)+
  show "tr m va n c w js = None" if "n \<le> 3" "path (Suc n) js"
  proof (cases js)
    case (Cons j ks)
    then have j: "entries m c j = 0" "next_of m c j = None" using that(2) assms nx by auto
    show ?thesis using j that by (cases n) (simp_all add: Cons tr_def[of _ _ 0] tr_step)
  qed (use that in simp)
qed

text \<open>The two ways down: an empty entry gets a fresh table, a present one is followed (and may be opened to ring 3).\<close>

lemma step_into_new:
  assumes T: "tree m (Suc n) t" "n < 3" "i < ENTRIES" "sub m (Suc n) t \<inter> fresh fs = {}" "entries m t i AND PRESENT = 0"
    and src: "source_inv fs" "new_table alloc root (m, fs) = (Inr c, m1, fs1)"
    and e: "e = c OR flags" "flags AND ADDRESS_MASK = 0" "flags AND PRESENT \<noteq> 0" "flags AND HUGE = 0"
      "flags AND WRITABLE \<noteq> 0" "flags AND NO_EXECUTE = 0"
  defines "m2 \<equiv> pt_write t i e m1"
  shows "tree m2 n c" "sub m2 n c \<inter> fresh fs1 = {}" "source_inv fs1"
    "extended m2 fs1 m' fs' n c \<Longrightarrow> extended m fs m' fs' (Suc n) t \<and> touches m fs m' fs' n t i \<and> next_of m' t i = Some c \<and> entries m' t i = e"
proof -
  have N: "source_inv fs1" "c \<in> fresh fs" "fresh fs1 = fresh fs - {c}" "c AND ADDRESS_MASK = c"
    "entries m1 = (entries m)(c := (\<lambda>i. if i < ENTRIES then 0 else entries m c i))"
    using new_table_spec [OF src] by auto
  have ct: "c \<noteq> t" using N(2) T(4) sub_self by blast
  have E: "e AND ADDRESS_MASK = c" "e AND PRESENT \<noteq> 0" "e AND HUGE = 0" "e AND WRITABLE \<noteq> 0" "e AND NO_EXECUTE = 0"
    using e mask_or [OF N(4) e(2)] masked_flags [OF N(4)] by (simp_all add: and_or_flag)
  have z: "\<forall>j < ENTRIES. entries m2 c j = 0" using ct by (simp add: m2_def N(5))
  note Z = empty_table [OF z]
  have t2: "entries m2 t = (entries m t)(i := e)" using ct by (simp add: m2_def N(5))
  have nx: "next_of m2 t i = Some c" using E by (simp add: next_of_def t2)
  have nx0: "next_of m t i = None" using T(5) by (simp add: next_of_def)
  show "tree m2 n c" "sub m2 n c \<inter> fresh fs1 = {}" "source_inv fs1" using Z(1,2) N(1,3) by auto
  assume X: "extended m2 fs1 m' fs' n c"
  have oth: "\<forall>j b. j < ENTRIES \<longrightarrow> j \<noteq> i \<longrightarrow> next_of m t j = Some b \<longrightarrow> sub m n b \<inter> {c} = {}"
    using sub_child [of _ m t _ n] T(4) N(2) by blast
  have unch: "\<forall>x. x \<noteq> t \<longrightarrow> x \<notin> {c} \<longrightarrow> entries m2 x = entries m x" by (simp add: m2_def N(5))
  have hd: "tr m2 va (Suc n) t w (i # js) = tr m va (Suc n) t w (i # js)" if "path (Suc n) js" for va w js
    using T(2,5) Z(3) [OF _ that] by (simp add: tr_step nx nx0 Let_def)
  have ext: "extended m fs m' fs' (Suc n) t" and e': "entries m' t = (entries m t)(i := e)"
    and x: "\<forall>x. x \<noteq> t \<longrightarrow> x \<notin> {c} \<union> (fresh fs1 - fresh fs') \<longrightarrow> entries m' x = entries m x"
    using extended_step [OF T(1-4) _ t2 nx E(4,5) _ _ _ oth unch hd X] Z(2) N(2,3) ct by blast+
  have "fresh fs' \<subseteq> fresh fs1" using X by (simp add: extended_def)
  then have "touches m fs m' fs' n t i" using e' x N(2,3) by (auto simp: touches_def)
  then show "extended m fs m' fs' (Suc n) t \<and> touches m fs m' fs' n t i \<and> next_of m' t i = Some c \<and> entries m' t i = e"
    using ext e' nx t2 by (simp add: next_of_def)
qed

lemma step_into_old:
  assumes T: "tree m (Suc n) t" "n < 3" "i < ENTRIES" "sub m (Suc n) t \<inter> fresh fs = {}" "next_of m t i = Some c"
    and src: "source_inv fs" and e: "e = entries m t i \<or> e = entries m t i OR USER"
  defines "m2 \<equiv> pt_write t i e m"
  shows "tree m2 n c" "sub m2 n c \<inter> fresh fs = {}"
    "extended m2 fs m' fs' n c \<Longrightarrow> extended m fs m' fs' (Suc n) t \<and> touches m fs m' fs' n t i \<and> next_of m' t i = Some c \<and> entries m' t i = e"
proof -
  note D = treeD [OF T(1,3,5)]
  have E: "e AND f = entries m t i AND f" if "USER AND f = 0" for f
    using e that by (auto simp: and_or_flag)
  have U: "USER AND PRESENT = 0" "USER AND HUGE = 0" "USER AND WRITABLE = 0" "USER AND NO_EXECUTE = 0"
    by (simp_all add: paging_bits)
  note E' = E [OF U(1)] E [OF U(2)] E [OF U(3)] E [OF U(4)] E [OF flags_outside(3)]
  have t2: "entries m2 t = (entries m t)(i := e)" by (simp add: m2_def)
  have nx: "next_of m2 t i = Some c" using T(5) E' by (simp add: next_of_def t2 Let_def split: if_splits)
  have same: "entries m2 x = entries m x" if "x \<in> sub m n c" for x using D(3) that by (auto simp: m2_def)
  have sub2: "sub m2 n c = sub m n c" by (rule sub_cong) (rule same)
  show "tree m2 n c" by (rule tree_cong [OF D(4) same])
  show "sub m2 n c \<inter> fresh fs = {}" using sub2 sub_child [OF T(3,5), of n] T(4) by blast
  assume X: "extended m2 fs m' fs' n c"
  have oth: "\<forall>j b. j < ENTRIES \<longrightarrow> j \<noteq> i \<longrightarrow> next_of m t j = Some b \<longrightarrow> sub m n b \<inter> sub m n c = {}"
    using D(5) by blast
  have unch: "\<forall>x. x \<noteq> t \<longrightarrow> x \<notin> sub m n c \<longrightarrow> entries m2 x = entries m x" by (simp add: m2_def)
  have hd: "tr m2 va (Suc n) t w (i # js) = tr m va (Suc n) t w (i # js)" if "path (Suc n) js" for va w js
    using T(2) tr_cong [OF _ that same] E'(3) by (simp add: tr_step nx T(5) t2 Let_def)
  have flags: "e AND WRITABLE \<noteq> 0" "e AND NO_EXECUTE = 0" using D(1,2) E'(3,4) by simp_all
  have ext: "extended m fs m' fs' (Suc n) t" and e': "entries m' t = (entries m t)(i := e)"
    and x: "\<forall>x. x \<noteq> t \<longrightarrow> x \<notin> sub m n c \<union> (fresh fs - fresh fs') \<longrightarrow> entries m' x = entries m x"
    using extended_step [OF T(1-4) order_refl t2 nx flags eq_refl [OF sub2] D(3)
        le_supI1 [OF sub_child [OF T(3,5)]] oth unch hd X] by simp_all
  have "touches m fs m' fs' n t i" using e' x T(5) by (auto simp: touches_def below_def)
  then show "extended m fs m' fs' (Suc n) t \<and> touches m fs m' fs' n t i \<and> next_of m' t i = Some c \<and> entries m' t i = e"
    using ext e' nx t2 by (simp add: next_of_def)
qed

definition walked :: "bool \<Rightarrow> table_memory \<Rightarrow> u64 \<Rightarrow> usize list \<Rightarrow> map_error + u64 \<times> bool \<Rightarrow> bool" where
  "walked user m t is r \<longleftrightarrow> (\<forall>leaf up. r = Inr (leaf, up) \<longrightarrow>
     walk m t is = Some leaf \<and> (user \<longrightarrow> path_all (\<lambda>e. e AND USER \<noteq> 0) m t is))"

lemma walked_step:
  "walked user m c is r \<Longrightarrow> next_of m t i = Some c \<Longrightarrow> (user \<longrightarrow> entries m t i AND USER \<noteq> 0) \<Longrightarrow> walked user m t (i # is) r"
  by (auto simp: walked_def next_of_def Let_def split: if_splits)

lemma map_walk_spec:
  assumes "source_inv fs" "tree m n t" "n \<le> 3" "path n is" "sub m n t \<inter> fresh fs = {}"
    "map_walk alloc root user t up is (m, fs) = (r, m', fs')"
  shows "extended m fs m' fs' n t \<and> walked user m' t is r \<and> (is \<noteq> [] \<longrightarrow> touches m fs m' fs' (n - 1) t (hd is))"
  using assms
proof (induction "is" arbitrary: n t up m fs)
  case Nil
  then have "r = Inr (t, up)" "m' = m" "fs' = fs" "n = 0" by (auto simp: io_ret_def path_def)
  then show ?case using extended_refl Nil.prems(1,2) by (simp add: walked_def)
next
  case (Cons i "is")
  obtain k where n: "n = Suc k" "k < 3" "i < ENTRIES" "path k is" using Cons.prems(3,4) by (cases n) auto
  note T = Cons.prems(2)[unfolded n(1)] n(2,3) Cons.prems(5)[unfolded n(1)]
  let ?e = "entries m t i" and ?fl = "if user then PRESENT OR WRITABLE OR USER else PRESENT OR WRITABLE"
  consider (new) "?e AND PRESENT = 0" | (huge) "?e AND PRESENT \<noteq> 0" "?e AND HUGE \<noteq> 0"
    | (old) "next_of m t i = Some (?e AND ADDRESS_MASK)" "?e AND PRESENT \<noteq> 0" "?e AND HUGE = 0"
    by (auto simp: next_of_def Let_def)
  then show ?case
  proof cases
    case new
    obtain r1 m1 fs1 where N: "new_table alloc root (m, fs) = (r1, m1, fs1)" by (metis prod_cases3)
    show ?thesis
    proof (cases r1)
      case (Inl x)
      then have "r = Inl x" "m' = m" "fs' = fs1" "source_inv fs1" "fresh fs1 \<subseteq> fresh fs"
        using Cons.prems(6) new_table_spec [OF Cons.prems(1) N] new N by (auto simp: io_bind_def io_read_def)
      then show ?thesis using extended_refl Cons.prems(2) touches_refl by (simp add: walked_def)
    next
      case (Inr c)
      have fl: "?fl AND ADDRESS_MASK = 0" "?fl AND PRESENT \<noteq> 0" "?fl AND HUGE = 0" "?fl AND WRITABLE \<noteq> 0" "?fl AND NO_EXECUTE = 0"
        by (simp_all add: paging_bits)
      note S = step_into_new [OF T new Cons.prems(1) N[unfolded Inr] refl fl]
      have go: "map_walk alloc root user c up is (pt_write t i (c OR ?fl) m1, fs1) = (r, m', fs')"
        using Cons.prems(6) new N Inr by (simp add: io_bind_def io_read_def io_write_def)
      have u: "user \<longrightarrow> (c OR ?fl) AND USER \<noteq> 0" by (simp add: and_or_flag paging_bits)
      have k: "k \<le> 3" using n(2) by simp
      note W = Cons.IH [OF S(3) S(1) k n(4) S(2) go]
      show ?thesis using S(4) [OF conjunct1 [OF W]] walked_step [of user m' c "is" r t i] W u n(1) by auto
    qed
  next
    case huge
    then have "r = Inl MapHugePageInTheWay" "m' = m" "fs' = fs"
      using Cons.prems(6) by (auto simp: io_bind_def io_read_def io_fail_def)
    then show ?thesis using extended_refl Cons.prems(1,2) touches_refl by (simp add: walked_def)
  next
    case old
    let ?e' = "if user \<and> ?e AND USER = 0 then ?e OR USER else ?e"
    have e': "?e' = ?e \<or> ?e' = ?e OR USER" "user \<longrightarrow> ?e' AND USER \<noteq> 0" by (auto simp: and_or_flag paging_bits)
    note S = step_into_old [OF T old(1) Cons.prems(1) e'(1)]
    have id: "pt_write t i ?e m = m" by (simp add: pt_write_def)
    have go: "map_walk alloc root user (?e AND ADDRESS_MASK) (if user \<and> ?e AND USER = 0 then True else up) is (pt_write t i ?e' m, fs) = (r, m', fs')"
      using Cons.prems(6) old(2,3)
      by (cases "user \<and> ?e AND USER = 0") (auto simp: io_bind_def io_read_def io_write_def id)
    have k: "k \<le> 3" using n(2) by simp
    note W = Cons.IH [OF Cons.prems(1) S(1) k n(4) S(2) go]
    have "extended m fs m' fs' n t" "touches m fs m' fs' k t i" "next_of m' t i = Some (?e AND ADDRESS_MASK)" "entries m' t i = ?e'"
      using S(3) [OF conjunct1 [OF W]] n(1) by auto
    then show ?thesis using walked_step [of user m' "?e AND ADDRESS_MASK" "is" r t i] W e'(2) n(1) by simp
  qed
qed

end

end
