(* ===== verification/Paging_Map.thy ===== *)
theory Paging_Map
  imports Paging_Safe
begin

text \<open>
  \<open>map\<close> and \<open>unmap\<close> as functions on translations: the first adds exactly one page, with the permissions
  asked for, and the second takes exactly that page away.
\<close>

section \<open>The indices of an address\<close>

lemma index_bits:
  fixes va pg :: u64
  assumes "s + 9 \<le> 64"
  shows "unat (drop_bit s va AND 0x1FF) = unat (drop_bit s pg AND 0x1FF) \<longleftrightarrow> (\<forall>i. s \<le> i \<longrightarrow> i < s + 9 \<longrightarrow> bit va i = bit pg i)"
proof -
  have m: "x AND 0x1FF = take_bit 9 x" for x :: u64 by (simp add: take_bit_eq_mask mask_eq_exp_minus_1)
  have "take_bit 9 (drop_bit s va) = take_bit 9 (drop_bit s pg) \<longleftrightarrow> (\<forall>k < 9. bit va (s + k) = bit pg (s + k))"
    (is "?L \<longleftrightarrow> ?R")
  proof
    assume L: ?L
    have "bit va (s + k) = bit pg (s + k)" if "k < 9" for k
    proof -
      have "bit (take_bit 9 (drop_bit s va)) k = bit (take_bit 9 (drop_bit s pg)) k" using L by simp
      then show ?thesis using that by (simp add: bit_take_bit_iff bit_drop_bit_eq)
    qed
    then show ?R by blast
  next
    assume ?R
    then show ?L by (auto simp: bit_eq_iff bit_take_bit_iff bit_drop_bit_eq)
  qed
  also have "\<dots> \<longleftrightarrow> (\<forall>i. s \<le> i \<longrightarrow> i < s + 9 \<longrightarrow> bit va i = bit pg i)"
    by (metis add_less_cancel_left le_Suc_ex le_add1)
  finally show ?thesis by (simp only: m word_unat_eq_iff [symmetric])
qed

lemma canonical_bits:
  assumes "is_canonical va" "47 \<le> i" "i < 64"
  shows "bit va i = bit va 47"
proof -
  have b: "bit va j = bit (drop_bit 47 va) (j - 47)" if "47 \<le> j" for j using that by (simp add: bit_drop_bit_eq)
  have M: "(0x1FFFF :: u64) = mask 17" by (simp add: mask_eq_exp_minus_1)
  have "bit (0x1FFFF :: u64) (i - 47)" "bit (0x1FFFF :: u64) 0" unfolding M using assms by (auto simp: bit_mask_iff)
  then show ?thesis using assms b [of i] b [of 47] by (auto simp: is_canonical_def)
qed

lemma split_range:
  fixes a b c :: nat
  assumes "a \<le> b" "b \<le> c"
  shows "(\<forall>i \<ge> b. i < c \<longrightarrow> P i) \<and> (\<forall>i \<ge> a. i < b \<longrightarrow> P i) \<longleftrightarrow> (\<forall>i \<ge> a. i < c \<longrightarrow> P i)"
proof -
  have "a \<le> i \<and> i < c \<longleftrightarrow> (b \<le> i \<and> i < c) \<or> (a \<le> i \<and> i < b)" for i using assms by linarith
  then show ?thesis by blast
qed

lemma canonical_indices:
  assumes "is_canonical va" "is_canonical pg"
  shows "table_indices va = table_indices pg \<longleftrightarrow> drop_bit 12 va = drop_bit 12 pg"
proof -
  have "table_indices va = table_indices pg \<longleftrightarrow> (\<forall>i. 12 \<le> i \<longrightarrow> i < 48 \<longrightarrow> bit va i = bit pg i)"
    (is "_ \<longleftrightarrow> ?B")
    by (simp add: table_indices_def index_bits split_range del: all_simps)
  also have "\<dots> \<longleftrightarrow> (\<forall>i. 12 \<le> i \<longrightarrow> i < 64 \<longrightarrow> bit va i = bit pg i)"
  proof
    assume B: ?B
    show "\<forall>i. 12 \<le> i \<longrightarrow> i < 64 \<longrightarrow> bit va i = bit pg i"
    proof (intro allI impI)
      fix i assume "12 \<le> i" "i < (64 :: nat)"
      have B47: "bit va 47 = bit pg 47" using B [rule_format, of 47] by simp
      show "bit va i = bit pg i"
      proof (cases "i < 48")
        case True
        then show ?thesis using B [rule_format, of i] \<open>12 \<le> i\<close> by blast
      next
        case False
        then have i: "47 \<le> i" "i < 64" using \<open>i < 64\<close> by linarith+
        show ?thesis using canonical_bits [OF assms(1) i] canonical_bits [OF assms(2) i] B47 by blast
      qed
    qed
  qed simp
  also have "\<dots> \<longleftrightarrow> drop_bit 12 va = drop_bit 12 pg"
    (is "?L \<longleftrightarrow> ?R")
  proof
    assume ?L
    then have "bit va (12 + k) = bit pg (12 + k)" for k
      by (cases "12 + k < 64") (simp_all add: bit_word.rep_eq)
    then show ?R by (intro bit_word_eqI) (simp add: bit_drop_bit_eq)
  next
    assume R: ?R
    have "bit va i = bit pg i" if "12 \<le> i" for i
    proof -
      have "bit (drop_bit 12 va) (i - 12) = bit (drop_bit 12 pg) (i - 12)" using R by simp
      then show ?thesis using that by (simp add: bit_drop_bit_eq)
    qed
    then show ?L by blast
  qed
  finally show ?thesis .
qed

lemma table_indices_path: "path 4 (table_indices va)" "path 3 (take 3 (table_indices va))" "table_indices va ! 3 < ENTRIES"
  "table_indices va = take 3 (table_indices va) @ [table_indices va ! 3]"
proof -
  have "unat (x AND 0x1FF) < ENTRIES" for x :: u64
  proof -
    have "x AND 0x1FF \<le> 0x1FF" by (rule word_and_le1)
    then show ?thesis by (simp add: ENTRIES_def word_le_nat_alt)
  qed
  then show "path 4 (table_indices va)" "path 3 (take 3 (table_indices va))" "table_indices va ! 3 < ENTRIES"
    "table_indices va = take 3 (table_indices va) @ [table_indices va ! 3]"
    by (auto simp: path_def table_indices_def numeral_3_eq_3)
qed

section \<open>Leaves\<close>

definition nameable :: "phys_frame \<Rightarrow> bool" where
  "nameable f \<longleftrightarrow> p_u64 (start_address f) AND ADDRESS_MASK = p_u64 (start_address f)"

lemma leaf_entry_flags:
  assumes "nameable f"
  shows "leaf_entry f fl AND ADDRESS_MASK = p_u64 (start_address f)" "leaf_entry f fl AND PRESENT \<noteq> 0"
    "leaf_entry f fl AND WRITABLE \<noteq> 0 \<longleftrightarrow> pf_writable fl" "leaf_entry f fl AND NO_EXECUTE = 0 \<longleftrightarrow> pf_executable fl"
    "leaf_entry f fl AND USER \<noteq> 0 \<longleftrightarrow> pf_user fl"
proof -
  let ?a = "p_u64 (start_address f)"
  have a: "?a AND ADDRESS_MASK = ?a" using assms by (simp add: nameable_def)
  note fl = masked_flags [OF a flags_outside(1)] masked_flags [OF a flags_outside(2)] masked_flags [OF a flags_outside(3)]
    masked_flags [OF a flags_outside(5)]
  have c: "cache_bits c AND PRESENT = 0" "cache_bits c AND WRITABLE = 0" "cache_bits c AND NO_EXECUTE = 0" "cache_bits c AND USER = 0" for c
    by (cases c; simp add: paging_bits)+
  have d: "PRESENT AND WRITABLE = 0" "PRESENT AND NO_EXECUTE = 0" "PRESENT AND USER = 0" "WRITABLE AND NO_EXECUTE = 0"
    "WRITABLE AND USER = 0" "NO_EXECUTE AND USER = 0" "PRESENT \<noteq> 0" "WRITABLE \<noteq> 0" "USER \<noteq> 0" "NO_EXECUTE \<noteq> 0"
    "WRITABLE AND PRESENT = 0" "NO_EXECUTE AND PRESENT = 0" "USER AND PRESENT = 0" "NO_EXECUTE AND WRITABLE = 0"
    "USER AND WRITABLE = 0" "USER AND NO_EXECUTE = 0"
    by (simp_all add: paging_bits)
  show "leaf_entry f fl AND ADDRESS_MASK = ?a" using a by (simp add: leaf_entry_def and_or_flag Let_def)
  show "leaf_entry f fl AND PRESENT \<noteq> 0" using fl c d by (simp add: leaf_entry_def and_or_flag Let_def)
  show "leaf_entry f fl AND WRITABLE \<noteq> 0 \<longleftrightarrow> pf_writable fl" using fl c d by (simp add: leaf_entry_def and_or_flag Let_def)
  show "leaf_entry f fl AND NO_EXECUTE = 0 \<longleftrightarrow> pf_executable fl" using fl c d by (simp add: leaf_entry_def and_or_flag Let_def)
  show "leaf_entry f fl AND USER \<noteq> 0 \<longleftrightarrow> pf_user fl" using fl c d by (simp add: leaf_entry_def and_or_flag Let_def)
qed

lemma mask_low: "ADDRESS_MASK AND NOT 0xFFF = ADDRESS_MASK"
  by (simp add: ADDRESS_MASK_def)

definition page_of :: "phys_frame \<Rightarrow> page_flags \<Rightarrow> u64 \<Rightarrow> translation" where
  "page_of f fl va = \<lparr>tr_phys = p_u64 (start_address f) + (va AND 0xFFF), tr_writable = pf_writable fl, tr_page_size = 0x1000\<rparr>"

lemma leaf_entry_translation: "nameable f \<Longrightarrow> leaf_translation (leaf_entry f fl) va = Some (page_of f fl va)"
  using leaf_entry_flags [of f fl] mask_low
  by (simp add: leaf_translation_def page_of_def)

lemma path_all_snoc:
  "walk m t is = Some leaf \<Longrightarrow> path_all P m t (is @ [i]) \<longleftrightarrow> path_all P m t is \<and> P (entries m leaf i)"
  by (induction "is" arbitrary: t) (auto simp: next_of_def Let_def split: option.splits if_splits)

lemma path_all_tree:
  "tree m n t \<Longrightarrow> path n is \<Longrightarrow> walk m t is = Some leaf \<Longrightarrow> path_all (\<lambda>e. e AND NO_EXECUTE = 0) m t is"
proof (induction n arbitrary: t "is")
  case (Suc n)
  obtain j js a where j: "is = j # js" "j < ENTRIES" "path n js" "next_of m t j = Some a" "walk m a js = Some leaf"
    using Suc.prems by (cases "is") (auto split: option.splits)
  have "entries m t j AND ADDRESS_MASK = a" using j(4) by (auto simp: next_of_def Let_def split: if_splits)
  then show ?case using Suc.IH [OF _ j(3,5)] treeD [OF Suc.prems(1) j(2,4)] j(1) by simp
qed simp

lemma path_all_write:
  "tree m n t \<Longrightarrow> path n is \<Longrightarrow> walk m t is = Some leaf \<Longrightarrow> path_all P (pt_write leaf i v m) t is = path_all P m t is"
proof (induction n arbitrary: t "is")
  case (Suc n)
  obtain j js a where j: "is = j # js" "j < ENTRIES" "path n js" "next_of m t j = Some a" "walk m a js = Some leaf"
    using Suc.prems by (cases "is") (auto split: option.splits)
  have a: "entries m t j AND ADDRESS_MASK = a" using j(4) by (auto simp: next_of_def Let_def split: if_splits)
  have "leaf \<noteq> t" using walk_in_sub [OF j(3,5)] treeD(3) [OF Suc.prems(1) j(2,4)] by blast
  then show ?case using Suc.IH [OF _ j(3,5)] treeD(4) [OF Suc.prems(1) j(2,4)] j(1) a by simp
qed simp

lemma sub_tables_cong: "entries m' = entries m \<Longrightarrow> sub m' n t = sub m n t" "entries m' = entries m \<Longrightarrow> tree m' n t = tree m n t"
  "entries m' = entries m \<Longrightarrow> translate m' root va = translate m root va" "entries m' = entries m \<Longrightarrow> path_all P m' t is = path_all P m t is"
  "entries m' = entries m \<Longrightarrow> walk m' t is = walk m t is"
proof -
  assume e: "entries m' = entries m"
  then have nx: "next_of m' = next_of m" by (simp add: next_of_def fun_eq_iff)
  show "sub m' n t = sub m n t" using e by (intro sub_cong) simp
  have "sub m' n t = sub m n t" for n t using e by (intro sub_cong) simp
  then show "tree m' n t = tree m n t" by (induction n arbitrary: t) (simp_all add: nx e)
  show "translate m' root va = translate m root va" using e table_indices_path(1) [of va]
    by (simp add: translate_tr, intro impI tr_cong) (simp_all add: numeral_eq_Suc)
  show "path_all P m' t is = path_all P m t is" by (induction "is" arbitrary: t) (simp_all add: e)
  show "walk m' t is = walk m t is" by (induction "is" arbitrary: t) (simp_all add: nx split: option.splits)
qed

text \<open>A leaf written at the end of a page's path, in terms of translations.\<close>

lemma write_page:
  fixes v :: u64
  assumes T: "tree m 3 root" and W: "walk m root (take 3 (table_indices page)) = Some leaf"
    and "is_canonical page"
  defines "m' \<equiv> pt_write leaf (table_indices page ! 3) v m"
  shows "tree m' 3 root" "sub m' 3 root \<subseteq> sub m 3 root" "walk m' root (take 3 (table_indices page)) = Some leaf"
    "translate m' root va = (if is_canonical va \<and> drop_bit 12 va = drop_bit 12 page then leaf_translation v va else translate m root va)"
proof -
  note P = table_indices_path [of page]
  have L: "tree m' 3 root \<and> sub m' 3 root \<subseteq> sub m 3 root \<and> walk m' root (take 3 (table_indices page)) = Some leaf \<and>
    (\<forall>js va w. path (Suc 3) js \<longrightarrow> js \<noteq> take 3 (table_indices page) @ [table_indices page ! 3] \<longrightarrow> tr m' va 3 root w js = tr m va 3 root w js)"
    unfolding m'_def by (rule write_leaf [OF order_refl T P(2,3) W])
  then show 1: "tree m' 3 root" "sub m' 3 root \<subseteq> sub m 3 root" "walk m' root (take 3 (table_indices page)) = Some leaf" by blast+
  have e: "entries m' leaf (table_indices page ! 3) = v" by (simp add: m'_def)
  show "translate m' root va = (if is_canonical va \<and> drop_bit 12 va = drop_bit 12 page then leaf_translation v va else translate m root va)"
  proof (cases "is_canonical va")
    case True
    note C = canonical_indices [OF True assms(3)]
    show ?thesis
    proof (cases "drop_bit 12 va = drop_bit 12 page")
      case eq: True
      have "tr m' va 3 root True (table_indices page) = leaf_translation v va"
        using tr_walk [OF order_refl 1(1) P(2,3) 1(3), of va] e P(4) by simp
      then show ?thesis using C True eq by (simp add: translate_tr)
    next
      case False
      then have "table_indices va \<noteq> take 3 (table_indices page) @ [table_indices page ! 3]" using C P(4) by simp
      then have "tr m' va 3 root True (table_indices va) = tr m va 3 root True (table_indices va)"
        using L table_indices_path(1) [of va] by (simp add: numeral_eq_Suc)
      then show ?thesis using False by (simp add: translate_tr)
    qed
  qed (simp add: translate_tr)
qed

section \<open>The mapper\<close>

lemma take_indices: "take 3 (table_indices va) \<noteq> []" "hd (take 3 (table_indices va)) = table_indices va ! 0"
  by (simp_all add: table_indices_def)

lemma three: "(3 :: nat) = Suc 2"
  by simp

lemma index0: "table_indices va ! 0 < ENTRIES"
  using table_indices_path(1) [of va] by (auto simp: path_def)

lemma walk_below: "walk m root (take 3 (table_indices page)) = Some leaf \<Longrightarrow> leaf \<in> below m 2 root (table_indices page ! 0)"
proof -
  assume w: "walk m root (take 3 (table_indices page)) = Some leaf"
  obtain js where js: "take 3 (table_indices page) = table_indices page ! 0 # js" using take_indices [of page] by (metis list.collapse)
  have "path 2 js" using table_indices_path(2) [of page] js by (simp add: numeral_3_eq_3 numeral_2_eq_2)
  then show ?thesis using w js walk_in_sub [of 2 js] by (auto simp: below_def split: option.splits)
qed

text \<open>
  What a successful \<open>map\<close> means: the page was free, it now leads to the frame with the permissions asked for
  on the whole way down, every other address translates as before, and the CPU was told.
\<close>

definition mapped :: "table_memory \<Rightarrow> u64 \<Rightarrow> u64 \<Rightarrow> phys_frame \<Rightarrow> page_flags \<Rightarrow> table_memory \<Rightarrow> bool" where
  "mapped m root page f fl m' \<longleftrightarrow>
     (\<forall>va. is_canonical va \<longrightarrow> drop_bit 12 va = drop_bit 12 page \<longrightarrow> translate m root va = None) \<and>
     (\<forall>va. translate m' root va =
        (if is_canonical va \<and> drop_bit 12 va = drop_bit 12 page then Some (page_of f fl va) else translate m root va)) \<and>
     (path_all (\<lambda>e. e AND USER \<noteq> 0) m' root (table_indices page) \<longleftrightarrow> pf_user fl) \<and>
     (path_all (\<lambda>e. e AND NO_EXECUTE = 0) m' root (table_indices page) \<longleftrightarrow> pf_executable fl) \<and>
     FlushPage page \<in> set (flushed m') \<and>
     (\<exists>leaf. walk m' root (take 3 (table_indices page)) = Some leaf \<and> entries m' leaf (table_indices page ! 3) = leaf_entry f fl)"

context table_frames
begin

lemma below_disjoint:
  assumes "tree m (Suc n) t" "i < ENTRIES" "j < ENTRIES" "i \<noteq> j"
  shows "below m n t i \<inter> below m n t j = {}"
proof (cases "next_of m t i")
  case (Some a)
  then show ?thesis using treeD(5) [OF assms(1,2) Some assms(3,4)] by (cases "next_of m t j") (simp_all add: below_def)
qed (simp add: below_def)

lemma below_root:
  assumes "tree m (Suc n) t" "i < ENTRIES"
  shows "t \<notin> below m n t i"
proof (cases "next_of m t i")
  case (Some a)
  then show ?thesis using treeD(3) [OF assms Some] by (simp add: below_def)
qed (simp add: below_def)

lemma touched_below:
  assumes X: "touches m fs m1 fs1 n t i" and T: "tree m (Suc n) t" "sub m (Suc n) t \<inter> fresh fs = {}" and i: "i < ENTRIES"
  shows "j < ENTRIES \<Longrightarrow> j \<noteq> i \<Longrightarrow> below m1 n t j = below m n t j"
    "tree m1 (Suc n) t \<Longrightarrow> sub m1 (Suc n) t \<subseteq> sub m (Suc n) t \<union> (fresh fs - fresh fs1) \<Longrightarrow>
      below m1 n t i \<subseteq> below m n t i \<union> (fresh fs - fresh fs1)"
proof -
  show same: "below m1 n t j = below m n t j" if j: "j < ENTRIES" "j \<noteq> i" for j
  proof -
    have nx: "next_of m1 t j = next_of m t j" using X j(2) by (simp add: touches_def next_of_def)
    have "sub m1 n a = sub m n a" if a: "next_of m t j = Some a" for a
    proof (rule sub_cong)
      fix x assume x: "x \<in> sub m n a"
      have b: "x \<in> below m n t j" using x a by (simp add: below_def)
      have "x \<noteq> t" using below_root [OF T(1) j(1)] b by blast
      moreover have "x \<notin> below m n t i" using below_disjoint [OF T(1) j(1) i j(2)] b by blast
      moreover have "x \<notin> fresh fs" using T(2) sub_child [OF j(1) a, of n] x by blast
      ultimately show "entries m1 x = entries m x" using X by (simp add: touches_def)
    qed
    then show ?thesis by (simp add: below_def nx split: option.splits)
  qed
  assume T1: "tree m1 (Suc n) t" and S: "sub m1 (Suc n) t \<subseteq> sub m (Suc n) t \<union> (fresh fs - fresh fs1)"
  show "below m1 n t i \<subseteq> below m n t i \<union> (fresh fs - fresh fs1)"
  proof
    fix x assume x: "x \<in> below m1 n t i"
    then have "x \<in> sub m (Suc n) t \<union> (fresh fs - fresh fs1)" using S i unfolding sub_below by blast
    moreover have "x \<noteq> t" using below_root [OF T1 i] x by blast
    moreover have "x \<notin> below m n t j" if "j < ENTRIES" "j \<noteq> i" for j
      using same [OF that] below_disjoint [OF T1 that(1) i that(2)] x by blast
    ultimately show "x \<in> below m n t i \<union> (fresh fs - fresh fs1)" unfolding sub_below by blast
  qed
qed

text \<open>The leaf of a successful walk, written.\<close>

lemma mapped_leaf:
  assumes E: "extended m fs m1 fs' 3 root" and W: "walked user m1 root (take 3 (table_indices page)) (Inr (leaf, up))"
    and hyps: "is_canonical page" "nameable f" "user = pf_user fl" "entries m1 leaf (table_indices page ! 3) AND PRESENT = 0"
    and m': "entries m' = entries (pt_write leaf (table_indices page ! 3) (leaf_entry f fl) m1)" "FlushPage page \<in> set (flushed m')"
  shows "mapped m root page f fl m'" "tree m' 3 root" "sub m' 3 root \<subseteq> sub m1 3 root"
proof -
  let ?is = "take 3 (table_indices page)" and ?i = "table_indices page ! 3"
  note P = table_indices_path [of page]
  have T: "tree m1 3 root" using E by (simp add: extended_def)
  have w: "walk m1 root ?is = Some leaf" using W by (simp add: walked_def)
  have same: "translate m1 root va = translate m root va" for va
    using E table_indices_path(1) [of va] by (simp add: extended_def translate_tr numeral_eq_Suc)
  note WP = write_page [OF T w hyps(1), of "leaf_entry f fl"] and C = sub_tables_cong [OF m'(1)]
  show "tree m' 3 root" "sub m' 3 root \<subseteq> sub m1 3 root" using WP(1,2) by (simp_all add: C)
  have none: "translate m root va = None" if "is_canonical va" "drop_bit 12 va = drop_bit 12 page" for va
    using tr_walk [OF order_refl T P(2,3) w, of va] hyps(4) P(4) same [of va] that canonical_indices [OF that(1) hyps(1)]
    by (simp add: translate_tr leaf_translation_def)
  have all: "path_all Q m' root (table_indices page) \<longleftrightarrow> path_all Q m1 root ?is \<and> Q (leaf_entry f fl)" for Q
    using path_all_snoc [OF WP(3), of Q ?i] path_all_write [OF T P(2) w, of Q ?i] P(4) by (simp add: C)
  have "path_all (\<lambda>e. e AND USER \<noteq> 0) m' root (table_indices page) \<longleftrightarrow> pf_user fl"
    using all [of "\<lambda>e. e AND USER \<noteq> 0"] W hyps(3) leaf_entry_flags(5) [OF hyps(2)] by (auto simp: walked_def)
  moreover have "path_all (\<lambda>e. e AND NO_EXECUTE = 0) m' root (table_indices page) \<longleftrightarrow> pf_executable fl"
    using all [of "\<lambda>e. e AND NO_EXECUTE = 0"] path_all_tree [OF T P(2) w] leaf_entry_flags(4) [OF hyps(2)] by auto
  moreover have "translate m' root va =
      (if is_canonical va \<and> drop_bit 12 va = drop_bit 12 page then Some (page_of f fl va) else translate m root va)" for va
    using WP(4) [of va] leaf_entry_translation [OF hyps(2)] same by (simp add: C)
  moreover have "walk m' root ?is = Some leaf" "entries m' leaf ?i = leaf_entry f fl" using WP(3) by (simp_all add: C m'(1))
  ultimately show "mapped m root page f fl m'" unfolding mapped_def using none m'(2) by blast
qed

text \<open>\<open>map\<close> keeps the tree and the freshness of the frames left, and changes one page when it succeeds, none otherwise.\<close>

lemma pt_map_spec:
  assumes src: "source_inv fs" and T: "tree m 3 root" "sub m 3 root \<inter> fresh fs = {}"
    and hyps: "is_canonical page" "nameable f"
    and run: "pt_map alloc root page f fl (m, fs) = (r, m', fs')"
  shows "source_inv fs' \<and> fresh fs' \<subseteq> fresh fs \<and> tree m' 3 root \<and> sub m' 3 root \<subseteq> sub m 3 root \<union> (fresh fs - fresh fs') \<and>
    touches m fs m' fs' 2 root (table_indices page ! 0) \<and>
    (if r = Inr () then mapped m root page f fl m' else \<forall>va. translate m' root va = translate m root va)"
proof (cases "pf_user fl \<noteq> (page < KERNEL_SPACE_BASE)")
  case True
  then have "r = Inl MapOutsideKernelSpace" "m' = m" "fs' = fs" using run by (auto simp: pt_map_def io_fail_def)
  then show ?thesis using src T by (simp add: touches_refl)
next
  case guard: False
  let ?is = "take 3 (table_indices page)" and ?i = "table_indices page ! 3"
  obtain w m1 fs1 where walk: "map_walk alloc root (pf_user fl) root False ?is (m, fs) = (w, m1, fs1)" by (metis prod_cases3)
  note P = table_indices_path [of page]
  have S: "extended m fs m1 fs1 3 root" "walked (pf_user fl) m1 root ?is w" "touches m fs m1 fs1 2 root (table_indices page ! 0)"
    using map_walk_spec [OF src T(1) order_refl P(2) T(2) walk] take_indices [of page] by auto
  have S': "source_inv fs1" "fresh fs1 \<subseteq> fresh fs" "tree m1 3 root" "sub m1 3 root \<subseteq> sub m 3 root \<union> (fresh fs - fresh fs1)"
    using S(1) by (simp_all add: extended_def)
  have tr: "translate m1 root va = translate m root va" for va
    using S(1) table_indices_path(1) [of va] by (simp add: extended_def translate_tr numeral_eq_Suc)
  consider (fail) e where "r = Inl e" "m' = m1" "fs' = fs1"
    | (ok) leaf up where "w = Inr (leaf, up)" "entries m1 leaf ?i AND PRESENT = 0" "r = Inr ()" "fs' = fs1"
        "entries m' = entries (pt_write leaf ?i (leaf_entry f fl) m1)" "FlushPage page \<in> set (flushed m')"
    using run walk guard
    by (cases w) (auto simp: pt_map_def Let_def io_bind_def io_read_def io_write_def io_flush_def io_fail_def io_ret_def pt_flush_def
        split: if_splits)
  then show ?thesis
  proof cases
    case fail
    then show ?thesis using S(3) S' tr by simp
  next
    case ok
    note M = mapped_leaf [OF S(1) S(2)[unfolded ok(1)] hyps refl ok(2,5,6)]
    have "leaf \<in> below m1 2 root (table_indices page ! 0)"
      using walk_below [of m1 root page leaf] S(2) ok(1) by (simp add: walked_def)
    then have leaf: "leaf \<in> below m 2 root (table_indices page ! 0) \<union> (fresh fs - fresh fs1)" "leaf \<noteq> root"
      using touched_below(2) [OF S(3) T[unfolded three] index0 S'(3,4)[unfolded three]] below_root [OF S'(3)[unfolded three] index0] by blast+
    then have "touches m fs m' fs' 2 root (table_indices page ! 0)" using S(3) ok(4,5) by (auto simp: touches_def)
    then show ?thesis using M S' ok(3,4) by auto
  qed
qed

end

section \<open>Unmapping\<close>

lemma unmap_walk_walk: "unmap_walk m t is = Inr leaf \<longleftrightarrow> walk m t is = Some leaf"
  by (induction "is" arbitrary: t) (auto simp: next_of_def Let_def)

lemma masked_start:
  assumes "e AND ADDRESS_MASK = a"
  shows "p_u64 (start_address (containing_address (PhysAddr a))) = a"
proof -
  have "take_bit 12 a = a AND mask 12" by (simp add: take_bit_eq_mask)
  also have "\<dots> = e AND (ADDRESS_MASK AND mask 12)" using assms by (metis and.assoc)
  also have "ADDRESS_MASK AND mask 12 = 0" by (simp add: ADDRESS_MASK_def mask_eq_exp_minus_1)
  finally have "a mod 4096 = 0" by (simp add: take_bit_eq_mod)
  then show ?thesis by (simp add: start_address_def containing_address_def align_down_def FRAME_SIZE_def)
qed

definition unmapped :: "table_memory \<Rightarrow> u64 \<Rightarrow> u64 \<Rightarrow> phys_frame \<Rightarrow> table_memory \<Rightarrow> bool" where
  "unmapped m root page f m' \<longleftrightarrow>
     map_option tr_phys (translate m root page) = Some (p_u64 (start_address f) + (page AND 0xFFF)) \<and>
     (\<forall>va. translate m' root va =
        (if is_canonical va \<and> drop_bit 12 va = drop_bit 12 page then None else translate m root va)) \<and>
     FlushPage page \<in> set (flushed m')"

lemma pt_unmap_spec:
  assumes T: "tree m 3 root" and "is_canonical page" and run: "pt_unmap root page m = (r, m')"
  shows "tree m' 3 root \<and> sub m' 3 root \<subseteq> sub m 3 root \<and> (case r of Inl e \<Rightarrow> m' = m | Inr f \<Rightarrow> unmapped m root page f m')"
proof -
  let ?is = "take 3 (table_indices page)" and ?i = "table_indices page ! 3"
  note P = table_indices_path [of page]
  consider (fail) e where "r = Inl e" "m' = m"
    | (ok) leaf where "walk m root ?is = Some leaf" "entries m leaf ?i AND PRESENT \<noteq> 0"
        "r = Inr (containing_address (PhysAddr (entries m leaf ?i AND ADDRESS_MASK)))"
        "m' = pt_flush (FlushPage page) (pt_write leaf ?i 0 m)"
  proof (cases "unmap_walk m root ?is")
    case (Inl e)
    then show ?thesis using run that(1) by (auto simp: pt_unmap_def Let_def split: if_splits)
  next
    case (Inr leaf)
    then have w: "walk m root ?is = Some leaf" by (simp only: unmap_walk_walk)
    show ?thesis
    proof (cases "page < KERNEL_SPACE_BASE \<or> entries m leaf ?i AND PRESENT = 0")
      case True
      then have "(\<exists>e. r = Inl e) \<and> m' = m" using run Inr
        by (cases "page < KERNEL_SPACE_BASE") (auto simp: pt_unmap_def Let_def)
      then show ?thesis using fail by blast
    next
      case False
      then show ?thesis using run ok [OF w] Inr by (simp add: pt_unmap_def Let_def)
    qed
  qed
  then show ?thesis
  proof cases
    case ok
    let ?e = "entries m leaf ?i"
    have same: "entries m' = entries (pt_write leaf ?i 0 m)" by (simp add: ok(4))
    note W = write_page [OF T ok(1) assms(2), of 0] and C = sub_tables_cong [OF same]
    have "translate m root page = leaf_translation ?e page"
      using tr_walk [OF order_refl T P(2,3) ok(1), of page] P(4) assms(2) by (simp add: translate_tr)
    then have "map_option tr_phys (translate m root page) = Some ((?e AND ADDRESS_MASK) + (page AND 0xFFF))"
      using ok(2) mask_low by (simp add: leaf_translation_def and.assoc)
    moreover have "leaf_translation 0 va = None" for va by (simp add: leaf_translation_def)
    moreover have "FlushPage page \<in> set (flushed m')" by (simp add: ok(4) pt_flush_def)
    ultimately have "unmapped m root page (containing_address (PhysAddr (?e AND ADDRESS_MASK))) m'"
      using W(4) masked_start [OF refl] by (simp add: unmapped_def C)
    then show ?thesis using W(1,2) ok(3) by (simp add: C)
  qed (use T in simp)
qed

text \<open>A page just mapped in the kernel's half is unmapped into the frame it was mapped to.\<close>

lemma unmap_mapped:
  assumes "tree m' 3 root" "is_canonical page" "nameable f" "frame_aligned f" "mapped m root page f fl m'" "KERNEL_SPACE_BASE \<le> page"
  shows "\<exists>m''. pt_unmap root page m' = (Inr f, m'') \<and> (\<forall>va. translate m'' root va = translate m root va)"
proof -
  let ?is = "take 3 (table_indices page)" and ?i = "table_indices page ! 3"
  obtain leaf where leaf: "walk m' root ?is = Some leaf" "entries m' leaf ?i = leaf_entry f fl"
    using assms(5) by (auto simp: mapped_def)
  let ?m = "pt_flush (FlushPage page) (pt_write leaf ?i 0 m')"
  note L = leaf_entry_flags [OF assms(3), of fl]
  have "start_address (containing_address (PhysAddr (p_u64 (start_address f)))) = start_address f"
    using masked_start [OF L(1)] by (metis phys_addr.collapse phys_addr.sel)
  then have "containing_address (PhysAddr (p_u64 (start_address f))) = f" by (simp add: start_address_def)
  then have run: "pt_unmap root page m' = (Inr f, ?m)"
    using leaf L(1,2) assms(6) by (simp add: pt_unmap_def Let_def unmap_walk_walk [THEN iffD2])
  have "unmapped m' root page f ?m" using pt_unmap_spec [OF assms(1,2) run] by simp
  then have "\<forall>va. translate ?m root va = translate m root va" using assms(5) by (auto simp: unmapped_def mapped_def)
  then show ?thesis using run by blast
qed

end
