(* ===== verification/Paging_Spaces.thy ===== *)
theory Paging_Spaces
  imports Paging_Map
begin

text \<open>
  Address spaces side by side: the kernel's half is the same tables in all of them, the lower halves have
  no table in common. Mapping a page of a process keeps that, and changes what no other space translates;
  a new process starts with the kernel's half and nothing else; a process that ends gives back each of its
  tables exactly once. The mapper's contract with its allocator is discharged for the frame allocator.
\<close>

section \<open>The allocator behind the tables\<close>

definition addressable_frames :: "frame_allocator \<Rightarrow> bool" where
  "addressable_frames a \<longleftrightarrow> (\<forall>n \<in> free_set a. n < 2 ^ 40)"

interpretation tf: table_frames allocate_frame "\<lambda>a. fa_inv a \<and> addressable_frames a" free_set
proof
  show "(fa_inv s' \<and> addressable_frames s') \<and> frame_aligned f \<and> number f \<in> free_set s \<and> free_set s' = free_set s - {number f}"
    if "fa_inv s \<and> addressable_frames s" "allocate_frame s = (Some f, s')" for s f s'
    using page_tables.alloc_Some [of s f s'] that by (auto simp: addressable_frames_def)
  show "free_set s = {} \<and> s' = s" if "fa_inv s \<and> addressable_frames s" "allocate_frame s = (None, s')" for s s'
    using page_tables.alloc_None [of s s'] that by blast
  show "finite (free_set s)" if "fa_inv s \<and> addressable_frames s" for s
    using page_tables.available_finite that by blast
  show "n < 2 ^ 40" if "fa_inv s \<and> addressable_frames s" "n \<in> free_set s" for s n
    using that by (simp add: addressable_frames_def)
qed

text \<open>The physical addresses of the frames that are free.\<close>

definition free_addresses :: "frame_allocator \<Rightarrow> u64 set" where
  "free_addresses a = {x. x mod 4096 = 0 \<and> unat (x div 4096) \<in> free_set a}"

lemma tf_fresh [simp]: "tf.fresh a = free_addresses a"
  by (simp add: tf.fresh_def free_addresses_def)

section \<open>One space\<close>

definition space_ok :: "table_memory \<Rightarrow> u64 \<Rightarrow> frame_allocator \<Rightarrow> bool" where
  "space_ok m root a \<longleftrightarrow> fa_inv a \<and> addressable_frames a \<and> tree m 3 root \<and> sub m 3 root \<inter> free_addresses a = {}"

lemma map_step:
  assumes "space_ok m root a" "is_canonical page" "nameable f" "pt_map allocate_frame root page f fl (m, a) = (r, m', a')"
  shows "space_ok m' root a'" "free_addresses a' \<subseteq> free_addresses a" "tf.touches m a m' a' 2 root (table_indices page ! 0)"
    "sub m' 3 root \<subseteq> sub m 3 root \<union> (free_addresses a - free_addresses a')"
    "if r = Inr () then mapped m root page f fl m' else \<forall>va. translate m' root va = translate m root va"
  using tf.pt_map_spec [OF _ _ _ assms(2-4)] assms(1) by (auto simp: space_ok_def)

section \<open>Spaces side by side\<close>

definition lower :: "table_memory \<Rightarrow> u64 \<Rightarrow> u64 set" where
  "lower m r = insert r (\<Union>i \<in> {..<KERNEL_SLOT}. below m 2 r i)"

definition shares_kernel :: "table_memory \<Rightarrow> u64 \<Rightarrow> u64 \<Rightarrow> bool" where
  "shares_kernel m r r' \<longleftrightarrow> (\<forall>i < ENTRIES. KERNEL_SLOT \<le> i \<longrightarrow> entries m r i = entries m r' i)"

definition apart :: "table_memory \<Rightarrow> u64 \<Rightarrow> u64 \<Rightarrow> bool" where
  "apart m r r' \<longleftrightarrow> shares_kernel m r r' \<and> lower m r \<inter> lower m r' = {}"

definition spaces_ok :: "table_memory \<Rightarrow> u64 set \<Rightarrow> frame_allocator \<Rightarrow> bool" where
  "spaces_ok m R a \<longleftrightarrow> (\<forall>r \<in> R. space_ok m r a) \<and> (\<forall>r \<in> R. \<forall>r' \<in> R. r \<noteq> r' \<longrightarrow> apart m r r')"

lemma kernel_slot: "KERNEL_SLOT = 256" "KERNEL_SLOT < ENTRIES"
  by (simp_all add: KERNEL_SLOT_def table_indices_def KERNEL_SPACE_BASE_def ENTRIES_def)

lemma user_slot:
  assumes "is_canonical page" "page < KERNEL_SPACE_BASE"
  shows "table_indices page ! 0 < KERNEL_SLOT"
proof -
  have "drop_bit 47 page = 0"
  proof (rule ccontr)
    assume "drop_bit 47 page \<noteq> 0"
    then have "page div 2 ^ 47 = 0x1FFFF" using assms(1) by (simp add: is_canonical_def drop_bit_eq_div)
    then have "unat (page div 2 ^ 47) = 0x1FFFF" by simp
    then have "unat page div 2 ^ 47 = 0x1FFFF" by (simp add: unat_div)
    then show False using assms(2) by (simp add: KERNEL_SPACE_BASE_def word_less_nat_alt)
  qed
  then have "unat page < 2 ^ 47" by (simp add: drop_bit_eq_div word_unat_eq_iff unat_div div_eq_0_iff)
  then have "unat (drop_bit 39 page) < 256" by (simp add: drop_bit_eq_div unat_div)
  moreover have "drop_bit 39 page AND 0x1FF \<le> drop_bit 39 page" by (rule word_and_le2)
  ultimately show ?thesis by (simp add: kernel_slot table_indices_def word_le_nat_alt)
qed

lemma below_share:
  assumes "shares_kernel m r r'" "KERNEL_SLOT \<le> i" "i < ENTRIES"
  shows "below m n r i = below m n r' i"
  using assms by (simp add: shares_kernel_def below_def next_of_def)

lemma sub_lower: "sub m 3 r = lower m r \<union> (\<Union>i \<in> {KERNEL_SLOT..<ENTRIES}. below m 2 r i)"
proof -
  have "{..<ENTRIES} = {..<KERNEL_SLOT} \<union> {KERNEL_SLOT..<ENTRIES}" using kernel_slot(2) by auto
  then show ?thesis unfolding three sub_below lower_def by blast
qed

lemma lower_cong:
  assumes "\<And>x. x \<in> lower m r \<Longrightarrow> entries m' x = entries m x"
  shows "lower m' r = lower m r"
proof -
  have r: "next_of m' r = next_of m r" using assms by (intro next_of_cong) (simp add: lower_def)
  have "below m' 2 r i = below m 2 r i" if "i < KERNEL_SLOT" for i
  proof (cases "next_of m r i")
    case (Some a)
    have "x \<in> lower m r" if "x \<in> sub m 2 a" for x
      using that Some \<open>i < KERNEL_SLOT\<close> unfolding lower_def by (auto simp: below_def intro!: bexI [of _ i])
    then have "sub m' 2 a = sub m 2 a" using assms by (intro sub_cong) blast
    then show ?thesis using Some by (simp add: below_def r)
  qed (simp add: below_def r)
  then show ?thesis by (simp add: lower_def)
qed

text \<open>What an operation on the space \<open>r\<close> does not reach in another space.\<close>

lemma untouched_elsewhere:
  assumes "space_ok m r a" "space_ok m r' a" "apart m r r'" "tf.touches m a m' a' 2 r i" "i < KERNEL_SLOT" "x \<in> sub m 3 r'"
  shows "entries m' x = entries m x"
proof -
  have T: "tree m (Suc 2) r" using assms(1) unfolding space_ok_def three by blast
  have i: "i < ENTRIES" using assms(5) kernel_slot(2) by linarith
  have "x \<notin> free_addresses a" using assms(2,6) by (auto simp: space_ok_def)
  moreover have "x \<noteq> r \<and> x \<notin> below m 2 r i"
  proof (cases "x \<in> lower m r'")
    case True
    then have "x \<notin> lower m r" using assms(3) by (auto simp: apart_def)
    then show ?thesis using assms(5) by (auto simp: lower_def)
  next
    case False
    then obtain j where j: "KERNEL_SLOT \<le> j" "j < ENTRIES" "x \<in> below m 2 r' j" using assms(6) by (auto simp: sub_lower)
    have "x \<in> below m 2 r j" using j below_share [of m r r' j 2] assms(3) by (simp add: apart_def)
    then show ?thesis using tf.below_root [OF T j(2)] tf.below_disjoint [OF T i j(2)] j(1) assms(5) by auto
  qed
  ultimately show ?thesis using assms(4) by (simp add: tf.touches_def)
qed

lemma unchanged_space:
  assumes "space_ok m r a" "\<And>x. x \<in> sub m 3 r \<Longrightarrow> entries m' x = entries m x" "free_addresses a' \<subseteq> free_addresses a"
    "fa_inv a'" "addressable_frames a'"
  shows "space_ok m' r a'" "lower m' r = lower m r" "entries m' r = entries m r" "translate m' r va = translate m r va"
proof -
  have T: "tree m 3 r" using assms(1) by (simp add: space_ok_def)
  have "tree m' 3 r" by (rule tree_cong [OF T assms(2)])
  moreover have "sub m' 3 r = sub m 3 r" by (rule sub_cong [OF assms(2)])
  ultimately show "space_ok m' r a'" using assms(1,3-5) by (auto simp: space_ok_def)
  show "lower m' r = lower m r" using assms(2) by (intro lower_cong) (simp add: sub_lower)
  show "entries m' r = entries m r" by (rule assms(2)) (rule sub_self)
  have "path (Suc 3) (table_indices va)" using table_indices_path(1) [of va] by (simp add: numeral_eq_Suc)
  then show "translate m' r va = translate m r va" using tr_cong [OF order_refl _ assms(2)] by (simp add: translate_tr)
qed

lemma apart_sym: "apart m r r' \<Longrightarrow> apart m r' r"
  by (auto simp: apart_def shares_kernel_def)

lemma lower_touched:
  assumes "space_ok m r a" "space_ok m' r a'" "tf.touches m a m' a' 2 r i" "i < KERNEL_SLOT"
    "sub m' 3 r \<subseteq> sub m 3 r \<union> (free_addresses a - free_addresses a')"
  shows "lower m' r \<subseteq> lower m r \<union> free_addresses a"
proof -
  have T: "tree m (Suc 2) r" "sub m (Suc 2) r \<inter> tf.fresh a = {}" "tree m' (Suc 2) r"
    "sub m' (Suc 2) r \<subseteq> sub m (Suc 2) r \<union> (tf.fresh a - tf.fresh a')"
    using assms(1,2,5) unfolding space_ok_def three tf_fresh by blast+
  have i: "i < ENTRIES" using assms(4) kernel_slot(2) by linarith
  have "below m' 2 r j \<subseteq> below m 2 r j \<union> free_addresses a" if "j < KERNEL_SLOT" for j
    using tf.touched_below(1) [OF assms(3) T(1,2) i, of j] tf.touched_below(2) [OF assms(3) T(1,2) i T(3,4)] that kernel_slot(2)
    by (cases "j = i") auto
  then show ?thesis unfolding lower_def by blast
qed

lemma user_map_apart:
  assumes "space_ok m r a" "space_ok m r' a" "apart m r r'" "is_canonical page" "nameable f" "page < KERNEL_SPACE_BASE"
    "pt_map allocate_frame r page f fl (m, a) = (res, m', a')"
  shows "space_ok m' r' a'" "apart m' r r'" "translate m' r' va = translate m r' va"
    "entries m' r' = entries m r'" "lower m' r' = lower m r'"
proof -
  note M = map_step [OF assms(1,4,5,7)] and slot = user_slot [OF assms(4,6)]
  have inv: "fa_inv a'" "addressable_frames a'" using M(1) by (simp_all add: space_ok_def)
  note U = unchanged_space [OF assms(2) untouched_elsewhere [OF assms(1-3) M(3) slot] M(2) inv]
  show "space_ok m' r' a'" "translate m' r' va = translate m r' va" "entries m' r' = entries m r'" "lower m' r' = lower m r'"
    using U by simp_all
  have "shares_kernel m' r r'"
    using assms(3) M(3) slot U(3) by (auto simp: apart_def shares_kernel_def tf.touches_def)
  moreover have "lower m r' \<inter> free_addresses a = {}" using assms(2) by (auto simp: space_ok_def sub_lower)
  ultimately show "apart m' r r'"
    using lower_touched [OF assms(1) M(1,3) slot M(4)] assms(3) U(2) unfolding apart_def by blast
qed

lemma user_map_spaces:
  assumes "spaces_ok m R a" "r \<in> R" "is_canonical page" "nameable f" "page < KERNEL_SPACE_BASE"
    "pt_map allocate_frame r page f fl (m, a) = (res, m', a')"
  shows "spaces_ok m' R a'" "r' \<in> R \<Longrightarrow> r' \<noteq> r \<Longrightarrow> translate m' r' va = translate m r' va"
proof -
  have ok: "space_ok m x a" if "x \<in> R" for x using assms(1) that by (simp add: spaces_ok_def)
  have ap: "apart m x y" if "x \<in> R" "y \<in> R" "x \<noteq> y" for x y using assms(1) that by (simp add: spaces_ok_def)
  note U = user_map_apart [OF ok [OF assms(2)] ok ap [OF assms(2)] assms(3-6)]
  show "translate m' r' va = translate m r' va" if "r' \<in> R" "r' \<noteq> r" using U(3) [OF that(1,1)] that(2) by metis
  have same: "entries m' x = entries m x" "lower m' x = lower m x" if "x \<in> R" "x \<noteq> r" for x
    using U(4,5) [OF that(1,1)] that(2) by metis+
  have "space_ok m' x a'" if "x \<in> R" for x
    using map_step(1) [OF ok [OF assms(2)] assms(3,4,6)] U(1) [OF that that] by (cases "x = r") auto
  moreover have "apart m' x y" if xy: "x \<in> R" "y \<in> R" "x \<noteq> y" for x y
  proof -
    consider "x = r" "y \<noteq> r" | "y = r" "x \<noteq> r" | "x \<noteq> r" "y \<noteq> r" using xy(3) by blast
    then show ?thesis
    proof cases
      case 1
      then show ?thesis using U(2) [OF xy(2,2)] by metis
    next
      case 2
      then show ?thesis using apart_sym U(2) [OF xy(1,1)] by metis
    next
      case 3
      then show ?thesis using ap [OF xy] same [OF xy(1)] same [OF xy(2)] by (simp add: apart_def shares_kernel_def)
    qed
  qed
  ultimately show "spaces_ok m' R a'" by (simp add: spaces_ok_def)
qed

section \<open>A new space\<close>

lemma copy_slots_entries:
  "old \<noteq> new \<Longrightarrow> entries (copy_slots old new slots m) = (entries m)(new := (\<lambda>i. if i \<in> set slots then entries m old i else entries m new i))"
  by (induction slots arbitrary: m) (auto simp: copy_slots_def fun_eq_iff)

lemma new_space_entries:
  assumes "space_ok m root a" "new_process_space allocate_frame root (m, a) = (Inr c, m', a')"
  shows "c \<in> free_addresses a" "free_addresses a' = free_addresses a - {c}" "fa_inv a'" "addressable_frames a'"
    "entries m' = (entries m)(c := entries m' c)"
    "i < ENTRIES \<Longrightarrow> entries m' c i = (if KERNEL_SLOT \<le> i then entries m root i else 0)"
proof -
  have inv: "fa_inv a \<and> addressable_frames a" using assms(1) by (simp add: space_ok_def)
  obtain m1 where m1: "new_table allocate_frame root (m, a) = (Inr c, m1, a')" "m' = copy_slots root c [KERNEL_SLOT..<ENTRIES] m1"
    using assms(2) by (auto simp: new_process_space_def io_bind_def split: prod.splits sum.splits)
  have N: "c \<in> free_addresses a" "free_addresses a' = free_addresses a - {c}" "fa_inv a'" "addressable_frames a'"
    "entries m1 = (entries m)(c := (\<lambda>i. if i < ENTRIES then 0 else entries m c i))"
    using tf.new_table_spec [OF inv m1(1)] by auto
  show "c \<in> free_addresses a" "free_addresses a' = free_addresses a - {c}" "fa_inv a'" "addressable_frames a'" by (fact N)+
  have "root \<in> sub m 3 root" by simp
  then have "root \<noteq> c" using assms(1) N(1) unfolding space_ok_def by blast
  note E = copy_slots_entries [OF this, of "[KERNEL_SLOT..<ENTRIES]" m1]
  show "entries m' = (entries m)(c := entries m' c)" by (simp add: m1(2) E N(5))
  show "entries m' c i = (if KERNEL_SLOT \<le> i then entries m root i else 0)" if "i < ENTRIES"
    using that \<open>root \<noteq> c\<close> by (simp add: m1(2) E N(5))
qed

lemma new_space_tree:
  assumes ok: "space_ok m root a" and new: "new_process_space allocate_frame root (m, a) = (Inr c, m', a')"
  shows "space_ok m' c a'" "lower m' c = {c}" "shares_kernel m' c root"
proof -
  note N = new_space_entries [OF ok new]
  have T: "tree m (Suc 2) root" "sub m (Suc 2) root \<inter> free_addresses a = {}" using ok unfolding space_ok_def three by blast+
  have same: "entries m' x = entries m x" if "x \<in> sub m (Suc 2) root" for x
    using N(1) T(2) that fun_upd_other [of x c "entries m"] N(5) by (metis disjoint_iff)
  have nx: "next_of m' c i = (if KERNEL_SLOT \<le> i then next_of m root i else None)" if "i < ENTRIES" for i
    using N(6) [OF that] by (simp add: next_of_def)
  have child: "sub m' 2 b = sub m 2 b" "tree m' 2 b" "sub m 2 b \<subseteq> sub m (Suc 2) root"
    if "i < ENTRIES" "next_of m root i = Some b" for i b
    using sub_child [OF that, of 2] same sub_cong [of m 2 b m'] tree_cong [OF treeD(4) [OF T(1) that]] by blast+
  have "tree m' (Suc 2) c"
  proof (rule treeI)
    fix i b assume i: "i < ENTRIES" "next_of m' c i = Some b"
    then have k: "KERNEL_SLOT \<le> i" "next_of m root i = Some b" using nx [OF i(1)] by (auto split: if_splits)
    have "c \<notin> sub m' 2 b" using child [OF i(1) k(2)] T(2) N(1) by blast
    then show "entries m' c i AND WRITABLE \<noteq> 0 \<and> entries m' c i AND NO_EXECUTE = 0 \<and> c \<notin> sub m' 2 b \<and> tree m' 2 b"
      using treeD(1,2) [OF T(1) i(1) k(2)] child(2) [OF i(1) k(2)] N(6) [OF i(1)] k(1) by simp
  next
    fix i j b d assume ij: "i < ENTRIES" "j < ENTRIES" "i \<noteq> j" "next_of m' c i = Some b" "next_of m' c j = Some d"
    then have k: "next_of m root i = Some b" "next_of m root j = Some d" using nx by (auto split: if_splits)
    show "sub m' 2 b \<inter> sub m' 2 d = {}"
      using treeD(5) [OF T(1) ij(1) k(1) ij(2,3) k(2)] child(1) [OF ij(1) k(1)] child(1) [OF ij(2) k(2)] by simp
  qed
  moreover have low: "below m' 2 c i = {}" if "i < KERNEL_SLOT" for i
    using nx [of i] that kernel_slot(2) by (simp add: below_def)
  moreover have high: "below m' 2 c i = below m 2 root i" if "i < ENTRIES" "KERNEL_SLOT \<le> i" for i
    using nx [OF that(1)] that(2) child(1) [OF that(1)] by (simp add: below_def split: option.splits)
  have "x \<notin> free_addresses a'" if "x \<in> below m 2 root i" "i < ENTRIES" for x i
  proof -
    have "x \<in> sub m (Suc 2) root" using that unfolding sub_below by blast
    then show ?thesis using T(2) N(2) by blast
  qed
  then have "sub m' 3 c \<inter> free_addresses a' = {}" using low high N(2) by (auto simp: sub_lower lower_def)
  ultimately show "space_ok m' c a'" using N(3,4) unfolding space_ok_def three by blast
  show "lower m' c = {c}" using low by (simp add: lower_def)
  have "root \<noteq> c" using T(2) N(1) sub_self by blast
  then show "shares_kernel m' c root" using N(6) same [OF sub_self] by (simp add: shares_kernel_def)
qed

lemma new_space_same:
  assumes "space_ok m r a" "space_ok m root a" "new_process_space allocate_frame root (m, a) = (Inr c, m', a')" "x \<in> sub m 3 r"
  shows "entries m' x = entries m x"
proof -
  note N = new_space_entries [OF assms(2,3)]
  have "x \<noteq> c" using assms(1,4) N(1) by (auto simp: space_ok_def)
  then show ?thesis using N(5) fun_upd_other [of x c "entries m"] by metis
qed

lemma new_space_translate:
  assumes ok: "space_ok m root a" and new: "new_process_space allocate_frame root (m, a) = (Inr c, m', a')"
  shows "translate m' c va = (if KERNEL_SLOT \<le> table_indices va ! 0 then translate m root va else None)"
proof -
  note N = new_space_entries [OF ok new]
  obtain i js where i: "table_indices va = i # js" "i < ENTRIES" "path (Suc 2) js"
    using table_indices_path(1) [of va] by (cases "table_indices va") (auto simp: numeral_eq_Suc)
  note root = tr_step [of 2, simplified, unfolded Let_def]
  have e: "entries m' c i = (if KERNEL_SLOT \<le> i then entries m root i else 0)" by (rule N(6) [OF i(2)])
  then have nx: "next_of m' c i = (if KERNEL_SLOT \<le> i then next_of m root i else None)" by (simp add: next_of_def)
  have "tr m' va 2 b w js = tr m va 2 b w js" if b: "next_of m root i = Some b" for b w
  proof (rule tr_cong [OF _ i(3)])
    fix x assume "x \<in> sub m 2 b"
    then have "x \<in> sub m 3 root" using sub_child [OF i(2) b, of 2] unfolding three by blast
    then show "entries m' x = entries m x" by (rule new_space_same [OF ok ok new])
  qed simp
  then have "tr m' va 3 c True (i # js) = (if KERNEL_SLOT \<le> i then tr m va 3 root True (i # js) else None)"
    by (cases "next_of m root i") (simp_all add: root e nx)
  then show ?thesis by (simp add: translate_tr i(1))
qed

lemma new_space_spaces:
  assumes R: "spaces_ok m R a" "root \<in> R" and new: "new_process_space allocate_frame root (m, a) = (Inr c, m', a')"
  shows "spaces_ok m' (insert c R) a'" "c \<notin> R" "r \<in> R \<Longrightarrow> translate m' r va = translate m r va"
proof -
  have ok: "space_ok m x a" if "x \<in> R" for x using R(1) that by (simp add: spaces_ok_def)
  note N = new_space_entries [OF ok [OF R(2)] new] and C = new_space_tree [OF ok [OF R(2)] new]
  have U: "space_ok m' x a'" "lower m' x = lower m x" "entries m' x = entries m x" "translate m' x va = translate m x va" "x \<noteq> c" "c \<notin> lower m x"
    if "x \<in> R" for x va
  proof -
    have f: "free_addresses a' \<subseteq> free_addresses a" using N(2) by blast
    note V = unchanged_space [OF ok [OF that] new_space_same [OF ok [OF that] ok [OF R(2)] new] f N(3,4)]
    show "space_ok m' x a'" "lower m' x = lower m x" "entries m' x = entries m x" "translate m' x va = translate m x va"
      using V by simp_all
    have "c \<notin> sub m 3 x" using ok [OF that] N(1) by (auto simp: space_ok_def)
    then show "x \<noteq> c" "c \<notin> lower m x" using sub_self [of x m 3] by (auto simp: sub_lower)
  qed
  show "c \<notin> R" using U(5) by blast
  show "r \<in> R \<Longrightarrow> translate m' r va = translate m r va" by (rule U(4))
  have old: "apart m' x y" if "x \<in> R" "y \<in> R" "x \<noteq> y" for x y
  proof -
    have "apart m x y" using R(1) that unfolding spaces_ok_def by blast
    then show ?thesis using U(2,3) [OF that(1)] U(2,3) [OF that(2)] unfolding apart_def shares_kernel_def by simp
  qed
  have "apart m' c y" if "y \<in> R" for y
  proof -
    have "shares_kernel m' c y"
    proof (cases "y = root")
      case False
      then have "shares_kernel m' root y" using old [OF R(2) that] by (simp add: apart_def)
      then show ?thesis using C(3) by (simp add: shares_kernel_def)
    qed (use C(3) in simp)
    then show ?thesis using C(2) U(2,6) [OF that] by (simp add: apart_def)
  qed
  then show "spaces_ok m' (insert c R) a'" using old C(1) U(1) apart_sym by (auto simp: spaces_ok_def)
qed

section \<open>A space that ends\<close>

text \<open>The tables of a subtree in the order they are given back: every table after the ones below it.\<close>

fun post :: "table_memory \<Rightarrow> nat \<Rightarrow> u64 \<Rightarrow> u64 list" where
  "post m 0 t = [t]"
| "post m (Suc n) t = concat (map (\<lambda>i. case next_of m t i of None \<Rightarrow> [] | Some a \<Rightarrow> post m n a) [0..<ENTRIES]) @ [t]"

definition post_below :: "table_memory \<Rightarrow> nat \<Rightarrow> u64 \<Rightarrow> usize \<Rightarrow> u64 list" where
  "post_below m n t i = (case next_of m t i of None \<Rightarrow> [] | Some a \<Rightarrow> post m n a)"

lemma set_post [simp]: "set (post m n t) = sub m n t"
  by (induction n arbitrary: t) (auto split: option.splits)

lemma set_post_below [simp]: "set (post_below m n t i) = below m n t i"
  by (simp add: post_below_def below_def split: option.splits)

lemma distinct_concat_upto:
  assumes "\<And>i. i < k \<Longrightarrow> distinct (f i)" "\<And>i j. i < k \<Longrightarrow> j < k \<Longrightarrow> i \<noteq> j \<Longrightarrow> set (f i) \<inter> set (f j) = {}"
  shows "distinct (concat (map f [0..<k]))"
  using assms
proof (induction k)
  case (Suc k)
  have "distinct (concat (map f [0..<k]))" using Suc.prems by (intro Suc.IH) auto
  moreover have "set (concat (map f [0..<k])) \<inter> set (f k) = {}" 
  proof -
    have "\<forall>i \<in> {0..<k}. set (f i) \<inter> set (f k) = {}" using Suc.prems(2) by simp
    then show ?thesis by (simp only: set_concat set_map set_upt) blast
  qed
  ultimately show ?case using Suc.prems(1) [of k] by simp
qed simp

lemma distinct_post: "tree m n t \<Longrightarrow> distinct (post m n t)"
proof (induction n arbitrary: t)
  case (Suc n)
  have "distinct (post_below m n t i)" if "i < ENTRIES" for i
    using Suc.IH treeD(4) [OF Suc.prems that] by (simp add: post_below_def split: option.splits)
  then have "distinct (concat (map (post_below m n t) [0..<ENTRIES]))"
    using tf.below_disjoint [OF Suc.prems] by (intro distinct_concat_upto) auto
  moreover have "t \<notin> set (concat (map (post_below m n t) [0..<ENTRIES]))" using tf.below_root [OF Suc.prems] by auto
  ultimately show ?case by (simp add: post_below_def [abs_def])
qed simp

lemma fold_concat_map: "fold f (concat (map g is)) = fold (\<lambda>i. fold f (g i)) is"
  by (induction "is") (auto simp: fun_eq_iff)

lemma post_Suc: "post m (Suc n) t = concat (map (post_below m n t) [0..<ENTRIES]) @ [t]"
  by (simp add: post_below_def [abs_def])

lemma fold_children:
  assumes "\<And>a. F a = fold (hand_back gb) (post m n a)"
  shows "fold (\<lambda>i st. let e = entries m t i in if e AND PRESENT = 0 \<or> e AND HUGE \<noteq> 0 then st else F (e AND ADDRESS_MASK) st) is
    = fold (hand_back gb) (concat (map (post_below m n t) is))"
proof -
  have "(\<lambda>i st. let e = entries m t i in if e AND PRESENT = 0 \<or> e AND HUGE \<noteq> 0 then st else F (e AND ADDRESS_MASK) st)
      = (\<lambda>i. fold (hand_back gb) (post_below m n t i))"
    by (simp add: fun_eq_iff post_below_def next_of_def Let_def assms)
  then show ?thesis by (simp add: fold_concat_map)
qed

lemma free_directory_post: "free_directory gb m d st = fold (hand_back gb) (post m (Suc 0) d) st"
  using fold_children [of "hand_back gb" gb m 0 d "[0..<ENTRIES]"] by (simp add: free_directory_def post_Suc del: post.simps(2))

lemma free_pointers_post: "free_pointers gb m p st = fold (hand_back gb) (post m 2 p) st"
proof -
  have d: "free_directory gb m a = fold (hand_back gb) (post m (Suc 0) a)" for a by (rule ext) (rule free_directory_post)
  show ?thesis using fold_children [OF d, of p "[0..<ENTRIES]"]
    by (simp add: free_pointers_def post_Suc [of m "Suc 0"] numeral_2_eq_2 del: post.simps(2))
qed

lemma post_cong: "(\<And>x. x \<in> sub m n t \<Longrightarrow> entries m' x = entries m x) \<Longrightarrow> post m' n t = post m n t"
proof (induction n arbitrary: t)
  case (Suc n)
  have nx: "next_of m' t = next_of m t" using Suc.prems by (intro next_of_cong) simp
  have "post m' n a = post m n a" if "i < ENTRIES" "next_of m t i = Some a" for i a
    using sub_child [OF that] Suc.prems by (intro Suc.IH) blast
  then have "post_below m' n t i = post_below m n t i" if "i < ENTRIES" for i
    using that by (simp add: post_below_def nx split: option.splits)
  then have "map (post_below m' n t) [0..<ENTRIES] = map (post_below m n t) [0..<ENTRIES]" by simp
  then show ?case by (simp only: post_Suc)
qed simp

text \<open>The slots of the lower half in turn, each cleared once the tables behind it are given back.\<close>

lemma free_slots:
  assumes "root \<notin> (\<Union>i \<in> set slots. below m 2 root i)" "distinct slots" "\<forall>i \<in> set slots. entries m root i AND HUGE = 0"
    "\<And>i. i \<in> set slots \<Longrightarrow> entries m1 root i = entries m root i" "\<And>x. x \<noteq> root \<Longrightarrow> entries m1 x = entries m x"
  shows "\<exists>m'. fold (free_slot gb root) slots (m1, st) = (m', fold (hand_back gb) (concat (map (post_below m 2 root) slots)) st) \<and>
    entries m' = (entries m1)(root := (\<lambda>i. if i \<in> set slots \<and> entries m root i AND PRESENT \<noteq> 0 then 0 else entries m1 root i))"
  using assms(2-5) assms(1)
proof (induction slots arbitrary: m1 st)
  case (Cons i slots)
  let ?e = "entries m root i"
  have e: "entries m1 root i = ?e" using Cons.prems(3) by simp
  show ?case
  proof (cases "?e AND PRESENT = 0")
    case True
    then have "free_slot gb root i (m1, st) = (m1, st)" "post_below m 2 root i = []"
      by (simp_all add: free_slot_def e post_below_def next_of_def)
    then show ?thesis using Cons.IH [of m1 st] Cons.prems True by (auto simp: fun_eq_iff)
  next
    case False
    then have nx: "next_of m root i = Some (?e AND ADDRESS_MASK)" using Cons.prems(2) by (simp add: next_of_def)
    let ?m1 = "pt_write root i 0 m1"
    have post: "post m1 2 (?e AND ADDRESS_MASK) = post m 2 (?e AND ADDRESS_MASK)"
    proof (rule post_cong)
      fix x assume "x \<in> sub m 2 (?e AND ADDRESS_MASK)"
      then have "x \<in> below m 2 root i" by (simp add: below_def nx)
      then have "x \<noteq> root" using Cons.prems(5) by auto
      then show "entries m1 x = entries m x" by (rule Cons.prems(4))
    qed
    have step: "free_slot gb root i (m1, st) = (?m1, fold (hand_back gb) (post_below m 2 root i) st)"
      using False by (simp add: free_slot_def e free_pointers_post post post_below_def nx)
    have p: "distinct slots" "\<forall>i \<in> set slots. entries m root i AND HUGE = 0" "root \<notin> (\<Union>i \<in> set slots. below m 2 root i)"
      using Cons.prems(1,2,5) by auto
    have r: "entries ?m1 root j = entries m root j" if "j \<in> set slots" for j using Cons.prems(1,3) that by auto
    have x: "entries ?m1 x = entries m x" if "x \<noteq> root" for x using Cons.prems(4) [OF that] that by simp
    obtain m' where m': "fold (free_slot gb root) slots (?m1, fold (hand_back gb) (post_below m 2 root i) st) =
        (m', fold (hand_back gb) (concat (map (post_below m 2 root) slots)) (fold (hand_back gb) (post_below m 2 root i) st))"
      "entries m' = (entries ?m1)(root := (\<lambda>i. if i \<in> set slots \<and> entries m root i AND PRESENT \<noteq> 0 then 0 else entries ?m1 root i))"
      using Cons.IH [OF p(1,2) r x p(3)] by blast
    have "entries m' = (entries m1)(root := (\<lambda>j. if j \<in> set (i # slots) \<and> entries m root j AND PRESENT \<noteq> 0 then 0 else entries m1 root j))"
      using m'(2) False by (auto simp: fun_eq_iff)
    then show ?thesis using m'(1) step by auto
  qed
qed (auto simp: fun_eq_iff)

lemma free_lower_half_spec:
  assumes "tree m 3 root" "\<forall>i < KERNEL_SLOT. entries m root i AND HUGE = 0"
  shows "\<exists>m' ts. free_lower_half gb root m g = (m', fold (hand_back gb) ts (0, g)) \<and> distinct ts \<and> set ts = lower m root \<and>
    (\<forall>i < KERNEL_SLOT. entries m' root i AND PRESENT = 0) \<and>
    (\<forall>x i. x \<noteq> root \<or> KERNEL_SLOT \<le> i \<longrightarrow> entries m' x i = entries m x i)"
proof -
  have T: "tree m (Suc 2) root" using assms(1) unfolding three .
  have E: "i < ENTRIES" if "i < KERNEL_SLOT" for i using that kernel_slot(2) by linarith
  let ?slots = "[0..<KERNEL_SLOT]" and ?ts = "concat (map (post_below m 2 root) [0..<KERNEL_SLOT]) @ [root]"
  have r: "root \<notin> (\<Union>i \<in> set ?slots. below m 2 root i)" using tf.below_root [OF T E] by auto
  obtain m' where m': "fold (free_slot gb root) ?slots (m, 0, g) = (m', fold (hand_back gb) (concat (map (post_below m 2 root) ?slots)) (0, g))"
    "entries m' = (entries m)(root := (\<lambda>i. if i \<in> set ?slots \<and> entries m root i AND PRESENT \<noteq> 0 then 0 else entries m root i))"
    using free_slots [OF r, of m gb "(0, g)"] assms(2) by auto
  have "free_lower_half gb root m g = (m', fold (hand_back gb) ?ts (0, g))" by (simp add: free_lower_half_def m'(1))
  moreover have "distinct (post_below m 2 root i)" if "i < KERNEL_SLOT" for i
    using distinct_post treeD(4) [OF T E [OF that]] by (simp add: post_below_def split: option.splits)
  then have "distinct (concat (map (post_below m 2 root) ?slots))"
    using tf.below_disjoint [OF T E E] by (intro distinct_concat_upto) auto
  then have "distinct ?ts" using r by simp
  moreover have "set ?ts = lower m root" by (auto simp: lower_def)
  moreover have "\<forall>i < KERNEL_SLOT. entries m' root i AND PRESENT = 0" by (simp add: m'(2))
  moreover have "\<forall>x i. x \<noteq> root \<or> KERNEL_SLOT \<le> i \<longrightarrow> entries m' x i = entries m x i" by (auto simp: m'(2))
  ultimately show ?thesis by blast
qed

section \<open>A concrete machine\<close>

text \<open>
  The kernel's space at \<open>0x10000\<close> and that of a process at \<open>0x11000\<close>: one page table of kernel space,
  the window onto physical memory as one page of 1 GiB, and the tables of the process's first pages.
\<close>

definition sample_entry :: "u64 \<Rightarrow> usize \<Rightarrow> u64" where
  "sample_entry t i =
     (if t = 0x10000 \<or> t = 0x11000
      then if i = 256 then 0x12003 else if i = 257 then 0x15003 else if t = 0x11000 \<and> i = 0 then 0x16007 else 0
      else if i \<noteq> 0 then 0
      else if t = 0x12000 then 0x13003 else if t = 0x13000 then 0x14003
      else if t = 0x15000 then 0x83
      else if t = 0x16000 then 0x17007 else if t = 0x17000 then 0x18007 else 0)"

definition sample_tables :: table_memory where
  "sample_tables = \<lparr>entries = sample_entry, flushed = [], table_window = 0xFFFF808000000000\<rparr>"

lemma sample_next_of:
  "next_of sample_tables t i =
     (if t = 0x10000 \<or> t = 0x11000
      then if i = 256 then Some 0x12000 else if i = 257 then Some 0x15000 else if t = 0x11000 \<and> i = 0 then Some 0x16000 else None
      else if i \<noteq> 0 then None
      else if t = 0x12000 then Some 0x13000 else if t = 0x13000 then Some 0x14000
      else if t = 0x16000 then Some 0x17000 else if t = 0x17000 then Some 0x18000 else None)"
  by (simp add: next_of_def sample_tables_def sample_entry_def paging_bits)

lemma sub_one: "next_of m t = (\<lambda>i. if i = 0 then Some c else None) \<Longrightarrow> sub m (Suc n) t = insert t (sub m n c)"
proof -
  have "0 \<in> {..<ENTRIES}" by (simp add: ENTRIES_def)
  moreover assume "next_of m t = (\<lambda>i. if i = 0 then Some c else None)"
  ultimately show ?thesis unfolding sub_below by (auto simp: below_def split: if_splits)
qed

lemma tree_one:
  assumes "next_of m t = (\<lambda>i. if i = 0 then Some c else None)" "entries m t 0 AND WRITABLE \<noteq> 0" "entries m t 0 AND NO_EXECUTE = 0"
    "t \<notin> sub m n c" "tree m n c"
  shows "tree m (Suc n) t"
  using assms by (intro treeI) (auto split: if_splits)

lemma sample_first:
  "next_of sample_tables 0x12000 = (\<lambda>i. if i = 0 then Some 0x13000 else None)" "next_of sample_tables 0x13000 = (\<lambda>i. if i = 0 then Some 0x14000 else None)"
  "next_of sample_tables 0x16000 = (\<lambda>i. if i = 0 then Some 0x17000 else None)" "next_of sample_tables 0x17000 = (\<lambda>i. if i = 0 then Some 0x18000 else None)"
  "next_of sample_tables 0x15000 = (\<lambda>i. None)"
  by (simp_all add: fun_eq_iff sample_next_of)

lemma sample_subs:
  "sub sample_tables 2 0x12000 = {0x12000, 0x13000, 0x14000}" "sub sample_tables 2 0x16000 = {0x16000, 0x17000, 0x18000}"
  "sub sample_tables 2 0x15000 = {0x15000}"
  by (simp_all add: numeral_2_eq_2 sub_one sample_first del: sub.simps(2)) (simp add: sample_first)

lemma sample_below:
  "below sample_tables 2 0x10000 i = (if i = 256 then {0x12000, 0x13000, 0x14000} else if i = 257 then {0x15000} else {})"
  "below sample_tables 2 0x11000 i = (if i = 256 then {0x12000, 0x13000, 0x14000} else if i = 257 then {0x15000}
     else if i = 0 then {0x16000, 0x17000, 0x18000} else {})"
  by (simp_all add: below_def sample_next_of sample_subs)

lemma sample_lower: "lower sample_tables 0x10000 = {0x10000}" "lower sample_tables 0x11000 = {0x11000, 0x16000, 0x17000, 0x18000}"
  by (auto simp: lower_def sample_below kernel_slot split: if_splits intro!: bexI [of _ 0])

lemma sample_sub:
  "sub sample_tables 3 0x10000 \<subseteq> {0x10000, 0x12000, 0x13000, 0x14000, 0x15000}"
  "sub sample_tables 3 0x11000 \<subseteq> {0x11000, 0x12000, 0x13000, 0x14000, 0x15000, 0x16000, 0x17000, 0x18000}"
  by (auto simp: sub_lower sample_lower sample_below split: if_splits)

lemma sample_tree2: "tree sample_tables 2 0x12000" "tree sample_tables 2 0x15000" "tree sample_tables 2 0x16000"
proof -
  have e: "entries sample_tables t 0 AND WRITABLE \<noteq> 0" "entries sample_tables t 0 AND NO_EXECUTE = 0"
    if "t = 0x12000 \<or> t = 0x13000 \<or> t = 0x16000 \<or> t = 0x17000" for t
    using that by (auto simp: sample_tables_def sample_entry_def paging_bits)
  have 1: "tree sample_tables (Suc 0) 0x13000" "tree sample_tables (Suc 0) 0x17000"
    by (rule tree_one [OF sample_first(2) e [of "0x13000"]]; simp) (rule tree_one [OF sample_first(4) e [of "0x17000"]]; simp)
  show "tree sample_tables 2 0x12000" unfolding numeral_2_eq_2
    by (rule tree_one [OF sample_first(1) _ _ _ 1(1)]) (simp_all add: e sub_one sample_first del: sub.simps(2))
  show "tree sample_tables 2 0x16000" unfolding numeral_2_eq_2
    by (rule tree_one [OF sample_first(3) _ _ _ 1(2)]) (simp_all add: e sub_one sample_first del: sub.simps(2))
  show "tree sample_tables 2 0x15000" unfolding numeral_2_eq_2 by (rule treeI) (simp_all add: sample_first)
qed

lemma sample_entries: "entries sample_tables = sample_entry"
  by (simp add: sample_tables_def)

lemma sample_tree: "tree sample_tables 3 0x10000" "tree sample_tables 3 0x11000"
proof -
  have e: "entries sample_tables t i AND WRITABLE \<noteq> 0 \<and> entries sample_tables t i AND NO_EXECUTE = 0"
    if "next_of sample_tables t i = Some b" for t i b
    using that by (auto simp: sample_next_of sample_entries sample_entry_def paging_bits split: if_splits)
  have n: "t \<notin> sub sample_tables 2 b \<and> tree sample_tables 2 b"
    if "t = 0x10000 \<or> t = 0x11000" "next_of sample_tables t i = Some b" for t i b
    using that by (auto simp: sample_next_of sample_subs sample_tree2 split: if_splits)
  have slot: "i = (if x = 0x12000 \<or> x = 0x13000 \<or> x = 0x14000 then 256 else if x = 0x15000 then 257 else 0)"
    if "t = 0x10000 \<or> t = 0x11000" "x \<in> below sample_tables 2 t i" for t i x
    using that by (elim disjE) (simp_all add: sample_below split: if_splits, fastforce+)
  have d: "sub sample_tables 2 b \<inter> sub sample_tables 2 c = {}"
    if "t = 0x10000 \<or> t = 0x11000" "i \<noteq> j" "next_of sample_tables t i = Some b" "next_of sample_tables t j = Some c" for t i j b c
  proof -
    have "sub sample_tables 2 b = below sample_tables 2 t i" "sub sample_tables 2 c = below sample_tables 2 t j"
      using that(3,4) by (simp_all add: below_def)
    then show ?thesis using slot [OF that(1)] that(2) by blast
  qed
  have "tree sample_tables (Suc 2) t" if "t = 0x10000 \<or> t = 0x11000" for t
    by (rule treeI) (use e n [OF that] d [OF that] in blast)+
  then show "tree sample_tables 3 0x10000" "tree sample_tables 3 0x11000" by simp_all
qed

lemma sample_free_set: "n \<in> free_set sample_allocator \<Longrightarrow> n < 8"
proof -
  assume n: "n \<in> free_set sample_allocator"
  then have c: "n < 64" "\<not> bit (0xFFFFFFFFFFFFFF0F :: u64) n"
    by (auto simp: free_set_def free_bits_def sample_bitmap bit_of_iff)
  have "\<forall>k \<in> {0..<64}. \<not> bit (0xFFFFFFFFFFFFFF0F :: u64) k \<longrightarrow> k < 8" by code_simp
  then show ?thesis using c by auto
qed

lemma sample_spaces: "spaces_ok sample_tables {0x10000, 0x11000} sample_allocator"
proof -
  have inv: "fa_inv sample_allocator" using fa_reachable_inv [OF sample_reachable] by blast
  have ad: "addressable_frames sample_allocator" using sample_free_set by (force simp: addressable_frames_def)
  have free: "x < 0x8000" if "x \<in> free_addresses sample_allocator" for x
  proof -
    have "unat x div 4096 < 8" using sample_free_set that by (auto simp: free_addresses_def unat_div)
    then show ?thesis by (simp add: word_less_nat_alt)
  qed
  have "sub sample_tables 3 r \<inter> free_addresses sample_allocator = {}" if "r = 0x10000 \<or> r = 0x11000" for r
    using that sample_sub by (auto dest!: free)
  then have "space_ok sample_tables r sample_allocator" if "r = 0x10000 \<or> r = 0x11000" for r
    using that inv ad sample_tree by (auto simp: space_ok_def)
  moreover have "apart sample_tables 0x10000 0x11000"
    by (auto simp: apart_def shares_kernel_def sample_lower kernel_slot sample_entries sample_entry_def)
  ultimately show ?thesis using apart_sym by (auto simp: spaces_ok_def)
qed

definition sample_frame :: phys_frame where "sample_frame = \<lparr>frame_start = PhysAddr 0x9000\<rparr>"

lemma sample_kernel_page: "is_canonical KERNEL_SPACE_BASE" "is_canonical 0" "nameable sample_frame" "frame_aligned sample_frame"
  by (simp_all add: is_canonical_def KERNEL_SPACE_BASE_def nameable_def sample_frame_def start_address_def ADDRESS_MASK_def
      frame_aligned_def is_aligned_to_def is_multiple_of_def FRAME_SIZE_def)

lemma sample_kernel_map: "\<exists>m'. pt_map allocate_frame 0x10000 KERNEL_SPACE_BASE sample_frame (kernel_flags True False) (sample_tables, sample_allocator)
    = (Inr (), m', sample_allocator)"
  by (simp add: pt_map_def kernel_flags_def Let_def table_indices_def KERNEL_SPACE_BASE_def io_bind_def io_read_def io_write_def
      io_flush_def io_ret_def sample_entries sample_entry_def paging_bits numeral_3_eq_3)

lemma sample_user_map: "\<exists>m'. pt_map allocate_frame 0x11000 0 sample_frame (user_flags True False) (sample_tables, sample_allocator)
    = (Inr (), m', sample_allocator)"
  by (simp add: pt_map_def user_flags_def Let_def table_indices_def KERNEL_SPACE_BASE_def io_bind_def io_read_def io_write_def
      io_flush_def io_ret_def sample_entries sample_entry_def paging_bits numeral_3_eq_3)

lemma sample_new_space: "\<exists>m' a'. new_process_space allocate_frame 0x10000 (sample_tables, sample_allocator) = (Inr 0x4000, m', a')"
proof -
  have "fst (allocate_frame sample_allocator) = Some (frame_no 4)"
    using sample_allocate by (simp add: allocate_frame_def allocate_for_def split: prod.splits option.splits)
  then obtain a' where a': "allocate_frame sample_allocator = (Some (frame_no 4), a')" by (metis prod.collapse)
  have w: "translate sample_tables 0x10000 0xFFFF808000004000 = Some \<lparr>tr_phys = 0x4000, tr_writable = True, tr_page_size = 0x40000000\<rparr>"
    by (simp add: translate_def is_canonical_def table_indices_def sample_entries sample_entry_def paging_bits Let_def)
  show ?thesis using a' w
    by (simp add: new_process_space_def new_table_def io_bind_def start_address_def containing_address_def FRAME_SIZE_def align_down_def
        sample_tables_def)
qed

section \<open>Properties\<close>

text \<open>
  C25. \<open>map\<close> adds one page or nothing. In a space whose tables form a tree that no free frame is part of,
  a call of \<open>map\<close> leaves such a space. If it succeeds the page was free before, it now leads to the frame
  given, writable and executable and reachable from ring 3 exactly as asked along the whole path, its
  translation was flushed and every other address translates as before. If it fails, for whatever reason
  and however many tables it had already linked, every address translates as before.
\<close>

theorem map_adds_one_page:
  assumes "space_ok m root a" "is_canonical page" "nameable f" "pt_map allocate_frame root page f fl (m, a) = (r, m', a')"
  shows "space_ok m' root a' \<and> free_addresses a' \<subseteq> free_addresses a \<and>
    (if r = Inr () then mapped m root page f fl m' else \<forall>va. translate m' root va = translate m root va)"
  using map_step [OF assms] by simp

theorem map_adds_one_page_witness:
  "\<exists>m'. pt_map allocate_frame 0x10000 KERNEL_SPACE_BASE sample_frame (kernel_flags True False) (sample_tables, sample_allocator)
      = (Inr (), m', sample_allocator) \<and>
    mapped sample_tables 0x10000 KERNEL_SPACE_BASE sample_frame (kernel_flags True False) m'"
proof -
  have ok: "space_ok sample_tables 0x10000 sample_allocator" using sample_spaces by (simp add: spaces_ok_def)
  obtain m' where m': "pt_map allocate_frame 0x10000 KERNEL_SPACE_BASE sample_frame (kernel_flags True False) (sample_tables, sample_allocator)
      = (Inr (), m', sample_allocator)" using sample_kernel_map by blast
  show ?thesis using map_adds_one_page [OF ok sample_kernel_page(1,3) m'] m' by auto
qed

text \<open>
  \<open>unmap\<close> takes back what \<open>map\<close> did: a page just mapped in kernel space is unmapped into the very frame
  it was mapped to, and afterwards every address translates as before the two calls.
\<close>

theorem unmap_undoes_map:
  assumes "space_ok m root a" "is_canonical page" "nameable f" "frame_aligned f" "KERNEL_SPACE_BASE \<le> page"
    "pt_map allocate_frame root page f fl (m, a) = (Inr (), m', a')"
  shows "\<exists>m''. pt_unmap root page m' = (Inr f, m'') \<and> (\<forall>va. translate m'' root va = translate m root va)"
proof -
  have "tree m' 3 root" "mapped m root page f fl m'" using map_step [OF assms(1-3,6)] by (simp_all add: space_ok_def)
  then show ?thesis using unmap_mapped assms(2-5) by blast
qed

theorem unmap_undoes_map_witness:
  "\<exists>m' m''. pt_map allocate_frame 0x10000 KERNEL_SPACE_BASE sample_frame (kernel_flags True False) (sample_tables, sample_allocator)
      = (Inr (), m', sample_allocator) \<and> pt_unmap 0x10000 KERNEL_SPACE_BASE m' = (Inr sample_frame, m'')"
proof -
  have ok: "space_ok sample_tables 0x10000 sample_allocator" using sample_spaces by (simp add: spaces_ok_def)
  obtain m' where m': "pt_map allocate_frame 0x10000 KERNEL_SPACE_BASE sample_frame (kernel_flags True False) (sample_tables, sample_allocator)
      = (Inr (), m', sample_allocator)" using sample_kernel_map by blast
  show ?thesis using unmap_undoes_map [OF ok sample_kernel_page(1,3,4) order_refl m'] m' by blast
qed

text \<open>
  C26. Processes are isolated: of any set of spaces that share the kernel's half and have no other table in
  common, mapping a page below kernel space in one of them (whether the call succeeds or fails) changes
  no translation in any other, and the spaces still have no other table in common.
\<close>

theorem user_map_isolated:
  assumes "spaces_ok m R a" "r \<in> R" "is_canonical page" "nameable f" "page < KERNEL_SPACE_BASE"
    "pt_map allocate_frame r page f fl (m, a) = (res, m', a')"
  shows "spaces_ok m' R a' \<and> (\<forall>r' \<in> R - {r}. \<forall>va. translate m' r' va = translate m r' va)"
  using user_map_spaces [OF assms] by blast

theorem user_map_isolated_witness:
  "\<exists>m'. pt_map allocate_frame 0x11000 0 sample_frame (user_flags True False) (sample_tables, sample_allocator)
      = (Inr (), m', sample_allocator) \<and> translate m' 0x10000 0 = translate sample_tables 0x10000 0"
proof -
  obtain m' where m': "pt_map allocate_frame 0x11000 0 sample_frame (user_flags True False) (sample_tables, sample_allocator)
      = (Inr (), m', sample_allocator)" using sample_user_map by blast
  have p: "(0 :: u64) < KERNEL_SPACE_BASE" by (simp add: KERNEL_SPACE_BASE_def)
  show ?thesis using user_map_isolated [OF sample_spaces insertI2 [OF singletonI] sample_kernel_page(2,3) p m'] m' by auto
qed

text \<open>
  C27. A new process starts from the kernel's half alone: its space translates the kernel's addresses as the
  kernel does and nothing below them, its root was a free frame, no existing space changes, and the new one
  joins them with no table of its own but the root.
\<close>

theorem new_space_is_apart:
  assumes "spaces_ok m R a" "root \<in> R" "new_process_space allocate_frame root (m, a) = (Inr c, m', a')"
  shows "spaces_ok m' (insert c R) a' \<and> c \<notin> R \<and> c \<in> free_addresses a \<and> lower m' c = {c} \<and>
    (\<forall>r \<in> R. \<forall>va. translate m' r va = translate m r va) \<and>
    (\<forall>va. translate m' c va = (if KERNEL_SLOT \<le> table_indices va ! 0 then translate m root va else None))"
proof -
  have ok: "space_ok m root a" using assms(1,2) by (simp add: spaces_ok_def)
  show ?thesis
    using new_space_spaces [OF assms] new_space_translate [OF ok assms(3)] new_space_tree(2) [OF ok assms(3)]
      new_space_entries(1) [OF ok assms(3)] by blast
qed

theorem new_space_is_apart_witness:
  "\<exists>m' a'. new_process_space allocate_frame 0x10000 (sample_tables, sample_allocator) = (Inr 0x4000, m', a') \<and>
    spaces_ok m' {0x4000, 0x10000, 0x11000} a'"
proof -
  obtain m' a' where n: "new_process_space allocate_frame 0x10000 (sample_tables, sample_allocator) = (Inr 0x4000, m', a')"
    using sample_new_space by blast
  show ?thesis using new_space_is_apart [OF sample_spaces insertI1 n] n by auto
qed

text \<open>
  C28. A process that ends gives back its own tables, each exactly once and none of the kernel's:
  \<open>free_lower_half\<close> is the same as handing back, one by one, a list without repetitions of the root and the
  tables behind the lower half's slots. The slots are empty afterwards and nothing else was written.
\<close>

theorem tables_given_back_once:
  assumes "tree m 3 root" "\<forall>i < KERNEL_SLOT. entries m root i AND HUGE = 0"
  shows "\<exists>m' ts. free_lower_half gb root m g = (m', fold (hand_back gb) ts (0, g)) \<and> distinct ts \<and> set ts = lower m root \<and>
    (\<forall>i < KERNEL_SLOT. entries m' root i AND PRESENT = 0) \<and>
    (\<forall>x i. x \<noteq> root \<or> KERNEL_SLOT \<le> i \<longrightarrow> entries m' x i = entries m x i)"
  by (rule free_lower_half_spec [OF assms])

theorem tables_given_back_once_witness:
  "\<exists>m' ts. free_lower_half (\<lambda>n f. (True, Suc n)) 0x11000 sample_tables 0 = (m', fold (hand_back (\<lambda>n f. (True, Suc n))) ts (0, 0)) \<and>
    distinct ts \<and> set ts = {0x11000, 0x16000, 0x17000, 0x18000}"
proof -
  have h: "\<forall>i < KERNEL_SLOT. entries sample_tables 0x11000 i AND HUGE = 0"
    by (simp add: sample_entries sample_entry_def paging_bits)
  show ?thesis
    using tables_given_back_once [OF sample_tree(2) h, of "\<lambda>n f. (True, Suc n)" "0 :: nat", unfolded sample_lower(2)]
    by (elim exE conjE) (intro exI conjI; assumption)
qed

end
