(* ===== verification/Mkfat.thy ===== *)
theory Mkfat
  imports Fat_Format "HOL-Library.List_Lexorder"
begin

text \<open>
  Writing a FAT32 image on the build machine (\<^verbatim>\<open>tools/xtask/src/fat32.rs\<close>). Strings are the bytes of
  their UTF-8, as in the other theories. A \<open>BTreeMap\<close> is an association list ordered by its keys, and
  \<open>String\<close> keys are ordered as Rust orders them, byte by byte. The image is written by a sequence of copies
  into a vector of zeros that is never read before it is complete: the model collects the copies in the order
  of the code and then carries them out. Arithmetic on \<open>u32\<close> that can overflow panics, as in a debug build.
\<close>

section \<open>Arithmetic that panics\<close>

definition u32_add :: "u32 \<Rightarrow> u32 \<Rightarrow> panic + u32" where
  "u32_add a b = ok_or (Panic ''attempt to add with overflow'') (checked_add a b)"

definition u32_sub :: "u32 \<Rightarrow> u32 \<Rightarrow> panic + u32" where
  "u32_sub a b = (if b \<le> a then Inr (a - b) else Inl (Panic ''attempt to subtract with overflow''))"

definition u32_mul :: "u32 \<Rightarrow> u32 \<Rightarrow> panic + u32" where
  "u32_mul a b = (if unat a * unat b < 2 ^ 32 then Inr (a * b) else Inl (Panic ''attempt to multiply with overflow''))"

definition u32_div :: "u32 \<Rightarrow> u32 \<Rightarrow> panic + u32" where
  "u32_div a b = (if b = 0 then Inl (Panic ''attempt to divide by zero'') else Inr (a div b))"

section \<open>Ordered maps\<close>

fun bt_insert :: "'k::linorder \<Rightarrow> 'v \<Rightarrow> ('k \<times> 'v) list \<Rightarrow> ('k \<times> 'v) list" where
  "bt_insert k v [] = [(k, v)]"
| "bt_insert k v ((j, w) # t) =
     (if k < j then (k, v) # (j, w) # t else if k = j then (k, v) # t else (j, w) # bt_insert k v t)"

text \<open>\<open>entry(k).or_default().push(x)\<close>, and indexing, which panics on a key that is not there.\<close>

definition bt_push :: "'k::linorder \<Rightarrow> 'x \<Rightarrow> ('k \<times> 'x list) list \<Rightarrow> ('k \<times> 'x list) list" where
  "bt_push k x t = bt_insert k ((case map_of t k of Some xs \<Rightarrow> xs | None \<Rightarrow> []) @ [x]) t"

definition bt_index :: "('k \<times> 'v) list \<Rightarrow> 'k \<Rightarrow> panic + 'v" where
  "bt_index t k = ok_or (Panic ''no entry found for key'') (map_of t k)"

section \<open>The volume and its files\<close>

definition RESERVED_SECTORS :: u32 where "RESERVED_SECTORS = 32"
definition FAT_COUNT :: u32 where "FAT_COUNT = 2"
definition BACKUP_BOOT_SECTOR :: u32 where "BACKUP_BOOT_SECTOR = 6"
definition CHAIN_END :: u32 where "CHAIN_END = 0x0FFFFFFF"
definition MEDIA_DESCRIPTOR :: u8 where "MEDIA_DESCRIPTOR = 0xF8"
definition IMAGE_SECTOR_BYTES :: usize where "IMAGE_SECTOR_BYTES = 512"

record image_file =
  f_name :: bytes
  f_contents :: bytes

record geometry =
  g_total_sectors :: u32
  g_sectors_per_cluster :: u8
  g_reserved_sectors :: u32
  g_fat_count :: u32
  g_sectors_per_fat :: u32
  g_root_cluster :: u32
  g_clusters :: u32

definition g_first_data_sector :: "geometry \<Rightarrow> u32" where
  "g_first_data_sector g = g_reserved_sectors g + g_fat_count g * g_sectors_per_fat g"

definition g_sector_of_cluster :: "geometry \<Rightarrow> u32 \<Rightarrow> u32" where
  "g_sector_of_cluster g cluster =
     g_first_data_sector g + (cluster - FIRST_DATA_CLUSTER) * ucast (g_sectors_per_cluster g)"

datatype format_error =
    TooSmallForFat32 u32
  | BadName bytes
  | RootDirectoryFull usize
  | OutOfClusters u32 u32

datatype dir_item = FileItem image_file | DirectoryItem bytes

section \<open>The size of a table\<close>

definition fits :: "u32 \<Rightarrow> u8 \<Rightarrow> u32 \<Rightarrow> panic + bool" where
  "fits tot spc n =
     and_then (u32_mul FAT_COUNT n) (\<lambda>tables.
     and_then (u32_div (saturating_sub (saturating_sub tot RESERVED_SECTORS) tables) (ucast spc)) (\<lambda>cls.
     and_then (u32_add cls FIRST_DATA_CLUSTER) (\<lambda>needed.
     and_then (u32_mul n 128) (\<lambda>entries. Inr (needed \<le> entries)))))"

lemma middle_exact:
  assumes "(smallest :: u32) < largest"
  shows "unat (smallest + (largest - smallest) div 2) = unat smallest + (unat largest - unat smallest) div 2"
    "unat (smallest + (largest - smallest) div 2 + 1) = unat smallest + (unat largest - unat smallest) div 2 + 1"
proof -
  have l: "unat smallest < unat largest" using assms by (simp add: word_less_nat_alt)
  have d: "unat ((largest - smallest) div 2) = (unat largest - unat smallest) div 2"
    using unat_sub [of smallest largest] assms by (simp add: unat_div less_imp_le)
  show e: "unat (smallest + (largest - smallest) div 2) = unat smallest + (unat largest - unat smallest) div 2"
    using l unat_u32_bound [of largest] by (subst unat_add_exact) (simp_all add: d)
  show "unat (smallest + (largest - smallest) div 2 + 1) = unat smallest + (unat largest - unat smallest) div 2 + 1"
    using l unat_u32_bound [of largest] by (subst unat_add_exact) (simp_all add: e)
qed

function fat_search :: "u32 \<Rightarrow> u8 \<Rightarrow> u32 \<Rightarrow> u32 \<Rightarrow> panic + u32" where
  "fat_search tot spc smallest largest =
     (if smallest < largest then
        let middle = smallest + (largest - smallest) div 2
        in and_then (fits tot spc middle) (\<lambda>yes.
             if yes then fat_search tot spc smallest middle else fat_search tot spc (middle + 1) largest)
      else Inr smallest)"
  by pat_completeness auto

termination
proof (relation "measure (\<lambda>(tot, spc, smallest, largest). unat largest - unat smallest)")
  fix tot :: u32 and spc :: u8 and smallest largest middle :: u32 and yes
  assume a: "smallest < largest" "middle = smallest + (largest - smallest) div 2"
  have l: "unat smallest < unat largest" using a(1) by (simp add: word_less_nat_alt)
  show "((tot, spc, smallest, middle), (tot, spc, smallest, largest)) \<in> measure (\<lambda>(tot, spc, smallest, largest). unat largest - unat smallest)"
    using l middle_exact(1) [OF a(1)] by (simp add: a(2))
  show "((tot, spc, middle + 1, largest), (tot, spc, smallest, largest)) \<in> measure (\<lambda>(tot, spc, smallest, largest). unat largest - unat smallest)"
    using l middle_exact(2) [OF a(1)] by (simp add: a(2))
qed simp

definition sectors_per_fat_for :: "u32 \<Rightarrow> u8 \<Rightarrow> panic + u32" where
  "sectors_per_fat_for tot spc = fat_search tot spc 1 (max tot 1)"

section \<open>Names\<close>

definition is_eight_three :: "bytes \<Rightarrow> bool" where
  "is_eight_three name =
     (let (base, extension) = split_name name
      in base \<noteq> [] \<and> length base \<le> 8 \<and> length extension \<le> 3 \<and>
         (\<forall>b \<in> set name. 0x41 \<le> b \<and> b \<le> 0x5A \<or> 0x30 \<le> b \<and> b \<le> 0x39 \<or> b = 46))"

definition padded_name :: "bytes \<Rightarrow> bytes" where
  "padded_name name = (let (base, extension) = split_name name in copy_at (copy_at (replicate 11 32) 0 base) 8 extension)"

definition padded_label :: "bytes \<Rightarrow> bytes" where
  "padded_label lab = (let taken = min (length lab) 11 in copy_at (replicate 11 32) 0 (take taken lab))"

text \<open>\<open>split('/')\<close>, what stands before the last slash, and what after it.\<close>

fun split_slash :: "bytes \<Rightarrow> bytes list" where
  "split_slash [] = [[]]"
| "split_slash (b # bs) =
     (if b = 47 then [] # split_slash bs
      else case split_slash bs of [] \<Rightarrow> [[b]] | p # ps \<Rightarrow> (b # p) # ps)"

definition parents_of :: "bytes \<Rightarrow> bytes" where
  "parents_of name = (if 47 \<in> set name then rev (tl (dropWhile (\<lambda>b. b \<noteq> 47) (rev name))) else [])"

definition last_part :: "bytes \<Rightarrow> bytes" where
  "last_part name = rev (takeWhile (\<lambda>b. b \<noteq> 47) (rev name))"

definition good_path :: "bytes \<Rightarrow> bool" where
  "good_path name \<longleftrightarrow> name \<noteq> [] \<and> list_all is_eight_three (split_slash name)"

section \<open>The sectors and entries\<close>

text \<open>An array of zeros with some of its parts written.\<close>

definition filled_in :: "usize \<Rightarrow> (usize \<times> bytes) list \<Rightarrow> bytes" where
  "filled_in n parts = fold (\<lambda>(at, bs) a. copy_at a at bs) parts (replicate n 0)"

definition mk_directory_entry_for_directory :: "bytes \<Rightarrow> u32 \<Rightarrow> bytes" where
  "mk_directory_entry_for_directory name cluster =
     filled_in 32 [(0, padded_name name), (11, [ATTR_DIRECTORY]), (20, u16_to_le (ucast (drop_bit 16 cluster))),
       (26, u16_to_le (ucast cluster)), (28, u32_to_le 0)]"

definition mk_directory_entry :: "image_file \<Rightarrow> u32 \<Rightarrow> bytes" where
  "mk_directory_entry f first =
     filled_in 32 [(0, padded_name (last_part (f_name f))), (11, [ATTR_ARCHIVE]), (20, u16_to_le (ucast (drop_bit 16 first))),
       (26, u16_to_le (ucast first)), (28, u32_to_le (of_nat (length (f_contents f))))]"

definition mk_boot_sector :: "geometry \<Rightarrow> bytes \<Rightarrow> bytes" where
  "mk_boot_sector g lab =
     filled_in 512
       [(0, [0xEB, 0x58, 0x90]), (3, [72, 65, 82, 76, 65, 78, 32, 32]), (11, u16_to_le (of_nat IMAGE_SECTOR_BYTES)),
        (13, [g_sectors_per_cluster g]), (14, u16_to_le (ucast (g_reserved_sectors g))), (16, [ucast (g_fat_count g)]),
        (17, u16_to_le 0), (19, u16_to_le 0), (21, [MEDIA_DESCRIPTOR]), (22, u16_to_le 0), (24, u16_to_le 32),
        (26, u16_to_le 2), (28, u32_to_le 0), (32, u32_to_le (g_total_sectors g)), (36, u32_to_le (g_sectors_per_fat g)),
        (40, u16_to_le 0), (42, u16_to_le 0), (44, u32_to_le (g_root_cluster g)), (48, u16_to_le 1),
        (50, u16_to_le (ucast BACKUP_BOOT_SECTOR)), (64, [0x80]), (66, [0x29]), (67, u32_to_le 0x4841524C),
        (71, padded_label lab), (82, [70, 65, 84, 51, 50, 32, 32, 32]), (510, [0x55]), (511, [0xAA])]"

definition mk_fs_info_sector :: "u32 \<Rightarrow> u32 \<Rightarrow> bytes" where
  "mk_fs_info_sector cls next_free =
     filled_in 512
       [(0, u32_to_le 0x41615252), (484, u32_to_le 0x61417272), (488, u32_to_le (cls + FIRST_DATA_CLUSTER - next_free)),
        (492, u32_to_le next_free), (508, u32_to_le 0xAA550000)]"

section \<open>What goes into which directory\<close>

type_synonym dir_tree = "(bytes \<times> dir_item list) list"

fun add_parents :: "bytes \<Rightarrow> bytes list \<Rightarrow> dir_tree \<Rightarrow> dir_tree" where
  "add_parents path [] tree = tree"
| "add_parents path (part # parts) tree =
     (let path' = (if path = [] then part else path @ [47] @ part);
          tree' = (if map_of tree path' = None then bt_push path (DirectoryItem path') (bt_insert path' [] tree) else tree)
      in add_parents path' parts tree')"

definition add_file :: "image_file \<Rightarrow> dir_tree \<Rightarrow> dir_tree" where
  "add_file f tree =
     bt_push (parents_of (f_name f)) (FileItem f)
       (add_parents [] (filter (\<lambda>part. part \<noteq> []) (split_slash (parents_of (f_name f)))) tree)"

definition tree_of :: "image_file list \<Rightarrow> dir_tree" where
  "tree_of files = fold add_file files [([], [])]"

definition too_full :: "usize \<Rightarrow> bytes \<times> dir_item list \<Rightarrow> bool" where
  "too_full per_directory = (\<lambda>(path, held). length held + (if path = [] then 1 else 2) > per_directory)"

section \<open>Which clusters\<close>

text \<open>
  One cluster for each directory but the root, in the order of their paths; then as many as each file needs,
  in the order of the files. The maps are what \<open>chains\<close>, \<open>directory_cluster\<close> and \<open>placed\<close> hold.
\<close>

record placement =
  pl_chains :: "(u32 \<times> u32) list"
  pl_directory_cluster :: "(bytes \<times> u32) list"
  pl_placed :: "(image_file \<times> u32) list"
  pl_next_free :: u32

definition placement_start :: placement where
  "placement_start =
     \<lparr>pl_chains = bt_insert FIRST_DATA_CLUSTER CHAIN_END [], pl_directory_cluster = bt_insert [] FIRST_DATA_CLUSTER [],
      pl_placed = [], pl_next_free = FIRST_DATA_CLUSTER + 1\<rparr>"

fun place_directories :: "u32 \<Rightarrow> bytes list \<Rightarrow> placement \<Rightarrow> (panic + format_error) + placement" where
  "place_directories limit [] p = Inr p"
| "place_directories limit (path # paths) p =
     (if path = [] then place_directories limit paths p
      else if limit \<le> pl_next_free p then Inl (Inr (OutOfClusters 1 0))
      else place_directories limit paths
        (p\<lparr>pl_chains := bt_insert (pl_next_free p) CHAIN_END (pl_chains p),
           pl_directory_cluster := bt_insert path (pl_next_free p) (pl_directory_cluster p),
           pl_next_free := pl_next_free p + 1\<rparr>))"

definition chain_link :: "u32 \<Rightarrow> nat \<Rightarrow> nat \<Rightarrow> u32 \<times> u32" where
  "chain_link first needed i = (first + of_nat i, if i + 1 = needed then CHAIN_END else first + of_nat i + 1)"

definition clusters_needed :: "nat \<Rightarrow> image_file \<Rightarrow> u32" where
  "clusters_needed cluster f = of_nat ((length (f_contents f) + cluster - 1) div cluster)"

fun place_files :: "u32 \<Rightarrow> nat \<Rightarrow> image_file list \<Rightarrow> placement \<Rightarrow> (panic + format_error) + placement" where
  "place_files limit cluster [] p = Inr p"
| "place_files limit cluster (f # files) p =
     (let needed = clusters_needed cluster f;
          first = pl_next_free p
      in if needed = 0 then place_files limit cluster files (p\<lparr>pl_placed := pl_placed p @ [(f, 0)]\<rparr>)
         else and_then (map_err Inl (u32_add first needed)) (\<lambda>after.
           if limit < after then Inl (Inr (OutOfClusters needed (limit - first)))
           else place_files limit cluster files
             (p\<lparr>pl_chains := fold (\<lambda>i. (\<lambda>(c, n). bt_insert c n) (chain_link first (unat needed) i)) [0..<unat needed] (pl_chains p),
                pl_placed := pl_placed p @ [(f, first)],
                pl_next_free := after\<rparr>)))"

section \<open>The bytes of the image\<close>

type_synonym patch = "usize \<times> bytes"

text \<open>\<open>image[at..at + n].copy_from_slice\<close>, one after the other; out of range it panics.\<close>

fun put_all :: "patch list \<Rightarrow> bytes \<Rightarrow> panic + bytes" where
  "put_all [] img = Inr img"
| "put_all ((at, bs) # ps) img =
     (if at + length bs \<le> length img then put_all ps (copy_at img at bs) else Inl (Panic ''range end index out of range''))"

definition start_patches :: "geometry \<Rightarrow> bytes \<Rightarrow> u32 \<Rightarrow> patch list" where
  "start_patches g lab next_free =
     (let boot = mk_boot_sector g lab;
          backup = unat BACKUP_BOOT_SECTOR * IMAGE_SECTOR_BYTES;
          info = mk_fs_info_sector (g_clusters g) next_free
      in [(0, boot), (backup, boot), (IMAGE_SECTOR_BYTES, info), (backup + IMAGE_SECTOR_BYTES, info)])"

definition table_patches :: "geometry \<Rightarrow> (u32 \<times> u32) list \<Rightarrow> u32 \<Rightarrow> patch list" where
  "table_patches g links table =
     (let at = unat (RESERVED_SECTORS + table * g_sectors_per_fat g) * IMAGE_SECTOR_BYTES
      in (at, u32_to_le (0x0FFFFF00 OR ucast MEDIA_DESCRIPTOR)) # (at + 4, u32_to_le CHAIN_END) #
         map (\<lambda>(cluster, nxt). (at + unat cluster * 4, u32_to_le nxt)) links)"

text \<open>The slots of a directory, each with what is written in it, thirty-two bytes apart.\<close>

fun lay_slots :: "usize \<Rightarrow> patch list list \<Rightarrow> patch list" where
  "lay_slots entry_at [] = []"
| "lay_slots entry_at (s # slots) = map (\<lambda>(off, bs). (entry_at + off, bs)) s @ lay_slots (entry_at + DIRECTORY_ENTRY_BYTES) slots"

definition label_slot :: "bytes \<Rightarrow> patch list" where
  "label_slot lab = [(0, padded_label lab), (11, [ATTR_VOLUME_LABEL])]"

definition dot_slot :: "bytes \<Rightarrow> u32 \<Rightarrow> patch list" where
  "dot_slot name at = [(0, name), (11, [ATTR_DIRECTORY]), (20, u16_to_le (ucast (drop_bit 16 at))), (26, u16_to_le (ucast at))]"

definition DOT :: bytes where "DOT = 46 # replicate 10 32"
definition DOT_DOT :: bytes where "DOT_DOT = 46 # 46 # replicate 9 32"

definition item_slot :: "(bytes \<times> u32) list \<Rightarrow> (bytes \<times> u32) list \<Rightarrow> dir_item \<Rightarrow> panic + patch list" where
  "item_slot where_file_went directory_cluster item =
     (case item of
        FileItem f \<Rightarrow> and_then (bt_index where_file_went (f_name f)) (\<lambda>first. Inr [(0, mk_directory_entry f first)])
      | DirectoryItem child \<Rightarrow>
          and_then (bt_index directory_cluster child) (\<lambda>c. Inr [(0, mk_directory_entry_for_directory (last_part child) c)]))"

text \<open>All answers, or the first error.\<close>

fun collect :: "('e + 'a) list \<Rightarrow> 'e + 'a list" where
  "collect [] = Inr []"
| "collect (r # rs) = and_then r (\<lambda>x. and_then (collect rs) (\<lambda>xs. Inr (x # xs)))"

definition head_slots :: "bytes \<Rightarrow> (bytes \<times> u32) list \<Rightarrow> bytes \<Rightarrow> u32 \<Rightarrow> panic + patch list list" where
  "head_slots lab directory_cluster path cluster =
     (if path = [] then Inr [label_slot lab]
      else let parent = parents_of path
        in and_then (if parent = [] then Inr 0 else bt_index directory_cluster parent) (\<lambda>parent_cluster.
             Inr [dot_slot DOT cluster, dot_slot DOT_DOT parent_cluster]))"

definition directory_patches :: "geometry \<Rightarrow> bytes \<Rightarrow> placement \<Rightarrow> bytes \<times> dir_item list \<Rightarrow> panic + patch list" where
  "directory_patches g lab p = (\<lambda>(path, held).
     let where_file_went = fold (\<lambda>(f, first). bt_insert (f_name f) first) (pl_placed p) []
     in and_then (bt_index (pl_directory_cluster p) path) (\<lambda>cluster.
        and_then (head_slots lab (pl_directory_cluster p) path cluster) (\<lambda>heads.
        and_then (collect (map (item_slot where_file_went (pl_directory_cluster p)) held)) (\<lambda>slots.
          Inr (lay_slots (unat (g_sector_of_cluster g cluster) * IMAGE_SECTOR_BYTES) (heads @ slots))))))"

definition file_patches :: "geometry \<Rightarrow> placement \<Rightarrow> patch list" where
  "file_patches g p =
     map (\<lambda>(f, first). (unat (g_sector_of_cluster g first) * IMAGE_SECTOR_BYTES, f_contents f))
       (filter (\<lambda>(f, first). first \<noteq> 0) (pl_placed p))"

section \<open>Formatting\<close>

definition geometry_for :: "u32 \<Rightarrow> u8 \<Rightarrow> panic + geometry" where
  "geometry_for tot spc =
     and_then (sectors_per_fat_for tot spc) (\<lambda>spf.
     and_then (u32_sub tot RESERVED_SECTORS) (\<lambda>rest.
     and_then (u32_mul FAT_COUNT spf) (\<lambda>tables.
     and_then (u32_sub rest tables) (\<lambda>data.
     and_then (u32_div data (ucast spc)) (\<lambda>cls.
       Inr \<lparr>g_total_sectors = tot, g_sectors_per_cluster = spc, g_reserved_sectors = RESERVED_SECTORS, g_fat_count = FAT_COUNT,
            g_sectors_per_fat = spf, g_root_cluster = FIRST_DATA_CLUSTER, g_clusters = cls\<rparr>)))))"

definition place_all :: "geometry \<Rightarrow> image_file list \<Rightarrow> (panic + format_error) + placement" where
  "place_all g files =
     (let limit = FIRST_DATA_CLUSTER + g_clusters g;
          cluster = IMAGE_SECTOR_BYTES * unat (g_sectors_per_cluster g)
      in and_then (place_directories limit (map fst (tree_of files)) placement_start) (place_files limit cluster files))"

definition patches_of :: "geometry \<Rightarrow> bytes \<Rightarrow> image_file list \<Rightarrow> placement \<Rightarrow> panic + patch list" where
  "patches_of g lab files p =
     and_then (collect (map (directory_patches g lab p) (tree_of files))) (\<lambda>dirs.
       Inr (start_patches g lab (pl_next_free p) @ table_patches g (pl_chains p) 0 @ table_patches g (pl_chains p) 1 @
            concat dirs @ file_patches g p))"

definition mk_format :: "u32 \<Rightarrow> u8 \<Rightarrow> bytes \<Rightarrow> image_file list \<Rightarrow> (panic + format_error) + bytes \<times> geometry" where
  "mk_format tot spc lab files =
     (case find (\<lambda>f. \<not> good_path (f_name f)) files of
        Some f \<Rightarrow> Inl (Inr (BadName (f_name f)))
      | None \<Rightarrow>
          and_then (map_err Inl (geometry_for tot spc)) (\<lambda>g.
            if g_clusters g < 65525 then Inl (Inr (TooSmallForFat32 (g_clusters g)))
            else case find (too_full (IMAGE_SECTOR_BYTES * unat spc div DIRECTORY_ENTRY_BYTES)) (tree_of files) of
              Some (path, held) \<Rightarrow> Inl (Inr (RootDirectoryFull (length held + (if path = [] then 1 else 2))))
            | None \<Rightarrow>
                and_then (place_all g files) (\<lambda>p.
                and_then (map_err Inl (patches_of g lab files p)) (\<lambda>patches.
                and_then (map_err Inl (put_all patches (replicate (unat tot * IMAGE_SECTOR_BYTES) 0))) (\<lambda>img.
                  Inr (img, g))))))"

end
