(* ===== verification/Mkfat_Size.thy ===== *)
theory Mkfat_Size
  imports Mkfat
begin

text \<open>
  The size of the tables the formatter chooses: the search by halves finds the smallest one that holds an entry
  for every cluster left, whenever it answers, and it answers exactly for volumes of less than \<open>2\<^sup>2\<^sup>6 - 1\<close> sectors.
\<close>

section \<open>Big enough\<close>

definition enough :: "nat \<Rightarrow> nat \<Rightarrow> nat \<Rightarrow> bool" where
  "enough tot spc n \<longleftrightarrow> (tot - 32 - 2 * n) div spc + 2 \<le> 128 * n"

lemma enough_mono: "enough tot spc n \<Longrightarrow> n \<le> k \<Longrightarrow> enough tot spc k"
proof -
  assume a: "enough tot spc n" "n \<le> k"
  have "(tot - 32 - 2 * k) div spc \<le> (tot - 32 - 2 * n) div spc" using a(2) by (intro div_le_mono) simp
  then show ?thesis using a by (simp add: enough_def)
qed

lemma enough_half: "1 \<le> n \<Longrightarrow> tot \<le> 2 * n \<Longrightarrow> enough tot spc n"
  by (simp add: enough_def)

lemma fits_exact:
  assumes "spc \<noteq> 0" "unat n < 2 ^ 25"
  shows "fits tot spc n = Inr (enough (unat tot) (unat spc) (unat n))"
proof -
  let ?d = "saturating_sub (saturating_sub tot RESERVED_SECTORS) (2 * n)"
  have n2: "unat (2 * n) = 2 * unat n" using assms(2) by (subst unat_mult_exact) simp_all
  have d: "unat ?d = unat tot - 32 - 2 * unat n" by (simp add: unat_saturating_sub n2 RESERVED_SECTORS_def)
  have s: "ucast spc \<noteq> (0 :: u32)" "unat (ucast spc :: u32) = unat spc"
    using assms(1) by (simp_all add: unat_ucast_up word_unat_eq_iff)
  have c: "unat (?d div ucast spc) = (unat tot - 32 - 2 * unat n) div unat spc" by (simp add: unat_div d s)
  have le: "(unat tot - 32 - 2 * unat n) div unat spc < 2 ^ 32 - 2"
    using unat_u32_bound [of tot] by (intro le_less_trans [OF div_le_dividend]) simp
  have a: "u32_add (?d div ucast spc) FIRST_DATA_CLUSTER = Inr (?d div ucast spc + 2)"
    "unat (?d div ucast spc + 2) = (unat tot - 32 - 2 * unat n) div unat spc + 2"
    using le unfolding u32_add_def checked_add_def ok_or_def FIRST_DATA_CLUSTER_def c [symmetric] by (simp_all add: unat_add_exact)
  have m: "u32_mul FAT_COUNT n = Inr (2 * n)" "u32_mul n 128 = Inr (n * 128)" "unat (n * 128) = 128 * unat n"
    using assms(2) by (simp_all add: u32_mul_def FAT_COUNT_def unat_mult_exact)
  show ?thesis using s(1) a(2) m(3) by (simp add: fits_def m(1,2) u32_div_def a(1) enough_def word_le_nat_alt)
qed

section \<open>The search\<close>

lemma fat_search_least:
  assumes "spc \<noteq> 0" "smallest \<le> largest" "unat largest < 2 ^ 25" "1 \<le> unat smallest" "enough (unat tot) (unat spc) (unat largest)"
    "\<And>k. 1 \<le> k \<Longrightarrow> k < unat smallest \<Longrightarrow> \<not> enough (unat tot) (unat spc) k"
  shows "fat_search tot spc smallest largest = Inr (of_nat (LEAST n. 1 \<le> n \<and> enough (unat tot) (unat spc) n))"
  using assms
proof (induction tot spc smallest largest rule: fat_search.induct)
  case (1 tot spc smallest largest)
  let ?e = "enough (unat tot) (unat spc)"
  define middle where "middle = smallest + (largest - smallest) div 2"
  show ?case
  proof (cases "smallest < largest")
    case True
    have lt: "unat smallest < unat largest" using True by (simp add: word_less_nat_alt)
    note mid = middle_exact [OF True, folded middle_def]
    have b: "unat middle < unat largest" "unat smallest \<le> unat middle" using mid(1) lt by auto
    have f: "fits tot spc middle = Inr (?e (unat middle))" using fits_exact [OF "1.prems"(1)] b(1) "1.prems"(3) by simp
    have step: "fat_search tot spc smallest largest =
        (if ?e (unat middle) then fat_search tot spc smallest middle else fat_search tot spc (middle + 1) largest)"
      using True f by (subst fat_search.simps) (simp add: Let_def middle_def)
    show ?thesis
    proof (cases "?e (unat middle)")
      case yes: True
      show ?thesis unfolding step
        using "1.IH"(1) [OF True middle_def yes "1.prems"(1)] b "1.prems" yes by (simp add: word_le_nat_alt)
    next
      case no: False
      have "\<not> ?e k" if "k < unat (middle + 1)" for k using no enough_mono [of _ _ k "unat middle"] that mid by auto
      then show ?thesis unfolding step
        using "1.IH"(2) [OF True middle_def _ "1.prems"(1), of False] b mid "1.prems" no by (simp add: word_le_nat_alt)
    qed
  next
    case False
    then have e: "unat smallest = unat largest" using "1.prems"(2) by (simp add: word_less_nat_alt word_le_nat_alt)
    have "(LEAST n. 1 \<le> n \<and> ?e n) = unat smallest"
      using "1.prems"(4-6) e by (intro Least_equality) (auto simp: not_less [symmetric])
    then show ?thesis using False by (subst fat_search.simps) simp
  qed
qed

lemma fits_too_big:
  assumes "spc \<noteq> 0" "2 ^ 25 \<le> unat n" "unat tot \<le> 2 * unat n"
  shows "fits tot spc n = Inl (Panic ''attempt to multiply with overflow'')"
proof (cases "2 * unat n < 2 ^ 32")
  case True
  have n2: "unat (2 * n) = 2 * unat n" using True by (subst unat_mult_exact) simp_all
  have "saturating_sub (saturating_sub tot RESERVED_SECTORS) (2 * n) = 0"
    using assms(3) by (simp add: word_unat_eq_iff unat_saturating_sub n2)
  moreover have "ucast spc \<noteq> (0 :: u32)" using assms(1) by (simp add: unat_ucast_up word_unat_eq_iff)
  ultimately show ?thesis using True assms(2)
    by (simp add: fits_def u32_mul_def FAT_COUNT_def u32_div_def u32_add_def checked_add_def ok_or_def FIRST_DATA_CLUSTER_def)
next
  case False
  then show ?thesis by (simp add: fits_def u32_mul_def FAT_COUNT_def)
qed

lemma fat_size:
  assumes "spc \<noteq> 0"
  shows "sectors_per_fat_for tot spc =
    (if unat tot < 2 ^ 26 - 1
     then Inr (of_nat (LEAST n. 1 \<le> n \<and> (unat tot - 32 - 2 * n) div unat spc + 2 \<le> 128 * n))
     else Inl (Panic ''attempt to multiply with overflow''))"
proof (cases "unat tot \<le> 1")
  case True
  then have m: "max tot 1 = 1" by (simp add: max_def word_le_nat_alt)
  have "(LEAST n. 1 \<le> n \<and> (unat tot - 32 - 2 * n) div unat spc + 2 \<le> 128 * n) = 1"
    using True by (intro Least_equality) auto
  then show ?thesis using True by (simp add: sectors_per_fat_for_def m fat_search.simps [of tot spc 1 1])
next
  case False
  then have m: "max tot 1 = tot" "1 < tot" by (simp_all add: max_def word_le_nat_alt word_less_nat_alt)
  define middle where "middle = 1 + (tot - 1) div 2"
  have mid: "unat middle = 1 + (unat tot - 1) div 2" using middle_exact(1) [OF m(2)] by (simp add: middle_def)
  then have half: "unat tot \<le> 2 * unat middle" by linarith
  have s: "fat_search tot spc 1 tot = and_then (fits tot spc middle) (\<lambda>yes.
      if yes then fat_search tot spc 1 middle else fat_search tot spc (middle + 1) tot)"
    unfolding middle_def using m(2) by (subst fat_search.simps) (simp add: Let_def)
  show ?thesis
  proof (cases "unat tot < 2 ^ 26 - 1")
    case True
    then have l: "unat middle < 2 ^ 25" "1 \<le> unat middle" using mid by auto
    have e: "enough (unat tot) (unat spc) (unat middle)" using enough_half l(2) half by blast
    have "fat_search tot spc 1 tot = fat_search tot spc 1 middle" using s fits_exact [OF assms l(1)] e by simp
    then show ?thesis using fat_search_least [OF assms _ l(1) _ e, of 1] l(2) True
      by (simp add: sectors_per_fat_for_def m(1) enough_def word_le_nat_alt)
  next
    case False
    then have "2 ^ 25 \<le> unat middle" using mid by auto
    then show ?thesis using s fits_too_big [OF assms _ half] False by (simp add: sectors_per_fat_for_def m(1))
  qed
qed

text \<open>
  C34. The size of a table: the search by halves answers the smallest size, in sectors, with an entry for each cluster
  that is left beside two tables of that size. It answers for every volume of less than \<open>2\<^sup>2\<^sup>6 - 1\<close> sectors; from
  there on its first question already overflows and the formatter panics.
\<close>

theorem fat_size_exact:
  assumes "spc \<noteq> 0"
  shows "sectors_per_fat_for tot spc =
    (if unat tot < 2 ^ 26 - 1
     then Inr (of_nat (LEAST n. 1 \<le> n \<and> (unat tot - 32 - 2 * n) div unat spc + 2 \<le> 128 * n))
     else Inl (Panic ''attempt to multiply with overflow''))"
  using assms by (rule fat_size)

theorem fat_size_exact_witness:
  "sectors_per_fat_for 0x80000000 1 = Inl (Panic ''attempt to multiply with overflow'') \<and>
   sectors_per_fat_for 100 1 = Inr 1"
proof -
  have "(LEAST n. 1 \<le> n \<and> (68 - 2 * n) div 1 + 2 \<le> 128 * n) = (1 :: nat)" by (intro Least_equality) auto
  then show ?thesis using fat_size_exact [of 1 "0x80000000"] fat_size_exact [of 1 100] by simp
qed

end
