(* ===== verification/Mkfat_Image.thy ===== *)
theory Mkfat_Image
  imports Mkfat_Size Fat_Properties
begin

text \<open>
  The image the formatter writes, as the kernel reads it: the copies do not overlap, so every byte is the one
  its copy put there; the boot sector is accepted with the geometry the formatter chose; every file is found in
  the root directory and its chain gives its bytes.
\<close>

section \<open>Copies that do not overlap\<close>

definition apart :: "patch \<Rightarrow> patch \<Rightarrow> bool" where
  "apart = (\<lambda>(a, bs) (b, cs). a + length bs \<le> b \<or> b + length cs \<le> a)"

definition within :: "nat \<Rightarrow> nat \<Rightarrow> patch list \<Rightarrow> bool" where
  "within lo hi ws \<longleftrightarrow> (\<forall>(a, bs) \<in> set ws. lo \<le> a \<and> a + length bs \<le> hi)"

lemma within_simps [simp]:
  "within lo hi []" "within lo hi ((a, bs) # ws) \<longleftrightarrow> lo \<le> a \<and> a + length bs \<le> hi \<and> within lo hi ws"
  "within lo hi (xs @ ys) \<longleftrightarrow> within lo hi xs \<and> within lo hi ys"
  by (auto simp: within_def)

lemma within_mono: "within lo hi ws \<Longrightarrow> lo' \<le> lo \<Longrightarrow> hi \<le> hi' \<Longrightarrow> within lo' hi' ws"
  by (fastforce simp: within_def)

lemma within_apart:
  "within lo hi xs \<Longrightarrow> within lo' hi' ys \<Longrightarrow> hi \<le> lo' \<or> hi' \<le> lo \<Longrightarrow> x \<in> set xs \<Longrightarrow> y \<in> set ys \<Longrightarrow> apart x y"
  by (fastforce simp: within_def apart_def split: prod.splits)

lemma apart_append:
  assumes "within lo hi xs" "within lo' hi' ys" "hi \<le> lo' \<or> hi' \<le> lo" "sorted_wrt apart xs" "sorted_wrt apart ys"
  shows "sorted_wrt apart (xs @ ys)"
  using assms within_apart [OF assms(1-3)] by (auto simp: sorted_wrt_append)

lemma apart_concat:
  assumes "sorted_wrt (\<lambda>xs ys. \<forall>x\<in>set xs. \<forall>y\<in>set ys. apart x y) wss" "\<And>ws. ws \<in> set wss \<Longrightarrow> sorted_wrt apart ws"
  shows "sorted_wrt apart (concat wss)"
  using assms by (induction wss) (auto simp: sorted_wrt_append)

lemma put_all_length: "put_all ws img = Inr img' \<Longrightarrow> length img' = length img"
  by (induction ws img rule: put_all.induct) (auto split: if_splits)

lemma put_all_outside:
  assumes "put_all ws img = Inr img'" "j < length img" "\<forall>(a, bs) \<in> set ws. j < a \<or> a + length bs \<le> j"
  shows "img' ! j = img ! j"
  using assms by (induction ws img rule: put_all.induct) (auto simp: nth_copy_at split: if_splits)

lemma put_all_nth:
  assumes "put_all ws img = Inr img'" "sorted_wrt apart ws" "(a, bs) \<in> set ws" "i < length bs"
  shows "img' ! (a + i) = bs ! i \<and> a + length bs \<le> length img'"
  using assms
proof (induction ws img rule: put_all.induct)
  case (2 at cs ps img)
  show ?case
  proof (cases "(a, bs) = (at, cs)")
    case True
    have r: "a + length bs \<le> length img" and p: "put_all ps (copy_at img a bs) = Inr img'"
      using "2.prems"(1) True by (auto split: if_splits)
    have "\<forall>(b, ds) \<in> set ps. a + i < b \<or> b + length ds \<le> a + i"
      using "2.prems"(2,4) True by (fastforce simp: apart_def)
    then have "img' ! (a + i) = copy_at img a bs ! (a + i)"
      using put_all_outside [OF p, of "a + i"] r "2.prems"(4) by simp
    then show ?thesis using r "2.prems"(4) put_all_length [OF p] by (simp add: nth_copy_at)
  next
    case False
    then show ?thesis using 2 by (auto split: if_splits)
  qed
qed simp

lemma put_all_ok: "within 0 (length img) ws \<Longrightarrow> \<exists>img'. put_all ws img = Inr img'"
  by (induction ws img rule: put_all.induct) auto

lemma put_all_fold: "within 0 (length x) parts \<Longrightarrow> put_all parts x = Inr (fold (\<lambda>(at, bs) a. copy_at a at bs) parts x)"
  by (induction parts x rule: put_all.induct) auto

lemma filled_in_put: "within 0 n parts \<Longrightarrow> put_all parts (replicate n 0) = Inr (filled_in n parts)"
  by (simp add: put_all_fold filled_in_def)

lemma filled_in_nth:
  assumes "within 0 n parts" "sorted_wrt apart parts" "(a, bs) \<in> set parts" "i < length bs"
  shows "filled_in n parts ! (a + i) = bs ! i"
  using put_all_nth [OF filled_in_put [OF assms(1)] assms(2-4)] by simp

section \<open>The geometry\<close>

definition geometry_ok :: "u32 \<Rightarrow> u8 \<Rightarrow> geometry \<Rightarrow> bool" where
  "geometry_ok tot spc g \<longleftrightarrow> g_total_sectors g = tot \<and> g_sectors_per_cluster g = spc \<and> g_reserved_sectors g = 32 \<and> g_fat_count g = 2 \<and>
     g_root_cluster g = 2 \<and> 0 < unat spc \<and> unat tot < 2 ^ 26 \<and> 1 \<le> unat (g_sectors_per_fat g) \<and>
     32 + 2 * unat (g_sectors_per_fat g) \<le> unat tot \<and>
     unat (g_clusters g) = (unat tot - (32 + 2 * unat (g_sectors_per_fat g))) div unat spc \<and>
     unat (g_clusters g) + 2 \<le> 128 * unat (g_sectors_per_fat g)"

lemma and_then_Inr_obtain:
  assumes "and_then r f = Inr y"
  obtains x where "r = Inr x" "f x = Inr y"
  using assms by (auto simp: and_then_Inr_iff)

lemma fat_size_enough:
  assumes "sectors_per_fat_for tot spc = Inr spf" "spc \<noteq> 0"
  shows "unat tot < 2 ^ 26" "1 \<le> unat spf" "(unat tot - 32 - 2 * unat spf) div unat spc + 2 \<le> 128 * unat spf"
proof -
  have size: "sectors_per_fat_for tot spc =
    (if unat tot < 2 ^ 26 - 1 then Inr (of_nat (LEAST n. 1 \<le> n \<and> enough (unat tot) (unat spc) n))
     else Inl (Panic ''attempt to multiply with overflow''))"
    using fat_size [OF assms(2), of tot] by (simp add: enough_def)
  show t: "unat tot < 2 ^ 26" using size assms(1) by (simp split: if_splits)
  let ?l = "LEAST n. 1 \<le> n \<and> enough (unat tot) (unat spc) n"
  have e: "1 \<le> max 1 (unat tot) \<and> enough (unat tot) (unat spc) (max 1 (unat tot))" using enough_half [of "max 1 (unat tot)"] by simp
  have l: "1 \<le> ?l \<and> enough (unat tot) (unat spc) ?l" using LeastI [of "\<lambda>n. 1 \<le> n \<and> enough (unat tot) (unat spc) n", OF e] .
  have "?l \<le> max 1 (unat tot)" using Least_le [of "\<lambda>n. 1 \<le> n \<and> enough (unat tot) (unat spc) n", OF e] .
  then have "unat (of_nat ?l :: u32) = ?l" using t by (intro unat_of_nat_exact) simp
  moreover have "spf = of_nat ?l" using size assms(1) by (simp split: if_splits)
  ultimately show "1 \<le> unat spf" "(unat tot - 32 - 2 * unat spf) div unat spc + 2 \<le> 128 * unat spf"
    using l by (simp_all add: enough_def)
qed

lemma geometry_for_ok:
  assumes "geometry_for tot spc = Inr g"
  shows "geometry_ok tot spc g"
proof -
  obtain spf rest tables data cls where s: "sectors_per_fat_for tot spc = Inr spf" "u32_sub tot RESERVED_SECTORS = Inr rest"
    "u32_mul FAT_COUNT spf = Inr tables" "u32_sub rest tables = Inr data" "u32_div data (ucast spc) = Inr cls"
    "g = \<lparr>g_total_sectors = tot, g_sectors_per_cluster = spc, g_reserved_sectors = RESERVED_SECTORS, g_fat_count = FAT_COUNT,
            g_sectors_per_fat = spf, g_root_cluster = FIRST_DATA_CLUSTER, g_clusters = cls\<rparr>"
    using assms unfolding geometry_for_def by (elim and_then_Inr_obtain) blast
  have r: "32 \<le> unat tot" "unat rest = unat tot - 32"
    using s(2) by (auto simp: u32_sub_def RESERVED_SECTORS_def word_le_nat_alt unat_sub_exact split: if_splits)
  have t: "unat tables = 2 * unat spf" using s(3) by (auto simp: u32_mul_def FAT_COUNT_def unat_mult_exact split: if_splits)
  have d: "2 * unat spf \<le> unat tot - 32" "unat data = unat tot - 32 - 2 * unat spf"
    using s(4) r t by (auto simp: u32_sub_def word_le_nat_alt unat_sub_exact split: if_splits)
  have z: "ucast spc \<noteq> (0 :: u32)" "cls = data div ucast spc" using s(5) by (auto simp: u32_div_def split: if_splits)
  have spc: "spc \<noteq> 0" using z(1) by auto
  have c: "unat cls = (unat tot - 32 - 2 * unat spf) div unat spc" by (simp add: z(2) unat_div d unat_ucast_up)
  show ?thesis using fat_size_enough [OF s(1) spc] r d c spc
    by (simp add: geometry_ok_def s(6) RESERVED_SECTORS_def FAT_COUNT_def FIRST_DATA_CLUSTER_def unat_gt_0)
qed

section \<open>Ordered maps\<close>

lemma map_of_bt_insert [simp]: "map_of (bt_insert k v t) = (map_of t)(k \<mapsto> v)"
  by (induction t) (auto simp: fun_eq_iff)

lemma set_fst_bt_insert [simp]: "fst ` set (bt_insert k v t) = insert k (fst ` set t)"
  by (simp add: dom_map_of_conv_image_fst [symmetric])

abbreviation ordered :: "('k::linorder \<times> 'v) list \<Rightarrow> bool" where
  "ordered t \<equiv> sorted_wrt (<) (map fst t)"

lemma ordered_bt_insert: "ordered t \<Longrightarrow> ordered (bt_insert k v t)"
proof (induction t)
  case (Cons x t)
  obtain j w where x: "x = (j, w)" by fastforce
  have "\<forall>y \<in> fst ` set (bt_insert k v t). j < y" if "j < k" using Cons.prems that by (auto simp: x)
  then show ?case using Cons by (auto simp: x not_less order_le_less)
qed simp

lemma ordered_distinct: "ordered t \<Longrightarrow> distinct (map fst t)"
  by (simp add: strict_sorted_iff)

lemma ordered_fold_bt_insert: "ordered t \<Longrightarrow> ordered (fold (\<lambda>x. bt_insert (f x) (h x)) xs t)"
  by (induction xs arbitrary: t) (auto intro: ordered_bt_insert)

lemma map_of_fold_bt_insert:
  "map_of (fold (\<lambda>x. bt_insert (f x) (h x)) xs t) = map_of t ++ map_of (rev (map (\<lambda>x. (f x, h x)) xs))"
  by (induction xs arbitrary: t) (auto simp: map_add_def fun_eq_iff split: option.splits)

section \<open>Where the files go\<close>

text \<open>The number of clusters a file needs, when it is not cut to 32 bits.\<close>

definition need :: "nat \<Rightarrow> image_file \<Rightarrow> nat" where
  "need cluster f = (length (f_contents f) + cluster - 1) div cluster"

text \<open>
  A placement: its chains are those of the clusters up to \<open>next_free\<close>; the directories have clusters of their own,
  below \<open>lo\<close>; every file that needs clusters has a run of them from \<open>lo\<close> on, linked in order, and the runs follow
  each other.
\<close>

definition run_of :: "nat \<Rightarrow> nat \<Rightarrow> placement \<Rightarrow> image_file \<times> u32 \<Rightarrow> bool" where
  "run_of cluster lo p = (\<lambda>(f, first). if need cluster f = 0 then first = 0
     else lo \<le> unat first \<and> unat first + need cluster f \<le> unat (pl_next_free p) \<and>
       (\<forall>i < need cluster f. map_of (pl_chains p) (first + of_nat i) = Some (snd (chain_link first (need cluster f) i))))"

definition runs_apart :: "nat \<Rightarrow> image_file \<times> u32 \<Rightarrow> image_file \<times> u32 \<Rightarrow> bool" where
  "runs_apart cluster = (\<lambda>(f, a) (h, b). need cluster f = 0 \<or> need cluster h = 0 \<or> unat a + need cluster f \<le> unat b)"

definition placement_ok :: "u32 \<Rightarrow> nat \<Rightarrow> nat \<Rightarrow> placement \<Rightarrow> bool" where
  "placement_ok limit cluster lo p \<longleftrightarrow>
     lo \<le> unat (pl_next_free p) \<and> unat (pl_next_free p) \<le> unat limit \<and> ordered (pl_chains p) \<and>
     (\<forall>c \<in> fst ` set (pl_chains p). 2 \<le> unat c \<and> unat c < unat (pl_next_free p)) \<and>
     (\<forall>x \<in> set (pl_placed p). run_of cluster lo p x) \<and> sorted_wrt (runs_apart cluster) (pl_placed p)"

definition directories_ok :: "nat \<Rightarrow> placement \<Rightarrow> bool" where
  "directories_ok lo p \<longleftrightarrow> inj_on (map_of (pl_directory_cluster p)) (dom (map_of (pl_directory_cluster p))) \<and>
     map_of (pl_directory_cluster p) [] = Some 2 \<and>
     (\<forall>path c. map_of (pl_directory_cluster p) path = Some c \<longrightarrow> 2 \<le> unat c \<and> unat c < lo)"

lemma place_directories_ok:
  assumes "place_directories limit paths p = Inr p'" "placement_ok limit cluster (unat (pl_next_free p)) p" "pl_placed p = []"
    "directories_ok (unat (pl_next_free p)) p" "map_of (pl_chains p) 2 = Some CHAIN_END" "distinct paths"
    "\<forall>path \<in> set paths. path \<noteq> [] \<longrightarrow> map_of (pl_directory_cluster p) path = None"
  shows "placement_ok limit cluster (unat (pl_next_free p')) p' \<and> pl_placed p' = [] \<and> directories_ok (unat (pl_next_free p')) p' \<and>
    map_of (pl_chains p') 2 = Some CHAIN_END"
  using assms
proof (induction limit paths p rule: place_directories.induct)
  case (2 limit path paths p)
  show ?case
  proof (cases "path = []")
    case True
    then show ?thesis using 2 by simp
  next
    case False
    let ?n = "pl_next_free p"
    let ?q = "p\<lparr>pl_chains := bt_insert ?n CHAIN_END (pl_chains p), pl_directory_cluster := bt_insert path ?n (pl_directory_cluster p),
        pl_next_free := ?n + 1\<rparr>"
    have lim: "\<not> limit \<le> ?n" and rest: "place_directories limit paths ?q = Inr p'" using "2.prems"(1) False by (auto split: if_splits)
    have n: "unat (?n + 1) = unat ?n + 1" "unat ?n < unat limit"
      using lim unat_u32_bound [of limit] by (auto simp: word_le_nat_alt unat_add_exact)
    have "unat (2 :: u32) < unat ?n" using "2.prems"(4) unfolding directories_ok_def by blast
    then have two: "2 < unat ?n" by simp
    have a: "placement_ok limit cluster (unat (pl_next_free ?q)) ?q"
      using "2.prems"(2,3) n two by (auto simp: placement_ok_def ordered_bt_insert)
    have fresh: "map_of (pl_directory_cluster p) path = None" using "2.prems"(7) False by simp
    have b: "directories_ok (unat (pl_next_free ?q)) ?q"
      using "2.prems"(4) n False fresh two
      by (auto simp: directories_ok_def inj_on_def dom_def) (metis less_irrefl less_SucI)+
    have c: "map_of (pl_chains ?q) 2 = Some CHAIN_END" using "2.prems"(5) by simp
    have d: "\<forall>path' \<in> set paths. path' \<noteq> [] \<longrightarrow> map_of (pl_directory_cluster ?q) path' = None"
      using "2.prems"(6,7) by auto
    show ?thesis using "2.IH"(2) [OF False lim rest a _ b c _ d] "2.prems"(3,6) by simp
  qed
qed simp

text \<open>The links of one run.\<close>

definition linked :: "u32 \<Rightarrow> nat \<Rightarrow> (u32 \<times> u32) list \<Rightarrow> (u32 \<times> u32) list" where
  "linked first n t = fold (\<lambda>i. (\<lambda>(c, nxt). bt_insert c nxt) (chain_link first n i)) [0..<n] t"

lemma unat_run:
  assumes "unat (first :: u32) + n < 2 ^ 32" "i \<le> n"
  shows "unat (first + of_nat i) = unat first + i"
  using assms by (simp add: unat_add_exact unat_of_nat_exact)

lemma linked_spec:
  assumes "ordered t" "unat first + n < 2 ^ 32"
  shows "ordered (linked first n t)" "i < n \<Longrightarrow> map_of (linked first n t) (first + of_nat i) = Some (snd (chain_link first n i))"
    "unat (c :: u32) < unat first \<Longrightarrow> map_of (linked first n t) c = map_of t c"
    "fst ` set (linked first n t) = fst ` set t \<union> {c. unat first \<le> unat c \<and> unat c < unat first + n}"
proof -
  have e: "linked first n t = fold (\<lambda>i. bt_insert (fst (chain_link first n i)) (snd (chain_link first n i))) [0..<n] t"
    by (simp add: linked_def split_beta)
  show "ordered (linked first n t)" unfolding e by (rule ordered_fold_bt_insert [OF assms(1)])
  let ?l = "rev (map (chain_link first n) [0..<n])"
  have k: "map_of (linked first n t) = map_of t ++ map_of ?l" unfolding e map_of_fold_bt_insert by simp
  have "inj_on (\<lambda>i. first + of_nat i) {0..<n}"
  proof (rule inj_onI)
    fix i j assume a: "i \<in> {0..<n}" "j \<in> {0..<n}" "first + of_nat i = first + of_nat j"
    then have "unat first + i = unat first + j" using unat_run [OF assms(2)] by (metis atLeastLessThan_iff less_imp_le)
    then show "i = j" by simp
  qed
  then have d: "distinct (map fst ?l)" by (simp add: distinct_map o_def chain_link_def rev_map [symmetric])
  show "map_of (linked first n t) (first + of_nat i) = Some (snd (chain_link first n i))" if "i < n"
  proof -
    have "(first + of_nat i, snd (chain_link first n i)) \<in> set ?l" using that by (auto simp: chain_link_def image_iff)
    then show ?thesis using map_of_is_SomeI [OF d] by (simp add: k)
  qed
  have dom: "fst ` set ?l = {c. unat first \<le> unat c \<and> unat c < unat first + n}"
  proof safe
    fix a b assume "(a, b) \<in> set ?l"
    then obtain i where "i < n" "a = first + of_nat i" by (auto simp: chain_link_def)
    then show "unat first \<le> unat (fst (a, b))" "unat (fst (a, b)) < unat first + n" using unat_run [OF assms(2), of i] by simp_all
  next
    fix c :: u32 assume c: "unat first \<le> unat c" "unat c < unat first + n"
    have "c = first + of_nat (unat c - unat first)"
      using c unat_run [OF assms(2), of "unat c - unat first"] by (simp add: word_unat_eq_iff)
    then have "c = fst (chain_link first n (unat c - unat first))" by (simp add: chain_link_def)
    moreover have "chain_link first n (unat c - unat first) \<in> set ?l" using c by auto
    ultimately show "c \<in> fst ` set ?l" by (rule image_eqI)
  qed
  show "map_of (linked first n t) c = map_of t c" if "unat c < unat first"
  proof -
    have "c \<notin> fst ` set ?l" unfolding dom using that by simp
    then show ?thesis by (simp add: k map_add_dom_app_simps(3) dom_map_of_conv_image_fst)
  qed
  show "fst ` set (linked first n t) = fst ` set t \<union> {c. unat first \<le> unat c \<and> unat c < unat first + n}"
    unfolding dom_map_of_conv_image_fst [symmetric] k dom_map_add dom [unfolded dom_map_of_conv_image_fst [symmetric]] by blast
qed

text \<open>One file placed.\<close>

definition with_run :: "image_file \<Rightarrow> nat \<Rightarrow> placement \<Rightarrow> placement" where
  "with_run f n p = p\<lparr>pl_chains := linked (pl_next_free p) n (pl_chains p), pl_placed := pl_placed p @ [(f, pl_next_free p)],
     pl_next_free := pl_next_free p + of_nat n\<rparr>"

lemma with_run_ok:
  assumes ok: "placement_ok limit cluster lo p" and n: "n = need cluster f" "n \<noteq> 0" "unat (pl_next_free p) + n \<le> unat limit" and lo: "2 \<le> lo"
  shows "placement_ok limit cluster lo (with_run f n p)"
proof -
  let ?m = "pl_next_free p" and ?q = "with_run f n p"
  have bound: "unat ?m + n < 2 ^ 32" using n(3) unat_u32_bound [of limit] by simp
  have nx: "unat (pl_next_free ?q) = unat ?m + n" using unat_run [OF bound, of n] by (simp add: with_run_def)
  have o: "ordered (pl_chains p)" using ok by (simp add: placement_ok_def)
  note L = linked_spec [OF o bound]
  have lom: "lo \<le> unat ?m" using ok by (simp add: placement_ok_def)
  have old: "run_of cluster lo ?q x" if x: "x \<in> set (pl_placed p)" for x
  proof -
    obtain h a where h: "x = (h, a)" by fastforce
    have r: "run_of cluster lo p (h, a)" using ok x h by (simp add: placement_ok_def)
    show ?thesis
    proof (cases "need cluster h = 0")
      case True
      then show ?thesis using r h by (simp add: run_of_def)
    next
      case False
      have b: "unat a + need cluster h < 2 ^ 32" using r False unat_u32_bound [of ?m] by (simp add: run_of_def)
      have "map_of (pl_chains ?q) (a + of_nat i) = map_of (pl_chains p) (a + of_nat i)" if "i < need cluster h" for i
        using L(3) [of "a + of_nat i"] r False that unat_run [OF b, of i] by (simp add: run_of_def with_run_def)
      then show ?thesis using r False h nx by (simp add: run_of_def)
    qed
  qed
  have new: "run_of cluster lo ?q (f, ?m)"
    using L(2) nx lom n(1,2) by (simp add: run_of_def with_run_def)
  have keys: "2 \<le> unat c \<and> unat c < unat (pl_next_free ?q)" if "c \<in> fst ` set (pl_chains ?q)" for c
  proof -
    have "c \<in> fst ` set (pl_chains p) \<or> unat ?m \<le> unat c \<and> unat c < unat ?m + n" using that L(4) by (auto simp: with_run_def)
    then show ?thesis using ok nx lom lo unfolding placement_ok_def by fastforce
  qed
  have "runs_apart cluster x (f, ?m)" if "x \<in> set (pl_placed p)" for x
    using that ok by (auto simp: placement_ok_def run_of_def runs_apart_def)
  then have "sorted_wrt (runs_apart cluster) (pl_placed ?q)" using ok by (simp add: with_run_def sorted_wrt_append placement_ok_def)
  then show ?thesis using old new keys nx n(3) L(1) lom by (auto simp: placement_ok_def with_run_def)
qed

lemma place_files_ok:
  assumes "place_files limit cluster files p = Inr p'" "placement_ok limit cluster lo p" "2 \<le> lo" "\<forall>f \<in> set files. need cluster f < 2 ^ 32"
  shows "placement_ok limit cluster lo p' \<and> map fst (pl_placed p') = map fst (pl_placed p) @ files \<and>
    pl_directory_cluster p' = pl_directory_cluster p \<and> (\<forall>c. unat c < unat (pl_next_free p) \<longrightarrow> map_of (pl_chains p') c = map_of (pl_chains p) c) \<and>
    unat (pl_next_free p) \<le> unat (pl_next_free p')"
  using assms
proof (induction files arbitrary: p)
  case (Cons f files)
  let ?n = "need cluster f"
  have n: "clusters_needed cluster f = of_nat ?n" "unat (of_nat ?n :: u32) = ?n"
    using Cons.prems(4) by (simp_all add: clusters_needed_def need_def unat_of_nat_exact)
  have z: "(of_nat ?n :: u32) = 0 \<longleftrightarrow> ?n = 0" using n(2) by (metis unat_0 unat_eq_0)
  have small: "\<forall>f \<in> set files. need cluster f < 2 ^ 32" using Cons.prems(4) by simp
  show ?case
  proof (cases "?n = 0")
    case True
    let ?q = "p\<lparr>pl_placed := pl_placed p @ [(f, 0)]\<rparr>"
    have "placement_ok limit cluster lo ?q"
      using Cons.prems(2) True by (auto simp: placement_ok_def run_of_def sorted_wrt_append runs_apart_def)
    moreover have "place_files limit cluster files ?q = Inr p'" using Cons.prems(1) True by (simp add: n)
    ultimately show ?thesis using Cons.IH [of ?q] Cons.prems(3) small by simp
  next
    case False
    have c: "unat (pl_next_free p) + ?n < 2 ^ 32" "unat (pl_next_free p) + ?n \<le> unat limit"
      and rest: "place_files limit cluster files (with_run f ?n p) = Inr p'"
      using Cons.prems(1) False z
      by (auto simp: n Let_def u32_add_def checked_add_def ok_or_def map_err_def and_then_Inr_iff with_run_def linked_def word_less_nat_alt unat_add_exact
          split: if_splits)
    note W = with_run_ok [OF Cons.prems(2) refl False c(2) Cons.prems(3)]
    have o: "ordered (pl_chains p)" using Cons.prems(2) by (simp add: placement_ok_def)
    have nx: "unat (pl_next_free (with_run f ?n p)) = unat (pl_next_free p) + ?n"
      using unat_run [OF c(1), of ?n] by (simp add: with_run_def)
    have "map_of (pl_chains (with_run f ?n p)) d = map_of (pl_chains p) d" if "unat d < unat (pl_next_free p)" for d
      using linked_spec(3) [OF o c(1) that] by (simp add: with_run_def)
    then show ?thesis using Cons.IH [OF rest W Cons.prems(3) small] nx by (auto simp: with_run_def)
  qed
qed simp

section \<open>Where the clusters are\<close>

definition cluster_size :: "geometry \<Rightarrow> nat" where
  "cluster_size g = 512 * unat (g_sectors_per_cluster g)"

definition tables_end :: "geometry \<Rightarrow> nat" where
  "tables_end g = 512 * (32 + 2 * unat (g_sectors_per_fat g))"

definition place_of :: "geometry \<Rightarrow> nat \<Rightarrow> nat" where
  "place_of g c = tables_end g + (c - 2) * cluster_size g"

lemma place_of_mono: "2 \<le> c \<Longrightarrow> c + n \<le> d \<Longrightarrow> place_of g c + n * cluster_size g \<le> place_of g d"
proof -
  assume "2 \<le> c" "c + n \<le> d"
  then have "(c - 2 + n) * cluster_size g \<le> (d - 2) * cluster_size g" by (intro mult_right_mono) auto
  then show ?thesis by (simp add: place_of_def add_mult_distrib)
qed

lemma place_of_end:
  assumes "geometry_ok tot spc g" "2 \<le> c" "c + n \<le> 2 + unat (g_clusters g)"
  shows "place_of g c + n * cluster_size g \<le> 512 * unat tot"
proof -
  let ?d = "32 + 2 * unat (g_sectors_per_fat g)"
  have "unat (g_clusters g) * unat spc \<le> unat tot - ?d" using assms(1) by (simp add: geometry_ok_def)
  moreover have "?d \<le> unat tot" using assms(1) by (simp add: geometry_ok_def)
  ultimately have "?d + unat (g_clusters g) * unat spc \<le> unat tot" by linarith
  moreover have "place_of g c + n * cluster_size g \<le> place_of g (2 + unat (g_clusters g))" by (rule place_of_mono [OF assms(2,3)])
  moreover have "place_of g (2 + unat (g_clusters g)) = 512 * (?d + unat (g_clusters g) * unat spc)"
    using assms(1) by (simp add: place_of_def tables_end_def cluster_size_def geometry_ok_def algebra_simps)
  ultimately show ?thesis by (metis le_trans mult_le_mono2)
qed

lemma sector_place:
  assumes g: "geometry_ok tot spc g" and c: "2 \<le> unat c" "unat c < 2 + unat (g_clusters g)"
  shows "unat (g_sector_of_cluster g c) * 512 = place_of g (unat c)"
    "unat (g_sector_of_cluster g c) = 32 + 2 * unat (g_sectors_per_fat g) + (unat c - 2) * unat spc"
proof -
  let ?d = "32 + 2 * unat (g_sectors_per_fat g)"
  have b: "?d + (unat c - 2) * unat spc + unat spc \<le> unat tot"
    using place_of_end [OF g c(1), of 1] c(2) g by (simp add: place_of_def tables_end_def cluster_size_def geometry_ok_def)
  have t: "unat tot < 2 ^ 26" using g by (simp add: geometry_ok_def)
  have f: "unat (g_first_data_sector g) = ?d"
    using b t g by (simp add: g_first_data_sector_def geometry_ok_def unat_add_exact unat_mult_exact)
  have s: "unat (c - FIRST_DATA_CLUSTER) = unat c - 2" using c(1) by (simp add: FIRST_DATA_CLUSTER_def unat_sub_exact word_le_nat_alt)
  have m: "unat ((c - FIRST_DATA_CLUSTER) * ucast spc) = (unat c - 2) * unat spc"
    using b t s by (subst unat_mult_exact) (simp_all add: unat_ucast_up)
  have spc: "g_sectors_per_cluster g = spc" using g by (simp add: geometry_ok_def)
  show e: "unat (g_sector_of_cluster g c) = ?d + (unat c - 2) * unat spc"
    unfolding g_sector_of_cluster_def spc using b t f m by (subst unat_add_exact) simp_all
  show "unat (g_sector_of_cluster g c) * 512 = place_of g (unat c)"
    by (simp add: e place_of_def tables_end_def cluster_size_def spc algebra_simps)
qed

section \<open>The copies\<close>

lemma length_filled_in: "\<forall>(a, bs) \<in> set parts. a + length bs \<le> n \<Longrightarrow> length (filled_in n parts) = n"
proof -
  have "length (fold (\<lambda>(at, bs) x. copy_at x at bs) parts x) = n" if "length x = n" "\<forall>(a, bs) \<in> set parts. a + length bs \<le> n" for x :: bytes
    using that by (induction parts arbitrary: x) auto
  then show "\<forall>(a, bs) \<in> set parts. a + length bs \<le> n \<Longrightarrow> length (filled_in n parts) = n" by (simp add: filled_in_def)
qed

lemma length_padded_label [simp]: "length (padded_label lab) = 11"
  by (simp add: padded_label_def Let_def)

lemma length_boot [simp]: "length (mk_boot_sector g lab) = 512" "length (mk_fs_info_sector n k) = 512"
  unfolding mk_boot_sector_def mk_fs_info_sector_def by (rule length_filled_in; simp)+

lemma start_patches_spec: "within 0 4096 (start_patches g lab n)" "sorted_wrt apart (start_patches g lab n)"
  by (simp_all add: start_patches_def Let_def IMAGE_SECTOR_BYTES_def BACKUP_BOOT_SECTOR_def apart_def)

lemma table_place:
  assumes "geometry_ok tot spc g" "t \<in> {0, 1}"
  shows "unat (RESERVED_SECTORS + t * g_sectors_per_fat g) = 32 + unat t * unat (g_sectors_per_fat g)"
proof -
  have "unat (g_sectors_per_fat g) < 2 ^ 26" using assms(1) by (simp add: geometry_ok_def)
  then show ?thesis using assms(2) by (auto simp: RESERVED_SECTORS_def unat_add_exact)
qed

lemma table_patches_spec:
  assumes g: "geometry_ok tot spc g" and t: "t \<in> {0, 1}" and o: "ordered links"
    and k: "\<forall>c \<in> fst ` set links. 2 \<le> unat c \<and> unat c < 2 + unat (g_clusters g)"
  shows "within (512 * (32 + unat t * unat (g_sectors_per_fat g))) (512 * (32 + (unat t + 1) * unat (g_sectors_per_fat g))) (table_patches g links t)"
    "sorted_wrt apart (table_patches g links t)"
proof -
  let ?at = "512 * (32 + unat t * unat (g_sectors_per_fat g))"
  let ?links = "map (\<lambda>(cluster, nxt). (?at + unat cluster * 4, u32_to_le nxt)) links"
  have e: "table_patches g links t = (?at, u32_to_le (0x0FFFFF00 OR ucast MEDIA_DESCRIPTOR)) # (?at + 4, u32_to_le CHAIN_END) # ?links"
    by (simp add: table_patches_def Let_def table_place [OF g t] IMAGE_SECTOR_BYTES_def mult.commute)
  have room: "unat (g_clusters g) + 2 \<le> 128 * unat (g_sectors_per_fat g)" "1 \<le> unat (g_sectors_per_fat g)"
    using g by (simp_all add: geometry_ok_def)
  have b: "within (?at + 8) (?at + 512 * unat (g_sectors_per_fat g)) ?links"
    using k room by (fastforce simp: within_def)
  show "within ?at (512 * (32 + (unat t + 1) * unat (g_sectors_per_fat g))) (table_patches g links t)"
    unfolding e using b room(2) by (auto intro: within_mono simp: algebra_simps)
  have "sorted_wrt apart ?links"
    using o unfolding sorted_wrt_map by (rule sorted_wrt_mono_rel [rotated]) (auto simp: apart_def word_less_nat_alt)
  then have "sorted_wrt apart ([(?at, u32_to_le (0x0FFFFF00 OR ucast MEDIA_DESCRIPTOR)), (?at + 4, u32_to_le CHAIN_END)] @ ?links)"
    using b by (intro apart_append [where lo = ?at and hi = "?at + 8"]) (auto simp: apart_def)
  then show "sorted_wrt apart (table_patches g links t)" unfolding e by simp
qed

lemma lay_slots_spec:
  assumes "\<forall>s \<in> set slots. within 0 32 s \<and> sorted_wrt apart s"
  shows "within at (at + 32 * length slots) (lay_slots at slots) \<and> sorted_wrt apart (lay_slots at slots)"
  using assms
proof (induction at slots rule: lay_slots.induct)
  case (2 at s slots)
  let ?s = "map (\<lambda>(off, bs). (at + off, bs)) s"
  have w: "within at (at + 32) ?s" using "2.prems" by (fastforce simp: within_def)
  have o: "sorted_wrt apart ?s"
    using "2.prems" unfolding sorted_wrt_map by (auto elim!: sorted_wrt_mono_rel [rotated] simp: apart_def)
  have r: "within (at + 32) (at + 32 + 32 * length slots) (lay_slots (at + 32) slots)" "sorted_wrt apart (lay_slots (at + 32) slots)"
    using 2 by (simp_all add: DIRECTORY_ENTRY_BYTES_def)
  have "within at (at + 32 * length (s # slots)) ?s" "within at (at + 32 * length (s # slots)) (lay_slots (at + 32) slots)"
    by (rule within_mono [OF w] within_mono [OF r(1)]; simp)+
  then show ?case using apart_append [OF w r(1) _ o r(2)] by (simp add: DIRECTORY_ENTRY_BYTES_def)
qed simp

section \<open>Names and paths\<close>

lemma split_slash_plain: "47 \<notin> set bs \<Longrightarrow> split_slash bs = [bs]"
  by (induction bs) auto

lemma split_slash_nonempty: "split_slash bs \<noteq> []"
  by (induction bs) (auto split: list.splits)

lemma split_slash_append: "split_slash (xs @ 47 # ys) = split_slash xs @ split_slash ys"
  by (induction xs) (auto simp: split_slash_nonempty split: list.splits)

lemma path_parts:
  assumes "47 \<in> set name"
  shows "name = parents_of name @ 47 # last_part name" "47 \<notin> set (last_part name)"
proof -
  obtain xs ys where n: "rev name = xs @ 47 # ys" "47 \<notin> set xs" using assms split_list_first [of 47 "rev name"] by auto
  have "takeWhile (\<lambda>b. b \<noteq> 47) (rev name) = xs" "dropWhile (\<lambda>b. b \<noteq> 47) (rev name) = 47 # ys"
    unfolding n(1) using n(2) takeWhile_append2 [of xs "\<lambda>b. b \<noteq> 47" "47 # ys"] dropWhile_append2 [of xs "\<lambda>b. b \<noteq> 47" "47 # ys"]
    by fastforce+
  moreover have "name = rev ys @ 47 # rev xs" using n(1) by (metis append.assoc append_Cons append_Nil rev.simps(2) rev_append rev_rev_ident)
  ultimately show "name = parents_of name @ 47 # last_part name" "47 \<notin> set (last_part name)"
    using assms n(2) by (simp_all add: parents_of_def last_part_def)
qed

lemma last_part_plain: "47 \<notin> set name \<Longrightarrow> last_part name = name"
proof -
  assume "47 \<notin> set name"
  then have "takeWhile (\<lambda>b. b \<noteq> 47) (rev name) = rev name" by (intro takeWhile_eq_all_conv [THEN iffD2]) auto
  then show "last_part name = name" unfolding last_part_def by (metis rev_rev_ident)
qed

lemma last_part_join: "47 \<notin> set part \<Longrightarrow> last_part (path @ 47 # part) = part"
proof -
  assume "47 \<notin> set part"
  then have "takeWhile (\<lambda>b. b \<noteq> 47) (rev part @ 47 # rev path) = rev part" by (subst takeWhile_append2) auto
  then show "last_part (path @ 47 # part) = part" by (simp add: last_part_def)
qed

lemma good_path_parts:
  assumes "good_path name"
  shows "is_eight_three (last_part name)"
    "part \<in> set (filter (\<lambda>part. part \<noteq> []) (split_slash (parents_of name))) \<Longrightarrow> is_eight_three part"
proof -
  have a: "\<forall>p \<in> set (split_slash name). is_eight_three p" using assms by (simp add: good_path_def list_all_iff)
  have b: "split_slash name = (if 47 \<in> set name then split_slash (parents_of name) else []) @ [last_part name]"
  proof (cases "47 \<in> set name")
    case True
    have "split_slash name = split_slash (parents_of name @ 47 # last_part name)" using path_parts(1) [OF True] by simp
    then show ?thesis using True split_slash_plain [OF path_parts(2) [OF True]] by (simp add: split_slash_append)
  qed (simp add: split_slash_plain last_part_plain)
  show "is_eight_three (last_part name)" using a b by simp
  show "is_eight_three part" if "part \<in> set (filter (\<lambda>part. part \<noteq> []) (split_slash (parents_of name)))"
    using that a b by (cases "47 \<in> set name") (auto simp: parents_of_def)
qed

lemma eight_three_no_slash: "is_eight_three part \<Longrightarrow> 47 \<notin> set part"
proof
  assume "is_eight_three part" "47 \<in> set part"
  then have "0x41 \<le> (47 :: u8) \<and> (47 :: u8) \<le> 0x5A \<or> 0x30 \<le> (47 :: u8) \<and> (47 :: u8) \<le> 0x39 \<or> (47 :: u8) = 46"
    unfolding is_eight_three_def by (auto simp only: Let_def split: prod.splits)
  then show False by simp
qed

lemma split_name_length: "split_name name = (base, ext) \<Longrightarrow> set base \<subseteq> set name \<and> set ext \<subseteq> set name"
  by (auto simp: split_name_def dest: set_takeWhileD split: if_splits) (metis list.sel(2) list.set_sel(2) set_dropWhileD)

lemma padded_encodes:
  assumes "is_eight_three name"
  shows "encode_name name = Some (padded_name name)" "length (padded_name name) = 11"
proof -
  obtain base ext where sp: "split_name name = (base, ext)" by fastforce
  have l: "base \<noteq> []" "length base \<le> 8" "length ext \<le> 3" and
    c: "\<forall>b \<in> set name. 0x41 \<le> b \<and> b \<le> 0x5A \<or> 0x30 \<le> b \<and> b \<le> 0x39 \<or> b = 46"
    using assms by (simp_all add: is_eight_three_def sp)
  have al: "allowed_in_a_name b = Some b" if "b \<in> set name" for b
  proof -
    have u: "0x41 \<le> unat b \<and> unat b \<le> 0x5A \<or> 0x30 \<le> unat b \<and> unat b \<le> 0x39 \<or> unat b = 46"
      using c that by (auto simp: word_le_nat_alt)
    then show ?thesis
      by (auto simp: allowed_in_a_name_def RESERVED_bytes_def to_ascii_uppercase_def word_le_nat_alt word_less_nat_alt word_unat_eq_iff)
  qed
  have part: "encode_part bs = Some bs" if "set bs \<subseteq> set name" for bs using that by (induction bs) (simp_all add: al)
  have sub: "set base \<subseteq> set name" "set ext \<subseteq> set name" using split_name_length [OF sp] by auto
  show len: "length (padded_name name) = 11" using l by (simp add: padded_name_def sp)
  have "padded_name name ! 0 = base ! 0" using l by (simp add: padded_name_def sp nth_copy_at)
  moreover have "base ! 0 \<in> set name" using l(1) sub(1) by (meson length_greater_0_conv nth_mem subset_eq)
  moreover have "0xE5 \<notin> set name"
  proof
    assume "0xE5 \<in> set name"
    then show False using c by fastforce
  qed
  ultimately have "padded_name name ! 0 \<noteq> ENTRY_DELETED" by (auto simp: ENTRY_DELETED_def)
  then show "encode_name name = Some (padded_name name)"
    using l part [OF sub(1)] part [OF sub(2)] by (simp add: encode_name_def sp padded_name_def Let_def)
qed

section \<open>The directories\<close>

definition item_name :: "dir_item \<Rightarrow> bytes" where
  "item_name item = (case item of FileItem f \<Rightarrow> last_part (f_name f) | DirectoryItem path \<Rightarrow> last_part path)"

definition files_in :: "dir_item list \<Rightarrow> image_file list" where
  "files_in held = concat (map (\<lambda>item. case item of FileItem f \<Rightarrow> [f] | DirectoryItem _ \<Rightarrow> []) held)"

lemma files_in_simps [simp]:
  "files_in [] = []" "files_in (xs @ ys) = files_in xs @ files_in ys"
  "files_in [FileItem f] = [f]" "files_in [DirectoryItem d] = []"
  by (simp_all add: files_in_def)

lemma set_files_in: "f \<in> set (files_in held) \<longleftrightarrow> FileItem f \<in> set held"
  by (auto simp: files_in_def split: dir_item.splits)

definition item_ok :: "image_file list \<Rightarrow> dir_item \<Rightarrow> bool" where
  "item_ok files item \<longleftrightarrow> is_eight_three (item_name item) \<and> (\<forall>f. item = FileItem f \<longrightarrow> f \<in> set files)"

definition items_ok :: "image_file list \<Rightarrow> dir_tree \<Rightarrow> bool" where
  "items_ok files tree \<longleftrightarrow> (\<forall>path held. map_of tree path = Some held \<longrightarrow> (\<forall>item \<in> set held. item_ok files item))"

definition tree_ok :: "image_file list \<Rightarrow> dir_tree \<Rightarrow> bool" where
  "tree_ok files tree \<longleftrightarrow> ordered tree \<and> items_ok files tree \<and>
     (\<exists>held. map_of tree [] = Some held \<and> files_in held = filter (\<lambda>f. 47 \<notin> set (f_name f)) files)"

lemma map_of_bt_push: "map_of (bt_push k x t) = (map_of t)(k \<mapsto> (case map_of t k of Some xs \<Rightarrow> xs | None \<Rightarrow> []) @ [x])"
  by (simp add: bt_push_def)

lemma ordered_bt_push: "ordered t \<Longrightarrow> ordered (bt_push k x t)"
  by (simp add: bt_push_def ordered_bt_insert)

lemma items_ok_push: "items_ok files t \<Longrightarrow> item_ok files x \<Longrightarrow> items_ok files (bt_push k x t)"
  by (cases "map_of t k") (auto simp: items_ok_def map_of_bt_push)

lemma items_ok_insert: "items_ok files t \<Longrightarrow> items_ok files (bt_insert k [] t)"
  by (auto simp: items_ok_def)

lemma tree_ok_new_directory:
  assumes "tree_ok files tree" "map_of tree path' = None" "is_eight_three (last_part path')"
  shows "tree_ok files (bt_push path (DirectoryItem path') (bt_insert path' [] tree))"
proof -
  obtain held where h: "map_of tree [] = Some held" "files_in held = filter (\<lambda>f. 47 \<notin> set (f_name f)) files"
    using assms(1) by (auto simp: tree_ok_def)
  have "item_ok files (DirectoryItem path')" using assms(3) by (simp add: item_ok_def item_name_def)
  then have "items_ok files (bt_push path (DirectoryItem path') (bt_insert path' [] tree))"
    using assms(1) items_ok_push items_ok_insert by (simp add: tree_ok_def)
  moreover have "path' \<noteq> []" using assms(2) h(1) by auto
  ultimately show ?thesis using assms(1) h by (auto simp: tree_ok_def map_of_bt_push ordered_bt_push ordered_bt_insert)
qed

lemma add_parents_ok:
  assumes "tree_ok files tree" "\<forall>part \<in> set parts. is_eight_three part"
  shows "tree_ok files (add_parents path parts tree)"
  using assms
proof (induction path parts tree rule: add_parents.induct)
  case (2 path part parts tree)
  let ?path' = "if path = [] then part else path @ [47] @ part"
  have "47 \<notin> set part" using "2.prems"(2) eight_three_no_slash by simp
  then have "last_part ?path' = part" using last_part_join last_part_plain by simp
  then have "tree_ok files (if map_of tree ?path' = None then bt_push path (DirectoryItem ?path') (bt_insert ?path' [] tree) else tree)"
    using tree_ok_new_directory [OF "2.prems"(1)] "2.prems" by simp
  then show ?case using "2.IH" [OF refl refl] "2.prems"(2) by (simp add: Let_def del: append_Cons append_Nil)
qed simp

lemma parents_of_Nil: "47 \<in> set name \<Longrightarrow> good_path name \<Longrightarrow> parents_of name \<noteq> []"
proof
  assume a: "47 \<in> set name" "good_path name" "parents_of name = []"
  have "split_slash name = split_slash ([] @ 47 # last_part name)" using path_parts(1) [OF a(1)] a(3) by simp
  then have "[] \<in> set (split_slash name)" by simp
  then have "is_eight_three []" using a(2) by (simp add: good_path_def list_all_iff)
  then show False by (simp add: is_eight_three_def split_name_def)
qed

lemma add_file_ok:
  assumes "tree_ok files tree" "good_path (f_name f)"
  shows "tree_ok (files @ [f]) (add_file f tree)"
proof -
  let ?n = "f_name f"
  define t where "t = add_parents [] (filter (\<lambda>part. part \<noteq> []) (split_slash (parents_of ?n))) tree"
  have t: "tree_ok files t" unfolding t_def using add_parents_ok [OF assms(1)] good_path_parts(2) [OF assms(2)] by blast
  have p: "parents_of ?n = [] \<longleftrightarrow> 47 \<notin> set ?n" using parents_of_Nil [OF _ assms(2)] by (auto simp: parents_of_def)
  have e: "is_eight_three (item_name (FileItem f))" using good_path_parts(1) [OF assms(2)] by (simp add: item_name_def)
  obtain held where h: "map_of t [] = Some held" "files_in held = filter (\<lambda>f. 47 \<notin> set (f_name f)) files"
    using t by (auto simp: tree_ok_def)
  have "items_ok (files @ [f]) t" using t by (fastforce simp: tree_ok_def items_ok_def item_ok_def)
  then have "items_ok (files @ [f]) (bt_push (parents_of ?n) (FileItem f) t)"
    using e by (intro items_ok_push) (simp_all add: item_ok_def)
  then show ?thesis unfolding add_file_def t_def [symmetric]
    using t p h by (auto simp: tree_ok_def map_of_bt_push ordered_bt_push)
qed

lemma tree_of_ok:
  assumes "\<forall>f \<in> set files. good_path (f_name f)"
  shows "tree_ok files (tree_of files)"
proof -
  have "tree_ok (seen @ files) (fold add_file files tree)" if "tree_ok seen tree" "\<forall>f \<in> set files. good_path (f_name f)" for seen tree
    using that
  proof (induction files arbitrary: seen tree)
    case (Cons f files)
    then show ?case using Cons.IH [OF add_file_ok, of seen tree f] by simp
  qed simp
  moreover have "tree_ok [] [([], [])]" by (simp add: tree_ok_def items_ok_def)
  ultimately show ?thesis using assms by (fastforce simp: tree_of_def)
qed

lemma collect_Inr: "collect rs = Inr xs \<longleftrightarrow> rs = map Inr xs"
  by (induction rs arbitrary: xs) (auto simp: and_then_Inr_iff Cons_eq_map_conv)

lemma bt_index_Inr: "bt_index t k = Inr v \<longleftrightarrow> map_of t k = Some v"
  by (auto simp: bt_index_def ok_or_def split: option.splits)

lemma length_entries:
  assumes "is_eight_three (last_part (f_name f))"
  shows "length (mk_directory_entry f first) = 32"
  unfolding mk_directory_entry_def using padded_encodes(2) [OF assms] by (intro length_filled_in) simp

lemma length_directory_entry:
  assumes "is_eight_three name"
  shows "length (mk_directory_entry_for_directory name c) = 32"
  unfolding mk_directory_entry_for_directory_def using padded_encodes(2) [OF assms] by (intro length_filled_in) simp

lemma item_slot_spec:
  assumes "item_ok files item" "item_slot went dirs item = Inr slot"
  shows "within 0 32 slot \<and> sorted_wrt apart slot"
  using assms length_entries length_directory_entry
  by (auto simp: item_slot_def item_ok_def item_name_def and_then_Inr_iff split: dir_item.splits)

lemma head_slots_spec:
  assumes "head_slots lab dirs path c = Inr heads"
  shows "(\<forall>s \<in> set heads. within 0 32 s \<and> sorted_wrt apart s) \<and> length heads = (if path = [] then 1 else 2)"
  using assms
  by (auto simp: head_slots_def Let_def and_then_Inr_iff label_slot_def dot_slot_def DOT_def DOT_DOT_def apart_def split: if_splits)

definition went :: "placement \<Rightarrow> (bytes \<times> u32) list" where
  "went p = fold (\<lambda>(f, first). bt_insert (f_name f) first) (pl_placed p) []"

lemma directory_patches_spec:
  assumes g: "geometry_ok tot spc g" and d: "directories_ok lo p" "lo \<le> 2 + unat (g_clusters g)"
    and i: "\<forall>item \<in> set held. item_ok files item" and f: "\<not> too_full (512 * unat spc div 32) (path, held)"
    and r: "directory_patches g lab p (path, held) = Inr ws"
  shows "\<exists>c heads slots. map_of (pl_directory_cluster p) path = Some c \<and> head_slots lab (pl_directory_cluster p) path c = Inr heads \<and>
    map (item_slot (went p) (pl_directory_cluster p)) held = map Inr slots \<and> ws = lay_slots (place_of g (unat c)) (heads @ slots) \<and>
    within (place_of g (unat c)) (place_of g (unat c) + cluster_size g) ws \<and> sorted_wrt apart ws"
proof -
  obtain c heads slots where e: "map_of (pl_directory_cluster p) path = Some c" "head_slots lab (pl_directory_cluster p) path c = Inr heads"
    "map (item_slot (went p) (pl_directory_cluster p)) held = map Inr slots"
    "ws = lay_slots (unat (g_sector_of_cluster g c) * 512) (heads @ slots)"
    using r by (auto simp: directory_patches_def Let_def and_then_Inr_iff collect_Inr bt_index_Inr went_def IMAGE_SECTOR_BYTES_def)
  have c: "2 \<le> unat c" "unat c < 2 + unat (g_clusters g)" using d e(1) unfolding directories_ok_def by fastforce+
  have ws: "ws = lay_slots (place_of g (unat c)) (heads @ slots)" using e(4) sector_place(1) [OF g c] by simp
  note H = head_slots_spec [OF e(2)]
  have S: "\<forall>s \<in> set slots. within 0 32 s \<and> sorted_wrt apart s"
  proof
    fix s assume "s \<in> set slots"
    then have "Inr s \<in> set (map (item_slot (went p) (pl_directory_cluster p)) held)" using e(3) by simp
    then show "within 0 32 s \<and> sorted_wrt apart s" using i item_slot_spec by fastforce
  qed
  have "length slots = length held" using e(3) map_eq_imp_length_eq by fastforce
  then have "length (heads @ slots) \<le> 512 * unat spc div 32" using H f by (simp add: too_full_def split: if_splits)
  then have n: "32 * length (heads @ slots) \<le> cluster_size g" using g by (simp add: cluster_size_def geometry_ok_def)
  have L: "within (place_of g (unat c)) (place_of g (unat c) + 32 * length (heads @ slots)) ws \<and> sorted_wrt apart ws"
    unfolding ws using H S by (intro lay_slots_spec) auto
  then have "within (place_of g (unat c)) (place_of g (unat c) + cluster_size g) ws" using n by (blast intro: within_mono add_left_mono)
  then show ?thesis using e(1-3) ws L by blast
qed

section \<open>The whole image\<close>

text \<open>What a successful run of the formatter went through.\<close>

definition formatted :: "u32 \<Rightarrow> u8 \<Rightarrow> bytes \<Rightarrow> image_file list \<Rightarrow> geometry \<Rightarrow> placement \<Rightarrow> nat \<Rightarrow> patch list list \<Rightarrow> bool" where
  "formatted tot spc lab files g p lo dirs \<longleftrightarrow>
     tree_ok files (tree_of files) \<and> geometry_ok tot spc g \<and> 65525 \<le> unat (g_clusters g) \<and>
     placement_ok (2 + g_clusters g) (cluster_size g) lo p \<and> directories_ok lo p \<and> 2 < lo \<and> map_of (pl_chains p) 2 = Some CHAIN_END \<and>
     map fst (pl_placed p) = files \<and> map (directory_patches g lab p) (tree_of files) = map Inr dirs \<and>
     (\<forall>x \<in> set (tree_of files). \<not> too_full (512 * unat spc div 32) x)"

lemma limit_exact: "geometry_ok tot spc g \<Longrightarrow> unat (2 + g_clusters g) = 2 + unat (g_clusters g)"
proof -
  assume g: "geometry_ok tot spc g"
  have "unat (g_clusters g) \<le> unat tot" using g by (auto simp: geometry_ok_def intro: le_trans [OF div_le_dividend])
  then show ?thesis using g by (simp add: geometry_ok_def unat_add_exact)
qed

lemma place_all_ok:
  assumes g: "geometry_ok tot spc g" and pl: "place_all g files = Inr p" and t: "tree_ok files (tree_of files)"
    and small: "\<forall>f \<in> set files. length (f_contents f) < 2 ^ 32" and room: "1 \<le> unat (g_clusters g)"
  shows "\<exists>lo. placement_ok (2 + g_clusters g) (cluster_size g) lo p \<and> directories_ok lo p \<and> 2 < lo \<and> map_of (pl_chains p) 2 = Some CHAIN_END \<and>
    map fst (pl_placed p) = files"
proof -
  let ?limit = "2 + g_clusters g"
  note lim = limit_exact [OF g]
  have cl: "cluster_size g = 512 * unat (g_sectors_per_cluster g)" "0 < cluster_size g" using g by (simp_all add: cluster_size_def geometry_ok_def)
  obtain q where q: "place_directories ?limit (map fst (tree_of files)) placement_start = Inr q"
    "place_files ?limit (cluster_size g) files q = Inr p"
    using pl by (auto simp: place_all_def Let_def and_then_Inr_iff FIRST_DATA_CLUSTER_def IMAGE_SECTOR_BYTES_def cl(1))
  have three: "unat (3 :: u32) = 3" by simp
  have s: "placement_ok ?limit (cluster_size g) (unat (pl_next_free placement_start)) placement_start"
    "directories_ok (unat (pl_next_free placement_start)) placement_start"
    using lim room by (simp_all add: placement_ok_def directories_ok_def placement_start_def FIRST_DATA_CLUSTER_def inj_on_def split: if_splits)
  have "distinct (map fst (tree_of files))" using t unfolding tree_ok_def by (blast intro: ordered_distinct)
  note D = place_directories_ok [OF q(1) s(1) _ s(2) _ this]
  have D': "placement_ok ?limit (cluster_size g) (unat (pl_next_free q)) q \<and> pl_placed q = [] \<and> directories_ok (unat (pl_next_free q)) q \<and>
      map_of (pl_chains q) 2 = Some CHAIN_END"
    by (rule D) (simp_all add: placement_start_def FIRST_DATA_CLUSTER_def)
  have "unat (2 :: u32) < unat (pl_next_free q)" using D' unfolding directories_ok_def by blast
  then have lo: "2 < unat (pl_next_free q)" by simp
  have "need (cluster_size g) f < 2 ^ 32" if "f \<in> set files" for f
  proof -
    have "need (cluster_size g) f \<le> length (f_contents f)" using cl(2) by (cases "f_contents f") (simp_all add: need_def div_add_self2)
    then show ?thesis using small that by fastforce
  qed
  then have F: "placement_ok ?limit (cluster_size g) (unat (pl_next_free q)) p \<and> map fst (pl_placed p) = map fst (pl_placed q) @ files \<and>
      pl_directory_cluster p = pl_directory_cluster q \<and> (\<forall>c. unat c < unat (pl_next_free q) \<longrightarrow> map_of (pl_chains p) c = map_of (pl_chains q) c) \<and>
      unat (pl_next_free q) \<le> unat (pl_next_free p)"
    using D' lo by (intro place_files_ok [OF q(2)]) auto
  have "map_of (pl_chains p) 2 = Some CHAIN_END" using F D' lo by simp
  moreover have "directories_ok (unat (pl_next_free q)) p" using F D' by (simp add: directories_ok_def)
  ultimately show ?thesis using F D' lo by (intro exI [of _ "unat (pl_next_free q)"]) simp
qed

lemma mk_format_parts:
  assumes "mk_format tot spc lab files = Inr (img, g)" "\<forall>f \<in> set files. length (f_contents f) < 2 ^ 32"
  obtains p lo dirs where "formatted tot spc lab files g p lo dirs"
    "put_all (start_patches g lab (pl_next_free p) @ table_patches g (pl_chains p) 0 @ table_patches g (pl_chains p) 1 @
       concat dirs @ file_patches g p) (replicate (unat tot * 512) 0) = Inr img"
proof -
  have good: "\<forall>f \<in> set files. good_path (f_name f)" using assms(1) by (auto simp: mk_format_def find_None_iff split: option.splits)
  then have none: "find (\<lambda>f. \<not> good_path (f_name f)) files = None" by (simp add: find_None_iff)
  have g: "geometry_for tot spc = Inr g" and big: "\<not> g_clusters g < 65525"
    and full: "find (too_full (512 * unat spc div 32)) (tree_of files) = None"
    using assms(1) by (auto simp: mk_format_def none and_then_Inr_iff map_err_Inr_iff IMAGE_SECTOR_BYTES_def DIRECTORY_ENTRY_BYTES_def
        split: if_splits option.splits)
  have "find (too_full (16 * unat spc)) (tree_of files) = None" using full by simp
  then obtain p ws where p: "place_all g files = Inr p" "patches_of g lab files p = Inr ws" "put_all ws (replicate (unat tot * 512) 0) = Inr img"
    using assms(1) by (auto simp: mk_format_def none and_then_Inr_iff map_err_Inr_iff IMAGE_SECTOR_BYTES_def DIRECTORY_ENTRY_BYTES_def g big)
  obtain dirs where d: "map (directory_patches g lab p) (tree_of files) = map Inr dirs"
    "ws = start_patches g lab (pl_next_free p) @ table_patches g (pl_chains p) 0 @ table_patches g (pl_chains p) 1 @ concat dirs @ file_patches g p"
    using p(2) by (auto simp: patches_of_def and_then_Inr_iff collect_Inr)
  note G = geometry_for_ok [OF g] and T = tree_of_ok [OF good]
  have c: "65525 \<le> unat (g_clusters g)" using big by (simp add: word_less_nat_alt)
  obtain lo where "placement_ok (2 + g_clusters g) (cluster_size g) lo p \<and> directories_ok lo p \<and> 2 < lo \<and> map_of (pl_chains p) 2 = Some CHAIN_END \<and>
      map fst (pl_placed p) = files" using place_all_ok [OF G p(1) T assms(2)] c by auto
  then have "formatted tot spc lab files g p lo dirs" using G T c d(1) full by (auto simp: formatted_def find_None_iff)
  then show ?thesis using that p(3) d(2) by blast
qed

lemma run_length: "0 < cluster \<Longrightarrow> length (f_contents f) \<le> need cluster f * cluster"
proof -
  assume c: "0 < cluster"
  define n where "n = length (f_contents f) + cluster - 1"
  have "n < (n div cluster + 1) * cluster" using dividend_less_times_div [OF c, of n] by (simp add: algebra_simps)
  then have "n + 1 \<le> n div cluster * cluster + cluster" by simp
  then show ?thesis using c by (simp add: need_def n_def)
qed

lemma file_patches_spec:
  assumes F: "formatted tot spc lab files g p lo dirs"
  shows "within (place_of g lo) (512 * unat tot) (file_patches g p)" "sorted_wrt apart (file_patches g p)"
    "\<And>f first. (f, first) \<in> set (pl_placed p) \<Longrightarrow> first \<noteq> 0 \<Longrightarrow> (place_of g (unat first), f_contents f) \<in> set (file_patches g p)"
proof -
  have g: "geometry_ok tot spc g" and pl: "placement_ok (2 + g_clusters g) (cluster_size g) lo p" and lo: "2 < lo"
    using F by (simp_all add: formatted_def)
  have cs: "0 < cluster_size g" using g by (simp add: cluster_size_def geometry_ok_def)
  have r: "first = 0 \<or> lo \<le> unat first \<and> need (cluster_size g) f \<noteq> 0 \<and> unat first + need (cluster_size g) f \<le> 2 + unat (g_clusters g) \<and>
      unat (g_sector_of_cluster g first) * 512 = place_of g (unat first)" if "(f, first) \<in> set (pl_placed p)" for f first
  proof (cases "need (cluster_size g) f = 0")
    case True
    then show ?thesis using pl that by (auto simp: placement_ok_def run_of_def)
  next
    case False
    have "run_of (cluster_size g) lo p (f, first)" using pl that by (simp add: placement_ok_def)
    then have a: "lo \<le> unat first" "unat first + need (cluster_size g) f \<le> 2 + unat (g_clusters g)"
      using False pl limit_exact [OF g] by (auto simp: run_of_def placement_ok_def)
    then show ?thesis using False sector_place(1) [OF g, of first] lo by simp
  qed
  let ?ps = "filter (\<lambda>(f, first). first \<noteq> 0) (pl_placed p)"
  have e: "file_patches g p = map (\<lambda>(f, first). (place_of g (unat first), f_contents f)) ?ps"
    unfolding file_patches_def IMAGE_SECTOR_BYTES_def using r by (intro map_cong refl) auto
  show "within (place_of g lo) (512 * unat tot) (file_patches g p)"
    unfolding within_def
  proof safe
    fix a bs assume "(a, bs) \<in> set (file_patches g p)"
    then obtain f first where f: "(f, first) \<in> set (pl_placed p)" "first \<noteq> 0" "a = place_of g (unat first)" "bs = f_contents f" unfolding e by auto
    have b: "lo \<le> unat first" "unat first + need (cluster_size g) f \<le> 2 + unat (g_clusters g)" using r [OF f(1)] f(2) by auto
    show "place_of g lo \<le> a" using place_of_mono [of lo 0 "unat first" g] lo b(1) f(3) by simp
    show "a + length bs \<le> 512 * unat tot"
      using place_of_end [OF g _ b(2)] b(1) lo run_length [OF cs, of f] f(3,4) by simp
  qed
  have "sorted_wrt (runs_apart (cluster_size g)) ?ps" using pl by (simp add: placement_ok_def sorted_wrt_filter)
  then show "sorted_wrt apart (file_patches g p)"
    unfolding e sorted_wrt_map
  proof (rule sorted_wrt_mono_rel [rotated])
    fix x y assume xy: "x \<in> set ?ps" "y \<in> set ?ps" "runs_apart (cluster_size g) x y"
    obtain f a h b where x: "x = (f, a)" "y = (h, b)" by fastforce
    have "need (cluster_size g) f \<noteq> 0" "need (cluster_size g) h \<noteq> 0" "lo \<le> unat a" using r [of f a] r [of h b] xy x by auto
    then have "place_of g (unat a) + need (cluster_size g) f * cluster_size g \<le> place_of g (unat b)"
      using xy(3) x lo by (intro place_of_mono) (auto simp: runs_apart_def)
    then show "apart (case x of (f, first) \<Rightarrow> (place_of g (unat first), f_contents f)) (case y of (f, first) \<Rightarrow> (place_of g (unat first), f_contents f))"
      using run_length [OF cs, of f] by (simp add: x apart_def)
  qed
  show "(place_of g (unat first), f_contents f) \<in> set (file_patches g p)" if "(f, first) \<in> set (pl_placed p)" "first \<noteq> 0" for f first
    unfolding e using that by force
qed

lemma directory_info:
  assumes F: "formatted tot spc lab files g p lo dirs" and i: "i < length dirs" and x: "tree_of files ! i = (path, held)"
  shows "\<exists>c heads slots. map_of (pl_directory_cluster p) path = Some c \<and> head_slots lab (pl_directory_cluster p) path c = Inr heads \<and>
    map (item_slot (went p) (pl_directory_cluster p)) held = map Inr slots \<and> dirs ! i = lay_slots (place_of g (unat c)) (heads @ slots) \<and>
    within (place_of g (unat c)) (place_of g (unat c) + cluster_size g) (dirs ! i) \<and> sorted_wrt apart (dirs ! i)"
proof -
  have g: "geometry_ok tot spc g" and pl: "placement_ok (2 + g_clusters g) (cluster_size g) lo p" and d: "directories_ok lo p"
    and t: "tree_ok files (tree_of files)" and m: "map (directory_patches g lab p) (tree_of files) = map Inr dirs"
    using F by (simp_all add: formatted_def)
  have len: "length dirs = length (tree_of files)" using m map_eq_imp_length_eq by fastforce
  then have mem: "(path, held) \<in> set (tree_of files)" using i x by (metis nth_mem)
  have "distinct (map fst (tree_of files))" using t unfolding tree_ok_def by (blast intro: ordered_distinct)
  then have "map_of (tree_of files) path = Some held" using mem by (simp add: map_of_is_SomeI)
  then have items: "\<forall>item \<in> set held. item_ok files item" using t by (auto simp: tree_ok_def items_ok_def)
  have full: "\<not> too_full (512 * unat spc div 32) (path, held)" using F mem unfolding formatted_def by blast
  have "map (directory_patches g lab p) (tree_of files) ! i = map Inr dirs ! i" using m by simp
  then have r: "directory_patches g lab p (path, held) = Inr (dirs ! i)" using i len x by simp
  have lo: "lo \<le> 2 + unat (g_clusters g)" using pl limit_exact [OF g] by (simp add: placement_ok_def)
  show ?thesis by (rule directory_patches_spec [OF g d lo items full r])
qed

lemma directories_apart:
  assumes F: "formatted tot spc lab files g p lo dirs"
  shows "sorted_wrt apart (concat dirs)" "within (place_of g 2) (place_of g lo) (concat dirs)"
proof -
  have d: "directories_ok lo p" and t: "tree_ok files (tree_of files)" and m: "map (directory_patches g lab p) (tree_of files) = map Inr dirs"
    using F by (simp_all add: formatted_def)
  have len: "length dirs = length (tree_of files)" using m map_eq_imp_length_eq by fastforce
  have dist: "distinct (map fst (tree_of files))" using t unfolding tree_ok_def by (blast intro: ordered_distinct)
  have info: "\<exists>c. map_of (pl_directory_cluster p) (fst (tree_of files ! i)) = Some c \<and> 2 \<le> unat c \<and> unat c < lo \<and>
      within (place_of g (unat c)) (place_of g (unat c) + cluster_size g) (dirs ! i) \<and> sorted_wrt apart (dirs ! i)" if "i < length dirs" for i
  proof -
    obtain path held where x: "tree_of files ! i = (path, held)" by fastforce
    show ?thesis using directory_info [OF F that x] d x unfolding directories_ok_def by auto
  qed
  show "within (place_of g 2) (place_of g lo) (concat dirs)"
    unfolding within_def
  proof safe
    fix a bs assume "(a, bs) \<in> set (concat dirs)"
    then obtain ws where "ws \<in> set dirs" "(a, bs) \<in> set ws" by auto
    then obtain i where i: "i < length dirs" "(a, bs) \<in> set (dirs ! i)" by (metis in_set_conv_nth)
    obtain c :: u32 where c: "2 \<le> unat c" "unat c < lo" "within (place_of g (unat c)) (place_of g (unat c) + cluster_size g) (dirs ! i)" using info [OF i(1)] by blast
    have b: "place_of g (unat c) \<le> a" "a + length bs \<le> place_of g (unat c) + cluster_size g" using c(3) i(2) by (auto simp: within_def)
    show "place_of g 2 \<le> a" using place_of_mono [of 2 0 "unat c" g] c(1) b(1) by simp
    show "a + length bs \<le> place_of g lo" using place_of_mono [of "unat c" 1 lo g] c(1,2) b(2) by simp
  qed
  show "sorted_wrt apart (concat dirs)"
  proof (rule apart_concat)
    show "sorted_wrt apart ws" if "ws \<in> set dirs" for ws using that info by (metis in_set_conv_nth)
    show "sorted_wrt (\<lambda>xs ys. \<forall>x\<in>set xs. \<forall>y\<in>set ys. apart x y) dirs"
      unfolding sorted_wrt_iff_nth_less
    proof (intro allI impI ballI)
      fix i j x y assume ij: "i < j" "j < length dirs" and xy: "x \<in> set (dirs ! i)" "y \<in> set (dirs ! j)"
      obtain c where c: "map_of (pl_directory_cluster p) (fst (tree_of files ! i)) = Some c" "2 \<le> unat c"
        "within (place_of g (unat c)) (place_of g (unat c) + cluster_size g) (dirs ! i)" using info [of i] ij by auto
      obtain e where e: "map_of (pl_directory_cluster p) (fst (tree_of files ! j)) = Some e" "2 \<le> unat e"
        "within (place_of g (unat e)) (place_of g (unat e) + cluster_size g) (dirs ! j)" using info [of j] ij by auto
      have "fst (tree_of files ! i) \<noteq> fst (tree_of files ! j)" using dist ij len by (simp add: distinct_conv_nth)
      then have "c \<noteq> e" using c(1) e(1) d unfolding directories_ok_def inj_on_def by (metis domIff option.distinct(1))
      then have "unat c < unat e \<or> unat e < unat c" by (metis linorder_neqE_nat word_unat_eq_iff)
      then have "place_of g (unat c) + cluster_size g \<le> place_of g (unat e) \<or> place_of g (unat e) + cluster_size g \<le> place_of g (unat c)"
        using place_of_mono [of "unat c" 1 "unat e" g] place_of_mono [of "unat e" 1 "unat c" g] c(2) e(2) by auto
      then show "apart x y" using within_apart [OF c(3) e(3)] xy by blast
    qed
  qed
qed

abbreviation all_patches :: "geometry \<Rightarrow> bytes \<Rightarrow> placement \<Rightarrow> patch list list \<Rightarrow> patch list" where
  "all_patches g lab p dirs \<equiv>
     start_patches g lab (pl_next_free p) @ table_patches g (pl_chains p) 0 @ table_patches g (pl_chains p) 1 @ concat dirs @ file_patches g p"

lemma chains_keys:
  assumes "formatted tot spc lab files g p lo dirs"
  shows "ordered (pl_chains p)" "\<forall>c \<in> fst ` set (pl_chains p). 2 \<le> unat c \<and> unat c < 2 + unat (g_clusters g)"
proof -
  have g: "geometry_ok tot spc g" and pl: "placement_ok (2 + g_clusters g) (cluster_size g) lo p" using assms by (simp_all add: formatted_def)
  show "ordered (pl_chains p)" using pl by (simp add: placement_ok_def)
  show "\<forall>c \<in> fst ` set (pl_chains p). 2 \<le> unat c \<and> unat c < 2 + unat (g_clusters g)"
    using pl limit_exact [OF g] unfolding placement_ok_def by fastforce
qed

lemma all_patches_spec:
  assumes F: "formatted tot spc lab files g p lo dirs"
  shows "sorted_wrt apart (all_patches g lab p dirs)" "within 0 (512 * unat tot) (all_patches g lab p dirs)"
proof -
  let ?s = "unat (g_sectors_per_fat g)"
  have g: "geometry_ok tot spc g" and lo: "2 < lo" "lo \<le> 2 + unat (g_clusters g)"
    using F limit_exact [of tot spc g] by (auto simp: formatted_def placement_ok_def)
  note T0 = table_patches_spec [OF g, of 0, OF _ chains_keys [OF F]] and T1 = table_patches_spec [OF g, of 1, OF _ chains_keys [OF F]]
  have t0: "within (512 * 32) (512 * (32 + ?s)) (table_patches g (pl_chains p) 0)" "sorted_wrt apart (table_patches g (pl_chains p) 0)" using T0 by simp_all
  have t1: "within (512 * (32 + ?s)) (512 * (32 + 2 * ?s)) (table_patches g (pl_chains p) 1)" "sorted_wrt apart (table_patches g (pl_chains p) 1)" using T1 by (simp_all add: algebra_simps)
  have two: "place_of g 2 = 512 * (32 + 2 * ?s)" by (simp add: place_of_def tables_end_def)
  have le: "place_of g lo \<le> 512 * unat tot" using place_of_end [OF g, of lo 0] lo by simp
  have le2: "place_of g 2 \<le> place_of g lo" using place_of_mono [of 2 0 lo g] lo by simp
  note D = directories_apart [OF F] and P = file_patches_spec(1,2) [OF F]
  have a1: "sorted_wrt apart (concat dirs @ file_patches g p)" "within (place_of g 2) (512 * unat tot) (concat dirs @ file_patches g p)"
    using apart_append [OF D(2) P(1) _ D(1) P(2)] within_mono [OF D(2) _ le] within_mono [OF P(1) le2] by simp_all
  have a2: "sorted_wrt apart (table_patches g (pl_chains p) 1 @ concat dirs @ file_patches g p)"
    "within (512 * (32 + ?s)) (512 * unat tot) (table_patches g (pl_chains p) 1 @ concat dirs @ file_patches g p)"
    using apart_append [OF t1(1) a1(2) _ t1(2) a1(1)] within_mono [OF t1(1)] within_mono [OF a1(2)] le le2 two by simp_all
  have a3: "sorted_wrt apart (table_patches g (pl_chains p) 0 @ table_patches g (pl_chains p) 1 @ concat dirs @ file_patches g p)"
    "within (512 * 32) (512 * unat tot) (table_patches g (pl_chains p) 0 @ table_patches g (pl_chains p) 1 @ concat dirs @ file_patches g p)"
    using apart_append [OF t0(1) a2(2) _ t0(2) a2(1)] within_mono [OF t0(1)] within_mono [OF a2(2)] le le2 two by simp_all
  note S = start_patches_spec [of g lab "pl_next_free p"]
  show "sorted_wrt apart (all_patches g lab p dirs)" using apart_append [OF S(1) a3(2) _ S(2) a3(1)] by simp
  have "4096 \<le> 512 * unat tot" using le le2 two by simp
  then show "within 0 (512 * unat tot) (all_patches g lab p dirs)" using within_mono [OF S(1)] within_mono [OF a3(2)] by simp
qed

end
