(* ===== verification/Mkfat_Read.thy ===== *)
theory Mkfat_Read
  imports Mkfat_Image
begin

text \<open>
  What the kernel reads of a disk the formatter wrote: the boot sector, the chains, the bytes of a file and the
  root directory, each through the operations of the FAT volume.
\<close>

section \<open>The image on a disk\<close>

definition byte_at :: "bytes \<Rightarrow> nat \<Rightarrow> u8" where
  "byte_at img k = (if k < length img then img ! k else 0)"

text \<open>The image at the start of a disk of zeros.\<close>

definition on_disk :: "bytes \<Rightarrow> image" where
  "on_disk img = (\<lambda>n. map (\<lambda>i. byte_at img (512 * unat n + i)) [0..<512])"

lemma on_disk_ok: "image_ok (on_disk img)"
  by (simp add: image_ok_def on_disk_def)

lemma nth_on_disk: "i < 512 \<Longrightarrow> on_disk img n ! i = byte_at img (512 * unat n + i)"
  by (simp add: on_disk_def)

lemma u32_at_le:
  assumes "\<And>i. i < 4 \<Longrightarrow> s ! (a + i) = u32_to_le w ! i"
  shows "u32_at s a = w"
  using u32_le_roundtrip [of w] assms [of 0] assms [of 1] assms [of 2] assms [of 3] by (simp add: u32_at_def u32_to_le_def)

lemma u16_at_le:
  assumes "\<And>i. i < 2 \<Longrightarrow> s ! (a + i) = u16_to_le w ! i"
  shows "u16_at s a = w"
  using u16_le_roundtrip [of w] assms [of 0] assms [of 1] by (simp add: u16_at_def u16_to_le_def)

text \<open>A formatted image, with what the formatter went through.\<close>

definition image_of :: "u32 \<Rightarrow> u8 \<Rightarrow> bytes \<Rightarrow> image_file list \<Rightarrow> geometry \<Rightarrow> placement \<Rightarrow> nat \<Rightarrow> patch list list \<Rightarrow> bytes \<Rightarrow> bool" where
  "image_of tot spc lab files g p lo dirs img \<longleftrightarrow> formatted tot spc lab files g p lo dirs \<and>
     put_all (all_patches g lab p dirs) (replicate (unat tot * 512) 0) = Inr img"

lemma read_patch:
  assumes "image_of tot spc lab files g p lo dirs img" "(a, bs) \<in> set (all_patches g lab p dirs)" "i < length bs"
  shows "byte_at img (a + i) = bs ! i"
proof -
  have "formatted tot spc lab files g p lo dirs" "put_all (all_patches g lab p dirs) (replicate (unat tot * 512) 0) = Inr img"
    using assms(1) by (simp_all add: image_of_def)
  then have "img ! (a + i) = bs ! i \<and> a + length bs \<le> length img"
    using put_all_nth all_patches_spec(1) assms(2,3) by blast
  then show ?thesis using assms(3) by (simp add: byte_at_def)
qed

section \<open>The boot sector\<close>

definition boot_parts :: "geometry \<Rightarrow> bytes \<Rightarrow> patch list" where
  "boot_parts g lab =
       [(0, [0xEB, 0x58, 0x90]), (3, [72, 65, 82, 76, 65, 78, 32, 32]), (11, u16_to_le (of_nat IMAGE_SECTOR_BYTES)),
        (13, [g_sectors_per_cluster g]), (14, u16_to_le (ucast (g_reserved_sectors g))), (16, [ucast (g_fat_count g)]),
        (17, u16_to_le 0), (19, u16_to_le 0), (21, [MEDIA_DESCRIPTOR]), (22, u16_to_le 0), (24, u16_to_le 32),
        (26, u16_to_le 2), (28, u32_to_le 0), (32, u32_to_le (g_total_sectors g)), (36, u32_to_le (g_sectors_per_fat g)),
        (40, u16_to_le 0), (42, u16_to_le 0), (44, u32_to_le (g_root_cluster g)), (48, u16_to_le 1),
        (50, u16_to_le (ucast BACKUP_BOOT_SECTOR)), (64, [0x80]), (66, [0x29]), (67, u32_to_le 0x4841524C),
        (71, padded_label lab), (82, [70, 65, 84, 51, 50, 32, 32, 32]), (510, [0x55]), (511, [0xAA])]"

lemma boot_byte:
  assumes "(a, bs) \<in> set (boot_parts g lab)" "i < length bs"
  shows "mk_boot_sector g lab ! (a + i) = bs ! i"
proof -
  have "within 0 512 (boot_parts g lab)" "sorted_wrt apart (boot_parts g lab)" by (simp_all add: boot_parts_def apart_def)
  then show ?thesis using filled_in_nth [OF _ _ assms] by (simp add: mk_boot_sector_def boot_parts_def)
qed

lemma boot_u16: "(a, u16_to_le w) \<in> set (boot_parts g lab) \<Longrightarrow> u16_at (mk_boot_sector g lab) a = w"
  using boot_byte by (intro u16_at_le) auto

lemma boot_u32: "(a, u32_to_le w) \<in> set (boot_parts g lab) \<Longrightarrow> u32_at (mk_boot_sector g lab) a = w"
  using boot_byte by (intro u32_at_le) auto

lemma boot_u8: "(a, [w]) \<in> set (boot_parts g lab) \<Longrightarrow> mk_boot_sector g lab ! a = w"
  using boot_byte [of a "[w]" g lab 0] by simp

definition boot_of :: "geometry \<Rightarrow> bytes \<Rightarrow> boot_sector" where
  "boot_of g lab =
     \<lparr>bytes_per_sector = 512, sectors_per_cluster = g_sectors_per_cluster g, reserved_sectors = 32, fat_count = 2,
      total_sectors = g_total_sectors g, sectors_per_fat = g_sectors_per_fat g, root_cluster = 2, fs_info_sector = 1,
      backup_boot_sector = 6, clusters = g_clusters g, volume_id_of = Some \<lparr>vid_serial = 0x4841524C, vid_label = padded_label lab\<rparr>\<rparr>"

lemma boot_of_simps [simp]:
  "sectors_per_cluster (boot_of g lab) = g_sectors_per_cluster g" "total_sectors (boot_of g lab) = g_total_sectors g"
  "root_cluster (boot_of g lab) = 2" "clusters (boot_of g lab) = g_clusters g"
  "data_start (boot_of g lab) = 32 + 2 * unat (g_sectors_per_fat g)"
  by (simp_all add: boot_of_def data_start_def)

lemma boot_fields:
  assumes "geometry_ok tot spc g"
  shows "u16_at (mk_boot_sector g lab) 510 = 0xAA55" "u16_at (mk_boot_sector g lab) 11 = 512" "mk_boot_sector g lab ! 13 = spc"
    "u16_at (mk_boot_sector g lab) 14 = 32" "mk_boot_sector g lab ! 16 = 2" "u16_at (mk_boot_sector g lab) 22 = 0"
    "u32_at (mk_boot_sector g lab) 36 = g_sectors_per_fat g" "u32_at (mk_boot_sector g lab) 44 = 2" "u32_at (mk_boot_sector g lab) 32 = tot"
    "u16_at (mk_boot_sector g lab) 48 = 1" "u16_at (mk_boot_sector g lab) 50 = 6"
    "parse_volume_id (mk_boot_sector g lab) = Some \<lparr>vid_serial = 0x4841524C, vid_label = padded_label lab\<rparr>"
proof -
  have g: "g_sectors_per_cluster g = spc" "g_reserved_sectors g = 32" "g_fat_count g = 2" "g_total_sectors g = tot" "g_root_cluster g = 2"
    using assms by (simp_all add: geometry_ok_def)
  note S = boot_parts_def g IMAGE_SECTOR_BYTES_def BACKUP_BOOT_SECTOR_def
  have "mk_boot_sector g lab ! 510 = 0x55" "mk_boot_sector g lab ! 511 = 0xAA" by (rule boot_u8; simp add: S)+
  then show "u16_at (mk_boot_sector g lab) 510 = 0xAA55" by (simp add: u16_at_def u16_from_le_def)
  show "u16_at (mk_boot_sector g lab) 11 = 512" "u16_at (mk_boot_sector g lab) 14 = 32" "u16_at (mk_boot_sector g lab) 22 = 0"
    "u16_at (mk_boot_sector g lab) 48 = 1" "u16_at (mk_boot_sector g lab) 50 = 6" by (rule boot_u16; simp add: S)+
  show "mk_boot_sector g lab ! 13 = spc" "mk_boot_sector g lab ! 16 = 2" by (rule boot_u8; simp add: S)+
  show "u32_at (mk_boot_sector g lab) 36 = g_sectors_per_fat g" "u32_at (mk_boot_sector g lab) 44 = 2" "u32_at (mk_boot_sector g lab) 32 = tot"
    by (rule boot_u32; simp add: S)+
  have v: "mk_boot_sector g lab ! 66 = 0x29" "u32_at (mk_boot_sector g lab) 67 = 0x4841524C" by (rule boot_u8 boot_u32; simp add: S)+
  have "take 11 (drop 71 (mk_boot_sector g lab)) = padded_label lab"
    using boot_byte [of 71 "padded_label lab" g lab] by (intro nth_equalityI) (simp_all add: boot_parts_def)
  then show "parse_volume_id (mk_boot_sector g lab) = Some \<lparr>vid_serial = 0x4841524C, vid_label = padded_label lab\<rparr>"
    using v by (simp add: parse_volume_id_def)
qed

lemma boot_parses:
  assumes g: "geometry_ok tot spc g" and c: "65525 \<le> unat (g_clusters g)" and pow: "is_power_of_two spc"
  shows "parse_boot (mk_boot_sector g lab) = Inr (boot_of g lab)"
proof -
  let ?f = "g_sectors_per_fat g"
  let ?before = "(ucast (32 :: u16) :: u64) + ucast (2 :: u8) * ucast ?f"
  note B = before_data_exact [of "32 :: u16" "2 :: u8" ?f]
  have before: "unat ?before = 32 + 2 * unat ?f" using B(1) by simp
  have spc: "spc \<noteq> 0" "0 < unat spc" using g by (auto simp: geometry_ok_def)
  have t: "32 + 2 * unat ?f < unat tot"
  proof (rule ccontr)
    assume "\<not> 32 + 2 * unat ?f < unat tot"
    then have "unat (g_clusters g) = 0" using g by (simp add: geometry_ok_def)
    then show False using c by simp
  qed
  have cls: "ucast (((ucast tot :: u64) - ?before) div ucast spc) = g_clusters g"
    using clusters_exact [of ?before tot spc] before t spc(2) g by (simp add: word_unat_eq_iff geometry_ok_def)
  have e: "unat ((ucast ?f :: u64) * ucast (512 :: u16) div 4) = 128 * unat ?f"
    using unat_u32_bound [of ?f] by (simp add: unat_div unat_mult_exact unat_ucast_up)
  have "unat ((ucast (g_clusters g) :: u64) + ucast FIRST_DATA_CLUSTER) = unat (g_clusters g) + 2"
    using unat_u32_bound [of "g_clusters g"] by (simp add: unat_add_exact unat_ucast_up FIRST_DATA_CLUSTER_def)
  then have fat: "\<not> (ucast ?f :: u64) * ucast (512 :: u16) div 4 < ucast (g_clusters g) + ucast FIRST_DATA_CLUSTER"
    using e g by (simp add: word_less_nat_alt geometry_ok_def)
  have f0: "?f \<noteq> 0" "\<not> ?before \<ge> ucast tot" "\<not> g_clusters g < FAT32_MINIMUM_CLUSTERS"
    using g t before c by (auto simp: geometry_ok_def word_le_nat_alt word_less_nat_alt unat_ucast_up FAT32_MINIMUM_CLUSTERS_def)
  have gg: "g_sectors_per_cluster g = spc" "g_total_sectors g = tot" using g by (simp_all add: geometry_ok_def)
  show ?thesis
    unfolding parse_boot_def Let_def boot_fields [OF g] cls SECTOR_BYTES_def
    using spc(1) pow f0 fat by (simp add: boot_of_def gg FIRST_DATA_CLUSTER_def)
qed

lemma disk_boot:
  assumes "image_of tot spc lab files g p lo dirs img"
  shows "on_disk img 0 = mk_boot_sector g lab"
proof (rule nth_equalityI)
  have b: "(0, mk_boot_sector g lab) \<in> set (all_patches g lab p dirs)" by (simp add: start_patches_def Let_def)
  show "on_disk img 0 ! i = mk_boot_sector g lab ! i" if "i < length (on_disk img 0)" for i
    using read_patch [OF assms b, of i] that by (simp add: nth_on_disk) (simp add: on_disk_def)
qed (simp add: on_disk_def)

section \<open>The chains\<close>

lemma image_of_parts:
  assumes "image_of tot spc lab files g p lo dirs img"
  shows "formatted tot spc lab files g p lo dirs" "geometry_ok tot spc g" "65525 \<le> unat (g_clusters g)"
    "placement_ok (2 + g_clusters g) (cluster_size g) lo p" "directories_ok lo p" "2 < lo"
  using assms by (simp_all add: image_of_def formatted_def)

lemma boot_of_ok:
  assumes "image_of tot spc lab files g p lo dirs img" "is_power_of_two spc"
  shows "boot_ok (boot_of g lab)"
  using boot_parses [OF image_of_parts(2,3) [OF assms(1)] assms(2), of lab] by (rule parse_boot_ok)

lemma valid_boot_of: "valid_cluster (boot_of g lab) c \<longleftrightarrow> 2 \<le> unat c \<and> unat c < 2 + unat (g_clusters g)"
  by (simp add: valid_cluster_def boot_of_def)

lemma table_entry:
  assumes im: "image_of tot spc lab files g p lo dirs img" and pow: "is_power_of_two spc" and c: "map_of (pl_chains p) c = Some nxt"
  shows "entry_at (boot_of g lab) (on_disk img) c = decode_entry nxt"
proof -
  let ?b = "boot_of g lab" and ?a = "16384 + unat c * 4"
  note F = image_of_parts [OF im]
  have mem: "(c, nxt) \<in> set (pl_chains p)" using c by (rule map_of_SomeD)
  have v: "valid_cluster ?b c" unfolding valid_boot_of using chains_keys(2) [OF F(1)] mem by force
  have s: "unat (fat_sector ?b 0 c) = 32 + unat c div 128"
    using fat_sector_exact(1) [OF boot_of_ok [OF im pow] v, of 0] by (simp add: boot_of_def)
  have "(?a, u32_to_le nxt) \<in> set (table_patches g (pl_chains p) 0)"
    using mem by (force simp: table_patches_def Let_def RESERVED_SECTORS_def IMAGE_SECTOR_BYTES_def)
  then have patch: "(?a, u32_to_le nxt) \<in> set (all_patches g lab p dirs)" by simp
  have pos: "512 * (32 + unat c div 128) + (unat c mod 128 * 4 + i) = ?a + i" for i
  proof -
    define q r where "q = unat c div 128" and "r = unat c mod 128"
    have "512 * (32 + q) + (r * 4 + i) = 16384 + (128 * q + r) * 4 + i" by simp
    then show ?thesis unfolding q_def r_def by simp
  qed
  have m: "unat (c mod 128) = unat c mod 128" by (simp add: unat_mod)
  have "u32_at (on_disk img (fat_sector ?b 0 c)) (unat (c mod 128) * 4) = nxt"
  proof (rule u32_at_le)
    fix i :: nat assume i: "i < 4"
    have "unat c mod 128 * 4 + i < 512" using i mod_less_divisor [of 128 "unat c"] by simp
    note N = nth_on_disk [OF this, of img "fat_sector ?b 0 c", unfolded s pos]
    show "on_disk img (fat_sector ?b 0 c) ! (unat (c mod 128) * 4 + i) = u32_to_le nxt ! i"
      using read_patch [OF im patch, of i] i unfolding m N by simp
  qed
  then show ?thesis by (simp add: entry_at_def)
qed

section \<open>The bytes of a file\<close>

definition piece :: "bytes \<Rightarrow> nat \<Rightarrow> nat \<Rightarrow> bytes" where
  "piece img a n = map (\<lambda>i. byte_at img (a + i)) [0..<n]"

lemma piece_add: "piece img a (m + n) = piece img a m @ piece img (a + m) n"
proof -
  have "[0..<m + n] = [0..<m] @ map (\<lambda>i. m + i) [0..<n]" by (simp add: upt_add_eq_append [of 0 m] map_add_upt add.commute)
  then show ?thesis by (simp add: piece_def add.assoc)
qed

lemma piece_concat: "concat (map (\<lambda>k. piece img (a + k * n) n) [0..<m]) = piece img a (m * n)"
proof (induction m)
  case (Suc m)
  then show ?case using piece_add [of img a "m * n" n] by (simp add: add.commute)
qed (simp add: piece_def)

lemma on_disk_piece: "on_disk img n = piece img (512 * unat n) 512"
  by (simp add: on_disk_def piece_def)

lemma boot_sector_place:
  assumes "image_of tot spc lab files g p lo dirs img" "is_power_of_two spc" "valid_cluster (boot_of g lab) c"
  obtains s where "sector_of_cluster (boot_of g lab) c = Some s" "512 * unat s = place_of g (unat c)" "unat s + unat spc \<le> unat tot"
proof -
  have spc: "g_sectors_per_cluster g = spc" "g_total_sectors g = tot" using image_of_parts(2) [OF assms(1)] by (simp_all add: geometry_ok_def)
  obtain s where s: "sector_of_cluster (boot_of g lab) c = Some s"
    "unat s = data_start (boot_of g lab) + (unat c - 2) * unat (sectors_per_cluster (boot_of g lab))"
    "unat s + unat (sectors_per_cluster (boot_of g lab)) \<le> unat (total_sectors (boot_of g lab))"
    using sector_of_cluster_Some [OF boot_of_ok [OF assms(1,2)] assms(3)] .
  have "512 * unat s = place_of g (unat c)"
    unfolding s(2) by (simp add: place_of_def tables_end_def cluster_size_def algebra_simps)
  then show ?thesis using that s(1,3) spc by simp
qed

lemma cluster_piece:
  assumes "image_of tot spc lab files g p lo dirs img" "is_power_of_two spc" "valid_cluster (boot_of g lab) c"
  shows "cluster_data (boot_of g lab) (on_disk img) c = piece img (place_of g (unat c)) (cluster_size g)"
proof -
  obtain s where s: "sector_of_cluster (boot_of g lab) c = Some s" "512 * unat s = place_of g (unat c)" "unat s + unat spc \<le> unat tot"
    using boot_sector_place [OF assms] .
  have spc: "g_sectors_per_cluster g = spc" using image_of_parts(2) [OF assms(1)] by (simp add: geometry_ok_def)
  have k: "unat (s + of_nat k) = unat s + k" if "k < unat spc" for k
    using that s(3) unat_u32_bound [of tot] by (simp add: unat_add_exact unat_of_nat_exact)
  have "map (\<lambda>k. on_disk img (the (sector_of_cluster (boot_of g lab) c) + k)) (cluster_offsets (boot_of g lab)) =
      map (\<lambda>k. piece img (512 * unat s + k * 512) 512) [0..<unat spc]"
    by (auto simp: cluster_offsets_def spc s(1) on_disk_piece k distrib_left mult.commute)
  then show ?thesis using piece_concat [of img "512 * unat s" 512 "unat spc"] s(2)
    by (simp add: cluster_data_def cluster_size_def spc mult.commute)
qed

lemma clusters_small:
  assumes "geometry_ok tot spc g"
  shows "2 + unat (g_clusters g) \<le> 2 ^ 26"
proof -
  let ?d = "unat tot - (32 + 2 * unat (g_sectors_per_fat g))"
  have e: "unat (g_clusters g) = ?d div unat spc" "unat tot < 2 ^ 26" "1 \<le> unat (g_sectors_per_fat g)" "32 + 2 * unat (g_sectors_per_fat g) \<le> unat tot"
    using assms by (simp_all add: geometry_ok_def)
  have "unat (g_clusters g) \<le> ?d" unfolding e(1) by (rule div_le_dividend)
  then show ?thesis using e(2-4) by linarith
qed

lemma follow_run:
  assumes im: "image_of tot spc lab files g p lo dirs img" and pow: "is_power_of_two spc" and f: "(f, first) \<in> set (pl_placed p)"
    and n: "need (cluster_size g) f = n" "n \<noteq> 0" and m: "m \<le> n"
  shows "follow (boot_of g lab) (on_disk img) (first + of_nat (n - m)) m = Some (map (\<lambda>k. first + of_nat k) [n - m..<n])"
  using m
proof (induction m)
  case (Suc m)
  note F = image_of_parts [OF im]
  have r: "lo \<le> unat first" "unat first + n \<le> unat (pl_next_free p)"
    "\<And>i. i < n \<Longrightarrow> map_of (pl_chains p) (first + of_nat i) = Some (snd (chain_link first n i))"
    using F(4) f n by (auto simp: placement_ok_def run_of_def)
  have lim: "unat first + n \<le> 2 + unat (g_clusters g)" using r(2) F(4) limit_exact [OF F(2)] by (simp add: placement_ok_def)
  note small = clusters_small [OF F(2)]
  define j where "j = n - Suc m"
  have j: "j < n" "n - m = Suc j" using Suc.prems by (auto simp: j_def)
  have u: "unat (first + of_nat i) = unat first + i" if "i \<le> n" for i using that lim small by (intro unat_run [where n = n]) auto
  have v: "valid_cluster (boot_of g lab) (first + of_nat j)" unfolding valid_boot_of using u [of j] j(1) r(1) F(6) lim by simp
  have next_e: "entry_at (boot_of g lab) (on_disk img) (first + of_nat j) = Next (first + of_nat (Suc j))" if "m \<noteq> 0"
  proof -
    have "j + 1 \<noteq> n" using that j(2) Suc.prems by auto
    then have "entry_at (boot_of g lab) (on_disk img) (first + of_nat j) = decode_entry (first + of_nat (Suc j))"
      using table_entry [OF im pow r(3) [OF j(1)]] by (simp add: chain_link_def ac_simps)
    moreover have "decode_entry (first + of_nat (Suc j)) = Next (first + of_nat (Suc j))"
      using u [of "Suc j"] j(1) \<open>j + 1 \<noteq> n\<close> r(1) F(6) lim small by (intro decode_entry_Next) simp_all
    ultimately show ?thesis by simp
  qed
  have up: "[j..<n] = j # [Suc j..<n]" using j(1) by (simp add: upt_conv_Cons)
  show ?case
  proof (cases "m = 0")
    case True
    then have "n = Suc j" using j Suc.prems by simp
    then show ?thesis using v True by (simp add: j_def [symmetric])
  next
    case False
    then show ?thesis using Suc.IH Suc.prems next_e [OF False] v j(2) by (simp add: j_def [symmetric] up del: of_nat_Suc)
  qed
qed simp

lemma clusters_for_need: "g_sectors_per_cluster g = spc \<Longrightarrow> clusters_for (boot_of g lab) (length (f_contents f)) = need (cluster_size g) f"
  by (simp add: clusters_for_def need_def cluster_size_def)

lemma run_contents:
  assumes im: "image_of tot spc lab files g p lo dirs img" and pow: "is_power_of_two spc" and f: "(f, first) \<in> set (pl_placed p)"
    and small: "length (f_contents f) < 2 ^ 32"
    and e: "de_first_cluster e = first" "de_size e = of_nat (length (f_contents f))"
  shows "file_contents (boot_of g lab) (on_disk img) e = Some (f_contents f)"
proof -
  let ?b = "boot_of g lab" and ?n = "need (cluster_size g) f" and ?l = "length (f_contents f)"
  note F = image_of_parts [OF im]
  have spc: "g_sectors_per_cluster g = spc" "0 < cluster_size g" using F(2) by (simp_all add: geometry_ok_def cluster_size_def)
  have size: "unat (de_size e) = ?l" using small by (simp add: e(2) unat_of_nat_exact)
  have fc: "file_contents ?b (on_disk img) e =
      map_option (\<lambda>cs. take ?l (concat (map (cluster_data ?b (on_disk img)) cs))) (follow ?b (on_disk img) first ?n)"
    using clusters_for_need [OF spc(1), of lab f] by (simp add: file_contents_def size e(1))
  show ?thesis
  proof (cases "?n = 0")
    case True
    then have "f_contents f = []" using run_length [OF spc(2), of f] by simp
    then show ?thesis using True by (simp add: fc)
  next
    case False
    have fo: "follow ?b (on_disk img) first ?n = Some (map (\<lambda>k. first + of_nat k) [0..<?n])"
      using follow_run [OF im pow f refl False, of ?n] by simp
    have r: "lo \<le> unat first" "unat first + ?n \<le> unat (pl_next_free p)" using F(4) f False by (auto simp: placement_ok_def run_of_def)
    have lim: "unat first + ?n \<le> 2 + unat (g_clusters g)" using r(2) F(4) limit_exact [OF F(2)] by (simp add: placement_ok_def)
    have u: "unat (first + of_nat k) = unat first + k" if "k \<le> ?n" for k using that lim clusters_small [OF F(2)] by (intro unat_run [where n = ?n]) auto
    have cd: "cluster_data ?b (on_disk img) (first + of_nat k) = piece img (place_of g (unat first) + k * cluster_size g) (cluster_size g)" if "k < ?n" for k
    proof -
      have v: "valid_cluster ?b (first + of_nat k)" unfolding valid_boot_of using u [of k] that r(1) F(6) lim by simp
      have "place_of g (unat first + k) = place_of g (unat first) + k * cluster_size g"
        using r(1) F(6) by (simp add: place_of_def add_mult_distrib [symmetric])
      then show ?thesis using cluster_piece [OF im pow v] u [of k] that by simp
    qed
    have "map (cluster_data ?b (on_disk img)) (map (\<lambda>k. first + of_nat k) [0..<?n]) =
        map (\<lambda>k. piece img (place_of g (unat first) + k * cluster_size g) (cluster_size g)) [0..<?n]" using cd by simp
    then have all: "concat (map (cluster_data ?b (on_disk img)) (map (\<lambda>k. first + of_nat k) [0..<?n])) = piece img (place_of g (unat first)) (?n * cluster_size g)"
      by (simp only: piece_concat)
    have "first \<noteq> 0" using r(1) F(6) by auto
    then have mem: "(place_of g (unat first), f_contents f) \<in> set (all_patches g lab p dirs)" using file_patches_spec(3) [OF F(1) f] by simp
    have "take ?l (piece img (place_of g (unat first)) (?n * cluster_size g)) = f_contents f"
      using run_length [OF spc(2), of f] read_patch [OF im mem] by (intro nth_equalityI) (simp_all add: piece_def)
    then show ?thesis by (simp only: fc fo all option.map)
  qed
qed

section \<open>The root directory\<close>

lemma root_slots_append:
  "root_slots each (xs @ ys) acc = (case root_slots each xs acc of (go_on, acc') \<Rightarrow> if go_on then root_slots each ys acc' else (False, acc'))"
  by (induction xs arbitrary: acc) (auto split: slot.splits prod.splits)

lemma root_sectors_image:
  "root_sectors (image_sectors :: (image, 'e) sectors) each first offs acc i =
     (Inr (root_slots each (concat (map (\<lambda>k. as_chunks 32 (i (first + k))) offs)) acc), i)"
  by (induction offs arbitrary: acc)
     (auto simp: io_bind_def vread_def io_map_err_def image_sectors_def map_err_def io_ret_def root_slots_append DIRECTORY_ENTRY_BYTES_def split: prod.splits)

lemma root_slots_find:
  assumes "k < length slots" "decode_slot (slots ! k) = SlotEntry e" "is_named e name"
    "\<And>j. j < k \<Longrightarrow> decode_slot (slots ! j) = Skip \<or> (\<exists>e'. decode_slot (slots ! j) = SlotEntry e' \<and> \<not> is_named e' name)"
  shows "root_slots (\<lambda>found e. if is_named e name then (False, Some e) else (True, found)) slots None = (False, Some e)"
  using assms
proof (induction slots arbitrary: k)
  case (Cons s slots)
  show ?case
  proof (cases k)
    case 0
    then show ?thesis using Cons.prems by simp
  next
    case (Suc k')
    have "root_slots (\<lambda>found e. if is_named e name then (False, Some e) else (True, found)) slots None = (False, Some e)"
      using Cons.IH [of k'] Cons.prems Suc by force
    then show ?thesis using Cons.prems(4) [of 0] Suc by auto
  qed
qed simp

lemma concat_upt: "concat (map (\<lambda>k. map (\<lambda>j. h (k * n + j)) [0..<n]) [0..<m]) = map h [0..<m * n]"
proof (induction m)
  case (Suc m)
  have "map (\<lambda>j. m * n + j) [0..<n] = [m * n..<m * n + n]" using map_add_upt [of "m * n" n] by (simp add: add.commute)
  then have "[0..<m * n + n] = [0..<m * n] @ map (\<lambda>j. m * n + j) [0..<n]" using upt_add_eq_append [of 0 "m * n" n] by simp
  then show ?case using Suc by (simp add: add.commute [of n])
qed simp

lemma as_chunks_piece: "as_chunks 32 (piece img a 512) = map (\<lambda>j. piece img (a + 32 * j) 32) [0..<16]"
proof (rule nth_equalityI)
  show "as_chunks 32 (piece img a 512) ! j = map (\<lambda>j. piece img (a + 32 * j) 32) [0..<16] ! j" if "j < length (as_chunks 32 (piece img a 512))" for j
  proof -
    have "j < 16" using that by (simp add: piece_def)
    then have "512 = 32 * j + (32 + (480 - 32 * j))" by simp
    then have "piece img a 512 = piece img a (32 * j) @ piece img (a + 32 * j) 32 @ piece img (a + 32 * j + 32) (480 - 32 * j)"
      using piece_add by metis
    then show ?thesis using \<open>j < 16\<close> by (simp add: nth_as_chunks piece_def)
  qed
qed (simp add: piece_def)

lemma root_cluster_slots:
  assumes im: "image_of tot spc lab files g p lo dirs img" and pow: "is_power_of_two spc"
  obtains s where "sector_of_cluster (boot_of g lab) 2 = Some s"
    "concat (map (\<lambda>k. as_chunks 32 (on_disk img (s + k))) (cluster_offsets (boot_of g lab))) =
       map (\<lambda>j. piece img (place_of g 2 + 32 * j) 32) [0..<unat spc * 16]"
proof -
  have v: "valid_cluster (boot_of g lab) 2" unfolding valid_boot_of using image_of_parts(3) [OF im] by simp
  obtain s where s: "sector_of_cluster (boot_of g lab) 2 = Some s" "512 * unat s = place_of g (unat (2 :: u32))" "unat s + unat spc \<le> unat tot"
    using boot_sector_place [OF im pow v] .
  have spc: "g_sectors_per_cluster g = spc" using image_of_parts(2) [OF im] by (simp add: geometry_ok_def)
  have k: "512 * unat (s + of_nat k) = place_of g 2 + 32 * (k * 16)" if "k < unat spc" for k
  proof -
    have "unat (s + of_nat k) = unat s + k" using that s(3) unat_u32_bound [of tot] by (simp add: unat_add_exact unat_of_nat_exact)
    then show ?thesis using s(2) by simp
  qed
  have "concat (map (\<lambda>k. as_chunks 32 (on_disk img (s + k))) (cluster_offsets (boot_of g lab))) =
      concat (map (\<lambda>k. map (\<lambda>j. piece img (place_of g 2 + 32 * (k * 16 + j)) 32) [0..<16]) [0..<unat spc])"
    by (auto intro!: arg_cong [where f = concat] simp: cluster_offsets_def spc on_disk_piece as_chunks_piece k distrib_left add.assoc)
  also have "\<dots> = map (\<lambda>j. piece img (place_of g 2 + 32 * j) 32) [0..<unat spc * 16]"
    using concat_upt [of "\<lambda>j. piece img (place_of g 2 + 32 * j) 32" 16 "unat spc"] .
  finally show ?thesis using that s(1) by blast
qed

section \<open>Entries\<close>

abbreviation entry_parts :: "bytes \<Rightarrow> u8 \<Rightarrow> u32 \<Rightarrow> u32 \<Rightarrow> patch list" where
  "entry_parts nm attr c n \<equiv> [(0, nm), (11, [attr]), (20, u16_to_le (ucast (drop_bit 16 c))), (26, u16_to_le (ucast c)), (28, u32_to_le n)]"

lemma uppercase_eight_three: "is_eight_three name \<Longrightarrow> map to_ascii_uppercase name = name"
proof -
  assume a: "is_eight_three name"
  have "\<forall>b \<in> set name. 0x41 \<le> b \<and> b \<le> 0x5A \<or> 0x30 \<le> b \<and> b \<le> 0x39 \<or> b = 46" using a by (auto simp: is_eight_three_def split: prod.splits)
  then have "to_ascii_uppercase b = b" if "b \<in> set name" for b
    using that by (auto simp: to_ascii_uppercase_def word_le_nat_alt)
  then show ?thesis by (simp add: map_idI)
qed

lemma ascii_eight_three: "is_eight_three name \<Longrightarrow> \<forall>b \<in> set name. b \<le> 0x7F"
proof -
  assume a: "is_eight_three name"
  have "\<forall>b \<in> set name. 0x41 \<le> b \<and> b \<le> 0x5A \<or> 0x30 \<le> b \<and> b \<le> 0x39 \<or> b = 46" using a by (auto simp: is_eight_three_def split: prod.splits)
  then show ?thesis by (auto simp: word_le_nat_alt)
qed

definition no_final_dot :: "bytes \<Rightarrow> bool" where
  "no_final_dot name \<longleftrightarrow> snd (split_name name) \<noteq> [] \<or> 46 \<notin> set name"

lemma entry_decodes:
  assumes nm: "is_eight_three name" "no_final_dot name" and attr: "attr = ATTR_ARCHIVE \<or> attr = ATTR_DIRECTORY"
  shows "decode_slot (filled_in 32 (entry_parts (padded_name name) attr c n)) =
    SlotEntry \<lparr>de_name = name, de_attributes = attr, de_first_cluster = c, de_size = n\<rparr>"
proof -
  let ?ps = "entry_parts (padded_name name) attr c n" and ?b = "filled_in 32 (entry_parts (padded_name name) attr c n)"
  note enc = padded_encodes [OF nm(1)]
  have w: "within 0 32 ?ps" "sorted_wrt apart ?ps" using enc(2) by (simp_all add: apart_def)
  have len: "length ?b = 32" using w(1) by (intro length_filled_in) (simp add: enc(2))
  note B = filled_in_nth [OF w]
  have t: "take 11 ?b = padded_name name" using B [of 0 "padded_name name"] enc(2) len by (intro nth_equalityI) simp_all
  have b11: "?b ! 11 = attr" using B [of 11 "[attr]" 0] by simp
  have b20: "u16_from_le (?b ! 20) (?b ! 21) = ucast (drop_bit 16 c)"
    using B [of 20 "u16_to_le (ucast (drop_bit 16 c))" 0] B [of 20 "u16_to_le (ucast (drop_bit 16 c))" 1]
      u16_le_roundtrip [of "ucast (drop_bit 16 c)"] by (simp add: u16_to_le_def)
  have b26: "u16_from_le (?b ! 26) (?b ! 27) = ucast c"
    using B [of 26 "u16_to_le (ucast c)" 0] B [of 26 "u16_to_le (ucast c)" 1] u16_le_roundtrip [of "ucast c"] by (simp add: u16_to_le_def)
  have b28: "u32_from_le (?b ! 28) (?b ! 29) (?b ! 30) (?b ! 31) = n"
    using B [of 28 "u32_to_le n" 0] B [of 28 "u32_to_le n" 1] B [of 28 "u32_to_le n" 2] B [of 28 "u32_to_le n" 3]
      u32_le_roundtrip [of n] by (simp add: u32_to_le_def)
  have full: "?b = padded_name name @ drop 11 ?b" using t by (metis append_take_drop_id)
  note dec = decode_encoded_name [OF enc(1)]
  have "(if snd (split_name name) = [] then fst (split_name name) else name) = name"
    using nm(2) by (auto simp: no_final_dot_def split_name_def)
  then have name: "decode_slot_name ?b = name"
    using dec(4) [of "drop 11 ?b"] full uppercase_eight_three [OF nm(1)] by simp
  have "?b ! 0 = padded_name name ! 0" using t by (metis nth_take zero_less_numeral)
  then have "?b ! 0 \<noteq> ENTRY_NEVER_USED" "?b ! 0 \<noteq> ENTRY_DELETED" using dec(2,3) by (auto simp: ENTRY_NEVER_USED_def ENTRY_DELETED_def)
  then show ?thesis using attr
    by (auto simp: decode_slot_def Let_def b11 b20 b26 b28 name cluster_halves ATTR_ARCHIVE_def ATTR_DIRECTORY_def ATTR_LONG_NAME_def ATTR_VOLUME_LABEL_def)
qed

lemma named_iff:
  assumes "is_eight_three a" "is_eight_three b"
  shows "is_named \<lparr>de_name = a, de_attributes = attr, de_first_cluster = c, de_size = n\<rparr> b \<longleftrightarrow> a = b"
proof -
  have e: "entry_name \<lparr>de_name = a, de_attributes = attr, de_first_cluster = c, de_size = n\<rparr> = a"
    using utf8_valid_ascii [OF ascii_eight_three [OF assms(1)]] by (simp add: entry_name_def str_or_empty_def)
  have "a = b" if "length a = length b" "\<forall>(x, y) \<in> set (zip a b). eq_ignore_ascii_case x y"
  proof -
    have "map to_ascii_uppercase a = map to_ascii_uppercase b"
      using that by (intro nth_equalityI) (auto simp: set_zip eq_ignore_ascii_case_def)
    then show ?thesis using uppercase_eight_three assms by metis
  qed
  then show ?thesis unfolding is_named_def e by (auto simp: set_zip eq_ignore_ascii_case_def)
qed

section \<open>What stands in the root directory\<close>

lemma lay_slots_mem: "k < length slots \<Longrightarrow> (off, bs) \<in> set (slots ! k) \<Longrightarrow> (at + 32 * k + off, bs) \<in> set (lay_slots at slots)"
proof (induction at slots arbitrary: k rule: lay_slots.induct)
  case (2 at s slots)
  show ?case
  proof (cases k)
    case 0
    then show ?thesis using "2.prems" by force
  next
    case (Suc k')
    then show ?thesis using "2.IH" [of k'] "2.prems" by (simp add: DIRECTORY_ENTRY_BYTES_def algebra_simps)
  qed
qed simp

lemma root_patches:
  assumes im: "image_of tot spc lab files g p lo dirs img" and h: "map_of (tree_of files) [] = Some held"
  obtains slots where "map (item_slot (went p) (pl_directory_cluster p)) held = map Inr slots"
    "set (lay_slots (place_of g 2) (label_slot lab # slots)) \<subseteq> set (all_patches g lab p dirs)"
    "length (label_slot lab # slots) \<le> unat spc * 16"
proof -
  note F = image_of_parts [OF im]
  have m: "map (directory_patches g lab p) (tree_of files) = map Inr dirs" using F(1) by (simp add: formatted_def)
  obtain i where i: "i < length (tree_of files)" "tree_of files ! i = ([], held)" using map_of_SomeD [OF h] by (auto simp: in_set_conv_nth)
  have l: "i < length dirs" using i(1) m map_eq_imp_length_eq by fastforce
  obtain c heads slots where c: "map_of (pl_directory_cluster p) [] = Some c" "head_slots lab (pl_directory_cluster p) [] c = Inr heads"
    "map (item_slot (went p) (pl_directory_cluster p)) held = map Inr slots" "dirs ! i = lay_slots (place_of g (unat c)) (heads @ slots)"
    using directory_info [OF F(1) l i(2)] by blast
  have "c = 2" using c(1) F(5) by (simp add: directories_ok_def)
  moreover have "heads = [label_slot lab]" using c(2) by (simp add: head_slots_def)
  ultimately have d: "dirs ! i = lay_slots (place_of g 2) (label_slot lab # slots)" using c(4) by simp
  have "set (dirs ! i) \<subseteq> set (concat dirs)" using nth_mem [OF l] by auto
  then have sub: "set (lay_slots (place_of g 2) (label_slot lab # slots)) \<subseteq> set (all_patches g lab p dirs)" using d by auto
  have "length slots = length held" using c(3) map_eq_imp_length_eq by fastforce
  moreover have "\<not> too_full (512 * unat spc div 32) ([], held)" using F(1) i unfolding formatted_def by (metis nth_mem)
  ultimately have "length (label_slot lab # slots) \<le> unat spc * 16" by (simp add: too_full_def)
  then show ?thesis using that c(3) sub by blast
qed

lemma went_placed:
  assumes "map_of (went p) nm = Some first"
  shows "\<exists>f. (f, first) \<in> set (pl_placed p) \<and> f_name f = nm"
proof -
  have "map_of (went p) = map_of (rev (map (\<lambda>x. (f_name (fst x), snd x)) (pl_placed p)))"
    using map_of_fold_bt_insert [of "\<lambda>x. f_name (fst x)" snd "pl_placed p" "[]"] by (simp add: went_def case_prod_beta')
  then have "(nm, first) \<in> set (map (\<lambda>x. (f_name (fst x), snd x)) (pl_placed p))" using assms map_of_SomeD by fastforce
  then show ?thesis by auto
qed

text \<open>The slots of the root as the kernel reads them: the label first, then the entries in order.\<close>

lemma root_slot_item:
  assumes im: "image_of tot spc lab files g p lo dirs img" and h: "map_of (tree_of files) [] = Some held"
    and j: "j < length held" and dot: "no_final_dot (item_name (held ! j))"
  shows "\<exists>attr c n. decode_slot (piece img (place_of g 2 + 32 * Suc j) 32) =
      SlotEntry \<lparr>de_name = item_name (held ! j), de_attributes = attr, de_first_cluster = c, de_size = n\<rparr> \<and>
    (\<forall>f. held ! j = FileItem f \<longrightarrow> map_of (went p) (f_name f) = Some c \<and> n = of_nat (length (f_contents f))) \<and> Suc j < unat spc * 16"
proof -
  obtain slots where s: "map (item_slot (went p) (pl_directory_cluster p)) held = map Inr slots"
    "set (lay_slots (place_of g 2) (label_slot lab # slots)) \<subseteq> set (all_patches g lab p dirs)" "length (label_slot lab # slots) \<le> unat spc * 16"
    using root_patches [OF im h] .
  have len: "length slots = length held" using s(1) map_eq_imp_length_eq by fastforce
  have "map (item_slot (went p) (pl_directory_cluster p)) held ! j = map Inr slots ! j" using s(1) by simp
  then have sj: "item_slot (went p) (pl_directory_cluster p) (held ! j) = Inr (slots ! j)" using j len by simp
  have t: "tree_ok files (tree_of files)" using image_of_parts(1) [OF im] by (simp add: formatted_def)
  have ok: "is_eight_three (item_name (held ! j))" using t h j by (auto simp: tree_ok_def items_ok_def item_ok_def)
  obtain attr c n where e: "slots ! j = [(0, filled_in 32 (entry_parts (padded_name (item_name (held ! j))) attr c n))]"
    "attr = ATTR_ARCHIVE \<or> attr = ATTR_DIRECTORY"
    "\<forall>f. held ! j = FileItem f \<longrightarrow> map_of (went p) (f_name f) = Some c \<and> n = of_nat (length (f_contents f))"
  proof (cases "held ! j")
    case (FileItem f)
    then obtain first where "map_of (went p) (f_name f) = Some first" "slots ! j = [(0, mk_directory_entry f first)]"
      using sj by (auto simp: item_slot_def and_then_Inr_iff bt_index_Inr)
    note first = this
    show ?thesis
      by (rule that [of ATTR_ARCHIVE first "of_nat (length (f_contents f))"])
         (simp_all add: first FileItem mk_directory_entry_def item_name_def)
  next
    case (DirectoryItem d)
    then obtain c where "slots ! j = [(0, mk_directory_entry_for_directory (last_part d) c)]"
      using sj by (auto simp: item_slot_def and_then_Inr_iff bt_index_Inr eq_commute [of _ "slots ! j"])
    note c = this
    show ?thesis
      by (rule that [of ATTR_DIRECTORY c 0]) (simp_all add: c DirectoryItem mk_directory_entry_for_directory_def item_name_def)
  qed
  let ?e = "filled_in 32 (entry_parts (padded_name (item_name (held ! j))) attr c n)"
  have "(place_of g 2 + 32 * Suc j + 0, ?e) \<in> set (lay_slots (place_of g 2) (label_slot lab # slots))"
    using e(1) j len by (intro lay_slots_mem) simp_all
  from subsetD [OF s(2) this] have mem: "(place_of g 2 + 32 * Suc j, ?e) \<in> set (all_patches g lab p dirs)" by (simp only: add_0_right)
  have "length ?e = 32" using padded_encodes(2) [OF ok] by (intro length_filled_in) simp
  then have "piece img (place_of g 2 + 32 * Suc j) 32 = ?e"
    using read_patch [OF im mem] by (intro nth_equalityI) (simp_all add: piece_def)
  then show ?thesis using entry_decodes [OF ok dot e(2), of c n] e(3) s(3) j len by auto
qed

lemma label_slot_skipped:
  assumes im: "image_of tot spc lab files g p lo dirs img" and h: "map_of (tree_of files) [] = Some held" and l: "lab = [] \<or> hd lab \<noteq> 0"
  shows "decode_slot (piece img (place_of g 2) 32) = Skip"
proof -
  obtain slots where s: "set (lay_slots (place_of g 2) (label_slot lab # slots)) \<subseteq> set (all_patches g lab p dirs)"
    using root_patches [OF im h] by blast
  have "(place_of g 2 + 0, padded_label lab) \<in> set (all_patches g lab p dirs)" "(place_of g 2 + 11, [ATTR_VOLUME_LABEL]) \<in> set (all_patches g lab p dirs)"
    using s lay_slots_mem [of 0 "label_slot lab # slots" 0 "padded_label lab"] lay_slots_mem [of 0 "label_slot lab # slots" 11 "[ATTR_VOLUME_LABEL]"]
    by (force simp: label_slot_def)+
  note m = this
  have b: "byte_at img (place_of g 2) = padded_label lab ! 0" "byte_at img (place_of g 2 + 11) = ATTR_VOLUME_LABEL"
    using read_patch [OF im m(1), of 0] read_patch [OF im m(2), of 0] by simp_all
  have "padded_label lab ! 0 \<noteq> 0" using l by (cases lab) (auto simp: padded_label_def Let_def nth_copy_at)
  then show ?thesis using b
    by (simp add: decode_slot_def piece_def ENTRY_NEVER_USED_def Let_def ATTR_VOLUME_LABEL_def ATTR_LONG_NAME_def)
qed

lemma root_file_found:
  assumes im: "image_of tot spc lab files g p lo dirs img" and pow: "is_power_of_two spc" and h: "map_of (tree_of files) [] = Some held"
    and d: "distinct (map item_name held)" "\<forall>item \<in> set held. no_final_dot (item_name item)" and l: "lab = [] \<or> hd lab \<noteq> 0"
    and f: "FileItem f \<in> set held"
  shows "\<exists>attr first. (f, first) \<in> set (pl_placed p) \<and>
    volume_find (image_sectors :: (image, 'e) sectors) (boot_of g lab) (f_name f) (on_disk img) =
      (Inr (Some \<lparr>de_name = f_name f, de_attributes = attr, de_first_cluster = first, de_size = of_nat (length (f_contents f))\<rparr>), on_disk img)"
proof -
  have F: "formatted tot spc lab files g p lo dirs" using im by (simp add: image_of_def)
  have t: "tree_ok files (tree_of files)" and pf: "map fst (pl_placed p) = files" using F by (simp_all add: formatted_def)
  have hf: "files_in held = filter (\<lambda>f. 47 \<notin> set (f_name f)) files" using t h by (simp add: tree_ok_def)
  obtain j where j: "j < length held" "held ! j = FileItem f" using f by (auto simp: in_set_conv_nth)
  have ok: "is_eight_three (item_name item)" if "item \<in> set held" for item using t h that by (auto simp: tree_ok_def items_ok_def item_ok_def)
  have plain: "47 \<notin> set (f_name f)" using f hf set_files_in [of f held] by auto
  have nm: "item_name (FileItem f) = f_name f" using last_part_plain [OF plain] by (simp add: item_name_def)
  have ok_f: "is_eight_three (f_name f)" using ok [OF f] nm by simp
  let ?slots = "map (\<lambda>k. piece img (place_of g 2 + 32 * k) 32) [0..<unat spc * 16]"
  obtain attr first n where e: "decode_slot (piece img (place_of g 2 + 32 * Suc j) 32) =
      SlotEntry \<lparr>de_name = f_name f, de_attributes = attr, de_first_cluster = first, de_size = n\<rparr>"
    "map_of (went p) (f_name f) = Some first" "n = of_nat (length (f_contents f))" "Suc j < unat spc * 16"
    using root_slot_item [OF im h j(1)] d(2) j nm by (metis nth_mem)
  obtain h' where h': "(h', first) \<in> set (pl_placed p)" "f_name h' = f_name f" using went_placed [OF e(2)] by blast
  have "h' \<in> set files" using h'(1) pf by force
  then have "FileItem h' \<in> set held" using hf plain h'(2) set_files_in [of h' held] by simp
  moreover have "item_name (FileItem h') = item_name (FileItem f)" using h'(2) by (simp add: item_name_def)
  ultimately have "h' = f" using d(1) f by (simp add: distinct_map inj_on_def) blast
  have before: "decode_slot (?slots ! k) = Skip \<or> (\<exists>e'. decode_slot (?slots ! k) = SlotEntry e' \<and> \<not> is_named e' (f_name f))" if k: "k < Suc j" for k
  proof (cases k)
    case 0
    then show ?thesis using label_slot_skipped [OF im h l] e(4) by simp
  next
    case (Suc i)
    have i: "i < length held" "i < j" using k Suc j(1) by simp_all
    have "item_name (held ! i) \<noteq> f_name f" using d(1) i j nm by (metis distinct_conv_nth length_map less_irrefl nth_map)
    then show ?thesis using root_slot_item [OF im h i(1)] d(2) i(1) Suc named_iff [OF ok ok_f, of "held ! i"] by fastforce
  qed
  have find: "root_slots (\<lambda>found e. if is_named e (f_name f) then (False, Some e) else (True, found)) ?slots None =
      (False, Some \<lparr>de_name = f_name f, de_attributes = attr, de_first_cluster = first, de_size = n\<rparr>)"
    using e(1,4) before by (intro root_slots_find [of "Suc j"]) (simp_all add: named_iff [OF ok_f ok_f] del: mult_Suc_right)
  obtain s where s: "sector_of_cluster (boot_of g lab) 2 = Some s"
    "concat (map (\<lambda>k. as_chunks 32 (on_disk img (s + k))) (cluster_offsets (boot_of g lab))) = ?slots"
    using root_cluster_slots [OF im pow] .
  have "volume_find (image_sectors :: (image, 'e) sectors) (boot_of g lab) (f_name f) (on_disk img) =
      (Inr (Some \<lparr>de_name = f_name f, de_attributes = attr, de_first_cluster = first, de_size = n\<rparr>), on_disk img)"
    unfolding volume_find_def read_root_def
    by (subst read_root_loop.simps) (simp add: s(1) root_sectors_image s(2) find io_bind_def io_ret_def)
  then show ?thesis using h'(1) \<open>h' = f\<close> e(3) by blast
qed

section \<open>Properties\<close>

lemma mk_format_image:
  assumes "mk_format tot spc lab files = Inr (img, g)" "\<forall>f \<in> set files. length (f_contents f) < 2 ^ 32"
  obtains p lo dirs where "image_of tot spc lab files g p lo dirs img"
  using mk_format_parts [OF assms] unfolding image_of_def by blast

text \<open>
  C33. The formatter and the kernel agree on the format. A volume the formatter made is accepted by the kernel's
  check of its boot sector with the same geometry; the kernel finds every file of the root directory under
  its name, and reading it gives the bytes that were put there. It needs a cluster size the kernel accepts, names
  in the root that differ and do not end in a dot, and files of less than 4 GiB.
\<close>

theorem formatted_files_read_back:
  assumes "mk_format tot spc lab files = Inr (img, g)" "is_power_of_two spc" "\<forall>f \<in> set files. length (f_contents f) < 2 ^ 32"
    "map_of (tree_of files) [] = Some held" "distinct (map item_name held)" "\<forall>item \<in> set held. no_final_dot (item_name item)"
    "lab = [] \<or> hd lab \<noteq> 0" "FileItem f \<in> set held" "length (f_contents f) \<le> length into"
  shows "\<exists>b e. parse_boot (on_disk img 0) = Inr b \<and> total_sectors b = tot \<and> clusters b = g_clusters g \<and>
    volume_find (image_sectors :: (image, 'e) sectors) b (f_name f) (on_disk img) = (Inr (Some e), on_disk img) \<and>
    read_file (image_sectors :: (image, 'e) sectors) b e into (on_disk img) =
      (Inr (length (f_contents f), f_contents f @ drop (length (f_contents f)) into), on_disk img)"
proof -
  obtain p lo dirs where im: "image_of tot spc lab files g p lo dirs img" using mk_format_image [OF assms(1,3)] .
  note F = image_of_parts [OF im]
  let ?b = "boot_of g lab"
  obtain attr first where e: "(f, first) \<in> set (pl_placed p)"
    "volume_find (image_sectors :: (image, 'e) sectors) ?b (f_name f) (on_disk img) =
      (Inr (Some \<lparr>de_name = f_name f, de_attributes = attr, de_first_cluster = first, de_size = of_nat (length (f_contents f))\<rparr>), on_disk img)"
    using root_file_found [OF im assms(2,4-8)] by blast
  let ?e = "\<lparr>de_name = f_name f, de_attributes = attr, de_first_cluster = first, de_size = of_nat (length (f_contents f))\<rparr>"
  have "f \<in> set files" using e(1) F(1) by (force simp: formatted_def)
  then have small: "length (f_contents f) < 2 ^ 32" using assms(3) by blast
  have size: "unat (de_size ?e) = length (f_contents f)" using small by (simp add: unat_of_nat_exact)
  have fc: "file_contents ?b (on_disk img) ?e = Some (f_contents f)" by (rule run_contents [OF im assms(2) e(1) small]) simp_all
  have spc: "g_sectors_per_cluster g = spc" using F(2) by (simp add: geometry_ok_def)
  have "run_of (cluster_size g) lo p (f, first)" using F(4) e(1) by (simp add: placement_ok_def)
  then have "need (cluster_size g) f \<le> unat (g_clusters g) + 1"
    using F(4,6) limit_exact [OF F(2)] by (auto simp: run_of_def placement_ok_def split: if_splits)
  then have n: "clusters_for ?b (unat (de_size ?e)) \<le> unat (clusters ?b) + 1" using clusters_for_need [OF spc, of lab f] size by simp
  have "read_file (image_sectors :: (image, 'e) sectors) ?b ?e into (on_disk img) =
      (Inr (length (f_contents f), f_contents f @ drop (length (f_contents f)) into), on_disk img)"
    using read_file_image [where 'e = 'e, OF boot_of_ok [OF im assms(2)] on_disk_ok [of img] n, of into] assms(9) size fc by (simp add: copy_at_def)
  moreover have "parse_boot (on_disk img 0) = Inr ?b" using boot_parses [OF F(2,3) assms(2)] disk_boot [OF im] by simp
  moreover have "total_sectors ?b = tot" "clusters ?b = g_clusters g" using F(2) by (simp_all add: geometry_ok_def)
  ultimately show ?thesis using e(2) by blast
qed

text \<open>The formatter on a small volume: the copies are all inside the image, so once the steps before answer, it does.\<close>

lemma mk_format_succeeds:
  assumes good: "\<forall>f \<in> set files. good_path (f_name f)" and g: "geometry_for tot spc = Inr g" and c: "65525 \<le> unat (g_clusters g)"
    and full: "\<forall>x \<in> set (tree_of files). \<not> too_full (512 * unat spc div 32) x" and p: "place_all g files = Inr p"
    and d: "map (directory_patches g lab p) (tree_of files) = map Inr dirs" and small: "\<forall>f \<in> set files. length (f_contents f) < 2 ^ 32"
  shows "\<exists>img. mk_format tot spc lab files = Inr (img, g)"
proof -
  note G = geometry_for_ok [OF g] and T = tree_of_ok [OF good]
  obtain lo where lo: "placement_ok (2 + g_clusters g) (cluster_size g) lo p \<and> directories_ok lo p \<and> 2 < lo \<and> map_of (pl_chains p) 2 = Some CHAIN_END \<and>
      map fst (pl_placed p) = files" using place_all_ok [OF G p T small] c by auto
  have "formatted tot spc lab files g p lo dirs" using G T c d full lo by (simp add: formatted_def)
  then have "within 0 (512 * unat tot) (all_patches g lab p dirs)" by (rule all_patches_spec(2))
  then obtain img where img: "put_all (all_patches g lab p dirs) (replicate (unat tot * 512) 0) = Inr img"
    using put_all_ok [of "replicate (unat tot * 512) 0" "all_patches g lab p dirs"] by (auto simp: mult.commute)
  have ws: "patches_of g lab files p = Inr (all_patches g lab p dirs)" using d by (simp add: patches_of_def and_then_Inr_iff collect_Inr)
  have none: "find (\<lambda>f. \<not> good_path (f_name f)) files = None" "find (too_full (16 * unat spc)) (tree_of files) = None"
    using good full by (auto simp: find_None_iff)
  have big: "\<not> g_clusters g < 65525" using c by (simp add: word_less_nat_alt)
  show ?thesis using none big g p ws img
    by (simp add: mk_format_def map_err_def IMAGE_SECTOR_BYTES_def DIRECTORY_ENTRY_BYTES_def)
qed

definition hello_file :: image_file where
  "hello_file = \<lparr>f_name = [72, 46, 84], f_contents = [104, 105]\<rparr>"

definition hello_geometry :: geometry where
  "hello_geometry = \<lparr>g_total_sectors = 0x20000, g_sectors_per_cluster = 1, g_reserved_sectors = 32, g_fat_count = 2, g_sectors_per_fat = 1009,
     g_root_cluster = 2, g_clusters = 129022\<rparr>"

lemma hello_format: "\<exists>img. mk_format 0x20000 1 [] [hello_file] = Inr (img, hello_geometry)"
proof -
  have "(LEAST n. 1 \<le> n \<and> (unat (0x20000 :: u32) - 32 - 2 * n) div unat (1 :: u8) + 2 \<le> 128 * n) = (1009 :: nat)"
    by (intro Least_equality) auto
  then have "sectors_per_fat_for 0x20000 1 = Inr 1009" using fat_size [of 1 "0x20000"] by simp
  then have g: "geometry_for 0x20000 1 = Inr hello_geometry"
    by (simp add: geometry_for_def u32_sub_def u32_mul_def u32_div_def RESERVED_SECTORS_def FAT_COUNT_def FIRST_DATA_CLUSTER_def hello_geometry_def)
  have good: "\<forall>f \<in> set [hello_file]. good_path (f_name f)"
    by (simp add: hello_file_def good_path_def is_eight_three_def split_name_def)
  have t: "tree_of [hello_file] = [([], [FileItem hello_file])]"
    by (simp add: tree_of_def add_file_def parents_of_def hello_file_def bt_push_def)
  define p where "p = \<lparr>pl_chains = [(2, CHAIN_END), (3, CHAIN_END)], pl_directory_cluster = [([], 2)], pl_placed = [(hello_file, 3)], pl_next_free = 4\<rparr>"
  have n: "clusters_needed 512 hello_file = 1" by (simp add: clusters_needed_def hello_file_def)
  have p: "place_all hello_geometry [hello_file] = Inr p"
    by (simp add: place_all_def t n Let_def hello_geometry_def placement_start_def FIRST_DATA_CLUSTER_def IMAGE_SECTOR_BYTES_def p_def
        u32_add_def checked_add_def ok_or_def map_err_def chain_link_def)
  have d: "\<exists>dirs. map (directory_patches hello_geometry [] p) (tree_of [hello_file]) = map Inr dirs"
    by (rule exI [of _ "[lay_slots (unat (g_sector_of_cluster hello_geometry 2) * 512) [label_slot [], [(0, mk_directory_entry hello_file 3)]]]"])
       (simp add: t directory_patches_def p_def Let_def bt_index_def ok_or_def head_slots_def item_slot_def IMAGE_SECTOR_BYTES_def)
  then obtain dirs where d': "map (directory_patches hello_geometry [] p) (tree_of [hello_file]) = map Inr dirs" by blast
  have full: "\<forall>x \<in> set (tree_of [hello_file]). \<not> too_full (512 * unat (1 :: u8) div 32) x" by (simp add: t too_full_def)
  show ?thesis
    by (rule mk_format_succeeds [OF good g _ full p d']) (simp_all add: hello_geometry_def hello_file_def)
qed

theorem formatted_files_read_back_witness:
  "\<exists>img b e. mk_format 0x20000 1 [] [hello_file] = Inr (img, hello_geometry) \<and> parse_boot (on_disk img 0) = Inr b \<and>
     volume_find (image_sectors :: (image, unit) sectors) b [72, 46, 84] (on_disk img) = (Inr (Some e), on_disk img) \<and>
     read_file (image_sectors :: (image, unit) sectors) b e [0, 0, 0] (on_disk img) = (Inr (2, [104, 105, 0]), on_disk img)"
proof -
  obtain img where img: "mk_format 0x20000 1 [] [hello_file] = Inr (img, hello_geometry)" using hello_format by blast
  have t: "map_of (tree_of [hello_file]) [] = Some [FileItem hello_file]"
    by (simp add: tree_of_def add_file_def parents_of_def hello_file_def bt_push_def)
  have pow: "is_power_of_two (1 :: u8)" by (simp add: is_power_of_two_def upt_rec)
  show ?thesis
    using formatted_files_read_back [where 'e = unit, OF img pow _ t, of hello_file "[0, 0, 0]"] img
    by (auto simp: hello_file_def item_name_def last_part_def no_final_dot_def split_name_def)
qed

end
