(* ===== verification/Keyboard.thy ===== *)
theory Keyboard
  imports Syscall
begin

text \<open>
  The PS/2 keyboard (\<^verbatim>\<open>arch/x86_64/src/keyboard.rs\<close>): the ring of scancodes between the interrupt handler and
  the reader, the decoder, and the controller. The ring's counters are \<open>usize\<close> that wrap, so they are words. The two
  ports are parameters: what a read answers and does to the device, and what a write does to it. Log lines are
  left out.
\<close>

section \<open>The ring\<close>

definition QUEUE_CAPACITY :: u64 where "QUEUE_CAPACITY = 64"

record scancode_queue =
  slots :: "u8 list"
  q_head :: u64
  q_tail :: u64

definition queue_new :: scancode_queue where
  "queue_new = \<lparr>slots = replicate (unat QUEUE_CAPACITY) 0, q_head = 0, q_tail = 0\<rparr>"

definition queue_push :: "u8 \<Rightarrow> scancode_queue \<Rightarrow> bool \<times> scancode_queue" where
  "queue_push scancode q =
     (if q_tail q - q_head q = QUEUE_CAPACITY then (False, q)
      else (True, q\<lparr>slots := (slots q)[unat (q_tail q mod QUEUE_CAPACITY) := scancode], q_tail := q_tail q + 1\<rparr>))"

definition queue_pop :: "scancode_queue \<Rightarrow> u8 option \<times> scancode_queue" where
  "queue_pop q =
     (if q_head q = q_tail q then (None, q)
      else (Some (slots q ! unat (q_head q mod QUEUE_CAPACITY)), q\<lparr>q_head := q_head q + 1\<rparr>))"

section \<open>Decoding\<close>

definition PREFIX_EXTENDED :: u8 where "PREFIX_EXTENDED = 0xE0"
definition BREAK_BIT :: u8 where "BREAK_BIT = 0x80"
definition SC_BACKSPACE :: u8 where "SC_BACKSPACE = 0x0E"
definition SC_ENTER :: u8 where "SC_ENTER = 0x1C"
definition SC_LEFT_SHIFT :: u8 where "SC_LEFT_SHIFT = 0x2A"
definition SC_RIGHT_SHIFT :: u8 where "SC_RIGHT_SHIFT = 0x36"

definition KEY_TABLE :: "(u8 \<times> u8) list" where
  "KEY_TABLE =
     [(0, 0), (0, 0), (49, 33), (50, 64), (51, 35), (52, 36), (53, 37), (54, 94), (55, 38), (56, 42), (57, 40), (48, 41), (45, 95), (61, 43),
      (0, 0), (0, 0), (113, 81), (119, 87), (101, 69), (114, 82), (116, 84), (121, 89), (117, 85), (105, 73), (111, 79), (112, 80), (91, 123), (93, 125),
      (0, 0), (0, 0), (97, 65), (115, 83), (100, 68), (102, 70), (103, 71), (104, 72), (106, 74), (107, 75), (108, 76), (59, 58), (39, 34), (96, 126),
      (0, 0), (92, 124), (122, 90), (120, 88), (99, 67), (118, 86), (98, 66), (110, 78), (109, 77), (44, 60), (46, 62), (47, 63),
      (0, 0), (0, 0), (0, 0), (32, 32)]"

record decoder =
  left_shift :: bool
  right_shift :: bool
  expecting_extended :: bool

definition decoder_new :: decoder where
  "decoder_new = \<lparr>left_shift = False, right_shift = False, expecting_extended = False\<rparr>"

definition table_key :: "bool \<Rightarrow> u8 \<Rightarrow> console_key" where
  "table_key shifted code =
     (if unat code < length KEY_TABLE \<and> fst (KEY_TABLE ! unat code) \<noteq> 0
      then KeyChar (ucast (if shifted then snd (KEY_TABLE ! unat code) else fst (KEY_TABLE ! unat code)))
      else KeyUnknown)"

definition feed :: "u8 \<Rightarrow> decoder \<Rightarrow> console_key option \<times> decoder" where
  "feed scancode d =
     (if scancode = PREFIX_EXTENDED then (None, d\<lparr>expecting_extended := True\<rparr>)
      else let extended = expecting_extended d;
               d = d\<lparr>expecting_extended := False\<rparr>;
               released = (scancode AND BREAK_BIT \<noteq> 0);
               code = scancode AND NOT BREAK_BIT
        in if extended then (if released then None else Some KeyUnknown, d)
           else if code = SC_LEFT_SHIFT then (None, d\<lparr>left_shift := \<not> released\<rparr>)
           else if code = SC_RIGHT_SHIFT then (None, d\<lparr>right_shift := \<not> released\<rparr>)
           else if released then (None, d)
           else if code = SC_BACKSPACE then (Some KeyBackspace, d)
           else if code = SC_ENTER then (Some KeyEnter, d)
           else (Some (table_key (left_shift d \<or> right_shift d) code), d))"

lemma pop_shrinks: "queue_pop q = (Some sc, q') \<Longrightarrow> unat (q_tail q' - q_head q') < unat (q_tail q - q_head q)"
proof -
  assume "queue_pop q = (Some sc, q')"
  then have e: "q_head q \<noteq> q_tail q" "q' = q\<lparr>q_head := q_head q + 1\<rparr>" by (auto simp: queue_pop_def split: if_splits)
  have "unat (q_tail q - q_head q - 1) = unat (q_tail q - q_head q) - 1" using e(1) by (simp add: unat_minus_one)
  moreover have "0 < unat (q_tail q - q_head q)" using e(1) by (simp add: unat_gt_0)
  ultimately show ?thesis using e(2) by (simp add: diff_diff_eq)
qed

function read_key_from :: "decoder \<Rightarrow> scancode_queue \<Rightarrow> console_key option \<times> decoder \<times> scancode_queue" where
  "read_key_from d q =
     (case queue_pop q of
        (None, q) \<Rightarrow> (None, d, q)
      | (Some scancode, q) \<Rightarrow>
          (case feed scancode d of
             (Some key, d) \<Rightarrow> (Some key, d, q)
           | (None, d) \<Rightarrow> read_key_from d q))"
  by pat_completeness auto

termination
  by (relation "measure (\<lambda>(d, q). unat (q_tail q - q_head q))") (auto dest: pop_shrinks [OF sym])

section \<open>The controller\<close>

definition DATA_PORT :: u16 where "DATA_PORT = 0x60"
definition STATUS_COMMAND_PORT :: u16 where "STATUS_COMMAND_PORT = 0x64"
definition STATUS_OUTPUT_FULL :: u8 where "STATUS_OUTPUT_FULL = 1"
definition STATUS_INPUT_FULL :: u8 where "STATUS_INPUT_FULL = 2"
definition STATUS_AUX_DATA :: u8 where "STATUS_AUX_DATA = 0x20"
definition COMMAND_READ_CONFIG :: u8 where "COMMAND_READ_CONFIG = 0x20"
definition COMMAND_WRITE_CONFIG :: u8 where "COMMAND_WRITE_CONFIG = 0x60"
definition CONFIG_KEYBOARD_IRQ_ENABLE :: u8 where "CONFIG_KEYBOARD_IRQ_ENABLE = 1"
definition CONFIG_KEYBOARD_CLOCK_DISABLE :: u8 where "CONFIG_KEYBOARD_CLOCK_DISABLE = 0x10"
definition CONFIG_TRANSLATE :: u8 where "CONFIG_TRANSLATE = 0x40"
definition KEYBOARD_ENABLE_SCANNING :: u8 where "KEYBOARD_ENABLE_SCANNING = 0xF4"
definition KEYBOARD_POLL_LIMIT :: nat where "KEYBOARD_POLL_LIMIT = 200000"
definition DRAIN_LIMIT :: nat where "DRAIN_LIMIT = 16"

datatype init_error = ControllerTimeout

record 'd ports =
  inb :: "u16 \<Rightarrow> 'd \<Rightarrow> u8 \<times> 'd"
  outb :: "u16 \<Rightarrow> u8 \<Rightarrow> 'd \<Rightarrow> 'd"

fun wait_input :: "'d ports \<Rightarrow> nat \<Rightarrow> ('d, init_error, unit) io" where
  "wait_input P 0 d = (Inl ControllerTimeout, d)"
| "wait_input P (Suc n) d =
     (case inb P STATUS_COMMAND_PORT d of (st, d) \<Rightarrow>
        if st AND STATUS_INPUT_FULL = 0 then (Inr (), d) else wait_input P n d)"

fun wait_output :: "'d ports \<Rightarrow> nat \<Rightarrow> ('d, init_error, u8) io" where
  "wait_output P 0 d = (Inl ControllerTimeout, d)"
| "wait_output P (Suc n) d =
     (case inb P STATUS_COMMAND_PORT d of (st, d) \<Rightarrow>
        if st AND STATUS_OUTPUT_FULL \<noteq> 0 then (case inb P DATA_PORT d of (byte, d) \<Rightarrow> (Inr byte, d)) else wait_output P n d)"

fun drain_output :: "'d ports \<Rightarrow> nat \<Rightarrow> 'd \<Rightarrow> 'd" where
  "drain_output P 0 d = d"
| "drain_output P (Suc n) d =
     (case inb P STATUS_COMMAND_PORT d of (st, d) \<Rightarrow>
        if st AND STATUS_OUTPUT_FULL = 0 then d else drain_output P n (snd (inb P DATA_PORT d)))"

definition send :: "'d ports \<Rightarrow> u16 \<Rightarrow> u8 \<Rightarrow> ('d, init_error, unit) io" where
  "send P port byte = io_bind (wait_input P KEYBOARD_POLL_LIMIT) (\<lambda>_ d. (Inr (), outb P port byte d))"

definition new_config :: "u8 \<Rightarrow> u8" where
  "new_config config = (config OR CONFIG_KEYBOARD_IRQ_ENABLE OR CONFIG_TRANSLATE) AND NOT CONFIG_KEYBOARD_CLOCK_DISABLE"

definition init_controller :: "'d ports \<Rightarrow> ('d, init_error, unit) io" where
  "init_controller P = (\<lambda>d.
     io_bind (send P STATUS_COMMAND_PORT COMMAND_READ_CONFIG) (\<lambda>_.
     io_bind (wait_output P KEYBOARD_POLL_LIMIT) (\<lambda>config.
     io_bind (send P STATUS_COMMAND_PORT COMMAND_WRITE_CONFIG) (\<lambda>_.
     io_bind (send P DATA_PORT (new_config config)) (\<lambda>_.
     io_bind (send P DATA_PORT KEYBOARD_ENABLE_SCANNING) (\<lambda>_ d.
       (Inr (), drain_output P DRAIN_LIMIT (snd (wait_output P KEYBOARD_POLL_LIMIT d)))))))) (drain_output P DRAIN_LIMIT d))"

text \<open>The body of the interrupt handler: at most \<open>DRAIN_LIMIT\<close> bytes, those of the mouse dropped.\<close>

fun irq_bytes :: "'d ports \<Rightarrow> nat \<Rightarrow> scancode_queue \<times> 'd \<Rightarrow> scancode_queue \<times> 'd" where
  "irq_bytes P 0 (q, d) = (q, d)"
| "irq_bytes P (Suc n) (q, d) =
     (case inb P STATUS_COMMAND_PORT d of (st, d) \<Rightarrow>
        if st AND STATUS_OUTPUT_FULL = 0 then (q, d)
        else case inb P DATA_PORT d of (byte, d) \<Rightarrow>
          irq_bytes P n (if st AND STATUS_AUX_DATA = 0 then snd (queue_push byte q) else q, d))"

definition on_irq :: "'d ports \<Rightarrow> scancode_queue \<times> 'd \<Rightarrow> scancode_queue \<times> 'd" where
  "on_irq P = irq_bytes P DRAIN_LIMIT"

text \<open>A controller that is not there, whose ports read all ones, is an error and not a hang.\<close>

lemma wait_input_absent: "(\<And>d. inb P STATUS_COMMAND_PORT d = (0xFF, d)) \<Longrightarrow> wait_input P n d = (Inl ControllerTimeout, d)"
  by (induction n) (simp_all add: STATUS_INPUT_FULL_def)

lemma init_controller_absent:
  assumes "\<And>d. inb P STATUS_COMMAND_PORT d = (0xFF, d)"
  shows "fst (init_controller P d) = Inl ControllerTimeout"
  by (simp add: init_controller_def send_def io_bind_def wait_input_absent [OF assms])

section \<open>The ring under every interleaving\<close>

text \<open>
  The producer and the consumer as the sequences of their accesses to the shared atomics: the interrupt handler may
  run between any two accesses of the reader, and on two cores either may. \<open>accepted\<close> and \<open>taken\<close> remember what
  was pushed and popped.
\<close>

datatype producer = PIdle | PTail u8 u64 | PHead u8 u64 u64 | PStored u8 u64
datatype consumer = CIdle | CHead u64 | CTail u64 u64 | CRead u64 u8

record spsc =
  ring :: scancode_queue
  prod :: producer
  cons :: consumer
  accepted :: "u8 list"
  taken :: "u8 list"

definition spsc_new :: spsc where
  "spsc_new = \<lparr>ring = queue_new, prod = PIdle, cons = CIdle, accepted = [], taken = []\<rparr>"

inductive spsc_step :: "spsc \<Rightarrow> spsc \<Rightarrow> bool" where
  load_tail: "prod s = PIdle \<Longrightarrow> spsc_step s (s\<lparr>prod := PTail sc (q_tail (ring s))\<rparr>)"
| load_head: "prod s = PTail sc t \<Longrightarrow> spsc_step s (s\<lparr>prod := PHead sc t (q_head (ring s))\<rparr>)"
| full: "prod s = PHead sc t h \<Longrightarrow> t - h = QUEUE_CAPACITY \<Longrightarrow> spsc_step s (s\<lparr>prod := PIdle\<rparr>)"
| store: "prod s = PHead sc t h \<Longrightarrow> t - h \<noteq> QUEUE_CAPACITY \<Longrightarrow>
    spsc_step s (s\<lparr>ring := (ring s)\<lparr>slots := (slots (ring s))[unat (t mod QUEUE_CAPACITY) := sc]\<rparr>, prod := PStored sc t\<rparr>)"
| announce: "prod s = PStored sc t \<Longrightarrow> spsc_step s (s\<lparr>ring := (ring s)\<lparr>q_tail := t + 1\<rparr>, prod := PIdle, accepted := accepted s @ [sc]\<rparr>)"
| pop_head: "cons s = CIdle \<Longrightarrow> spsc_step s (s\<lparr>cons := CHead (q_head (ring s))\<rparr>)"
| pop_tail: "cons s = CHead h \<Longrightarrow> spsc_step s (s\<lparr>cons := CTail h (q_tail (ring s))\<rparr>)"
| pop_empty: "cons s = CTail h t \<Longrightarrow> h = t \<Longrightarrow> spsc_step s (s\<lparr>cons := CIdle\<rparr>)"
| pop_read: "cons s = CTail h t \<Longrightarrow> h \<noteq> t \<Longrightarrow> spsc_step s (s\<lparr>cons := CRead h (slots (ring s) ! unat (h mod QUEUE_CAPACITY))\<rparr>)"
| pop_done: "cons s = CRead h v \<Longrightarrow> spsc_step s (s\<lparr>ring := (ring s)\<lparr>q_head := h + 1\<rparr>, cons := CIdle, taken := taken s @ [v]\<rparr>)"

section \<open>The invariant\<close>

definition slot_of :: "u64 \<Rightarrow> nat \<Rightarrow> nat" where
  "slot_of h i = unat ((h + of_nat i) mod QUEUE_CAPACITY)"

lemma slot_of_exact: "slot_of h i = (unat h + i) mod 64"
proof -
  have "unat (h + of_nat i) = (unat h + i) mod 2 ^ 64" by (simp add: unat_word_ariths unat_of_nat mod_add_right_eq)
  moreover have "(unat h + i) mod 2 ^ 64 mod 64 = (unat h + i) mod 64" by (rule mod_mod_cancel) (simp add: dvd_def)
  ultimately show ?thesis by (simp add: slot_of_def QUEUE_CAPACITY_def unat_mod)
qed

definition pending :: "u64 \<Rightarrow> nat \<Rightarrow> u8 list \<Rightarrow> u8 list" where
  "pending h n ss = map (\<lambda>i. ss ! slot_of h i) [0..<n]"

text \<open>How many are in the ring.\<close>

definition count :: "spsc \<Rightarrow> nat" where
  "count s = unat (q_tail (ring s) - q_head (ring s))"

definition producer_ok :: "spsc \<Rightarrow> bool" where
  "producer_ok s = (case prod s of
     PIdle \<Rightarrow> True
   | PTail sc t \<Rightarrow> t = q_tail (ring s)
   | PHead sc t h \<Rightarrow> t = q_tail (ring s) \<and> count s \<le> unat (t - h) \<and> unat (t - h) \<le> 64
   | PStored sc t \<Rightarrow> t = q_tail (ring s) \<and> count s < 64 \<and> slots (ring s) ! slot_of (q_head (ring s)) (count s) = sc)"

definition consumer_ok :: "spsc \<Rightarrow> bool" where
  "consumer_ok s = (case cons s of
     CIdle \<Rightarrow> True
   | CHead h \<Rightarrow> h = q_head (ring s)
   | CTail h t \<Rightarrow> h = q_head (ring s) \<and> unat (t - h) \<le> count s
   | CRead h v \<Rightarrow> h = q_head (ring s) \<and> 0 < count s \<and> v = slots (ring s) ! slot_of h 0)"

definition spsc_inv :: "spsc \<Rightarrow> bool" where
  "spsc_inv s \<longleftrightarrow> length (slots (ring s)) = 64 \<and> count s \<le> 64 \<and> producer_ok s \<and> consumer_ok s \<and>
     accepted s = taken s @ pending (q_head (ring s)) (count s) (slots (ring s))"

lemmas spsc_defs = spsc_inv_def producer_ok_def consumer_ok_def count_def

lemma tail_slot: "unat (t mod QUEUE_CAPACITY) = slot_of h (unat (t - h))"
  by (simp add: slot_of_def)

lemma slot_of_less: "i < j \<Longrightarrow> j < i + 64 \<Longrightarrow> slot_of h i \<noteq> slot_of h j"
proof
  assume a: "i < j" "j < i + 64" "slot_of h i = slot_of h j"
  then have "64 dvd (unat h + j) - (unat h + i)" by (subst mod_eq_dvd_iff_nat [symmetric]) (simp_all add: slot_of_exact)
  then have "64 dvd j - i" by simp
  then have "64 \<le> j - i" using a(1) by (intro dvd_imp_le) simp_all
  then show False using a(2) by simp
qed

lemma pending_Suc: "pending h (Suc n) ss = pending h n ss @ [ss ! slot_of h n]"
  by (simp add: pending_def)

lemma pending_pop: "0 < n \<Longrightarrow> pending h n ss = ss ! slot_of h 0 # pending (h + 1) (n - 1) ss"
proof -
  assume "0 < n"
  then have "[0..<n] = 0 # map Suc [0..<n - 1]" by (cases n) (simp_all add: map_Suc_upt upt_conv_Cons)
  then show ?thesis by (simp add: pending_def slot_of_def add.assoc)
qed

lemma pending_store:
  assumes "n < 64"
  shows "pending h n (ss[slot_of h n := sc]) = pending h n ss"
proof -
  have "ss[slot_of h n := sc] ! slot_of h i = ss ! slot_of h i" if "i < n" for i
    using slot_of_less [of i n h] that assms by (intro nth_list_update_neq) simp
  then show ?thesis by (simp add: pending_def)
qed

lemma spsc_inv_step: "spsc_step s s' \<Longrightarrow> spsc_inv s \<Longrightarrow> spsc_inv s'"
proof (induction rule: spsc_step.induct)
  case (store s sc t h)
  then have t: "t = q_tail (ring s)" "count s \<le> unat (t - h)" "unat (t - h) \<le> 64" "unat (t - h) \<noteq> 64"
    by (auto simp: spsc_inv_def producer_ok_def QUEUE_CAPACITY_def word_unat_eq_iff)
  have n: "count s < 64" using t by simp
  have sl: "unat (t mod QUEUE_CAPACITY) = slot_of (q_head (ring s)) (count s)" using t(1) tail_slot by (simp add: count_def)
  have z: "slot_of (q_head (ring s)) 0 \<noteq> slot_of (q_head (ring s)) (count s)" if "0 < count s" using slot_of_less [OF that] n by simp
  have b: "slot_of (q_head (ring s)) (count s) < 64" by (simp add: slot_of_exact)
  show ?case using store.prems n t(1) z b pending_store [OF n, of "q_head (ring s)" "slots (ring s)" sc] unfolding sl
    by (auto simp: spsc_defs nth_list_update split: consumer.splits)
next
  case (announce s sc t)
  then have t: "t = q_tail (ring s)" "count s < 64" "slots (ring s) ! slot_of (q_head (ring s)) (count s) = sc"
    by (auto simp: spsc_inv_def producer_ok_def)
  have n: "unat (t + 1 - q_head (ring s)) = Suc (count s)"
  proof -
    have "unat (t - q_head (ring s) + 1) = unat (t - q_head (ring s)) + 1" using t(1,2) by (subst unat_add_exact) (simp_all add: count_def)
    then show ?thesis using t(1) by (simp add: count_def diff_add_eq)
  qed
  show ?case using announce.prems t n pending_Suc [of "q_head (ring s)" "count s" "slots (ring s)"]
    by (auto simp: spsc_inv_def producer_ok_def consumer_ok_def count_def split: consumer.splits)
next
  case (pop_done s h v)
  then have h: "h = q_head (ring s)" "0 < count s" "v = slots (ring s) ! slot_of h 0" by (auto simp: spsc_inv_def consumer_ok_def)
  have n: "unat (q_tail (ring s) - (h + 1)) = count s - 1"
    using h(1,2) by (simp add: count_def diff_diff_eq [symmetric] unat_minus_one unat_gt_0)
  have "slot_of (h + 1) (count s - 1) = slot_of h (count s)" using h(2) by (simp add: slot_of_def add.assoc)
  then show ?case using pop_done.prems h n pending_pop [OF h(2), of h "slots (ring s)"]
    by (auto simp: spsc_inv_def producer_ok_def consumer_ok_def count_def split: producer.splits)
next
  case (pop_read s h t)
  then have "0 < unat (t - h)" "unat (t - h) \<le> count s" by (auto simp: unat_gt_0 spsc_inv_def consumer_ok_def)
  then have "0 < count s" by simp
  then show ?case using pop_read by (auto simp: spsc_defs slot_of_def split: producer.splits)
qed (auto simp: spsc_defs slot_of_def split: producer.splits consumer.splits)

section \<open>Properties\<close>

lemma spsc_new_inv: "spsc_inv spsc_new"
  by (simp add: spsc_defs spsc_new_def queue_new_def QUEUE_CAPACITY_def pending_def)

text \<open>
  C35. No scancode is lost, repeated, changed or reordered in the ring, however the interrupt handler and the reader
  interleave, access by access, and whatever the wrapping counters are at: what the reader has taken, followed by
  the at most 64 codes that wait, is exactly what the handler has put in.
\<close>

theorem scancodes_in_order:
  assumes "spsc_step\<^sup>*\<^sup>* spsc_new s"
  shows "\<exists>waiting. accepted s = taken s @ waiting \<and> length waiting \<le> 64"
proof -
  have "spsc_inv s" using assms by (induction rule: rtranclp_induct) (auto intro: spsc_inv_step spsc_new_inv)
  then show ?thesis by (auto simp: spsc_inv_def pending_def)
qed

theorem scancodes_in_order_witness:
  "\<exists>s waiting. spsc_step\<^sup>*\<^sup>* spsc_new s \<and> accepted s = [7] \<and> accepted s = taken s @ waiting"
proof -
  let ?s1 = "spsc_new\<lparr>prod := PTail 7 0\<rparr>" and ?s2 = "spsc_new\<lparr>prod := PHead 7 0 0\<rparr>"
  let ?s3 = "spsc_new\<lparr>ring := queue_new\<lparr>slots := (slots queue_new)[0 := 7]\<rparr>, prod := PStored 7 0\<rparr>"
  let ?s4 = "spsc_new\<lparr>ring := queue_new\<lparr>slots := (slots queue_new)[0 := 7], q_tail := 1\<rparr>, accepted := [7]\<rparr>"
  have "spsc_step spsc_new ?s1" using spsc_step.load_tail [of spsc_new 7] by (simp add: spsc_new_def queue_new_def)
  moreover have "spsc_step ?s1 ?s2" using spsc_step.load_head [of ?s1 7 0] by (simp add: spsc_new_def queue_new_def)
  moreover have "spsc_step ?s2 ?s3" using spsc_step.store [of ?s2 7 0 0] by (simp add: spsc_new_def queue_new_def QUEUE_CAPACITY_def)
  moreover have "spsc_step ?s3 ?s4" using spsc_step.announce [of ?s3 7 0] by (simp add: spsc_new_def queue_new_def)
  ultimately have r: "spsc_step\<^sup>*\<^sup>* spsc_new ?s4" by (meson converse_rtranclp_into_rtranclp rtranclp.rtrancl_refl)
  show ?thesis using scancodes_in_order [OF r] r by (intro exI [of _ ?s4]) (auto simp: spsc_new_def)
qed

text \<open>Left alone, the accesses of the two sides are the two operations of the ring.\<close>

lemma push_alone:
  assumes "prod s = PIdle" "queue_push sc (ring s) = (ok, q)"
  shows "spsc_step\<^sup>*\<^sup>* s (s\<lparr>ring := q, accepted := accepted s @ (if ok then [sc] else [])\<rparr>)"
proof -
  let ?t = "q_tail (ring s)" and ?h = "q_head (ring s)"
  have a: "spsc_step s (s\<lparr>prod := PTail sc ?t\<rparr>)" using spsc_step.load_tail [OF assms(1)] .
  have b: "spsc_step (s\<lparr>prod := PTail sc ?t\<rparr>) (s\<lparr>prod := PHead sc ?t ?h\<rparr>)"
    using spsc_step.load_head [of "s\<lparr>prod := PTail sc ?t\<rparr>" sc ?t] by simp
  note ab = rtranclp.rtrancl_into_rtrancl [OF r_into_rtranclp [of spsc_step, OF a] b]
  have idle: "s\<lparr>prod := PIdle\<rparr> = s" using assms(1) by (cases s) simp
  show ?thesis
  proof (cases ok)
    case False
    then have f: "?t - ?h = QUEUE_CAPACITY" "q = ring s" using assms(2) by (auto simp: queue_push_def split: if_splits)
    have "spsc_step (s\<lparr>prod := PHead sc ?t ?h\<rparr>) s" using spsc_step.full [of "s\<lparr>prod := PHead sc ?t ?h\<rparr>" sc ?t ?h] f idle by simp
    then show ?thesis using rtranclp.rtrancl_into_rtrancl [OF ab] False f by simp
  next
    case True
    then have f: "?t - ?h \<noteq> QUEUE_CAPACITY"
      "q = (ring s)\<lparr>slots := (slots (ring s))[unat (?t mod QUEUE_CAPACITY) := sc], q_tail := ?t + 1\<rparr>"
      using assms(2) by (auto simp: queue_push_def split: if_splits)
    let ?u = "s\<lparr>ring := (ring s)\<lparr>slots := (slots (ring s))[unat (?t mod QUEUE_CAPACITY) := sc]\<rparr>, prod := PStored sc ?t\<rparr>"
    have c: "spsc_step (s\<lparr>prod := PHead sc ?t ?h\<rparr>) ?u" using spsc_step.store [of "s\<lparr>prod := PHead sc ?t ?h\<rparr>" sc ?t ?h] f by simp
    have d: "spsc_step ?u (s\<lparr>ring := q, accepted := accepted s @ [sc]\<rparr>)" using spsc_step.announce [of ?u sc ?t] f assms(1) by (cases s) simp
    show ?thesis using rtranclp.rtrancl_into_rtrancl [OF rtranclp.rtrancl_into_rtrancl [OF ab c] d] True by simp
  qed
qed

section \<open>Typing\<close>

text \<open>The codes a keyboard sends for a character of the table: with a shift around it if it needs one.\<close>

definition plain_codes :: "u8 \<Rightarrow> u8 list" where
  "plain_codes c = [c, c OR BREAK_BIT]"

definition codes_of :: "u8 \<times> bool \<Rightarrow> u8 list" where
  "codes_of = (\<lambda>(c, shift). if shift then SC_LEFT_SHIFT # plain_codes c @ [SC_LEFT_SHIFT OR BREAK_BIT] else plain_codes c)"

definition char_key :: "u8 \<times> bool \<Rightarrow> console_key" where
  "char_key = (\<lambda>(c, shift). KeyChar (ucast ((if shift then snd else fst) (KEY_TABLE ! unat c))))"

definition prints :: "u8 \<times> bool \<Rightarrow> bool" where
  "prints = (\<lambda>(c, shift). unat c < 58 \<and> fst (KEY_TABLE ! unat c) \<noteq> 0)"

fun decode :: "u8 list \<Rightarrow> decoder \<Rightarrow> console_key list \<times> decoder" where
  "decode [] d = ([], d)"
| "decode (sc # scs) d =
     (case feed sc d of (key, d) \<Rightarrow> case decode scs d of (keys, d) \<Rightarrow> ((case key of Some k \<Rightarrow> [k] | None \<Rightarrow> []) @ keys, d))"

lemma decode_append: "decode (xs @ ys) d = (case decode xs d of (ks, d) \<Rightarrow> case decode ys d of (ls, d) \<Rightarrow> (ks @ ls, d))"
  by (induction xs arbitrary: d) (auto split: prod.splits)

lemma length_KEY_TABLE: "length KEY_TABLE = 58"
  by (simp add: KEY_TABLE_def)

lemma bit_BREAK_BIT: "bit BREAK_BIT n \<longleftrightarrow> n = 7"
proof -
  have "BREAK_BIT = 2 ^ 7" by (simp add: BREAK_BIT_def)
  moreover have "bit (2 ^ 7 :: u8) n \<longleftrightarrow> n = 7" unfolding bit_exp_iff by auto
  ultimately show ?thesis by simp
qed

text \<open>A code of the table is none of those with a meaning of their own.\<close>

lemma table_codes:
  assumes "unat c < 58" "fst (KEY_TABLE ! unat c) \<noteq> 0"
  shows "c AND BREAK_BIT = 0" "c AND NOT BREAK_BIT = c" "(c OR BREAK_BIT) AND BREAK_BIT \<noteq> 0" "(c OR BREAK_BIT) AND NOT BREAK_BIT = c"
    "c \<notin> {PREFIX_EXTENDED, SC_LEFT_SHIFT, SC_RIGHT_SHIFT, SC_BACKSPACE, SC_ENTER}" "c OR BREAK_BIT \<noteq> PREFIX_EXTENDED"
proof -
  have "take_bit 7 (unat c) = unat c" using assms(1) by (intro take_bit_nat_eq_self) simp
  then have "take_bit 7 c = c" by (simp add: word_unat_eq_iff unsigned_take_bit_eq)
  then have hi: "\<not> bit c 7" by (metis bit_take_bit_iff less_irrefl)
  show "c AND BREAK_BIT = 0" using hi by (intro bit_word_eqI) (auto simp: bit_simps bit_BREAK_BIT)
  show nb: "c AND NOT BREAK_BIT = c" using hi by (intro bit_word_eqI) (auto simp: bit_simps bit_BREAK_BIT)
  have "bit ((c OR BREAK_BIT) AND BREAK_BIT) 7" by (simp add: bit_simps bit_BREAK_BIT)
  then show "(c OR BREAK_BIT) AND BREAK_BIT \<noteq> 0" by auto
  show mk: "(c OR BREAK_BIT) AND NOT BREAK_BIT = c" using hi by (intro bit_word_eqI) (auto simp: bit_simps bit_BREAK_BIT)
  show "c \<notin> {PREFIX_EXTENDED, SC_LEFT_SHIFT, SC_RIGHT_SHIFT, SC_BACKSPACE, SC_ENTER}"
    using assms by (auto simp: PREFIX_EXTENDED_def SC_LEFT_SHIFT_def SC_RIGHT_SHIFT_def SC_BACKSPACE_def SC_ENTER_def KEY_TABLE_def)
  show "c OR BREAK_BIT \<noteq> PREFIX_EXTENDED"
  proof
    assume "c OR BREAK_BIT = PREFIX_EXTENDED"
    then have "c = 0x60" using mk by (simp add: PREFIX_EXTENDED_def BREAK_BIT_def)
    then show False using assms(1) by simp
  qed
qed

lemma decode_plain:
  assumes "unat c < 58" "fst (KEY_TABLE ! unat c) \<noteq> 0" "\<not> expecting_extended d"
  shows "decode (plain_codes c) d = ([table_key (left_shift d \<or> right_shift d) c], d)"
proof -
  note T = table_codes [OF assms(1,2)]
  have e: "d\<lparr>expecting_extended := False\<rparr> = d" using assms(3) by (cases d) simp
  have a: "feed c d = (Some (table_key (left_shift d \<or> right_shift d) c), d)"
    using T(1,2,5) assms(3) by (simp add: feed_def Let_def e)
  have b: "feed (c OR BREAK_BIT) d = (None, d)"
    using T(3-6) assms(3) by (simp add: feed_def Let_def e)
  show ?thesis by (simp add: plain_codes_def a b)
qed

lemma decode_char:
  assumes "prints k"
  shows "decode (codes_of k) decoder_new = ([char_key k], decoder_new)"
proof -
  obtain c shift where k: "k = (c, shift)" by fastforce
  have c: "unat c < 58" "fst (KEY_TABLE ! unat c) \<noteq> 0" using assms by (simp_all add: prints_def k)
  let ?d = "decoder_new\<lparr>left_shift := True\<rparr>"
  have down: "feed SC_LEFT_SHIFT decoder_new = (None, ?d)" "feed (SC_LEFT_SHIFT OR BREAK_BIT) ?d = (None, decoder_new)"
    by (simp_all add: feed_def Let_def decoder_new_def SC_LEFT_SHIFT_def BREAK_BIT_def PREFIX_EXTENDED_def)
  have p: "decode (plain_codes c) decoder_new = ([table_key False c], decoder_new)" "decode (plain_codes c) ?d = ([table_key True c], ?d)"
    using decode_plain [OF c, of decoder_new] decode_plain [OF c, of ?d] by (simp_all add: decoder_new_def)
  have "table_key shift c = char_key (c, shift)" using c by (simp add: table_key_def char_key_def length_KEY_TABLE)
  then show ?thesis by (cases shift) (simp_all add: k codes_of_def decode_append down p)
qed

text \<open>What waits in a ring, and reading until no key is left.\<close>

definition contents :: "scancode_queue \<Rightarrow> u8 list" where
  "contents q = pending (q_head q) (unat (q_tail q - q_head q)) (slots q)"

lemma pop_contents:
  assumes "queue_pop q = (r, q')"
  shows "contents q = (case r of None \<Rightarrow> [] | Some sc \<Rightarrow> sc # contents q')"
proof (cases "q_head q = q_tail q")
  case True
  then show ?thesis using assms by (auto simp: queue_pop_def contents_def pending_def)
next
  case False
  have n: "unat (q_tail q - (q_head q + 1)) = unat (q_tail q - q_head q) - 1" "0 < unat (q_tail q - q_head q)"
    using False by (simp_all add: diff_diff_eq [symmetric] unat_minus_one unat_gt_0)
  have "r = Some (slots q ! slot_of (q_head q) 0)" "q' = q\<lparr>q_head := q_head q + 1\<rparr>"
    using assms False by (simp_all add: queue_pop_def slot_of_def)
  then show ?thesis using pending_pop [OF n(2), of "q_head q" "slots q"] n(1) by (simp add: contents_def)
qed

lemma read_key_decodes:
  "read_key_from d q = (r, d', q') \<Longrightarrow>
     decode (contents q) d = (case r of None \<Rightarrow> ([], d') | Some k \<Rightarrow> (case decode (contents q') d' of (ks, d) \<Rightarrow> (k # ks, d)))"
proof (induction d q rule: read_key_from.induct)
  case (1 d q)
  obtain x q1 where p: "queue_pop q = (x, q1)" by fastforce
  show ?case
  proof (cases x)
    case None
    then show ?thesis using 1(2) p pop_contents [OF p] by auto
  next
    case (Some sc)
    obtain k d1 where f: "feed sc d = (k, d1)" by fastforce
    show ?thesis using 1(1) [OF p [symmetric] Some f [symmetric]] 1(2) p Some f pop_contents [OF p]
      by (cases k) (auto split: prod.splits)
  qed
qed

lemma read_key_shrinks:
  "read_key_from d q = (Some k, d', q') \<Longrightarrow> unat (q_tail q' - q_head q') < unat (q_tail q - q_head q)"
proof (induction d q rule: read_key_from.induct)
  case (1 d q)
  obtain x q1 where p: "queue_pop q = (x, q1)" by fastforce
  then obtain sc where x: "x = Some sc" using 1(2) by (cases x) auto
  note s = pop_shrinks [OF p [unfolded x]]
  obtain r d1 where f: "feed sc d = (r, d1)" by fastforce
  show ?case using 1(1) [OF p [symmetric] x f [symmetric]] 1(2) p x f s by (cases r) auto
qed

function read_all :: "decoder \<Rightarrow> scancode_queue \<Rightarrow> console_key list \<times> decoder" where
  "read_all d q = (case read_key_from d q of
      (None, d, q) \<Rightarrow> ([], d)
    | (Some k, d, q) \<Rightarrow> (case read_all d q of (ks, d) \<Rightarrow> (k # ks, d)))"
  by pat_completeness auto

termination
  by (relation "measure (\<lambda>(d, q). unat (q_tail q - q_head q))") (auto simp del: read_key_from.simps dest: read_key_shrinks [OF sym])

lemma read_all_decodes: "read_all d q = decode (contents q) d"
proof (induction d q rule: read_all.induct)
  case (1 d q)
  obtain r d1 q1 where k: "read_key_from d q = (r, d1, q1)" by (metis prod_cases3)
  show ?case using 1 [OF k [symmetric] _ refl] read_key_decodes [OF k] k by (cases r) (auto simp del: read_key_from.simps split: prod.splits)
qed

lemma contents_push:
  assumes "unat (q_tail q - q_head q) < 64" "length (slots q) = 64"
  shows "\<exists>q'. queue_push sc q = (True, q') \<and> contents q' = contents q @ [sc] \<and> length (slots q') = 64"
proof -
  let ?n = "unat (q_tail q - q_head q)"
  have "q_tail q - q_head q \<noteq> QUEUE_CAPACITY" using assms(1) by (auto simp: QUEUE_CAPACITY_def)
  moreover have "unat (q_tail q + 1 - q_head q) = Suc ?n"
  proof -
    have "unat (q_tail q - q_head q + 1) = ?n + 1" using assms(1) by (subst unat_add_exact) simp_all
    then show ?thesis by (simp add: diff_add_eq)
  qed
  moreover have "slot_of (q_head q) ?n < length (slots q)" using assms(2) by (simp add: slot_of_exact)
  ultimately show ?thesis using assms pending_store [OF assms(1)] tail_slot [of "q_tail q" "q_head q"]
    by (simp add: queue_push_def contents_def pending_Suc)
qed



end
