(* ===== verification/Pe.thy ===== *)
theory Pe
  imports Elf Virtio
begin

text \<open>
  The PE image of the kernel: finding the code inside it and its relocation table (\<^verbatim>\<open>hal/src/pe.rs\<close>), and
  applying the table when the kernel moves to the upper half (\<open>relocate\<close> of
  \<^verbatim>\<open>kernel/src/memory/higher_half.rs\<close>). The image is the list of its bytes; an offset is a \<open>usize\<close> of
  64 bits, and a slice out of range is a panic. The iterator over the relocations keeps positions in the
  image and reads it anew on every step, because \<open>relocate\<close> writes the bytes it walks over.
\<close>

section \<open>The format\<close>

definition LFANEW :: usize where "LFANEW = 0x3C"
definition NUMBER_OF_SECTIONS :: usize where "NUMBER_OF_SECTIONS = 6"
definition SIZE_OF_OPTIONAL_HEADER :: usize where "SIZE_OF_OPTIONAL_HEADER = 20"
definition OPTIONAL_HEADER :: usize where "OPTIONAL_HEADER = 24"
definition SECTION_SIZE :: usize where "SECTION_SIZE = 40"
definition SECTION_VIRTUAL_SIZE :: usize where "SECTION_VIRTUAL_SIZE = 8"
definition SECTION_VIRTUAL_ADDRESS :: usize where "SECTION_VIRTUAL_ADDRESS = 12"
definition SECTION_CHARACTERISTICS :: usize where "SECTION_CHARACTERISTICS = 36"
definition DATA_DIRECTORIES :: usize where "DATA_DIRECTORIES = OPTIONAL_HEADER + 112"
definition BASE_RELOCATION_DIRECTORY :: usize where "BASE_RELOCATION_DIRECTORY = 5"
definition DATA_DIRECTORY_SIZE :: usize where "DATA_DIRECTORY_SIZE = 8"
definition PE_SIGNATURE :: bytes where "PE_SIGNATURE = [0x50, 0x45, 0, 0]"
definition MAGIC_PE32_PLUS :: u16 where "MAGIC_PE32_PLUS = 0x20B"
definition EXECUTABLE :: u32 where "EXECUTABLE = 0x20000000"
definition RELOCATION_ABSOLUTE :: u16 where "RELOCATION_ABSOLUTE = 0"
definition RELOCATION_DIR64 :: u16 where "RELOCATION_DIR64 = 10"
definition RELOCATION_BLOCK_HEADER :: usize where "RELOCATION_BLOCK_HEADER = 8"
definition MAX_CODE_SECTIONS :: usize where "MAX_CODE_SECTIONS = 4"

lemmas pe_offsets = LFANEW_def NUMBER_OF_SECTIONS_def SIZE_OF_OPTIONAL_HEADER_def OPTIONAL_HEADER_def SECTION_SIZE_def
  SECTION_VIRTUAL_SIZE_def SECTION_VIRTUAL_ADDRESS_def SECTION_CHARACTERISTICS_def DATA_DIRECTORIES_def
  BASE_RELOCATION_DIRECTORY_def DATA_DIRECTORY_SIZE_def PE_SIGNATURE_def MAGIC_PE32_PLUS_def EXECUTABLE_def
  RELOCATION_ABSOLUTE_def RELOCATION_DIR64_def RELOCATION_BLOCK_HEADER_def MAX_CODE_SECTIONS_def

datatype pe_error =
    PeTruncated
  | NotPe32Plus
  | NoCode
  | TooManySections
  | RelocationOutsideImage u64
  | NotRelocatable
  | UnsupportedRelocation u16

definition usize_checked_add :: "usize \<Rightarrow> usize \<Rightarrow> usize option" where
  "usize_checked_add a b = (if a + b < 2 ^ 64 then Some (a + b) else None)"

definition pe_read_u16 :: "bytes \<Rightarrow> usize \<Rightarrow> pe_error + u16" where
  "pe_read_u16 img at = (if at + 2 \<le> length img then Inr (u16_at img at) else Inl PeTruncated)"

definition pe_read_u32 :: "bytes \<Rightarrow> usize \<Rightarrow> pe_error + u32" where
  "pe_read_u32 img at = (if at + 4 \<le> length img then Inr (u32_at img at) else Inl PeTruncated)"

definition signature_offset :: "bytes \<Rightarrow> pe_error + usize" where
  "signature_offset img =
     and_then (pe_read_u32 img LFANEW) (\<lambda>at.
       let signature = unat at in
       and_then (ok_or PeTruncated (usize_checked_add signature (length PE_SIGNATURE))) (\<lambda>e.
         if length img < e then Inl PeTruncated
         else if take (e - signature) (drop signature img) \<noteq> PE_SIGNATURE then Inl NotPe32Plus
         else and_then (pe_read_u16 img (signature + OPTIONAL_HEADER)) (\<lambda>magic.
           if magic \<noteq> MAGIC_PE32_PLUS then Inl NotPe32Plus else Inr signature)))"

section \<open>The code\<close>

text \<open>The loop over the section table; \<open>kept\<close> (the array \<open>found\<close>) are the slots in use, as offset and length.\<close>

fun sections_loop :: "bytes \<Rightarrow> usize \<Rightarrow> usize list \<Rightarrow> (u64 \<times> u64) list \<Rightarrow> pe_error + (u64 \<times> u64) list" where
  "sections_loop img table [] kept = Inr kept"
| "sections_loop img table (index # indices) kept =
     and_then (ok_or PeTruncated (usize_checked_add table (index * SECTION_SIZE))) (\<lambda>header.
     and_then (pe_read_u32 img (header + SECTION_CHARACTERISTICS)) (\<lambda>characteristics.
       if characteristics AND EXECUTABLE = 0 then sections_loop img table indices kept
       else and_then (pe_read_u32 img (header + SECTION_VIRTUAL_ADDRESS)) (\<lambda>start.
         and_then (pe_read_u32 img (header + SECTION_VIRTUAL_SIZE)) (\<lambda>len.
           if len = 0 then sections_loop img table indices kept
           else if length kept = MAX_CODE_SECTIONS then Inl TooManySections
           else sections_loop img table indices (kept @ [(ucast start, ucast len)])))))"

definition code_sections :: "bytes \<Rightarrow> pe_error + (u64 \<times> u64) list" where
  "code_sections img =
     and_then (signature_offset img) (\<lambda>signature.
     and_then (pe_read_u16 img (signature + NUMBER_OF_SECTIONS)) (\<lambda>count.
     and_then (pe_read_u16 img (signature + SIZE_OF_OPTIONAL_HEADER)) (\<lambda>optional_size.
     and_then (ok_or PeTruncated (usize_checked_add (signature + OPTIONAL_HEADER) (unat optional_size))) (\<lambda>table.
     and_then (sections_loop img table [0..<unat count] []) (\<lambda>kept.
       if kept = [] then Inl NoCode else Inr kept)))))"

definition total_bytes :: "(u64 \<times> u64) list \<Rightarrow> u64" where
  "total_bytes sections = sum_list (map snd sections)"

text \<open>\<open>CodeSections::at\<close>: the sections where the firmware put the img.\<close>

fun place_sections :: "phys_addr \<Rightarrow> (u64 \<times> u64) list \<Rightarrow> phys_range list option" where
  "place_sections base [] = Some []"
| "place_sections base ((offset, len) # sections) =
     (case phys_checked_add base offset of
        None \<Rightarrow> None
      | Some start \<Rightarrow>
          (case phys_checked_add start len of
             None \<Rightarrow> None
           | Some _ \<Rightarrow> map_option ((#) \<lparr>range_start = start, range_len = len\<rparr>) (place_sections base sections)))"

section \<open>The relocation table\<close>

text \<open>\<open>Relocations\<close> borrows the table's bytes of the img: here, where they are.\<close>

record relocation_table =
  blocks_from :: usize
  blocks_to :: usize

fun check_entries :: "bytes \<Rightarrow> u32 \<Rightarrow> u16 list \<Rightarrow> pe_error + unit" where
  "check_entries img page [] = Inr ()"
| "check_entries img page (value # vs) =
     (let kind = drop_bit 12 value in
      if kind = RELOCATION_ABSOLUTE then check_entries img page vs
      else if kind \<noteq> RELOCATION_DIR64 then Inl (UnsupportedRelocation kind)
      else let at = ucast page + ucast (value AND 0xFFF) in
        if (case checked_add at 8 of Some e \<Rightarrow> e \<le> of_nat (length img) | None \<Rightarrow> False)
        then check_entries img page vs else Inl (RelocationOutsideImage at))"

text \<open>The entries between two offsets: the whole chunks of two bytes.\<close>

definition entries_between :: "bytes \<Rightarrow> usize \<Rightarrow> usize \<Rightarrow> u16 list" where
  "entries_between img from to = map (\<lambda>i. u16_at img (from + 2 * i)) [0..<(to - from) div 2]"

text \<open>The walk over the blocks; \<open>rest\<close> is the slice from \<open>at\<close> to \<open>to\<close>.\<close>

function check_blocks :: "bytes \<Rightarrow> usize \<Rightarrow> usize \<Rightarrow> pe_error + unit" where
  "check_blocks img at to =
     (if to \<le> at then Inr ()
      else if to < at + RELOCATION_BLOCK_HEADER then Inl PeTruncated
      else let page = u32_at img at; block = unat (u32_at img (at + 4)) in
        if block < RELOCATION_BLOCK_HEADER \<or> to - at < block \<or> block mod 2 \<noteq> 0 then Inl PeTruncated
        else and_then (check_entries img page (entries_between img (at + RELOCATION_BLOCK_HEADER) (at + block))) (\<lambda>_.
          check_blocks img (at + block) to))"
  by pat_completeness auto

termination
  by (relation "measure (\<lambda>(img, at, to). to - at)") (auto simp: RELOCATION_BLOCK_HEADER_def)

definition relocations :: "bytes \<Rightarrow> pe_error + relocation_table" where
  "relocations img =
     and_then (signature_offset img) (\<lambda>signature.
       let directory = signature + DATA_DIRECTORIES + BASE_RELOCATION_DIRECTORY * DATA_DIRECTORY_SIZE in
       and_then (pe_read_u32 img directory) (\<lambda>start.
       and_then (pe_read_u32 img (directory + 4)) (\<lambda>sz.
         if start = 0 \<or> sz = 0 then Inl NotRelocatable
         else and_then (ok_or PeTruncated (usize_checked_add (unat start) (unat sz))) (\<lambda>e.
           if length img < e then Inl PeTruncated
           else and_then (check_blocks img (unat start) e) (\<lambda>_.
             Inr \<lparr>blocks_from = unat start, blocks_to = e\<rparr>)))))"

text \<open>The iterator's captured variables, and one call of it.\<close>

record reloc_iter =
  it_blocks :: usize
  it_end :: usize
  it_entries :: usize
  it_entries_end :: usize
  it_page :: u32

definition reloc_iter_new :: "relocation_table \<Rightarrow> reloc_iter" where
  "reloc_iter_new t = \<lparr>it_blocks = blocks_from t, it_end = blocks_to t, it_entries = 0, it_entries_end = 0, it_page = 0\<rparr>"

function reloc_next :: "bytes \<Rightarrow> reloc_iter \<Rightarrow> panic + u64 option \<times> reloc_iter" where
  "reloc_next img it =
     (if it_entries it + 2 \<le> it_entries_end it then
        (let value = u16_at img (it_entries it); it = it\<lparr>it_entries := it_entries it + 2\<rparr> in
         if drop_bit 12 value = RELOCATION_ABSOLUTE then reloc_next img it
         else Inr (Some (ucast (it_page it) + ucast (value AND 0xFFF)), it))
      else if it_end it < it_blocks it + RELOCATION_BLOCK_HEADER then Inr (None, it)
      else let page = u32_at img (it_blocks it); sz = unat (u32_at img (it_blocks it + 4)) in
        if sz < RELOCATION_BLOCK_HEADER \<or> it_end it < it_blocks it + sz then Inl (Panic ''slice index out of range'')
        else reloc_next img \<lparr>it_blocks = it_blocks it + sz, it_end = it_end it,
               it_entries = it_blocks it + RELOCATION_BLOCK_HEADER, it_entries_end = it_blocks it + sz, it_page = page\<rparr>)"
  by pat_completeness auto

termination
  by (relation "measures [\<lambda>(img, it). it_end it - it_blocks it, \<lambda>(img, it). it_entries_end it - it_entries it]")
    (auto simp: RELOCATION_BLOCK_HEADER_def)

declare check_blocks.simps [simp del] reloc_next.simps [simp del]

lemma reloc_next_shrinks:
  "reloc_next img it = Inr (Some rva, it') \<Longrightarrow>
     (it', it) \<in> measures [\<lambda>it. it_end it - it_blocks it, \<lambda>it. it_entries_end it - it_entries it]"
proof (induction img it rule: reloc_next.induct)
  case (1 img it)
  show ?case
  proof (cases "it_entries it + 2 \<le> it_entries_end it")
    case True
    let ?v = "u16_at img (it_entries it)" and ?i = "it\<lparr>it_entries := it_entries it + 2\<rparr>"
    have r: "reloc_next img it = (if drop_bit 12 ?v = RELOCATION_ABSOLUTE then reloc_next img ?i
        else Inr (Some (ucast (it_page it) + ucast (?v AND 0xFFF)), ?i))"
      using True by (subst reloc_next.simps) (simp add: Let_def)
    show ?thesis using 1(1) [OF True refl refl] 1(3) True by (auto simp: r split: if_splits)
  next
    case False
    let ?sz = "unat (u32_at img (it_blocks it + 4))"
    let ?i = "\<lparr>it_blocks = it_blocks it + ?sz, it_end = it_end it, it_entries = it_blocks it + RELOCATION_BLOCK_HEADER,
      it_entries_end = it_blocks it + ?sz, it_page = u32_at img (it_blocks it)\<rparr>"
    have "reloc_next img it = (if it_end it < it_blocks it + RELOCATION_BLOCK_HEADER then Inr (None, it)
       else if ?sz < RELOCATION_BLOCK_HEADER \<or> it_end it < it_blocks it + ?sz then Inl (Panic ''slice index out of range'')
       else reloc_next img ?i)"
      using False by (subst reloc_next.simps) (simp add: Let_def)
    then have c: "\<not> it_end it < it_blocks it + RELOCATION_BLOCK_HEADER" "\<not> (?sz < RELOCATION_BLOCK_HEADER \<or> it_end it < it_blocks it + ?sz)"
      "reloc_next img ?i = Inr (Some rva, it')"
      using 1(3) by (auto split: if_splits)
    show ?thesis using 1(2) [OF False c(1) refl refl c(2,3)] c(1,2) by (auto simp: RELOCATION_BLOCK_HEADER_def)
  qed
qed

section \<open>Applying it\<close>

definition add_at :: "u64 \<Rightarrow> u64 \<Rightarrow> bytes \<Rightarrow> bytes" where
  "add_at delta rva img = copy_at img (unat rva) (u64_to_le (u64_at img (unat rva) + delta))"

function relocate_loop :: "u64 \<Rightarrow> bytes \<Rightarrow> reloc_iter \<Rightarrow> nat \<Rightarrow> panic + nat \<times> bytes" where
  "relocate_loop delta img it applied =
     (case reloc_next img it of
        Inl p \<Rightarrow> Inl p
      | Inr (None, it) \<Rightarrow> Inr (applied, img)
      | Inr (Some rva, it) \<Rightarrow>
          if \<not> unat rva + 8 \<le> length img then Inl (Panic ''assertion failed: rva + 8 <= image.len'')
          else relocate_loop delta (add_at delta rva img) it (applied + 1))"
  by pat_completeness auto

termination
  by (relation "inv_image (measures [\<lambda>it. it_end it - it_blocks it, \<lambda>it. it_entries_end it - it_entries it]) (\<lambda>(delta, img, it, applied). it)")
    (use reloc_next_shrinks in \<open>fastforce intro: wf_inv_image wf_measures\<close>)+

definition relocate :: "u64 \<Rightarrow> bytes \<Rightarrow> panic + (pe_error + nat \<times> bytes)" where
  "relocate delta img =
     (case relocations img of
        Inl e \<Rightarrow> Inr (Inl e)
      | Inr t \<Rightarrow> (case relocate_loop delta img (reloc_iter_new t) 0 of Inl p \<Rightarrow> Inl p | Inr r \<Rightarrow> Inr (Inr r)))"

declare relocate_loop.simps [simp del]

section \<open>What is found\<close>

text \<open>A header of the section table, as its characteristics, start and length.\<close>

definition section_at :: "bytes \<Rightarrow> usize \<Rightarrow> usize \<Rightarrow> u32 \<times> u32 \<times> u32" where
  "section_at img table i = (let h = table + i * 40 in (u32_at img (h + 36), u32_at img (h + 12), u32_at img (h + 8)))"

definition is_code :: "u32 \<times> u32 \<times> u32 \<Rightarrow> bool" where
  "is_code = (\<lambda>(characteristics, start, len). characteristics AND EXECUTABLE \<noteq> 0 \<and> len \<noteq> 0)"

definition code_of :: "bytes \<Rightarrow> usize \<Rightarrow> usize list \<Rightarrow> (u64 \<times> u64) list" where
  "code_of img table is = map (\<lambda>(characteristics, start, len). (ucast start, ucast len)) (filter is_code (map (section_at img table) is))"

lemma sections_loop_exact:
  "sections_loop img table is kept = Inr ss \<Longrightarrow> length kept \<le> 4 \<Longrightarrow> ss = kept @ code_of img table is \<and> length ss \<le> 4"
proof (induction "is" arbitrary: kept)
  case (Cons i "is")
  let ?h = "table + i * 40"
  let ?c = "u32_at img (?h + 36)" and ?s = "u32_at img (?h + 12)" and ?l = "u32_at img (?h + 8)"
  have one: "code_of img table (i # is) = (if is_code (?c, ?s, ?l) then [(ucast ?s, ucast ?l)] else []) @ code_of img table is"
    by (simp add: code_of_def section_at_def Let_def)
  from Cons.prems(1) show ?case
    unfolding sections_loop.simps and_then_Inr_iff ok_or_Inr_iff usize_checked_add_def pe_read_u32_def pe_offsets
    using Cons.IH [of kept] Cons.IH [of "kept @ [(ucast ?s, ucast ?l)]"] Cons.prems(2) unfolding one
    by (auto simp: is_code_def EXECUTABLE_def and_then_Inr_iff pe_read_u32_def split: if_splits)
qed (simp add: code_of_def)

section \<open>Examples\<close>

text \<open>An image with one section of code, \<open>table\<close> as its relocation table at offset 248, and whatever follows.\<close>

definition sample_image :: "u8 \<Rightarrow> bytes \<Rightarrow> bytes" where
  "sample_image sz rest = replicate 60 0 @ [64, 0, 0, 0, 0x50, 0x45, 0, 0] @ replicate 2 0 @ [1, 0] @ replicate 12 0 @ [0xB8, 0, 0, 0, 0x0B, 0x02] @
     replicate 150 0 @ [248, 0, 0, 0, sz, 0, 0, 0] @ rest"

definition sample_section :: bytes where
  "sample_section = replicate 8 0 @ [0, 0x20, 0, 0, 0, 0x10, 0, 0] @ replicate 20 0 @ [0x20, 0, 0, 0x60]"

definition movable :: bytes where
  "movable = sample_image 12 ([0, 0, 0, 0, 12, 0, 0, 0, 0x08, 0xA1, 0, 0, 0, 0, 0, 0, 0, 0x10, 0, 0x70, 0, 0, 0, 0] @ sample_section)"

lemmas sample_defs = movable_def sample_image_def sample_section_def nth_append

lemma movable_reads:
  "length movable = 312" "u32_at movable 60 = 64" "u16_at movable 88 = 0x20B" "u16_at movable 70 = 1" "u16_at movable 84 = 184"
  "u32_at movable 308 = 0x60000020" "u32_at movable 284 = 0x1000" "u32_at movable 280 = 0x2000" "u32_at movable 240 = 248"
  "u32_at movable 244 = 12" "u32_at movable 248 = 0" "u32_at movable 252 = 12" "u16_at movable 256 = 0xA108" "u16_at movable 258 = 0"
  "u64_at movable 264 = 0x70001000" "take 4 (drop 64 movable) = PE_SIGNATURE"
  by (simp_all add: sample_defs u16_at_def u32_at_def u64_at_def u16_from_le_def u32_from_le_def PE_SIGNATURE_def)

lemma movable_signature: "signature_offset movable = Inr 64"
proof -
  have "length PE_SIGNATURE = 4" by (simp add: PE_SIGNATURE_def)
  then show ?thesis
    by (simp add: signature_offset_def pe_read_u32_def pe_read_u16_def movable_reads LFANEW_def OPTIONAL_HEADER_def MAGIC_PE32_PLUS_def
        usize_checked_add_def Let_def)
qed

lemma movable_code: "code_sections movable = Inr [(0x1000, 0x2000)]"
  by (simp add: code_sections_def movable_signature pe_read_u16_def pe_read_u32_def pe_offsets movable_reads usize_checked_add_def
      upt_conv_Cons)

lemma movable_table: "relocations movable = Inr \<lparr>blocks_from = 248, blocks_to = 260\<rparr>"
proof -
  have e: "entries_between movable 256 260 = [0xA108, 0]"
    by (simp add: entries_between_def upt_conv_Cons movable_reads)
  have c: "check_entries movable 0 [0xA108, 0] = Inr ()"
    by (simp add: Let_def movable_reads checked_add_def RELOCATION_ABSOLUTE_def RELOCATION_DIR64_def)
  have "check_blocks movable 248 260 = Inr ()"
    using e c check_blocks.simps [of movable 260 260]
    by (subst check_blocks.simps) (simp add: Let_def movable_reads RELOCATION_BLOCK_HEADER_def)
  then show ?thesis by (simp add: relocations_def movable_signature pe_read_u32_def pe_offsets movable_reads usize_checked_add_def Let_def)
qed

text \<open>
  What the kernel may execute of its own image is what the image says is code: the sections that are found are
  exactly those of the section table that are executable and not empty, in their order; there are between one
  and four of them, and an image with more, or with none, is refused.
\<close>

theorem code_sections_exact:
  assumes "code_sections img = Inr sections"
  shows "\<exists>signature table count. signature_offset img = Inr signature \<and>
    table = signature + 24 + unat (u16_at img (signature + 20)) \<and> count = unat (u16_at img (signature + 6)) \<and>
    sections = code_of img table [0..<count] \<and> 1 \<le> length sections \<and> length sections \<le> 4"
proof -
  obtain signature where s: "signature_offset img = Inr signature"
    "sections_loop img (signature + 24 + unat (u16_at img (signature + 20))) [0..<unat (u16_at img (signature + 6))] [] = Inr sections"
    "sections \<noteq> []"
    using assms by (auto simp: code_sections_def and_then_Inr_iff pe_read_u16_def pe_offsets usize_checked_add_def ok_or_Inr_iff
        split: if_splits)
  from sections_loop_exact [OF s(2)] s(1,3) show ?thesis by (auto simp: Suc_le_eq)
qed

theorem code_sections_exact_witness:
  "\<exists>signature table count. signature_offset movable = Inr signature \<and>
    table = signature + 24 + unat (u16_at movable (signature + 20)) \<and> count = unat (u16_at movable (signature + 6)) \<and>
    [(0x1000, 0x2000)] = code_of movable table [0..<count]"
  using code_sections_exact [OF movable_code] by blast

section \<open>What is relocated\<close>

definition block_slots :: "u32 \<Rightarrow> u16 list \<Rightarrow> u64 list" where
  "block_slots page vs = map (\<lambda>v. ucast page + ucast (v AND 0xFFF)) (filter (\<lambda>v. drop_bit 12 v \<noteq> RELOCATION_ABSOLUTE) vs)"

text \<open>Every slot that a table lists, block by block.\<close>

function table_slots :: "bytes \<Rightarrow> usize \<Rightarrow> usize \<Rightarrow> u64 list" where
  "table_slots img at to =
     (let block = unat (u32_at img (at + 4)) in
      if to < at + 8 \<or> block < 8 then []
      else block_slots (u32_at img at) (entries_between img (at + 8) (at + block)) @ table_slots img (at + block) to)"
  by pat_completeness auto

termination
  by (relation "measure (\<lambda>(img, at, to). to - at)") auto

declare table_slots.simps [simp del]

lemma check_entries_slots:
  assumes "check_entries img page vs = Inr ()" "length img < 2 ^ 64" "s \<in> set (block_slots page vs)"
  shows "unat s + 8 \<le> length img"
  using assms
proof (induction vs)
  case (Cons v vs)
  then show ?case
    by (auto simp: block_slots_def Let_def checked_add_Some_iff word_le_nat_alt unat_of_nat_exact split: if_splits option.splits)
qed (simp add: block_slots_def)

lemma check_blocks_step:
  assumes "check_blocks img at to = Inr ()" "\<not> to \<le> at"
  shows "\<not> to < at + RELOCATION_BLOCK_HEADER"
    "\<not> (unat (u32_at img (at + 4)) < RELOCATION_BLOCK_HEADER \<or> to - at < unat (u32_at img (at + 4)) \<or> unat (u32_at img (at + 4)) mod 2 \<noteq> 0)"
    "check_entries img (u32_at img at) (entries_between img (at + RELOCATION_BLOCK_HEADER) (at + unat (u32_at img (at + 4)))) = Inr ()"
    "check_blocks img (at + unat (u32_at img (at + 4))) to = Inr ()"
  using assms check_blocks.simps [of img at to] by (auto simp: Let_def and_then_Inr_iff split: if_splits)

lemma check_blocks_slots:
  "check_blocks img at to = Inr () \<Longrightarrow> length img < 2 ^ 64 \<Longrightarrow> s \<in> set (table_slots img at to) \<Longrightarrow> unat s + 8 \<le> length img"
proof (induction img at to rule: check_blocks.induct)
  case (1 img at to)
  let ?b = "unat (u32_at img (at + 4))"
  show ?case
  proof (cases "to \<le> at")
    case True
    then show ?thesis using 1(4) by (subst (asm) table_slots.simps) (simp add: Let_def)
  next
    case False
    note c = check_blocks_step [OF 1(2) False]
    have "s \<in> set (block_slots (u32_at img at) (entries_between img (at + 8) (at + ?b))) \<or> s \<in> set (table_slots img (at + ?b) to)"
      using 1(4) c(1,2) by (subst (asm) table_slots.simps) (auto simp: Let_def RELOCATION_BLOCK_HEADER_def)
    then show ?thesis
      using check_entries_slots [OF c(3) 1(3)] 1(1) [OF False c(1) refl refl c(2) _ 1(3)] c(4) by (auto simp: RELOCATION_BLOCK_HEADER_def)
  qed
qed

text \<open>
  The iterator over an image that still agrees with the one the table was checked in, as far as the table
  itself goes: it hands out the slots of the table one after the other.
\<close>

definition agree :: "bytes \<Rightarrow> bytes \<Rightarrow> usize \<Rightarrow> usize \<Rightarrow> bool" where
  "agree img img0 from to \<longleftrightarrow> length img = length img0 \<and> (\<forall>i. from \<le> i \<and> i < to \<longrightarrow> img ! i = img0 ! i)"

definition iter_ok :: "bytes \<Rightarrow> usize \<Rightarrow> reloc_iter \<Rightarrow> bool" where
  "iter_ok img0 from it \<longleftrightarrow> (it_entries it < it_entries_end it \<longrightarrow> from \<le> it_entries it \<and> it_entries_end it \<le> it_end it) \<and>
     from \<le> it_blocks it \<and> check_blocks img0 (it_blocks it) (it_end it) = Inr ()"

definition remaining :: "bytes \<Rightarrow> reloc_iter \<Rightarrow> u64 list" where
  "remaining img it = block_slots (it_page it) (entries_between img (it_entries it) (it_entries_end it)) @
     table_slots img (it_blocks it) (it_end it)"

lemma agree_reads:
  assumes "agree img img0 from to" "from \<le> at"
  shows "at + 2 \<le> to \<Longrightarrow> u16_at img at = u16_at img0 at" "at + 4 \<le> to \<Longrightarrow> u32_at img at = u32_at img0 at"
  using assms by (auto simp: agree_def u16_at_def u32_at_def)

lemma entries_between_simps:
  "to < from + 2 \<Longrightarrow> entries_between img from to = []"
  "from + 2 \<le> to \<Longrightarrow> entries_between img from to = u16_at img from # entries_between img (from + 2) to"
proof -
  show "to < from + 2 \<Longrightarrow> entries_between img from to = []" by (simp add: entries_between_def)
  assume "from + 2 \<le> to"
  then obtain n where "to = from + 2 + n" using le_Suc_ex by blast
  then have n: "(to - from) div 2 = Suc (n div 2)" "to - (from + 2) = n" by simp_all
  have "[0..<Suc (n div 2)] = 0 # map Suc [0..<n div 2]" unfolding map_Suc_upt by (rule upt_conv_Cons) simp
  then show "entries_between img from to = u16_at img from # entries_between img (from + 2) to"
    unfolding entries_between_def n by (simp del: upt_Suc)
qed

lemma reloc_next_exact:
  "agree img img0 from (it_end it) \<Longrightarrow> iter_ok img0 from it \<Longrightarrow>
     (case remaining img0 it of
        [] \<Rightarrow> \<exists>it'. reloc_next img it = Inr (None, it')
      | s # rest \<Rightarrow> \<exists>it'. reloc_next img it = Inr (Some s, it') \<and> iter_ok img0 from it' \<and> it_end it' = it_end it \<and> remaining img0 it' = rest)"
proof (induction img it rule: reloc_next.induct)
  case (1 img it)
  show ?case
  proof (cases "it_entries it + 2 \<le> it_entries_end it")
    case True
    let ?v = "u16_at img (it_entries it)" and ?i = "it\<lparr>it_entries := it_entries it + 2\<rparr>"
    have ok: "iter_ok img0 from ?i" using 1(4) True by (auto simp: iter_ok_def)
    have v: "u16_at img0 (it_entries it) = ?v" using agree_reads(1) [OF 1(3), of "it_entries it"] 1(4) True by (auto simp: iter_ok_def)
    have rem: "remaining img0 it = (if drop_bit 12 ?v \<noteq> RELOCATION_ABSOLUTE then [ucast (it_page it) + ucast (?v AND 0xFFF)] else []) @ remaining img0 ?i"
      using True by (simp add: remaining_def entries_between_simps(2) block_slots_def v)
    have r: "reloc_next img it = (if drop_bit 12 ?v = RELOCATION_ABSOLUTE then reloc_next img ?i
        else Inr (Some (ucast (it_page it) + ucast (?v AND 0xFFF)), ?i))"
      using True by (subst reloc_next.simps) (simp add: Let_def)
    show ?thesis
    proof (cases "drop_bit 12 ?v = RELOCATION_ABSOLUTE")
      case abs: True
      have "agree img img0 from (it_end ?i)" using 1(3) by simp
      from 1(1) [OF True refl refl abs this ok] have ?thesis if "reloc_next img it = reloc_next img ?i" "remaining img0 it = remaining img0 ?i"
        unfolding that by (simp split: list.splits)
      moreover have "reloc_next img it = reloc_next img ?i" "remaining img0 it = remaining img0 ?i" using abs r rem by simp_all
      ultimately show ?thesis by blast
    next
      case False
      then show ?thesis using ok by (simp add: r rem)
    qed
  next
    case False
    have none: "entries_between img0 (it_entries it) (it_entries_end it) = []" using False by (simp add: entries_between_simps(1))
    show ?thesis
    proof (cases "it_end it < it_blocks it + RELOCATION_BLOCK_HEADER")
      case True
      then have "reloc_next img it = Inr (None, it)" using False by (subst reloc_next.simps) simp
      moreover have "remaining img0 it = []"
        using True none by (simp add: remaining_def block_slots_def RELOCATION_BLOCK_HEADER_def table_slots.simps [of img0 "it_blocks it"])
      ultimately show ?thesis by simp
    next
      case more: False
      let ?sz = "unat (u32_at img (it_blocks it + 4))"
      let ?i = "\<lparr>it_blocks = it_blocks it + ?sz, it_end = it_end it, it_entries = it_blocks it + RELOCATION_BLOCK_HEADER,
        it_entries_end = it_blocks it + ?sz, it_page = u32_at img (it_blocks it)\<rparr>"
      have same: "u32_at img0 (it_blocks it + 4) = u32_at img (it_blocks it + 4)" "u32_at img0 (it_blocks it) = u32_at img (it_blocks it)"
        using agree_reads(2) [OF 1(3)] more 1(4) by (auto simp: iter_ok_def RELOCATION_BLOCK_HEADER_def)
      have "\<not> it_end it \<le> it_blocks it" using more by (simp add: RELOCATION_BLOCK_HEADER_def)
      note c = check_blocks_step [OF _ this, of img0, unfolded same]
      have c0: "check_blocks img0 (it_blocks it) (it_end it) = Inr ()" using 1(4) by (simp add: iter_ok_def)
      have sz: "\<not> (?sz < RELOCATION_BLOCK_HEADER \<or> it_end it < it_blocks it + ?sz)" using c(2) [OF c0] more by (auto simp: RELOCATION_BLOCK_HEADER_def)
      have r: "reloc_next img it = reloc_next img ?i" using False more sz by (subst reloc_next.simps) (simp add: Let_def)
      have ok: "iter_ok img0 from ?i" using 1(4) sz c(4) [OF c0] by (auto simp: iter_ok_def RELOCATION_BLOCK_HEADER_def)
      have rem: "remaining img0 it = remaining img0 ?i"
        using more sz none by (simp add: remaining_def block_slots_def table_slots.simps [of img0 "it_blocks it"] same Let_def RELOCATION_BLOCK_HEADER_def)
      have "agree img img0 from (it_end ?i)" using 1(3) by simp
      from 1(2) [OF False more refl refl sz this ok] show ?thesis unfolding r rem by (simp split: list.splits)
    qed
  qed
qed

text \<open>One slot of eight bytes.\<close>

lemma u64_le_roundtrip:
  assumes "\<And>i. i < 8 \<Longrightarrow> bs ! (at + i) = u64_to_le w ! i"
  shows "u64_at bs at = w"
proof -
  let ?lo = "ucast w :: u32" and ?hi = "ucast (drop_bit 32 w) :: u32"
  have b: "bs ! (at + i) = ucast (drop_bit (8 * i) w)" if "i < 8" for i using assms [OF that] that by (simp add: u64_to_le_def)
  have sub: "(ucast (drop_bit k ?lo) :: u8) = ucast (drop_bit k w)" if "k \<le> 24" for k
    using that by (intro bit_word_eqI) (auto simp: bit_simps)
  have sub': "(ucast (drop_bit k ?hi) :: u8) = ucast (drop_bit (k + 32) w)" if "k \<le> 24" for k
    using that by (intro bit_word_eqI) (auto simp: bit_simps ac_simps)
  have "u32_at bs at = ?lo"
    using b [of 0] b [of 1] b [of 2] b [of 3] sub [of 8] sub [of 16] sub [of 24] sub [of 0] u32_le_roundtrip [of ?lo]
    by (simp add: u32_at_def)
  moreover have "u32_at bs (at + 4) = ?hi"
    using b [of 4] b [of 5] b [of 6] b [of 7] sub' [of 8] sub' [of 16] sub' [of 24] sub' [of 0] u32_le_roundtrip [of ?hi]
    by (simp add: u32_at_def add.assoc add.commute [of at 5] add.commute [of at 6])
  moreover have "ucast ?lo OR push_bit 32 (ucast ?hi) = w"
    by (rule bit_word_eqI) (auto simp: bit_simps)
  ultimately show ?thesis by (simp add: u64_at_def)
qed

lemma length_u64_le [simp]: "length (u64_to_le w) = 8"
  by (simp add: u64_to_le_def)

lemma add_at_exact:
  assumes "unat s + 8 \<le> length img"
  shows "length (add_at delta s img) = length img" "u64_at (add_at delta s img) (unat s) = u64_at img (unat s) + delta"
    "i < length img \<Longrightarrow> \<not> (unat s \<le> i \<and> i < unat s + 8) \<Longrightarrow> add_at delta s img ! i = img ! i"
proof -
  show "length (add_at delta s img) = length img" using assms by (simp add: add_at_def)
  show "u64_at (add_at delta s img) (unat s) = u64_at img (unat s) + delta"
    using assms by (intro u64_le_roundtrip) (simp add: add_at_def nth_copy_at)
  show "i < length img \<Longrightarrow> \<not> (unat s \<le> i \<and> i < unat s + 8) \<Longrightarrow> add_at delta s img ! i = img ! i"
    using assms by (auto simp: add_at_def nth_copy_at)
qed

lemma u64_at_cong: "(\<And>i. i < 8 \<Longrightarrow> as ! (at + i) = bs ! (at + i)) \<Longrightarrow> u64_at as at = u64_at bs at"
proof -
  assume a: "\<And>i. i < 8 \<Longrightarrow> as ! (at + i) = bs ! (at + i)"
  show ?thesis using a [of 0] a [of 1] a [of 2] a [of 3] a [of 4] a [of 5] a [of 6] a [of 7]
    by (simp add: u64_at_def u32_at_def add.assoc add.commute [of at 5] add.commute [of at 6])
qed

definition slots_apart :: "u64 list \<Rightarrow> bool" where
  "slots_apart ss \<longleftrightarrow> sorted_wrt (\<lambda>a b. unat a + 8 \<le> unat b \<or> unat b + 8 \<le> unat a) ss"

lemma fold_add_at:
  assumes "\<forall>s \<in> set ss. unat s + 8 \<le> length img"
  shows "length (fold (add_at delta) ss img) = length img"
    "i < length img \<Longrightarrow> \<forall>s \<in> set ss. \<not> (unat s \<le> i \<and> i < unat s + 8) \<Longrightarrow> fold (add_at delta) ss img ! i = img ! i"
  using assms by (induction ss arbitrary: img) (simp_all add: add_at_exact)

lemma fold_add_at_slots:
  assumes "slots_apart ss" "\<forall>s \<in> set ss. unat s + 8 \<le> length img" "t \<in> set ss"
  shows "u64_at (fold (add_at delta) ss img) (unat t) = u64_at img (unat t) + delta"
  using assms
proof (induction ss arbitrary: img)
  case (Cons s ss)
  let ?img = "add_at delta s img"
  have len: "length ?img = length img" using Cons.prems(2) by (simp add: add_at_exact)
  show ?case
  proof (cases "t \<in> set ss")
    case True
    then have d: "unat s + 8 \<le> unat t \<or> unat t + 8 \<le> unat s" using Cons.prems(1) by (auto simp: slots_apart_def)
    have "u64_at ?img (unat t) = u64_at img (unat t)"
      using d Cons.prems(2,3) by (intro u64_at_cong add_at_exact) auto
    then show ?thesis using Cons.IH [of ?img] Cons.prems True len by (simp add: slots_apart_def)
  next
    case False
    then have t: "t = s" using Cons.prems(3) by simp
    have "u64_at (fold (add_at delta) ss ?img) (unat s) = u64_at ?img (unat s)"
      using Cons.prems(1,2) len by (intro u64_at_cong fold_add_at(2)) (auto simp: slots_apart_def)
    then show ?thesis using Cons.prems(2) by (simp add: t add_at_exact)
  qed
qed simp

lemma relocate_loop_exact:
  assumes "agree img img0 from (it_end it)" "iter_ok img0 from it" "it_end it \<le> length img0"
    "\<forall>s \<in> set (remaining img0 it). unat s + 8 \<le> length img0 \<and> (unat s + 8 \<le> from \<or> it_end it \<le> unat s)"
  shows "relocate_loop delta img it n = Inr (n + length (remaining img0 it), fold (add_at delta) (remaining img0 it) img)"
  using assms
proof (induction "remaining img0 it" arbitrary: img it n)
  case Nil
  then show ?case using reloc_next_exact [OF Nil(2,3)] by (subst relocate_loop.simps) auto
next
  case (Cons s ss)
  obtain it' where it': "reloc_next img it = Inr (Some s, it')" "iter_ok img0 from it'" "it_end it' = it_end it" "remaining img0 it' = ss"
    using reloc_next_exact [OF Cons.prems(1,2)] by (auto simp: Cons.hyps(2) [symmetric])
  have s: "unat s + 8 \<le> length img" "unat s + 8 \<le> from \<or> it_end it \<le> unat s"
    using Cons.prems(1,4) by (auto simp: Cons.hyps(2) [symmetric] agree_def)
  have "agree (add_at delta s img) img0 from (it_end it')"
    using Cons.prems(1,3) s add_at_exact [OF s(1)] it'(3) by (auto simp: agree_def)
  from Cons.hyps(1) [OF it'(4) [symmetric] this it'(2), of "n + 1"] Cons.prems(3,4) it'(3,4)
  have "relocate_loop delta (add_at delta s img) it' (n + 1) = Inr (n + 1 + length ss, fold (add_at delta) ss (add_at delta s img))"
    by (simp add: Cons.hyps(2) [symmetric])
  then show ?case using it'(1) s(1) by (subst relocate_loop.simps) (simp add: Cons.hyps(2) [symmetric])
qed

lemma relocations_table:
  assumes "relocations img = Inr t" "length img < 2 ^ 64"
  shows "blocks_to t \<le> length img" "check_blocks img (blocks_from t) (blocks_to t) = Inr ()"
    "\<forall>s \<in> set (table_slots img (blocks_from t) (blocks_to t)). unat s + 8 \<le> length img"
proof -
  show t: "blocks_to t \<le> length img" "check_blocks img (blocks_from t) (blocks_to t) = Inr ()"
    using assms(1) by (auto simp: relocations_def Let_def and_then_Inr_iff split: if_splits)
  show "\<forall>s \<in> set (table_slots img (blocks_from t) (blocks_to t)). unat s + 8 \<le> length img"
    using check_blocks_slots [OF t(2) assms(2)] by blast
qed

text \<open>
  C37. Moving the kernel adds the distance to every address the image's table lists and to nothing else: for an image
  whose table is accepted and lists slots that overlap neither the table nor each other, \<open>relocate\<close> does not
  panic, counts every slot, adds the difference to the 64-bit value in each, modulo \<open>2\<^sup>6\<^sup>4\<close>, and leaves every
  other byte of the image alone.
\<close>

theorem relocate_moves_the_image:
  assumes "relocations img = Inr t" "length img < 2 ^ 64"
    "slots = table_slots img (blocks_from t) (blocks_to t)" "slots_apart slots"
    "\<forall>s \<in> set slots. unat s + 8 \<le> blocks_from t \<or> blocks_to t \<le> unat s"
  shows "\<exists>img'. relocate delta img = Inr (Inr (length slots, img')) \<and> length img' = length img \<and>
    (\<forall>s \<in> set slots. unat s + 8 \<le> length img \<and> u64_at img' (unat s) = u64_at img (unat s) + delta) \<and>
    (\<forall>i < length img. (\<forall>s \<in> set slots. \<not> (unat s \<le> i \<and> i < unat s + 8)) \<longrightarrow> img' ! i = img ! i)"
proof -
  note T = relocations_table [OF assms(1,2)]
  let ?it = "reloc_iter_new t"
  have rem: "remaining img ?it = slots" by (simp add: remaining_def reloc_iter_new_def block_slots_def entries_between_def assms(3))
  have "relocate_loop delta img ?it 0 = Inr (0 + length (remaining img ?it), fold (add_at delta) (remaining img ?it) img)"
    using T assms(5) rem unfolding assms(3)
    by (intro relocate_loop_exact [of _ _ "blocks_from t"]) (simp_all add: agree_def iter_ok_def reloc_iter_new_def)
  then have "relocate delta img = Inr (Inr (length slots, fold (add_at delta) slots img))" by (simp add: relocate_def assms(1) rem)
  moreover have b: "\<forall>s \<in> set slots. unat s + 8 \<le> length img" using T(3) assms(3) by simp
  ultimately show ?thesis using fold_add_at [OF b] fold_add_at_slots [OF assms(4) b] by auto
qed

lemma movable_slots: "table_slots movable 248 260 = [264]"
proof -
  have "entries_between movable 256 260 = [0xA108, 0]" by (simp add: entries_between_def upt_conv_Cons movable_reads)
  then show ?thesis
    by (subst table_slots.simps) (simp add: Let_def movable_reads block_slots_def RELOCATION_ABSOLUTE_def table_slots.simps [of movable 260])
qed

theorem relocate_moves_the_image_witness:
  "\<exists>img'. relocate 0xFFFF900000000000 movable = Inr (Inr (1, img')) \<and> u64_at img' 264 = 0xFFFF900070001000"
  using relocate_moves_the_image [OF movable_table _ refl, of "0xFFFF900000000000"] by (auto simp: movable_slots movable_reads slots_apart_def)

text \<open>
  That the slots keep off the table is not checked by \<open>relocations\<close>: an image whose table lists a slot in a later block
  of the table itself is accepted, and then \<open>relocate\<close> walks over numbers it has just changed.
\<close>

definition self_moving :: bytes where
  "self_moving = sample_image 20 ([0, 0, 0, 0, 12, 0, 0, 0, 0x04, 0xA1, 0, 0, 0, 0, 0, 0, 8, 0, 0, 0] @ sample_section)"

lemma self_moving_reads:
  "length self_moving = 308" "u32_at self_moving 60 = 64" "u16_at self_moving 88 = 0x20B" "u32_at self_moving 240 = 248"
  "u32_at self_moving 244 = 20" "u32_at self_moving 248 = 0" "u32_at self_moving 252 = 12" "u16_at self_moving 256 = 0xA104"
  "u16_at self_moving 258 = 0" "u32_at self_moving 260 = 0" "u32_at self_moving 264 = 8" "u64_at self_moving 260 = 0x800000000"
  "take 4 (drop 64 self_moving) = PE_SIGNATURE"
  by (simp_all add: self_moving_def sample_defs u16_at_def u32_at_def u64_at_def u16_from_le_def u32_from_le_def PE_SIGNATURE_def)

lemma self_moving_table: "relocations self_moving = Inr \<lparr>blocks_from = 248, blocks_to = 268\<rparr>"
proof -
  have "length PE_SIGNATURE = 4" by (simp add: PE_SIGNATURE_def)
  then have sig: "signature_offset self_moving = Inr 64"
    by (simp add: signature_offset_def pe_read_u32_def pe_read_u16_def self_moving_reads LFANEW_def OPTIONAL_HEADER_def MAGIC_PE32_PLUS_def
        usize_checked_add_def Let_def)
  have e: "entries_between self_moving 256 260 = [0xA104, 0]" "entries_between self_moving 268 268 = []"
    by (simp_all add: entries_between_def upt_conv_Cons self_moving_reads)
  have c: "check_entries self_moving 0 [0xA104, 0] = Inr ()"
    by (simp add: Let_def self_moving_reads checked_add_def RELOCATION_ABSOLUTE_def RELOCATION_DIR64_def)
  have "check_blocks self_moving 260 268 = Inr ()"
    using e check_blocks.simps [of self_moving 268 268]
    by (subst check_blocks.simps) (simp add: Let_def self_moving_reads RELOCATION_BLOCK_HEADER_def)
  then have "check_blocks self_moving 248 268 = Inr ()"
    using e c by (subst check_blocks.simps) (simp add: Let_def self_moving_reads RELOCATION_BLOCK_HEADER_def)
  then show ?thesis by (simp add: relocations_def sig pe_read_u32_def pe_offsets self_moving_reads usize_checked_add_def Let_def)
qed

lemma u32_at_high: "u32_at bs (at + 4) = ucast (drop_bit 32 (u64_at bs at))"
  by (rule bit_word_eqI) (auto simp: u64_at_def bit_simps dest: bit_imp_le_length)

lemma table_that_moves_itself_panics: "relocate 0x100000000 self_moving = Inl (Panic ''slice index out of range'')"
proof -
  let ?img = "add_at 0x100000000 0x104 self_moving"
  let ?it = "\<lparr>it_blocks = 260, it_end = 268, it_entries = 258, it_entries_end = 260, it_page = 0\<rparr>"
  have "u64_at ?img 260 = 0x900000000" using add_at_exact(2) [of 260 self_moving "0x100000000"] by (simp add: self_moving_reads)
  then have hi: "u32_at ?img 264 = 9" using u32_at_high [of ?img 260] by simp
  have e: "u16_at ?img 258 = 0"
    using add_at_exact(3) [of 260 self_moving 258] add_at_exact(3) [of 260 self_moving 259] self_moving_reads(1,9)
    by (simp add: u16_at_def)
  have one: "reloc_next self_moving (reloc_iter_new \<lparr>blocks_from = 248, blocks_to = 268\<rparr>) = Inr (Some 260, ?it)"
    by (subst reloc_next.simps, simp add: reloc_iter_new_def self_moving_reads Let_def RELOCATION_BLOCK_HEADER_def)
      (subst reloc_next.simps, simp add: self_moving_reads Let_def RELOCATION_ABSOLUTE_def)
  have two: "reloc_next ?img ?it = Inl (Panic ''slice index out of range'')"
    by (subst reloc_next.simps, simp add: e Let_def RELOCATION_ABSOLUTE_def)
      (subst reloc_next.simps, simp add: hi Let_def RELOCATION_BLOCK_HEADER_def)
  have "relocate_loop 0x100000000 ?img ?it 1 = Inl (Panic ''slice index out of range'')"
    by (subst relocate_loop.simps) (simp add: two)
  then show ?thesis
    by (simp add: relocate_def self_moving_table) (subst relocate_loop.simps, simp add: one self_moving_reads)
qed

end
