(* ===== verification/Sync.thy ===== *)
theory Sync
  imports Prelude
begin

text \<open>
  The kernel's lock (\<^verbatim>\<open>kernel/src/sync.rs\<close>): holding it keeps interrupts off. The CPU's interrupt flag
  (\<^verbatim>\<open>hal/src/interrupts.rs\<close>: \<open>disable\<close> answers whether they were on) and all locks are one state, because
  every lock turns off the same interrupts. A guard is the number of its lock and whether interrupts were on.
\<close>

section \<open>The lock\<close>

record 'v irq_lock =
  locked :: bool
  protected :: 'v

record 'v cpu_locks =
  interrupts_on :: bool
  lock_at :: "nat \<Rightarrow> 'v irq_lock"

record irq_guard =
  guard_lock :: nat
  were_enabled :: bool

definition irq_lock_new :: "'v \<Rightarrow> 'v irq_lock" where
  "irq_lock_new v = \<lparr>locked = False, protected = v\<rparr>"

definition irq_disable :: "'v cpu_locks \<Rightarrow> bool \<times> 'v cpu_locks" where
  "irq_disable s = (interrupts_on s, s\<lparr>interrupts_on := False\<rparr>)"

definition irq_enable :: "'v cpu_locks \<Rightarrow> 'v cpu_locks" where
  "irq_enable s = s\<lparr>interrupts_on := True\<rparr>"

definition set_locked :: "nat \<Rightarrow> bool \<Rightarrow> 'v cpu_locks \<Rightarrow> 'v cpu_locks" where
  "set_locked l b s = s\<lparr>lock_at := (lock_at s)(l := (lock_at s l)\<lparr>locked := b\<rparr>)\<rparr>"

definition lock_take :: "nat \<Rightarrow> ('v cpu_locks, panic, irq_guard) io" where
  "lock_take l s =
     (case irq_disable s of (were, s) \<Rightarrow>
        if locked (lock_at s l)
        then (Inl (Panic ''IrqLock re-entered''), if were then irq_enable s else s)
        else (Inr \<lparr>guard_lock = l, were_enabled = were\<rparr>, set_locked l True s))"

definition irq_unlock :: "irq_guard \<Rightarrow> 'v cpu_locks \<Rightarrow> 'v cpu_locks" where
  "irq_unlock g s =
     (let s = set_locked (guard_lock g) False s in if were_enabled g then irq_enable s else s)"

definition guard_deref :: "irq_guard \<Rightarrow> 'v cpu_locks \<Rightarrow> 'v" where
  "guard_deref g s = protected (lock_at s (guard_lock g))"

definition guard_store :: "irq_guard \<Rightarrow> 'v \<Rightarrow> 'v cpu_locks \<Rightarrow> 'v cpu_locks" where
  "guard_store g v s = s\<lparr>lock_at := (lock_at s)(guard_lock g := (lock_at s (guard_lock g))\<lparr>protected := v\<rparr>)\<rparr>"

section \<open>Everything that can happen\<close>

text \<open>
  The flow of execution and the interrupt handlers on top of it: a stack of what is under way, newest first. An
  interrupt is delivered only while they are on; its gate turns them off, and returning from it turns them on again.
  Guards of one flow are released newest first, as scopes do. Only the newest flow runs, and it writes only
  through a guard of its own.
\<close>

datatype frame_item = Guard irq_guard | Handler

record 'v flows =
  locks :: "'v cpu_locks"
  under_way :: "frame_item list"

fun own_guards :: "frame_item list \<Rightarrow> irq_guard list" where
  "own_guards (Guard g # rest) = g # own_guards rest"
| "own_guards _ = []"

inductive machine_step :: "'v flows \<Rightarrow> 'v flows \<Rightarrow> bool" where
  acquire: "lock_take l (locks s) = (Inr g, c) \<Longrightarrow> machine_step s \<lparr>locks = c, under_way = Guard g # under_way s\<rparr>"
| release: "under_way s = Guard g # rest \<Longrightarrow> machine_step s \<lparr>locks = irq_unlock g (locks s), under_way = rest\<rparr>"
| mutate: "g \<in> set (own_guards (under_way s)) \<Longrightarrow> machine_step s (s\<lparr>locks := guard_store g v (locks s)\<rparr>)"
| interrupt: "interrupts_on (locks s) \<Longrightarrow>
    machine_step s \<lparr>locks = snd (irq_disable (locks s)), under_way = Handler # under_way s\<rparr>"
| return_: "under_way s = Handler # rest \<Longrightarrow> machine_step s \<lparr>locks = irq_enable (locks s), under_way = rest\<rparr>"

definition started :: "bool \<Rightarrow> (nat \<Rightarrow> 'v) \<Rightarrow> 'v flows" where
  "started on vs = \<lparr>locks = \<lparr>interrupts_on = on, lock_at = (\<lambda>l. irq_lock_new (vs l))\<rparr>, under_way = []\<rparr>"

text \<open>What each item of the stack will put the flag back to.\<close>

fun puts_back :: "frame_item \<Rightarrow> bool" where
  "puts_back (Guard g) = were_enabled g"
| "puts_back Handler = True"

definition guards :: "frame_item list \<Rightarrow> nat list" where
  "guards fs = concat (map (\<lambda>f. case f of Guard g \<Rightarrow> [guard_lock g] | Handler \<Rightarrow> []) fs)"

definition machine_inv :: "bool \<Rightarrow> 'v flows \<Rightarrow> bool" where
  "machine_inv on s \<longleftrightarrow> distinct (guards (under_way s)) \<and>
     (\<forall>l. locked (lock_at (locks s) l) \<longleftrightarrow> l \<in> set (guards (under_way s))) \<and>
     interrupts_on (locks s) = (under_way s = [] \<and> on) \<and>
     (\<forall>f \<in> set (butlast (under_way s)). \<not> puts_back f) \<and> (under_way s \<noteq> [] \<longrightarrow> puts_back (last (under_way s)) = on)"

lemma guards_simps [simp]: "guards [] = []" "guards (Guard g # fs) = guard_lock g # guards fs" "guards (Handler # fs) = guards fs"
  by (simp_all add: guards_def)

lemma machine_inv_step: "machine_step s s' \<Longrightarrow> machine_inv on s \<Longrightarrow> machine_inv on s'"
proof (induction rule: machine_step.induct)
  case (acquire l s g c)
  then show ?case by (auto simp: machine_inv_def lock_take_def irq_disable_def set_locked_def split: if_splits)
next
  case (release s g rest)
  then show ?case by (cases rest) (auto simp: machine_inv_def irq_unlock_def irq_enable_def set_locked_def Let_def split: if_splits)
next
  case (mutate g s v)
  then show ?case by (simp add: machine_inv_def guard_store_def)
next
  case (interrupt s)
  then show ?case by (auto simp: machine_inv_def irq_disable_def)
next
  case (return_ s rest)
  then show ?case by (cases rest) (auto simp: machine_inv_def irq_enable_def)
qed

section \<open>Properties\<close>

lemma machine_inv_reachable:
  assumes "machine_step\<^sup>*\<^sup>* (started on vs) s"
  shows "machine_inv on s"
  using assms
proof (induction rule: rtranclp_induct)
  case base
  show ?case by (simp add: machine_inv_def started_def irq_lock_new_def)
qed (rule machine_inv_step)

text \<open>No handler runs on top of a guard: the guards of a stack all belong to the flow that runs.\<close>

lemma own_guards_all: "\<forall>f \<in> set (butlast fs). f \<noteq> Handler \<Longrightarrow> map guard_lock (own_guards fs) = guards fs"
proof (induction fs)
  case (Cons f fs)
  then show ?case by (cases f; cases fs) auto
qed simp

lemma held_lock_panics:
  assumes "locked (lock_at c l)" "\<not> interrupts_on c"
  shows "lock_take l c = (Inl (Panic ''IrqLock re-entered''), c)"
  using assms by (cases c) (simp add: lock_take_def irq_disable_def)

text \<open>
  C38. The lock does what it is for, however locks nest and interrupts arrive: no lock has two guards; while there is any
  guard, interrupts are off, and so every guard belongs to the flow that runs, never to one a handler interrupted; taking
  a lock that is held panics and changes nothing; and once everything is released, interrupts are as they were at the start.
\<close>

theorem lock_excludes:
  assumes "machine_step\<^sup>*\<^sup>* (started on vs) s"
  shows "distinct (guards (under_way s)) \<and> map guard_lock (own_guards (under_way s)) = guards (under_way s) \<and>
    (guards (under_way s) \<noteq> [] \<longrightarrow> \<not> interrupts_on (locks s)) \<and>
    (\<forall>l \<in> set (guards (under_way s)). lock_take l (locks s) = (Inl (Panic ''IrqLock re-entered''), locks s)) \<and>
    (under_way s = [] \<longrightarrow> interrupts_on (locks s) = on)"
proof -
  note I = machine_inv_reachable [OF assms, unfolded machine_inv_def]
  have "guards (under_way s) \<noteq> [] \<Longrightarrow> under_way s \<noteq> []" by auto
  then have off: "guards (under_way s) \<noteq> [] \<longrightarrow> \<not> interrupts_on (locks s)" using I by auto
  have "\<forall>f \<in> set (butlast (under_way s)). f \<noteq> Handler" using I by auto
  note own = own_guards_all [OF this]
  have "lock_take l (locks s) = (Inl (Panic ''IrqLock re-entered''), locks s)" if "l \<in> set (guards (under_way s))" for l
    using that I off by (intro held_lock_panics) auto
  then show ?thesis using I off own by auto
qed

text \<open>Two nested locks with interrupts on, as an interrupt handler never sees them.\<close>

theorem lock_excludes_witness:
  "\<exists>s. machine_step\<^sup>*\<^sup>* (started True (\<lambda>_. 0 :: nat)) s \<and> guards (under_way s) = [1, 0] \<and> \<not> interrupts_on (locks s)"
proof -
  obtain g c where one: "lock_take 0 (locks (started True (\<lambda>_. 0 :: nat))) = (Inr g, c)" "guard_lock g = 0" "\<not> locked (lock_at c 1)"
    by (simp add: lock_take_def started_def irq_disable_def irq_lock_new_def set_locked_def)
  obtain h d where two: "lock_take 1 c = (Inr h, d)" "guard_lock h = 1"
    using one(3) by (simp add: lock_take_def irq_disable_def)
  let ?s = "\<lparr>locks = d, under_way = [Guard h, Guard g]\<rparr>"
  have "machine_step (started True (\<lambda>_. 0)) \<lparr>locks = c, under_way = [Guard g]\<rparr>"
    using machine_step.acquire [OF one(1)] by (simp add: started_def)
  moreover have "machine_step \<lparr>locks = c, under_way = [Guard g]\<rparr> ?s"
    using machine_step.acquire [of 1 "\<lparr>locks = c, under_way = [Guard g]\<rparr>" h d] two(1) by simp
  ultimately have r: "machine_step\<^sup>*\<^sup>* (started True (\<lambda>_. 0)) ?s" by (meson converse_rtranclp_into_rtranclp r_into_rtranclp)
  show ?thesis using lock_excludes [OF r] r one(2) two(2) by (intro exI [of _ ?s]) auto
qed

text \<open>
  Releasing newest first is needed: guards are values and can be dropped in another order, and then interrupts
  are on while the inner lock is still held.
\<close>

lemma release_out_of_order:
  assumes "interrupts_on s" "\<not> locked (lock_at s 0)" "\<not> locked (lock_at s 1)" "lock_take 0 s = (Inr g, s1)" "lock_take 1 s1 = (Inr h, s2)"
  shows "interrupts_on (irq_unlock g s2) \<and> locked (lock_at (irq_unlock g s2) 1)"
  using assms by (auto simp: lock_take_def irq_unlock_def irq_disable_def irq_enable_def set_locked_def Let_def split: if_splits)

end
