(* ===== verification/Stacks.thy ===== *)
theory Stacks
  imports Paging_Spaces
begin

text \<open>
  The kernel's stacks (\<^verbatim>\<open>kernel/src/memory/stacks.rs\<close>): each is mapped page by page directly above a page that is
  left unmapped, and a stack that cannot be mapped whole is taken down again. The state is the page tables and the
  frame allocator; the zeroing wrapper around the allocator is the subject of \<^verbatim>\<open>Zeroed_Frames\<close>. A failure is a panic (an
  address past the end, a debug assertion) or the mapper's error.
\<close>

section \<open>Mapping a stack\<close>

definition KERNEL_STACK_PAGES :: nat where "KERNEL_STACK_PAGES = 16"
definition DOUBLE_FAULT_STACK_PAGES :: nat where "DOUBLE_FAULT_STACK_PAGES = 4"
definition SYSCALL_STACK_PAGES :: nat where "SYSCALL_STACK_PAGES = 4"

record stack =
  stack_bottom :: virt_addr
  stack_top :: virt_addr

definition stack_size :: "stack \<Rightarrow> u64" where
  "stack_size st = saturating_sub (v_u64 (stack_top st)) (v_u64 (stack_bottom st))"

type_synonym ('e, 'a) stack_io = "(frame_allocator tables_io, panic + 'e, 'a) io"

definition io_panic :: "panic + 'a \<Rightarrow> ('e, 'a) stack_io" where
  "io_panic r = io_lift (map_err Inl r)"

text \<open>\<open>address + n * PAGE_SIZE\<close>: a product or a sum that does not fit is a panic.\<close>

definition pages_above :: "virt_addr \<Rightarrow> nat \<Rightarrow> panic + virt_addr" where
  "pages_above a n =
     (if 2 ^ 64 \<le> n * unat PAGE_SIZE then Inl (Panic ''attempt to multiply with overflow'')
      else ok_or (Panic ''address addition overflow'') (virt_checked_add a (of_nat (n * unat PAGE_SIZE))))"

definition stack_page :: "virt_addr \<Rightarrow> nat \<Rightarrow> panic + u64" where
  "stack_page bottom index = and_then (pages_above bottom index) (\<lambda>a. Inr (v_u64 (page_start (page_containing a))))"

definition give_back :: "phys_frame \<Rightarrow> (map_error, unit) stack_io" where
  "give_back f = (\<lambda>(m, a).
     case deallocate_as a f Stack of
       (Inl e, a) \<Rightarrow> (Inl (Inl (Panic ''assertion failed: returned.is_ok()'')), m, a)
     | (Inr u, a) \<Rightarrow> (Inr (), m, a))"

definition unmap_page :: "u64 \<Rightarrow> u64 \<Rightarrow> (map_error, unit) stack_io" where
  "unmap_page root page = (\<lambda>(m, a).
     case pt_unmap root page m of
       (Inl e, m) \<Rightarrow> (Inl (Inl (Panic ''assertion failed: frame.is_ok()'')), m, a)
     | (Inr f, m) \<Rightarrow> give_back f (m, a))"

fun rollback_stack :: "u64 \<Rightarrow> virt_addr \<Rightarrow> nat list \<Rightarrow> (map_error, unit) stack_io" where
  "rollback_stack root bottom [] = io_ret ()"
| "rollback_stack root bottom (index # indices) =
     io_bind (io_panic (stack_page bottom index)) (\<lambda>page.
       io_bind (unmap_page root page) (\<lambda>_. rollback_stack root bottom indices))"

fun map_stack_pages :: "u64 \<Rightarrow> virt_addr \<Rightarrow> nat list \<Rightarrow> (map_error, unit) stack_io" where
  "map_stack_pages root bottom [] = io_ret ()"
| "map_stack_pages root bottom (index # indices) =
     io_bind (io_panic (stack_page bottom index)) (\<lambda>page (m, a).
       case allocate_for a Stack of
         (None, a) \<Rightarrow> io_bind (rollback_stack root bottom [0..<index]) (\<lambda>_. io_fail (Inr OutOfFrames)) (m, a)
       | (Some f, a) \<Rightarrow>
           (case pt_map allocate_frame root page f (kernel_flags True False) (m, a) of
              (Inl e, s) \<Rightarrow> io_bind (give_back f) (\<lambda>_. io_bind (rollback_stack root bottom [0..<index]) (\<lambda>_. io_fail (Inr e))) s
            | (Inr u, s) \<Rightarrow> map_stack_pages root bottom indices s))"

definition map_with_guard :: "u64 \<Rightarrow> page \<Rightarrow> nat \<Rightarrow> (map_error, stack) stack_io" where
  "map_with_guard root guard pages =
     io_bind (io_panic (pages_above (page_start guard) 1)) (\<lambda>bottom.
       io_bind (map_stack_pages root bottom [0..<pages]) (\<lambda>_.
         io_bind (io_panic (pages_above bottom pages)) (\<lambda>e. io_ret \<lparr>stack_bottom = bottom, stack_top = e\<rparr>)))"

definition unmap_stack :: "u64 \<Rightarrow> stack \<Rightarrow> (map_error, unit) stack_io" where
  "unmap_stack root st = rollback_stack root (stack_bottom st) [0..<unat (stack_size st div PAGE_SIZE)]"

definition stack_unmap :: "u64 \<Rightarrow> stack \<Rightarrow> (map_error, nat) stack_io" where
  "stack_unmap root st = (\<lambda>(m, a).
     io_bind (unmap_stack root st) (\<lambda>_ (m', a').
       if free_frames a' < free_frames a then (Inl (Inl (Panic ''attempt to subtract with overflow'')), m', a')
       else (Inr (free_frames a' - free_frames a), m', a')) (m, a))"

text \<open>\<open>match ... { Err(err) => { undo; return Err(err) } }\<close>: a panic is not caught.\<close>

definition or_undo :: "(map_error, 'a) stack_io \<Rightarrow> (map_error, unit) stack_io \<Rightarrow> (map_error, 'a) stack_io" where
  "or_undo call undo s =
     (case call s of
        (Inl (Inr e), s) \<Rightarrow> io_bind undo (\<lambda>_. io_fail (Inr e)) s
      | r \<Rightarrow> r)"

definition map_kernel_stacks :: "u64 \<Rightarrow> virt_addr \<Rightarrow> (map_error, stack \<times> stack \<times> stack) stack_io" where
  "map_kernel_stacks root base =
     io_bind (map_with_guard root (page_containing base) KERNEL_STACK_PAGES) (\<lambda>kernel.
     io_bind (or_undo (map_with_guard root (page_containing (stack_top kernel)) DOUBLE_FAULT_STACK_PAGES)
       (unmap_stack root kernel)) (\<lambda>double_fault.
     io_bind (or_undo (map_with_guard root (page_containing (stack_top double_fault)) SYSCALL_STACK_PAGES)
       (io_bind (unmap_stack root double_fault) (\<lambda>_. unmap_stack root kernel))) (\<lambda>syscall.
       io_ret (kernel, double_fault, syscall))))"

section \<open>Pages in use\<close>

text \<open>A page that translates as a small page in kernel space can be unmapped.\<close>

lemma small_page_walk:
  assumes "translate m root va = Some t" "tr_page_size t = 0x1000"
  shows "\<exists>leaf. unmap_walk m root (take 3 (table_indices va)) = Inr leaf \<and> entries m leaf (table_indices va ! 3) AND PRESENT \<noteq> 0"
  using assms
  by (auto simp: translate_def table_indices_def numeral_3_eq_3 Let_def split: if_splits)

lemma unmap_small_page:
  assumes "tree m 3 root" "is_canonical page" "KERNEL_SPACE_BASE \<le> page" "page AND 0xFFF = 0"
    "translate m root page = Some (page_of f fl page)"
  shows "\<exists>m'. pt_unmap root page m = (Inr f, m') \<and> tree m' 3 root \<and> sub m' 3 root \<subseteq> sub m 3 root \<and> unmapped m root page f m'"
proof -
  obtain leaf where leaf: "unmap_walk m root (take 3 (table_indices page)) = Inr leaf" "entries m leaf (table_indices page ! 3) AND PRESENT \<noteq> 0"
    using small_page_walk [OF assms(5)] by (auto simp: page_of_def)
  have "pt_unmap root page m = (Inr (containing_address (PhysAddr (entries m leaf (table_indices page ! 3) AND ADDRESS_MASK))),
      pt_flush (FlushPage page) (pt_write leaf (table_indices page ! 3) 0 m))"
    using leaf assms(3) by (simp add: pt_unmap_def Let_def)
  then obtain g m' where run: "pt_unmap root page m = (Inr g, m')" by blast
  note S = pt_unmap_spec [OF assms(1,2) run]
  have "p_u64 (start_address g) = p_u64 (start_address f)" using S assms(4,5) by (simp add: unmapped_def page_of_def)
  then have "start_address g = start_address f" by (rule phys_addr.expand)
  then have "g = f" by (simp add: start_address_def)
  then show ?thesis using run S by auto
qed

text \<open>What only the allocator's own step changes, a whole call of \<open>map\<close> changes.\<close>

lemma new_table_keeps:
  assumes "\<And>fs. P fs \<Longrightarrow> P (snd (alloc fs))" "new_table alloc root (m, fs) = (r, m', fs')" "P fs"
  shows "P fs'"
  using assms(1) [OF assms(3)] assms(2) by (auto simp: new_table_def Let_def split: prod.splits option.splits if_splits)

lemma map_walk_keeps:
  assumes "\<And>fs. P fs \<Longrightarrow> P (snd (alloc fs))"
  shows "map_walk alloc root user table up is (m, fs) = (r, m', fs') \<Longrightarrow> P fs \<Longrightarrow> P fs'"
proof (induction "is" arbitrary: table up m fs)
  case (Cons i "is")
  let ?e = "entries m table i"
  show ?case
  proof (cases "?e AND PRESENT = 0")
    case True
    obtain r1 m1 fs1 where n: "new_table alloc root (m, fs) = (r1, m1, fs1)" by (metis prod_cases3)
    have "P fs1" by (rule new_table_keeps [OF assms n Cons.prems(2)])
    then show ?thesis using Cons.prems(1) True n Cons.IH
      by (cases r1) (auto simp: io_bind_def io_read_def io_write_def Let_def)
  next
    case False
    then show ?thesis using Cons.prems Cons.IH
      by (auto simp: io_bind_def io_read_def io_write_def io_fail_def Let_def split: if_splits)
  qed
qed simp

lemma pt_map_keeps:
  assumes "\<And>fs. P fs \<Longrightarrow> P (snd (alloc fs))" "pt_map alloc root page f fl (m, fs) = (r, m', fs')" "P fs"
  shows "P fs'"
proof (cases "pf_user fl = (page < KERNEL_SPACE_BASE)")
  case True
  obtain r1 m1 fs1 where w: "map_walk alloc root (pf_user fl) root False (take 3 (table_indices page)) (m, fs) = (r1, m1, fs1)"
    by (metis prod_cases3)
  have "P fs1" by (rule map_walk_keeps [OF assms(1) w assms(3)])
  then show ?thesis using assms(2) True w
    by (cases r1) (auto simp: pt_map_def io_bind_def io_read_def io_write_def io_fail_def io_flush_def Let_def split: if_splits)
next
  case False
  then show ?thesis using assms(2,3) by (simp add: pt_map_def)
qed

section \<open>The books\<close>

text \<open>
  What happened to the frames since a start: \<open>F\<close> are those taken for stacks, and every other frame that is no longer
  free is a page table.
\<close>

definition accounts :: "frame_allocator \<Rightarrow> nat set \<Rightarrow> frame_allocator \<Rightarrow> bool" where
  "accounts a0 F a \<longleftrightarrow> fa_inv a \<and> addressable_frames a \<and> (purposes a = None \<longleftrightarrow> purposes a0 = None) \<and>
     free_set a \<union> F \<subseteq> free_set a0 \<and> F \<inter> free_set a = {} \<and> F \<subseteq> held_set a \<and> (\<forall>n \<in> F. n < 2 ^ 40) \<and>
     (purposes a0 \<noteq> None \<longrightarrow> (\<forall>n \<in> free_set a0 - free_set a. purpose_of a (frame_no n) = Some (if n \<in> F then Stack else PageTable)))"

lemma purpose_after_allocate:
  assumes "fa_inv a" "allocate_for a p = (Some f, a')"
  shows "purposes a' = None \<longleftrightarrow> purposes a = None" "g \<in> {g. number g \<noteq> number f} \<Longrightarrow> purpose_of a' g = purpose_of a g"
proof -
  obtain b where b: "fa_allocate a = (Some f, b)" "a' = set_purpose b f (Some p)"
    using assms(2) by (auto simp: allocate_for_def split: prod.splits option.splits)
  have "purposes b = purposes a" using allocate_inv(7) [OF assms(1) b(1)] .
  then show "purposes a' = None \<longleftrightarrow> purposes a = None" by (auto simp: b(2) set_purpose_def split: option.splits)
  show "g \<in> {g. number g \<noteq> number f} \<Longrightarrow> purpose_of a' g = purpose_of a g"
    using \<open>purposes b = purposes a\<close> by (simp add: b(2) purpose_of_set_purpose) (simp add: purpose_of_def)
qed

lemma free_number: "fa_inv a \<Longrightarrow> n \<in> free_set a \<Longrightarrow> number (frame_no n) = n"
  by (rule number_frame_no) (auto simp: free_set_iff fa_inv_def)

lemma accounts_allocate:
  assumes "accounts a0 F a" "fa_inv a0" "allocate_for a p = (Some f, a')" "p = Stack \<or> p = PageTable"
  shows "accounts a0 (if p = Stack then insert (number f) F else F) a'"
proof -
  note A = assms(1) [unfolded accounts_def]
  have inv: "fa_inv a" using A by blast
  note S = allocate_for_Some [OF inv assms(3)] and P = purpose_after_allocate [OF inv assms(3)]
  have f: "number f \<in> free_set a0" "number f < 2 ^ 40" "number f \<notin> F" using A S(2) by (auto simp: addressable_frames_def)
  have lab: "purpose_of a' (frame_no n) = Some (if n \<in> (if p = Stack then insert (number f) F else F) then Stack else PageTable)"
    if "n \<in> free_set a0 - free_set a'" "purposes a0 \<noteq> None" for n
  proof (cases "n = number f")
    case True
    then show ?thesis using S(5,7) that(2) A f(3) assms(4) by auto
  next
    case False
    then have "purpose_of a' (frame_no n) = purpose_of a (frame_no n)"
      using P(2) free_number [OF assms(2), of n] that(1) by simp
    then show ?thesis using A that False S(3) by auto
  qed
  show ?thesis using A S P(1) f lab unfolding accounts_def by (auto simp: addressable_frames_def)
qed

lemma accounts_give_back:
  assumes "accounts a0 F a" "fa_inv a0" "number f \<in> F"
  shows "\<exists>a'. deallocate_as a f Stack = (Inr (), a') \<and> accounts a0 (F - {number f}) a' \<and> free_set a' = insert (number f) (free_set a)"
proof -
  note A = assms(1) [unfolded accounts_def]
  have inv: "fa_inv a" and held: "number f \<in> held_set a" using A assms(3) by auto
  have num: "number (frame_no (number f)) = number f" by (rule number_frame_no [OF number_bound])
  have "number f \<in> free_set a0 - free_set a" using A assms(3) by blast
  then have "purposes a0 \<noteq> None \<longrightarrow> purpose_of a (frame_no (number f)) = Some Stack" using A assms(3) by simp
  then have "purposes a \<noteq> None \<longrightarrow> purpose_of a f = Some Stack" using A num by (simp add: purpose_of_def)
  then have d: "deallocate_as a f Stack = deallocate_unchecked a f" by (auto simp: deallocate_as_cases)
  note U = deallocate_unchecked_spec [OF inv held]
  define a' where "a' = snd (deallocate_unchecked a f)"
  have r: "deallocate_as a f Stack = (Inr (), a')"
    using d held deallocate_unchecked_ok_iff [of a f] by (metis a'_def prod.collapse)
  have same: "purposes a' = None \<longleftrightarrow> purposes a = None" "\<And>g. number g \<noteq> number f \<Longrightarrow> purpose_of a' g = purpose_of a g"
    using held by (auto simp: a'_def deallocate_unchecked_def held_set_def manages_managed Let_def set_purpose_def purpose_of_def
        get_at_def nth_list_update split: option.splits)
  have "purpose_of a' (frame_no n) = Some (if n \<in> F - {number f} then Stack else PageTable)"
    if n: "n \<in> free_set a0 - free_set a'" "purposes a0 \<noteq> None" for n
  proof -
    have "n \<noteq> number f" using n(1) U(2) by (auto simp: a'_def)
    moreover have "purpose_of a' (frame_no n) = purpose_of a (frame_no n)"
      using same(2) free_number [OF assms(2), of n] n(1) calculation by simp
    ultimately show ?thesis using A n U(2) by (auto simp: a'_def)
  qed
  then have "accounts a0 (F - {number f}) a'"
    using A U same(1) assms(3) unfolding accounts_def a'_def [symmetric] by (auto simp: addressable_frames_def)
  then show ?thesis using r U(2) by (auto simp: a'_def)
qed

lemma accounts_map:
  assumes "accounts a0 F a" "fa_inv a0" "pt_map allocate_frame root page f fl (m, a) = (r, m', a')"
  shows "accounts a0 F a'"
proof (rule pt_map_keeps [where P = "accounts a0 F", OF _ assms(3,1)])
  fix b assume b: "accounts a0 F b"
  show "accounts a0 F (snd (allocate_frame b))"
  proof (cases "allocate_for b PageTable")
    case (Pair g b')
    show ?thesis
    proof (cases g)
      case None
      then show ?thesis using allocate_for_None(2) [of b PageTable b'] Pair b by (simp add: allocate_frame_def accounts_def)
    next
      case (Some f)
      then show ?thesis using accounts_allocate [OF b assms(2), of PageTable f b'] Pair by (simp add: allocate_frame_def)
    qed
  qed
qed

section \<open>A stack that is being built\<close>

definition on_page :: "u64 \<Rightarrow> u64 \<Rightarrow> bool" where
  "on_page page va \<longleftrightarrow> is_canonical va \<and> drop_bit 12 va = drop_bit 12 page"

text \<open>
  Since a start, exactly the pages of \<open>S\<close> were mapped, each to its own frame taken for a stack, and everything
  else translates as at the start.
\<close>

definition leaf_of :: "u64 \<Rightarrow> table_memory \<Rightarrow> table_memory \<Rightarrow> u64 \<times> phys_frame \<Rightarrow> bool" where
  "leaf_of root m0 m x \<longleftrightarrow> is_canonical (fst x) \<and> KERNEL_SPACE_BASE \<le> fst x \<and> fst x AND 0xFFF = 0 \<and> frame_aligned (snd x) \<and>
     p_u64 (start_address (snd x)) \<notin> sub m 3 root \<and>
     (\<forall>va. on_page (fst x) va \<longrightarrow> translate m root va = Some (page_of (snd x) (kernel_flags True False) va) \<and> translate m0 root va = None)"

definition one_each :: "(u64 \<times> phys_frame) set \<Rightarrow> bool" where
  "one_each S \<longleftrightarrow> (\<forall>x \<in> S. \<forall>y \<in> S. drop_bit 12 (fst x) = drop_bit 12 (fst y) \<or> number (snd x) = number (snd y) \<longrightarrow> x = y)"

definition stacked :: "u64 \<Rightarrow> table_memory \<Rightarrow> frame_allocator \<Rightarrow> (u64 \<times> phys_frame) set \<Rightarrow> table_memory \<Rightarrow> frame_allocator \<Rightarrow> bool" where
  "stacked root m0 a0 S m a \<longleftrightarrow>
     space_ok m root a \<and> accounts a0 (number ` snd ` S) a \<and> (\<forall>x \<in> S. leaf_of root m0 m x) \<and> one_each S \<and>
     (\<forall>va. (\<forall>x \<in> S. \<not> on_page (fst x) va) \<longrightarrow> translate m root va = translate m0 root va)"

lemma frame_by_address:
  assumes "x mod 4096 = 0" "unat (x div 4096) = number f" "frame_aligned f"
  shows "x = p_u64 (start_address f)"
proof -
  have "number \<lparr>frame_start = PhysAddr x\<rparr> = number f" using assms(2) by (simp add: number_def FRAME_SIZE_def)
  moreover have "frame_aligned \<lparr>frame_start = PhysAddr x\<rparr>"
    using assms(1) by (simp add: frame_aligned_def is_aligned_to_def is_multiple_of_def FRAME_SIZE_def)
  ultimately have "\<lparr>frame_start = PhysAddr x\<rparr> = f" using frame_no_number assms(3) by metis
  then show ?thesis by (auto simp: start_address_def)
qed

lemma free_addresses_insert:
  assumes "free_set a' = insert (number f) (free_set a)" "frame_aligned f"
  shows "free_addresses a' \<subseteq> insert (p_u64 (start_address f)) (free_addresses a)"
proof
  fix x assume "x \<in> free_addresses a'"
  then have x: "x mod 4096 = 0" "unat (x div 4096) = number f \<or> unat (x div 4096) \<in> free_set a"
    using assms(1) unfolding free_addresses_def by blast+
  show "x \<in> insert (p_u64 (start_address f)) (free_addresses a)"
    using x frame_by_address [OF x(1) _ assms(2)] unfolding free_addresses_def by blast
qed

lemma building_unmap:
  assumes B: "stacked root m0 a0 S m a" and inv: "fa_inv a0" and pf: "(p, f) \<in> S"
  shows "\<exists>m' a'. unmap_page root p (m, a) = (Inr (), m', a') \<and> stacked root m0 a0 (S - {(p, f)}) m' a'"
proof -
  have ok: "space_ok m root a" and acc: "accounts a0 (number ` snd ` S) a" and L: "leaf_of root m0 m (p, f)" and O: "one_each S"
    using B pf by (simp_all add: stacked_def)
  note p = L [unfolded leaf_of_def fst_conv snd_conv]
  have "translate m root p = Some (page_of f (kernel_flags True False) p)" using p by (simp add: on_page_def)
  from unmap_small_page [OF _ _ _ _ this] ok p
  have "\<exists>m'. pt_unmap root p m = (Inr f, m') \<and> tree m' 3 root \<and> sub m' 3 root \<subseteq> sub m 3 root \<and> unmapped m root p f m'"
    by (simp only: space_ok_def simp_thms)
  then obtain m' where m': "pt_unmap root p m = (Inr f, m')" "tree m' 3 root"
    "sub m' 3 root \<subseteq> sub m 3 root" "unmapped m root p f m'" by blast
  have "number f \<in> number ` snd ` S" using pf by force
  from accounts_give_back [OF acc inv this] obtain a' where a': "deallocate_as a f Stack = (Inr (), a')"
    "accounts a0 (number ` snd ` S - {number f}) a'" "free_set a' = insert (number f) (free_set a)" by blast
  have nums: "number ` snd ` (S - {(p, f)}) = number ` snd ` S - {number f}"
  proof -
    have ne: "number (snd x) \<noteq> number f" if "x \<in> S - {(p, f)}" for x
    proof
      assume "number (snd x) = number f"
      then have "x = (p, f)" using O pf that unfolding one_each_def by (metis DiffD1 snd_conv)
      then show False using that by simp
    qed
    have sub: "n \<in> number ` snd ` S - {number f}" if n: "n \<in> number ` snd ` (S - {(p, f)})" for n
    proof -
      obtain x where x: "x \<in> S - {(p, f)}" "n = number (snd x)" using n by blast
      then show ?thesis using ne [OF x(1)] by simp
    qed
    have sup: "n \<in> number ` snd ` (S - {(p, f)})" if n: "n \<in> number ` snd ` S - {number f}" for n
    proof -
      obtain x where x: "x \<in> S" "n = number (snd x)" "number (snd x) \<noteq> number f" using n by blast
      then have "x \<in> S - {(p, f)}" by auto
      then show ?thesis unfolding x(2) by (intro imageI)
    qed
    show ?thesis by (rule set_eqI) (rule iffI, erule sub, erule sup)
  qed
  have tr: "translate m' root va = (if on_page p va then None else translate m root va)" for va
    using m'(4) by (simp add: unmapped_def on_page_def)
  have "free_addresses a' \<subseteq> insert (p_u64 (start_address f)) (free_addresses a)" using free_addresses_insert [OF a'(3)] p by blast
  then have "space_ok m' root a'" using ok m'(2,3) a'(2) p by (auto simp: space_ok_def accounts_def)
  moreover have "leaf_of root m0 m' x" if x: "x \<in> S - {(p, f)}" for x
  proof -
    have l: "leaf_of root m0 m x" using B x by (simp add: stacked_def)
    have "drop_bit 12 (fst x) \<noteq> drop_bit 12 p" using O pf x unfolding one_each_def by (metis DiffD1 DiffD2 fst_conv singletonI)
    then have "\<not> on_page p va" if "on_page (fst x) va" for va using that by (simp add: on_page_def)
    then show ?thesis using l m'(3) tr by (auto simp: leaf_of_def)
  qed
  moreover have "translate m' root va = translate m0 root va" if "\<forall>x \<in> S - {(p, f)}. \<not> on_page (fst x) va" for va
  proof (cases "on_page p va")
    case False
    then have "\<forall>x \<in> S. \<not> on_page (fst x) va" using that by auto
    then show ?thesis using B False tr by (simp add: stacked_def)
  qed (use p tr in simp)
  ultimately have "stacked root m0 a0 (S - {(p, f)}) m' a'"
    using a'(2) O unfolding stacked_def nums by (auto simp: one_each_def)
  then show ?thesis using m'(1) a'(1) by (auto simp: unmap_page_def give_back_def)
qed

lemma held_not_free:
  assumes "accounts a0 F a" "number f \<in> F"
  shows "p_u64 (start_address f) \<notin> free_addresses a"
  using assms by (auto simp: accounts_def free_addresses_def number_def start_address_def FRAME_SIZE_def)

lemma free_frame_address:
  assumes "frame_aligned f" "number f \<in> free_set a"
  shows "p_u64 (start_address f) \<in> free_addresses a"
  using assms by (simp add: free_addresses_def number_def start_address_def FRAME_SIZE_def frame_aligned_def is_aligned_to_def
      is_multiple_of_def mod_eq_0_iff_dvd)

text \<open>Taking a frame for a stack and asking the mapper for its page: what holds whatever the mapper answers.\<close>

lemma building_attempt:
  assumes B: "stacked root m0 a0 S m a" and inv: "fa_inv a0" and al: "allocate_for a Stack = (Some f, a1)" and p: "is_canonical p"
    and run: "pt_map allocate_frame root p f (kernel_flags True False) (m, a1) = (r, m', a')"
  shows "space_ok m' root a'" "accounts a0 (insert (number f) (number ` snd ` S)) a'" "number f \<notin> number ` snd ` S" "frame_aligned f"
    "p_u64 (start_address f) \<notin> sub m' 3 root" "\<And>x. x \<in> S \<Longrightarrow> p_u64 (start_address (snd x)) \<notin> sub m' 3 root"
    "if r = Inr () then mapped m root p f (kernel_flags True False) m' else \<forall>va. translate m' root va = translate m root va"
proof -
  let ?F = "number ` snd ` S" and ?s = "p_u64 (start_address f)"
  have ok: "space_ok m root a" and acc: "accounts a0 ?F a" using B by (simp_all add: stacked_def)
  have fa: "fa_inv a" "addressable_frames a" "?F \<inter> free_set a = {}" using acc by (simp_all add: accounts_def)
  note A = allocate_for_Some [OF fa(1) al]
  show "frame_aligned f" using A(5) .
  have s: "?s \<in> free_addresses a" using A(5,2) by (rule free_frame_address)
  have nm: "nameable f" using tf.fresh_masked [of a ?s] s fa by (simp add: nameable_def)
  show "number f \<notin> ?F" using fa(3) A(2) by blast
  have acc1: "accounts a0 (insert (number f) ?F) a1" using accounts_allocate [OF acc inv al] by simp
  then have s1: "?s \<notin> free_addresses a1" by (rule held_not_free) simp
  have "free_addresses a1 \<subseteq> free_addresses a" using A(3) unfolding free_addresses_def by blast
  then have ok1: "space_ok m root a1" using ok acc1 unfolding space_ok_def accounts_def by blast
  note M = map_step [OF ok1 p nm run]
  show "space_ok m' root a'" "accounts a0 (insert (number f) ?F) a'" by (rule M(1), rule accounts_map [OF acc1 inv run])
  have "?s \<notin> sub m 3 root" using s ok unfolding space_ok_def by blast
  then show "?s \<notin> sub m' 3 root" using M(4) s1 by blast
  show "p_u64 (start_address (snd x)) \<notin> sub m' 3 root" if "x \<in> S" for x
  proof -
    have "p_u64 (start_address (snd x)) \<notin> free_addresses a1" using that by (intro held_not_free [OF acc1]) simp
    moreover have "leaf_of root m0 m x" using B that by (simp add: stacked_def)
    ultimately show ?thesis using M(4) unfolding leaf_of_def by blast
  qed
  show "if r = Inr () then mapped m root p f (kernel_flags True False) m' else \<forall>va. translate m' root va = translate m root va"
    by (rule M(5))
qed

text \<open>A page that the mapper mapped was free before, so it is none of those of the stack so far.\<close>

lemma building_map:
  assumes B: "stacked root m0 a0 S m a" and inv: "fa_inv a0" and al: "allocate_for a Stack = (Some f, a1)"
    and p: "is_canonical p" "KERNEL_SPACE_BASE \<le> p" "p AND 0xFFF = 0"
    and run: "pt_map allocate_frame root p f (kernel_flags True False) (m, a1) = (Inr (), m', a')"
  shows "stacked root m0 a0 (insert (p, f) S) m' a'" "(p, g) \<notin> S"
proof -
  note X = building_attempt [OF B inv al p(1) run]
  have O: "one_each S" and L: "\<And>x. x \<in> S \<Longrightarrow> leaf_of root m0 m x" using B by (simp_all add: stacked_def)
  have tr: "translate m' root va = (if on_page p va then Some (page_of f (kernel_flags True False) va) else translate m root va)"
    and none: "on_page p va \<Longrightarrow> translate m root va = None" for va
    using X(7) by (simp_all add: mapped_def on_page_def)
  have other: "\<not> on_page p va" if "x \<in> S" "on_page (fst x) va" for x va
    using none [of va] L [OF that(1)] that(2) by (auto simp: leaf_of_def)
  have fresh: "drop_bit 12 (fst x) \<noteq> drop_bit 12 p" if "x \<in> S" for x
    using other [OF that, of "fst x"] L [OF that] by (auto simp: leaf_of_def on_page_def)
  then show "(p, g) \<notin> S" by fastforce
  have m0: "translate m0 root va = None" if "on_page p va" for va
  proof -
    have "\<forall>x \<in> S. \<not> on_page (fst x) va" using other that by blast
    then show ?thesis using none [OF that] B by (simp add: stacked_def)
  qed
  have "leaf_of root m0 m' x" if "x \<in> S" for x
    using L [OF that] X(6) [OF that] other [OF that] tr unfolding leaf_of_def by auto
  moreover have "leaf_of root m0 m' (p, f)" using p X(4,5) tr m0 by (simp add: leaf_of_def)
  moreover have "one_each (insert (p, f) S)"
  proof -
    have "number (snd x) \<noteq> number f" if "x \<in> S" for x using X(3) that by (metis imageI)
    then show ?thesis using O fresh unfolding one_each_def by (metis fst_conv insert_iff snd_conv)
  qed
  moreover have "translate m' root va = translate m0 root va" if "\<forall>x \<in> insert (p, f) S. \<not> on_page (fst x) va" for va
    using that tr B by (simp add: stacked_def)
  ultimately show "stacked root m0 a0 (insert (p, f) S) m' a'" using X(1,2) by (simp add: stacked_def)
qed

lemma building_map_failed:
  assumes B: "stacked root m0 a0 S m a" and inv: "fa_inv a0" and al: "allocate_for a Stack = (Some f, a1)" and p: "is_canonical p"
    and run: "pt_map allocate_frame root p f (kernel_flags True False) (m, a1) = (Inl e, m', a')"
  shows "\<exists>a''. give_back f (m', a') = (Inr (), m', a'') \<and> stacked root m0 a0 S m' a''"
proof -
  note X = building_attempt [OF B inv al p(1) run]
  have tr: "translate m' root va = translate m root va" for va using X(7) by simp
  have F: "insert (number f) (number ` snd ` S) - {number f} = number ` snd ` S" using X(3) by (rule Diff_insert_absorb)
  obtain a'' where a'': "deallocate_as a' f Stack = (Inr (), a'')"
    "accounts a0 (number ` snd ` S) a''" "free_set a'' = insert (number f) (free_set a')"
    using accounts_give_back [OF X(2) inv insertI1] unfolding F by blast
  have "sub m' 3 root \<inter> free_addresses a' = {}" "tree m' 3 root" using X(1) by (simp_all add: space_ok_def)
  then have "sub m' 3 root \<inter> free_addresses a'' = {}" using free_addresses_insert [OF a''(3) X(4)] X(5) by blast
  then have "space_ok m' root a''" using \<open>tree m' 3 root\<close> a''(2) by (simp add: space_ok_def accounts_def)
  moreover have "leaf_of root m0 m' x" if "x \<in> S" for x
  proof -
    have "leaf_of root m0 m x" using B that by (simp add: stacked_def)
    then show ?thesis using X(6) [OF that] tr by (simp add: leaf_of_def)
  qed
  ultimately have "stacked root m0 a0 S m' a''" using a''(2) tr B by (simp add: stacked_def)
  then show ?thesis using a''(1) by (auto simp: give_back_def)
qed

section \<open>The pages of a stack\<close>

definition nth_page :: "u64 \<Rightarrow> nat \<Rightarrow> u64" where
  "nth_page b i = b + of_nat (i * 4096)"

text \<open>A run of pages in kernel space that ends before the last one.\<close>

definition kernel_run :: "u64 \<Rightarrow> nat \<Rightarrow> bool" where
  "kernel_run b n \<longleftrightarrow> KERNEL_SPACE_BASE \<le> b \<and> b mod 4096 = 0 \<and> unat b + n * 4096 < 2 ^ 64"

lemma kernel_run_index:
  assumes "kernel_run b n" "i \<le> n"
  shows "i * 4096 < 2 ^ 64" "unat b + i * 4096 < 2 ^ 64" "unat (of_nat (i * 4096) :: u64) = i * 4096"
proof -
  have "i * 4096 \<le> n * 4096" using assms(2) by (rule mult_le_mono1)
  then show i: "i * 4096 < 2 ^ 64" "unat b + i * 4096 < 2 ^ 64" using assms(1) unfolding kernel_run_def by linarith+
  show "unat (of_nat (i * 4096) :: u64) = i * 4096" by (rule unat_of_nat_exact) (use i(1) in simp)
qed

lemma unat_nth_page:
  assumes "kernel_run b n" "i \<le> n"
  shows "unat (nth_page b i) = unat b + i * 4096"
proof -
  note K = kernel_run_index [OF assms]
  have "unat (b + of_nat (i * 4096)) = unat b + unat (of_nat (i * 4096) :: u64)" by (rule unat_add_exact) (use K in \<open>simp only: K(3) len_num1 len_bit0 len_bit1\<close>, simp)
  then show ?thesis by (simp only: nth_page_def K(3))
qed

lemma nth_page_ok:
  assumes "kernel_run b n" "i \<le> n"
  shows "KERNEL_SPACE_BASE \<le> nth_page b i" "nth_page b i mod 4096 = 0" "nth_page b i AND 0xFFF = 0" "is_canonical (nth_page b i)"
proof -
  note u = unat_nth_page [OF assms]
  show k: "KERNEL_SPACE_BASE \<le> nth_page b i" using assms(1) u by (simp add: kernel_run_def word_le_nat_alt)
  have "unat (b mod 4096) = 0" using assms(1) by (simp add: kernel_run_def)
  then show al: "nth_page b i mod 4096 = 0" by (simp add: word_unat_eq_iff unat_mod u)
  have "nth_page b i AND mask 12 = 0" using al by (simp add: take_bit_eq_mod flip: take_bit_eq_mask)
  then show "nth_page b i AND 0xFFF = 0" by (simp add: mask_eq_exp_minus_1)
  have "unat (nth_page b i) div 2 ^ 47 = 0x1FFFF" using k unat_u64_bound [of "nth_page b i"] by (simp add: KERNEL_SPACE_BASE_def word_le_nat_alt)
  then have "drop_bit 47 (nth_page b i) = 0x1FFFF" by (simp add: word_unat_eq_iff drop_bit_eq_div unat_div)
  then show "is_canonical (nth_page b i)" by (simp add: is_canonical_def)
qed

lemma pages_above_exact:
  assumes "kernel_run b n" "i \<le> n"
  shows "pages_above (VirtAddr b) i = Inr (VirtAddr (nth_page b i))" "stack_page (VirtAddr b) i = Inr (nth_page b i)"
proof -
  note K = kernel_run_index [OF assms]
  have "checked_add b (of_nat (i * 4096)) = Some (nth_page b i)"
    unfolding checked_add_Some_iff unat_nth_page [OF assms] K(3) using K(2) by simp
  then show p: "pages_above (VirtAddr b) i = Inr (VirtAddr (nth_page b i))"
    using K(1) by (simp add: pages_above_def PAGE_SIZE_def virt_checked_add_def)
  show "stack_page (VirtAddr b) i = Inr (nth_page b i)"
    using nth_page_ok(2) [OF assms] by (simp add: stack_page_def p page_containing_def align_down_def PAGE_SIZE_def FRAME_SIZE_def)
qed

lemma nth_page_inj: "kernel_run b n \<Longrightarrow> i \<le> n \<Longrightarrow> j \<le> n \<Longrightarrow> nth_page b i = nth_page b j \<Longrightarrow> i = j"
proof -
  assume a: "kernel_run b n" "i \<le> n" "j \<le> n" "nth_page b i = nth_page b j"
  have "unat b + i * 4096 = unat b + j * 4096" using unat_nth_page [OF a(1,2)] unat_nth_page [OF a(1,3)] a(4) by argo
  then show ?thesis by simp
qed

text \<open>The pages of a block of a stack, each with its frame.\<close>

definition stack_block :: "u64 \<Rightarrow> (nat \<Rightarrow> phys_frame) \<Rightarrow> nat set \<Rightarrow> (u64 \<times> phys_frame) set" where
  "stack_block b fr I = (\<lambda>i. (nth_page b i, fr i)) ` I"

lemma rollback_exact:
  assumes "stacked root m0 a0 S m a" "fa_inv a0" "kernel_run b n" "distinct is" "\<forall>i \<in> set is. i < n" "stack_block b fr (set is) \<subseteq> S"
  shows "\<exists>m' a'. rollback_stack root (VirtAddr b) is (m, a) = (Inr (), m', a') \<and> stacked root m0 a0 (S - stack_block b fr (set is)) m' a'"
  using assms(1,4-6)
proof (induction "is" arbitrary: S m a)
  case (Cons i "is")
  have more: "stack_block b fr (set (i # is)) = insert (nth_page b i, fr i) (stack_block b fr (set is))" by (simp add: stack_block_def)
  have "(nth_page b i, fr i) \<in> S" using Cons.prems(4) by (simp add: stack_block_def)
  from building_unmap [OF Cons.prems(1) assms(2) this] obtain m1 a1 where u: "unmap_page root (nth_page b i) (m, a) = (Inr (), m1, a1)"
    "stacked root m0 a0 (S - {(nth_page b i, fr i)}) m1 a1" by blast
  have "(nth_page b i, fr i) \<notin> stack_block b fr (set is)"
  proof
    assume "(nth_page b i, fr i) \<in> stack_block b fr (set is)"
    then obtain j where j: "j \<in> set is" "nth_page b i = nth_page b j" by (auto simp: stack_block_def)
    have "i = j" using nth_page_inj [OF assms(3) _ _ j(2)] Cons.prems(3) j(1) by (simp add: less_imp_le)
    then show False using j(1) Cons.prems(2) by simp
  qed
  then have sub: "stack_block b fr (set is) \<subseteq> S - {(nth_page b i, fr i)}" using Cons.prems(4) unfolding more by blast
  obtain m' a' where r: "rollback_stack root (VirtAddr b) is (m1, a1) = (Inr (), m', a')"
    "stacked root m0 a0 (S - {(nth_page b i, fr i)} - stack_block b fr (set is)) m' a'"
    using Cons.IH [OF u(2) _ _ sub] Cons.prems(2,3) by auto
  have "S - stack_block b fr (set (i # is)) = S - {(nth_page b i, fr i)} - stack_block b fr (set is)" unfolding more by blast
  then show ?case using r u(1) pages_above_exact(2) [OF assms(3), of i] Cons.prems(3)
    by (simp add: io_panic_def)
qed (simp add: stack_block_def)

lemma map_stack_pages_exact:
  assumes "fa_inv a0" "kernel_run b n"
  shows "stacked root m0 a0 (S \<union> stack_block b fr {..<k}) m a \<Longrightarrow> S \<inter> stack_block b fr {..<k} = {} \<Longrightarrow> k \<le> n \<Longrightarrow>
    map_stack_pages root (VirtAddr b) [k..<n] (m, a) = (r, m', a') \<Longrightarrow>
    (case r of
       Inl (Inl p) \<Rightarrow> False
     | Inl (Inr e) \<Rightarrow> stacked root m0 a0 S m' a'
     | Inr u \<Rightarrow> \<exists>fr'. stacked root m0 a0 (S \<union> stack_block b fr' {..<n}) m' a' \<and> S \<inter> stack_block b fr' {..<n} = {})"
proof (induction "n - k" arbitrary: k fr m a)
  case 0
  then show ?case by (auto intro!: exI [of _ fr])
next
  case (Suc d)
  have k: "k < n" "[k..<n] = k # [Suc k..<n]" using Suc.hyps(2) by (simp_all add: upt_conv_Cons)
  note P = nth_page_ok [OF assms(2) less_imp_le [OF k(1)]] and pg = pages_above_exact(2) [OF assms(2) less_imp_le [OF k(1)]]
  have undo: "\<exists>m2 a2. rollback_stack root (VirtAddr b) [0..<k] (m1, a1) = (Inr (), m2, a2) \<and> stacked root m0 a0 S m2 a2"
    if B: "stacked root m0 a0 (S \<union> stack_block b fr {..<k}) m1 a1" for m1 a1
  proof -
    have "S \<union> stack_block b fr {..<k} - stack_block b fr (set [0..<k]) = S" using Suc.prems(2) by (auto simp: atLeast0LessThan)
    then show ?thesis using rollback_exact [OF B assms, of "[0..<k]" fr] k(1) by (auto simp: atLeast0LessThan)
  qed
  obtain g a1 where al: "allocate_for a Stack = (g, a1)" by fastforce
  show ?case
  proof (cases g)
    case None
    then have "a1 = a" using allocate_for_None(2) [of a Stack a1] al Suc.prems(1) by (simp add: stacked_def accounts_def)
    then obtain m2 a2 where u: "rollback_stack root (VirtAddr b) [0..<k] (m, a1) = (Inr (), m2, a2)" "stacked root m0 a0 S m2 a2"
      using undo [OF Suc.prems(1)] by blast
    then show ?thesis using Suc.prems(4) al None by (auto simp: k(2) io_panic_def pg)
  next
    case (Some f)
    obtain q m1 a2 where run: "pt_map allocate_frame root (nth_page b k) f (kernel_flags True False) (m, a1) = (q, m1, a2)" by (metis prod_cases3)
    show ?thesis
    proof (cases q)
      case (Inl e)
      obtain a3 where a3: "give_back f (m1, a2) = (Inr (), m1, a3)" "stacked root m0 a0 (S \<union> stack_block b fr {..<k}) m1 a3"
        using building_map_failed [OF Suc.prems(1) assms(1) al [unfolded Some] P(4) run [unfolded Inl]] by blast
      then obtain m2 a4 where u: "rollback_stack root (VirtAddr b) [0..<k] (m1, a3) = (Inr (), m2, a4)" "stacked root m0 a0 S m2 a4"
        using undo by blast
      then show ?thesis using Suc.prems(4) al Some run Inl a3(1) by (auto simp: k(2) io_panic_def pg)
    next
      case (Inr v)
      have "pt_map allocate_frame root (nth_page b k) f (kernel_flags True False) (m, a1) = (Inr (), m1, a2)" using run Inr by simp
      note M = building_map [OF Suc.prems(1) assms(1) al [unfolded Some] P(4,1,3) this]
      let ?fr = "fr(k := f)"
      have e: "stack_block b ?fr {..<Suc k} = insert (nth_page b k, f) (stack_block b fr {..<k})"
        by (auto simp: stack_block_def lessThan_Suc)
      have "S \<inter> stack_block b ?fr {..<Suc k} = {}" using Suc.prems(2) M(2) unfolding e by blast
      moreover have "stacked root m0 a0 (S \<union> stack_block b ?fr {..<Suc k}) m1 a2" using M(1) unfolding e by simp
      moreover have "map_stack_pages root (VirtAddr b) [Suc k..<n] (m1, a2) = (r, m', a')"
        using Suc.prems(4) al Some run Inr by (simp add: k(2) io_panic_def pg)
      ultimately show ?thesis using Suc.hyps(1) [of "Suc k" ?fr m1 a2] Suc.hyps(2) k(1) by simp
    qed
  qed
qed

lemma nth_page_nth_page: "nth_page (nth_page b j) i = nth_page b (j + i)"
  by (simp add: nth_page_def algebra_simps)

lemma kernel_run_sub:
  assumes "kernel_run b n" "j + k \<le> n"
  shows "kernel_run (nth_page b j) k"
proof -
  have j: "j \<le> n" using assms(2) by simp
  have "(j + k) * 4096 \<le> n * 4096" using assms(2) by (rule mult_le_mono1)
  then show ?thesis using nth_page_ok(1,2) [OF assms(1) j] unat_nth_page [OF assms(1) j] assms(1)
    by (simp add: kernel_run_def algebra_simps)
qed

lemma page_containing_nth: "kernel_run b n \<Longrightarrow> i \<le> n \<Longrightarrow> page_containing (VirtAddr (nth_page b i)) = \<lparr>page_start = VirtAddr (nth_page b i)\<rparr>"
  using nth_page_ok(2) by (simp add: page_containing_def align_down_def PAGE_SIZE_def FRAME_SIZE_def)

definition stack_above :: "u64 \<Rightarrow> nat \<Rightarrow> stack" where
  "stack_above g n = \<lparr>stack_bottom = VirtAddr (nth_page g 1), stack_top = VirtAddr (nth_page g (Suc n))\<rparr>"

lemma map_with_guard_exact:
  assumes "fa_inv a0" "kernel_run g (Suc n)" "stacked root m0 a0 S m a"
    "map_with_guard root \<lparr>page_start = VirtAddr g\<rparr> n (m, a) = (r, m', a')"
  shows "case r of
      Inl (Inl p) \<Rightarrow> False
    | Inl (Inr e) \<Rightarrow> stacked root m0 a0 S m' a'
    | Inr st \<Rightarrow> st = stack_above g n \<and>
        (\<exists>fr. stacked root m0 a0 (S \<union> stack_block (nth_page g 1) fr {..<n}) m' a' \<and> S \<inter> stack_block (nth_page g 1) fr {..<n} = {})"
proof -
  let ?b = "nth_page g 1"
  have b: "pages_above (VirtAddr g) 1 = Inr (VirtAddr ?b)" by (rule pages_above_exact(1) [OF assms(2)]) simp
  have run: "kernel_run ?b n" using kernel_run_sub [OF assms(2), of 1 n] by simp
  have e: "pages_above (VirtAddr ?b) n = Inr (VirtAddr (nth_page g (Suc n)))"
    using pages_above_exact(1) [OF run order_refl] by (simp add: nth_page_nth_page)
  obtain q m1 a1 where q: "map_stack_pages root (VirtAddr ?b) [0..<n] (m, a) = (q, m1, a1)" by (metis prod_cases3)
  have X: "case q of Inl (Inl p) \<Rightarrow> False | Inl (Inr e) \<Rightarrow> stacked root m0 a0 S m1 a1
     | Inr u \<Rightarrow> \<exists>fr'. stacked root m0 a0 (S \<union> stack_block ?b fr' {..<n}) m1 a1 \<and> S \<inter> stack_block ?b fr' {..<n} = {}"
    using map_stack_pages_exact [OF assms(1) run, of root m0 S undefined 0 m a q m1 a1] assms(3) q by (simp add: stack_block_def)
  show ?thesis
  proof (cases q)
    case (Inl f)
    then have "map_with_guard root \<lparr>page_start = VirtAddr g\<rparr> n (m, a) = (Inl f, m1, a1)" using b q by (simp add: map_with_guard_def io_panic_def)
    then show ?thesis using assms(4) X Inl by (auto split: sum.splits)
  next
    case (Inr u)
    then have "map_with_guard root \<lparr>page_start = VirtAddr g\<rparr> n (m, a) = (Inr (stack_above g n), m1, a1)"
      using b q e by (simp add: map_with_guard_def io_panic_def stack_above_def)
    then show ?thesis using assms(4) X Inr by auto
  qed
qed

lemma unmap_stack_exact:
  assumes "fa_inv a0" "kernel_run g (Suc n)" "stacked root m0 a0 (S \<union> stack_block (nth_page g 1) fr {..<n}) m a"
    "S \<inter> stack_block (nth_page g 1) fr {..<n} = {}"
  shows "\<exists>m' a'. unmap_stack root (stack_above g n) (m, a) = (Inr (), m', a') \<and> stacked root m0 a0 S m' a'"
proof -
  let ?b = "nth_page g 1"
  have run: "kernel_run ?b n" using kernel_run_sub [OF assms(2), of 1 n] by simp
  have u: "unat (nth_page g (Suc n)) = unat g + Suc n * 4096" "unat (nth_page g (Suc 0)) = unat g + 4096"
    using unat_nth_page [OF assms(2), of "Suc n"] unat_nth_page [OF assms(2), of 1] by simp_all
  have "unat (stack_size (stack_above g n) div PAGE_SIZE) = n"
    by (simp add: stack_size_def stack_above_def unat_div PAGE_SIZE_def unat_saturating_sub u)
  moreover have "S \<union> stack_block ?b fr {..<n} - stack_block ?b fr (set [0..<n]) = S" using assms(4) by (auto simp: atLeast0LessThan)
  ultimately show ?thesis using rollback_exact [OF assms(3,1) run, of "[0..<n]" fr]
    by (auto simp: unmap_stack_def stack_above_def atLeast0LessThan)
qed

section \<open>Properties\<close>

lemma building_start:
  assumes "space_ok m root a"
  shows "fa_inv a" "stacked root m a {} m a"
  using assms by (auto simp: stacked_def space_ok_def accounts_def one_each_def)

text \<open>A call never panics, gives \<open>E\<close> when it fails and \<open>Q\<close> when it succeeds.\<close>

fun outcome :: "('a \<Rightarrow> table_memory \<times> frame_allocator \<Rightarrow> bool) \<Rightarrow> (table_memory \<times> frame_allocator \<Rightarrow> bool) \<Rightarrow>
    ((panic + map_error) + 'a) \<times> table_memory \<times> frame_allocator \<Rightarrow> bool" where
  "outcome Q E (Inl (Inl p), s) = False"
| "outcome Q E (Inl (Inr e), s) = E s"
| "outcome Q E (Inr x, s) = Q x s"

definition triple :: "(table_memory \<times> frame_allocator \<Rightarrow> bool) \<Rightarrow> (map_error, 'a) stack_io \<Rightarrow>
    ('a \<Rightarrow> table_memory \<times> frame_allocator \<Rightarrow> bool) \<Rightarrow> (table_memory \<times> frame_allocator \<Rightarrow> bool) \<Rightarrow> bool" where
  "triple P A Q E \<longleftrightarrow> (\<forall>s. P s \<longrightarrow> outcome Q E (A s))"

lemma tripleI: "(\<And>s. P s \<Longrightarrow> outcome Q E (A s)) \<Longrightarrow> triple P A Q E"
  by (simp add: triple_def)

lemma tripleD: "triple P A Q E \<Longrightarrow> P s \<Longrightarrow> outcome Q E (A s)"
  unfolding triple_def by blast

lemma outcome_cases:
  assumes "outcome Q E r"
  obtains (err) e s where "r = (Inl (Inr e), s)" "E s" | (ok) x s where "r = (Inr x, s)" "Q x s"
  using assms by (cases "(Q, E, r)" rule: outcome.cases) auto

lemma call_bind:
  assumes "triple P A R E" "\<And>x. triple (R x) (B x) Q E"
  shows "triple P (io_bind A B) Q E"
proof (rule tripleI)
  fix s assume "P s"
  from tripleD [OF assms(1) this] show "outcome Q E (io_bind A B s)"
  proof (cases rule: outcome_cases)
    case (ok x s')
    then show ?thesis using tripleD [OF assms(2) ok(2)] by simp
  qed simp
qed

lemma triple_or_undo:
  assumes "triple P A Q R" "triple R U (\<lambda>_. E) (\<lambda>_. False)"
  shows "triple P (or_undo A U) Q E"
proof (rule tripleI)
  fix s assume "P s"
  from tripleD [OF assms(1) this] show "outcome Q E (or_undo A U s)"
  proof (cases rule: outcome_cases)
    case (err e s')
    from tripleD [OF assms(2) err(2)] show ?thesis
      by (cases rule: outcome_cases) (use err(1) in \<open>simp_all add: or_undo_def\<close>)
  qed (simp add: or_undo_def)
qed

lemma call_ret: "(\<And>s. P s \<Longrightarrow> Q x s) \<Longrightarrow> triple P (io_ret x) Q E"
  by (simp add: triple_def)

lemma triple_ex: "(\<And>y. triple (P y) A Q E) \<Longrightarrow> triple (\<lambda>s. \<exists>y. P y s) A Q E"
  unfolding triple_def by blast

lemma triple_eq: "triple P (A c) Q E \<Longrightarrow> triple (\<lambda>s. x = c \<and> P s) (A x) Q E"
  unfolding triple_def by blast

lemma triple_conj: "(C \<Longrightarrow> triple P A Q E) \<Longrightarrow> triple (\<lambda>s. C \<and> P s) A Q E"
  unfolding triple_def by blast

definition built :: "u64 \<Rightarrow> table_memory \<Rightarrow> frame_allocator \<Rightarrow> (u64 \<times> phys_frame) set \<Rightarrow> table_memory \<times> frame_allocator \<Rightarrow> bool" where
  "built root m0 a0 S = (\<lambda>(m, a). stacked root m0 a0 S m a)"

lemma triple_map_with_guard:
  assumes "fa_inv a0" "kernel_run g (Suc n)"
  shows "triple (built root m0 a0 S) (map_with_guard root \<lparr>page_start = VirtAddr g\<rparr> n)
    (\<lambda>st s. st = stack_above g n \<and> (\<exists>fr. S \<inter> stack_block (nth_page g 1) fr {..<n} = {} \<and> built root m0 a0 (S \<union> stack_block (nth_page g 1) fr {..<n}) s))
    (built root m0 a0 S)"
proof (rule tripleI)
  fix s assume "built root m0 a0 S s"
  moreover obtain m a where s: "s = (m, a)" by fastforce
  ultimately have B: "stacked root m0 a0 S m a" by (simp add: built_def)
  obtain r m' a' where r: "map_with_guard root \<lparr>page_start = VirtAddr g\<rparr> n (m, a) = (r, m', a')" by (metis prod_cases3)
  note X = map_with_guard_exact [OF assms B r]
  show "outcome (\<lambda>st s. st = stack_above g n \<and> (\<exists>fr. S \<inter> stack_block (nth_page g 1) fr {..<n} = {} \<and> built root m0 a0 (S \<union> stack_block (nth_page g 1) fr {..<n}) s))
      (built root m0 a0 S) (map_with_guard root \<lparr>page_start = VirtAddr g\<rparr> n s)"
  proof (cases r)
    case (Inl f)
    then show ?thesis using X by (cases f) (simp_all add: s r built_def)
  next
    case (Inr st)
    then show ?thesis using X by (auto simp: s r built_def)
  qed
qed

lemma triple_unmap_stack:
  assumes "fa_inv a0" "kernel_run g (Suc n)" "S \<inter> stack_block (nth_page g 1) fr {..<n} = {}"
  shows "triple (built root m0 a0 (S \<union> stack_block (nth_page g 1) fr {..<n})) (unmap_stack root (stack_above g n)) (\<lambda>_. built root m0 a0 S) E"
proof (rule tripleI)
  fix s assume "built root m0 a0 (S \<union> stack_block (nth_page g 1) fr {..<n}) s"
  moreover obtain m a where s: "s = (m, a)" by fastforce
  ultimately have "stacked root m0 a0 (S \<union> stack_block (nth_page g 1) fr {..<n}) m a" by (simp add: built_def)
  from unmap_stack_exact [OF assms(1,2) this assms(3)] show "outcome (\<lambda>_. built root m0 a0 S) E (unmap_stack root (stack_above g n) s)"
    by (auto simp: s built_def)
qed

text \<open>The three stacks one after the other, and what each failure takes down.\<close>

lemma triple_map_kernel_stacks:
  assumes inv: "fa_inv a0" and K: "kernel_run g 27"
  shows "triple (built root m0 a0 {}) (map_kernel_stacks root (VirtAddr g))
    (\<lambda>st s. st = (stack_above g 16, stack_above (nth_page g 17) 4, stack_above (nth_page g 22) 4) \<and>
      (\<exists>fr1 fr2 fr3. built root m0 a0 (stack_block (nth_page g 1) fr1 {..<16} \<union> stack_block (nth_page g 18) fr2 {..<4} \<union> stack_block (nth_page g 23) fr3 {..<4}) s))
    (built root m0 a0 {})"
proof -
  have K1: "kernel_run g (Suc 16)" using K by (simp add: kernel_run_def)
  have K2: "kernel_run (nth_page g 17) (Suc 4)" "kernel_run (nth_page g 22) (Suc 4)" by (rule kernel_run_sub [OF K], simp)+
  have top: "nth_page (nth_page g 17) 1 = nth_page g 18" "nth_page (nth_page g 17) 5 = nth_page g 22" "nth_page (nth_page g 22) 1 = nth_page g 23"
    by (simp_all add: nth_page_nth_page)
  have pc: "page_containing (VirtAddr g) = \<lparr>page_start = VirtAddr g\<rparr>"
    "page_containing (stack_top (stack_above g 16)) = \<lparr>page_start = VirtAddr (nth_page g 17)\<rparr>"
    "page_containing (stack_top (stack_above (nth_page g 17) 4)) = \<lparr>page_start = VirtAddr (nth_page g 22)\<rparr>"
    using page_containing_nth [OF K, of 0] page_containing_nth [OF K, of 17] page_containing_nth [OF K, of 22] top(2)
    by (simp_all add: stack_above_def nth_page_def algebra_simps)
  note G1 = triple_map_with_guard [OF inv K1, of root m0 "{}"]
  note G2 = triple_map_with_guard [OF inv K2(1), unfolded top] and G3 = triple_map_with_guard [OF inv K2(2), unfolded top]
  note U1 = triple_unmap_stack [OF inv K1, of "{}"] and U2 = triple_unmap_stack [OF inv K2(1), unfolded top]
  show ?thesis
    unfolding map_kernel_stacks_def pc KERNEL_STACK_PAGES_def DOUBLE_FAULT_STACK_PAGES_def SYSCALL_STACK_PAGES_def
    apply (rule call_bind [OF G1], rule triple_eq, rule triple_ex, rule triple_conj)
    unfolding pc
    apply (rule call_bind, rule triple_or_undo [OF G2], rule U1, simp, rule triple_eq, rule triple_ex, rule triple_conj)
    unfolding pc
    apply (rule call_bind, rule triple_or_undo [OF G3], rule call_bind, rule U2, assumption, rule U1, simp)
    apply (rule call_ret)
    apply auto
    done
qed

text \<open>The pages of the area, counted from its start: pages 0, 17, 22 and 27 are the guards.\<close>

definition stack_indices :: "nat set" where
  "stack_indices = {1..16} \<union> {18..21} \<union> {23..26}"

lemma blocks_as_one:
  "stack_block (nth_page g 1) fr1 {..<16} \<union> stack_block (nth_page g 18) fr2 {..<4} \<union> stack_block (nth_page g 23) fr3 {..<4} =
     stack_block g (\<lambda>i. if i \<le> 16 then fr1 (i - 1) else if i \<le> 21 then fr2 (i - 18) else fr3 (i - 23)) stack_indices" (is "_ = stack_block g ?fr _")
proof -
  have shift: "stack_block (nth_page g j) f {..<n} = (\<lambda>i. (nth_page g i, f (i - j))) ` {j..<j + n}" for j f n
  proof -
    have "{j..<j + n} = (\<lambda>i. j + i) ` {..<n}" by (simp add: image_add_atLeastLessThan lessThan_atLeast0 add.commute)
    then show ?thesis by (simp add: stack_block_def image_image nth_page_nth_page)
  qed
  have e: "stack_indices = {1..<1 + 16} \<union> {18..<18 + 4} \<union> {23..<23 + 4}" by (auto simp: stack_indices_def)
  have "stack_block g ?fr stack_indices = stack_block g ?fr {1..<1 + 16} \<union> stack_block g ?fr {18..<18 + 4} \<union> stack_block g ?fr {23..<23 + 4}"
    unfolding e stack_block_def by (simp add: image_Un)
  moreover have "stack_block g ?fr {1..<1 + 16} = (\<lambda>i. (nth_page g i, fr1 (i - 1))) ` {1..<1 + 16}"
    "stack_block g ?fr {18..<18 + 4} = (\<lambda>i. (nth_page g i, fr2 (i - 18))) ` {18..<18 + 4}"
    "stack_block g ?fr {23..<23 + 4} = (\<lambda>i. (nth_page g i, fr3 (i - 23))) ` {23..<23 + 4}"
    unfolding stack_block_def by (intro image_cong; simp)+
  ultimately show ?thesis by (simp only: shift)
qed

lemma built_stacks:
  assumes "stacked root m a (stack_block g fr stack_indices) m' a'" "kernel_run g 27"
  shows "inj_on (number \<circ> fr) stack_indices" "i \<in> stack_indices \<Longrightarrow> number (fr i) \<in> free_set a - free_set a'"
    "i \<in> stack_indices \<Longrightarrow> on_page (nth_page g i) va \<Longrightarrow> translate m' root va = Some (page_of (fr i) (kernel_flags True False) va)"
    "\<forall>i \<in> stack_indices. \<not> on_page (nth_page g i) va \<Longrightarrow> translate m' root va = translate m root va"
proof -
  let ?x = "\<lambda>i. (nth_page g i, fr i)"
  have in_block: "?x i \<in> stack_block g fr stack_indices" if "i \<in> stack_indices" for i using that by (simp add: stack_block_def)
  show "inj_on (number \<circ> fr) stack_indices"
  proof (rule inj_onI)
    fix i j assume ij: "i \<in> stack_indices" "j \<in> stack_indices" "(number \<circ> fr) i = (number \<circ> fr) j"
    have "one_each (stack_block g fr stack_indices)" using assms(1) by (simp add: stacked_def)
    then have "?x i = ?x j" using in_block [OF ij(1)] in_block [OF ij(2)] ij(3) unfolding one_each_def by (metis comp_apply snd_conv)
    moreover have "i \<le> 27" "j \<le> 27" using ij(1,2) by (auto simp: stack_indices_def)
    ultimately show "i = j" using nth_page_inj [OF assms(2)] by blast
  qed
  have acc: "accounts a (number ` snd ` stack_block g fr stack_indices) a'" using assms(1) by (simp add: stacked_def)
  show "number (fr i) \<in> free_set a - free_set a'" if "i \<in> stack_indices"
  proof -
    have "number (snd (?x i)) \<in> number ` snd ` stack_block g fr stack_indices" using in_block [OF that] by (intro imageI)
    then show ?thesis using acc unfolding accounts_def snd_conv by blast
  qed
  show "translate m' root va = Some (page_of (fr i) (kernel_flags True False) va)" if "i \<in> stack_indices" "on_page (nth_page g i) va"
  proof -
    have "leaf_of root m m' (?x i)" using assms(1) in_block [OF that(1)] unfolding stacked_def by blast
    then show ?thesis using that(2) by (simp add: leaf_of_def)
  qed
  show "translate m' root va = translate m root va" if "\<forall>i \<in> stack_indices. \<not> on_page (nth_page g i) va"
    using assms(1) that by (simp add: stacked_def stack_block_def)
qed

text \<open>
  C39. The kernel's stacks are all there or none is: from any well-formed address space, \<open>map_kernel_stacks\<close> at a page of kernel
  space with room for it never panics and leaves a well-formed space. If it succeeds, every page of the three stacks leads, writable, to
  a frame of its own that was free, and every other address, the guard pages below, between and above them included,
  translates as before. If it fails, wherever it failed, every address translates as before, and every frame that is not free
  any more is a page table.
\<close>

theorem kernel_stacks_all_or_nothing:
  assumes "space_ok m root a" "KERNEL_SPACE_BASE \<le> g" "g mod 4096 = 0" "unat g + 27 * 4096 < 2 ^ 64"
    "map_kernel_stacks root (VirtAddr g) (m, a) = (r, m', a')"
  shows "space_ok m' root a' \<and>
    (case r of
       Inl (Inl p) \<Rightarrow> False
     | Inl (Inr e) \<Rightarrow> (\<forall>va. translate m' root va = translate m root va) \<and>
         (purposes a \<noteq> None \<longrightarrow> (\<forall>n \<in> free_set a - free_set a'. purpose_of a' (frame_no n) = Some PageTable))
     | Inr st \<Rightarrow> \<exists>fr. inj_on (number \<circ> fr) stack_indices \<and>
         (\<forall>i \<in> stack_indices. number (fr i) \<in> free_set a - free_set a' \<and>
            (\<forall>va. on_page (nth_page g i) va \<longrightarrow> translate m' root va = Some (page_of (fr i) (kernel_flags True False) va))) \<and>
         (\<forall>va. (\<forall>i \<in> stack_indices. \<not> on_page (nth_page g i) va) \<longrightarrow> translate m' root va = translate m root va))"
proof -
  have K: "kernel_run g 27" using assms(2-4) by (simp add: kernel_run_def)
  have "built root m a {} (m, a)" using building_start(2) [OF assms(1)] by (simp add: built_def)
  from tripleD [OF triple_map_kernel_stacks [OF building_start(1) [OF assms(1)] K] this] show ?thesis
    unfolding assms(5)
  proof (cases rule: outcome_cases)
    case (err e s)
    then have "stacked root m a {} m' a'" by (auto simp: built_def)
    then show ?thesis using err(1) by (simp add: stacked_def accounts_def)
  next
    case (ok st s)
    then obtain fr where B: "stacked root m a (stack_block g fr stack_indices) m' a'" unfolding blocks_as_one by (auto simp: built_def)
    note S = built_stacks [OF B K]
    have "space_ok m' root a'" using B by (simp add: stacked_def)
    moreover have "r = Inr st" using ok(1) by simp
    ultimately show ?thesis using S by (simp only: sum.case) blast
  qed
qed

theorem kernel_stacks_all_or_nothing_witness:
  "\<exists>r m' a'. map_kernel_stacks 0x10000 (VirtAddr KERNEL_SPACE_BASE) (sample_tables, sample_allocator) = (r, m', a') \<and>
     space_ok m' 0x10000 a' \<and> (\<forall>p. r \<noteq> Inl (Inl p))"
proof -
  obtain r m' a' where run: "map_kernel_stacks 0x10000 (VirtAddr KERNEL_SPACE_BASE) (sample_tables, sample_allocator) = (r, m', a')" by (metis prod_cases3)
  have ok: "space_ok sample_tables 0x10000 sample_allocator" using sample_spaces by (simp add: spaces_ok_def)
  have "KERNEL_SPACE_BASE mod 4096 = 0" "unat KERNEL_SPACE_BASE + 27 * 4096 < 2 ^ 64" by (simp_all add: KERNEL_SPACE_BASE_def)
  from kernel_stacks_all_or_nothing [OF ok order_refl this run] run show ?thesis by auto
qed

end
