(* ===== verification/Gpt.thy ===== *)
theory Gpt
  imports Mkfat_Image Pe
begin

text \<open>
  The partitioned image for a USB stick (\<^verbatim>\<open>tools/xtask/src/gpt.rs\<close>): a protective MBR, a GUID partition table with its
  backup, and the partitions. Sector numbers are natural numbers: every volume is a list of bytes in memory. A
  partition's name is its UTF-16 code units. The copies into the image are collected in the order of the code and
  carried out with their bounds checks; those into arrays of a fixed size are in range.
\<close>

section \<open>The checksum\<close>

definition crc_bit :: "u32 \<Rightarrow> u32" where
  "crc_bit crc = (let carry = crc AND 1; crc = drop_bit 1 crc in if carry \<noteq> 0 then crc XOR 0xEDB88320 else crc)"

definition crc_byte :: "u8 \<Rightarrow> u32 \<Rightarrow> u32" where
  "crc_byte byte crc = (crc_bit ^^ 8) (crc XOR ucast byte)"

definition crc32 :: "bytes \<Rightarrow> u32" where
  "crc32 bs = NOT (fold crc_byte bs 0xFFFFFFFF)"

section \<open>The format\<close>

definition GPT_SECTOR :: usize where "GPT_SECTOR = 512"
definition FIRST_USABLE :: nat where "FIRST_USABLE = 2048"
definition ENTRY_COUNT :: u32 where "ENTRY_COUNT = 128"
definition GPT_ENTRY_BYTES :: u32 where "GPT_ENTRY_BYTES = 128"
definition ENTRY_SECTORS :: nat where "ENTRY_SECTORS = unat (ENTRY_COUNT * GPT_ENTRY_BYTES) div GPT_SECTOR"
definition GPT_SIGNATURE :: bytes where "GPT_SIGNATURE = [0x45, 0x46, 0x49, 0x20, 0x50, 0x41, 0x52, 0x54]"
definition GPT_REVISION :: u32 where "GPT_REVISION = 0x00010000"
definition GPT_HEADER_BYTES :: u32 where "GPT_HEADER_BYTES = 92"

definition ESP_TYPE :: bytes where
  "ESP_TYPE = [0x28, 0x73, 0x2A, 0xC1, 0x1F, 0xF8, 0xD2, 0x11, 0xBA, 0x4B, 0x00, 0xA0, 0xC9, 0x3E, 0xC9, 0x3B]"

definition DATA_TYPE :: bytes where
  "DATA_TYPE = [0xA2, 0xA0, 0xD0, 0xEB, 0xE5, 0xB9, 0x33, 0x44, 0x87, 0xC0, 0x68, 0xB6, 0xB7, 0x26, 0x99, 0xC7]"

text \<open>The GUIDs are the bytes of HARLAN-DISK-GUID, HARLAN-ESP--PART and HARLAN-DATA-PART.\<close>

definition DISK_GUID :: bytes where "DISK_GUID = [72, 65, 82, 76, 65, 78, 45, 68, 73, 83, 75, 45, 71, 85, 73, 68]"
definition ESP_GUID :: bytes where "ESP_GUID = [72, 65, 82, 76, 65, 78, 45, 69, 83, 80, 45, 45, 80, 65, 82, 84]"
definition DATA_GUID :: bytes where "DATA_GUID = [72, 65, 82, 76, 65, 78, 45, 68, 65, 84, 65, 45, 80, 65, 82, 84]"

lemmas gpt_sizes = GPT_SECTOR_def FIRST_USABLE_def ENTRY_COUNT_def GPT_ENTRY_BYTES_def ENTRY_SECTORS_def GPT_HEADER_BYTES_def

record partition =
  part_name :: "u16 list"
  type_guid :: bytes
  part_guid :: bytes
  part_contents :: bytes

datatype gpt_error = NoPartitions | TooManyPartitions usize | NotWholeSectors "u16 list" usize | NoSectors "u16 list"

definition gpt_sector_with :: "nat \<Rightarrow> nat \<Rightarrow> nat \<Rightarrow> nat \<Rightarrow> nat \<Rightarrow> u32 \<Rightarrow> bytes" where
  "gpt_sector_with this_lba other_lba entries_lba first_usable last_usable entries_crc =
     filled_in GPT_SECTOR
       [(0, GPT_SIGNATURE), (8, u32_to_le GPT_REVISION), (12, u32_to_le GPT_HEADER_BYTES), (24, u64_to_le (of_nat this_lba)),
        (32, u64_to_le (of_nat other_lba)), (40, u64_to_le (of_nat first_usable)), (48, u64_to_le (of_nat last_usable)),
        (56, DISK_GUID), (72, u64_to_le (of_nat entries_lba)), (80, u32_to_le ENTRY_COUNT), (84, u32_to_le GPT_ENTRY_BYTES),
        (88, u32_to_le entries_crc)]"

definition gpt_header :: "nat \<Rightarrow> nat \<Rightarrow> nat \<Rightarrow> nat \<Rightarrow> nat \<Rightarrow> u32 \<Rightarrow> bytes" where
  "gpt_header this_lba other_lba entries_lba first_usable last_usable entries_crc =
     (let sector = gpt_sector_with this_lba other_lba entries_lba first_usable last_usable entries_crc;
          crc = crc32 (take (unat GPT_HEADER_BYTES) sector)
      in copy_at sector 16 (u32_to_le crc))"

definition gpt_entry :: "partition \<Rightarrow> nat \<times> nat \<Rightarrow> bytes" where
  "gpt_entry p = (\<lambda>(first, last).
     filled_in (unat GPT_ENTRY_BYTES)
       ([(0, type_guid p), (16, part_guid p), (32, u64_to_le (of_nat first)), (40, u64_to_le (of_nat last)), (48, u64_to_le 0)] @
        map (\<lambda>(step, code). (56 + step * 2, u16_to_le code)) (enumerate 0 (take 36 (part_name p)))))"

definition gpt_entries :: "(partition \<times> nat \<times> nat) list \<Rightarrow> bytes" where
  "gpt_entries placed =
     filled_in (unat (ENTRY_COUNT * GPT_ENTRY_BYTES))
       (map (\<lambda>(at, p, extent). (at * unat GPT_ENTRY_BYTES, gpt_entry p extent)) (enumerate 0 placed))"

definition protective_mbr :: "nat \<Rightarrow> patch list" where
  "protective_mbr sectors_in_all =
     [(446, [0]), (447, [0x00, 0x02, 0x00]), (450, [0xEE]), (451, [0xFF, 0xFF, 0xFF]), (454, u32_to_le 1),
      (458, u32_to_le (if sectors_in_all - 1 < 2 ^ 32 then of_nat (sectors_in_all - 1) else - 1)), (510, [0x55]), (511, [0xAA])]"

section \<open>The image\<close>

definition next_mebibyte :: "nat \<Rightarrow> nat" where
  "next_mebibyte n = (if n mod FIRST_USABLE = 0 then n div FIRST_USABLE else n div FIRST_USABLE + 1) * FIRST_USABLE"

text \<open>Where each partition goes, and the sector after the last.\<close>

fun place_partitions :: "nat \<Rightarrow> partition list \<Rightarrow> gpt_error + (nat \<times> nat) list \<times> nat" where
  "place_partitions nxt [] = Inr ([], nxt)"
| "place_partitions nxt (p # ps) =
     (if length (part_contents p) mod GPT_SECTOR \<noteq> 0 then Inl (NotWholeSectors (part_name p) (length (part_contents p)))
      else let sectors = length (part_contents p) div GPT_SECTOR in
        if sectors = 0 then Inl (NoSectors (part_name p))
        else and_then (place_partitions (next_mebibyte (nxt + sectors)) ps) (\<lambda>(placed, stop).
          Inr ((nxt, nxt + sectors - 1) # placed, stop)))"

definition image_patches :: "partition list \<Rightarrow> (nat \<times> nat) list \<Rightarrow> nat \<Rightarrow> patch list" where
  "image_patches ps placed nxt =
     (let last_lba = nxt + ENTRY_SECTORS;
          entries = gpt_entries (zip ps placed);
          entries_crc = crc32 entries;
          last_usable = nxt - 1;
          backup_entries_lba = last_lba - ENTRY_SECTORS
      in map (\<lambda>(p, first, last). (first * GPT_SECTOR, part_contents p)) (zip ps placed) @
         [(GPT_SECTOR, gpt_header 1 last_lba 2 FIRST_USABLE last_usable entries_crc),
          (2 * GPT_SECTOR, entries),
          (backup_entries_lba * GPT_SECTOR, entries),
          (last_lba * GPT_SECTOR, gpt_header last_lba 1 backup_entries_lba FIRST_USABLE last_usable entries_crc)] @
         protective_mbr (last_lba + 1))"

definition build_image :: "partition list \<Rightarrow> (panic + gpt_error) + bytes" where
  "build_image ps =
     (if ps = [] then Inl (Inr NoPartitions)
      else if unat ENTRY_COUNT < length ps then Inl (Inr (TooManyPartitions (length ps)))
      else and_then (map_err Inr (place_partitions FIRST_USABLE ps)) (\<lambda>(placed, nxt).
        map_err Inl (put_all (image_patches ps placed nxt) (replicate ((nxt + ENTRY_SECTORS + 1) * GPT_SECTOR) 0))))"

text \<open>The ESP with the boot loader, and the data volume.\<close>

definition BOOT_PATH :: bytes where
  "BOOT_PATH = [69, 70, 73, 47, 66, 79, 79, 84, 47, 66, 79, 79, 84, 88, 54, 52, 46, 69, 70, 73]"

definition usb_image :: "bytes \<Rightarrow> bytes \<Rightarrow> u32 \<Rightarrow> (panic + format_error + gpt_error) + bytes" where
  "usb_image bootloader data esp_sectors =
     and_then (map_err (map_sum id Inl) (mk_format esp_sectors 1 [72, 65, 82, 76, 65, 78, 69, 83, 80]
         [\<lparr>f_name = BOOT_PATH, f_contents = bootloader\<rparr>])) (\<lambda>(esp, _).
       map_err (map_sum id Inr) (build_image
         [\<lparr>part_name = [72, 65, 82, 76, 65, 78, 32, 69, 83, 80], type_guid = ESP_TYPE, part_guid = ESP_GUID, part_contents = esp\<rparr>,
          \<lparr>part_name = [72, 65, 82, 76, 65, 78], type_guid = DATA_TYPE, part_guid = DATA_GUID, part_contents = data\<rparr>]))"

section \<open>Damage\<close>

lemma crc_bit_inj: "inj crc_bit"
proof (rule injI)
  fix a b :: u32 assume e: "crc_bit a = crc_bit b"
  have c: "crc_bit x = (if bit x 0 then drop_bit 1 x XOR 0xEDB88320 else drop_bit 1 x)" for x
    by (simp add: crc_bit_def Let_def and_one_eq bit_0 odd_iff_mod_2_eq_one)
  have p: "bit (0xEDB88320 :: u32) 31" by simp
  have top: "bit (crc_bit x) 31 \<longleftrightarrow> bit x 0" for x
    using p bit_imp_le_length [of x 32] by (auto simp: c bit_xor_iff bit_drop_bit_eq)
  have low: "bit a 0 \<longleftrightarrow> bit b 0" using top e by metis
  have "(drop_bit 1 a XOR 0xEDB88320) XOR 0xEDB88320 = (drop_bit 1 b XOR 0xEDB88320) XOR 0xEDB88320" if "bit a 0" using e low that by (simp add: c)
  then have d: "drop_bit 1 a = drop_bit 1 b" using e low by (cases "bit a 0") (simp_all add: c xor.assoc)
  show "a = b"
  proof (rule bit_word_eqI)
    fix n :: nat
    show "bit a n = bit b n"
    proof (cases n)
      case (Suc k)
      have "bit (drop_bit 1 a) k = bit (drop_bit 1 b) k" using d by simp
      then show ?thesis by (simp add: bit_drop_bit_eq Suc)
    qed (use low in simp)
  qed
qed

lemma xor_cancel: "(x :: 'a::len word) XOR z = y XOR z \<Longrightarrow> x = y"
  by (metis xor.assoc xor.right_neutral xor_self_eq)

lemma crc_byte_inj: "crc_byte b c = crc_byte b d \<Longrightarrow> c = d" "crc_byte b c = crc_byte b' c \<Longrightarrow> b = b'"
proof -
  have i: "inj (crc_bit ^^ 8)" by (rule inj_fn [OF crc_bit_inj])
  show "crc_byte b c = crc_byte b d \<Longrightarrow> c = d" using injD [OF i] xor_cancel unfolding crc_byte_def by blast
  assume "crc_byte b c = crc_byte b' c"
  then have "c XOR ucast b = c XOR ucast b'" using injD [OF i] unfolding crc_byte_def by blast
  then have "(ucast b :: u32) = ucast b'" by (metis xor.commute xor_cancel)
  then show "b = b'" by (metis word_unat_eq_iff unat_ucast_up [where 'a = 8 and 'b = 32, simplified])
qed

lemma fold_crc_inj: "fold crc_byte bs c = fold crc_byte bs d \<Longrightarrow> c = d"
  by (induction bs arbitrary: c d) (auto dest: crc_byte_inj(1))

text \<open>
  A damaged byte never goes unnoticed: two sequences of bytes that differ in exactly one place have different checksums,
  whatever is before and after it.
\<close>

theorem crc32_detects_a_damaged_byte:
  assumes "b \<noteq> c"
  shows "crc32 (pre @ b # suf) \<noteq> crc32 (pre @ c # suf)"
proof
  assume "crc32 (pre @ b # suf) = crc32 (pre @ c # suf)"
  then have "fold crc_byte (pre @ b # suf) 0xFFFFFFFF = fold crc_byte (pre @ c # suf) 0xFFFFFFFF"
    unfolding crc32_def by (metis bit.double_compl)
  then have "crc_byte b (fold crc_byte pre 0xFFFFFFFF) = crc_byte c (fold crc_byte pre 0xFFFFFFFF)"
    by (auto dest: fold_crc_inj)
  then show False using crc_byte_inj(2) assms by blast
qed

theorem crc32_detects_a_damaged_byte_witness: "crc32 [0x61, 0x62, 0x63] \<noteq> crc32 [0x61, 0x42, 0x63]"
  using crc32_detects_a_damaged_byte [of "0x62" "0x42" "[0x61]" "[0x63]"] by simp

text \<open>The checksum is the one that everything else computes.\<close>

lemma crc32_known: "crc32 [] = 0" "crc32 [0x61] = 0xE8B7BE43" "crc32 [0x61, 0x62, 0x63] = 0x352441C2"
  by code_simp+

section \<open>Copies into arrays\<close>

lemma within_nthI: "(\<And>i. i < length ws \<Longrightarrow> lo \<le> fst (ws ! i) \<and> fst (ws ! i) + length (snd (ws ! i)) \<le> hi) \<Longrightarrow> within lo hi ws"
  by (fastforce simp: within_def in_set_conv_nth)

lemma sorted_wrt_nthI: "(\<And>i j. i < j \<Longrightarrow> j < length ws \<Longrightarrow> R (ws ! i) (ws ! j)) \<Longrightarrow> sorted_wrt R ws"
  by (simp add: sorted_wrt_iff_nth_less)

lemma length_filled: "within 0 n parts \<Longrightarrow> length (filled_in n parts) = n"
  using put_all_length [OF filled_in_put] by simp

lemma slice_eqI:
  assumes "a + length bs \<le> length xs" "\<And>i. i < length bs \<Longrightarrow> xs ! (a + i) = bs ! i"
  shows "take (length bs) (drop a xs) = bs"
  using assms by (intro nth_equalityI) auto

lemma filled_in_slice:
  assumes "within 0 n parts" "sorted_wrt apart parts" "(a, bs) \<in> set parts"
  shows "take (length bs) (drop a (filled_in n parts)) = bs"
proof (rule slice_eqI)
  show "a + length bs \<le> length (filled_in n parts)" using assms(1,3) length_filled [OF assms(1)] by (auto simp: within_def)
qed (rule filled_in_nth [OF assms])

lemma u32_le_at:
  assumes "take 4 (drop at bs) = u32_to_le w"
  shows "u32_at bs at = w"
proof -
  have "bs ! (at + i) = u32_to_le w ! i" if "i < 4" for i
  proof -
    have l: "length (take 4 (drop at bs)) = 4" using assms by simp
    have "take 4 (drop at bs) ! i = bs ! (at + i)" using that l by simp
    then show ?thesis using assms by simp
  qed
  from this [of 0] this [of 1] this [of 2] this [of 3] show ?thesis
    by (simp add: u32_at_def u32_to_le_def u32_le_roundtrip)
qed

lemma u64_le_at:
  assumes "take 8 (drop at bs) = u64_to_le w"
  shows "u64_at bs at = w"
proof (rule u64_le_roundtrip)
  fix i :: nat assume i: "i < 8"
  have l: "length (take 8 (drop at bs)) = 8" using assms by simp
  have "take 8 (drop at bs) ! i = bs ! (at + i)" using i l by simp
  then show "bs ! (at + i) = u64_to_le w ! i" using assms by simp
qed

section \<open>What a reader finds\<close>

text \<open>
  A reader of a GUID partition table, as the UEFI specification describes it: a header is good if its signature, its own
  place, its own checksum (over the header with that field zero) and that of the entries are.
\<close>

definition sector_at :: "bytes \<Rightarrow> nat \<Rightarrow> bytes" where
  "sector_at img lba = take 512 (drop (lba * 512) img)"

definition gpt_good :: "bytes \<Rightarrow> nat \<Rightarrow> bool" where
  "gpt_good img lba \<longleftrightarrow> (let h = sector_at img lba in
     take 8 h = GPT_SIGNATURE \<and> u32_at h 8 = GPT_REVISION \<and> u32_at h 12 = 92 \<and> u64_at h 24 = of_nat lba \<and>
     crc32 (copy_at (take 92 h) 16 [0, 0, 0, 0]) = u32_at h 16 \<and> u32_at h 80 = 128 \<and> u32_at h 84 = 128 \<and>
     crc32 (take 16384 (drop (unat (u64_at h 72) * 512) img)) = u32_at h 88)"

definition entry_of :: "bytes \<Rightarrow> nat \<Rightarrow> nat \<Rightarrow> bytes" where
  "entry_of img lba i = take 128 (drop (unat (u64_at (sector_at img lba) 72) * 512 + i * 128) img)"

text \<open>A partition of the table: its type, its GUID, its first and last sector.\<close>

definition gpt_partition :: "bytes \<Rightarrow> nat \<Rightarrow> nat \<Rightarrow> bytes \<times> bytes \<times> nat \<times> nat" where
  "gpt_partition img lba i =
     (let e = entry_of img lba i in (take 16 e, take 16 (drop 16 e), unat (u64_at e 32), unat (u64_at e 40)))"

definition sectors_between :: "bytes \<Rightarrow> nat \<Rightarrow> nat \<Rightarrow> bytes" where
  "sectors_between img first final = take ((final + 1 - first) * 512) (drop (first * 512) img)"

subsection \<open>The header\<close>

definition header_parts :: "nat \<Rightarrow> nat \<Rightarrow> nat \<Rightarrow> nat \<Rightarrow> nat \<Rightarrow> u32 \<Rightarrow> patch list" where
  "header_parts a b e f l crc =
     [(0, GPT_SIGNATURE), (8, u32_to_le GPT_REVISION), (12, u32_to_le GPT_HEADER_BYTES), (24, u64_to_le (of_nat a)),
      (32, u64_to_le (of_nat b)), (40, u64_to_le (of_nat f)), (48, u64_to_le (of_nat l)), (56, DISK_GUID), (72, u64_to_le (of_nat e)),
      (80, u32_to_le ENTRY_COUNT), (84, u32_to_le GPT_ENTRY_BYTES), (88, u32_to_le crc)]"

lemma length_GPT_SIGNATURE: "length GPT_SIGNATURE = 8"
  by (simp add: GPT_SIGNATURE_def)

lemma header_parts_ok:
  "within 0 512 (header_parts a b e f l crc)" "sorted_wrt apart (header_parts a b e f l crc)"
  "gpt_sector_with a b e f l crc = filled_in 512 (header_parts a b e f l crc)"
  by (simp_all add: header_parts_def apart_def GPT_SIGNATURE_def DISK_GUID_def gpt_sector_with_def GPT_SECTOR_def)

lemma gpt_sector_hole:
  assumes "16 \<le> j" "j < 20"
  shows "gpt_sector_with a b e f l crc ! j = 0"
proof -
  have "\<forall>(x, bs) \<in> set (header_parts a b e f l crc). j < x \<or> x + length bs \<le> j"
    using assms by (simp add: header_parts_def GPT_SIGNATURE_def DISK_GUID_def)
  from put_all_outside [OF filled_in_put [OF header_parts_ok(1)] _ this] show ?thesis using assms by (simp add: header_parts_ok(3))
qed

lemma length_gpt_sector: "length (gpt_sector_with a b e f l crc) = 512"
  by (simp add: header_parts_ok(3) length_filled [OF header_parts_ok(1)])

lemma copy_at_hole:
  assumes "length ys \<le> n" "n \<le> length xs" "\<And>j. at \<le> j \<Longrightarrow> j < at + length ys \<Longrightarrow> xs ! j = 0" "at + length ys \<le> n" "length zs = length ys"
  shows "copy_at (take n (copy_at xs at ys)) at (replicate (length zs) 0) = take n xs"
proof (rule nth_equalityI)
  show "length (copy_at (take n (copy_at xs at ys)) at (replicate (length zs) 0)) = length (take n xs)" using assms by simp
  fix i assume i: "i < length (copy_at (take n (copy_at xs at ys)) at (replicate (length zs) 0))"
  then show "copy_at (take n (copy_at xs at ys)) at (replicate (length zs) 0) ! i = take n xs ! i"
    using assms by (auto simp: nth_copy_at nth_append)
qed

lemma header_slice:
  assumes "(x, bs) \<in> set (header_parts a b e f l crc)" "x + length bs \<le> 16 \<or> 20 \<le> x"
  shows "take (length bs) (drop x (gpt_header a b e f l crc)) = bs"
proof (rule slice_eqI)
  have r: "x + length bs \<le> 512" using assms(1) header_parts_ok(1) [of a b e f l crc] by (auto simp: within_def)
  then show "x + length bs \<le> length (gpt_header a b e f l crc)" by (simp add: gpt_header_def Let_def length_gpt_sector)
  fix i assume i: "i < length bs"
  have "gpt_sector_with a b e f l crc ! (x + i) = bs ! i"
    unfolding header_parts_ok(3) by (rule filled_in_nth [OF header_parts_ok(1,2) assms(1) i])
  then show "gpt_header a b e f l crc ! (x + i) = bs ! i"
    using i r assms(2) by (auto simp: gpt_header_def Let_def nth_copy_at length_gpt_sector)
qed

lemma header_reads:
  fixes a b e f l :: nat and crc :: u32
  defines "h \<equiv> gpt_header a b e f l crc"
  shows "length h = 512" "take 8 h = GPT_SIGNATURE" "u32_at h 8 = GPT_REVISION" "u32_at h 12 = 92" "u64_at h 24 = of_nat a"
    "u64_at h 72 = of_nat e" "u32_at h 80 = 128" "u32_at h 84 = 128" "u32_at h 88 = crc"
    "crc32 (copy_at (take 92 h) 16 [0, 0, 0, 0]) = u32_at h 16"
proof -
  let ?s = "gpt_sector_with a b e f l crc"
  note S = header_slice [of _ _ a b e f l crc, folded h_def]
  show "length h = 512" by (simp add: h_def gpt_header_def Let_def length_gpt_sector)
  show "take 8 h = GPT_SIGNATURE" using S [of 0 GPT_SIGNATURE] by (simp add: header_parts_def length_GPT_SIGNATURE)
  have four: "u32_at h x = w" if "(x, u32_to_le w) \<in> set (header_parts a b e f l crc)" "x + 4 \<le> 16 \<or> 20 \<le> x" for x w
    using u32_le_at [of x h w] S [OF that(1)] that(2) by simp
  have eight: "u64_at h x = w" if "(x, u64_to_le w) \<in> set (header_parts a b e f l crc)" "x + 8 \<le> 16 \<or> 20 \<le> x" for x w
    using u64_le_at [of x h w] S [OF that(1)] that(2) by simp
  show "u32_at h 8 = GPT_REVISION" "u32_at h 12 = 92" "u32_at h 80 = 128" "u32_at h 84 = 128" "u32_at h 88 = crc"
    by (rule four; simp add: header_parts_def GPT_HEADER_BYTES_def ENTRY_COUNT_def GPT_ENTRY_BYTES_def)+
  show "u64_at h 24 = of_nat a" "u64_at h 72 = of_nat e" by (rule eight; simp add: header_parts_def)+
  have h: "h = copy_at ?s 16 (u32_to_le (crc32 (take 92 ?s)))" by (simp add: h_def gpt_header_def Let_def GPT_HEADER_BYTES_def)
  have "take (length (u32_to_le (crc32 (take 92 ?s)))) (drop 16 h) = u32_to_le (crc32 (take 92 ?s))"
    unfolding h by (rule slice_eqI) (simp_all add: nth_copy_at length_gpt_sector)
  then have "u32_at h 16 = crc32 (take 92 ?s)" by (intro u32_le_at) simp
  moreover have "copy_at (take 92 h) 16 (replicate (length (u32_to_le 0)) 0) = take 92 ?s"
    unfolding h by (rule copy_at_hole) (simp_all add: length_gpt_sector gpt_sector_hole)
  ultimately show "crc32 (copy_at (take 92 h) 16 [0, 0, 0, 0]) = u32_at h 16" by (simp add: numeral_eq_Suc)
qed

subsection \<open>The entries\<close>

lemma length_u16_le [simp]: "length (u16_to_le w) = 2"
  by simp

definition entry_parts :: "partition \<Rightarrow> nat \<Rightarrow> nat \<Rightarrow> patch list" where
  "entry_parts p first final =
     [(0, type_guid p), (16, part_guid p), (32, u64_to_le (of_nat first)), (40, u64_to_le (of_nat final)), (48, u64_to_le 0)] @
     map (\<lambda>(step, code). (56 + step * 2, u16_to_le code)) (enumerate 0 (take 36 (part_name p)))"

definition guids_ok :: "partition \<Rightarrow> bool" where
  "guids_ok p \<longleftrightarrow> length (type_guid p) = 16 \<and> length (part_guid p) = 16"

lemma entry_parts_ok:
  assumes "guids_ok p"
  shows "within 0 128 (entry_parts p first final)" "sorted_wrt apart (entry_parts p first final)"
    "gpt_entry p (first, final) = filled_in 128 (entry_parts p first final)"
proof -
  let ?names = "map (\<lambda>(step, code). (56 + step * 2, u16_to_le code)) (enumerate 0 (take 36 (part_name p)))"
  have w: "within 56 128 ?names" by (auto simp: within_def in_set_enumerate_eq)
  have "apart (?names ! i) (?names ! j)" if "i < j" "j < length ?names" for i j
    using that by (simp add: nth_enumerate_eq apart_def)
  then have s: "sorted_wrt apart ?names" by (rule sorted_wrt_nthI)
  let ?head = "[(0, type_guid p), (16, part_guid p), (32, u64_to_le (of_nat first)), (40, u64_to_le (of_nat final)), (48, u64_to_le 0)]"
  have h: "within 0 56 ?head" "sorted_wrt apart ?head" using assms by (simp_all add: guids_ok_def apart_def)
  show "within 0 128 (entry_parts p first final)" using within_mono [OF w, of 0 128] within_mono [OF h(1), of 0 128] by (simp add: entry_parts_def)
  show "sorted_wrt apart (entry_parts p first final)"
    unfolding entry_parts_def using apart_append [OF h(1) w _ h(2) s] by simp
  show "gpt_entry p (first, final) = filled_in 128 (entry_parts p first final)"
    by (simp add: gpt_entry_def entry_parts_def GPT_ENTRY_BYTES_def)
qed

lemma entry_reads:
  assumes "guids_ok p" "e = gpt_entry p (first, final)"
  shows "length e = 128" "take 16 e = type_guid p" "take 16 (drop 16 e) = part_guid p" "u64_at e 32 = of_nat first" "u64_at e 40 = of_nat final"
proof -
  note E = entry_parts_ok [OF assms(1), of first final]
  note S = filled_in_slice [OF E(1,2), folded E(3), folded assms(2)]
  show "length e = 128" by (simp add: assms(2) E(3) length_filled [OF E(1)])
  show "take 16 e = type_guid p" using S [of 0 "type_guid p"] assms(1) by (simp add: entry_parts_def guids_ok_def)
  show "take 16 (drop 16 e) = part_guid p" using S [of 16 "part_guid p"] assms(1) by (simp add: entry_parts_def guids_ok_def)
  show "u64_at e 32 = of_nat first" using S [of 32 "u64_to_le (of_nat first)"] by (intro u64_le_at) (simp add: entry_parts_def)
  show "u64_at e 40 = of_nat final" using S [of 40 "u64_to_le (of_nat final)"] by (intro u64_le_at) (simp add: entry_parts_def)
qed

lemma entries_slice:
  assumes "length placed \<le> 128" "\<forall>x \<in> set placed. guids_ok (fst x)" "i < length placed"
  shows "length (gpt_entries placed) = 16384"
    "take 128 (drop (i * 128) (gpt_entries placed)) = gpt_entry (fst (placed ! i)) (snd (placed ! i))"
proof -
  let ?parts = "map (\<lambda>(at, p, extent). (at * 128, gpt_entry p extent)) (enumerate 0 placed)"
  have len: "length (gpt_entry (fst (placed ! j)) (snd (placed ! j))) = 128" if "j < length placed" for j
    using entry_reads(1) [of "fst (placed ! j)" _ "fst (snd (placed ! j))" "snd (snd (placed ! j))", OF _ refl] assms(2) nth_mem [OF that] by simp
  have nth: "?parts ! j = (j * 128, gpt_entry (fst (placed ! j)) (snd (placed ! j)))" if "j < length placed" for j
    using that by (simp add: nth_enumerate_eq split: prod.splits)
  have w: "within 0 16384 ?parts"
  proof -
    have "j * 128 + length (gpt_entry (fst (placed ! j)) (snd (placed ! j))) \<le> 16384" if "j < length placed" for j
      using len [OF that] that assms(1) by simp
    then show ?thesis using nth by (intro within_nthI) (simp del: nth_map)
  qed
  have "apart (?parts ! j) (?parts ! k)" if "j < k" "k < length ?parts" for j k
    using that nth [of j] nth [of k] len [of j] by (simp add: apart_def del: nth_map)
  then have s: "sorted_wrt apart ?parts" by (rule sorted_wrt_nthI)
  have e: "gpt_entries placed = filled_in 16384 ?parts" by (simp add: gpt_entries_def ENTRY_COUNT_def GPT_ENTRY_BYTES_def)
  show "length (gpt_entries placed) = 16384" by (simp add: e length_filled [OF w])
  have "?parts ! i \<in> set ?parts" using assms(3) by (intro nth_mem) simp
  then have "(i * 128, gpt_entry (fst (placed ! i)) (snd (placed ! i))) \<in> set ?parts" using nth [OF assms(3)] by (simp del: nth_map)
  from filled_in_slice [OF w s this] show "take 128 (drop (i * 128) (gpt_entries placed)) = gpt_entry (fst (placed ! i)) (snd (placed ! i))"
    using len [OF assms(3)] by (simp add: e)
qed

subsection \<open>The layout\<close>

lemma next_mebibyte_ok: "n \<le> next_mebibyte n" "2048 dvd next_mebibyte n"
proof -
  show "2048 dvd next_mebibyte n" by (simp add: next_mebibyte_def FIRST_USABLE_def)
  show "n \<le> next_mebibyte n" using mult_div_mod_eq [of 2048 n] mod_less_divisor [of 2048 n]
    by (auto simp: next_mebibyte_def FIRST_USABLE_def)
qed

definition extent_ok :: "partition \<Rightarrow> nat \<times> nat \<Rightarrow> bool" where
  "extent_ok p x \<longleftrightarrow> 2048 dvd fst x \<and> fst x \<le> snd x \<and> length (part_contents p) = (snd x + 1 - fst x) * 512"

lemma place_partitions_ok:
  "place_partitions n ps = Inr (placed, stop) \<Longrightarrow> 2048 dvd n \<Longrightarrow>
     n \<le> stop \<and> length placed = length ps \<and> list_all2 extent_ok ps placed \<and> (\<forall>x \<in> set placed. n \<le> fst x \<and> snd x < stop) \<and>
     sorted_wrt (\<lambda>x y. snd x < fst y) placed \<and> (ps \<noteq> [] \<longrightarrow> n < stop)"
proof (induction ps arbitrary: n placed)
  case (Cons p ps)
  let ?s = "length (part_contents p) div 512"
  have p: "length (part_contents p) = ?s * 512" "0 < ?s" using Cons.prems(1)
    by (auto simp: GPT_SECTOR_def Let_def split: if_splits)
  obtain more where more: "place_partitions (next_mebibyte (n + ?s)) ps = Inr (more, stop)" "placed = (n, n + ?s - 1) # more"
    using Cons.prems(1) by (auto simp: GPT_SECTOR_def Let_def and_then_Inr_iff split: if_splits)
  note IH = Cons.IH [OF more(1) next_mebibyte_ok(2)]
  have m: "n + ?s \<le> next_mebibyte (n + ?s)" by (rule next_mebibyte_ok)
  have "extent_ok p (n, n + ?s - 1)" using p Cons.prems(2) by (simp add: extent_ok_def)
  moreover have "\<forall>x \<in> set more. n + ?s \<le> fst x \<and> snd x < stop" using IH m by (meson le_trans)
  ultimately show ?case using IH m p(2) unfolding more(2) by auto
qed simp

lemma ENTRY_SECTORS_eq: "ENTRY_SECTORS = 32"
  by (simp add: gpt_sizes)

lemma image_patches_ok:
  assumes "place_partitions 2048 ps = Inr (placed, n)" "ps \<noteq> []" "length ps \<le> 128" "\<forall>p \<in> set ps. guids_ok p"
  shows "within 0 ((n + 33) * 512) (image_patches ps placed n)" "sorted_wrt apart (image_patches ps placed n)"
proof -
  have "2048 dvd (2048 :: nat)" by simp
  note L = place_partitions_ok [OF assms(1) this]
  let ?z = "zip ps placed"
  let ?parts = "map (\<lambda>(p, first, final). (first * 512, part_contents p)) ?z"
  have n: "2048 < n" "length placed = length ps" using L assms(2) by auto
  have gz: "\<forall>x \<in> set ?z. guids_ok (fst x)" using assms(4) by (auto dest: set_zip_leftD)
  have el: "length (gpt_entries ?z) = 16384" using entries_slice(1) [of ?z 0] gz assms(2,3) n(2) by simp
  have ext: "extent_ok (ps ! i) (placed ! i)" if "i < length ps" for i using L that list_all2_nthD by blast
  have nth: "?parts ! i = (fst (placed ! i) * 512, part_contents (ps ! i))" if "i < length ps" for i
    using that n(2) by (simp split: prod.splits)
  have inside: "2048 * 512 \<le> fst (placed ! i) * 512 \<and> fst (placed ! i) * 512 + length (part_contents (ps ! i)) \<le> n * 512 \<and>
      fst (placed ! i) * 512 + length (part_contents (ps ! i)) = (snd (placed ! i) + 1) * 512" if "i < length ps" for i
  proof -
    have i: "2048 \<le> fst (placed ! i)" "snd (placed ! i) + 1 \<le> n" using L nth_mem [of i placed] that n(2) by (simp_all add: Suc_le_eq)
    have x: "fst (placed ! i) \<le> snd (placed ! i)" "length (part_contents (ps ! i)) = (snd (placed ! i) + 1 - fst (placed ! i)) * 512"
      using ext [OF that] by (simp_all add: extent_ok_def)
    have "fst (placed ! i) * 512 + length (part_contents (ps ! i)) = (snd (placed ! i) + 1) * 512"
      using x by (simp add: diff_mult_distrib)
    then show ?thesis using i mult_le_mono1 [OF i(2), of 512] by simp
  qed
  have w: "within (2048 * 512) (n * 512) ?parts"
  proof (rule within_nthI)
    fix i assume "i < length ?parts"
    then have i: "i < length ps" using n(2) by simp
    show "2048 * 512 \<le> fst (?parts ! i) \<and> fst (?parts ! i) + length (snd (?parts ! i)) \<le> n * 512"
      using inside [OF i] unfolding nth [OF i] fst_conv snd_conv by blast
  qed
  have "apart (?parts ! i) (?parts ! j)" if "i < j" "j < length ?parts" for i j
  proof -
    have "snd (placed ! i) < fst (placed ! j)" using L that n(2) sorted_wrt_nth_less by fastforce
    then show ?thesis using that n(2) nth [of i] nth [of j] inside [of i] by (simp add: apart_def del: nth_map)
  qed
  then have s: "sorted_wrt apart ?parts" by (rule sorted_wrt_nthI)
  let ?crc = "crc32 (gpt_entries ?z)"
  let ?tables = "[(512, gpt_header 1 (n + 32) 2 2048 (n - 1) ?crc), (1024, gpt_entries ?z), (n * 512, gpt_entries ?z),
    ((n + 32) * 512, gpt_header (n + 32) 1 n 2048 (n - 1) ?crc)]"
  let ?mbr = "protective_mbr (n + 32 + 1)"
  have e: "image_patches ps placed n = ?parts @ ?tables @ ?mbr"
    by (simp add: image_patches_def Let_def GPT_SECTOR_def FIRST_USABLE_def ENTRY_SECTORS_eq)
  have mbr: "within 0 512 ?mbr" "sorted_wrt apart ?mbr" by (simp_all add: protective_mbr_def apart_def)
  have t: "within 512 ((n + 33) * 512) ?tables" "sorted_wrt apart ?tables" using n(1) by (simp_all add: apart_def header_reads(1) el)
  have tm: "sorted_wrt apart (?tables @ ?mbr)" by (rule apart_append [OF t(1) mbr(1) _ t(2) mbr(2)]) simp
  have pt: "apart x y" if "x \<in> set ?parts" "y \<in> set (?tables @ ?mbr)" for x y
  proof -
    have "2048 * 512 \<le> fst x \<and> fst x + length (snd x) \<le> n * 512" using w that(1) by (auto simp: within_def)
    then show ?thesis using that(2) n(1) within_apart [OF w mbr(1) _ that(1)] header_reads(1) el by (auto simp: apart_def split: prod.splits)
  qed
  show "within 0 ((n + 33) * 512) (image_patches ps placed n)"
    unfolding e within_simps(3) using within_mono [OF w, of 0 "(n + 33) * 512"] within_mono [OF t(1), of 0 "(n + 33) * 512"] within_mono [OF mbr(1), of 0 "(n + 33) * 512"]
    by simp
  show "sorted_wrt apart (image_patches ps placed n)" unfolding e sorted_wrt_append using s tm pt by (simp only: sorted_wrt_append) blast
qed

lemma build_image_parts:
  assumes "build_image ps = Inr img"
  shows "\<exists>placed n. place_partitions 2048 ps = Inr (placed, n) \<and> ps \<noteq> [] \<and> length ps \<le> 128 \<and>
    put_all (image_patches ps placed n) (replicate ((n + 33) * 512) 0) = Inr img"
proof -
  have "ps \<noteq> [] \<and> length ps \<le> 128" using assms by (auto simp: build_image_def ENTRY_COUNT_def split: if_splits)
  moreover obtain placed n where "place_partitions FIRST_USABLE ps = Inr (placed, n)"
    "put_all (image_patches ps placed n) (replicate ((n + ENTRY_SECTORS + 1) * GPT_SECTOR) 0) = Inr img"
    using assms by (auto simp: build_image_def and_then_Inr_iff map_err_Inr_iff split: if_splits)
  moreover have "n + ENTRY_SECTORS + 1 = n + 33" by (simp add: ENTRY_SECTORS_eq)
  ultimately show ?thesis unfolding FIRST_USABLE_def GPT_SECTOR_def by metis
qed

lemma put_all_slice:
  assumes "put_all ws x = Inr img" "sorted_wrt apart ws" "(a, bs) \<in> set ws" "bs \<noteq> []"
  shows "take (length bs) (drop a img) = bs"
  using put_all_nth [OF assms(1-3)] assms(4) by (intro slice_eqI) (auto simp: neq_Nil_conv)

text \<open>Through a header at \<open>lba\<close> whose entries are at \<open>at\<close>.\<close>

lemma table_reads:
  assumes h: "sector_at img lba = gpt_header lba other at f l (crc32 es)" and e: "take 16384 (drop (at * 512) img) = es" "length es = 16384"
    and z: "es = gpt_entries z" "length z \<le> 128" "\<forall>x \<in> set z. guids_ok (fst x)" "at < 2 ^ 64"
  shows "gpt_good img lba"
    "i < length z \<Longrightarrow> fst (snd (z ! i)) < 2 ^ 64 \<Longrightarrow> snd (snd (z ! i)) < 2 ^ 64 \<Longrightarrow>
       gpt_partition img lba i = (type_guid (fst (z ! i)), part_guid (fst (z ! i)), snd (z ! i))"
proof -
  have at: "unat (of_nat at :: u64) = at" using z(4) by (intro unat_of_nat_exact) simp
  show "gpt_good img lba" by (simp add: gpt_good_def h header_reads at e(1))
  assume i: "i < length z" "fst (snd (z ! i)) < 2 ^ 64" "snd (snd (z ! i)) < 2 ^ 64"
  have "take 128 (drop (i * 128) es) = take 128 (drop (at * 512 + i * 128) img)"
    unfolding e(1) [symmetric] using i(1) z(2) by (simp add: drop_take take_take drop_drop add.commute min_def)
  then have en: "entry_of img lba i = gpt_entry (fst (z ! i)) (snd (z ! i))"
    using entries_slice(2) [OF z(2,3) i(1)] by (simp add: entry_of_def h header_reads(6) at z(1))
  obtain p a b where zi: "z ! i = (p, a, b)" by (metis prod_cases3)
  have g: "guids_ok p" using z(3) nth_mem [OF i(1)] zi by fastforce
  note R = entry_reads [OF g refl, of a b]
  have "unat (of_nat a :: u64) = a" "unat (of_nat b :: u64) = b" using i(2,3) zi by (auto intro: unat_of_nat_exact)
  then show "gpt_partition img lba i = (type_guid (fst (z ! i)), part_guid (fst (z ! i)), snd (z ! i))"
    by (simp add: gpt_partition_def en zi R)
qed

lemma image_sectors_written:
  fixes ps :: "partition list" and placed :: "(nat \<times> nat) list"
  defines "es \<equiv> gpt_entries (zip ps placed)"
  assumes B: "place_partitions 2048 ps = Inr (placed, n)" "ps \<noteq> []" "length ps \<le> 128" "\<forall>p \<in> set ps. guids_ok p"
    "put_all (image_patches ps placed n) (replicate ((n + 33) * 512) 0) = Inr img"
  shows "length es = 16384" "sector_at img 1 = gpt_header 1 (n + 32) 2 2048 (n - 1) (crc32 es)" "take 16384 (drop (2 * 512) img) = es"
    "sector_at img (n + 32) = gpt_header (n + 32) 1 n 2048 (n - 1) (crc32 es)" "take 16384 (drop (n * 512) img) = es"
    "i < length ps \<Longrightarrow> sectors_between img (fst (placed ! i)) (snd (placed ! i)) = part_contents (ps ! i)"
proof -
  have "2048 dvd (2048 :: nat)" by simp
  note L = place_partitions_ok [OF B(1) this] and P = image_patches_ok [OF B(1-4)]
  note S = put_all_slice [OF B(5) P(2)]
  have pl: "length placed = length ps" using L by simp
  have gz: "\<forall>x \<in> set (zip ps placed). guids_ok (fst x)" using B(4) by (auto dest: set_zip_leftD)
  show el: "length es = 16384" using entries_slice(1) [OF _ gz, of 0] pl B(2,3) by (simp add: es_def)
  let ?h1 = "gpt_header 1 (n + 32) 2 2048 (n - 1) (crc32 es)" and ?h2 = "gpt_header (n + 32) 1 n 2048 (n - 1) (crc32 es)"
  have ws: "(512, ?h1) \<in> set (image_patches ps placed n)" "(2 * 512, es) \<in> set (image_patches ps placed n)"
    "(n * 512, es) \<in> set (image_patches ps placed n)" "((n + 32) * 512, ?h2) \<in> set (image_patches ps placed n)"
    by (simp_all add: image_patches_def Let_def GPT_SECTOR_def FIRST_USABLE_def ENTRY_SECTORS_eq es_def)
  have "gpt_header a b e f l c \<noteq> []" for a b e f l c using header_reads(1) [of a b e f l c] by auto
  then have ne: "?h1 \<noteq> []" "?h2 \<noteq> []" "es \<noteq> []" using el by auto
  show "sector_at img 1 = ?h1" "sector_at img (n + 32) = ?h2"
    using S [OF ws(1) ne(1)] S [OF ws(4) ne(2)] by (simp_all add: sector_at_def header_reads(1))
  show "take 16384 (drop (2 * 512) img) = es" "take 16384 (drop (n * 512) img) = es"
    using S [OF ws(2) ne(3)] S [OF ws(3) ne(3)] by (simp_all add: el)
  show "sectors_between img (fst (placed ! i)) (snd (placed ! i)) = part_contents (ps ! i)" if i: "i < length ps"
  proof -
    have x: "extent_ok (ps ! i) (placed ! i)" using L i list_all2_nthD by blast
    then have c: "part_contents (ps ! i) \<noteq> []" by (auto simp: extent_ok_def)
    have "(ps ! i, placed ! i) \<in> set (zip ps placed)" using i pl by (auto simp: set_zip)
    then have "(\<lambda>(p, first, final). (first * GPT_SECTOR, part_contents p)) (ps ! i, placed ! i) \<in>
        set (map (\<lambda>(p, first, final). (first * GPT_SECTOR, part_contents p)) (zip ps placed))"
      unfolding set_map by (rule imageI)
    then have "(fst (placed ! i) * 512, part_contents (ps ! i)) \<in> set (image_patches ps placed n)"
      by (simp add: image_patches_def Let_def GPT_SECTOR_def case_prod_beta)
    from S [OF this c] show ?thesis using x by (simp add: sectors_between_def extent_ok_def)
  qed
qed

text \<open>
  C40. What is put into an image is found in it, through either table: for every image that is built, the header in sector 1 and the one in the last
  sector are good, with their own checksums and those of their entries; through either of them the partitions are found
  with the types and GUIDs given, in their order, and the sectors each says it has hold exactly its contents; the partitions start on a mebibyte, do
  not overlap, and leave the first 2048 sectors and the backup table alone.
\<close>

theorem image_reads_back:
  assumes "build_image ps = Inr img" "\<forall>p \<in> set ps. length (type_guid p) = 16 \<and> length (part_guid p) = 16" "length img < 2 ^ 64"
    "lba = 1 \<or> lba = length img div 512 - 1"
  shows "gpt_good img lba \<and> (\<exists>extents. length extents = length ps \<and> sorted_wrt (\<lambda>x y. snd x < fst y) extents \<and>
    (\<forall>i < length ps. gpt_partition img lba i = (type_guid (ps ! i), part_guid (ps ! i), extents ! i) \<and>
       sectors_between img (fst (extents ! i)) (snd (extents ! i)) = part_contents (ps ! i) \<and>
       2048 \<le> fst (extents ! i) \<and> 2048 dvd fst (extents ! i) \<and> snd (extents ! i) + 33 < length img div 512))"
proof -
  obtain placed n where B: "place_partitions 2048 ps = Inr (placed, n)" "ps \<noteq> []" "length ps \<le> 128"
    "put_all (image_patches ps placed n) (replicate ((n + 33) * 512) 0) = Inr img"
    using build_image_parts [OF assms(1)] by blast
  have g: "\<forall>p \<in> set ps. guids_ok p" using assms(2) by (simp add: guids_ok_def)
  have "2048 dvd (2048 :: nat)" by simp
  note L = place_partitions_ok [OF B(1) this] and W = image_sectors_written [OF B(1-3) g B(4)]
  have len: "length img = (n + 33) * 512" using put_all_length [OF B(4)] by simp
  let ?z = "zip ps placed"
  have n: "n < 2 ^ 64" "length img div 512 = n + 33" using assms(3) len by simp_all
  have pl: "length placed = length ps" using L by simp
  have z: "length ?z \<le> 128" "\<forall>x \<in> set ?z. guids_ok (fst x)" using B(3) pl g by (auto dest: set_zip_leftD)
  have x: "2048 \<le> fst (placed ! i)" "snd (placed ! i) < n" "2048 dvd fst (placed ! i)" "fst (placed ! i) < 2 ^ 64" "snd (placed ! i) < 2 ^ 64"
    if "i < length ps" for i
  proof -
    show a: "2048 \<le> fst (placed ! i)" "snd (placed ! i) < n" using L nth_mem [of i placed] that pl by simp_all
    have e: "extent_ok (ps ! i) (placed ! i)" using L that list_all2_nthD by blast
    then show "2048 dvd fst (placed ! i)" by (simp add: extent_ok_def)
    show "snd (placed ! i) < 2 ^ 64" "fst (placed ! i) < 2 ^ 64" using a(2) n(1) e by (simp_all add: extent_ok_def)
  qed
  have lba: "gpt_good img lba \<and> (\<forall>i < length ps. gpt_partition img lba i = (type_guid (ps ! i), part_guid (ps ! i), placed ! i))"
  proof (cases "lba = 1")
    case True
    note T = table_reads [OF W(2,3,1) refl z]
    show ?thesis unfolding True using T(1) T(2) x(4,5) pl by simp
  next
    case False
    then have l: "lba = n + 32" using assms(4) n(2) by simp
    note T = table_reads [OF W(4,5,1) refl z n(1)]
    show ?thesis unfolding l using T(1) T(2) x(4,5) pl by simp
  qed
  then show ?thesis using L W(6) x pl n(2) by (intro conjI exI [of _ placed]) auto
qed

definition small_partition :: partition where
  "small_partition = \<lparr>part_name = [79, 78, 69], type_guid = DATA_TYPE, part_guid = DATA_GUID, part_contents = replicate 512 0xAB\<rparr>"

theorem image_reads_back_witness:
  "\<exists>img. build_image [small_partition] = Inr img \<and> gpt_good img 1 \<and>
     (\<exists>first final. gpt_partition img 1 0 = (DATA_TYPE, DATA_GUID, first, final) \<and> sectors_between img first final = replicate 512 0xAB)"
proof -
  have pl: "place_partitions 2048 [small_partition] = Inr ([(2048, 2048)], 4096)"
    by (simp add: small_partition_def GPT_SECTOR_def next_mebibyte_def FIRST_USABLE_def Let_def)
  have g: "length DATA_TYPE = 16" "length DATA_GUID = 16" by (simp_all add: DATA_TYPE_def DATA_GUID_def)
  then have "\<forall>p \<in> set [small_partition]. guids_ok p" by (simp add: small_partition_def guids_ok_def)
  from put_all_ok [of "replicate ((4096 + 33) * 512) 0"] image_patches_ok(1) [OF pl _ _ this]
  obtain img where img: "put_all (image_patches [small_partition] [(2048, 2048)] 4096) (replicate ((4096 + 33) * 512) 0) = Inr img"
    by auto
  then have b: "build_image [small_partition] = Inr img"
    using pl by (simp add: build_image_def ENTRY_COUNT_def FIRST_USABLE_def ENTRY_SECTORS_eq GPT_SECTOR_def)
  have "length img < 2 ^ 64" using put_all_length [OF img] by simp
  from image_reads_back [OF b _ this, of 1] g
  have R: "gpt_good img 1" "\<exists>extents. gpt_partition img 1 0 = (DATA_TYPE, DATA_GUID, extents ! 0) \<and>
      sectors_between img (fst (extents ! 0)) (snd (extents ! 0)) = replicate 512 0xAB"
    by (auto simp: small_partition_def)
  then show ?thesis using b by (metis prod.collapse)
qed

end
