(* ===== verification/Spec2Isabelle.thy ===== *)
theory Spec2Isabelle
  imports Virtio_Disk Free_List Ipc Elf Process Events Scheduler_Safe Syscall_Safe Paging_Spaces Mkfat_Read Keyboard Pe Sync Stacks Gpt
begin

text \<open>
  HARLAN OS is a small kernel for x86-64 in Rust with programs in ring 3 and files on a FAT32 disk. This development
  models its own logic as executable functions and proves what makes it correct. Every definition that models
  code bears the name of the function or type it translates, or a close variant where that name is taken.

  \<^bold>\<open>The parts and how they work together\<close>

  The firmware hands the kernel a memory map and its own PE image. The frame allocator hands out physical frames;
  the wrapper around it zeroes each frame on its way out; the page tables take their own frames from it; the
  heap's free list divides pages of it; the kernel's stacks are mapped above guard pages with both. The kernel
  finds a disk on the PCI bus and drives it through a virtio queue in memory it shares with the device; the FAT32
  volume reads and writes sectors through that driver; the file operations sit on the volume and refuse what
  would hurt an open file or a foreign disk. The loader reads ELF programs from files; the scheduler switches
  between processes, which send each other messages through mailboxes of one slot; the system calls check every
  number and pointer a process passes and answer with numbers of their own; the console and the event log are
  shared between the kernel and the processes, and keys reach the console through the keyboard's ring. The build
  machine makes the disk images: the FAT32 formatter and the partition table.

  \<^bold>\<open>Which theory models which part\<close>

  \<^item> \<^verbatim>\<open>Prelude\<close>: machine integers, results and panics, slices, little-endian bytes, computations over a device.
  \<^item> \<^verbatim>\<open>Hal_Memory\<close>: \<^verbatim>\<open>hal/src/{addr,frame,memory_map,paging}.rs\<close>, the vocabulary of memory.
  \<^item> \<^verbatim>\<open>Frame_Allocator\<close>: \<^verbatim>\<open>kernel/src/memory/frame_allocator.rs\<close> and \<^verbatim>\<open>hal/src/frame.rs\<close>. The state is the bitmap, the map, the table of
    purposes and the counters; a frame is handed out at most once, never outside the map, exactly while one is free.
  \<^item> \<^verbatim>\<open>Zeroed_Frames\<close>: \<^verbatim>\<open>kernel/src/memory/zeroed_frames.rs\<close>. A frame arrives zeroed and no other frame changes.
  \<^item> \<^verbatim>\<open>Free_List\<close>: \<^verbatim>\<open>kernel/src/memory/heap/free_list.rs\<close>. Holes are records in the heap's own memory, which is an explicit store that
    clients write too; live blocks are disjoint, aligned and keep their bytes under every interleaving.
  \<^item> \<^verbatim>\<open>Paging\<close>, \<^verbatim>\<open>Paging_Safe\<close>, \<^verbatim>\<open>Paging_Map\<close>, \<^verbatim>\<open>Paging_Spaces\<close>: \<^verbatim>\<open>arch/x86_64/src/paging.rs\<close>. The tables are a map from frame and index to
    entry, with the flushes recorded. Well-formed tables are a tree that shares no frame with the free ones; mapping adds one
    page or nothing, processes share the kernel's half and nothing else, and an ended process gives back each table once.
  \<^item> \<^verbatim>\<open>Stacks\<close>: \<^verbatim>\<open>kernel/src/memory/stacks.rs\<close>, over the page tables and the allocator. All stacks are there or none is.
  \<^item> \<^verbatim>\<open>Sync\<close>: \<^verbatim>\<open>kernel/src/sync.rs\<close>, the lock that keeps interrupts off, with a step relation for flows and handlers.
  \<^item> \<^verbatim>\<open>Pe\<close>: \<^verbatim>\<open>hal/src/pe.rs\<close> and the relocation of \<^verbatim>\<open>kernel/src/memory/higher_half.rs\<close>, where the iterator reads bytes the loop writes.
  \<^item> \<^verbatim>\<open>Elf\<close>, \<^verbatim>\<open>Process\<close>: \<^verbatim>\<open>hal/src/elf.rs\<close> and \<^verbatim>\<open>kernel/src/process.rs\<close>, programs, the memory of a process and its open files.
  \<^item> \<^verbatim>\<open>Ipc\<close>, \<^verbatim>\<open>Events\<close>: \<^verbatim>\<open>kernel/src/ipc.rs\<close> and \<^verbatim>\<open>kernel/src/events.rs\<close>. Messages and log lines come out once and in order.
  \<^item> \<^verbatim>\<open>Scheduler\<close>, \<^verbatim>\<open>Scheduler_Safe\<close>: the scheduler of \<^verbatim>\<open>kernel/src/user.rs\<close> and \<^verbatim>\<open>kernel/src/scheduler.rs\<close> as a step relation on slots and CPU state.
    The CPU belongs to the current process, no wakeup is lost, no switch panics, and the turns are fair.
  \<^item> \<^verbatim>\<open>Fs\<close>: \<^verbatim>\<open>kernel/src/fs.rs\<close>. \<^verbatim>\<open>Syscall\<close>, \<^verbatim>\<open>Syscall_Safe\<close>: the dispatcher of \<^verbatim>\<open>kernel/src/user.rs\<close>, \<^verbatim>\<open>arch/x86_64/src/syscall.rs\<close>, the console of
    \<^verbatim>\<open>kernel/src/console.rs\<close>, and the encodings that ring 3 decodes. No call panics, whatever it is passed, and a call writes only memory
    of its caller.
  \<^item> \<^verbatim>\<open>Fat_Format\<close>, \<^verbatim>\<open>Fat_Volume\<close>, \<^verbatim>\<open>Fat_Device\<close>, \<^verbatim>\<open>Fat_Read\<close>, \<^verbatim>\<open>Fat_Write\<close>, \<^verbatim>\<open>Fat_Crash\<close>, \<^verbatim>\<open>Fat_Properties\<close>: \<^verbatim>\<open>hal/src/fat.rs\<close>. The volume runs over a device it
    reads and writes by sectors; a written file reads back, other files survive any failure, and a read is exact.
  \<^item> \<^verbatim>\<open>Pci\<close>, \<^verbatim>\<open>Virtio\<close>, \<^verbatim>\<open>Virtio_Blk\<close>, \<^verbatim>\<open>Virtio_Disk\<close>: \<^verbatim>\<open>hal/src/pci.rs\<close>, \<^verbatim>\<open>hal/src/virtio.rs\<close> and \<^verbatim>\<open>kernel/src/devices/virtio_blk.rs\<close>. The device is a
    parameter that reads the queue from shared memory and answers when it likes.
  \<^item> \<^verbatim>\<open>Keyboard\<close>: \<^verbatim>\<open>arch/x86_64/src/keyboard.rs\<close>. The ring keeps order under every interleaving of the handler and the reader.
  \<^item> \<^verbatim>\<open>Mkfat\<close>, \<^verbatim>\<open>Mkfat_Size\<close>, \<^verbatim>\<open>Mkfat_Image\<close>, \<^verbatim>\<open>Mkfat_Read\<close>: \<^verbatim>\<open>tools/xtask/src/fat32.rs\<close>. What the formatter writes, the kernel's volume reads.
  \<^item> \<^verbatim>\<open>Gpt\<close>: \<^verbatim>\<open>tools/xtask/src/gpt.rs\<close>. What is put into partitions is found through both tables, and their checksums hold.

  \<^bold>\<open>Interfaces\<close>

  A locale states what one part relies on of another, and an interpretation proves it of the code's own model:
  \<^verbatim>\<open>frame_source\<close> (frames are handed out once) and \<^verbatim>\<open>table_frames\<close> (and can be named by an entry) for the allocator under the page tables;
  \<^verbatim>\<open>medium\<close> (sectors read what was written, and a failure changes at most the sector asked for) for what the FAT volume needs of a device,
  interpreted by a plain image, by one that stops at any moment, and, through \<^verbatim>\<open>block_device\<close>, by the virtio driver over any
  device that serves chains as the specification says; \<^verbatim>\<open>one_slot\<close> for a mailbox. \<^verbatim>\<open>Stacks\<close> has a Hoare triple for calls that may fail.

  \<^bold>\<open>Numbers, bounds and fuel\<close>

  Fixed-width integers are words, so arithmetic wraps; where the source checks or a debug build panics, the model
  does too. Counts and indices of things in memory are natural numbers. Loops are structural or have a
  termination proof; where the source bounds a loop the bound is the source's own: 20000000 looks at a used ring, 200000 at the keyboard
  controller, 48 capabilities, 16 bytes of one interrupt, the clusters a file can have. No function of the model takes fuel that the source
  does not have. A panic is a value, so that its absence is a theorem.

  \<^bold>\<open>Not modelled\<close>

  Naked assembly and CPU tables (entry stubs, descriptor tables, the switch itself, whose effect on stacks and
  tables is the CPU state of the scheduler); single instructions on ports and registers; the UEFI
  calls of the boot loader, which go through a crate that is not part of the repository; the order in which the
  kernel starts its parts and its log lines; the kernel's shell, the drawing of glyphs and the programs of ring 3; and the
  driver that starts the emulator for tests. Creating a process from a file and starting it is modelled up to the
  checked program and its memory, not the copying into its pages.
\<close>

end
